(* ===== verification/Rust_Prelude.thy ===== *)
theory Rust_Prelude
  imports Main "HOL-Library.Word" "HOL-Library.Char_ord" "HOL-Library.List_Lexorder"
    "HOL-Library.Sublist" "HOL-Library.Multiset" "HOL-Library.Code_Target_Nat"
begin

text \<open>
  The parts of the Rust language and standard library that every component uses: the
  \<open>Ordering\<close> enum and comparator laws, the stable \<open>sort_by\<close>, the bisecting
  \<open>binary_search_by\<close> and \<open>partition_point\<close>, slice access by index, saturating
  \<open>usize\<close> arithmetic on a 64-bit target, and \<open>Result\<close> as a sum whose left side is
  the error.  Comparator laws are the locale \<open>total_cmp\<close>: what a client of
  \<open>sort_by\<close> may rely on is proved once inside it.
\<close>

named_theorems cmp_simps \<open>evaluation of comparisons and orderings\<close>
named_theorems sort_facts \<open>multiset, set and length of sorted lists\<close>

section \<open>Results\<close>

type_synonym ('e, 'a) result = "'e + 'a"

abbreviation Err :: "'e \<Rightarrow> ('e, 'a) result" where "Err \<equiv> Inl"
abbreviation Ok :: "'a \<Rightarrow> ('e, 'a) result" where "Ok \<equiv> Inr"

text \<open>The question-mark operator and \<open>map_err\<close>.\<close>

definition and_then :: "('e, 'a) result \<Rightarrow> ('a \<Rightarrow> ('e, 'b) result) \<Rightarrow> ('e, 'b) result" where
  "and_then r f = (case r of Inl e \<Rightarrow> Err e | Inr x \<Rightarrow> f x)"

definition map_err :: "('e \<Rightarrow> 'f) \<Rightarrow> ('e, 'a) result \<Rightarrow> ('f, 'a) result" where
  "map_err g r = (case r of Inl e \<Rightarrow> Err (g e) | Inr x \<Rightarrow> Ok x)"

definition ok_or :: "'e \<Rightarrow> 'a option \<Rightarrow> ('e, 'a) result" where
  "ok_or e x = (case x of None \<Rightarrow> Err e | Some y \<Rightarrow> Ok y)"

lemma and_then_simps [simp]:
  "and_then (Err e) f = Err e" "and_then (Ok x) f = f x"
  by (simp_all add: and_then_def)

lemma map_err_simps [simp]:
  "map_err g (Err e) = Err (g e)" "map_err g (Ok x) = Ok x"
  by (simp_all add: map_err_def)

lemma ok_or_simps [simp]: "ok_or e None = Err e" "ok_or e (Some x) = Ok x"
  by (simp_all add: ok_or_def)

lemma and_then_eq_Ok: "and_then r f = Ok y \<longleftrightarrow> (\<exists>x. r = Ok x \<and> f x = Ok y)"
  by (cases r) auto

lemma map_err_eq_Ok [simp]: "map_err g r = Ok y \<longleftrightarrow> r = Ok y"
  by (cases r) auto

text \<open>\<open>try_for_each\<close> over a state, and \<open>collect\<close> into a \<open>Result\<close>: the first error ends the loop.\<close>

fun try_fold :: "('x \<Rightarrow> 's \<Rightarrow> ('e, 's) result) \<Rightarrow> 'x list \<Rightarrow> 's \<Rightarrow> ('e, 's) result" where
  "try_fold f [] s = Ok s"
| "try_fold f (x # xs) s = and_then (f x s) (try_fold f xs)"

fun try_map :: "('x \<Rightarrow> ('e, 'y) result) \<Rightarrow> 'x list \<Rightarrow> ('e, 'y list) result" where
  "try_map f [] = Ok []"
| "try_map f (x # xs) = and_then (f x) (\<lambda>y. and_then (try_map f xs) (\<lambda>ys. Ok (y # ys)))"

lemma try_fold_view:
  "(\<And>x s s'. x \<in> set xs \<Longrightarrow> f x s = Ok s' \<Longrightarrow> view s' = g x (view s))
    \<Longrightarrow> try_fold f xs s = Ok s' \<Longrightarrow> view s' = fold g xs (view s)"
proof (induction xs arbitrary: s)
  case (Cons x xs)
  then obtain t where t: "f x s = Ok t" "try_fold f xs t = Ok s'" by (auto simp: and_then_eq_Ok)
  have "view s' = fold g xs (view t)" using Cons.IH [OF _ t(2)] Cons.prems(1) by simp
  moreover have "view t = g x (view s)" using Cons.prems(1) t(1) by simp
  ultimately show ?case by simp
qed simp

lemma try_fold_inv:
  "(\<And>x s s'. x \<in> set xs \<Longrightarrow> I s \<Longrightarrow> f x s = Ok s' \<Longrightarrow> I s' \<and> view s' = g x (view s))
    \<Longrightarrow> I s \<Longrightarrow> try_fold f xs s = Ok s' \<Longrightarrow> I s' \<and> view s' = fold g xs (view s)"
proof (induction xs arbitrary: s)
  case (Cons x xs)
  then obtain t where t: "f x s = Ok t" "try_fold f xs t = Ok s'" by (auto simp: and_then_eq_Ok)
  have first: "I t" "view t = g x (view s)" using Cons.prems(1) [of x s t] Cons.prems(2) t(1) by simp_all
  have "I s' \<and> view s' = fold g xs (view t)"
    by (rule Cons.IH [OF _ first(1) t(2)]) (use Cons.prems(1) in auto)
  with first(2) show ?case by simp
qed simp

lemma try_map_Ok: "try_map f xs = Ok ys \<longleftrightarrow> list_all2 (\<lambda>x y. f x = Ok y) xs ys"
  by (induction xs arbitrary: ys) (auto simp: and_then_eq_Ok list_all2_Cons1)

lemma try_map_total: "(\<And>x. x \<in> set xs \<Longrightarrow> f x = Ok (g x)) \<Longrightarrow> try_map f xs = Ok (map g xs)"
  by (induction xs) auto

section \<open>Machine sizes\<close>

text \<open>\<open>usize\<close> on the 64-bit targets the crate supports: a natural number whose
  saturating addition stops at \<open>usize::MAX\<close>.  Saturating subtraction is subtraction of
  naturals.\<close>

definition usize_max :: nat where "usize_max = 2 ^ 64 - 1"

definition sat_add :: "nat \<Rightarrow> nat \<Rightarrow> nat" where
  "sat_add a b = min (a + b) usize_max"

lemma sat_add_exact: "a + b \<le> usize_max \<Longrightarrow> sat_add a b = a + b"
  by (simp add: sat_add_def)

lemma sat_add_le: "sat_add a b \<le> usize_max"
  by (simp add: sat_add_def)

lemma sat_add_commute: "sat_add a b = sat_add b a"
  by (simp add: sat_add_def add.commute)

lemma sat_add_assoc: "sat_add (sat_add a b) c = sat_add a (sat_add b c)"
  by (simp add: sat_add_def)

section \<open>Slices\<close>

definition slice_get :: "'a list \<Rightarrow> nat \<Rightarrow> 'a option" where
  "slice_get xs i = (if i < length xs then Some (xs ! i) else None)"

lemma slice_get_simps [simp]:
  "i < length xs \<Longrightarrow> slice_get xs i = Some (xs ! i)"
  "length xs \<le> i \<Longrightarrow> slice_get xs i = None"
  by (simp_all add: slice_get_def)

lemma slice_get_eq_Some: "slice_get xs i = Some x \<longleftrightarrow> i < length xs \<and> xs ! i = x"
  by (auto simp: slice_get_def)

lemma slice_get_eq_None: "slice_get xs i = None \<longleftrightarrow> length xs \<le> i"
  by (auto simp: slice_get_def)

text \<open>Writing through \<open>get_mut\<close>: nothing happens out of range.\<close>

definition slice_modify :: "nat \<Rightarrow> ('a \<Rightarrow> 'a) \<Rightarrow> 'a list \<Rightarrow> 'a list" where
  "slice_modify i f xs = (if i < length xs then xs[i := f (xs ! i)] else xs)"

lemma length_slice_modify [simp]: "length (slice_modify i f xs) = length xs"
  by (simp add: slice_modify_def)

lemma nth_slice_modify:
  "j < length xs \<Longrightarrow> slice_modify i f xs ! j = (if i = j then f (xs ! j) else xs ! j)"
  by (simp add: slice_modify_def nth_list_update)

lemma find_filter_hd: "List.find P xs = (case filter P xs of [] \<Rightarrow> None | x # _ \<Rightarrow> Some x)"
  by (induction xs) auto

section \<open>Orderings and comparators\<close>

datatype ordering = Less | Equal | Greater

fun reverse_ord :: "ordering \<Rightarrow> ordering" where
  "reverse_ord Less = Greater"
| "reverse_ord Equal = Equal"
| "reverse_ord Greater = Less"

fun then_with :: "ordering \<Rightarrow> ordering \<Rightarrow> ordering" where
  "then_with Equal o2 = o2"
| "then_with o1 o2 = o1"

text \<open>\<open>Ord::cmp\<close> of a type with a linear order.\<close>

definition compare :: "'a::linorder \<Rightarrow> 'a \<Rightarrow> ordering" where
  "compare x y = (if x < y then Less else if x = y then Equal else Greater)"

lemma reverse_ord_eq [cmp_simps, simp]:
  "reverse_ord o1 = Less \<longleftrightarrow> o1 = Greater"
  "reverse_ord o1 = Equal \<longleftrightarrow> o1 = Equal"
  "reverse_ord o1 = Greater \<longleftrightarrow> o1 = Less"
  "reverse_ord (reverse_ord o1) = o1"
  by (cases o1; simp)+

lemma reverse_then_with [cmp_simps]:
  "reverse_ord (then_with o1 o2) = then_with (reverse_ord o1) (reverse_ord o2)"
  by (cases o1) auto

lemma then_with_eq [cmp_simps]:
  "then_with o1 o2 = Equal \<longleftrightarrow> o1 = Equal \<and> o2 = Equal"
  "then_with o1 o2 = Greater \<longleftrightarrow> o1 = Greater \<or> o1 = Equal \<and> o2 = Greater"
  "then_with o1 o2 = Less \<longleftrightarrow> o1 = Less \<or> o1 = Equal \<and> o2 = Less"
  by (cases o1; simp)+

lemma compare_eq [cmp_simps, simp]:
  "compare x y = Equal \<longleftrightarrow> x = y"
  "compare x y = Less \<longleftrightarrow> x < y"
  "compare x y = Greater \<longleftrightarrow> y < x"
  by (auto simp: compare_def)

lemma compare_reverse [cmp_simps]: "reverse_ord (compare x y) = compare y x"
  by (auto simp: compare_def)

text \<open>The contract of a comparison closure: reflexive, reversible and transitive.
  \<open>sort_by\<close>, \<open>binary_search_by\<close> and \<open>select_nth_unstable_by\<close> require it.\<close>

locale total_cmp =
  fixes cmp :: "'a \<Rightarrow> 'a \<Rightarrow> ordering"
  assumes cmp_refl: "cmp x x = Equal"
    and cmp_reverse: "cmp y x = reverse_ord (cmp x y)"
    and cmp_trans: "cmp x y \<noteq> Greater \<Longrightarrow> cmp y z \<noteq> Greater \<Longrightarrow> cmp x z \<noteq> Greater"
begin

lemma cmp_Greater_iff: "cmp x y = Greater \<longleftrightarrow> cmp y x = Less"
  by (subst cmp_reverse) (cases "cmp y x"; simp)

lemma cmp_Equal_sym: "cmp x y = Equal \<longleftrightarrow> cmp y x = Equal"
  by (subst cmp_reverse) (cases "cmp y x"; simp)

lemma cmp_Less_trans: "cmp x y = Less \<Longrightarrow> cmp y z \<noteq> Greater \<Longrightarrow> cmp x z = Less"
  by (metis cmp_reverse cmp_trans ordering.exhaust ordering.simps(4) ordering.simps(6)
      reverse_ord.simps)

lemma cmp_le_Less_trans: "cmp x y \<noteq> Greater \<Longrightarrow> cmp y z = Less \<Longrightarrow> cmp x z = Less"
  by (metis cmp_reverse cmp_trans ordering.exhaust ordering.simps(4) ordering.simps(6)
      reverse_ord.simps)

lemma cmp_Equal_trans: "cmp x y = Equal \<Longrightarrow> cmp y z = Equal \<Longrightarrow> cmp x z = Equal"
  by (metis cmp_Equal_sym cmp_Greater_iff cmp_trans ordering.distinct(3,5) ordering.exhaust)

lemma cmp_Equal_left: "cmp x y = Equal \<Longrightarrow> cmp x z = cmp y z"
  by (metis cmp_Equal_sym cmp_Equal_trans cmp_Greater_iff cmp_Less_trans cmp_le_Less_trans
      ordering.distinct ordering.exhaust)

end

interpretation linorder_cmp: total_cmp "compare :: 'a::linorder \<Rightarrow> 'a \<Rightarrow> ordering"
  by unfold_locales (auto simp: cmp_simps)

text \<open>Comparing through a key, reversed, or by one comparator and then another, keeps
  the contract.\<close>

lemma total_cmp_key: "total_cmp cmp \<Longrightarrow> total_cmp (\<lambda>x y. cmp (f x) (f y))"
  unfolding total_cmp_def by metis

lemma total_cmp_reverse: "total_cmp cmp \<Longrightarrow> total_cmp (\<lambda>x y. reverse_ord (cmp x y))"
  unfolding total_cmp_def by (metis reverse_ord_eq(3) reverse_ord.simps(2))

lemma total_cmp_then_with:
  assumes c1: "total_cmp c1" and c2: "total_cmp c2"
  shows "total_cmp (\<lambda>x y. then_with (c1 x y) (c2 x y))"
proof
  note a = total_cmp.cmp_Equal_left [OF c1] total_cmp.cmp_Less_trans [OF c1]
    total_cmp.cmp_trans [OF c1] total_cmp.cmp_trans [OF c2]
  fix x y z
  show "then_with (c1 x x) (c2 x x) = Equal"
    by (simp add: total_cmp.cmp_refl [OF c1] total_cmp.cmp_refl [OF c2])
  show "then_with (c1 y x) (c2 y x) = reverse_ord (then_with (c1 x y) (c2 x y))"
    by (metis total_cmp.cmp_reverse [OF c1] total_cmp.cmp_reverse [OF c2] reverse_then_with)
  assume "then_with (c1 x y) (c2 x y) \<noteq> Greater" "then_with (c1 y z) (c2 y z) \<noteq> Greater"
  then show "then_with (c1 x z) (c2 x z) \<noteq> Greater"
    unfolding then_with_eq by (metis a ordering.exhaust ordering.distinct(3))
qed

text \<open>Elements in different classes are compared by their class, elements of one class by a
  comparator of that class.\<close>

lemma total_cmp_classes:
  assumes c: "\<And>k. total_cmp (c k)"
  shows "total_cmp (\<lambda>x y. if key x = key y then c (key x) x y else compare (key x) (key y))"
proof
  fix x y z
  show "(if key x = key x then c (key x) x x else compare (key x) (key x)) = Equal"
    by (simp add: total_cmp.cmp_refl [OF c])
  show "(if key y = key x then c (key y) y x else compare (key y) (key x))
    = reverse_ord (if key x = key y then c (key x) x y else compare (key x) (key y))"
    using total_cmp.cmp_reverse [OF c, of _ y x] by (simp add: cmp_simps)
  assume "(if key x = key y then c (key x) x y else compare (key x) (key y)) \<noteq> Greater"
    "(if key y = key z then c (key y) y z else compare (key y) (key z)) \<noteq> Greater"
  then show "(if key x = key z then c (key x) x z else compare (key x) (key z)) \<noteq> Greater"
    using total_cmp.cmp_trans [OF c, of _ x y z] by (auto split: if_splits)
qed

text \<open>\<open>Iterator::cmp\<close>: elementwise, a shorter sequence before its extensions.\<close>

fun lex_by :: "('a \<Rightarrow> 'a \<Rightarrow> ordering) \<Rightarrow> 'a list \<Rightarrow> 'a list \<Rightarrow> ordering" where
  "lex_by f [] [] = Equal"
| "lex_by f [] (y # ys) = Less"
| "lex_by f (x # xs) [] = Greater"
| "lex_by f (x # xs) (y # ys) = then_with (f x y) (lex_by f xs ys)"

lemma lex_by_cong [fundef_cong]:
  assumes "xs = xs'" "ys = ys'" "\<And>x y. x \<in> set xs' \<Longrightarrow> y \<in> set ys' \<Longrightarrow> f x y = g x y"
  shows "lex_by f xs ys = lex_by g xs' ys'"
  using assms(3) unfolding assms(1,2)
  by (induction g xs' ys' rule: lex_by.induct) simp_all

lemma total_cmp_lex_by:
  assumes "total_cmp f"
  shows "total_cmp (lex_by f)"
proof
  note laws = total_cmp.cmp_refl [OF assms] total_cmp.cmp_Equal_left [OF assms]
    total_cmp.cmp_Less_trans [OF assms] total_cmp.cmp_trans [OF assms]
  show "lex_by f xs xs = Equal" for xs
    by (induction xs) (simp_all add: laws(1))
  show "lex_by f ys xs = reverse_ord (lex_by f xs ys)" for xs ys
  proof (induction xs arbitrary: ys)
    case Nil
    then show ?case by (cases ys) simp_all
  next
    case (Cons x xs)
    then show ?case
      by (cases ys) (simp_all add: reverse_then_with total_cmp.cmp_reverse [OF assms, symmetric])
  qed
  show "lex_by f xs ys \<noteq> Greater \<Longrightarrow> lex_by f ys zs \<noteq> Greater \<Longrightarrow> lex_by f xs zs \<noteq> Greater" for xs ys zs
  proof (induction xs arbitrary: ys zs)
    case Nil
    then show ?case by (cases zs) simp_all
  next
    case (Cons x xs)
    obtain y ys' where y: "ys = y # ys'" using Cons.prems(1) by (cases ys) auto
    obtain z zs' where z: "zs = z # zs'" using Cons.prems(2) y by (cases zs) auto
    note yz = y z
    have yz': "f y z = Less \<or> f y z = Equal \<and> lex_by f ys' zs' \<noteq> Greater"
      using Cons.prems(2) by (cases "f y z") (simp_all add: yz)
    have "f x z = Less \<or> f x z = Equal \<and> lex_by f xs zs' \<noteq> Greater"
    proof (cases "f x y")
      case Less
      with yz' laws(3) [of x y z] show ?thesis by auto
    next
      case Equal
      with Cons.prems(1) have "lex_by f xs ys' \<noteq> Greater" by (simp add: yz)
      with yz' laws(2) [OF Equal, of z] Cons.IH [of ys' zs'] show ?thesis by auto
    next
      case Greater
      with Cons.prems(1) show ?thesis by (simp add: yz)
    qed
    then show ?case by (auto simp: yz then_with_eq)
  qed
qed

end
