(* ===== verification/Rust_Text.thy ===== *)
theory Rust_Text
  imports Rust_Prelude
begin

text \<open>
  Rust text.  A \<open>str\<close> is the list of its UTF-8 bytes, so that \<open>len\<close>, byte offsets and
  the derived \<open>Ord\<close> are those of the list; a \<open>char\<close> is the slice of bytes of one scalar
  value, found by the width its lead byte announces.  The character classes are written
  out for ASCII; beyond ASCII they are the Unicode tables of the standard library, which
  are a parameter of the model (\<open>unicode\<close>).
\<close>

named_theorems text_eval \<open>evaluation of text functions on literals\<close>

section \<open>Characters\<close>

definition char_width :: "char \<Rightarrow> nat" where
  "char_width c = (let n = (of_char c :: nat) in
     if n < 128 then 1 else if n < 224 then 2 else if n < 240 then 3 else 4)"

lemma char_width_pos [simp]: "0 < char_width c"
  by (simp add: char_width_def Let_def)

fun chars :: "string \<Rightarrow> string list" where
  "chars [] = []"
| "chars (c # cs) =
     (c # take (char_width c - 1) cs) # chars (drop (char_width c - 1) cs)"

lemma concat_chars [simp]: "concat (chars s) = s"
  by (induction s rule: chars.induct) simp_all

lemma chars_nonempty: "ch \<in> set (chars s) \<Longrightarrow> ch \<noteq> []"
  by (induction s rule: chars.induct) auto

text \<open>Text made of whole characters: what every \<open>str\<close> is.\<close>

definition whole_chars :: "string \<Rightarrow> bool" where
  "whole_chars s \<longleftrightarrow> (\<forall>ch\<in>set (chars s). length ch = char_width (hd ch))"

lemma chars_append: "whole_chars a \<Longrightarrow> chars (a @ b) = chars a @ chars b"
proof (induction a rule: chars.induct)
  case (2 c cs)
  then have "min (length cs) (char_width c - 1) = char_width c - 1"
    and rest: "whole_chars (drop (char_width c - 1) cs)"
    by (auto simp: whole_chars_def)
  then have "char_width c - 1 \<le> length cs" by linarith
  then show ?case using 2(1) [OF rest] by simp
qed simp

lemma whole_chars_append: "whole_chars a \<Longrightarrow> whole_chars b \<Longrightarrow> whole_chars (a @ b)"
  unfolding whole_chars_def [of "a @ b"]
  by (simp add: chars_append) (auto simp: whole_chars_def)

lemma whole_chars_Nil [simp]: "whole_chars []"
  by (simp add: whole_chars_def)

lemma chars_single: "ch \<in> set (chars s) \<Longrightarrow> chars ch = [ch]"
proof (induction s rule: chars.induct)
  case (2 c cs)
  then show ?case by (auto split: if_splits)
qed simp

lemma chars_eq_Nil [simp]: "chars s = [] \<longleftrightarrow> s = []"
  by (cases s) simp_all

text \<open>\<open>str::char_indices\<close>: every character with the byte offset it starts at.\<close>

fun indices_from :: "nat \<Rightarrow> string list \<Rightarrow> (nat \<times> string) list" where
  "indices_from n [] = []"
| "indices_from n (ch # chs) = (n, ch) # indices_from (n + length ch) chs"

definition char_indices :: "string \<Rightarrow> (nat \<times> string) list" where
  "char_indices s = indices_from 0 (chars s)"

lemma map_snd_indices_from [simp]: "map snd (indices_from n chs) = chs"
  by (induction n chs rule: indices_from.induct) simp_all

definition ascii :: "char \<Rightarrow> bool" where
  "ascii c \<longleftrightarrow> (of_char c :: nat) < 128"

definition ascii_upper :: "char \<Rightarrow> bool" where
  "ascii_upper c \<longleftrightarrow> CHR ''A'' \<le> c \<and> c \<le> CHR ''Z''"

definition ascii_lower :: "char \<Rightarrow> bool" where
  "ascii_lower c \<longleftrightarrow> CHR ''a'' \<le> c \<and> c \<le> CHR ''z''"

definition ascii_alpha :: "char \<Rightarrow> bool" where
  "ascii_alpha c \<longleftrightarrow> ascii_upper c \<or> ascii_lower c"

definition ascii_digit :: "char \<Rightarrow> bool" where
  "ascii_digit c \<longleftrightarrow> CHR ''0'' \<le> c \<and> c \<le> CHR ''9''"

definition ascii_alnum :: "char \<Rightarrow> bool" where
  "ascii_alnum c \<longleftrightarrow> ascii_alpha c \<or> ascii_digit c"

definition to_ascii_lower :: "char \<Rightarrow> char" where
  "to_ascii_lower c = (if ascii_upper c then char_of ((of_char c :: nat) + 32) else c)"

definition eq_ignore_ascii_case :: "string \<Rightarrow> string \<Rightarrow> bool" where
  "eq_ignore_ascii_case a b \<longleftrightarrow> map to_ascii_lower a = map to_ascii_lower b"

lemma eq_ignore_ascii_case_refl [simp]: "eq_ignore_ascii_case a a"
  by (simp add: eq_ignore_ascii_case_def)

text \<open>The Unicode tables of the standard library beyond ASCII.\<close>

record unicode =
  wide_alphabetic :: "string \<Rightarrow> bool"
  wide_alphanumeric :: "string \<Rightarrow> bool"
  wide_lowercase :: "string \<Rightarrow> string"

definition unicode_tables :: "unicode \<Rightarrow> bool" where
  "unicode_tables u \<longleftrightarrow> (\<forall>ch. wide_alphabetic u ch \<longrightarrow> wide_alphanumeric u ch)"

definition is_alphabetic :: "unicode \<Rightarrow> string \<Rightarrow> bool" where
  "is_alphabetic u ch = (case ch of [c] \<Rightarrow> ascii_alpha c | _ \<Rightarrow> wide_alphabetic u ch)"

definition is_alphanumeric :: "unicode \<Rightarrow> string \<Rightarrow> bool" where
  "is_alphanumeric u ch = (case ch of [c] \<Rightarrow> ascii_alnum c | _ \<Rightarrow> wide_alphanumeric u ch)"

lemma is_alphabetic_alphanumeric:
  "unicode_tables u \<Longrightarrow> is_alphabetic u ch \<Longrightarrow> is_alphanumeric u ch"
  by (auto simp: unicode_tables_def is_alphabetic_def is_alphanumeric_def ascii_alnum_def
      split: list.splits)

text \<open>\<open>char::to_lowercase\<close>: the text a character lowers to, of one or more characters.\<close>

definition char_to_lowercase :: "unicode \<Rightarrow> string \<Rightarrow> string" where
  "char_to_lowercase u ch = (case ch of [c] \<Rightarrow> [to_ascii_lower c] | _ \<Rightarrow> wide_lowercase u ch)"

text \<open>\<open>char::is_whitespace\<close>: the 25 scalars of the White\_Space property, in UTF-8.\<close>

definition is_whitespace :: "string \<Rightarrow> bool" where
  "is_whitespace ch \<longleftrightarrow>
     (let ns = map of_char ch :: nat list in
        (\<exists>n\<in>{9, 10, 11, 12, 13, 32}. ns = [n])
      \<or> (\<exists>n\<in>{133, 160}. ns = [194, n])
      \<or> ns = [225, 154, 128]
      \<or> (\<exists>n\<in>{128, 129, 130, 131, 132, 133, 134, 135, 136, 137, 138, 168, 169, 175}.
            ns = [226, 128, n])
      \<or> ns = [226, 129, 159]
      \<or> ns = [227, 128, 128])"

text \<open>\<open>str::trim\<close> and its two halves.\<close>

definition trim_start :: "string \<Rightarrow> string" where
  "trim_start s = concat (dropWhile is_whitespace (chars s))"

definition trim_end :: "string \<Rightarrow> string" where
  "trim_end s = concat (rev (dropWhile is_whitespace (rev (chars s))))"

definition trim :: "string \<Rightarrow> string" where
  "trim s = concat (rev (dropWhile is_whitespace (rev (dropWhile is_whitespace (chars s)))))"

section \<open>Prefixes, suffixes and splitting\<close>

definition strip_prefix :: "string \<Rightarrow> string \<Rightarrow> string option" where
  "strip_prefix p s = (if prefix p s then Some (drop (length p) s) else None)"

definition strip_suffix :: "string \<Rightarrow> string \<Rightarrow> string option" where
  "strip_suffix p s = (if suffix p s then Some (take (length s - length p) s) else None)"

lemma strip_prefix_Some: "strip_prefix p s = Some r \<longleftrightarrow> s = p @ r"
  by (auto simp: strip_prefix_def prefix_def)

lemma strip_suffix_Some: "strip_suffix p s = Some r \<longleftrightarrow> s = r @ p"
  by (auto simp: strip_suffix_def suffix_def)

lemma strip_prefix_None: "strip_prefix p s = None \<longleftrightarrow> \<not> prefix p s"
  by (auto simp: strip_prefix_def)

text \<open>\<open>str::split\<close> and \<open>str::split_once\<close> on an ASCII character, and their inverse.\<close>

fun split_on :: "'a \<Rightarrow> 'a list \<Rightarrow> 'a list list" where
  "split_on c [] = [[]]"
| "split_on c (x # xs) =
     (if x = c then [] # split_on c xs
      else case split_on c xs of w # ws \<Rightarrow> (x # w) # ws | [] \<Rightarrow> [[x]])"

fun join_with :: "'a list \<Rightarrow> 'a list list \<Rightarrow> 'a list" where
  "join_with sep [] = []"
| "join_with sep [w] = w"
| "join_with sep (w # ws) = w @ sep @ join_with sep ws"

lemma split_on_nonempty [simp]: "split_on c xs \<noteq> []"
  by (induction xs) (auto split: list.splits)

lemma join_with_Cons:
  "ws \<noteq> [] \<Longrightarrow> join_with sep (w # ws) = w @ sep @ join_with sep ws"
  by (cases ws) simp_all

lemma join_with_Cons_Cons: "join_with sep ((x # w) # ws) = x # join_with sep (w # ws)"
  by (cases ws) simp_all

lemma join_split [simp]: "join_with [c] (split_on c xs) = xs"
proof (induction xs)
  case (Cons x xs)
  then show ?case
    by (cases "split_on c xs") (auto simp: join_with_Cons join_with_Cons_Cons)
qed simp

lemma split_on_no_sep: "w \<in> set (split_on c xs) \<Longrightarrow> c \<notin> set w"
  by (induction xs arbitrary: w) (auto split: if_splits list.splits)

lemma split_on_plain: "c \<notin> set w \<Longrightarrow> split_on c w = [w]"
  by (induction w) auto

lemma split_on_append: "c \<notin> set w \<Longrightarrow> split_on c (w @ c # xs) = w # split_on c xs"
  by (induction w) auto

lemma split_join:
  "ws \<noteq> [] \<Longrightarrow> \<forall>w\<in>set ws. c \<notin> set w \<Longrightarrow> split_on c (join_with [c] ws) = ws"
  by (induction "[c]" ws rule: join_with.induct) (auto simp: split_on_plain split_on_append)

definition split_once :: "'a \<Rightarrow> 'a list \<Rightarrow> ('a list \<times> 'a list) option" where
  "split_once c xs =
     (if c \<in> set xs
      then Some (takeWhile (\<lambda>x. x \<noteq> c) xs, tl (dropWhile (\<lambda>x. x \<noteq> c) xs)) else None)"

lemma takeWhile_before: "c \<notin> set a \<Longrightarrow> takeWhile (\<lambda>x. x \<noteq> c) (a @ c # b) = a"
  by (induction a) auto

lemma dropWhile_before: "c \<notin> set a \<Longrightarrow> dropWhile (\<lambda>x. x \<noteq> c) (a @ c # b) = c # b"
  by (induction a) auto

lemma split_once_append: "c \<notin> set a \<Longrightarrow> split_once c (a @ c # b) = Some (a, b)"
  by (simp add: split_once_def takeWhile_before dropWhile_before)

lemma split_once_Some:
  "split_once c xs = Some (a, b) \<longleftrightarrow> xs = a @ c # b \<and> c \<notin> set a"
proof
  assume split: "split_once c xs = Some (a, b)"
  then have "c \<in> set xs" by (auto simp: split_once_def split: if_splits)
  then obtain a' b' where "xs = a' @ c # b'" "c \<notin> set a'"
    by (metis split_list_first)
  with split show "xs = a @ c # b \<and> c \<notin> set a"
    by (simp add: split_once_append)
qed (simp add: split_once_append)

text \<open>\<open>str::rsplit_once\<close> on an ASCII character: the split at its last occurrence.\<close>

definition rsplit_once :: "'a \<Rightarrow> 'a list \<Rightarrow> ('a list \<times> 'a list) option" where
  "rsplit_once c xs = map_option (\<lambda>(a, b). (rev b, rev a)) (split_once c (rev xs))"

lemma rsplit_once_Some:
  "rsplit_once c xs = Some (a, b) \<longleftrightarrow> xs = a @ c # b \<and> c \<notin> set b"
proof -
  have "rsplit_once c xs = Some (a, b) \<longleftrightarrow> split_once c (rev xs) = Some (rev b, rev a)"
    by (cases "split_once c (rev xs)") (auto simp: rsplit_once_def)
  also have "\<dots> \<longleftrightarrow> rev xs = rev (a @ c # b) \<and> c \<notin> set b"
    by (simp add: split_once_Some)
  finally show ?thesis by (simp only: rev_is_rev_conv)
qed

text \<open>\<open>str::find\<close> on an ASCII character: the byte offset of its first occurrence.\<close>

definition find_byte :: "'a \<Rightarrow> 'a list \<Rightarrow> nat option" where
  "find_byte c xs =
     (if c \<in> set xs then Some (length (takeWhile (\<lambda>x. x \<noteq> c) xs)) else None)"

text \<open>\<open>str::match_indices\<close> on an ASCII character: the offsets of all its occurrences.\<close>

definition match_indices :: "'a \<Rightarrow> 'a list \<Rightarrow> nat list" where
  "match_indices c xs = filter (\<lambda>i. xs ! i = c) [0..<length xs]"

lemmas [text_eval] = strip_prefix_def strip_suffix_def char_indices_def char_width_def
  ascii_def ascii_alpha_def ascii_upper_def ascii_lower_def ascii_digit_def ascii_alnum_def
  is_alphabetic_def is_alphanumeric_def is_whitespace_def trim_def sat_add_def usize_max_def
  less_eq_char_def less_char_def

end
