(* ===== verification/Field_Keys.thy ===== *)
theory Field_Keys
  imports Rust_Text
begin

text \<open>
  The names and keys of \<open>src/field.rs\<close>: validated field names, and forgiving field keys
  that match by a canonical form.  \<open>FieldKeyRef\<close> looks a key up in a hash table, so the
  equivalence it tests and the canonical form it hashes must agree.
\<close>

datatype field_name_error = EmptyName | ContainsSlash string | NotScalar

datatype field_key_error = NameError field_name_error | EmptyCanonical string

definition field_name_validate :: "string \<Rightarrow> (field_name_error, unit) result" where
  "field_name_validate raw = (if trim raw = [] then Err EmptyName
     else if CHR ''/'' \<in> set raw then Err (ContainsSlash raw) else Ok ())"

record field_key =
  key_name :: string
  key_canonical :: string

definition ascii_whitespace :: "string \<Rightarrow> bool" where
  "ascii_whitespace ch \<longleftrightarrow> (\<exists>n\<in>{9, 10, 12, 13, 32 :: nat}. map of_char ch = [n])"

definition is_ascii_char :: "string \<Rightarrow> bool" where
  "is_ascii_char ch \<longleftrightarrow> (case ch of [c] \<Rightarrow> ascii c | _ \<Rightarrow> False)"

definition is_kept :: "string \<Rightarrow> bool" where
  "is_kept ch \<longleftrightarrow> ch = ''_'' \<or> ch = ''-''
     \<or> (case ch of [c] \<Rightarrow> ascii_alnum c | _ \<Rightarrow> False) \<or> \<not> is_ascii_char ch"

definition canonical_char :: "unicode \<Rightarrow> string \<Rightarrow> string" where
  "canonical_char u ch = (if ascii_whitespace ch then ''-''
     else if is_kept ch then char_to_lowercase u ch else [])"

definition canonicalize :: "unicode \<Rightarrow> string \<Rightarrow> string" where
  "canonicalize u raw = concat (map (canonical_char u) (chars raw))"

definition is_canonical_empty :: "string \<Rightarrow> bool" where
  "is_canonical_empty raw \<longleftrightarrow> list_all (\<lambda>ch. \<not> ascii_whitespace ch \<and> \<not> is_kept ch) (chars raw)"

definition is_canonical :: "unicode \<Rightarrow> string \<Rightarrow> bool" where
  "is_canonical u raw \<longleftrightarrow> raw \<noteq> [] \<and> list_all (\<lambda>ch. \<not> ascii_whitespace ch \<and> is_kept ch
     \<and> chars (char_to_lowercase u ch) = [ch]) (chars raw)"

definition to_canonical :: "unicode \<Rightarrow> string \<Rightarrow> string" where
  "to_canonical u raw = (if is_canonical u raw then raw else canonicalize u raw)"

definition field_key_try_new :: "unicode \<Rightarrow> string \<Rightarrow> (field_key_error, field_key) result" where
  "field_key_try_new u raw =
     and_then (map_err NameError (field_name_validate raw)) (\<lambda>_.
       if is_canonical_empty raw then Err (EmptyCanonical raw)
       else Ok \<lparr> key_name = raw, key_canonical = canonicalize u raw \<rparr>)"

text \<open>The infallible conversion from a validated name.\<close>

definition field_key_from_name :: "unicode \<Rightarrow> string \<Rightarrow> field_key" where
  "field_key_from_name u name = \<lparr> key_name = name, key_canonical = canonicalize u name \<rparr>"

definition is_canonical_match :: "unicode \<Rightarrow> field_key \<Rightarrow> string \<Rightarrow> bool" where
  "is_canonical_match u k candidate \<longleftrightarrow>
     key_canonical k = candidate \<or> key_canonical k = to_canonical u candidate"

definition is_match :: "unicode \<Rightarrow> field_key \<Rightarrow> string \<Rightarrow> bool" where
  "is_match u k candidate \<longleftrightarrow> key_name k = candidate \<or> is_canonical_match u k candidate"

definition field_key_eq :: "field_key \<Rightarrow> field_key \<Rightarrow> bool" where
  "field_key_eq a b \<longleftrightarrow> key_canonical a = key_canonical b"

text \<open>What the lookups rely on in the Unicode tables: a character lowers to at least one whole
  character, each of which lowers to itself.\<close>

definition lowercase_tables :: "unicode \<Rightarrow> bool" where
  "lowercase_tables u \<longleftrightarrow> (\<forall>ch. \<not> is_ascii_char ch \<longrightarrow> chars ch = [ch] \<longrightarrow> whole_chars ch
     \<longrightarrow> char_to_lowercase u ch \<noteq> [] \<and> whole_chars (char_to_lowercase u ch)
       \<and> (\<forall>c\<in>set (chars (char_to_lowercase u ch)).
            char_to_lowercase u c = c \<and> is_kept c \<and> \<not> ascii_whitespace c))"

lemma is_kept_iff: "is_kept ch \<longleftrightarrow> ch = ''_'' \<or> ch = ''-'' \<or> (\<exists>c. ch = [c] \<and> ascii_alnum c)
    \<or> \<not> is_ascii_char ch"
  by (cases ch; cases "tl ch") (auto simp: is_kept_def)

section \<open>The canonical form is canonical\<close>

lemma canonicalize_append:
  "whole_chars a \<Longrightarrow> canonicalize u (a @ b) = canonicalize u a @ canonicalize u b"
  by (simp add: canonicalize_def chars_append)

lemma to_canonical_canonicalize: "to_canonical u raw = canonicalize u raw"
proof (cases "is_canonical u raw")
  case True
  then have all: "\<forall>ch\<in>set (chars raw). \<not> ascii_whitespace ch \<and> is_kept ch
      \<and> chars (char_to_lowercase u ch) = [ch]"
    by (simp add: is_canonical_def list_all_iff)
  have "canonical_char u ch = ch" if "ch \<in> set (chars raw)" for ch
  proof -
    have "chars (char_to_lowercase u ch) = [ch]" using all that by blast
    then have "char_to_lowercase u ch = ch"
      by (metis concat.simps append_Nil2 concat_chars)
    then show ?thesis using all that by (simp add: canonical_char_def)
  qed
  then have "map (canonical_char u) (chars raw) = chars raw" by (rule map_idI)
  then show ?thesis using True by (simp add: to_canonical_def canonicalize_def)
qed (simp add: to_canonical_def)

lemma canonicalize_ascii_kept:
  assumes "ascii c" "is_kept [c]" "to_ascii_lower c = c"
  shows "canonicalize u [c] = [c]" "whole_chars [c]"
proof -
  have w: "char_width c = 1" using assms(1) by (simp add: ascii_def char_width_def)
  have "\<not> ascii_whitespace [c]"
    using assms(1,2)
    by (auto simp: ascii_whitespace_def is_kept_def is_ascii_char_def ascii_alnum_def ascii_alpha_def
        ascii_upper_def ascii_lower_def ascii_digit_def less_eq_char_def)
  then show "canonicalize u [c] = [c]"
    using w assms by (simp add: canonicalize_def canonical_char_def char_to_lowercase_def)
  show "whole_chars [c]" using w by (simp add: whole_chars_def)
qed

lemma to_ascii_lower_alnum:
  assumes "ascii_alnum c"
  shows "ascii_alnum (to_ascii_lower c)" "ascii (to_ascii_lower c)"
    "to_ascii_lower (to_ascii_lower c) = to_ascii_lower c"
proof -
  have "ascii_alnum (to_ascii_lower c) \<and> ascii (to_ascii_lower c)
    \<and> to_ascii_lower (to_ascii_lower c) = to_ascii_lower c"
  proof (cases "ascii_upper c")
    case True
    then have n: "65 \<le> (of_char c :: nat)" "(of_char c :: nat) \<le> 90"
      by (simp_all add: ascii_upper_def less_eq_char_def)
    then have "of_char (char_of (of_char c + 32 :: nat) :: char) = (of_char c + 32 :: nat)"
      by simp
    with n True show ?thesis
      by (simp add: to_ascii_lower_def ascii_alnum_def ascii_alpha_def ascii_upper_def
          ascii_lower_def ascii_digit_def ascii_def less_eq_char_def)
  next
    case False
    with assms show ?thesis
      by (auto simp: to_ascii_lower_def ascii_alnum_def ascii_alpha_def ascii_upper_def
          ascii_lower_def ascii_digit_def ascii_def less_eq_char_def)
  qed
  then show "ascii_alnum (to_ascii_lower c)" "ascii (to_ascii_lower c)"
    "to_ascii_lower (to_ascii_lower c) = to_ascii_lower c" by blast+
qed

lemma canonical_char_fixed:
  assumes "lowercase_tables u" and ch: "chars ch = [ch]" "whole_chars ch"
  shows "canonical_char u ch \<noteq> [] \<longleftrightarrow> ascii_whitespace ch \<or> is_kept ch"
    and "whole_chars (canonical_char u ch) \<and> canonicalize u (canonical_char u ch) = canonical_char u ch"
proof -
  show "canonical_char u ch \<noteq> [] \<longleftrightarrow> ascii_whitespace ch \<or> is_kept ch"
    using assms
    by (auto simp: canonical_char_def is_kept_iff lowercase_tables_def char_to_lowercase_def)
  have dash: "whole_chars ''-'' \<and> canonicalize u ''-'' = ''-''"
    and underscore: "whole_chars ''_'' \<and> canonicalize u ''_'' = ''_''"
    by (intro conjI canonicalize_ascii_kept;
        simp add: ascii_def is_kept_def to_ascii_lower_def ascii_upper_def less_eq_char_def)+
  consider (white) "ascii_whitespace ch" | (wide) "\<not> ascii_whitespace ch" "\<not> is_ascii_char ch"
    | (punct) "\<not> ascii_whitespace ch" "ch = ''_'' \<or> ch = ''-''"
    | (alnum) c where "\<not> ascii_whitespace ch" "ch = [c]" "ascii_alnum c"
    | (stripped) "\<not> ascii_whitespace ch" "\<not> is_kept ch"
    by (auto simp: is_kept_iff)
  then show "whole_chars (canonical_char u ch) \<and> canonicalize u (canonical_char u ch)
    = canonical_char u ch"
  proof cases
    case white
    then show ?thesis using dash by (simp add: canonical_char_def)
  next
    case wide
    then have kept: "canonical_char u ch = char_to_lowercase u ch"
      by (simp add: canonical_char_def is_kept_def)
    have w: "whole_chars (char_to_lowercase u ch)"
      "\<forall>c\<in>set (chars (char_to_lowercase u ch)). canonical_char u c = c"
      using assms wide(2) by (auto simp: lowercase_tables_def canonical_char_def)
    then have "map (canonical_char u) (chars (char_to_lowercase u ch)) = chars (char_to_lowercase u ch)"
      by (intro map_idI) blast
    then show ?thesis using w kept by (simp add: canonicalize_def)
  next
    case punct
    then show ?thesis
      using dash underscore
      by (auto simp: canonical_char_def is_kept_def char_to_lowercase_def to_ascii_lower_def
          ascii_upper_def less_eq_char_def)
  next
    case (alnum c)
    note low = to_ascii_lower_alnum [OF alnum(3)]
    have "canonical_char u ch = [to_ascii_lower c]"
      using alnum by (simp add: canonical_char_def is_kept_def char_to_lowercase_def)
    then show ?thesis
      using canonicalize_ascii_kept [of "to_ascii_lower c"] low by (simp add: is_kept_def)
  next
    case stripped
    then show ?thesis by (simp add: canonical_char_def canonicalize_def)
  qed
qed

lemma whole_chars_chars: "whole_chars s \<Longrightarrow> ch \<in> set (chars s) \<Longrightarrow> chars ch = [ch] \<and> whole_chars ch"
  using chars_single [of ch s] by (simp add: whole_chars_def)

lemma canonicalize_idem:
  assumes "lowercase_tables u" "whole_chars raw"
  shows "canonicalize u (canonicalize u raw) = canonicalize u raw"
proof -
  have "whole_chars (concat (map (canonical_char u) chs))
    \<and> canonicalize u (concat (map (canonical_char u) chs)) = concat (map (canonical_char u) chs)"
    if "set chs \<subseteq> set (chars raw)" for chs
    using that
  proof (induction chs)
    case Nil
    then show ?case by (simp add: canonicalize_def)
  next
    case (Cons ch chs)
    then have "chars ch = [ch]" "whole_chars ch" using whole_chars_chars [OF assms(2)] by auto
    from canonical_char_fixed(2) [OF assms(1) this] Cons
    show ?case by (simp add: canonicalize_append whole_chars_append)
  qed
  then show ?thesis unfolding canonicalize_def [of u raw] by blast
qed

lemma canonicalize_nonempty:
  assumes "lowercase_tables u" "whole_chars raw"
  shows "canonicalize u raw = [] \<longleftrightarrow> is_canonical_empty raw"
  using canonical_char_fixed(1) [OF assms(1)] whole_chars_chars [OF assms(2)]
  unfolding canonicalize_def is_canonical_empty_def list_all_iff by auto

section \<open>Properties\<close>

text \<open>Looking up a key by text is sound for a hash table: a candidate matches a key exactly
  when it canonicalizes to the key's canonical form, which is what the table hashes; a key
  matches its own spelling and never has an empty canonical form.\<close>

theorem field_key_lookup_consistent:
  assumes "lowercase_tables u" "whole_chars raw" "field_key_try_new u raw = Ok k"
  shows "(is_match u k candidate \<longleftrightarrow> to_canonical u candidate = key_canonical k)
    \<and> is_match u k raw \<and> key_canonical k \<noteq> []"
proof -
  from assms(3) have k: "k = \<lparr> key_name = raw, key_canonical = canonicalize u raw \<rparr>"
    and nonempty: "\<not> is_canonical_empty raw"
    by (auto simp: field_key_try_new_def and_then_eq_Ok split: if_splits)
  then show ?thesis
    using canonicalize_idem [OF assms(1,2)] canonicalize_nonempty [OF assms(1,2)]
    by (auto simp: is_match_def is_canonical_match_def to_canonical_canonicalize)
qed

lemma ascii_only_tables:
  "lowercase_tables \<lparr>wide_alphabetic = f, wide_alphanumeric = g, wide_lowercase = id\<rparr>"
proof -
  have "char_to_lowercase \<lparr>wide_alphabetic = f, wide_alphanumeric = g, wide_lowercase = id\<rparr> ch = ch"
    if "\<not> is_ascii_char ch" for ch
    using that by (cases ch; cases "tl ch")
      (auto simp: char_to_lowercase_def is_ascii_char_def ascii_def to_ascii_lower_def ascii_upper_def
        less_eq_char_def)
  moreover have "\<not> ascii_whitespace ch" if "\<not> is_ascii_char ch" for ch
    using that by (cases ch; cases "tl ch")
      (auto simp: ascii_whitespace_def is_ascii_char_def ascii_def)
  ultimately show ?thesis
    by (auto simp: lowercase_tables_def is_kept_def)
qed

theorem field_key_lookup_consistent_witness:
  "is_match \<lparr>wide_alphabetic = \<lambda>_. False, wide_alphanumeric = \<lambda>_. False, wide_lowercase = id\<rparr>
    \<lparr>key_name = ''Due On'', key_canonical = ''due-on''\<rparr> ''Due On''"
proof -
  let ?u = "\<lparr>wide_alphabetic = \<lambda>_. False, wide_alphanumeric = \<lambda>_. False, wide_lowercase = id\<rparr>"
  have "field_key_try_new ?u ''Due On'' = Ok \<lparr>key_name = ''Due On'', key_canonical = ''due-on''\<rparr>"
    by code_simp
  moreover have "whole_chars ''Due On''" by code_simp
  ultimately show ?thesis
    using field_key_lookup_consistent [OF ascii_only_tables] by blast
qed

end
