(* ===== verification/Field_Paths.thy ===== *)
theory Field_Paths
  imports Field_Keys
begin

text \<open>
  \<open>src/query/grammar/field.rs\<close> and \<open>src/strsim.rs\<close>: the typed field paths of queries and
  the suggestion of a close accessor name.  The Levenshtein distance of the \<open>strsim\<close> crate
  is the parameter \<open>lev\<close>.
\<close>

section \<open>The closest candidate\<close>

text \<open>\<open>Iterator::min_by_key\<close>: the first of the elements with the least key.\<close>

fun min_by_key :: "('a \<Rightarrow> nat) \<Rightarrow> 'a list \<Rightarrow> 'a option" where
  "min_by_key f [] = None"
| "min_by_key f (x # xs) = (case min_by_key f xs of
       None \<Rightarrow> Some x
     | Some y \<Rightarrow> if f y < f x then Some y else Some x)"

lemma min_by_key_Some:
  "min_by_key f xs = Some x \<longleftrightarrow>
    (\<exists>as bs. xs = as @ x # bs \<and> (\<forall>a\<in>set as. f x < f a) \<and> (\<forall>b\<in>set bs. f x \<le> f b))"
proof (induction xs arbitrary: x)
  case (Cons y ys)
  show ?case
  proof (cases "min_by_key f ys")
    case None
    then have "ys = []" by (cases ys) (auto split: option.splits if_splits)
    then show ?thesis by (auto simp: Cons_eq_append_conv)
  next
    case (Some z)
    then obtain as bs where z: "ys = as @ z # bs" "\<forall>a\<in>set as. f z < f a" "\<forall>b\<in>set bs. f z \<le> f b"
      using Cons.IH by blast
    have least: "\<forall>v\<in>set ys. f z \<le> f v" using z by auto
    show ?thesis
    proof (cases "f z < f y")
      case True
      have "min_by_key f (y # ys) = Some x \<longleftrightarrow> x = z" using Some True by auto
      moreover have "x = z" if split: "y # ys = cs @ x # ds" "\<forall>a\<in>set cs. f x < f a"
        "\<forall>b\<in>set ds. f x \<le> f b" for cs ds
      proof -
        from split have "cs \<noteq> []" using True z(1) by (cases cs) auto
        then obtain c cs' where cs: "cs = c # cs'" by (cases cs) auto
        then have "ys = cs' @ x # ds" "\<forall>a\<in>set cs'. f x < f a" using split by auto
        then have "min_by_key f ys = Some x" using Cons.IH split(3) by blast
        then show ?thesis using Some by simp
      qed
      moreover have "\<exists>cs ds. y # ys = cs @ z # ds \<and> (\<forall>a\<in>set cs. f z < f a) \<and> (\<forall>b\<in>set ds. f z \<le> f b)"
        using z True by (intro exI [of _ "y # as"] exI [of _ bs]) auto
      ultimately show ?thesis by metis
    next
      case False
      have "min_by_key f (y # ys) = Some x \<longleftrightarrow> x = y" using Some False by auto
      moreover have "x = y" if split: "y # ys = cs @ x # ds" "\<forall>a\<in>set cs. f x < f a" for cs ds
      proof (cases cs)
        case Nil
        then show ?thesis using split by simp
      next
        case (Cons c cs')
        then have "x \<in> set ys" "f x < f y" using split by auto
        then show ?thesis using False least by fastforce
      qed
      moreover have "\<exists>cs ds. y # ys = cs @ y # ds \<and> (\<forall>a\<in>set cs. f y < f a) \<and> (\<forall>b\<in>set ds. f y \<le> f b)"
        using False least by (intro exI [of _ "[]"] exI [of _ ys]) force
      ultimately show ?thesis by metis
    qed
  qed
qed simp

definition closest_match :: "(string \<Rightarrow> string \<Rightarrow> nat) \<Rightarrow> ('a \<times> string) list \<Rightarrow> string \<Rightarrow> 'a option" where
  "closest_match lev candidates input =
     (let threshold = max ((length (chars input) + 1) div 2) 1 in
      case min_by_key snd (map (\<lambda>(item, name). (item, lev input name)) candidates) of
        Some (item, distance) \<Rightarrow> if distance \<le> threshold then Some item else None
      | None \<Rightarrow> None)"

section \<open>Field paths\<close>

datatype task_date_type = TaskCreated | TaskScheduled | TaskStart | TaskDue | TaskDone | TaskCancelled

definition task_date_types :: "task_date_type list" where
  "task_date_types = [TaskCreated, TaskScheduled, TaskStart, TaskDue, TaskDone, TaskCancelled]"

fun task_date_name :: "task_date_type \<Rightarrow> string" where
  "task_date_name TaskCreated = ''created''"
| "task_date_name TaskScheduled = ''scheduled''"
| "task_date_name TaskStart = ''start''"
| "task_date_name TaskDue = ''due''"
| "task_date_name TaskDone = ''done''"
| "task_date_name TaskCancelled = ''cancelled''"

definition task_date_parse :: "string \<Rightarrow> task_date_type option" where
  "task_date_parse s = (let trimmed = trim s in
     List.find (\<lambda>kind. eq_ignore_ascii_case trimmed (task_date_name kind)) task_date_types)"

datatype file_field =
  FilePath | FileName | FileFolder | FileSize | FileCreatedDate | FileCreatedDateTime
| FileModifiedDate | FileModifiedDateTime | FileDay | FileTags

definition file_accessor_names :: "string list" where
  "file_accessor_names = [''path'', ''name'', ''folder'', ''size'', ''created_at'', ''ctime'', ''cdate'',
     ''modified_at'', ''mtime'', ''mdate'', ''day'', ''tags'']"

definition file_field_parse :: "string \<Rightarrow> file_field option" where
  "file_field_parse name =
     (if name = ''path'' then Some FilePath
      else if name = ''name'' then Some FileName
      else if name = ''folder'' then Some FileFolder
      else if name = ''size'' then Some FileSize
      else if name \<in> {''created_at'', ''ctime''} then Some FileCreatedDateTime
      else if name = ''cdate'' then Some FileCreatedDate
      else if name \<in> {''modified_at'', ''mtime''} then Some FileModifiedDateTime
      else if name = ''mdate'' then Some FileModifiedDate
      else if name = ''day'' then Some FileDay
      else if name = ''tags'' then Some FileTags
      else None)"

datatype task_field =
  TaskStatusField | TaskStatusType | TaskStatusSymbol | TaskCompleted | TaskPriority
| TaskDate task_date_type | TaskFullyComplete

definition task_field_parse :: "string \<Rightarrow> task_field option" where
  "task_field_parse name =
     (if name = ''status'' then Some TaskStatusField
      else if name = ''status_type'' then Some TaskStatusType
      else if name = ''status_symbol'' then Some TaskStatusSymbol
      else if name = ''completed'' then Some TaskCompleted
      else if name = ''priority'' then Some TaskPriority
      else if name = ''fully_complete'' then Some TaskFullyComplete
      else map_option TaskDate (task_date_parse name))"

datatype list_field =
  ListText | ListRawText | ListLine | ListParent | ListDepth | ListTags | ListIsTask | ListKind
| ListIsOrdered | ListTask task_field

definition list_accessor_names :: "string list" where
  "list_accessor_names = [''text'', ''raw_text'', ''line'', ''parent'', ''depth'', ''tags'', ''is_task'',
     ''kind'', ''is_ordered'', ''status'', ''status_type'', ''status_symbol'', ''completed'',
     ''priority'', ''due'', ''done'', ''created'', ''start'', ''scheduled'', ''cancelled'',
     ''fully_complete'']"

definition list_field_parse :: "string \<Rightarrow> list_field option" where
  "list_field_parse name =
     (if name = ''text'' then Some ListText
      else if name = ''raw_text'' then Some ListRawText
      else if name = ''line'' then Some ListLine
      else if name = ''parent'' then Some ListParent
      else if name = ''depth'' then Some ListDepth
      else if name = ''tags'' then Some ListTags
      else if name = ''is_task'' then Some ListIsTask
      else if name = ''kind'' then Some ListKind
      else if name = ''is_ordered'' then Some ListIsOrdered
      else map_option ListTask (task_field_parse name))"

datatype field_path =
  FileFieldPath file_field
| ListFieldPath list_field
| MetadataPath string
| TagsPath
| InlinksPath

record field_path_error =
  error_path :: string
  suggestion :: "string option"

definition closest_accessor :: "(string \<Rightarrow> string \<Rightarrow> nat) \<Rightarrow> string list \<Rightarrow> string \<Rightarrow> string option" where
  "closest_accessor lev candidates input = closest_match lev (map (\<lambda>name. (name, name)) candidates) input"

definition accessor_typo_error ::
  "(string \<Rightarrow> string \<Rightarrow> nat) \<Rightarrow> string \<Rightarrow> string \<Rightarrow> string list \<Rightarrow> string \<Rightarrow> field_path_error" where
  "accessor_typo_error lev p pre candidates field = \<lparr> error_path = p,
     suggestion = map_option (\<lambda>name. pre @ ''.'' @ name) (closest_accessor lev candidates field) \<rparr>"

definition field_path_parse ::
  "unicode \<Rightarrow> (string \<Rightarrow> string \<Rightarrow> nat) \<Rightarrow> string \<Rightarrow> (field_path_error, field_path) result" where
  "field_path_parse u lev raw =
     (let p = trim raw; invalid = \<lparr> error_path = p, suggestion = None \<rparr> in
      case strip_prefix ''file.'' p of
        Some field \<Rightarrow>
          if field = [] \<or> CHR ''.'' \<in> set field then Err invalid
          else (case file_field_parse field of
              Some f \<Rightarrow> Ok (FileFieldPath f)
            | None \<Rightarrow> Err (accessor_typo_error lev p ''file'' file_accessor_names field))
      | None \<Rightarrow>
      case strip_prefix ''list.'' p of
        Some field \<Rightarrow>
          if field = [] \<or> CHR ''.'' \<in> set field then Err invalid
          else (case list_field_parse field of
              Some f \<Rightarrow> Ok (ListFieldPath f)
            | None \<Rightarrow> Err (accessor_typo_error lev p ''list'' list_accessor_names field))
      | None \<Rightarrow>
      case strip_prefix ''task.'' p of
        Some field \<Rightarrow>
          if field = [] \<or> CHR ''.'' \<in> set field then Err invalid
          else Err \<lparr> error_path = p, suggestion = Some (''list.'' @ field) \<rparr>
      | None \<Rightarrow>
      if p = [] \<or> p = ''file'' \<or> p = ''task'' \<or> p = ''list'' \<or> CHR ''.'' \<in> set p then Err invalid
      else if p = ''tags'' then Ok TagsPath
      else if p = ''inlinks'' then Ok InlinksPath
      else (case field_key_try_new u p of
          Inr k \<Rightarrow> Ok (MetadataPath (key_canonical k))
        | Inl _ \<Rightarrow> Err invalid))"

section \<open>Properties\<close>

lemma closest_match_in:
  assumes "closest_match lev candidates input = Some item"
  shows "\<exists>name. (item, name) \<in> set candidates"
proof -
  from assms obtain d where "min_by_key snd (map (\<lambda>(i, n). (i, lev input n)) candidates) = Some (item, d)"
    by (auto simp: closest_match_def Let_def split: option.splits if_splits)
  then have "(item, d) \<in> set (map (\<lambda>(i, n). (i, lev input n)) candidates)"
    unfolding min_by_key_Some by force
  then show ?thesis by auto
qed

lemma closest_accessor_in: "closest_accessor lev names input = Some n \<Longrightarrow> n \<in> set names"
  unfolding closest_accessor_def by (drule closest_match_in) auto

lemma accessor_typo_suggestion:
  assumes "suggestion (accessor_typo_error lev p pre names field) = Some s"
  obtains n where "n \<in> set names" "s = pre @ ''.'' @ n"
proof -
  obtain n where n: "closest_accessor lev names field = Some n" "s = pre @ ''.'' @ n"
    using assms by (auto simp: accessor_typo_error_def)
  from that [OF closest_accessor_in [OF n(1)] n(2)] show ?thesis .
qed

lemma file_accessors_parse: "list_all (\<lambda>n. file_field_parse n \<noteq> None) file_accessor_names"
  by code_simp

lemma list_accessors_parse: "list_all (\<lambda>n. list_field_parse n \<noteq> None) list_accessor_names"
  by code_simp

lemma file_accessor_paths:
  "list_all (\<lambda>n. trim (''file.'' @ n) = ''file.'' @ n \<and> n \<noteq> [] \<and> CHR ''.'' \<notin> set n) file_accessor_names"
  by code_simp

lemma list_accessor_paths:
  "list_all (\<lambda>n. trim (''list.'' @ n) = ''list.'' @ n \<and> n \<noteq> [] \<and> CHR ''.'' \<notin> set n) list_accessor_names"
  by code_simp

lemma strip_prefix_append [simp]: "strip_prefix p (p @ r) = Some r"
  by (simp add: strip_prefix_Some)

lemma file_accessor_ok:
  assumes "n \<in> set file_accessor_names"
  shows "\<exists>f. field_path_parse u lev (''file.'' @ n) = Ok f"
proof -
  from assms have n: "trim (''file.'' @ n) = ''file.'' @ n" "n \<noteq> []" "CHR ''.'' \<notin> set n"
    using file_accessor_paths unfolding list_all_iff by blast+
  from assms obtain f where "file_field_parse n = Some f"
    using file_accessors_parse unfolding list_all_iff by blast
  with n(2,3) show ?thesis
    unfolding field_path_parse_def Let_def n(1) strip_prefix_append by simp
qed

lemma list_accessor_ok:
  assumes "n \<in> set list_accessor_names"
  shows "\<exists>f. field_path_parse u lev (''list.'' @ n) = Ok f"
proof -
  from assms have n: "trim (''list.'' @ n) = ''list.'' @ n" "n \<noteq> []" "CHR ''.'' \<notin> set n"
    using list_accessor_paths unfolding list_all_iff by blast+
  from assms obtain f where "list_field_parse n = Some f"
    using list_accessors_parse unfolding list_all_iff by blast
  moreover have "strip_prefix ''file.'' (''list.'' @ n) = None" by (simp add: strip_prefix_def)
  ultimately show ?thesis
    using n(2,3) unfolding field_path_parse_def Let_def n(1) strip_prefix_append by simp
qed

text \<open>A suggestion made for a misspelled \<open>file.\<close> or \<open>list.\<close> accessor is itself a path the
  parser accepts.\<close>

theorem field_path_suggestion_parses:
  assumes "field_path_parse u lev raw = Err e" "suggestion e = Some s"
    "\<not> prefix ''task.'' (trim raw)"
  shows "\<exists>f. field_path_parse u lev s = Ok f"
proof -
  have "(\<exists>n\<in>set file_accessor_names. s = ''file.'' @ n) \<or> (\<exists>n\<in>set list_accessor_names. s = ''list.'' @ n)"
    using assms
    by (auto simp: field_path_parse_def Let_def strip_prefix_None [symmetric]
        split: option.splits if_splits sum.splits elim!: accessor_typo_suggestion)
  then show ?thesis using file_accessor_ok list_accessor_ok by blast
qed

theorem field_path_suggestion_parses_witness:
  "\<exists>f. field_path_parse \<lparr>wide_alphabetic = \<lambda>_. False, wide_alphanumeric = \<lambda>_. False, wide_lowercase = id\<rparr>
    (\<lambda>a b. if a = b then 0 else 1) ''file.path'' = Ok f"
proof -
  let ?u = "\<lparr>wide_alphabetic = \<lambda>_. False, wide_alphanumeric = \<lambda>_. False, wide_lowercase = id\<rparr>"
  have "field_path_parse ?u (\<lambda>a b. if a = b then 0 else 1) '' file.nmae''
      = Err \<lparr> error_path = ''file.nmae'', suggestion = Some ''file.path'' \<rparr>"
    by code_simp
  moreover have "\<not> prefix ''task.'' (trim '' file.nmae'')" by code_simp
  ultimately show ?thesis using field_path_suggestion_parses by fastforce
qed

end
