(* ===== verification/Delimiters.thy ===== *)
theory Delimiters
  imports Rust_Text
begin

text \<open>
  \<open>src/delimiter.rs\<close>: the fixed-size stack of open delimiters and the scanner
  \<open>find_closing\<close>.  The scanner is related to a grammar of balanced contents (nested pairs,
  quoted strings, backslash escapes), which it accepts as long as at most sixteen
  delimiters are open at once.
\<close>

section \<open>Delimiters and quotes\<close>

datatype delimiter_type = Parenthesis | Bracket | Brace | DoubleBracket

datatype quote_type = DoubleQuote | SingleQuote

definition max_delimiter_depth :: nat where "max_delimiter_depth = 16"

fun close_str :: "delimiter_type \<Rightarrow> string" where
  "close_str Parenthesis = '')''"
| "close_str Bracket = '']''"
| "close_str Brace = ''}''"
| "close_str DoubleBracket = '']]''"

fun close_len :: "delimiter_type \<Rightarrow> nat" where
  "close_len Parenthesis = 1"
| "close_len Bracket = 1"
| "close_len Brace = 1"
| "close_len DoubleBracket = 2"

definition matches_char_close :: "delimiter_type \<Rightarrow> string \<Rightarrow> bool" where
  "matches_char_close k ch \<longleftrightarrow> (k, ch) \<in> {(Parenthesis, '')''), (Bracket, '']''), (Brace, ''}'')}"

fun open_char :: "delimiter_type \<Rightarrow> string option" where
  "open_char Parenthesis = Some ''(''"
| "open_char Bracket = Some ''[''"
| "open_char Brace = Some ''{''"
| "open_char DoubleBracket = None"

fun close_char :: "delimiter_type \<Rightarrow> string option" where
  "close_char Parenthesis = Some '')''"
| "close_char Bracket = Some '']''"
| "close_char Brace = Some ''}''"
| "close_char DoubleBracket = None"

definition from_open_char :: "string \<Rightarrow> delimiter_type option" where
  "from_open_char ch = (if ch = ''('' then Some Parenthesis else if ch = ''['' then Some Bracket
     else if ch = ''{'' then Some Brace else None)"

definition classify_delimiter :: "string \<Rightarrow> delimiter_type option" where
  "classify_delimiter ch = (if ch = ''('' \<or> ch = '')'' then Some Parenthesis
     else if ch = ''['' \<or> ch = '']'' then Some Bracket
     else if ch = ''{'' \<or> ch = ''}'' then Some Brace else None)"

fun quote_char :: "quote_type \<Rightarrow> string" where
  "quote_char DoubleQuote = [CHR 0x22]"
| "quote_char SingleQuote = [CHR 0x27]"

definition quote_from_char :: "string \<Rightarrow> quote_type option" where
  "quote_from_char ch = (if ch = [CHR 0x22] then Some DoubleQuote
     else if ch = [CHR 0x27] then Some SingleQuote else None)"

lemma quote_from_char_Some [simp]: "quote_from_char ch = Some q \<longleftrightarrow> ch = quote_char q"
  by (cases q) (auto simp: quote_from_char_def)

section \<open>The stack\<close>

record delimiter_stack =
  entries :: "delimiter_type list"
  stack_len :: nat
  active_quote :: "quote_type option"

definition stack_push :: "delimiter_type \<Rightarrow> delimiter_stack \<Rightarrow> delimiter_stack" where
  "stack_push k st = (if stack_len st < length (entries st)
     then st \<lparr> entries := (entries st)[stack_len st := k], stack_len := sat_add (stack_len st) 1 \<rparr>
     else st)"

definition stack_with_root :: "delimiter_type \<Rightarrow> delimiter_stack" where
  "stack_with_root k = stack_push k
     \<lparr> entries = replicate max_delimiter_depth Parenthesis, stack_len = 0, active_quote = None \<rparr>"

definition current_kind :: "delimiter_stack \<Rightarrow> delimiter_type option" where
  "current_kind st = (if stack_len st = 0 then None
     else slice_get (entries st) (stack_len st - 1))"

definition advance_quote_state :: "string \<Rightarrow> delimiter_stack \<Rightarrow> bool \<times> delimiter_stack" where
  "advance_quote_state ch st = (case active_quote st of
       Some q \<Rightarrow> (True, if ch = quote_char q then st \<lparr> active_quote := None \<rparr> else st)
     | None \<Rightarrow> (case quote_from_char ch of
           Some q \<Rightarrow> (True, st \<lparr> active_quote := Some q \<rparr>)
         | None \<Rightarrow> (False, st)))"

definition check_double_bracket_close ::
  "string \<Rightarrow> delimiter_stack \<Rightarrow> (bool \<times> delimiter_stack) option" where
  "check_double_bracket_close rest st =
     (if current_kind st = Some DoubleBracket \<and> prefix '']]'' rest
      then let st' = st \<lparr> stack_len := stack_len st - 1 \<rparr> in Some (stack_len st' = 0, st')
      else None)"

definition handle_char_close ::
  "string \<Rightarrow> delimiter_stack \<Rightarrow> (unit, bool \<times> delimiter_stack) result" where
  "handle_char_close ch st = (case current_kind st of
       None \<Rightarrow> Err ()
     | Some current \<Rightarrow>
         if matches_char_close current ch
         then let st' = st \<lparr> stack_len := stack_len st - 1 \<rparr> in Ok (stack_len st' = 0, st')
         else if current = DoubleBracket \<and> ch = '']'' then Ok (False, st)
         else Err ())"

section \<open>The scanner\<close>

definition advance_escaped :: "string \<Rightarrow> bool \<Rightarrow> bool \<times> bool" where
  "advance_escaped ch escaped = (if escaped then (True, False)
     else if ch = [CHR 0x5C] then (True, True) else (False, escaped))"

definition first_char :: "string \<Rightarrow> string" where
  "first_char s = take (char_width (hd s)) s"

definition after_char :: "string \<Rightarrow> string" where
  "after_char s = drop (char_width (hd s)) s"

lemma first_after [simp]: "first_char s @ after_char s = s"
  by (simp add: first_char_def after_char_def)

lemma length_after_char: "s \<noteq> [] \<Longrightarrow> length (after_char s) < length s"
  using char_width_pos [of "hd s"] by (auto simp: after_char_def intro: diff_less)

function find_loop :: "delimiter_stack \<Rightarrow> bool \<Rightarrow> nat \<Rightarrow> string \<Rightarrow> nat option" where
  "find_loop st escaped pos rest =
     (if rest = [] then None
      else let ch = first_char rest; next_pos = sat_add pos (length ch) in
        case advance_escaped ch escaped of (consumed, escaped') \<Rightarrow>
        if consumed then find_loop st escaped' next_pos (after_char rest)
        else case advance_quote_state ch st of (quoted, st') \<Rightarrow>
        if quoted then find_loop st' escaped' next_pos (after_char rest)
        else case check_double_bracket_close rest st of
          Some (closed, st') \<Rightarrow>
            if closed then Some pos else find_loop st' escaped' (sat_add pos 2) (drop 2 rest)
        | None \<Rightarrow>
        if ch = '')'' \<or> ch = '']'' \<or> ch = ''}''
        then (case handle_char_close ch st of
            Inr (closed, st') \<Rightarrow>
              if closed then Some pos else find_loop st' escaped' next_pos (after_char rest)
          | Inl _ \<Rightarrow> None)
        else if prefix ''[['' rest
        then find_loop (stack_push DoubleBracket st) escaped' (sat_add pos 2) (drop 2 rest)
        else case from_open_char ch of
          Some k \<Rightarrow> find_loop (stack_push k st) escaped' next_pos (after_char rest)
        | None \<Rightarrow> find_loop st escaped' next_pos (after_char rest))"
  by pat_completeness auto

termination
  by (relation "measure (\<lambda>(_, _, _, rest). length rest)")
    (auto simp: length_after_char)

declare find_loop.simps [simp del]

definition find_closing :: "delimiter_type \<Rightarrow> string \<Rightarrow> nat option" where
  "find_closing k input = find_loop (stack_with_root k) False 0 input"

section \<open>Balanced contents\<close>

text \<open>\<open>balanced k q e s\<close>: starting inside a pair of kind \<open>k\<close>, within the quote \<open>q\<close> and after a
  backslash if \<open>e\<close>, the text \<open>s\<close> is the rest of the contents of the pair.\<close>

fun open_str :: "delimiter_type \<Rightarrow> string" where
  "open_str Parenthesis = ''(''"
| "open_str Bracket = ''[''"
| "open_str Brace = ''{''"
| "open_str DoubleBracket = ''[[''"

definition plain_char :: "string \<Rightarrow> bool" where
  "plain_char ch \<longleftrightarrow> chars ch = [ch] \<and> ch \<noteq> [CHR 0x5C] \<and> quote_from_char ch = None
     \<and> ch \<notin> {'')'', '']'', ''}'', ''('', ''['', ''{''}"

inductive balanced :: "delimiter_type \<Rightarrow> quote_type option \<Rightarrow> bool \<Rightarrow> string \<Rightarrow> bool" where
  balanced_end: "balanced k None False []"
| balanced_escaped: "balanced k q False s \<Longrightarrow> chars ch = [ch] \<Longrightarrow> balanced k q True (ch @ s)"
| balanced_backslash: "balanced k q True s \<Longrightarrow> balanced k q False ([CHR 0x5C] @ s)"
| balanced_quote: "balanced k (Some q) False s \<Longrightarrow> balanced k None False (quote_char q @ s)"
| balanced_unquote: "balanced k None False s \<Longrightarrow> balanced k (Some q) False (quote_char q @ s)"
| balanced_quoted: "balanced k (Some q) False s \<Longrightarrow> chars ch = [ch] \<Longrightarrow> ch \<noteq> [CHR 0x5C]
    \<Longrightarrow> ch \<noteq> quote_char q \<Longrightarrow> balanced k (Some q) False (ch @ s)"
| balanced_plain: "balanced k None False s \<Longrightarrow> plain_char ch \<Longrightarrow> balanced k None False (ch @ s)"
| balanced_lone: "balanced DoubleBracket None False s \<Longrightarrow> balanced DoubleBracket None False ('']'' @ s)"
| balanced_nested: "balanced j None False s \<Longrightarrow> balanced k None False t
    \<Longrightarrow> balanced k None False (open_str j @ s @ close_str j @ t)"

text \<open>\<open>unwinds ks q e s n\<close>: reading \<open>s\<close> closes every pair of \<open>ks\<close>, innermost first, and the
  last closer starts at offset \<open>n\<close>.\<close>

inductive unwinds ::
  "delimiter_type list \<Rightarrow> quote_type option \<Rightarrow> bool \<Rightarrow> string \<Rightarrow> nat \<Rightarrow> bool" where
  unwinds_last: "balanced k q e a \<Longrightarrow> unwinds [k] q e (a @ close_str k @ r) (length a)"
| unwinds_step: "balanced k q e a \<Longrightarrow> unwinds ks None False r m
    \<Longrightarrow> unwinds (k # ks) q e (a @ close_str k @ r) (length a + length (close_str k) + m)"

inductive_cases unwinds_ConsE: "unwinds (k # ks) q e s n"

lemma unwinds_cases:
  assumes "unwinds (k # ks) q e s n"
  obtains (last) a r where "ks = []" "s = a @ close_str k @ r" "n = length a" "balanced k q e a"
  | (inner) a r m where "s = a @ close_str k @ r" "n = length a + length (close_str k) + m"
      "balanced k q e a" "unwinds ks None False r m"
  using assms by (auto elim: unwinds_ConsE)

lemma unwinds_not_Nil [simp]: "\<not> unwinds [] q e s n"
  by (auto elim: unwinds.cases)

lemma unwinds_extend:
  assumes "unwinds (k # ks) q e s n"
    and step: "\<And>a. balanced k q e a \<Longrightarrow> balanced k q' e' (ch @ a)"
  shows "unwinds (k # ks) q' e' (ch @ s) (length ch + n)"
  using assms(1)
proof (cases rule: unwinds_cases)
  case (last a r)
  then show ?thesis using unwinds_last [OF step [of a], of r] by simp
next
  case (inner a r m)
  then show ?thesis using unwinds_step [OF step [of a], of ks r m] by (simp add: add.assoc)
qed

lemma unwinds_open:
  assumes "unwinds (j # k # ks) None False s n"
  shows "unwinds (k # ks) None False (open_str j @ s) (length (open_str j) + n)"
  using assms
proof (cases rule: unwinds_cases)
  case (inner a r m)
  have "unwinds (k # ks) None False ((open_str j @ a @ close_str j) @ r)
      (length (open_str j @ a @ close_str j) + m)"
    by (rule unwinds_extend [OF inner(4)]) (simp add: balanced_nested [OF inner(3)])
  then show ?thesis using inner by (simp add: ac_simps)
qed simp

lemma unwinds_close:
  assumes "unwinds ks None False s n"
  shows "unwinds (k # ks) None False (close_str k @ s) (length (close_str k) + n)"
  using unwinds_step [OF balanced_end assms] by simp

text \<open>The stack as a list, innermost first.\<close>

definition open_kinds :: "delimiter_stack \<Rightarrow> delimiter_type list" where
  "open_kinds st = rev (take (stack_len st) (entries st))"

definition stack_ok :: "delimiter_stack \<Rightarrow> bool" where
  "stack_ok st \<longleftrightarrow> length (entries st) = max_delimiter_depth \<and> stack_len st \<le> max_delimiter_depth"

lemma take_1_update: "0 < length xs \<Longrightarrow> take (Suc 0) (xs[0 := k]) = [k]"
  by (cases xs) simp_all

lemma sat_add_depth: "n < max_delimiter_depth \<Longrightarrow> sat_add n 1 = Suc n"
  by (simp add: sat_add_def usize_max_def max_delimiter_depth_def)

lemma depth_pos [simp]: "0 < max_delimiter_depth"
  by (simp add: max_delimiter_depth_def)

lemma stack_ok_with_root [simp]: "stack_ok (stack_with_root k)"
  and open_kinds_with_root [simp]: "open_kinds (stack_with_root k) = [k]"
  and active_quote_with_root [simp]: "active_quote (stack_with_root k) = None"
  and stack_len_with_root [simp]: "stack_len (stack_with_root k) = 1"
  using depth_pos
  by (simp_all add: stack_with_root_def stack_push_def stack_ok_def open_kinds_def
      take_1_update sat_add_depth [of 0, simplified] del: depth_pos)

lemma stack_ok_pop: "stack_ok st \<Longrightarrow> stack_ok (st \<lparr> stack_len := stack_len st - 1 \<rparr>)"
  by (auto simp: stack_ok_def)

lemma stack_ok_quote [simp]: "stack_ok (st \<lparr> active_quote := q \<rparr>) = stack_ok st"
  and open_kinds_quote [simp]: "open_kinds (st \<lparr> active_quote := q \<rparr>) = open_kinds st"
  by (simp_all add: stack_ok_def open_kinds_def)

lemma length_open_kinds: "stack_ok st \<Longrightarrow> length (open_kinds st) = stack_len st"
  by (simp add: open_kinds_def stack_ok_def)

lemma stack_push_ok: "stack_ok st \<Longrightarrow> stack_ok (stack_push k st)"
  using sat_add_depth [of "stack_len st"] by (auto simp: stack_push_def stack_ok_def)

lemma open_kinds_push:
  assumes "stack_ok st" "stack_len st < max_delimiter_depth"
  shows "open_kinds (stack_push k st) = k # open_kinds st"
    and "stack_len (stack_push k st) = Suc (stack_len st)"
    and "active_quote (stack_push k st) = active_quote st"
  using assms
  by (simp_all add: stack_push_def stack_ok_def open_kinds_def sat_add_depth [simplified]
      take_Suc_conv_app_nth)

lemma current_kind_open_kinds:
  assumes "stack_ok st"
  shows "current_kind st = (case open_kinds st of [] \<Rightarrow> None | k # _ \<Rightarrow> Some k)"
proof (cases "stack_len st")
  case 0
  then show ?thesis by (simp add: current_kind_def open_kinds_def)
next
  case (Suc n)
  then have "n < length (entries st)" using assms by (simp add: stack_ok_def)
  then show ?thesis
    using Suc by (simp add: current_kind_def open_kinds_def slice_get_def take_Suc_conv_app_nth)
qed

lemma open_kinds_pop:
  assumes "stack_ok st" "open_kinds st = k # ks"
  shows "open_kinds (st \<lparr> stack_len := stack_len st - 1 \<rparr>) = ks"
    and "stack_len st - 1 = 0 \<longleftrightarrow> ks = []"
proof -
  obtain n where n: "stack_len st = Suc n"
    using assms length_open_kinds [OF assms(1)] by (cases "stack_len st") auto
  then have "n < length (entries st)" using assms(1) by (simp add: stack_ok_def)
  with n assms(2) show "open_kinds (st \<lparr> stack_len := stack_len st - 1 \<rparr>) = ks"
    by (simp add: open_kinds_def take_Suc_conv_app_nth)
  show "stack_len st - 1 = 0 \<longleftrightarrow> ks = []"
    using assms length_open_kinds [OF assms(1)] n by auto
qed

section \<open>Soundness of the scanner\<close>

definition openers :: "string \<Rightarrow> nat" where
  "openers s = length (filter (\<lambda>c. c \<in> {CHR ''('', CHR ''['', CHR ''{''}) s)"

lemma openers_append [simp]: "openers (a @ b) = openers a + openers b"
  by (simp add: openers_def)

lemma openers_take_append:
  "openers (take (p - (pos + length ch)) s) + (if pos + length ch \<le> p then openers ch else 0)
    \<le> openers (take (p - pos) (ch @ s))"
  by (simp add: openers_def)

lemma find_loop_step:
  assumes "s \<noteq> []"
  obtains ch t where "first_char s = ch" "after_char s = t" "s = ch @ t" "ch \<noteq> []"
    "chars ch = [ch]"
proof -
  obtain c cs where s: "s = c # cs" using assms by (cases s) auto
  obtain w where w: "char_width c = Suc w" using char_width_pos [of c] by (cases "char_width c") auto
  have "first_char s \<noteq> []" "chars (first_char s) = [first_char s]"
    by (simp_all add: s w first_char_def)
  then show ?thesis using that [of "first_char s" "after_char s"] by simp
qed

lemma find_loop_Nil [simp]: "find_loop st escaped pos [] = None"
  by (simp add: find_loop.simps)

text \<open>One step of the loop in each of its branches.\<close>

lemma find_loop_consumed:
  "s \<noteq> [] \<Longrightarrow> advance_escaped (first_char s) e = (True, e')
    \<Longrightarrow> find_loop st e pos s
      = find_loop st e' (sat_add pos (length (first_char s))) (after_char s)"
  by (subst find_loop.simps) (simp add: Let_def)

lemma find_loop_quoted:
  "s \<noteq> [] \<Longrightarrow> advance_escaped (first_char s) e = (False, e')
    \<Longrightarrow> advance_quote_state (first_char s) st = (True, st')
    \<Longrightarrow> find_loop st e pos s
      = find_loop st' e' (sat_add pos (length (first_char s))) (after_char s)"
  by (subst find_loop.simps) (simp add: Let_def)

lemma find_loop_double:
  "s \<noteq> [] \<Longrightarrow> advance_escaped (first_char s) e = (False, e')
    \<Longrightarrow> advance_quote_state (first_char s) st = (False, st2)
    \<Longrightarrow> check_double_bracket_close s st = Some (closed, st')
    \<Longrightarrow> find_loop st e pos s
      = (if closed then Some pos else find_loop st' e' (sat_add pos 2) (drop 2 s))"
  by (subst find_loop.simps) (simp add: Let_def)

lemma find_loop_closer:
  "s \<noteq> [] \<Longrightarrow> advance_escaped (first_char s) e = (False, e')
    \<Longrightarrow> advance_quote_state (first_char s) st = (False, st2)
    \<Longrightarrow> check_double_bracket_close s st = None
    \<Longrightarrow> first_char s \<in> {'')'', '']'', ''}''}
    \<Longrightarrow> find_loop st e pos s = (case handle_char_close (first_char s) st of
          Inr (closed, st') \<Rightarrow> if closed then Some pos
            else find_loop st' e' (sat_add pos (length (first_char s))) (after_char s)
        | Inl _ \<Rightarrow> None)"
  by (subst find_loop.simps) (auto simp: Let_def)

lemma find_loop_opener:
  "s \<noteq> [] \<Longrightarrow> advance_escaped (first_char s) e = (False, e')
    \<Longrightarrow> advance_quote_state (first_char s) st = (False, st2)
    \<Longrightarrow> check_double_bracket_close s st = None
    \<Longrightarrow> first_char s \<notin> {'')'', '']'', ''}''}
    \<Longrightarrow> find_loop st e pos s =
      (if prefix ''[['' s
       then find_loop (stack_push DoubleBracket st) e' (sat_add pos 2) (drop 2 s)
       else find_loop (case from_open_char (first_char s) of Some k \<Rightarrow> stack_push k st | None \<Rightarrow> st)
          e' (sat_add pos (length (first_char s))) (after_char s))"
  by (subst find_loop.simps) (auto simp: Let_def split: option.split)

lemma find_loop_ge:
  "find_loop st escaped pos s = Some p \<Longrightarrow> pos + length s \<le> usize_max \<Longrightarrow> pos \<le> p"
proof (induction "length s" arbitrary: st escaped pos s rule: less_induct)
  case less
  show ?case
  proof (cases "s = []")
    case True
    with less.prems show ?thesis by simp
  next
    case False
    obtain ch t where ch: "first_char s = ch" "after_char s = t" "s = ch @ t" "ch \<noteq> []"
      using find_loop_step [OF False] .
    have shorter: "length t < length s" using ch by simp
    have tail: "pos \<le> p" if "find_loop st' e' (sat_add pos (length ch)) t = Some p" for st' e'
      using less.hyps [OF shorter that] less.prems(2) ch(3) by (simp add: sat_add_exact)
    have tail2: "pos \<le> p"
      if "find_loop st' e' (sat_add pos 2) (drop 2 s) = Some p" "prefix [a, b] s" for st' e' a b
    proof -
      from that(2) have "Suc (Suc 0) \<le> length s" by (auto simp: prefix_def)
      then have "length (drop 2 s) < length s" "pos + 2 + length (drop 2 s) \<le> usize_max"
        "sat_add pos 2 = pos + 2"
        using less.prems(2) by (simp_all add: sat_add_exact)
      then show ?thesis
        using less.hyps [OF _ that(1)] by simp
    qed
    show ?thesis
      using less.prems(1) False tail tail2
      by (subst (asm) find_loop.simps)
        (auto simp: ch(1,2) Let_def check_double_bracket_close_def
          split: prod.splits if_splits option.splits sum.splits)
  qed
qed

text \<open>One character of progress, in each state of the scanner.\<close>

lemma advance_escaped_cases:
  assumes "unwinds (k # ks) q e' t n" "chars ch = [ch]" "advance_escaped ch e = (True, e')"
  shows "unwinds (k # ks) q e (ch @ t) (length ch + n)"
proof (rule unwinds_extend [OF assms(1)])
  fix a assume "balanced k q e' a"
  then show "balanced k q e (ch @ a)"
    using assms(2,3) balanced_backslash [of k q a]
    by (auto simp: advance_escaped_def split: if_splits intro: balanced_escaped)
qed

lemma advance_quote_cases:
  assumes "unwinds (k # ks) (active_quote st') False t n" "chars ch = [ch]" "ch \<noteq> [CHR 0x5C]"
    and "advance_quote_state ch st = (True, st')"
  shows "unwinds (k # ks) (active_quote st) False (ch @ t) (length ch + n)"
proof (rule unwinds_extend [OF assms(1)])
  fix a assume "balanced k (active_quote st') False a"
  then show "balanced k (active_quote st) False (ch @ a)"
    using assms(2-4)
    by (auto simp: advance_quote_state_def split: option.splits if_splits
        intro: balanced_quote balanced_unquote balanced_quoted)
qed

lemma advance_quote_open_kinds:
  "advance_quote_state ch st = (b, st') \<Longrightarrow> open_kinds st' = open_kinds st
    \<and> stack_ok st' = stack_ok st \<and> stack_len st' = stack_len st"
  by (auto simp: advance_quote_state_def split: option.splits if_splits)

lemma advance_quote_none:
  "advance_quote_state ch st = (False, st') \<Longrightarrow> active_quote st = None \<and> st' = st
    \<and> quote_from_char ch = None"
  by (auto simp: advance_quote_state_def split: option.splits)

lemma advance_escaped_none:
  "advance_escaped ch e = (False, e') \<Longrightarrow> \<not> e \<and> \<not> e' \<and> ch \<noteq> [CHR 0x5C]"
  by (auto simp: advance_escaped_def split: if_splits)

definition depth_ok :: "delimiter_stack \<Rightarrow> nat \<Rightarrow> string \<Rightarrow> bool" where
  "depth_ok st n s \<longleftrightarrow> stack_len st + openers (take n s) \<le> max_delimiter_depth"

lemma depth_ok_tail:
  assumes "depth_ok st (p - pos) (ch @ t)" "pos + length ch \<le> p"
    and "stack_len st' \<le> stack_len st + openers ch"
  shows "depth_ok st' (p - (pos + length ch)) t"
  using assms openers_take_append [of p pos ch t] by (simp add: depth_ok_def)

lemma depth_ok_open:
  assumes "depth_ok st (p - pos) (ch @ t)" "pos + length ch \<le> p" "0 < openers ch"
  shows "stack_len st < max_delimiter_depth"
  using assms openers_take_append [of p pos ch t] by (simp add: depth_ok_def)

lemma find_loop_unwinds:
  assumes "find_loop st escaped pos s = Some p" "pos + length s \<le> usize_max" "stack_ok st"
    "open_kinds st = k # ks" "depth_ok st (p - pos) s"
  shows "\<exists>n. p = pos + n \<and> unwinds (k # ks) (active_quote st) escaped s n"
  using assms
proof (induction "length s" arbitrary: st escaped pos s k ks rule: less_induct)
  case less
  note ok = less.prems(3) and kinds = less.prems(4) and depth = less.prems(5)
  show ?case
  proof (cases "s = []")
    case True
    with less.prems show ?thesis by simp
  next
    case False
    obtain ch t where ch: "first_char s = ch" "after_char s = t" "s = ch @ t" "ch \<noteq> []"
        "chars ch = [ch]"
      using find_loop_step [OF False] .
    have IH: "\<exists>n. p = pos + (length w + n) \<and> unwinds (j # js) (active_quote st') e' r n"
      if loop: "find_loop st' e' (sat_add pos (length w)) r = Some p" and s: "s = w @ r" "w \<noteq> []"
        and st': "stack_ok st'" "open_kinds st' = j # js"
        and len: "stack_len st' \<le> stack_len st + openers w" for st' e' r w j js
    proof -
      have pos: "sat_add pos (length w) = pos + length w"
        using less.prems(2) s by (simp add: sat_add_exact)
      have ge: "pos + length w \<le> p"
        using find_loop_ge [OF loop] less.prems(2) s unfolding pos by simp
      have "\<exists>n. p = pos + length w + n \<and> unwinds (j # js) (active_quote st') e' r n"
        using less.prems(2) s
        by (intro less.hyps [OF _ loop [unfolded pos] _ st' depth_ok_tail [OF _ ge len]])
          (use depth s in auto)
      then show ?thesis by (simp add: add.assoc)
    qed
    obtain consumed escaped' where esc: "advance_escaped ch escaped = (consumed, escaped')"
      by fastforce
    obtain quoted st' where quote: "advance_quote_state ch st = (quoted, st')" by fastforce
    consider (consumed) "consumed" | (quoted) "\<not> consumed" "quoted" | (bare) "\<not> consumed" "\<not> quoted"
      by blast
    then show ?thesis
    proof cases
      case consumed
      then have "find_loop st escaped' (sat_add pos (length ch)) t = Some p"
        using less.prems(1) find_loop_consumed [OF False] esc by (simp add: ch(1,2))
      from IH [OF this ch(3,4) ok kinds] obtain n
        where n: "p = pos + (length ch + n)" "unwinds (k # ks) (active_quote st) escaped' t n"
        by auto
      then show ?thesis
        using advance_escaped_cases [OF n(2) ch(5)] esc consumed ch(3) by auto
    next
      case quoted
      have esc': "\<not> escaped" "\<not> escaped'" "ch \<noteq> [CHR 0x5C]"
        using advance_escaped_none esc quoted(1) by auto
      note same = advance_quote_open_kinds [OF quote]
      have "find_loop st' False (sat_add pos (length ch)) t = Some p"
        using less.prems(1) find_loop_quoted [OF False] esc quote quoted esc' by (simp add: ch(1,2))
      from IH [OF this ch(3,4)] obtain n
        where n: "p = pos + (length ch + n)" "unwinds (k # ks) (active_quote st') False t n"
        using same ok kinds by auto
      then show ?thesis
        using advance_quote_cases [OF n(2) ch(5) esc'(3)] quote quoted esc'(1) ch(3) by auto
    next
      case bare
      have esc': "\<not> escaped" "escaped' = False" "ch \<noteq> [CHR 0x5C]"
        using advance_escaped_none esc bare(1) by auto
      have none: "active_quote st = None" "quote_from_char ch = None"
        using advance_quote_none quote bare(2) by auto
      have adv: "advance_escaped (first_char s) escaped = (False, False)"
        "advance_quote_state (first_char s) st = (False, st')"
        using esc quote bare esc'(2) by (simp_all add: ch(1))
      have current: "current_kind st = Some k"
        using current_kind_open_kinds [OF ok] kinds by simp
      note popped = open_kinds_pop [OF ok kinds] stack_ok_pop [OF ok]
      let ?pop = "st \<lparr> stack_len := stack_len st - 1 \<rparr>"
      have close: "\<exists>n. p = pos + n \<and> unwinds (k # ks) None False s n"
        if s: "s = close_str k @ r" and p: "if ks = [] then p = pos
          else find_loop ?pop False (sat_add pos (length (close_str k))) r = Some p" for r
      proof (cases ks)
        case Nil
        then show ?thesis
          using p s unwinds_last [OF balanced_end, of k r] by auto
      next
        case (Cons j js)
        have "close_str k \<noteq> []" "stack_len ?pop \<le> stack_len st + openers (close_str k)"
          by (cases k; simp)+
        with Cons obtain n where n: "p = pos + (length (close_str k) + n)"
          "unwinds ks (active_quote ?pop) False r n"
          using IH [of ?pop False "close_str k" r j js] p s popped by auto
        then show ?thesis using unwinds_close [of ks r n k] none s by auto
      qed
      have plain: "\<exists>n. p = pos + n \<and> unwinds (k # ks) None False s n"
        if loop: "find_loop st False (sat_add pos (length ch)) t = Some p"
          and step: "\<And>a. balanced k None False a \<Longrightarrow> balanced k None False (ch @ a)"
      proof -
        obtain n where "p = pos + (length ch + n)" "unwinds (k # ks) (active_quote st) False t n"
          using IH [OF loop ch(3,4) ok kinds] by auto
        then show ?thesis using unwinds_extend [OF _ step] none ch(3) by auto
      qed
      have "open": "\<exists>n. p = pos + n \<and> unwinds (k # ks) None False s n"
        if s: "s = open_str j @ r"
          and loop: "find_loop (stack_push j st) False (sat_add pos (length (open_str j))) r = Some p"
        for j r
      proof -
        have op: "0 < openers (open_str j)" "open_str j \<noteq> []"
          by (cases j; simp add: openers_def)+
        have "pos + length (open_str j) \<le> p"
          using find_loop_ge [OF loop] less.prems(2) s by (simp add: sat_add_exact)
        then have "stack_len st < max_delimiter_depth"
          using depth_ok_open [OF _ _ op(1)] depth s by simp
        note pushed = open_kinds_push [OF ok this, of j] stack_push_ok [OF ok, of j]
        obtain n where "p = pos + (length (open_str j) + n)"
          "unwinds (j # k # ks) (active_quote (stack_push j st)) False r n"
          using IH [OF loop s op(2) pushed(4)] pushed kinds op(1) by auto
        then show ?thesis using unwinds_open pushed(3) none s by auto
      qed
      have "\<exists>n. p = pos + n \<and> unwinds (k # ks) None False s n"
      proof (cases "check_double_bracket_close s st")
        case (Some cd)
        then have k: "k = DoubleBracket" "prefix '']]'' s" "cd = (stack_len st - 1 = 0, ?pop)"
          using current by (auto simp: check_double_bracket_close_def split: if_splits)
        then have s: "s = close_str k @ drop 2 s" "length (close_str k) = 2" by (auto simp: prefix_def)
        show ?thesis
          using close [OF s(1), unfolded s(2)] less.prems(1) find_loop_double [OF False adv, of _ _ pos] Some k popped(2)
          by (auto split: if_splits)
      next
        case None
        show ?thesis
        proof (cases "ch \<in> {'')'', '']'', ''}''}")
          case True
          have loop: "(case handle_char_close ch st of
              Inr (closed, st') \<Rightarrow> if closed then Some pos
                else find_loop st' False (sat_add pos (length ch)) t
            | Inl _ \<Rightarrow> None) = Some p"
            using less.prems(1) find_loop_closer [OF False adv None, of pos, unfolded ch(1,2)] True
            by simp
          show ?thesis
          proof (cases "matches_char_close k ch")
            case True
            then have c: "ch = close_str k" by (auto simp: matches_char_close_def)
            show ?thesis
            proof (rule close)
              show "s = close_str k @ t" using ch(3) c by simp
              show "if ks = [] then p = pos
                else find_loop ?pop False (sat_add pos (length (close_str k))) t = Some p"
                using loop True current popped(2) c
                by (auto simp: handle_char_close_def Let_def split: if_splits)
            qed
          next
            case no_match: False
            then have k: "k = DoubleBracket" "ch = '']''"
              and "find_loop st False (sat_add pos (length ch)) t = Some p"
              using loop current by (auto simp: handle_char_close_def split: if_splits)
            from plain [OF this(3)] balanced_lone k show ?thesis by simp
          qed
        next
          case no_closer: False
          have loop: "(if prefix ''[['' s
             then find_loop (stack_push DoubleBracket st) False (sat_add pos 2) (drop 2 s)
             else find_loop (case from_open_char ch of Some k \<Rightarrow> stack_push k st | None \<Rightarrow> st)
                False (sat_add pos (length ch)) t) = Some p"
            using less.prems(1) find_loop_opener [OF False adv None, of pos, unfolded ch(1,2)] no_closer
            by simp
          show ?thesis
          proof (cases "prefix ''[['' s")
            case True
            then have "s = open_str DoubleBracket @ drop 2 s" by (auto simp: prefix_def)
            from "open" [OF this] loop True show ?thesis by (simp add: numeral_2_eq_2)
          next
            case no_double: False
            show ?thesis
            proof (cases "from_open_char ch")
              case None
              then have "plain_char ch"
                using ch(5) esc'(3) none(2) no_closer
                by (auto simp: plain_char_def from_open_char_def split: if_splits)
              from plain [OF _ balanced_plain [OF _ this]] loop no_double None show ?thesis by simp
            next
              case (Some j)
              then have "ch = open_str j" by (auto simp: from_open_char_def split: if_splits)
              with "open" [of j t] loop no_double Some ch(3) show ?thesis by simp
            qed
          qed
        qed
      qed
      then show ?thesis using none esc'(1) by simp
    qed
  qed
qed

section \<open>Properties\<close>

text \<open>C28. A position reported by the scanner is the matching closer: as long as at most
  fifteen brackets open before it, the text before it is balanced contents (nested pairs,
  quotes and escapes resolved) and the closer stands at the position.\<close>

theorem find_closing_balanced:
  assumes "find_closing k s = Some p" "length s \<le> usize_max"
    "openers (take p s) < max_delimiter_depth"
  shows "balanced k None False (take p s) \<and> prefix (close_str k) (drop p s)"
proof -
  have "\<exists>n. p = 0 + n \<and> unwinds [k] (active_quote (stack_with_root k)) False s n"
    using assms by (intro find_loop_unwinds) (simp_all add: find_closing_def depth_ok_def)
  then have "unwinds [k] None False s p" by simp
  then show ?thesis by (cases rule: unwinds_cases) simp_all
qed

theorem find_closing_balanced_witness:
  "balanced Parenthesis None False ''a [b] c''"
proof -
  have "find_closing Parenthesis ''a [b] c) d'' = Some 7"
    by code_simp
  then show ?thesis
    using find_closing_balanced [of Parenthesis "''a [b] c) d''" 7]
    by (simp add: openers_def max_delimiter_depth_def usize_max_def)
qed

end
