(* ===== verification/Tasks.thy ===== *)
theory Tasks
  imports Field_Paths Delimiters
begin

text \<open>
  \<open>src/task.rs\<close>: task statuses and the three lookup tables of \<open>TaskStatusMap\<close>, priorities
  and the six lifecycle dates.  A marker symbol is a character (the bytes of one scalar).
\<close>

section \<open>Statuses\<close>

datatype status_type = StatusTodo | StatusInProgress | StatusOnHold | StatusDone | StatusCancelled
  | StatusNonTask

record task_status =
  status_symbol :: string
  status_name :: string
  status_kind :: status_type

definition default_status :: task_status where
  "default_status = \<lparr> status_symbol = '' '', status_name = ''Todo'', status_kind = StatusTodo \<rparr>"

fun status_completed :: "status_type \<Rightarrow> bool option" where
  "status_completed StatusDone = Some True"
| "status_completed StatusCancelled = None"
| "status_completed StatusTodo = Some False"
| "status_completed StatusInProgress = Some False"
| "status_completed StatusOnHold = Some False"
| "status_completed StatusNonTask = Some False"

fun status_type_name :: "status_type \<Rightarrow> string" where
  "status_type_name StatusTodo = ''todo''"
| "status_type_name StatusInProgress = ''in-progress''"
| "status_type_name StatusOnHold = ''on-hold''"
| "status_type_name StatusDone = ''done''"
| "status_type_name StatusCancelled = ''cancelled''"
| "status_type_name StatusNonTask = ''non-task''"

definition status_is_complete :: "status_type \<Rightarrow> bool" where
  "status_is_complete k \<longleftrightarrow> status_completed k \<noteq> Some False"

text \<open>\<open>str::split_whitespace\<close> on characters, and the normalization of a status name.\<close>

fun split_whitespace_chars :: "string list \<Rightarrow> string list \<Rightarrow> string list list" where
  "split_whitespace_chars [] word = (if word = [] then [] else [word])"
| "split_whitespace_chars (ch # chs) word =
     (if is_whitespace ch
      then (if word = [] then split_whitespace_chars chs [] else word # split_whitespace_chars chs [])
      else split_whitespace_chars chs (word @ [ch]))"

definition split_whitespace :: "string \<Rightarrow> string list list" where
  "split_whitespace s = split_whitespace_chars (chars s) []"

definition normalize_name :: "unicode \<Rightarrow> string \<Rightarrow> string" where
  "normalize_name u name = (case split_whitespace name of
       [] \<Rightarrow> []
     | first # words \<Rightarrow> concat (map (char_to_lowercase u) first)
         @ concat (map (\<lambda>word. '' '' @ concat (map (char_to_lowercase u) word)) words))"

section \<open>The status map\<close>

record status_map =
  symbols :: "string \<rightharpoonup> task_status"
  names :: "string \<rightharpoonup> task_status"
  kinds :: "status_type \<rightharpoonup> task_status list"

datatype task_error =
  ProhibitedStatusSymbol string
| InvalidPriority string
| InvalidDateType string

definition by_symbol :: "status_map \<Rightarrow> string \<Rightarrow> task_status option" where
  "by_symbol m mark = symbols m mark"

definition resolve_status :: "status_map \<Rightarrow> string \<Rightarrow> task_status" where
  "resolve_status m mark = (case by_symbol m mark of
       Some s \<Rightarrow> s
     | None \<Rightarrow> \<lparr> status_symbol = mark, status_name = ''Todo'', status_kind = StatusTodo \<rparr>)"

definition by_name :: "unicode \<Rightarrow> status_map \<Rightarrow> string \<Rightarrow> task_status option" where
  "by_name u m name = names m (normalize_name u name)"

definition by_type :: "status_map \<Rightarrow> status_type \<Rightarrow> task_status list" where
  "by_type m k = (case kinds m k of Some ss \<Rightarrow> ss | None \<Rightarrow> [])"

definition purge_stale_entries :: "unicode \<Rightarrow> task_status \<Rightarrow> status_map \<Rightarrow> status_map" where
  "purge_stale_entries u status m = (case symbols m (status_symbol status) of
       None \<Rightarrow> m
     | Some previous \<Rightarrow>
         let m1 = (case kinds m (status_kind previous) of
              Some bucket \<Rightarrow> m \<lparr> kinds := (kinds m)(status_kind previous \<mapsto>
                filter (\<lambda>existing. status_symbol existing \<noteq> status_symbol previous) bucket) \<rparr>
            | None \<Rightarrow> m);
            previous_key = normalize_name u (status_name previous)
         in (case names m1 previous_key of
              Some current \<Rightarrow> if status_symbol current = status_symbol previous
                then m1 \<lparr> names := (names m1)(previous_key := None) \<rparr> else m1
            | None \<Rightarrow> m1))"

definition index_status :: "unicode \<Rightarrow> task_status \<Rightarrow> status_map \<Rightarrow> status_map" where
  "index_status u status m =
     \<lparr> symbols = (symbols m)(status_symbol status \<mapsto> status),
       names = (names m)(normalize_name u (status_name status) \<mapsto> status),
       kinds = (kinds m)(status_kind status \<mapsto> by_type m (status_kind status) @ [status]) \<rparr>"

definition status_insert ::
  "unicode \<Rightarrow> status_map \<Rightarrow> task_status \<Rightarrow> (task_error, status_map) result" where
  "status_insert u m status =
     (if classify_delimiter (status_symbol status) \<noteq> None
      then Err (ProhibitedStatusSymbol (status_symbol status))
      else Ok (index_status u status (purge_stale_entries u status m)))"

definition default_statuses :: "task_status list" where
  "default_statuses =
    [ \<lparr> status_symbol = '' '', status_name = ''Todo'', status_kind = StatusTodo \<rparr>,
      \<lparr> status_symbol = ''x'', status_name = ''Done'', status_kind = StatusDone \<rparr>,
      \<lparr> status_symbol = ''X'', status_name = ''Done'', status_kind = StatusDone \<rparr>,
      \<lparr> status_symbol = ''/'', status_name = ''In Progress'', status_kind = StatusInProgress \<rparr>,
      \<lparr> status_symbol = ''-'', status_name = ''Cancelled'', status_kind = StatusCancelled \<rparr>,
      \<lparr> status_symbol = ''!'', status_name = ''On Hold'', status_kind = StatusOnHold \<rparr> ]"

definition empty_status_map :: status_map where
  "empty_status_map = \<lparr> symbols = (\<lambda>_. None), names = (\<lambda>_. None), kinds = (\<lambda>_. None) \<rparr>"

definition default_status_map :: "unicode \<Rightarrow> status_map" where
  "default_status_map u = fold (index_status u) default_statuses empty_status_map"

section \<open>Priorities and dates\<close>

datatype task_priority = Lowest | Low | Normal_priority | Medium | High | Highest

fun priority_name :: "task_priority \<Rightarrow> string" where
  "priority_name Lowest = ''lowest''"
| "priority_name Low = ''low''"
| "priority_name Normal_priority = ''normal''"
| "priority_name Medium = ''medium''"
| "priority_name High = ''high''"
| "priority_name Highest = ''highest''"

fun priority_rank :: "task_priority \<Rightarrow> nat" where
  "priority_rank Lowest = 0"
| "priority_rank Low = 1"
| "priority_rank Normal_priority = 2"
| "priority_rank Medium = 3"
| "priority_rank High = 4"
| "priority_rank Highest = 5"

definition utf8 :: "nat list \<Rightarrow> string" where
  "utf8 ns = map char_of ns"

fun priority_emoji :: "task_priority \<Rightarrow> string option" where
  "priority_emoji Highest = Some (utf8 [240, 159, 148, 186])"
| "priority_emoji High = Some (utf8 [226, 143, 171])"
| "priority_emoji Medium = Some (utf8 [240, 159, 148, 188])"
| "priority_emoji Low = Some (utf8 [240, 159, 148, 189])"
| "priority_emoji Lowest = Some (utf8 [226, 143, 172])"
| "priority_emoji Normal_priority = None"

definition priority_emojis :: "(string \<times> task_priority) list" where
  "priority_emojis = [(utf8 [240, 159, 148, 186], Highest), (utf8 [226, 143, 171], High),
     (utf8 [240, 159, 148, 188], Medium), (utf8 [240, 159, 148, 189], Low),
     (utf8 [226, 143, 172], Lowest)]"

text \<open>Trailing variation selectors (U+FE0F) are dropped before the lookup.\<close>

definition trim_variation :: "string \<Rightarrow> string" where
  "trim_variation s = concat (rev (dropWhile (\<lambda>ch. ch = utf8 [239, 184, 143]) (rev (chars s))))"

definition priority_from_emoji :: "string \<Rightarrow> task_priority option" where
  "priority_from_emoji emoji = (let trimmed = trim_variation emoji in
     map_option snd (List.find (\<lambda>(e, p). e = trimmed) priority_emojis))"

definition priority_parse :: "string \<Rightarrow> (task_error, task_priority) result" where
  "priority_parse s = (let name = map to_ascii_lower (trim s) in
     if name = ''lowest'' then Ok Lowest
     else if name = ''low'' then Ok Low
     else if name = ''normal'' then Ok Normal_priority
     else if name = ''medium'' then Ok Medium
     else if name = ''high'' then Ok High
     else if name = ''highest'' then Ok Highest
     else ok_or (InvalidPriority s) (priority_from_emoji s))"

definition date_emojis :: "(string \<times> task_date_type) list" where
  "date_emojis = [(utf8 [226, 158, 149], TaskCreated), (utf8 [226, 143, 179], TaskScheduled),
     (utf8 [240, 159, 155, 171], TaskStart), (utf8 [240, 159, 147, 133], TaskDue),
     (utf8 [240, 159, 151, 147], TaskDue), (utf8 [226, 156, 133], TaskDone),
     (utf8 [226, 157, 140], TaskCancelled)]"

definition date_from_emoji :: "string \<Rightarrow> task_date_type option" where
  "date_from_emoji emoji = (let trimmed = trim_variation emoji in
     map_option snd (List.find (\<lambda>(e, kind). e = trimmed) date_emojis))"

record date_set =
  date_created :: "int option"
  date_scheduled :: "int option"
  date_start :: "int option"
  date_due :: "int option"
  date_done :: "int option"
  date_cancelled :: "int option"

fun date_get :: "date_set \<Rightarrow> task_date_type \<Rightarrow> int option" where
  "date_get s TaskCreated = date_created s"
| "date_get s TaskScheduled = date_scheduled s"
| "date_get s TaskStart = date_start s"
| "date_get s TaskDue = date_due s"
| "date_get s TaskDone = date_done s"
| "date_get s TaskCancelled = date_cancelled s"

text \<open>The first date of a slot wins.\<close>

fun date_insert :: "task_date_type \<times> int \<Rightarrow> date_set \<Rightarrow> date_set" where
  "date_insert (TaskCreated, d) s =
     (if date_created s = None then s \<lparr> date_created := Some d \<rparr> else s)"
| "date_insert (TaskScheduled, d) s =
     (if date_scheduled s = None then s \<lparr> date_scheduled := Some d \<rparr> else s)"
| "date_insert (TaskStart, d) s =
     (if date_start s = None then s \<lparr> date_start := Some d \<rparr> else s)"
| "date_insert (TaskDue, d) s =
     (if date_due s = None then s \<lparr> date_due := Some d \<rparr> else s)"
| "date_insert (TaskDone, d) s =
     (if date_done s = None then s \<lparr> date_done := Some d \<rparr> else s)"
| "date_insert (TaskCancelled, d) s =
     (if date_cancelled s = None then s \<lparr> date_cancelled := Some d \<rparr> else s)"

definition empty_date_set :: date_set where
  "empty_date_set = \<lparr> date_created = None, date_scheduled = None, date_start = None, date_due = None,
     date_done = None, date_cancelled = None \<rparr>"

definition date_set_is_empty :: "date_set \<Rightarrow> bool" where
  "date_set_is_empty s \<longleftrightarrow> date_created s = None \<and> date_scheduled s = None \<and> date_start s = None
     \<and> date_due s = None \<and> date_done s = None \<and> date_cancelled s = None"

definition date_set_collect :: "(task_date_type \<times> int) list \<Rightarrow> date_set" where
  "date_set_collect ds = fold date_insert ds empty_date_set"

text \<open>The iterator: \<open>next\<close> skips the empty slots from its index on.\<close>

function date_iter_next :: "date_set \<Rightarrow> nat \<Rightarrow> ((task_date_type \<times> int) \<times> nat) option" where
  "date_iter_next s index = (case slice_get task_date_types index of
       None \<Rightarrow> None
     | Some kind \<Rightarrow> (case date_get s kind of
           Some d \<Rightarrow> Some ((kind, d), index + 1)
         | None \<Rightarrow> date_iter_next s (index + 1)))"
  by pat_completeness auto

termination
  by (relation "measure (\<lambda>(s, index). length task_date_types - index)")
    (auto simp: slice_get_eq_Some)

declare date_iter_next.simps [simp del]

fun task_date_field_keys :: "task_date_type \<Rightarrow> string list" where
  "task_date_field_keys TaskCreated = [''created'']"
| "task_date_field_keys TaskScheduled = [''scheduled'']"
| "task_date_field_keys TaskStart = [''start'']"
| "task_date_field_keys TaskDue = [''due'']"
| "task_date_field_keys TaskDone = [''done'', ''completion'']"
| "task_date_field_keys TaskCancelled = [''cancelled'']"

definition is_task_field_key :: "string \<Rightarrow> bool" where
  "is_task_field_key key \<longleftrightarrow>
     list_ex (eq_ignore_ascii_case key) (concat (map task_date_field_keys task_date_types) @ [''priority''])"

section \<open>The tables agree\<close>

definition status_map_ok :: "unicode \<Rightarrow> status_map \<Rightarrow> bool" where
  "status_map_ok u m \<longleftrightarrow>
     (\<forall>mark s. symbols m mark = Some s \<longrightarrow> status_symbol s = mark)
   \<and> (\<forall>k. distinct (by_type m k)
        \<and> set (by_type m k) = {s. symbols m (status_symbol s) = Some s \<and> status_kind s = k})
   \<and> (\<forall>n s. names m n = Some s \<longrightarrow> symbols m (status_symbol s) = Some s
        \<and> normalize_name u (status_name s) = n)"

lemma status_map_okD:
  assumes "status_map_ok u m"
  shows "symbols m mark = Some s \<Longrightarrow> status_symbol s = mark"
    and "distinct (by_type m k)"
    and "s \<in> set (by_type m k) \<longleftrightarrow> symbols m (status_symbol s) = Some s \<and> status_kind s = k"
    and "names m n = Some s \<Longrightarrow> symbols m (status_symbol s) = Some s"
    and "names m n = Some s \<Longrightarrow> normalize_name u (status_name s) = n"
  using assms unfolding status_map_ok_def by blast+

text \<open>The lookups after the purge: no entry of the overridden symbol is left.\<close>

lemma symbols_purge [simp]: "symbols (purge_stale_entries u s m) = symbols m"
  by (auto simp: purge_stale_entries_def Let_def split: option.splits)

lemma by_type_purge:
  assumes ok: "status_map_ok u m"
  shows "by_type (purge_stale_entries u s m) k
    = filter (\<lambda>e. status_symbol e \<noteq> status_symbol s) (by_type m k)"
proof (cases "symbols m (status_symbol s)")
  case None
  then have "\<forall>e\<in>set (by_type m k). status_symbol e \<noteq> status_symbol s"
    using status_map_okD(3) [OF ok] by fastforce
  with None show ?thesis by (simp add: purge_stale_entries_def filter_id_conv)
next
  case (Some p)
  then have p: "status_symbol p = status_symbol s" using status_map_okD(1) [OF ok] by blast
  have kinds: "by_type (purge_stale_entries u s m) k = (if k = status_kind p
      then filter (\<lambda>e. status_symbol e \<noteq> status_symbol s) (by_type m k) else by_type m k)"
    using Some p by (auto simp: purge_stale_entries_def by_type_def Let_def split: option.splits)
  have "\<forall>e\<in>set (by_type m k). status_symbol e \<noteq> status_symbol s" if "k \<noteq> status_kind p"
    using status_map_okD(3) [OF ok] Some that by force
  then show ?thesis unfolding kinds by (simp add: filter_id_conv)
qed

lemma names_purge:
  assumes ok: "status_map_ok u m"
  shows "names (purge_stale_entries u s m) n = Some e
    \<longleftrightarrow> names m n = Some e \<and> status_symbol e \<noteq> status_symbol s"
proof (cases "symbols m (status_symbol s)")
  case None
  then have "status_symbol e \<noteq> status_symbol s" if "names m n = Some e"
    using status_map_okD(4) [OF ok that] by auto
  with None show ?thesis by (auto simp: purge_stale_entries_def)
next
  case (Some p)
  then have p: "status_symbol p = status_symbol s" using status_map_okD(1) [OF ok] by blast
  have names: "names (purge_stale_entries u s m) = (case names m (normalize_name u (status_name p)) of
      Some c \<Rightarrow> if status_symbol c = status_symbol p
        then (names m)(normalize_name u (status_name p) := None) else names m
    | None \<Rightarrow> names m)"
    using Some by (auto simp: purge_stale_entries_def Let_def split: option.splits)
  have "n = normalize_name u (status_name p)" if "names m n = Some e" "status_symbol e = status_symbol s"
    using status_map_okD(4,5) [OF ok that(1)] that(2) Some by auto
  then show ?thesis unfolding names using p by (auto split: option.splits if_splits)
qed

lemma status_map_ok_index:
  assumes ok: "status_map_ok u m"
  shows "status_map_ok u (index_status u s (purge_stale_entries u s m))"
proof -
  let ?p = "purge_stale_entries u s m"
  let ?m = "index_status u s ?p"
  have types: "by_type ?m k = filter (\<lambda>e. status_symbol e \<noteq> status_symbol s) (by_type m k)
      @ (if k = status_kind s then [s] else [])" for k
    using by_type_purge [OF ok] by (simp add: index_status_def by_type_def [of ?m])
      (simp add: by_type_def)
  show ?thesis
    unfolding status_map_ok_def
  proof (intro conjI allI impI)
    fix mark t assume "symbols ?m mark = Some t"
    then show "status_symbol t = mark"
      using status_map_okD(1) [OF ok] by (auto simp: index_status_def split: if_splits)
  next
    fix k
    show "distinct (by_type ?m k)"
      unfolding types using status_map_okD(2) [OF ok] by auto
    show "set (by_type ?m k) = {t. symbols ?m (status_symbol t) = Some t \<and> status_kind t = k}"
      unfolding types using status_map_okD(3) [OF ok]
      by (auto simp: index_status_def split: if_splits)
  next
    fix n t assume "names ?m n = Some t"
    then show "symbols ?m (status_symbol t) = Some t" "normalize_name u (status_name t) = n"
      using names_purge [OF ok] status_map_okD(4,5) [OF ok]
      by (auto simp: index_status_def split: if_splits)
  qed
qed

section \<open>Properties\<close>

text \<open>C31. Inserting a status keeps the three tables in agreement: the by-type buckets partition
  the statuses of the symbol table without duplicates, and every by-name entry is a current
  status of that name; the inserted status is found by its symbol, its name and its type.\<close>

theorem status_insert_consistent:
  assumes "status_map_ok u m" "status_insert u m s = Ok m'"
  shows "status_map_ok u m' \<and> by_symbol m' (status_symbol s) = Some s
    \<and> by_name u m' (status_name s) = Some s \<and> s \<in> set (by_type m' (status_kind s))"
proof -
  from assms(2) have m': "m' = index_status u s (purge_stale_entries u s m)"
    by (auto simp: status_insert_def split: if_splits)
  then have "by_symbol m' (status_symbol s) = Some s" "by_name u m' (status_name s) = Some s"
    by (simp_all add: index_status_def by_symbol_def by_name_def)
  moreover have "s \<in> set (by_type m' (status_kind s))"
    by (simp add: m' index_status_def by_type_def)
  ultimately show ?thesis using status_map_ok_index [OF assms(1)] m' by blast
qed

lemma status_map_ok_empty: "status_map_ok u empty_status_map"
  by (simp add: status_map_ok_def empty_status_map_def by_type_def)

theorem status_insert_consistent_witness:
  "by_symbol (index_status \<lparr>wide_alphabetic = \<lambda>_. False, wide_alphanumeric = \<lambda>_. False, wide_lowercase = id\<rparr>
     default_status empty_status_map) '' '' = Some default_status"
proof -
  let ?u = "\<lparr>wide_alphabetic = \<lambda>_. False, wide_alphanumeric = \<lambda>_. False, wide_lowercase = id\<rparr>"
  have "status_insert ?u empty_status_map default_status
      = Ok (index_status ?u default_status empty_status_map)"
    by (simp add: status_insert_def default_status_def classify_delimiter_def purge_stale_entries_def
        empty_status_map_def)
  from status_insert_consistent [OF status_map_ok_empty this] show ?thesis
    by (simp add: default_status_def)
qed

lemma purge_fresh: "symbols m (status_symbol s) = None \<Longrightarrow> purge_stale_entries u s m = m"
  by (simp add: purge_stale_entries_def)

lemma status_map_ok_default: "status_map_ok u (default_status_map u)"
proof -
  have fold: "distinct (map status_symbol ss) \<Longrightarrow> \<forall>s\<in>set ss. symbols m (status_symbol s) = None \<Longrightarrow> status_map_ok u m
      \<Longrightarrow> status_map_ok u (fold (index_status u) ss m)" for ss m
  proof (induction ss arbitrary: m)
    case (Cons s ss)
    have "status_map_ok u (index_status u s m)"
      using status_map_ok_index [OF Cons.prems(3), of s] purge_fresh [of m s u] Cons.prems(2) by simp
    moreover have "\<forall>t\<in>set ss. symbols (index_status u s m) (status_symbol t) = None"
    proof
      fix t
      assume t: "t \<in> set ss"
      then have "status_symbol t \<noteq> status_symbol s" using Cons.prems(1) by (metis distinct.simps(2) imageI list.set_map list.simps(9))
      then show "symbols (index_status u s m) (status_symbol t) = None" using Cons.prems(2) t by (simp add: index_status_def)
    qed
    ultimately show ?case using Cons.IH Cons.prems(1) by simp
  qed simp
  show ?thesis
    unfolding default_status_map_def
    by (rule fold) (simp_all add: default_statuses_def empty_status_map_def status_map_ok_empty [unfolded empty_status_map_def])
qed

text \<open>C40. What an insertion does to the lookup by name: the inserted name leads to the inserted status, a name
  that led to the overridden status leads nowhere, and every other name leads where it did.  The table
  keeps one status for a name, so a name that another symbol still carries is lost with the status it led
  to, although that symbol is in the map as before.  Overriding the default marker \<open>X\<close> makes
  \<open>Done\<close> unknown while \<open>x\<close> is still done.\<close>

theorem status_name_lost:
  assumes "status_map_ok u m" "status_insert u m s = Ok m'"
  shows "by_name u m' n = (if normalize_name u n = normalize_name u (status_name s) then Some s
      else case by_name u m n of
          Some e \<Rightarrow> if status_symbol e = status_symbol s then None else Some e
        | None \<Rightarrow> None)
    \<and> (\<forall>e q. by_name u m (status_name q) = Some e \<and> status_symbol e = status_symbol s
          \<and> symbols m (status_symbol q) = Some q \<and> status_symbol q \<noteq> status_symbol s
          \<and> normalize_name u (status_name q) \<noteq> normalize_name u (status_name s)
        \<longrightarrow> by_symbol m' (status_symbol q) = Some q \<and> by_name u m' (status_name q) = None)"
proof -
  let ?p = "purge_stale_entries u s m"
  from assms(2) have m': "m' = index_status u s ?p"
    by (auto simp: status_insert_def split: if_splits)
  have purged: "names ?p k = (case names m k of
      Some e \<Rightarrow> if status_symbol e = status_symbol s then None else Some e | None \<Rightarrow> None)" for k
  proof (cases "names ?p k")
    case None
    show ?thesis
    proof (cases "names m k")
      case (Some e)
      then show ?thesis using None names_purge [OF assms(1), of s k e] by simp
    qed (use None in simp)
  next
    case (Some e)
    then have "names m k = Some e \<and> status_symbol e \<noteq> status_symbol s"
      using names_purge [OF assms(1), of s k e] by simp
    then show ?thesis using Some by simp
  qed
  have lookup: "by_name u m' k = (if normalize_name u k = normalize_name u (status_name s) then Some s
      else case by_name u m k of
          Some e \<Rightarrow> if status_symbol e = status_symbol s then None else Some e
        | None \<Rightarrow> None)" for k
    by (simp add: m' by_name_def index_status_def purged)
  moreover have "by_symbol m' (status_symbol q) = Some q"
    if "symbols m (status_symbol q) = Some q" "status_symbol q \<noteq> status_symbol s" for q
    using that by (simp add: m' by_symbol_def index_status_def)
  ultimately show ?thesis by simp
qed

theorem status_name_lost_witness:
  "\<exists>m. status_insert \<lparr>wide_alphabetic = \<lambda>_. False, wide_alphanumeric = \<lambda>_. False, wide_lowercase = id\<rparr>
        (default_status_map \<lparr>wide_alphabetic = \<lambda>_. False, wide_alphanumeric = \<lambda>_. False, wide_lowercase = id\<rparr>)
        \<lparr> status_symbol = ''X'', status_name = ''Abandoned'', status_kind = StatusCancelled \<rparr> = Ok m
    \<and> by_symbol m ''x'' = Some \<lparr> status_symbol = ''x'', status_name = ''Done'', status_kind = StatusDone \<rparr>
    \<and> by_name \<lparr>wide_alphabetic = \<lambda>_. False, wide_alphanumeric = \<lambda>_. False, wide_lowercase = id\<rparr> m ''Done'' = None"
proof -
  let ?u = "\<lparr>wide_alphabetic = \<lambda>_. False, wide_alphanumeric = \<lambda>_. False, wide_lowercase = id\<rparr> :: unicode"
  let ?s = "\<lparr> status_symbol = ''X'', status_name = ''Abandoned'', status_kind = StatusCancelled \<rparr>"
  let ?X = "\<lparr> status_symbol = ''X'', status_name = ''Done'', status_kind = StatusDone \<rparr>"
  let ?x = "\<lparr> status_symbol = ''x'', status_name = ''Done'', status_kind = StatusDone \<rparr>"
  obtain m where m: "status_insert ?u (default_status_map ?u) ?s = Ok m"
    by (simp add: status_insert_def classify_delimiter_def)
  have "by_name ?u (default_status_map ?u) ''Done'' = Some ?X"
    "symbols (default_status_map ?u) ''x'' = Some ?x"
    "normalize_name ?u ''Done'' \<noteq> normalize_name ?u ''Abandoned''"
    by code_simp+
  then have "by_symbol m ''x'' = Some ?x \<and> by_name ?u m ''Done'' = None"
    using status_name_lost [OF status_map_ok_default m, THEN conjunct2, rule_format, of ?x ?X] by simp
  then show ?thesis using m by blast
qed

lemma date_get_insert:
  "date_get (date_insert (k', d) s) k
    = (if k = k' then (case date_get s k of None \<Rightarrow> Some d | Some d' \<Rightarrow> Some d') else date_get s k)"
  by (cases k; cases k') auto

lemma date_get_fold:
  "date_get (fold date_insert ds s) k = (case date_get s k of Some d \<Rightarrow> Some d | None \<Rightarrow> map_of ds k)"
proof (induction ds arbitrary: s)
  case Nil
  then show ?case by (simp split: option.split)
next
  case (Cons e ds)
  then show ?case by (cases e) (simp add: date_get_insert split: option.split)
qed

text \<open>Collecting dates keeps, for every slot, the first date given for it, whatever the order
  and the number of the later ones.\<close>

theorem date_set_first_wins:
  "date_get (date_set_collect ds) k = map_of ds k"
proof -
  have "date_get empty_date_set k = None" by (cases k) (simp_all add: empty_date_set_def)
  then show ?thesis by (simp add: date_set_collect_def date_get_fold)
qed

end
