(* ===== verification/Links.thy ===== *)
theory Links
  imports Delimiters
begin

text \<open>
  \<open>src/note/links.rs\<close>: outgoing links of a note.  A wikilink is parsed in two steps, the
  closing \<open>]]\<close> through \<open>find_closing\<close> of the delimiter component and the split at the first
  unescaped bar; a raw target is split at its first \<open>#\<close> into a path and an anchor, whose
  shape decides how the index resolves it.
\<close>

datatype link_type = MarkdownLink | Wikilink

record link =
  link_target :: string
  link_alias :: "string option"
  link_kind :: link_type
  link_embedded :: bool

definition link_new :: "string \<Rightarrow> string \<Rightarrow> link_type \<Rightarrow> link" where
  "link_new target txt kind = \<lparr> link_target = target,
     link_alias = (if txt = [] then None else Some txt), link_kind = kind, link_embedded = False \<rparr>"

definition link_text :: "link \<Rightarrow> string" where
  "link_text l = (case link_alias l of Some t \<Rightarrow> t | None \<Rightarrow> link_target l)"

section \<open>Escapes inside a wikilink\<close>

fun find_unescaped_from :: "(string \<Rightarrow> bool) \<Rightarrow> bool \<Rightarrow> (nat \<times> string) list \<Rightarrow> nat option" where
  "find_unescaped_from is_close escaped [] = None"
| "find_unescaped_from is_close escaped ((index, ch) # rest) =
     (if ch = [CHR 0x5C] then find_unescaped_from is_close (\<not> escaped) rest
      else if escaped then find_unescaped_from is_close False rest
      else if is_close ch then Some index
      else find_unescaped_from is_close escaped rest)"

definition find_unescaped :: "string \<Rightarrow> (string \<Rightarrow> bool) \<Rightarrow> nat option" where
  "find_unescaped s is_close = find_unescaped_from is_close False (char_indices s)"

definition split_wikilink_text :: "string \<Rightarrow> string \<times> string" where
  "split_wikilink_text s = (case find_unescaped s (\<lambda>ch. ch = ''|'') of
       None \<Rightarrow> (s, s)
     | Some index \<Rightarrow> (take index s, drop (index + 1) s))"

fun unescape_wikilink_chars :: "string list \<Rightarrow> bool \<Rightarrow> string" where
  "unescape_wikilink_chars [] escaped = (if escaped then [CHR 0x5C] else [])"
| "unescape_wikilink_chars (ch # rest) escaped =
     (if escaped then (if ch \<noteq> ''|'' then [CHR 0x5C] else []) @ ch @ unescape_wikilink_chars rest False
      else if ch = [CHR 0x5C] then unescape_wikilink_chars rest True
      else ch @ unescape_wikilink_chars rest False)"

definition unescape_wikilink_part :: "string \<Rightarrow> string" where
  "unescape_wikilink_part s = unescape_wikilink_chars (chars s) False"

section \<open>Parsing\<close>

definition find_wikilink_close :: "string \<Rightarrow> nat option" where
  "find_wikilink_close s = find_closing DoubleBracket s"

definition parse_wikilink_prefix :: "string \<Rightarrow> (link \<times> nat) option" where
  "parse_wikilink_prefix s =
     (let (embedded, raw_start, raw) = (case strip_prefix ''!'' s of
          Some rest \<Rightarrow> (True, 1, rest) | None \<Rightarrow> (False, 0, s));
        inner_start = raw_start + 2
      in Option.bind (strip_prefix ''[['' raw) (\<lambda>inner.
         Option.bind (find_wikilink_close inner) (\<lambda>inner_end.
           let raw_inner = take inner_end inner;
               consumed = inner_start + inner_end + 2;
               (tgt, raw_alias) = split_wikilink_text raw_inner;
               tgt' = unescape_wikilink_part (trim tgt)
           in if tgt' = [] then None
              else let ali = unescape_wikilink_part (trim raw_alias)
                in Some (\<lparr> link_target = tgt',
                     link_alias = (if ali = [] then None else Some ali),
                     link_kind = Wikilink, link_embedded = embedded \<rparr>, consumed))))"

definition parse_wikilink :: "string \<Rightarrow> link option" where
  "parse_wikilink s = Option.bind (parse_wikilink_prefix s)
     (\<lambda>(l, consumed). if consumed = length s then Some l else None)"

section \<open>Targets\<close>

datatype link_target_parts =
  TargetPath string
| PathWithAnchor string string
| AnchorOnly string

definition target_parts :: "link \<Rightarrow> link_target_parts" where
  "target_parts l = (case split_once CHR ''#'' (link_target l) of
       Some (p, anchor) \<Rightarrow>
         let p' = trim p; anchor' = trim anchor
         in if p' = [] then AnchorOnly anchor' else PathWithAnchor p' anchor'
     | None \<Rightarrow> TargetPath (trim (link_target l)))"

fun target_path :: "link_target_parts \<Rightarrow> string option" where
  "target_path (TargetPath p) = Some p"
| "target_path (PathWithAnchor p anchor) = Some p"
| "target_path (AnchorOnly anchor) = None"

fun target_anchor :: "link_target_parts \<Rightarrow> string option" where
  "target_anchor (PathWithAnchor p anchor) = Some anchor"
| "target_anchor (AnchorOnly anchor) = Some anchor"
| "target_anchor (TargetPath p) = None"

definition has_path :: "link_target_parts \<Rightarrow> bool" where
  "has_path t \<longleftrightarrow> (case target_path t of Some p \<Rightarrow> p \<noteq> [] | None \<Rightarrow> False)"

definition is_basename :: "link_target_parts \<Rightarrow> bool" where
  "is_basename t \<longleftrightarrow> has_path t
     \<and> (case target_path t of Some p \<Rightarrow> CHR ''/'' \<notin> set p | None \<Rightarrow> False)"

section \<open>Runs of plain text\<close>

definition plain_byte :: "char \<Rightarrow> bool" where
  "plain_byte c \<longleftrightarrow> ascii c \<and> c \<notin> {CHR 0x22, CHR 0x27, CHR 0x5C}
     \<union> {CHR ''('', CHR '')'', CHR ''['', CHR '']'', CHR ''{'', CHR ''}''}"

lemma ascii_width: "ascii c \<Longrightarrow> char_width c = 1"
  by (simp add: ascii_def char_width_def)

lemma ascii_first [simp]: "ascii c \<Longrightarrow> first_char (c # s) = [c]" "ascii c \<Longrightarrow> after_char (c # s) = s"
  by (simp_all add: first_char_def after_char_def ascii_width)

lemma chars_ascii: "list_all ascii a \<Longrightarrow> chars (a @ s) = map (\<lambda>c. [c]) a @ chars s"
  by (induction a) (simp_all add: ascii_width)

lemma find_loop_plain_byte:
  assumes c: "plain_byte c" and quote: "active_quote st = None"
  shows "find_loop st False pos (c # s) = find_loop st False (sat_add pos 1) s"
proof -
  have ch: "first_char (c # s) = [c]" "after_char (c # s) = s" "[c] \<noteq> [CHR 0x5C]"
    "quote_from_char [c] = None" "from_open_char [c] = None" "[c] \<notin> {'')'', '']'', ''}''}"
    using c by (auto simp: plain_byte_def quote_from_char_def from_open_char_def)
  have brackets: "CHR '']'' \<noteq> c" "CHR ''['' \<noteq> c"
    using c by (auto simp: plain_byte_def)
  have "advance_escaped [c] False = (False, False)" "advance_quote_state [c] st = (False, st)"
    "check_double_bracket_close (c # s) st = None"
    using ch brackets quote
    by (auto simp: advance_escaped_def advance_quote_state_def check_double_bracket_close_def)
  then show ?thesis
    using find_loop_opener [of "c # s" False False st st pos] ch brackets by simp
qed

lemma find_loop_plain:
  assumes "list_all plain_byte a" "active_quote st = None" "pos + length a \<le> usize_max"
  shows "find_loop st False pos (a @ s) = find_loop st False (pos + length a) s"
  using assms(1,3)
proof (induction a arbitrary: pos)
  case (Cons c a)
  then show ?case
    using find_loop_plain_byte [of c st pos "a @ s"] assms(2) by (simp add: sat_add_exact)
qed simp

lemma plain_ascii: "list_all plain_byte a \<Longrightarrow> list_all ascii a"
  by (induction a) (simp_all add: plain_byte_def)

lemma find_closing_plain:
  assumes "list_all plain_byte a" "length a \<le> usize_max"
  shows "find_closing DoubleBracket (a @ '']]'' @ r) = Some (length a)"
proof -
  let ?st = "stack_with_root DoubleBracket"
  have "current_kind ?st = Some DoubleBracket"
    using current_kind_open_kinds [of ?st] by simp
  then have "check_double_bracket_close ('']]'' @ r) ?st
      = Some (True, ?st \<lparr> stack_len := stack_len ?st - 1 \<rparr>)"
    by (simp add: check_double_bracket_close_def)
  moreover have "first_char ('']]'' @ r) = '']''"
    by (simp add: ascii_def)
  moreover have "advance_escaped '']'' False = (False, False)"
    "advance_quote_state '']'' ?st = (False, ?st)"
    by (simp_all add: advance_escaped_def advance_quote_state_def quote_from_char_def)
  ultimately have "find_loop ?st False (length a) ('']]'' @ r) = Some (length a)"
    using find_loop_double [of "'']]'' @ r" False False ?st ?st True _ "length a"] by simp
  then show ?thesis
    using find_loop_plain [OF assms(1), of ?st 0 "'']]'' @ r"] assms(2)
    by (simp add: find_closing_def)
qed

text \<open>Inside a quote nothing closes until the quote does.\<close>

lemma first_char_single: "first_char s = [c] \<Longrightarrow> s \<noteq> [] \<Longrightarrow> c \<in> set s"
  by (metis first_after in_set_conv_decomp append_Cons append_Nil)

lemma find_loop_unclosed_quote:
  assumes "active_quote st = Some q" "quote_char q = [c]" "c \<notin> set s"
  shows "find_loop st e pos s = None"
  using assms(3)
proof (induction "length s" arbitrary: e pos s rule: less_induct)
  case less
  show ?case
  proof (cases "s = []")
    case False
    have shorter: "length (after_char s) < length s" "c \<notin> set (after_char s)"
      using length_after_char [OF False] less.prems first_after [of s]
      by (simp, metis Un_iff set_append)
    note IH = less.hyps [OF shorter]
    obtain consumed e' where esc: "advance_escaped (first_char s) e = (consumed, e')" by fastforce
    show ?thesis
    proof (cases consumed)
      case True
      then show ?thesis using find_loop_consumed [OF False] esc IH by simp
    next
      case not_consumed: False
      have "first_char s \<noteq> [c]" using first_char_single False less.prems by blast
      then have "advance_quote_state (first_char s) st = (True, st)"
        using assms(1,2) by (simp add: advance_quote_state_def)
      then show ?thesis using find_loop_quoted [OF False] esc not_consumed IH by simp
    qed
  qed simp
qed

lemma trim_append_nil: "trim [] = []" by (simp add: trim_def)

lemma find_unescaped_from_plain:
  assumes "list_all plain_byte a" "CHR ''|'' \<notin> set a"
  shows "find_unescaped_from (\<lambda>ch. ch = ''|'') False (indices_from n (map (\<lambda>c. [c]) a @ chs))
    = find_unescaped_from (\<lambda>ch. ch = ''|'') False (indices_from (n + length a) chs)"
  using assms
  by (induction a arbitrary: n) (auto simp: plain_byte_def)

lemma unescape_plain: "list_all plain_byte a \<Longrightarrow> unescape_wikilink_part a = a"
proof -
  assume a: "list_all plain_byte a"
  have "unescape_wikilink_chars (map (\<lambda>c. [c]) a) False = a"
    using a by (induction a) (auto simp: plain_byte_def)
  then show ?thesis
    using chars_ascii [OF plain_ascii [OF a], of "[]"] by (simp add: unescape_wikilink_part_def)
qed

section \<open>Properties\<close>

text \<open>Writing a wikilink and parsing it back gives the link: a trimmed target and alias
  of plain characters survive the round trip.\<close>

theorem wikilink_roundtrip:
  assumes "list_all plain_byte t" "list_all plain_byte a" "CHR ''|'' \<notin> set t"
    "t \<noteq> []" "a \<noteq> []" "trim t = t" "trim a = a" "length t + length a < usize_max"
  shows "parse_wikilink (''[['' @ t @ ''|'' @ a @ '']]'')
    = Some \<lparr> link_target = t, link_alias = Some a, link_kind = Wikilink, link_embedded = False \<rparr>"
proof -
  have bar: "plain_byte CHR ''|''" by (simp add: plain_byte_def ascii_def)
  have close: "find_wikilink_close ((t @ ''|'' @ a) @ '']]'') = Some (length (t @ ''|'' @ a))"
    using find_closing_plain [of "t @ ''|'' @ a" "[]"] assms bar
    by (simp add: find_wikilink_close_def)
  have "find_unescaped (t @ ''|'' @ a) (\<lambda>ch. ch = ''|'') = Some (length t)"
    using find_unescaped_from_plain [OF assms(1,3), of 0 "chars (''|'' @ a)"]
      chars_ascii [OF plain_ascii [OF assms(1)]]
    by (simp add: find_unescaped_def char_indices_def char_width_def)
  then have split: "split_wikilink_text (t @ ''|'' @ a) = (t, a)"
    by (simp add: split_wikilink_text_def)
  have "strip_prefix ''!'' (''[['' @ (t @ ''|'' @ a) @ '']]'') = None"
    "strip_prefix ''[['' (''[['' @ (t @ ''|'' @ a) @ '']]'') = Some ((t @ ''|'' @ a) @ '']]'')"
    by (simp_all add: strip_prefix_def)
  then show ?thesis
    using close split assms
    by (simp add: parse_wikilink_def parse_wikilink_prefix_def unescape_plain Let_def)
qed

theorem wikilink_roundtrip_witness:
  "parse_wikilink ''[[Plan/A|my plan]]''
    = Some \<lparr> link_target = ''Plan/A'', link_alias = Some ''my plan'', link_kind = Wikilink,
        link_embedded = False \<rparr>"
  using wikilink_roundtrip [of "''Plan/A''" "''my plan''"]
  by (simp add: plain_byte_def text_eval)

text \<open>C39. A single apostrophe or double quote in a wikilink makes it unreadable: the scanner
  that looks for the closing brackets treats it as the start of a string literal, so a link
  such as \<open>Bob's plan\<close> is dropped although its brackets are closed.\<close>

theorem wikilink_with_quote_rejected:
  assumes "list_all plain_byte a" "quote_char q = [c]" "c \<notin> set b"
    "length a < usize_max"
  shows "parse_wikilink (''[['' @ a @ [c] @ b @ '']]'') = None"
proof -
  let ?st = "stack_with_root DoubleBracket"
  have c: "c = CHR 0x22 \<or> c = CHR 0x27" using assms(2) by (cases q) auto
  then have ascii: "ascii c" by (auto simp: ascii_def)
  have ch: "advance_escaped [c] False = (False, False)"
    "advance_quote_state [c] ?st = (True, ?st \<lparr> active_quote := Some q \<rparr>)"
    using c assms(2)
    by (cases q; auto simp: advance_escaped_def advance_quote_state_def quote_from_char_def)+
  have rest: "c \<notin> set (b @ '']]'')" using assms(3) c by auto
  have "find_loop ?st False (length a) (c # b @ '']]'')
      = find_loop (?st \<lparr> active_quote := Some q \<rparr>) False (sat_add (length a) 1) (b @ '']]'')"
    using find_loop_quoted [of "c # b @ '']]''" False False ?st] ch ascii by simp
  also have "\<dots> = None"
    by (rule find_loop_unclosed_quote [OF _ assms(2) rest]) simp
  finally have "find_wikilink_close (a @ [c] @ b @ '']]'') = None"
    using find_loop_plain [OF assms(1), of ?st 0 "c # b @ '']]''"] assms(4)
    by (simp add: find_wikilink_close_def find_closing_def)
  then show ?thesis
    by (simp add: parse_wikilink_def parse_wikilink_prefix_def strip_prefix_def Let_def)
qed

theorem wikilink_with_quote_rejected_witness:
  "parse_wikilink (''[[Bob'' @ [CHR 0x27] @ ''s plan]]'') = None"
  using wikilink_with_quote_rejected [of "''Bob''" SingleQuote "CHR 0x27" "''s plan''"]
  by (simp add: plain_byte_def text_eval)

end
