(* ===== verification/Tags.thy ===== *)
theory Tags
  imports Rust_Text
begin

text \<open>
  \<open>src/tag.rs\<close>: validated \<open>#\<close>-tags.  \<open>tag_parse\<close> and \<open>tag_prefix_len\<close> are the strict and
  the longest-prefix scanners of the source, \<open>tag_segments\<close> the ancestors of a tag, and
  \<open>is_contained_in\<close> the byte-level containment test the query language relies on.
\<close>

datatype tag_error =
  MissingHash
| InvalidFirstCharacter string
| InvalidBodyCharacter nat string

definition is_body_char :: "unicode \<Rightarrow> string \<Rightarrow> bool" where
  "is_body_char u ch \<longleftrightarrow> is_alphanumeric u ch \<or> ch \<in> {''_'', ''/'', ''-''}"

text \<open>The loop over the characters after the first, carrying the end of the last accepted one.\<close>

fun tag_parse_body :: "unicode \<Rightarrow> (nat \<times> string) list \<Rightarrow> nat \<Rightarrow> (tag_error, nat) result" where
  "tag_parse_body u [] end_pos = Ok end_pos"
| "tag_parse_body u ((offset, ch) # rest) end_pos =
     (if \<not> is_body_char u ch then Err (InvalidBodyCharacter offset ch)
      else tag_parse_body u rest (sat_add offset (length ch)))"

definition tag_parse :: "unicode \<Rightarrow> string \<Rightarrow> (tag_error, string) result" where
  "tag_parse u input =
     and_then (ok_or MissingHash (strip_prefix ''#'' input)) (\<lambda>rest.
       case char_indices rest of
         [] \<Rightarrow> Err MissingHash
       | (_, first) # others \<Rightarrow>
           if \<not> is_alphabetic u first then Err (InvalidFirstCharacter first)
           else and_then (tag_parse_body u others (length first)) (\<lambda>end_pos.
             Ok (take (end_pos + 1) input)))"

definition tag_parse_lenient :: "unicode \<Rightarrow> string \<Rightarrow> (tag_error, string) result" where
  "tag_parse_lenient u input = (let trimmed = trim input;
       body = (case strip_prefix ''#'' trimmed of Some b \<Rightarrow> b | None \<Rightarrow> trimmed)
     in tag_parse u (''#'' @ body))"

fun prefix_len_body :: "unicode \<Rightarrow> (nat \<times> string) list \<Rightarrow> nat \<Rightarrow> nat" where
  "prefix_len_body u [] end_pos = end_pos"
| "prefix_len_body u ((offset, ch) # rest) end_pos =
     (if \<not> is_body_char u ch then end_pos
      else prefix_len_body u rest (sat_add (sat_add 1 offset) (length ch)))"

definition tag_prefix_len :: "unicode \<Rightarrow> string \<Rightarrow> nat option" where
  "tag_prefix_len u input =
     (case strip_prefix ''#'' input of
        None \<Rightarrow> None
      | Some rest \<Rightarrow> (case char_indices rest of
          [] \<Rightarrow> None
        | (_, first) # others \<Rightarrow>
            if \<not> is_alphabetic u first then None
            else Some (prefix_len_body u others (sat_add 1 (length first)))))"

definition tag_segments :: "string \<Rightarrow> string list" where
  "tag_segments t = map (\<lambda>idx. take idx t) (match_indices CHR ''/'' t) @ [t]"

definition is_contained_in :: "string \<Rightarrow> string \<Rightarrow> bool" where
  "is_contained_in t p \<longleftrightarrow> prefix p t
     \<and> (length t = length p \<or> slice_get t (length p) = Some CHR ''/'')"

definition is_hierarchical_match :: "unicode \<Rightarrow> string \<Rightarrow> string \<Rightarrow> bool" where
  "is_hierarchical_match u item target =
     (case tag_parse u item of Inr t \<Rightarrow> is_contained_in t target | Inl _ \<Rightarrow> False)"

definition is_exact_match :: "string \<Rightarrow> string \<Rightarrow> bool" where
  "is_exact_match a b \<longleftrightarrow> a = b"

section \<open>The scanners\<close>

lemma length_concat_chars: "sum_list (map length (chars s)) = length s"
  by (metis concat_chars length_concat)

lemma chars_take: "chars (concat (take k (chars s))) = take k (chars s)"
proof (induction s arbitrary: k rule: chars.induct)
  case 1
  then show ?case by simp
next
  case (2 c cs)
  show ?case
  proof (cases k)
    case (Suc j)
    let ?w = "char_width c - 1"
    show ?thesis
    proof (cases "length cs < ?w")
      case True
      then show ?thesis by (simp add: Suc)
    next
      case False
      then show ?thesis using 2 [of j] by (simp add: Suc)
    qed
  qed simp
qed

lemma take_takeWhile_all: "list_all P (take j xs) \<Longrightarrow> take j (takeWhile P xs) = take j xs"
  by (induction xs arbitrary: j) (auto simp: take_Cons split: nat.splits)

lemma tag_parse_body_indices:
  assumes "n + sum_list (map length chs) \<le> usize_max"
  shows "tag_parse_body u (indices_from n chs) n =
    (case filter (\<lambda>(_, ch). \<not> is_body_char u ch) (indices_from n chs) of
       [] \<Rightarrow> Ok (n + sum_list (map length chs))
     | (offset, ch) # _ \<Rightarrow> Err (InvalidBodyCharacter offset ch))"
  using assms
  by (induction n chs rule: indices_from.induct)
    (auto simp: sat_add_exact add.assoc split: list.splits)

lemma prefix_len_body_indices:
  assumes "1 + n + sum_list (map length chs) \<le> usize_max"
  shows "prefix_len_body u (indices_from n chs) (1 + n)
    = 1 + n + sum_list (map length (takeWhile (is_body_char u) chs))"
  using assms
  by (induction n chs rule: indices_from.induct) (simp_all add: sat_add_exact add.assoc)

lemma filter_indices_from_Nil:
  "filter (\<lambda>(_, ch). \<not> P ch) (indices_from n chs) = [] \<longleftrightarrow> list_all P chs"
  by (induction n chs rule: indices_from.induct) auto

definition tag_shape :: "unicode \<Rightarrow> string \<Rightarrow> bool" where
  "tag_shape u t \<longleftrightarrow> (\<exists>rest first body. t = CHR ''#'' # rest \<and> chars rest = first # body
     \<and> is_alphabetic u first \<and> list_all (is_body_char u) body)"

lemma char_indices_Cons:
  "chars s = first # body \<Longrightarrow> char_indices s = (0, first) # indices_from (length first) body"
  by (simp add: char_indices_def)

lemma tag_parse_Cons:
  assumes len: "length rest < usize_max" and chars: "chars rest = first # body"
  shows "tag_parse u (CHR ''#'' # rest) =
    (if \<not> is_alphabetic u first then Err (InvalidFirstCharacter first)
     else case filter (\<lambda>(_, ch). \<not> is_body_char u ch) (indices_from (length first) body) of
       [] \<Rightarrow> Ok (CHR ''#'' # rest)
     | (offset, ch) # _ \<Rightarrow> Err (InvalidBodyCharacter offset ch))"
proof -
  have sum: "length first + sum_list (map length body) = length rest"
    using length_concat_chars [of rest] chars by simp
  have body: "tag_parse_body u (indices_from (length first) body) (length first) =
    (case filter (\<lambda>(_, ch). \<not> is_body_char u ch) (indices_from (length first) body) of
       [] \<Rightarrow> Ok (length rest)
     | (offset, ch) # _ \<Rightarrow> Err (InvalidBodyCharacter offset ch))"
    using tag_parse_body_indices [of "length first" body u] sum len by (simp split: list.splits)
  show ?thesis
    by (simp add: tag_parse_def strip_prefix_def char_indices_Cons [OF chars] body
        split: list.split prod.split)
qed

lemma tag_parse_shape:
  assumes "length input \<le> usize_max"
  shows "tag_parse u input = Ok t \<longleftrightarrow> t = input \<and> tag_shape u input"
proof (cases "strip_prefix ''#'' input")
  case None
  then have "\<not> tag_shape u input"
    by (auto simp: tag_shape_def strip_prefix_None)
  with None show ?thesis by (simp add: tag_parse_def)
next
  case (Some rest)
  then have input: "input = CHR ''#'' # rest" by (simp add: strip_prefix_Some)
  show ?thesis
  proof (cases "chars rest")
    case Nil
    then show ?thesis
      by (simp add: input tag_parse_def strip_prefix_def char_indices_def tag_shape_def)
  next
    case (Cons first body)
    have "tag_shape u input \<longleftrightarrow> is_alphabetic u first \<and> list_all (is_body_char u) body"
      using Cons by (simp add: input tag_shape_def)
    then show ?thesis
      using assms tag_parse_Cons [OF _ Cons, of u]
        filter_indices_from_Nil [of "is_body_char u" "length first" body]
      by (cases "filter (\<lambda>(_, ch). \<not> is_body_char u ch) (indices_from (length first) body)")
        (auto simp: input)
  qed
qed

lemma tag_prefix_len_Cons:
  assumes len: "length rest < usize_max" and chars: "chars rest = first # body"
  shows "tag_prefix_len u (CHR ''#'' # rest) =
    (if is_alphabetic u first
     then Some (1 + length first + sum_list (map length (takeWhile (is_body_char u) body)))
     else None)"
proof -
  have sum: "length first + sum_list (map length body) = length rest"
    using length_concat_chars [of rest] chars by simp
  then show ?thesis
    using len prefix_len_body_indices [of "length first" body u]
    by (simp add: tag_prefix_len_def strip_prefix_def char_indices_Cons [OF chars] sat_add_exact)
qed

section \<open>Properties\<close>

text \<open>The prefixes made of whole characters that are tags.\<close>

lemma shape_prefix:
  "tag_shape u (concat (take k (chars input))) \<longleftrightarrow> (\<exists>rest first body j. input = CHR ''#'' # rest
     \<and> chars rest = first # body \<and> k = Suc (Suc j) \<and> is_alphabetic u first \<and> list_all (is_body_char u) (take j body))"
    (is "?shape \<longleftrightarrow> ?parts")
proof
  assume ?shape
  then obtain r first body' where p: "concat (take k (chars input)) = CHR ''#'' # r" "chars r = first # body'"
    "is_alphabetic u first" "list_all (is_body_char u) body'"
    unfolding tag_shape_def by blast
  then obtain c rest where input: "input = c # rest" by (cases input) auto
  obtain m where k: "k = Suc m" using p(1) by (cases k) auto
  have "c = CHR ''#''" using p(1) by (simp add: input k)
  then have chars: "chars input = ''#'' # chars rest" by (simp add: input text_eval)
  have "r = concat (take m (chars rest))" using p(1) by (simp add: k chars)
  then have "take m (chars rest) = first # body'" using p(2) chars_take [of m rest] by simp
  then obtain j body where "m = Suc j" "chars rest = first # body" "body' = take j body"
    by (cases m; cases "chars rest") auto
  then show ?parts using p(3,4) \<open>c = CHR ''#''\<close> input k by blast
next
  assume ?parts
  then obtain rest first body j where P: "input = CHR ''#'' # rest" "chars rest = first # body" "k = Suc (Suc j)"
    "is_alphabetic u first" "list_all (is_body_char u) (take j body)" by blast
  have "chars input = ''#'' # first # body" using P(1,2) by (simp add: text_eval)
  then have "concat (take k (chars input)) = CHR ''#'' # concat (take (Suc j) (chars rest))" by (simp add: P(2,3))
  moreover have "chars (concat (take (Suc j) (chars rest))) = first # take j body"
    unfolding chars_take by (simp add: P(2))
  ultimately show ?shape using P(4,5) unfolding tag_shape_def by blast
qed

lemma length_char_prefix: "length (concat (take k (chars s))) \<le> length s"
proof -
  have "length (concat (take k (chars s)) @ concat (drop k (chars s))) = length s"
    by (simp flip: concat_append add: concat_chars)
  then show ?thesis by simp
qed

text \<open>C35. The prefix scanner agrees with the strict parser.  It succeeds exactly when some prefix of the input
  made of whole characters is a tag; the prefix it returns is one, and no longer one is a tag.\<close>

theorem tag_prefix_len_maximal:
  assumes "length input \<le> usize_max"
  shows "case tag_prefix_len u input of
      None \<Rightarrow> \<forall>k. tag_parse u (concat (take k (chars input))) \<noteq> Ok (concat (take k (chars input)))
    | Some n \<Rightarrow> (\<exists>k. take n input = concat (take k (chars input))) \<and> tag_parse u (take n input) = Ok (take n input)
        \<and> (\<forall>k. tag_parse u (concat (take k (chars input))) = Ok (concat (take k (chars input)))
            \<longrightarrow> length (concat (take k (chars input))) \<le> n)"
proof -
  have parse: "tag_parse u (concat (take k (chars input))) = Ok (concat (take k (chars input)))
      \<longleftrightarrow> tag_shape u (concat (take k (chars input)))" for k
    using length_char_prefix [of k input] assms by (simp add: tag_parse_shape)
  show ?thesis
  proof (cases "tag_prefix_len u input")
    case None
    have "\<not> tag_shape u (concat (take k (chars input)))" for k
    proof
      assume "tag_shape u (concat (take k (chars input)))"
      then obtain rest first body where "input = CHR ''#'' # rest" "chars rest = first # body" "is_alphabetic u first"
        unfolding shape_prefix by blast
      then show False using None assms by (simp add: tag_prefix_len_Cons)
    qed
    then show ?thesis using None parse by simp
  next
    case (Some n)
    then obtain rest where "strip_prefix ''#'' input = Some rest"
      by (auto simp: tag_prefix_len_def split: option.splits)
    then have input: "input = CHR ''#'' # rest" by (simp add: strip_prefix_Some)
    then have len: "length rest < usize_max" using assms by simp
    have "chars rest \<noteq> []"
      using Some by (auto simp: input tag_prefix_len_def strip_prefix_def char_indices_def)
    then obtain first body where chars: "chars rest = first # body" by (cases "chars rest") auto
    define good where "good = takeWhile (is_body_char u) body"
    have alpha: "is_alphabetic u first" and n: "n = 1 + length first + length (concat good)"
      using Some by (auto simp: input tag_prefix_len_Cons [OF len chars] good_def length_concat split: if_splits)
    have all: "chars input = ''#'' # first # body" using chars by (simp add: input text_eval)
    let ?k = "Suc (Suc (length good))"
    have good: "take (length good) body = good" unfolding good_def by (simp add: takeWhile_eq_take [symmetric])
    have split: "concat (take ?k (chars input)) @ concat (drop ?k (chars input)) = input"
      by (simp flip: concat_append add: concat_chars)
    have "length (concat (take ?k (chars input))) = n" by (simp add: all good n)
    then have prefix: "take n input = concat (take ?k (chars input))" using split by (metis append_eq_conv_conj)
    have "list_all (is_body_char u) good" unfolding good_def list_all_iff by (auto dest: set_takeWhileD)
    then have "tag_shape u (take n input)"
      using input chars alpha good unfolding prefix shape_prefix by auto
    moreover have "length (concat (take k (chars input))) \<le> n"
      if shape: "tag_shape u (concat (take k (chars input)))" for k
    proof -
      obtain j where j: "k = Suc (Suc j)" "list_all (is_body_char u) (take j body)"
        using shape chars unfolding shape_prefix input by auto
      then have "take j body = take j good" using take_takeWhile_all [of _ j body] unfolding good_def by simp
      then have "length (concat (take k (chars input))) = 1 + length first + length (concat (take j good))"
        by (simp add: all j(1))
      moreover have "length (concat (take j good)) \<le> length (concat good)"
        by (metis append_take_drop_id concat_append le_add1 length_append)
      ultimately show ?thesis using n by simp
    qed
    ultimately show ?thesis using Some parse prefix by auto
  qed
qed

theorem tag_prefix_len_maximal_witness:
  "tag_parse \<lparr>wide_alphabetic = \<lambda>_. False, wide_alphanumeric = \<lambda>_. False, wide_lowercase = id\<rparr>
     ''#a/b'' = Ok ''#a/b''
    \<and> (\<forall>k. tag_parse \<lparr>wide_alphabetic = \<lambda>_. False, wide_alphanumeric = \<lambda>_. False, wide_lowercase = id\<rparr> (concat (take k (chars ''#1''))) \<noteq> Ok (concat (take k (chars ''#1''))))"
proof -
  let ?u = "\<lparr>wide_alphabetic = \<lambda>_. False, wide_alphanumeric = \<lambda>_. False, wide_lowercase = id\<rparr>"
  have "tag_prefix_len ?u ''#a/b c'' = Some 4" "tag_prefix_len ?u ''#1'' = None"
    by code_simp+
  then show ?thesis
    using tag_prefix_len_maximal [of "''#a/b c''" ?u] tag_prefix_len_maximal [of "''#1''" ?u]
    by (simp add: usize_max_def)
qed

lemma is_contained_in_slash: "is_contained_in t p \<longleftrightarrow> t = p \<or> prefix (p @ ''/'') t"
proof (cases "prefix p t")
  case True
  then obtain zs where "t = p @ zs" by (auto simp: prefix_def)
  then show ?thesis by (cases zs) (auto simp: is_contained_in_def slice_get_def)
next
  case False
  then show ?thesis by (auto simp: is_contained_in_def dest: append_prefixD)
qed

lemma prefix_slash_index: "prefix (p @ ''/'') t \<Longrightarrow>
  length p < length t \<and> t ! length p = CHR ''/'' \<and> p = take (length p) t"
  by (auto simp: prefix_def nth_append)

lemma contained_segment: "is_contained_in t p \<Longrightarrow> p \<in> set (tag_segments t)"
  unfolding is_contained_in_slash tag_segments_def match_indices_def
  using prefix_slash_index [of p t] by (auto intro!: image_eqI [of _ _ "length p"])

text \<open>A tag is contained in a prefix exactly when the prefix is one of the ancestor
  segments the tag lists, and containment of tags is a partial order.\<close>

theorem contained_iff_segment:
  "(is_contained_in t p \<longleftrightarrow> p \<in> set (tag_segments t))
   \<and> is_contained_in t t
   \<and> (is_contained_in a b \<and> is_contained_in b c \<longrightarrow> is_contained_in a c)
   \<and> (is_contained_in a b \<and> is_contained_in b a \<longrightarrow> a = b)"
proof (intro conjI)
  show "is_contained_in t p \<longleftrightarrow> p \<in> set (tag_segments t)"
  proof (rule iffI [OF contained_segment])
    assume "p \<in> set (tag_segments t)"
    then show "is_contained_in t p"
      unfolding is_contained_in_def tag_segments_def match_indices_def
      by (auto simp: take_is_prefix slice_get_def)
  qed
  show "is_contained_in t t" by (simp add: is_contained_in_slash)
  show "is_contained_in a b \<and> is_contained_in b c \<longrightarrow> is_contained_in a c"
    unfolding is_contained_in_slash by (auto simp: prefix_def)
  show "is_contained_in a b \<and> is_contained_in b a \<longrightarrow> a = b"
    unfolding is_contained_in_slash by (auto simp: prefix_def)
qed

theorem contained_iff_segment_witness:
  "is_contained_in ''#a/b/c'' ''#a'' \<and> ''#a'' \<in> set (tag_segments ''#a/b/c'')"
  using contained_iff_segment [of "''#a/b/c''" "''#a''" "''#a/b/c''" "''#a/b''" "''#a''"]
  by (simp add: is_contained_in_slash)

end
