(* ===== verification/Local_Zone.thy ===== *)
theory Local_Zone
  imports Rust_Prelude
begin

text \<open>
  Local time (\<open>src/date.rs\<close>): the resolution of a wall clock time to an instant and of a date to the
  instant of its midnight.  Instants and wall clock times are nanoseconds since the epoch, dates are day
  numbers, offsets are seconds east of UTC.  The two lookups of \<open>chrono::Local\<close> are the parameter
  \<open>local_zone\<close>.  The instant of a midnight is ascending in the date when offsets change by less than a
  day, and only then.
\<close>

section \<open>Wall clock times\<close>

definition nanos_per_second :: int where "nanos_per_second = 10 ^ 9"

definition nanos_per_hour :: int where "nanos_per_hour = 3600 * nanos_per_second"

definition nanos_per_day :: int where "nanos_per_day = 86400 * nanos_per_second"

lemma nanos_values: "nanos_per_second = 1000000000" "nanos_per_day = 86400000000000"
  by (simp_all add: nanos_per_second_def nanos_per_day_def)

definition wall_date :: "int \<Rightarrow> int" where "wall_date wall = wall div nanos_per_day"

text \<open>The days of \<open>NaiveDate\<close>: from 1 January of year -262143 to 31 December of year 262142.\<close>

definition first_day :: int where "first_day = -96465292"

definition last_day :: int where "last_day = 95026236"

definition checked_wall :: "int \<Rightarrow> int option" where
  "checked_wall wall = (if first_day \<le> wall_date wall \<and> wall_date wall \<le> last_day then Some wall else None)"

definition checked_sub_offset :: "int \<Rightarrow> int \<Rightarrow> int option" where
  "checked_sub_offset wall offset = checked_wall (wall - offset * nanos_per_second)"

definition checked_add_offset :: "int \<Rightarrow> int \<Rightarrow> int option" where
  "checked_add_offset wall offset = checked_wall (wall + offset * nanos_per_second)"

section \<open>Resolution\<close>

datatype mapped_local_time = SingleOffset int | AmbiguousOffset int int | NoOffset

record local_zone =
  offset_from_local :: "int \<Rightarrow> mapped_local_time"
  offset_from_utc :: "int \<Rightarrow> int"

text \<open>The error of a lookup carries the wall clock time, which the code prints.\<close>

datatype zone_error = LocalZoneLookup int

text \<open>\<open>n\<close> steps of one hour back are left.\<close>

fun gap_offset_from :: "local_zone \<Rightarrow> nat \<Rightarrow> int \<Rightarrow> int option" where
  "gap_offset_from tz 0 probe = None"
| "gap_offset_from tz (Suc n) probe = Option.bind (checked_wall (probe - nanos_per_hour)) (\<lambda>probe.
     case offset_from_local tz probe of
       SingleOffset offset \<Rightarrow> Some offset
     | AmbiguousOffset offset _ \<Rightarrow> Some offset
     | NoOffset \<Rightarrow> gap_offset_from tz n probe)"

definition resolve_gap_offset :: "local_zone \<Rightarrow> int \<Rightarrow> (zone_error, int) result" where
  "resolve_gap_offset tz wall = ok_or (LocalZoneLookup wall) (gap_offset_from tz 25 wall)"

definition local_naive_to_utc :: "local_zone \<Rightarrow> int \<Rightarrow> (zone_error, int) result" where
  "local_naive_to_utc tz wall = (case offset_from_local tz wall of
       SingleOffset offset \<Rightarrow> ok_or (LocalZoneLookup wall) (checked_sub_offset wall offset)
     | AmbiguousOffset a b \<Rightarrow>
         let earliest = (if b \<le> a then a else b)
         in ok_or (LocalZoneLookup wall) (checked_sub_offset wall earliest)
     | NoOffset \<Rightarrow> and_then (resolve_gap_offset tz wall)
         (\<lambda>offset. ok_or (LocalZoneLookup wall) (checked_sub_offset wall offset)))"

text \<open>\<open>From<DateValue> for DateTimeValue\<close>.\<close>

definition midnight :: "local_zone \<Rightarrow> int \<Rightarrow> int" where
  "midnight tz date = (let wall = date * nanos_per_day in
     case local_naive_to_utc tz wall of Inr instant \<Rightarrow> instant | Inl _ \<Rightarrow> wall)"

definition local_wall :: "local_zone \<Rightarrow> int \<Rightarrow> int option" where
  "local_wall tz instant = checked_add_offset instant (offset_from_utc tz instant)"

definition wall_or_utc :: "local_zone \<Rightarrow> int \<Rightarrow> int" where
  "wall_or_utc tz instant = (case local_wall tz instant of Some wall \<Rightarrow> wall | None \<Rightarrow> instant)"

definition datetime_date :: "local_zone \<Rightarrow> int \<Rightarrow> int" where
  "datetime_date tz instant = wall_date (wall_or_utc tz instant)"

section \<open>Midnights in order\<close>

text \<open>The instant of a midnight is that of an offset, the one of UTC when the zone gives none.\<close>

definition midnight_offset :: "local_zone \<Rightarrow> int \<Rightarrow> int" where
  "midnight_offset tz date = (date * nanos_per_day - midnight tz date) div nanos_per_second"

lemma checked_wall_Some: "checked_wall w = Some v \<Longrightarrow> v = w"
  by (simp add: checked_wall_def split: if_splits)

lemma checked_sub_offset_Some: "checked_sub_offset w offset = Some t \<Longrightarrow> t = w - offset * nanos_per_second"
  using checked_wall_Some by (simp add: checked_sub_offset_def)

lemma local_naive_to_utc_offset:
  assumes "local_naive_to_utc tz wall = Ok t"
  shows "\<exists>offset. t = wall - offset * nanos_per_second"
proof -
  have "\<exists>offset. checked_sub_offset wall offset = Some t"
    using assms
    by (auto simp: local_naive_to_utc_def ok_or_def and_then_eq_Ok Let_def
        split: mapped_local_time.splits option.splits)
  then show ?thesis using checked_sub_offset_Some by blast
qed

lemma midnight_by_offset: "midnight tz date = date * nanos_per_day - midnight_offset tz date * nanos_per_second"
proof -
  obtain offset where "midnight tz date = date * nanos_per_day - offset * nanos_per_second"
  proof (cases "local_naive_to_utc tz (date * nanos_per_day)")
    case (Inl e)
    then show ?thesis using that [of 0] by (simp add: midnight_def)
  next
    case (Inr t)
    then show ?thesis using local_naive_to_utc_offset [OF Inr] that by (auto simp: midnight_def)
  qed
  then show ?thesis by (simp add: midnight_offset_def nanos_per_second_def)
qed

text \<open>Midnights are ascending exactly when the offset never grows by a day or more between two of them.\<close>

lemma midnights_ascending:
  "strict_mono_on D (midnight tz) \<longleftrightarrow>
     (\<forall>d\<in>D. \<forall>e\<in>D. d < e \<longrightarrow> midnight_offset tz e - midnight_offset tz d < 86400 * (e - d))"
proof -
  have scale: "d * nanos_per_day - a * nanos_per_second = (d * 86400 - a) * nanos_per_second" for d a
    by (simp add: nanos_values)
  have pos: "0 < nanos_per_second" by (simp add: nanos_values)
  have "midnight tz d < midnight tz e
      \<longleftrightarrow> midnight_offset tz e - midnight_offset tz d < 86400 * (e - d)" for d e
    unfolding midnight_by_offset scale mult_less_cancel_right_pos [OF pos] by (simp only: algebra_simps)
  then show ?thesis unfolding strict_mono_on_def by blast
qed

text \<open>A zone with one offset, within a day of UTC as every \<open>FixedOffset\<close> is.\<close>

definition fixed_zone :: "int \<Rightarrow> local_zone" where
  "fixed_zone offset = \<lparr> offset_from_local = (\<lambda>_. SingleOffset offset), offset_from_utc = (\<lambda>_. offset) \<rparr>"

lemma fixed_zone_midnight:
  "midnight_offset (fixed_zone offset) date
    = (if checked_wall (date * nanos_per_day - offset * nanos_per_second) = None then 0 else offset)"
proof (cases "checked_wall (date * nanos_per_day - offset * nanos_per_second)")
  case None
  then show ?thesis
    by (simp add: midnight_offset_def midnight_def local_naive_to_utc_def fixed_zone_def checked_sub_offset_def ok_or_def)
next
  case (Some t)
  then have "midnight (fixed_zone offset) date = date * nanos_per_day - offset * nanos_per_second"
    using checked_wall_Some [OF Some]
    by (simp add: midnight_def local_naive_to_utc_def fixed_zone_def checked_sub_offset_def ok_or_def)
  then show ?thesis using Some by (simp add: midnight_offset_def) (simp add: nanos_per_second_def)
qed

lemma fixed_zone_ascending:
  assumes "\<bar>offset\<bar> < 86400"
  shows "strict_mono_on D (midnight (fixed_zone offset))"
  unfolding midnights_ascending fixed_zone_midnight using assms by auto

text \<open>A zone that skips one day: ten hours behind UTC before it, fourteen ahead after it, as in Apia at the
  end of 2011.\<close>

definition skipping_zone :: "int \<Rightarrow> local_zone" where
  "skipping_zone date = \<lparr>
     offset_from_local = (\<lambda>wall. if wall_date wall < date then SingleOffset (-36000)
       else if wall_date wall = date then NoOffset else SingleOffset 50400),
     offset_from_utc = (\<lambda>instant. if instant < date * nanos_per_day + 10 * nanos_per_hour then -36000 else 50400) \<rparr>"

lemma skipped_midnight: "midnight (skipping_zone 15338) 15338 = midnight (skipping_zone 15338) 15339"
  by code_simp

text \<open>An ambiguous time is read as its earlier instant.\<close>

lemma ambiguous_earliest:
  assumes "offset_from_local tz wall = AmbiguousOffset a b" "local_naive_to_utc tz wall = Ok t"
  shows "t = min (wall - a * nanos_per_second) (wall - b * nanos_per_second)"
  using assms
  by (auto simp: local_naive_to_utc_def ok_or_def Let_def min_def nanos_per_second_def dest!: checked_sub_offset_Some
      split: option.splits if_splits)

end
