(* ===== verification/Field_Values.thy ===== *)
theory Field_Values
  imports Links Tags Local_Zone
begin

text \<open>
  \<open>src/note/field.rs\<close>: dynamically typed metadata values, their order, literal equality and
  containment.  A double is its 64 bits, ordered as \<open>f64::total_cmp\<close> orders them; a date is its day
  number, a date-time its instant, and a date next to a date-time is the instant of its local midnight
  (\<open>Local_Zone\<close>).
\<close>

unbundle bit_operations_syntax

section \<open>Doubles\<close>

type_synonym f64 = "64 word"

text \<open>The key of \<open>total_cmp\<close>: the bits as a signed integer, with the magnitude of a negative
  number flipped.\<close>

definition f64_key :: "f64 \<Rightarrow> int" where
  "f64_key x = sint (x XOR drop_bit 1 (signed_drop_bit 63 x))"

definition f64_total_cmp :: "f64 \<Rightarrow> f64 \<Rightarrow> ordering" where
  "f64_total_cmp a b = compare (f64_key a) (f64_key b)"

definition f64_is_nan :: "f64 \<Rightarrow> bool" where
  "f64_is_nan x \<longleftrightarrow> x AND 0x7FF0000000000000 = 0x7FF0000000000000 \<and> x AND 0x000FFFFFFFFFFFFF \<noteq> 0"

text \<open>IEEE equality: no NaN is equal to anything, and the two zeros are equal.\<close>

definition f64_eq :: "f64 \<Rightarrow> f64 \<Rightarrow> bool" where
  "f64_eq a b \<longleftrightarrow> \<not> f64_is_nan a \<and> \<not> f64_is_nan b
     \<and> (a = b \<or> (a OR b) AND 0x7FFFFFFFFFFFFFFF = 0)"

text \<open>\<open>n + 0.0\<close> turns the negative zero into the positive one, quiets a signalling NaN, and
  changes no other double.\<close>

definition normalize_zero :: "f64 \<Rightarrow> f64" where
  "normalize_zero x = (if x = 0x8000000000000000 then 0
     else if f64_is_nan x then x OR 0x0008000000000000 else x)"

section \<open>Values\<close>

datatype duration_unit = Millisecond | Second | Minute | Hour | Day | Week | Month | Year

record duration =
  duration_raw :: string
  duration_seconds :: f64
  duration_parts :: "(f64 \<times> duration_unit) list option"

definition duration_cmp :: "duration \<Rightarrow> duration \<Rightarrow> ordering" where
  "duration_cmp a b = f64_total_cmp (duration_seconds a) (duration_seconds b)"

definition duration_eq :: "duration \<Rightarrow> duration \<Rightarrow> bool" where
  "duration_eq a b \<longleftrightarrow> f64_total_cmp (duration_seconds a) (duration_seconds b) = Equal"

datatype field_value =
  Null
| VBool bool
| VNumber f64
| VString string
| VDate int
| VDateTime int
| VDuration duration
| VLink link
| VList "field_value list"
| VObject "(string \<times> field_value) list"

datatype field_type =
  NullType | BoolType | NumberType | DurationType | TemporalType | TextType | LinkType
| ListType | ObjectType

fun field_rank :: "field_type \<Rightarrow> nat" where
  "field_rank NullType = 0"
| "field_rank BoolType = 1"
| "field_rank NumberType = 2"
| "field_rank DurationType = 3"
| "field_rank TemporalType = 4"
| "field_rank TextType = 5"
| "field_rank LinkType = 6"
| "field_rank ListType = 7"
| "field_rank ObjectType = 8"

fun value_kind :: "field_value \<Rightarrow> field_type" where
  "value_kind Null = NullType"
| "value_kind (VBool b) = BoolType"
| "value_kind (VNumber n) = NumberType"
| "value_kind (VDuration d) = DurationType"
| "value_kind (VDate d) = TemporalType"
| "value_kind (VDateTime t) = TemporalType"
| "value_kind (VString s) = TextType"
| "value_kind (VLink l) = LinkType"
| "value_kind (VList vs) = ListType"
| "value_kind (VObject fs) = ObjectType"

definition value_rank :: "field_value \<Rightarrow> nat" where
  "value_rank v = field_rank (value_kind v)"

fun value_as_str :: "field_value \<Rightarrow> string option" where
  "value_as_str (VString s) = Some s"
| "value_as_str (VDuration d) = Some (duration_raw d)"
| "value_as_str _ = None"

section \<open>The order of values\<close>

lemma map_of_field_size:
  "map_of fs k = Some v \<Longrightarrow> size v < Suc (size_list (size_prod (\<lambda>_. 0) size) fs)"
  by (induction fs) (auto split: if_splits)

text \<open>The loop of \<open>compare_objects\<close> over the sorted keys of the first object.\<close>

fun compare_keyed ::
  "('a \<Rightarrow> 'a \<Rightarrow> ordering) \<Rightarrow> string list \<Rightarrow> (string \<times> 'a) list \<Rightarrow> (string \<times> 'a) list \<Rightarrow> ordering"
where
  "compare_keyed f [] xs ys = Equal"
| "compare_keyed f (k # ks) xs ys = (case (map_of xs k, map_of ys k) of
       (Some x, Some y) \<Rightarrow> (case f x y of
           Equal \<Rightarrow> compare_keyed f ks xs ys
         | Less \<Rightarrow> Less
         | Greater \<Rightarrow> Greater)
     | _ \<Rightarrow> compare_keyed f ks xs ys)"

lemma compare_keyed_cong [fundef_cong]:
  assumes "ks = ks'" "xs = xs'" "ys = ys'"
    "\<And>k x y. map_of xs' k = Some x \<Longrightarrow> map_of ys' k = Some y \<Longrightarrow> f x y = g x y"
  shows "compare_keyed f ks xs ys = compare_keyed g ks' xs' ys'"
  using assms(4) unfolding assms(1-3)
  by (induction g ks' xs' ys' rule: compare_keyed.induct) (auto split: option.split ordering.split)

function compare_value :: "local_zone \<Rightarrow> field_value \<Rightarrow> field_value \<Rightarrow> ordering" where
  "compare_value tz a b = (case (a, b) of
       (Null, Null) \<Rightarrow> Equal
     | (VBool x, VBool y) \<Rightarrow> compare x y
     | (VNumber x, VNumber y) \<Rightarrow> f64_total_cmp (normalize_zero x) (normalize_zero y)
     | (VDuration x, VDuration y) \<Rightarrow> duration_cmp x y
     | (VDate x, VDate y) \<Rightarrow> compare x y
     | (VDateTime x, VDateTime y) \<Rightarrow> compare x y
     | (VDate x, VDateTime y) \<Rightarrow> compare (midnight tz x) y
     | (VDateTime x, VDate y) \<Rightarrow> compare x (midnight tz y)
     | (VString x, VString y) \<Rightarrow> compare x y
     | (VLink x, VLink y) \<Rightarrow>
         then_with (compare (link_target x) (link_target y)) (compare (link_text x) (link_text y))
     | (VList xs, VList ys) \<Rightarrow> lex_by (compare_value tz) xs ys
     | (VObject xs, VObject ys) \<Rightarrow>
         (let a_keys = sort (map fst xs); b_keys = sort (map fst ys) in
          case compare a_keys b_keys of
            Equal \<Rightarrow> compare_keyed (compare_value tz) a_keys xs ys
          | Less \<Rightarrow> Less
          | Greater \<Rightarrow> Greater)
     | _ \<Rightarrow> compare (value_rank a) (value_rank b))"
  by pat_completeness auto

termination
proof (relation "measure (\<lambda>(_, a, _). size a)", goal_cases)
  case (2 tz a b x1 x2 xs ys x y)
  then show ?case by (auto simp: less_Suc_eq_le intro: size_list_estimation')
next
  case (3 tz a b x1 x2 xs ys ak bk k x y)
  then show ?case by (auto dest: map_of_field_size)
qed simp

declare compare_value.simps [simp del]

section \<open>The order is total\<close>

text \<open>The comparator of one rank, with the recursive calls replaced by \<open>g\<close>.\<close>

fun value_bool :: "field_value \<Rightarrow> bool" where
  "value_bool (VBool b) = b" | "value_bool _ = False"

fun value_float :: "field_value \<Rightarrow> f64" where
  "value_float (VNumber n) = normalize_zero n"
| "value_float (VDuration d) = duration_seconds d"
| "value_float _ = 0"

fun value_instant :: "local_zone \<Rightarrow> field_value \<Rightarrow> int" where
  "value_instant tz (VDate d) = midnight tz d"
| "value_instant tz (VDateTime t) = t"
| "value_instant tz _ = 0"

fun value_text :: "field_value \<Rightarrow> string" where
  "value_text (VString s) = s" | "value_text (VLink l) = link_target l" | "value_text _ = []"

fun value_link_text :: "field_value \<Rightarrow> string" where
  "value_link_text (VLink l) = link_text l" | "value_link_text _ = []"

fun value_items :: "field_value \<Rightarrow> field_value list" where
  "value_items (VList vs) = vs" | "value_items _ = []"

fun value_fields :: "field_value \<Rightarrow> (string \<times> field_value) list" where
  "value_fields (VObject fs) = fs" | "value_fields _ = []"

definition field_keys :: "(string \<times> field_value) list \<Rightarrow> string list" where
  "field_keys fs = sort (map fst fs)"

definition field_vals :: "string list \<Rightarrow> (string \<times> field_value) list \<Rightarrow> field_value list" where
  "field_vals ks fs = map (\<lambda>k. case map_of fs k of Some v \<Rightarrow> v | None \<Rightarrow> Null) ks"

definition rank_cmp ::
  "(field_value \<Rightarrow> field_value \<Rightarrow> ordering) \<Rightarrow> local_zone \<Rightarrow> nat \<Rightarrow> field_value \<Rightarrow> field_value \<Rightarrow> ordering"
where
  "rank_cmp g tz r =
     (if r = 1 then (\<lambda>a b. compare (value_bool a) (value_bool b))
      else if r = 2 \<or> r = 3 then (\<lambda>a b. compare (f64_key (value_float a)) (f64_key (value_float b)))
      else if r = 4 then (\<lambda>a b. compare (value_instant tz a) (value_instant tz b))
      else if r = 5 then (\<lambda>a b. compare (value_text a) (value_text b))
      else if r = 6 then (\<lambda>a b. then_with (compare (value_text a) (value_text b))
          (compare (value_link_text a) (value_link_text b)))
      else if r = 7 then (\<lambda>a b. lex_by g (value_items a) (value_items b))
      else if r = 8 then (\<lambda>a b. if field_keys (value_fields a) = field_keys (value_fields b)
          then lex_by g (field_vals (field_keys (value_fields a)) (value_fields a))
            (field_vals (field_keys (value_fields a)) (value_fields b))
          else compare (field_keys (value_fields a)) (field_keys (value_fields b)))
      else (\<lambda>a b. Equal))"

definition value_cmp_by ::
  "(field_value \<Rightarrow> field_value \<Rightarrow> ordering) \<Rightarrow> local_zone \<Rightarrow> field_value \<Rightarrow> field_value \<Rightarrow> ordering" where
  "value_cmp_by g tz a b = (if value_rank a = value_rank b
     then rank_cmp g tz (value_rank a) a b else compare (value_rank a) (value_rank b))"

lemma total_cmp_compare: "total_cmp (compare :: 'a::linorder \<Rightarrow> 'a \<Rightarrow> ordering)"
  by (rule linorder_cmp.total_cmp_axioms)

lemma total_cmp_const: "total_cmp (\<lambda>a b. Equal)"
  by unfold_locales simp_all

lemma total_cmp_rank_cmp:
  assumes "total_cmp g"
  shows "total_cmp (rank_cmp g tz r)"
proof -
  note key = total_cmp_key [OF total_cmp_compare]
  have lists: "total_cmp (\<lambda>a b. lex_by g (f a) (f b))" for f :: "field_value \<Rightarrow> field_value list"
    by (rule total_cmp_key [OF total_cmp_lex_by [OF assms]])
  have objects: "total_cmp (\<lambda>a b. if field_keys (value_fields a) = field_keys (value_fields b)
          then lex_by g (field_vals (field_keys (value_fields a)) (value_fields a))
            (field_vals (field_keys (value_fields a)) (value_fields b))
          else compare (field_keys (value_fields a)) (field_keys (value_fields b)))"
    using total_cmp_classes [where key = "\<lambda>a. field_keys (value_fields a)"
        and c = "\<lambda>ks a b. lex_by g (field_vals ks (value_fields a)) (field_vals ks (value_fields b))"]
      lists by simp
  show ?thesis
    unfolding rank_cmp_def
    by (auto intro: key lists objects total_cmp_const total_cmp_then_with)
qed

lemma total_cmp_value_cmp_by: "total_cmp g \<Longrightarrow> total_cmp (value_cmp_by g tz)"
  unfolding value_cmp_by_def
  by (rule total_cmp_classes [where key = value_rank and c = "rank_cmp g tz"])
    (rule total_cmp_rank_cmp)

lemma compare_keyed_vals:
  "set ks \<subseteq> fst ` set xs \<Longrightarrow> set ks \<subseteq> fst ` set ys
    \<Longrightarrow> compare_keyed g ks xs ys = lex_by g (field_vals ks xs) (field_vals ks ys)"
proof (induction ks)
  case (Cons k ks)
  then obtain x y where "map_of xs k = Some x" "map_of ys k = Some y"
    using weak_map_of_SomeI by (metis insert_subset list.simps(15) map_of_eq_None_iff not_None_eq)
  then show ?case
    using Cons by (cases "g x y") (simp_all add: field_vals_def)
qed (simp add: field_vals_def)

lemma compare_keyed_same:
  "field_keys xs = field_keys ys \<Longrightarrow> compare_keyed g (field_keys xs) xs ys
    = lex_by g (field_vals (field_keys xs) xs) (field_vals (field_keys xs) ys)"
proof (rule compare_keyed_vals)
  assume same: "field_keys xs = field_keys ys"
  show "set (field_keys xs) \<subseteq> fst ` set xs" by (simp add: field_keys_def)
  show "set (field_keys xs) \<subseteq> fst ` set ys" unfolding same by (simp add: field_keys_def)
qed

lemma compare_object:
  "(case compare (sort (map fst xs)) (sort (map fst ys)) of
      Equal \<Rightarrow> compare_keyed g (sort (map fst xs)) xs ys
    | Less \<Rightarrow> Less | Greater \<Rightarrow> Greater) = rank_cmp g tz 8 (VObject xs) (VObject ys)"
  using compare_keyed_same [of xs ys g]
  by (auto simp: rank_cmp_def field_keys_def compare_def)

text \<open>The dates a value holds.\<close>

fun dates_in :: "int set \<Rightarrow> field_value \<Rightarrow> bool" where
  "dates_in D (VDate d) \<longleftrightarrow> d \<in> D"
| "dates_in D (VList vs) \<longleftrightarrow> list_all (dates_in D) vs"
| "dates_in D (VObject fs) \<longleftrightarrow> list_all (\<lambda>(k, v). dates_in D v) fs"
| "dates_in D v \<longleftrightarrow> True"

lemma dates_in_parts:
  "dates_in D (VList vs) \<Longrightarrow> v \<in> set vs \<Longrightarrow> dates_in D v"
  "dates_in D (VObject fs) \<Longrightarrow> v \<in> set (field_vals ks fs) \<Longrightarrow> dates_in D v"
  by (auto simp: list_all_iff field_vals_def split: option.splits dest!: map_of_SomeD)

lemma compare_mono:
  "strict_mono_on D f \<Longrightarrow> x \<in> D \<Longrightarrow> y \<in> D \<Longrightarrow> compare (f x) (f y) = compare x (y :: int)"
  by (cases x y rule: linorder_cases) (auto simp: compare_def dest: strict_mono_onD)

lemma compare_value_by:
  assumes mono: "strict_mono_on D (midnight tz)" and dates: "dates_in D a" "dates_in D b"
  shows "compare_value tz a b = value_cmp_by (compare_value tz) tz a b"
proof -
  note simps = compare_value.simps value_cmp_by_def value_rank_def
  show ?thesis
  proof (cases a)
    case (VObject xs)
    then show ?thesis
      by (cases b) (simp_all add: simps compare_object [where tz = tz] Let_def)
  next
    case (VDate d)
    then show ?thesis
      using dates by (cases b) (simp_all add: simps rank_cmp_def compare_mono [OF mono])
  qed (cases b; simp add: simps rank_cmp_def f64_total_cmp_def duration_cmp_def)+
qed

lemma field_vals_size: "v \<in> set (field_vals ks fs) \<Longrightarrow> size v < size (VObject fs)"
  by (auto simp: field_vals_def split: option.splits dest: map_of_field_size)

lemma item_size: "v \<in> set vs \<Longrightarrow> size v < size (VList vs)"
  by (simp add: less_Suc_eq_le size_list_estimation')

lemma value_cmp_by_cong:
  assumes "\<And>x y. size x < size a \<Longrightarrow> size y < size b \<Longrightarrow> dates_in D x \<Longrightarrow> dates_in D y \<Longrightarrow> g x y = h x y"
    and "dates_in D a" "dates_in D b"
  shows "value_cmp_by g tz a b = value_cmp_by h tz a b"
proof -
  have lists: "lex_by g xs ys = lex_by h xs ys" if "a = VList xs" "b = VList ys" for xs ys
    using assms item_size dates_in_parts(1) unfolding that by (intro lex_by_cong refl) blast
  have objects: "lex_by g (field_vals ks xs) (field_vals ks ys)
      = lex_by h (field_vals ks xs) (field_vals ks ys)"
    if "a = VObject xs" "b = VObject ys" for xs ys ks
    using assms field_vals_size dates_in_parts(2) unfolding that by (intro lex_by_cong refl) blast
  show ?thesis
    using lists objects
    by (cases a; cases b; simp add: value_cmp_by_def value_rank_def rank_cmp_def)
qed

lemma compare_value_level:
  assumes "strict_mono_on D (midnight tz)"
  shows "\<exists>g. total_cmp g \<and> (\<forall>a b. size a < n \<longrightarrow> size b < n \<longrightarrow> dates_in D a \<longrightarrow> dates_in D b
    \<longrightarrow> compare_value tz a b = g a b)"
proof (induction n)
  case 0
  show ?case using total_cmp_const by blast
next
  case (Suc n)
  then obtain g where g: "total_cmp g" "\<And>a b. size a < n \<Longrightarrow> size b < n \<Longrightarrow> dates_in D a \<Longrightarrow> dates_in D b
      \<Longrightarrow> compare_value tz a b = g a b" by blast
  have "compare_value tz a b = value_cmp_by g tz a b"
    if "size a < Suc n" "size b < Suc n" and dates: "dates_in D a" "dates_in D b" for a b
  proof (subst compare_value_by [OF assms dates], rule value_cmp_by_cong [OF _ dates])
    fix x y :: field_value
    assume "size x < size a" "size y < size b" "dates_in D x" "dates_in D y"
    then show "compare_value tz x y = g x y" using that(1,2) g(2) [of x y] by simp
  qed
  then show ?case using total_cmp_value_cmp_by [OF g(1)] by blast
qed

lemma compare_value_trans:
  assumes "strict_mono_on D (midnight tz)" "dates_in D x" "dates_in D y" "dates_in D z"
    "compare_value tz x y \<noteq> Greater" "compare_value tz y z \<noteq> Greater"
  shows "compare_value tz x z \<noteq> Greater"
proof -
  obtain g where g: "total_cmp g" and eq: "\<And>a b. size a < Suc (size x + size y + size z)
      \<Longrightarrow> size b < Suc (size x + size y + size z) \<Longrightarrow> dates_in D a \<Longrightarrow> dates_in D b \<Longrightarrow> compare_value tz a b = g a b"
    using compare_value_level [OF assms(1)] by blast
  show ?thesis
    using total_cmp.cmp_trans [OF g, of x y z] eq [of x y] eq [of y z] eq [of x z] assms(2-6) by simp
qed

text \<open>Two dates at one instant or in the wrong order: the date-time of the later one is between them.\<close>

lemma compare_value_cycle:
  assumes "d < e" "midnight tz e \<le> midnight tz d"
  shows "compare_value tz (VDate e) (VDateTime (midnight tz e)) = Equal"
    "compare_value tz (VDateTime (midnight tz e)) (VDate d) \<noteq> Greater"
    "compare_value tz (VDate e) (VDate d) = Greater"
  using assms by (simp_all add: compare_value.simps compare_def)

lemma lex_by_reverse:
  "(\<And>x y. x \<in> set xs \<Longrightarrow> y \<in> set ys \<Longrightarrow> f y x = reverse_ord (f x y))
    \<Longrightarrow> lex_by f ys xs = reverse_ord (lex_by f xs ys)"
proof (induction f xs ys rule: lex_by.induct)
  case (4 f x xs y ys)
  then show ?case by (cases "f x y") simp_all
qed simp_all

text \<open>In every zone, swapping the arguments reverses the result.\<close>

lemma compare_value_reverse: "compare_value tz b a = reverse_ord (compare_value tz a b)"
proof (induction "size a" arbitrary: a b rule: less_induct)
  case less
  note simps = compare_value.simps [of tz]
  have items: "lex_by (compare_value tz) ys xs = reverse_ord (lex_by (compare_value tz) xs ys)"
    if "\<forall>x\<in>set xs. size x < size a" for xs ys
    using less that by (intro lex_by_reverse) blast
  show ?case
  proof (cases a)
    case (VList xs)
    have "\<forall>x\<in>set xs. size x < size a" using item_size unfolding VList by blast
    from items [OF this] show ?thesis unfolding VList by (cases b) (simp_all add: simps compare_def value_rank_def)
  next
    case (VObject xs)
    have vals: "\<forall>x\<in>set (field_vals ks xs). size x < size a" for ks using field_vals_size unfolding VObject by blast
    have "compare_value tz (VObject ys) (VObject xs) = reverse_ord (compare_value tz (VObject xs) (VObject ys))" for ys
    proof (cases "field_keys xs = field_keys ys")
      case True
      have "compare_keyed (compare_value tz) (field_keys ys) ys xs
          = reverse_ord (compare_keyed (compare_value tz) (field_keys xs) xs ys)"
        unfolding compare_keyed_same [OF True] compare_keyed_same [OF True [symmetric]] unfolding True [symmetric]
        by (rule items [OF vals])
      then show ?thesis using True by (simp add: simps field_keys_def Let_def compare_def)
    next
      case False
      then show ?thesis
        by (cases "field_keys xs" "field_keys ys" rule: linorder_cases)
          (simp_all add: simps field_keys_def Let_def compare_def)
    qed
    then show ?thesis unfolding VObject by (cases b) (simp_all add: simps compare_def value_rank_def)
  qed (cases b; simp add: simps f64_total_cmp_def duration_cmp_def cmp_simps value_rank_def)+
qed

lemma compare_value_self: "compare_value tz a a = Equal"
  using compare_value_reverse [of tz a a] by (cases "compare_value tz a a") simp_all

section \<open>Equality with a literal, and containment\<close>

text \<open>The derived \<open>PartialEq\<close>: objects are equal when they have the same fields, in any order.\<close>

function value_eq :: "field_value \<Rightarrow> field_value \<Rightarrow> bool" where
  "value_eq a b = (case (a, b) of
       (Null, Null) \<Rightarrow> True
     | (VBool x, VBool y) \<Rightarrow> x = y
     | (VNumber x, VNumber y) \<Rightarrow> f64_eq x y
     | (VString x, VString y) \<Rightarrow> x = y
     | (VDate x, VDate y) \<Rightarrow> x = y
     | (VDateTime x, VDateTime y) \<Rightarrow> x = y
     | (VDuration x, VDuration y) \<Rightarrow> duration_eq x y
     | (VLink x, VLink y) \<Rightarrow> x = y
     | (VList xs, VList ys) \<Rightarrow>
         length xs = length ys \<and> list_all (\<lambda>(x, y). value_eq x y) (zip xs ys)
     | (VObject xs, VObject ys) \<Rightarrow>
         length xs = length ys
         \<and> list_all (\<lambda>(k, x). case map_of ys k of Some y \<Rightarrow> value_eq x y | None \<Rightarrow> False) xs
     | _ \<Rightarrow> False)"
  by pat_completeness auto

termination
proof (relation "measure (\<lambda>(a, _). size a)", goal_cases)
  case (2 a b x1 x2 xs ys z x y)
  then show ?case by (auto dest!: set_zip_leftD simp: less_Suc_eq_le size_list_estimation')
next
  case (3 a b x1 x2 xs ys z k x y)
  then have "(k, x) \<in> set xs" by simp
  then have "size_prod (\<lambda>_. 0) size (k, x) \<le> size_list (size_prod (\<lambda>_. 0) size) xs"
    by (rule size_list_estimation') simp
  with 3 show ?case by auto
qed simp

declare value_eq.simps [simp del]

definition is_equal_to_date :: "local_zone \<Rightarrow> int \<Rightarrow> int \<Rightarrow> bool" where
  "is_equal_to_date tz t d \<longleftrightarrow> t = midnight tz d"

fun is_equal_to_literal :: "local_zone \<Rightarrow> field_value \<Rightarrow> field_value \<Rightarrow> bool" where
  "is_equal_to_literal tz Null literal = (literal = Null)"
| "is_equal_to_literal tz (VBool b) literal =
     (case literal of VBool c \<Rightarrow> b = c | _ \<Rightarrow> False)"
| "is_equal_to_literal tz (VNumber n) literal =
     (case literal of VNumber m \<Rightarrow> f64_eq n m | _ \<Rightarrow> False)"
| "is_equal_to_literal tz (VString s) literal = (value_as_str literal = Some s)"
| "is_equal_to_literal tz (VLink l) literal =
     (case literal of VLink m \<Rightarrow> l = m | _ \<Rightarrow> False)"
| "is_equal_to_literal tz (VDate d) literal = (case literal of
       VDate e \<Rightarrow> d = e | VDateTime t \<Rightarrow> is_equal_to_date tz t d | _ \<Rightarrow> False)"
| "is_equal_to_literal tz (VDateTime t) literal = (case literal of
       VDateTime u \<Rightarrow> t = u | VDate d \<Rightarrow> is_equal_to_date tz t d | _ \<Rightarrow> False)"
| "is_equal_to_literal tz (VDuration d) literal =
     (case literal of VDuration e \<Rightarrow> duration_eq d e | _ \<Rightarrow> False)"
| "is_equal_to_literal tz (VObject fs) literal =
     (case literal of VObject gs \<Rightarrow> value_eq (VObject fs) (VObject gs) | _ \<Rightarrow> False)"
| "is_equal_to_literal tz (VList vs) literal =
     (case literal of VList ws \<Rightarrow> value_eq (VList vs) (VList ws) | _ \<Rightarrow> False)"

definition is_tag_or_value_matching ::
  "unicode \<Rightarrow> field_value \<Rightarrow> field_value \<Rightarrow> string option \<Rightarrow> bool" where
  "is_tag_or_value_matching u item target target_str \<longleftrightarrow> value_eq item target
     \<or> (case (value_as_str item, target_str) of
          (Some i, Some t) \<Rightarrow> is_hierarchical_match u i t | _ \<Rightarrow> False)"

definition is_containing :: "unicode \<Rightarrow> field_value \<Rightarrow> field_value \<Rightarrow> bool" where
  "is_containing u v target = (case v of
       VList items \<Rightarrow> list_ex (\<lambda>item. is_tag_or_value_matching u item target (value_as_str target)) items
     | _ \<Rightarrow> (case (value_as_str v, value_as_str target) of
         (Some haystack, Some needle) \<Rightarrow> sublist needle haystack
       | _ \<Rightarrow> False))"

section \<open>Properties\<close>

text \<open>C20. The comparison of metadata values, nested lists and objects included: in every time zone a
  value is equal to itself and swapping two values reverses the result.  It is transitive, and so a total
  preorder, on the values whose dates are in a set exactly when the local midnights of those dates are
  ascending.  They are in a zone with a fixed offset; a zone that skips a day gives two dates one
  instant, and there the order is not transitive.\<close>

theorem compare_value_total_order:
  "compare_value tz a a = Equal
    \<and> compare_value tz b a = reverse_ord (compare_value tz a b)
    \<and> ((\<forall>x y z. dates_in D x \<and> dates_in D y \<and> dates_in D z
          \<and> compare_value tz x y \<noteq> Greater \<and> compare_value tz y z \<noteq> Greater \<longrightarrow> compare_value tz x z \<noteq> Greater)
      \<longleftrightarrow> (\<forall>d\<in>D. \<forall>e\<in>D. d < e \<longrightarrow> midnight tz d < midnight tz e))"
    (is "_ \<and> _ \<and> (?trans \<longleftrightarrow> ?ascending)")
proof -
  have ?trans if ?ascending
  proof -
    have "strict_mono_on D (midnight tz)" using that by (simp add: strict_mono_on_def)
    from compare_value_trans [OF this] show ?thesis by blast
  qed
  moreover have ?ascending if trans: ?trans
  proof (intro ballI impI)
    fix d e
    assume D: "d \<in> D" "e \<in> D" "d < e"
    show "midnight tz d < midnight tz e"
    proof (rule ccontr)
      assume "\<not> midnight tz d < midnight tz e"
      then have "midnight tz e \<le> midnight tz d" by simp
      note cycle = compare_value_cycle [OF D(3) this]
      have "dates_in D (VDate e)" "dates_in D (VDateTime (midnight tz e))" "dates_in D (VDate d)" using D by simp_all
      then have "compare_value tz (VDate e) (VDate d) \<noteq> Greater"
        using trans [rule_format, of "VDate e" "VDateTime (midnight tz e)" "VDate d"] cycle(1,2) by simp
      with cycle(3) show False by simp
    qed
  qed
  ultimately show ?thesis by (intro conjI iffI compare_value_self compare_value_reverse)
qed

theorem compare_value_total_order_witness:
  "compare_value (fixed_zone 3600) (VList [VDate 3]) (VList [VDateTime 259201, Null])
      = reverse_ord (compare_value (fixed_zone 3600) (VList [VDateTime 259201, Null]) (VList [VDate 3]))
    \<and> compare_value (fixed_zone 3600) (VDate 3) (VList [VDate 4]) \<noteq> Greater
    \<and> (\<exists>x y z. compare_value (skipping_zone 15338) x y \<noteq> Greater \<and> compare_value (skipping_zone 15338) y z \<noteq> Greater
        \<and> compare_value (skipping_zone 15338) x z = Greater)"
proof -
  let ?c = "compare_value (fixed_zone 3600)" and ?s = "compare_value (skipping_zone 15338)"
  note fixed = compare_value_total_order [of "fixed_zone 3600" "VList [VDateTime 259201, Null]" "VList [VDate 3]" UNIV]
  note skipped = compare_value_total_order [of "skipping_zone 15338" Null Null "{15338, 15339}"]
  have fixed_asc: "\<forall>d\<in>UNIV. \<forall>e\<in>UNIV. d < e \<longrightarrow> midnight (fixed_zone 3600) d < midnight (fixed_zone 3600) e"
    using fixed_zone_ascending [of 3600 UNIV] by (simp add: strict_mono_on_def)
  note trans = fixed [THEN conjunct2, THEN conjunct2, THEN iffD2, OF fixed_asc, rule_format]
  have "?c (VDate 3) (VList [VDate 4]) \<noteq> Greater"
    by (rule trans [where y = "VDate 4"]) (simp_all add: compare_value.simps compare_def value_rank_def)
  moreover have gap: "\<not> (\<forall>d\<in>{15338, 15339}. \<forall>e\<in>{15338, 15339}. d < e
      \<longrightarrow> midnight (skipping_zone 15338) d < midnight (skipping_zone 15338) e)"
    using skipped_midnight by simp
  have "\<exists>x y z. ?s x y \<noteq> Greater \<and> ?s y z \<noteq> Greater \<and> ?s x z = Greater"
    using contrapos_nn [OF gap iffD1 [OF skipped [THEN conjunct2, THEN conjunct2]]] by blast
  ultimately show ?thesis using fixed [THEN conjunct2, THEN conjunct1] by (intro conjI)
qed

end
