(* ===== verification/Paths.thy ===== *)
theory Paths
  imports Rust_Text
begin

text \<open>
  \<open>src/path.rs\<close> and the part of \<open>std::path\<close> it uses, on Unix.  A \<open>Path\<close> is compared,
  ordered and hashed by its components, so a path of the model is its component list;
  \<open>components\<close> parses the spelling.  The crate's own operations follow: the lexical
  check of \<open>RelativePath\<close>, the confined join of \<open>SafeRelativePath\<close> (the file system and
  the \<open>strict-path\<close> crate are parameters), the routing of \<open>PathError\<close>, and the tree
  distance of \<open>FolderRef\<close>.
\<close>

section \<open>Paths of the standard library\<close>

datatype component = RootDir | CurDir | ParentDir | Normal string

type_synonym path = "component list"

fun component_rank :: "component \<Rightarrow> nat" where
  "component_rank RootDir = 0"
| "component_rank CurDir = 1"
| "component_rank ParentDir = 2"
| "component_rank (Normal s) = 3"

fun component_name :: "component \<Rightarrow> string" where
  "component_name (Normal s) = s"
| "component_name c = []"

lemma component_eqI:
  "component_rank a = component_rank b \<Longrightarrow> component_name a = component_name b \<Longrightarrow> a = b"
  by (cases a; cases b) simp_all

instantiation component :: linorder
begin

definition less_eq_component :: "component \<Rightarrow> component \<Rightarrow> bool" where
  "less_eq_component a b \<longleftrightarrow> component_rank a < component_rank b
     \<or> component_rank a = component_rank b \<and> component_name a \<le> component_name b"

definition less_component :: "component \<Rightarrow> component \<Rightarrow> bool" where
  "less_component a b \<longleftrightarrow> component_rank a < component_rank b
     \<or> component_rank a = component_rank b \<and> component_name a < component_name b"

instance
  by standard
    (auto simp: less_eq_component_def less_component_def intro: component_eqI)

end

definition component_of :: "string \<Rightarrow> component option" where
  "component_of seg = (if seg = '''' \<or> seg = ''.'' then None
     else if seg = ''..'' then Some ParentDir else Some (Normal seg))"

definition components :: "string \<Rightarrow> path" where
  "components s = (let segs = split_on CHR ''/'' s in
     (if prefix ''/'' s then [RootDir] else if hd segs = ''.'' then [CurDir] else [])
     @ List.map_filter component_of segs)"

definition is_absolute :: "path \<Rightarrow> bool" where
  "is_absolute p \<longleftrightarrow> p \<noteq> [] \<and> hd p = RootDir"

definition path_parent :: "path \<Rightarrow> path option" where
  "path_parent p = (if p = [] \<or> last p = RootDir then None else Some (butlast p))"

definition file_name :: "path \<Rightarrow> string option" where
  "file_name p = (if p = [] then None
     else case last p of Normal s \<Rightarrow> Some s | _ \<Rightarrow> None)"

text \<open>\<open>Path::join\<close>: an absolute argument replaces the base, and a leading \<open>.\<close> survives
  only on an empty base.\<close>

definition path_join :: "path \<Rightarrow> path \<Rightarrow> path" where
  "path_join base p = (if is_absolute p \<or> base = [] then p
     else base @ filter (\<lambda>c. c \<noteq> CurDir) p)"

definition path_strip_prefix :: "path \<Rightarrow> path \<Rightarrow> path option" where
  "path_strip_prefix p base = (if prefix base p then Some (drop (length base) p) else None)"

text \<open>\<open>rsplit_file_at_dot\<close> of the standard library behind \<open>file_stem\<close> and \<open>extension\<close>: a name
  whose only dot is its first byte has no extension.\<close>

definition split_file_name :: "string \<Rightarrow> string \<times> string option" where
  "split_file_name s = (case rsplit_once CHR ''.'' s of
       Some (before, after) \<Rightarrow> if before = '''' then (s, None) else (before, Some after)
     | None \<Rightarrow> (s, None))"

definition file_stem :: "path \<Rightarrow> string option" where
  "file_stem p = map_option (fst \<circ> split_file_name) (file_name p)"

definition extension :: "path \<Rightarrow> string option" where
  "extension p = Option.bind (file_name p) (snd \<circ> split_file_name)"

section \<open>Path errors\<close>

text \<open>\<open>StrictPathError\<close> of the \<open>strict-path\<close> crate, of which the code reads one variant.\<close>

datatype 'x strict_error = PathEscapesBoundary | Unresolved 'x

datatype 'x path_error =
  Absolute
| OutsideRoot
| UnsafeComponent
| StrictPath "'x strict_error"

fun fold_confinement :: "'x path_error \<Rightarrow> 'r \<Rightarrow> ('x strict_error \<Rightarrow> 'r) \<Rightarrow> 'r" where
  "fold_confinement Absolute escape unverifiable = escape"
| "fold_confinement UnsafeComponent escape unverifiable = escape"
| "fold_confinement OutsideRoot escape unverifiable = escape"
| "fold_confinement (StrictPath source) escape unverifiable = unverifiable source"

section \<open>Relative paths\<close>

text \<open>The closure inside \<open>try_from\<close>: \<open>all\<close> stops at the first unsafe component, and the flag
  remembers a named component seen before that.\<close>

fun scan_components :: "path \<Rightarrow> bool \<Rightarrow> bool \<times> bool" where
  "scan_components [] has_normal = (True, has_normal)"
| "scan_components (Normal s # cs) has_normal = scan_components cs True"
| "scan_components (CurDir # cs) has_normal = scan_components cs has_normal"
| "scan_components (RootDir # cs) has_normal = (False, has_normal)"
| "scan_components (ParentDir # cs) has_normal = (False, has_normal)"

definition relative_path_parse :: "path \<Rightarrow> ('x path_error, path) result" where
  "relative_path_parse candidate =
     (if is_absolute candidate then Err Absolute
      else let (is_safe, has_normal) = scan_components candidate False in
        if \<not> is_safe \<or> \<not> has_normal then Err UnsafeComponent else Ok candidate)"

definition relative_path_derive :: "path \<Rightarrow> path \<Rightarrow> ('x path_error, path) result" where
  "relative_path_derive root p =
     and_then (ok_or OutsideRoot (path_strip_prefix p root)) relative_path_parse"

definition safe_component :: "component \<Rightarrow> bool" where
  "safe_component c \<longleftrightarrow> (case c of Normal _ \<Rightarrow> True | CurDir \<Rightarrow> True | _ \<Rightarrow> False)"

lemma safe_component_simps [simp]:
  "safe_component (Normal s)" "safe_component CurDir"
  "\<not> safe_component RootDir" "\<not> safe_component ParentDir"
  by (simp_all add: safe_component_def)

lemma scan_components:
  "scan_components cs h = (s, n) \<Longrightarrow>
    (s \<longleftrightarrow> (\<forall>c\<in>set cs. safe_component c)) \<and> (s \<longrightarrow> (n \<longleftrightarrow> h \<or> (\<exists>name. Normal name \<in> set cs)))"
  by (induction cs h rule: scan_components.induct) auto

lemma relative_path_parse_Ok:
  "relative_path_parse p = Ok q \<longleftrightarrow>
     q = p \<and> (\<forall>c\<in>set p. safe_component c) \<and> (\<exists>name. Normal name \<in> set p)"
proof (cases "scan_components p False")
  case (Pair s n)
  then show ?thesis
    using scan_components [OF Pair]
    by (cases p) (auto simp: relative_path_parse_def is_absolute_def)
qed

text \<open>\<open>SafeRelativePath::parse\<close>.  \<open>try_new\<close> opens a boundary and \<open>strict_join\<close> resolves a
  candidate inside it: both are the \<open>strict-path\<close> crate.\<close>

definition safe_relative_path_parse ::
  "(path \<Rightarrow> ('x strict_error, 'b) result) \<Rightarrow> ('b \<Rightarrow> path \<Rightarrow> ('x strict_error, path) result)
    \<Rightarrow> path \<Rightarrow> path \<Rightarrow> ('x path_error, path) result" where
  "safe_relative_path_parse try_new strict_join root candidate =
     and_then (relative_path_parse candidate) (\<lambda>safe.
     and_then (map_err StrictPath (try_new root)) (\<lambda>boundary.
     and_then (map_err (\<lambda>e. case e of
          PathEscapesBoundary \<Rightarrow> OutsideRoot
        | Unresolved x \<Rightarrow> StrictPath (Unresolved x)) (strict_join boundary safe)) (\<lambda>_.
     Ok (path_join root safe))))"

section \<open>Folders\<close>

definition folder_of :: "path \<Rightarrow> path" where
  "folder_of p = (case path_parent p of Some q \<Rightarrow> q | None \<Rightarrow> [])"

fun distance_loop :: "path \<Rightarrow> path \<Rightarrow> nat \<Rightarrow> nat \<Rightarrow> nat \<Rightarrow> bool \<Rightarrow> nat \<times> nat \<times> nat" where
  "distance_loop (x # xs) (y # ys) shared a_count b_count matching =
     (if matching \<and> x = y
      then distance_loop xs ys (sat_add shared 1) (sat_add a_count 1) (sat_add b_count 1) matching
      else distance_loop xs ys shared (sat_add a_count 1) (sat_add b_count 1) False)"
| "distance_loop (x # xs) [] shared a_count b_count matching =
     (shared, sat_add (sat_add a_count 1) (length xs), b_count)"
| "distance_loop [] (y # ys) shared a_count b_count matching =
     (shared, a_count, sat_add (sat_add b_count 1) (length ys))"
| "distance_loop [] [] shared a_count b_count matching = (shared, a_count, b_count)"

definition distance_to :: "path \<Rightarrow> path \<Rightarrow> nat" where
  "distance_to a b = (case distance_loop a b 0 0 0 True of
     (shared, a_count, b_count) \<Rightarrow> sat_add (a_count - shared) (b_count - shared))"

text \<open>The specification: walks in the folder tree, one hop per step up or down.\<close>

definition hop :: "path \<Rightarrow> path \<Rightarrow> bool" where
  "hop p q \<longleftrightarrow> (\<exists>c. q = p @ [c] \<or> p = q @ [c])"

inductive walk :: "nat \<Rightarrow> path \<Rightarrow> path \<Rightarrow> bool" where
  walk_here: "walk 0 p p"
| walk_hop: "hop p q \<Longrightarrow> walk n q r \<Longrightarrow> walk (Suc n) p r"

fun shared_len :: "'a list \<Rightarrow> 'a list \<Rightarrow> nat" where
  "shared_len (x # xs) (y # ys) = (if x = y then Suc (shared_len xs ys) else 0)"
| "shared_len _ _ = 0"

lemma shared_len_le: "shared_len xs ys \<le> length xs" "shared_len xs ys \<le> length ys"
  by (induction xs ys rule: shared_len.induct) simp_all

lemma shared_len_commute: "shared_len xs ys = shared_len ys xs"
  by (induction xs ys rule: shared_len.induct) (auto split: list.splits elim: shared_len.elims)

lemma shared_len_self [simp]: "shared_len xs xs = length xs"
  by (induction xs) simp_all

lemma shared_len_take: "take (shared_len xs ys) xs = take (shared_len xs ys) ys"
  by (induction xs ys rule: shared_len.induct) simp_all

lemma shared_len_snoc:
  "shared_len xs ys \<le> shared_len (xs @ [c]) ys \<and> shared_len (xs @ [c]) ys \<le> Suc (shared_len xs ys)"
proof (induction xs arbitrary: ys)
  case Nil
  then show ?case by (cases ys) simp_all
next
  case (Cons x xs)
  then show ?case by (cases ys) simp_all
qed

definition tree_distance :: "'a list \<Rightarrow> 'a list \<Rightarrow> nat" where
  "tree_distance a b = (length a - shared_len a b) + (length b - shared_len a b)"

lemma distance_loop_value:
  assumes "s + length a \<le> usize_max" "ac + length a \<le> usize_max" "bc + length b \<le> usize_max"
  shows "distance_loop a b s ac bc m =
    (if m then s + shared_len a b else s, ac + length a, bc + length b)"
  using assms
  by (induction a b s ac bc m rule: distance_loop.induct) (simp_all add: sat_add_exact)

lemma distance_to_tree_distance:
  assumes "length a + length b \<le> usize_max"
  shows "distance_to a b = tree_distance a b"
  using assms by (simp add: distance_to_def tree_distance_def distance_loop_value sat_add_exact)

lemma tree_distance_snoc:
  "tree_distance p r \<le> Suc (tree_distance (p @ [c]) r)"
  "tree_distance (p @ [c]) r \<le> Suc (tree_distance p r)"
  using shared_len_snoc [of p r c] shared_len_le [of p r] shared_len_le [of "p @ [c]" r]
  unfolding tree_distance_def by simp_all linarith+

lemma tree_distance_hop: "hop p q \<Longrightarrow> tree_distance p r \<le> Suc (tree_distance q r)"
  unfolding hop_def by (auto intro: tree_distance_snoc)

lemma walk_distance: "walk n p q \<Longrightarrow> tree_distance p q \<le> n"
proof (induction rule: walk.induct)
  case (walk_here p)
  then show ?case by (simp add: tree_distance_def)
next
  case (walk_hop p q n r)
  then show ?case using tree_distance_hop [of p q r] by linarith
qed

lemma walk_trans: "walk m p q \<Longrightarrow> walk n q r \<Longrightarrow> walk (m + n) p r"
  by (induction rule: walk.induct) (auto intro: walk.intros)

lemma walk_down: "walk (length xs) p (p @ xs)"
proof (induction xs arbitrary: p)
  case (Cons x xs)
  have "hop p (p @ [x])" by (simp add: hop_def)
  then show ?case using walk_hop [OF _ Cons [of "p @ [x]"]] by simp
qed (simp add: walk_here)

lemma walk_up: "walk (length xs) (p @ xs) p"
proof (induction xs rule: rev_induct)
  case (snoc x xs)
  have "hop (p @ xs @ [x]) (p @ xs)" by (simp add: hop_def)
  then show ?case using walk_hop [OF _ snoc] by simp
qed (simp add: walk_here)

lemma walk_tree_distance: "walk (tree_distance a b) a b"
proof -
  define n where "n = shared_len a b"
  have up: "walk (length a - n) a (take n a)"
    using walk_up [of "drop n a" "take n a"] by simp
  have down: "walk (length b - n) (take n a) b"
    using walk_down [of "drop n b" "take n b"]
    unfolding n_def shared_len_take [of a b] by simp
  show ?thesis
    unfolding tree_distance_def n_def [symmetric] by (rule walk_trans [OF up down])
qed

section \<open>Properties\<close>

lemma path_join_safe:
  assumes "\<not> is_absolute q"
  shows "prefix root (path_join root q)"
    and "set (drop (length root) (path_join root q)) \<subseteq> set q"
    and "Normal name \<in> set q \<Longrightarrow> Normal name \<in> set (drop (length root) (path_join root q))"
  using assms by (auto simp: path_join_def)

lemma safe_not_absolute: "\<forall>c\<in>set q. safe_component c \<Longrightarrow> \<not> is_absolute q"
  by (cases q) (auto simp: is_absolute_def)

text \<open>C32. A confined path is accepted only after the lexical check and the file-system
  check have both passed; it extends the root by a remainder with a named component and
  without any root or parent component, so it never climbs out lexically.\<close>

theorem safe_relative_path_confined:
  assumes "safe_relative_path_parse try_new strict_join root candidate = Ok p"
  shows "prefix root p \<and> (\<forall>c\<in>set (drop (length root) p). c \<noteq> RootDir \<and> c \<noteq> ParentDir)
    \<and> (\<exists>name. Normal name \<in> set (drop (length root) p))
    \<and> (\<exists>b r. try_new root = Ok b \<and> strict_join b candidate = Ok r)"
proof -
  from assms obtain b r where ok: "try_new root = Ok b" "strict_join b candidate = Ok r"
    and p: "p = path_join root candidate"
    and parse: "relative_path_parse candidate = (Ok candidate :: ('a path_error, path) result)"
    by (auto simp: safe_relative_path_parse_def and_then_eq_Ok relative_path_parse_Ok)
  from parse have safe: "\<forall>c\<in>set candidate. safe_component c"
    and "\<exists>name. Normal name \<in> set candidate"
    by (auto simp: relative_path_parse_Ok)
  then show ?thesis
    using path_join_safe [OF safe_not_absolute [OF safe], where root = root] ok safe
    unfolding p by (metis safe_component_simps(3,4) subsetD)
qed

theorem safe_relative_path_confined_witness:
  "prefix [RootDir, Normal ''vault''] [RootDir, Normal ''vault'', Normal ''a'', Normal ''b.md'']"
  using safe_relative_path_confined [of "\<lambda>r. Ok r" "\<lambda>b p. Ok (b @ p)" "[RootDir, Normal ''vault'']"
      "[CurDir, Normal ''a'', Normal ''b.md'']"
      "[RootDir, Normal ''vault'', Normal ''a'', Normal ''b.md'']"]
  by (simp add: safe_relative_path_parse_def relative_path_parse_def is_absolute_def path_join_def)

lemma relative_path_parse_Err:
  "relative_path_parse p = Err e \<Longrightarrow> e = Absolute \<or> e = UnsafeComponent"
  by (auto simp: relative_path_parse_def split: if_splits prod.splits)

text \<open>C33. The distance between two folders is the length of a shortest walk between them in
  the folder tree.\<close>

theorem distance_to_shortest_walk:
  assumes "length a + length b \<le> usize_max"
  shows "walk (distance_to a b) a b \<and> (\<forall>n. walk n a b \<longrightarrow> distance_to a b \<le> n)"
  using walk_tree_distance walk_distance by (auto simp: distance_to_tree_distance [OF assms])

theorem distance_to_shortest_walk_witness:
  "walk 3 [Normal ''a'', Normal ''b''] [Normal ''a'', Normal ''c'', Normal ''d'']"
  using distance_to_shortest_walk
    [of "[Normal ''a'', Normal ''b'']" "[Normal ''a'', Normal ''c'', Normal ''d'']"]
  by (simp add: usize_max_def distance_to_def sat_add_def numeral_3_eq_3)

end
