(* ===== verification/Notes.thy ===== *)
theory Notes
  imports Tasks Field_Values Paths
begin

text \<open>
  The parsed note: \<open>src/note/lists.rs\<close>, \<open>src/note/heading.rs\<close>, \<open>src/note/metadata.rs\<close> and
  \<open>src/note/model.rs\<close>, and the file metadata of \<open>src/file.rs\<close>.  An \<open>IndexMap\<close> is its
  association list in insertion order; its keys have distinct canonical forms.
\<close>

section \<open>List items\<close>

record list_text =
  raw_text :: string
  clean_text :: "string option"

definition list_text_new :: "string \<Rightarrow> string \<Rightarrow> list_text" where
  "list_text_new raw clean =
     \<lparr> raw_text = raw, clean_text = (if clean = raw then None else Some clean) \<rparr>"

definition list_text_clean :: "list_text \<Rightarrow> string" where
  "list_text_clean t = (case clean_text t of Some c \<Rightarrow> c | None \<Rightarrow> raw_text t)"

record task_list_item =
  task_dates :: date_set
  task_priority_of :: "task_priority option"
  task_status_of :: task_status
  task_fully_complete :: bool

datatype list_item_type = Plain | Checkbox | Task task_list_item

type_synonym 'v index_map = "(field_key \<times> 'v) list"

record list_item =
  item_text :: list_text
  item_kind :: list_item_type
  item_depth :: "8 word"
  item_line :: "32 word"
  item_parent :: "32 word option"
  item_ordered :: bool
  item_fields :: "field_value list index_map option"
  item_tags :: "string list"

definition list_item_new :: "32 word \<Rightarrow> list_text \<Rightarrow> list_item_type \<Rightarrow> list_item" where
  "list_item_new line t kind = \<lparr> item_text = t, item_kind = kind, item_depth = 0, item_line = line,
     item_parent = None, item_ordered = False, item_fields = None, item_tags = [] \<rparr>"

definition with_fields :: "field_value list index_map \<Rightarrow> list_item \<Rightarrow> list_item" where
  "with_fields m item = item \<lparr> item_fields := (if m = [] then None else Some m) \<rparr>"

fun as_task :: "list_item_type \<Rightarrow> task_list_item option" where
  "as_task (Task t) = Some t"
| "as_task Plain = None"
| "as_task Checkbox = None"

definition is_task :: "list_item_type \<Rightarrow> bool" where
  "is_task k \<longleftrightarrow> (case k of Task t \<Rightarrow> True | _ \<Rightarrow> False)"

definition descendants_of :: "list_item list \<Rightarrow> 8 word \<Rightarrow> list_item list" where
  "descendants_of items parent_depth = takeWhile (\<lambda>child. item_depth child > parent_depth) items"

section \<open>Frontmatter\<close>

text \<open>\<open>IndexMap::get\<close> with a \<open>FieldKeyRef\<close>: the entry whose key is equivalent to the
  candidate.  Hashing finds it because equivalent keys hash alike (theory \<open>Field_Keys\<close>).\<close>

definition index_get :: "unicode \<Rightarrow> 'v index_map \<Rightarrow> string \<Rightarrow> 'v option" where
  "index_get u m candidate = map_option snd (List.find (\<lambda>(k, v). is_match u k candidate) m)"

definition contains_key :: "'v index_map \<Rightarrow> field_key \<Rightarrow> bool" where
  "contains_key m k \<longleftrightarrow> list_ex (\<lambda>(k', v). field_key_eq k' k) m"

type_synonym frontmatter = "field_value index_map"

definition get_values :: "unicode \<Rightarrow> frontmatter \<Rightarrow> string \<Rightarrow> field_value list" where
  "get_values u fm key = (case index_get u fm key of
       Some (VList items) \<Rightarrow> items
     | Some Null \<Rightarrow> []
     | Some other \<Rightarrow> [other]
     | None \<Rightarrow> [])"

definition frontmatter_tags :: "unicode \<Rightarrow> frontmatter \<Rightarrow> string \<Rightarrow> string list" where
  "frontmatter_tags u fm key =
     (let texts = List.map_filter value_as_str (get_values u fm key);
          candidates = concat (map (split_on CHR '','') texts)
      in List.map_filter (\<lambda>candidate. case tag_parse_lenient u candidate of
             Inr tag \<Rightarrow> Some tag | Inl _ \<Rightarrow> None) candidates)"

section \<open>Notes\<close>

record heading =
  heading_level :: "8 word"
  heading_text :: string
  heading_line :: "32 word"

record md_note =
  note_path :: path
  note_frontmatter :: "frontmatter option"
  note_lists :: "list_item list"
  note_headings :: "heading list"
  note_outlinks :: "link list"
  note_inline :: "field_value list index_map"
  note_tags :: "string list"

definition note_fields :: "md_note \<Rightarrow> (field_key \<times> field_value) list" where
  "note_fields n =
     (case note_frontmatter n of Some fm \<Rightarrow> fm | None \<Rightarrow> [])
     @ concat (map (\<lambda>(k, values). map (Pair k) values)
         (filter (\<lambda>(k, values). \<not> (case note_frontmatter n of
             Some fm \<Rightarrow> contains_key fm k | None \<Rightarrow> False)) (note_inline n)))"

definition note_get :: "unicode \<Rightarrow> md_note \<Rightarrow> string \<Rightarrow> field_value option" where
  "note_get u n key = (case Option.bind (note_frontmatter n) (\<lambda>fm. index_get u fm key) of
       Some value \<Rightarrow> Some value
     | None \<Rightarrow> Option.bind (index_get u (note_inline n) key) (\<lambda>values. slice_get values 0))"

definition note_tasks :: "md_note \<Rightarrow> list_item list" where
  "note_tasks n = filter (\<lambda>item. is_task (item_kind item)) (note_lists n)"

definition note_descendants :: "md_note \<Rightarrow> nat \<Rightarrow> list_item list" where
  "note_descendants n parent_idx =
     (let parent_depth = (case slice_get (note_lists n) parent_idx of
            Some item \<Rightarrow> item_depth item | None \<Rightarrow> 255);
          rest = drop (sat_add parent_idx 1) (note_lists n)
      in descendants_of rest parent_depth)"

section \<open>File metadata\<close>

datatype file_format = NoteFormat | OtherFormat

record file_meta =
  file_path :: path
  file_format_of :: file_format
  file_created :: "int option"
  file_modified :: int
  file_size :: "64 word"
  file_day :: "int option"

definition format_from_path :: "path \<Rightarrow> file_format" where
  "format_from_path p = (case extension p of
       Some ext \<Rightarrow> if eq_ignore_ascii_case ext ''md'' \<or> eq_ignore_ascii_case ext ''markdown''
         then NoteFormat else OtherFormat
     | None \<Rightarrow> OtherFormat)"

definition file_base_name :: "file_meta \<Rightarrow> string" where
  "file_base_name f = (case file_stem (file_path f) of Some stem \<Rightarrow> stem | None \<Rightarrow> [])"

definition file_folder :: "file_meta \<Rightarrow> path" where
  "file_folder f = folder_of (file_path f)"

section \<open>Looking up a field\<close>

text \<open>The keys a parsed map holds: canonical forms are fixed by canonicalization and distinct.\<close>

definition index_map_ok :: "unicode \<Rightarrow> 'v index_map \<Rightarrow> bool" where
  "index_map_ok u m \<longleftrightarrow> distinct (map (key_canonical \<circ> fst) m)
     \<and> list_all (\<lambda>(k, v). canonicalize u (key_canonical k) = key_canonical k
         \<and> canonicalize u (key_name k) = key_canonical k) m"

lemma is_match_canonical:
  assumes "canonicalize u (key_canonical k) = key_canonical k"
    "canonicalize u (key_name k) = key_canonical k"
  shows "is_match u k candidate \<longleftrightarrow> key_canonical k = canonicalize u candidate"
  using assms by (auto simp: is_match_def is_canonical_match_def to_canonical_canonicalize)

lemma index_map_ok_match:
  "index_map_ok u m \<Longrightarrow> (k, v) \<in> set m
    \<Longrightarrow> is_match u k candidate \<longleftrightarrow> key_canonical k = canonicalize u candidate"
  unfolding index_map_ok_def list_all_iff by (intro is_match_canonical) auto

text \<open>In a well-formed map the lookup finds the one entry of the candidate's canonical form.\<close>

lemma index_get_Some:
  assumes "index_map_ok u m"
  shows "index_get u m c = Some v
    \<longleftrightarrow> (\<exists>k. (k, v) \<in> set m \<and> key_canonical k = canonicalize u c)"
  using assms
proof (induction m)
  case (Cons e m)
  obtain k w where e: "e = (k, w)" by (cases e)
  have ok: "index_map_ok u m" using Cons.prems by (simp add: index_map_ok_def)
  have here: "is_match u k c \<longleftrightarrow> key_canonical k = canonicalize u c"
    using index_map_ok_match [OF Cons.prems, of k w] e by simp
  show ?case
  proof (cases "is_match u k c")
    case True
    then have "key_canonical k \<notin> (key_canonical \<circ> fst) ` set m"
      using Cons.prems e by (auto simp: index_map_ok_def)
    then have "\<forall>k'. (k', v) \<in> set m \<longrightarrow> key_canonical k' \<noteq> canonicalize u c"
      using True here by force
    then show ?thesis using True here e by (auto simp: index_get_def)
  next
    case False
    then have "index_get u (e # m) c = index_get u m c" by (simp add: e index_get_def)
    then show ?thesis using Cons.IH [OF ok] False here e by auto
  qed
qed (simp add: index_get_def)

lemma index_get_None:
  assumes "index_map_ok u m"
  shows "index_get u m c = None \<longleftrightarrow> (\<forall>(k, v)\<in>set m. key_canonical k \<noteq> canonicalize u c)"
  using index_get_Some [OF assms, of c] by (cases "index_get u m c") (auto, fastforce)

definition note_ok :: "unicode \<Rightarrow> md_note \<Rightarrow> bool" where
  "note_ok u n \<longleftrightarrow> index_map_ok u (note_inline n)
     \<and> (case note_frontmatter n of Some fm \<Rightarrow> index_map_ok u fm | None \<Rightarrow> True)
     \<and> list_all (\<lambda>(k, values). values \<noteq> []) (note_inline n)"

lemma find_append:
  "List.find P (xs @ ys) = (case List.find P xs of Some x \<Rightarrow> Some x | None \<Rightarrow> List.find P ys)"
  by (induction xs) auto

lemma find_filter_cong:
  "(\<And>x. x \<in> set xs \<Longrightarrow> P x \<longleftrightarrow> Q x) \<Longrightarrow> (\<And>x. x \<in> set xs \<Longrightarrow> P x \<Longrightarrow> R x)
    \<Longrightarrow> List.find P (filter R xs) = List.find Q xs"
  by (induction xs) auto

lemma find_concat_first:
  "List.find P (concat (map (\<lambda>(k, vs). map (Pair k) vs) m))
    = Option.bind (List.find (\<lambda>(k, vs). vs \<noteq> [] \<and> P (k, hd vs)) m) (\<lambda>(k, vs). Some (k, hd vs))"
  if "\<And>k v w. P (k, v) = P (k, w)"
proof (induction m)
  case (Cons e m)
  obtain k vs where e: "e = (k, vs)" by (cases e)
  have "List.find P (map (Pair k) vs @ rest) = List.find P rest" if none: "\<not> P (k, hd vs)" for rest
  proof -
    have "\<not> P (k, v)" for v using none that \<open>\<And>k v w. P (k, v) = P (k, w)\<close> by blast
    then show ?thesis by (induction vs) auto
  qed
  then show ?case using Cons.IH e by (cases vs) auto
qed simp

text \<open>Reading a field of a note by name agrees with enumerating its fields: the value found is
  that of the first enumerated field whose key matches the name, so frontmatter shadows an
  inline field of the same canonical name and the first inline occurrence wins.\<close>

theorem note_get_first_field:
  assumes "note_ok u n"
  shows "note_get u n key = map_option snd (List.find (\<lambda>(k, v). is_match u k key) (note_fields n))"
proof -
  let ?P = "\<lambda>(k, v). is_match u k key"
  let ?inline = "filter (\<lambda>(k, values). \<not> (case note_frontmatter n of
      Some fm \<Rightarrow> contains_key fm k | None \<Rightarrow> False)) (note_inline n)"
  let ?fm = "case note_frontmatter n of Some fm \<Rightarrow> fm | None \<Rightarrow> []"
  have inline: "index_map_ok u (note_inline n)" and nonempty: "\<forall>(k, vs)\<in>set (note_inline n). vs \<noteq> []"
    using assms by (auto simp: note_ok_def list_all_iff)
  show ?thesis
  proof (cases "List.find ?P ?fm")
    case (Some e)
    then show ?thesis
      by (cases e) (auto simp: note_get_def note_fields_def index_get_def find_append split: option.splits)
  next
    case None
    have kept: "\<not> (case note_frontmatter n of Some fm \<Rightarrow> contains_key fm k | None \<Rightarrow> False)"
      if "(k, vs) \<in> set (note_inline n)" "is_match u k key" for k vs
    proof (cases "note_frontmatter n")
      case (Some fm)
      then have ok: "index_map_ok u fm" using assms by (simp add: note_ok_def)
      have "key_canonical k = canonicalize u key"
        using index_map_ok_match [OF inline that(1)] that(2) by blast
      moreover have "key_canonical k' \<noteq> canonicalize u key" if "(k', v) \<in> set fm" for k' v
        using index_map_ok_match [OF ok that] None Some that by (auto simp: find_None_iff)
      ultimately show ?thesis using Some by (auto simp: contains_key_def field_key_eq_def list_ex_iff)
    qed simp
    have "List.find (\<lambda>(k, vs). vs \<noteq> [] \<and> ?P (k, hd vs)) ?inline
        = List.find (\<lambda>(k, vs). is_match u k key) (note_inline n)"
      using kept nonempty by (intro find_filter_cong) fastforce+
    moreover have "List.find ?P (note_fields n) = Option.bind
        (List.find (\<lambda>(k, vs). vs \<noteq> [] \<and> ?P (k, hd vs)) ?inline) (\<lambda>(k, vs). Some (k, hd vs))"
      unfolding note_fields_def find_append None by (simp add: find_concat_first)
    moreover have "note_get u n key = Option.bind (index_get u (note_inline n) key) (\<lambda>vs. slice_get vs 0)"
      using None by (auto simp: note_get_def index_get_def split: option.splits)
    moreover have "vs \<noteq> []"
      if "List.find (\<lambda>(k, vs). is_match u k key) (note_inline n) = Some (k, vs)" for k vs
      using nonempty that by (auto simp: find_Some_iff dest!: nth_mem)
    ultimately show ?thesis
      by (cases "List.find (\<lambda>(k, vs). is_match u k key) (note_inline n)")
        (auto simp: index_get_def slice_get_def hd_conv_nth)
  qed
qed

theorem note_get_first_field_witness:
  "note_get \<lparr>wide_alphabetic = \<lambda>_. False, wide_alphanumeric = \<lambda>_. False, wide_lowercase = id\<rparr>
     \<lparr> note_path = [], note_frontmatter = Some [(\<lparr>key_name = ''Due'', key_canonical = ''due''\<rparr>, VDate 3)],
       note_lists = [], note_headings = [], note_outlinks = [],
       note_inline = [(\<lparr>key_name = ''due'', key_canonical = ''due''\<rparr>, [VDate 4]),
         (\<lparr>key_name = ''on'', key_canonical = ''on''\<rparr>, [VBool True])], note_tags = [] \<rparr> ''DUE''
   = Some (VDate 3)"
proof -
  let ?u = "\<lparr>wide_alphabetic = \<lambda>_. False, wide_alphanumeric = \<lambda>_. False, wide_lowercase = id\<rparr>"
  let ?n = "\<lparr> note_path = [], note_frontmatter = Some [(\<lparr>key_name = ''Due'', key_canonical = ''due''\<rparr>, VDate 3)],
       note_lists = [], note_headings = [], note_outlinks = [],
       note_inline = [(\<lparr>key_name = ''due'', key_canonical = ''due''\<rparr>, [VDate 4]),
         (\<lparr>key_name = ''on'', key_canonical = ''on''\<rparr>, [VBool True])], note_tags = [] \<rparr>"
  have "note_ok ?u ?n" by code_simp
  moreover have "is_match ?u \<lparr>key_name = ''Due'', key_canonical = ''due''\<rparr> ''DUE''" by code_simp
  ultimately show ?thesis
    using note_get_first_field [of ?u ?n "''DUE''"] by (simp add: note_fields_def)
qed

end
