(* ===== verification/Rust_Sort.thy ===== *)
theory Rust_Sort
  imports Rust_Prelude
begin

text \<open>
  The slice algorithms of the standard library: the stable \<open>sort_by\<close>,
  \<open>select_nth_unstable_by\<close> (only its documented contract, \<open>selects\<close>),
  \<open>binary_search_by\<close> with its bisecting loop, and \<open>partition_point\<close>.  The lemmas
  say what a total comparator makes of them: sorted, a permutation, stable, unique, and the
  two facts the query planner rests on (sorting by two keys is sorting twice; the first n of
  a sorted list are what a selection followed by a sort returns).
\<close>

section \<open>Stable sorting\<close>

fun insert_by :: "('a \<Rightarrow> 'a \<Rightarrow> ordering) \<Rightarrow> 'a \<Rightarrow> 'a list \<Rightarrow> 'a list" where
  "insert_by cmp x [] = [x]"
| "insert_by cmp x (y # ys) =
     (if cmp x y = Greater then y # insert_by cmp x ys else x # y # ys)"

fun sort_by :: "('a \<Rightarrow> 'a \<Rightarrow> ordering) \<Rightarrow> 'a list \<Rightarrow> 'a list" where
  "sort_by cmp [] = []"
| "sort_by cmp (x # xs) = insert_by cmp x (sort_by cmp xs)"

abbreviation sorted_by :: "('a \<Rightarrow> 'a \<Rightarrow> ordering) \<Rightarrow> 'a list \<Rightarrow> bool" where
  "sorted_by cmp \<equiv> sorted_wrt (\<lambda>x y. cmp x y \<noteq> Greater)"

lemma mset_insert_by [sort_facts, simp]: "mset (insert_by cmp x xs) = add_mset x (mset xs)"
  by (induction xs) auto

lemma mset_sort_by [sort_facts, simp]: "mset (sort_by cmp xs) = mset xs"
  by (induction xs) auto

lemma set_insert_by [sort_facts, simp]: "set (insert_by cmp x xs) = insert x (set xs)"
  by (induction xs) auto

lemma set_sort_by [sort_facts, simp]: "set (sort_by cmp xs) = set xs"
  by (induction xs) auto

lemma length_insert_by [sort_facts, simp]: "length (insert_by cmp x xs) = Suc (length xs)"
  by (induction xs) auto

lemma length_sort_by [sort_facts, simp]: "length (sort_by cmp xs) = length xs"
  by (induction xs) auto

lemma distinct_sort_by [sort_facts, simp]: "distinct (sort_by cmp xs) = distinct xs"
  by (metis mset_sort_by distinct_count_atmost_1 set_sort_by)

lemma insert_by_cong:
  "(\<And>y. y \<in> set ys \<Longrightarrow> c1 x y = Greater \<longleftrightarrow> c2 x y = Greater) \<Longrightarrow> insert_by c1 x ys = insert_by c2 x ys"
  by (induction ys) auto

lemma sort_by_cong:
  "(\<And>x y. x \<in> set xs \<Longrightarrow> y \<in> set xs \<Longrightarrow> c1 x y = Greater \<longleftrightarrow> c2 x y = Greater)
    \<Longrightarrow> sort_by c1 xs = sort_by c2 xs"
proof (induction xs)
  case Nil
  show ?case by simp
next
  case (Cons x xs)
  then have "sort_by c1 xs = sort_by c2 xs" by simp
  moreover have "insert_by c1 x (sort_by c2 xs) = insert_by c2 x (sort_by c2 xs)"
    using Cons.prems by (intro insert_by_cong) simp
  ultimately show ?case by simp
qed

lemma map_insert_by:
  "map f (insert_by (\<lambda>a b. cmp (f a) (f b)) x xs) = insert_by cmp (f x) (map f xs)"
  by (induction xs) auto

lemma map_sort_by: "map f (sort_by (\<lambda>a b. cmp (f a) (f b)) xs) = sort_by cmp (map f xs)"
  by (induction xs) (auto simp: map_insert_by)

lemma insert_by_first: "\<forall>y\<in>set xs. cmp x y \<noteq> Greater \<Longrightarrow> insert_by cmp x xs = x # xs"
  by (cases xs) auto

lemma sort_by_sorted: "sorted_by cmp xs \<Longrightarrow> sort_by cmp xs = xs"
  by (induction xs) (auto simp: insert_by_first)

lemma filter_insert_by_skip:
  "\<not> P x \<Longrightarrow> filter P (insert_by cmp x xs) = filter P xs"
  by (induction xs) auto

context total_cmp
begin

lemma sorted_insert_by: "sorted_by cmp xs \<Longrightarrow> sorted_by cmp (insert_by cmp x xs)"
proof (induction xs)
  case Nil
  show ?case by simp
next
  case (Cons y ys)
  show ?case
  proof (cases "cmp x y = Greater")
    case True
    then have "cmp y x \<noteq> Greater" by (simp add: cmp_Greater_iff [of x y])
    with True Cons show ?thesis by simp
  next
    case False
    with Cons.prems show ?thesis by (auto dest: cmp_trans)
  qed
qed

lemma sorted_sort_by: "sorted_by cmp (sort_by cmp xs)"
  by (induction xs) (auto intro: sorted_insert_by)

lemma sort_by_idem: "sort_by cmp (sort_by cmp xs) = sort_by cmp xs"
  by (rule sort_by_sorted) (rule sorted_sort_by)

text \<open>Stability: the elements equal to any given one keep their order.\<close>

lemma filter_insert_by_keep:
  "cmp k x = Equal \<Longrightarrow> sorted_by cmp xs
    \<Longrightarrow> filter (\<lambda>y. cmp k y = Equal) (insert_by cmp x xs)
      = x # filter (\<lambda>y. cmp k y = Equal) xs"
proof (induction xs)
  case Nil
  then show ?case by simp
next
  case (Cons y ys)
  show ?case
  proof (cases "cmp x y = Greater")
    case True
    then have "cmp k y \<noteq> Equal"
      using Cons.prems(1) cmp_Equal_left [of k x y] by simp
    with True Cons show ?thesis by simp
  next
    case False
    with Cons.prems(1) show ?thesis by simp
  qed
qed

lemma stable_sort_by:
  "filter (\<lambda>y. cmp k y = Equal) (sort_by cmp xs) = filter (\<lambda>y. cmp k y = Equal) xs"
proof (induction xs)
  case Nil
  show ?case by simp
next
  case (Cons x xs)
  then show ?case
    using filter_insert_by_keep [OF _ sorted_sort_by, of k x xs]
      filter_insert_by_skip [of "\<lambda>y. cmp k y = Equal" x cmp "sort_by cmp xs"]
    by (cases "cmp k x = Equal") simp_all
qed

lemma insert_by_commute:
  assumes "cmp x y \<noteq> Equal"
  shows "insert_by cmp x (insert_by cmp y zs) = insert_by cmp y (insert_by cmp x zs)"
proof (induction zs)
  case Nil
  from assms show ?case by (cases "cmp x y") (auto simp: cmp_reverse [of y x])
next
  case (Cons z zs)
  have ord: "cmp x y = Greater \<longleftrightarrow> cmp y x \<noteq> Greater"
    using assms by (cases "cmp x y") (auto simp: cmp_reverse [of y x])
  have 1: "cmp x z = Greater \<Longrightarrow> cmp y z \<noteq> Greater \<Longrightarrow> cmp x y = Greater"
    using cmp_trans [of x y z] by blast
  have 2: "cmp y z = Greater \<Longrightarrow> cmp x z \<noteq> Greater \<Longrightarrow> cmp y x = Greater"
    using cmp_trans [of y x z] by blast
  from Cons.IH ord 1 2 show ?case by auto
qed

end

text \<open>Sorting by one key and breaking ties by another is sorting twice, the minor key
  first: what makes consecutive sorts expressible as one composite order.\<close>

lemma sort_by_insert_minor:
  assumes c1: "total_cmp c1" and c2: "total_cmp c2"
    and sorted: "sorted_by c2 ys"
  shows "sort_by c1 (insert_by c2 x ys)
    = insert_by (\<lambda>a b. then_with (c1 a b) (c2 a b)) x (sort_by c1 ys)"
  using sorted
proof (induction ys)
  case Nil
  show ?case by simp
next
  case (Cons y ys)
  let ?lex = "\<lambda>a b. then_with (c1 a b) (c2 a b)"
  have lex: "total_cmp ?lex" by (rule total_cmp_then_with [OF c1 c2])
  show ?case
  proof (cases "c2 x y = Greater")
    case False
    with Cons.prems have "\<forall>z\<in>set (sort_by c1 (y # ys)). c2 x z \<noteq> Greater"
      using total_cmp.cmp_trans [OF c2] by (auto simp del: sort_by.simps)
    then have "insert_by ?lex x (sort_by c1 (y # ys)) = insert_by c1 x (sort_by c1 (y # ys))"
      by (intro insert_by_cong) (auto simp: cmp_simps)
    with False show ?thesis by simp
  next
    case True
    then have yx: "c2 y x = Less"
      by (simp add: total_cmp.cmp_Greater_iff [OF c2])
    have ys: "\<forall>z\<in>set ys. c2 y z \<noteq> Greater" using Cons.prems by simp
    have "sort_by c1 (insert_by c2 x (y # ys))
        = insert_by c1 y (insert_by ?lex x (sort_by c1 ys))"
      using True Cons by simp
    also have "\<dots> = insert_by ?lex y (insert_by ?lex x (sort_by c1 ys))"
      using ys yx by (intro insert_by_cong) (auto simp: cmp_simps)
    also have "\<dots> = insert_by ?lex x (insert_by ?lex y (sort_by c1 ys))"
      using yx by (intro total_cmp.insert_by_commute [OF lex]) (simp add: cmp_simps)
    also have "insert_by ?lex y (sort_by c1 ys) = insert_by c1 y (sort_by c1 ys)"
      using ys by (intro insert_by_cong) (auto simp: cmp_simps)
    finally show ?thesis by simp
  qed
qed

lemma sort_by_then_with:
  assumes c1: "total_cmp c1" and c2: "total_cmp c2"
  shows "sort_by (\<lambda>a b. then_with (c1 a b) (c2 a b)) xs = sort_by c1 (sort_by c2 xs)"
proof (induction xs)
  case Nil
  show ?case by simp
next
  case (Cons x xs)
  then show ?case
    using sort_by_insert_minor [OF c1 c2 total_cmp.sorted_sort_by [OF c2], of x xs] by simp
qed

section \<open>Uniqueness and selection\<close>

text \<open>When no two elements compare equal, a sorted permutation is the sorted list, whichever
  algorithm produced it: \<open>sort_unstable_by\<close> and \<open>par_sort_unstable\<close> are \<open>sort_by\<close> then.\<close>

lemma sorted_by_unique:
  assumes cmp: "total_cmp cmp" and "mset xs = mset ys" "sorted_by cmp xs" "sorted_by cmp ys"
    and strict: "\<And>x y. x \<in> set xs \<Longrightarrow> y \<in> set xs \<Longrightarrow> cmp x y = Equal \<Longrightarrow> x = y"
  shows "xs = ys"
  using assms(2-)
proof (induction xs arbitrary: ys)
  case Nil
  then show ?case by simp
next
  case (Cons x xs)
  obtain y ys' where ys: "ys = y # ys'"
    using Cons.prems(1) by (cases ys) auto
  have sets: "insert x (set xs) = insert y (set ys')"
    using Cons.prems(1) ys by (metis list.simps(15) mset_eq_setD)
  have "x = y"
  proof (rule ccontr)
    assume ne: "x \<noteq> y"
    then have "y \<in> set xs" "x \<in> set ys'" using sets by auto
    then have "cmp x y \<noteq> Greater" "cmp y x \<noteq> Greater"
      using Cons.prems(2,3) ys by auto
    then have "cmp x y = Equal"
      using total_cmp.cmp_Greater_iff [OF cmp, of y x] by (cases "cmp x y") auto
    with Cons.prems(4) \<open>y \<in> set xs\<close> ne show False by auto
  qed
  moreover have "xs = ys'"
    using Cons \<open>x = y\<close> ys by simp
  ultimately show ?case by (simp add: ys)
qed

text \<open>The documented contract of \<open>select_nth_unstable_by\<close>: a permutation in which the
  element at the index is in its sorted place, nothing before it is greater and nothing
  after it is smaller.\<close>

definition selects :: "('a \<Rightarrow> 'a \<Rightarrow> ordering) \<Rightarrow> nat \<Rightarrow> 'a list \<Rightarrow> 'a list \<Rightarrow> bool" where
  "selects cmp k xs ys \<longleftrightarrow> mset ys = mset xs \<and> k < length ys
     \<and> list_all (\<lambda>y. cmp y (ys ! k) \<noteq> Greater) (take k ys)
     \<and> list_all (\<lambda>y. cmp (ys ! k) y \<noteq> Greater) (drop (Suc k) ys)"

lemma take_sorted_by_split:
  assumes cmp: "total_cmp cmp"
    and mset: "mset (as @ bs) = mset xs"
    and le: "\<And>a b. a \<in> set as \<Longrightarrow> b \<in> set bs \<Longrightarrow> cmp a b \<noteq> Greater"
    and strict: "\<And>x y. x \<in> set xs \<Longrightarrow> y \<in> set xs \<Longrightarrow> cmp x y = Equal \<Longrightarrow> x = y"
  shows "sort_by cmp as = take (length as) (sort_by cmp xs)"
proof -
  have "sort_by cmp xs = sort_by cmp as @ sort_by cmp bs"
  proof (rule sorted_by_unique [OF cmp])
    show "mset (sort_by cmp xs) = mset (sort_by cmp as @ sort_by cmp bs)"
      using mset by simp
    show "sorted_by cmp (sort_by cmp xs)" by (rule total_cmp.sorted_sort_by [OF cmp])
    show "sorted_by cmp (sort_by cmp as @ sort_by cmp bs)"
      using le by (auto simp: sorted_wrt_append total_cmp.sorted_sort_by [OF cmp])
  qed (use strict in auto)
  then show ?thesis by simp
qed

lemma selects_take:
  assumes cmp: "total_cmp cmp" and sel: "selects cmp k xs ys"
    and strict: "\<And>x y. x \<in> set xs \<Longrightarrow> y \<in> set xs \<Longrightarrow> cmp x y = Equal \<Longrightarrow> x = y"
  shows "sort_by cmp (take (Suc k) ys) = take (Suc k) (sort_by cmp xs)"
proof -
  have k: "k < length ys" and mset: "mset ys = mset xs"
    and before: "\<And>y. y \<in> set (take k ys) \<Longrightarrow> cmp y (ys ! k) \<noteq> Greater"
    and after: "\<And>y. y \<in> set (drop (Suc k) ys) \<Longrightarrow> cmp (ys ! k) y \<noteq> Greater"
    using sel by (auto simp: selects_def list_all_iff)
  have "sort_by cmp (take (Suc k) ys) = take (length (take (Suc k) ys)) (sort_by cmp xs)"
  proof (rule take_sorted_by_split [OF cmp _ _ strict])
    show "mset (take (Suc k) ys @ drop (Suc k) ys) = mset xs"
      by (simp add: mset)
    fix a b
    assume "a \<in> set (take (Suc k) ys)" "b \<in> set (drop (Suc k) ys)"
    then show "cmp a b \<noteq> Greater"
      using before [of a] after [of b] k total_cmp.cmp_trans [OF cmp, of a "ys ! k" b]
      by (auto simp: take_Suc_conv_app_nth)
  qed
  with k show ?thesis by simp
qed

section \<open>Binary search\<close>

text \<open>The bisecting loop of \<open>slice::binary_search_by\<close>, where \<open>f i\<close> is the comparison
  of element \<open>i\<close> with the probe: \<open>Ok\<close> an index that matches, \<open>Err\<close> the insertion
  point.\<close>

function bisect :: "(nat \<Rightarrow> ordering) \<Rightarrow> nat \<Rightarrow> nat \<Rightarrow> nat" where
  "bisect f base n =
     (if 1 < n then
        (let half = n div 2; mid = base + half
         in bisect f (if f mid = Greater then base else mid) (n - half))
      else base)"
  by pat_completeness auto
termination
  by (relation "measure (\<lambda>(f, base, n). n)") auto

declare bisect.simps [simp del]

definition binary_search_by :: "('a \<Rightarrow> ordering) \<Rightarrow> 'a list \<Rightarrow> (nat, nat) result" where
  "binary_search_by f xs =
     (if xs = [] then Err 0
      else let base = bisect (\<lambda>i. f (xs ! i)) 0 (length xs)
           in (case f (xs ! base) of
                 Equal \<Rightarrow> Ok base
               | Less \<Rightarrow> Err (base + 1)
               | Greater \<Rightarrow> Err base))"

definition partition_point :: "('a \<Rightarrow> bool) \<Rightarrow> 'a list \<Rightarrow> nat" where
  "partition_point p xs =
     (case binary_search_by (\<lambda>x. if p x then Less else Greater) xs of
        Inl i \<Rightarrow> i | Inr i \<Rightarrow> i)"

text \<open>\<open>f\<close> is monotone when the comparisons run \<open>Less\<close>, then \<open>Equal\<close>, then
  \<open>Greater\<close>: the precondition the standard library documents.\<close>

definition probe_mono :: "(nat \<Rightarrow> ordering) \<Rightarrow> nat \<Rightarrow> bool" where
  "probe_mono f n \<longleftrightarrow> (\<forall>i j. i < j \<longrightarrow> j < n \<longrightarrow>
     (f i = Greater \<longrightarrow> f j = Greater) \<and> (f j = Less \<longrightarrow> f i = Less))"

lemma probe_mono_Greater: "probe_mono f n \<Longrightarrow> f i = Greater \<Longrightarrow> i \<le> j \<Longrightarrow> j < n \<Longrightarrow> f j = Greater"
  unfolding probe_mono_def by (metis le_neq_implies_less)

lemma probe_mono_Less: "probe_mono f n \<Longrightarrow> f j = Less \<Longrightarrow> i \<le> j \<Longrightarrow> j < n \<Longrightarrow> f i = Less"
  unfolding probe_mono_def by (metis le_neq_implies_less)

lemma in_set_drop_nth: "x \<in> set (drop n xs) \<longleftrightarrow> (\<exists>i. n \<le> i \<and> i < length xs \<and> x = xs ! i)"
proof
  assume "x \<in> set (drop n xs)"
  then obtain j where "j < length (drop n xs)" "x = drop n xs ! j"
    by (auto simp: in_set_conv_nth)
  then show "\<exists>i. n \<le> i \<and> i < length xs \<and> x = xs ! i"
    by (intro exI [of _ "n + j"]) simp
next
  assume "\<exists>i. n \<le> i \<and> i < length xs \<and> x = xs ! i"
  then obtain i where "n \<le> i" "i < length xs" "x = xs ! i" by blast
  then show "x \<in> set (drop n xs)"
    by (simp add: in_set_conv_nth) (metis diff_less_mono le_add_diff_inverse)
qed

lemma bisect_spec:
  assumes "0 < n" "base + n \<le> len" "probe_mono f len" "base = 0 \<or> f base \<noteq> Greater"
    and "\<forall>i. base + n \<le> i \<longrightarrow> i < len \<longrightarrow> f i = Greater"
  shows "bisect f base n < len \<and> (bisect f base n = 0 \<or> f (bisect f base n) \<noteq> Greater)
    \<and> (\<forall>i. bisect f base n < i \<longrightarrow> i < len \<longrightarrow> f i = Greater)"
  using assms
proof (induction f base n rule: bisect.induct)
  case (1 f base n)
  show ?case
  proof (cases "1 < n")
    case False
    with "1.prems" have "bisect f base n = base" "n = 1"
      by (simp_all add: bisect.simps [of f base n])
    with "1.prems" show ?thesis by auto
  next
    case True
    let ?half = "n div 2"
    let ?mid = "base + ?half"
    let ?base = "if f ?mid = Greater then base else ?mid"
    have mid: "?mid < len" using True "1.prems"(2) by linarith
    have above: "\<forall>i. ?base + (n - ?half) \<le> i \<longrightarrow> i < len \<longrightarrow> f i = Greater"
    proof (intro allI impI)
      fix i assume i: "?base + (n - ?half) \<le> i" "i < len"
      show "f i = Greater"
      proof (cases "f ?mid = Greater")
        case True
        then have "?mid \<le> i" using i by auto
        with True i(2) show ?thesis by (metis probe_mono_Greater [OF "1.prems"(3)])
      next
        case False
        with i "1.prems"(5) show ?thesis by auto
      qed
    qed
    have step: "bisect f base n = bisect f ?base (n - ?half)"
      using True by (simp only: bisect.simps [of f base n] Let_def if_True)
    have "0 < n - ?half" "?base + (n - ?half) \<le> len"
      using True "1.prems"(2) by auto
    moreover have "?base = 0 \<or> f ?base \<noteq> Greater"
      using "1.prems"(4) by simp
    ultimately show ?thesis
      unfolding step using "1.prems"(3) above by (intro "1.IH" [OF True refl refl])
  qed
qed

lemma binary_search_by_cases:
  assumes mono: "probe_mono (\<lambda>i. f (xs ! i)) (length xs)"
  shows "case binary_search_by f xs of
      Inr i \<Rightarrow> i < length xs \<and> f (xs ! i) = Equal
    | Inl i \<Rightarrow> i \<le> length xs \<and> (\<forall>x\<in>set (take i xs). f x = Less)
        \<and> (\<forall>x\<in>set (drop i xs). f x = Greater)"
proof (cases "xs = []")
  case True
  then show ?thesis by (simp add: binary_search_by_def)
next
  case False
  obtain r where r_def: "bisect (\<lambda>i. f (xs ! i)) 0 (length xs) = r" by blast
  have spec: "r < length xs \<and> (r = 0 \<or> f (xs ! r) \<noteq> Greater)
      \<and> (\<forall>i. r < i \<longrightarrow> i < length xs \<longrightarrow> f (xs ! i) = Greater)"
    unfolding r_def [symmetric] by (rule bisect_spec) (use False mono in auto)
  then have r: "r < length xs" "r = 0 \<or> f (xs ! r) \<noteq> Greater"
    and above: "\<And>i. r < i \<Longrightarrow> i < length xs \<Longrightarrow> f (xs ! i) = Greater"
    by blast+
  have below: "f (xs ! i) = Less" if "f (xs ! r) = Less" "i \<le> r" for i
    using probe_mono_Less [OF mono that r(1)] .
  have result: "binary_search_by f xs =
      (if f (xs ! r) = Equal then Ok r else Err (r + (if f (xs ! r) = Less then 1 else 0)))"
    using False by (cases "f (xs ! r)") (simp_all add: binary_search_by_def Let_def r_def)
  show ?thesis
  proof (cases "f (xs ! r)")
    case Less
    have "\<forall>x\<in>set (take (Suc r) xs). f x = Less"
      using below [OF Less] by (auto simp: in_set_conv_nth)
    moreover have "\<forall>x\<in>set (drop (Suc r) xs). f x = Greater"
    proof
      fix x assume "x \<in> set (drop (Suc r) xs)"
      then obtain i where "Suc r \<le> i" "i < length xs" "x = xs ! i"
        unfolding in_set_drop_nth by blast
      then show "f x = Greater" using above [of i] by simp
    qed
    ultimately show ?thesis
      unfolding result using Less r(1) by simp
  next
    case Equal
    with r(1) show ?thesis unfolding result by simp
  next
    case Greater
    with r(2) have zero: "r = 0" by simp
    have all: "\<forall>x\<in>set xs. f x = Greater"
    proof
      fix x assume "x \<in> set xs"
      then obtain i where i: "i < length xs" "xs ! i = x"
        unfolding in_set_conv_nth by blast
      show "f x = Greater"
      proof (cases "i = 0")
        case True
        with Greater zero i(2) show ?thesis by simp
      next
        case False
        then show ?thesis using above [of i] i zero by simp
      qed
    qed
    from Greater zero all show ?thesis unfolding result by simp
  qed
qed

lemma binary_search_by_Ok:
  assumes "binary_search_by f xs = Ok i" "probe_mono (\<lambda>i. f (xs ! i)) (length xs)"
  shows "i < length xs" "f (xs ! i) = Equal"
  using binary_search_by_cases [OF assms(2)] assms(1) by auto

lemma binary_search_by_Err:
  assumes "binary_search_by f xs = Err i" "probe_mono (\<lambda>i. f (xs ! i)) (length xs)"
  shows "i \<le> length xs" "\<forall>x\<in>set (take i xs). f x = Less" "\<forall>x\<in>set (drop i xs). f x = Greater"
  using binary_search_by_cases [OF assms(2)] assms(1) by auto

text \<open>Without any order, a hit is a hit and an insertion point is in range.\<close>

lemma bisect_bound: "0 < n \<Longrightarrow> base + n \<le> len \<Longrightarrow> bisect f base n < len"
proof (induction f base n rule: bisect.induct)
  case (1 f base n)
  show ?case
  proof (cases "1 < n")
    case True
    let ?base = "if f (base + n div 2) = Greater then base else base + n div 2"
    have "0 < n - n div 2" "?base + (n - n div 2) \<le> len" using True "1.prems" by auto
    from "1.IH" [OF True refl refl this] show ?thesis
      using True by (simp only: bisect.simps [of f base n] Let_def if_True)
  next
    case False
    with "1.prems" show ?thesis by (simp add: bisect.simps [of f base n])
  qed
qed

lemma binary_search_any:
  "case binary_search_by f xs of Inr i \<Rightarrow> i < length xs \<and> f (xs ! i) = Equal | Inl i \<Rightarrow> i \<le> length xs"
proof (cases "xs = []")
  case False
  then have "bisect (\<lambda>i. f (xs ! i)) 0 (length xs) < length xs" by (intro bisect_bound) auto
  with False show ?thesis
    by (cases "f (xs ! bisect (\<lambda>i. f (xs ! i)) 0 (length xs))") (simp_all add: binary_search_by_def Let_def)
qed (simp add: binary_search_by_def)

text \<open>Searching rows sorted by a key for the row with a given key.\<close>

lemma probe_mono_sorted:
  "sorted (map key xs) \<Longrightarrow> probe_mono (\<lambda>i. compare (key (xs ! i)) k) (length xs)"
  unfolding probe_mono_def
  by (fastforce simp: sorted_map sorted_wrt_iff_nth_less
      intro: order.strict_trans1 order.strict_trans2)

lemma binary_search_key_Ok:
  assumes "binary_search_by (\<lambda>x. compare (key x) k) xs = Ok i" "sorted (map key xs)"
  shows "i < length xs" "key (xs ! i) = k"
  using binary_search_by_Ok [OF assms(1) probe_mono_sorted [OF assms(2)]] by auto

lemma binary_search_key_Err:
  assumes "binary_search_by (\<lambda>x. compare (key x) k) xs = Err i" "sorted (map key xs)"
  shows "i \<le> length xs" "\<forall>x\<in>set (take i xs). key x < k" "\<forall>x\<in>set (drop i xs). k < key x"
  using binary_search_by_Err [OF assms(1) probe_mono_sorted [OF assms(2)]] by auto

lemma binary_search_key_found:
  assumes "sorted (map key xs)"
  shows "(\<exists>i. binary_search_by (\<lambda>x. compare (key x) k) xs = Ok i) \<longleftrightarrow> k \<in> key ` set xs"
proof (cases "binary_search_by (\<lambda>x. compare (key x) k) xs")
  case (Inl i)
  have "set xs = set (take i xs) \<union> set (drop i xs)"
    by (metis append_take_drop_id set_append)
  with binary_search_key_Err [OF Inl assms] have "k \<notin> key ` set xs" by auto
  with Inl show ?thesis by simp
next
  case (Inr i)
  with binary_search_key_Ok [OF Inr assms] show ?thesis by force
qed

lemma partition_point_spec:
  assumes mono: "\<forall>i j. i < j \<longrightarrow> j < length xs \<longrightarrow> p (xs ! j) \<longrightarrow> p (xs ! i)"
  shows "partition_point p xs \<le> length xs"
    and "\<forall>x\<in>set (take (partition_point p xs) xs). p x"
    and "\<forall>x\<in>set (drop (partition_point p xs) xs). \<not> p x"
proof -
  let ?f = "\<lambda>x. if p x then Less else Greater"
  have probe: "probe_mono (\<lambda>i. ?f (xs ! i)) (length xs)"
    using mono unfolding probe_mono_def by auto
  obtain i where i: "binary_search_by ?f xs = Err i"
    using binary_search_by_Ok(2) [OF _ probe]
    by (cases "binary_search_by ?f xs") (auto split: if_splits)
  then have "partition_point p xs = i" by (simp add: partition_point_def)
  with binary_search_by_Err [OF i probe] show "partition_point p xs \<le> length xs"
    and "\<forall>x\<in>set (take (partition_point p xs) xs). p x"
    and "\<forall>x\<in>set (drop (partition_point p xs) xs). \<not> p x"
    by (auto split: if_splits)
qed

lemma partition_point_takeWhile:
  assumes mono: "\<forall>i j. i < j \<longrightarrow> j < length xs \<longrightarrow> p (xs ! j) \<longrightarrow> p (xs ! i)"
  shows "take (partition_point p xs) xs = takeWhile p xs"
    and "drop (partition_point p xs) xs = dropWhile p xs"
proof -
  let ?k = "partition_point p xs"
  have "takeWhile p (take ?k xs @ drop ?k xs) = take ?k xs @ takeWhile p (drop ?k xs)"
    using partition_point_spec(2) [OF mono] by (intro takeWhile_append2) simp
  moreover have "takeWhile p (drop ?k xs) = []"
    using partition_point_spec(3) [OF mono] by (cases "drop ?k xs") auto
  ultimately have "takeWhile p (take ?k xs @ drop ?k xs) = take ?k xs" by simp
  then show take: "take (partition_point p xs) xs = takeWhile p xs" by simp
  show "drop (partition_point p xs) xs = dropWhile p xs"
    by (metis append_same_eq append_take_drop_id same_append_eq take takeWhile_dropWhile_id)
qed

section \<open>Deduplication\<close>

text \<open>\<open>Vec::dedup\<close> drops repeated neighbours; after a sort, every repetition.\<close>

abbreviation dedup :: "'a list \<Rightarrow> 'a list" where "dedup \<equiv> remdups_adj"

lemma sorted_dedup_distinct:
  fixes xs :: "'a::linorder list"
  assumes "sorted xs"
  shows "sorted_wrt (<) (dedup xs)" "set (dedup xs) = set xs"
proof -
  from assms show "sorted_wrt (<) (dedup xs)"
    by (induction xs rule: remdups_adj.induct) (auto simp: order.strict_iff_order)
qed simp

lemma sort_by_compare: "sort_by compare xs = sort xs"
  by (rule sym, rule properties_for_sort)
    (use linorder_cmp.sorted_sort_by [of xs] in \<open>auto simp: not_less sorted_wrt_iff_nth_less\<close>)

end
