(* ===== verification/Index_Rows.thy ===== *)
theory Index_Rows
  imports Notes Rust_Sort "HOL-Library.AList"
begin

text \<open>
  The rows of the index: \<open>src/index/sort.rs\<close> (path-sorted rows), the file delta of
  \<open>src/index/delta.rs\<close>, the assembly of \<open>src/index/entry.rs\<close> and the merge of refreshed
  notes of \<open>src/index/refresh.rs\<close>.  \<open>HasPath\<close> is the argument \<open>key\<close>.  The inlink
  table is a hash map; it is the association list of its entries, whose order stands for the
  unspecified iteration order.
\<close>

section \<open>Path-sorted rows\<close>

definition sorted_by_path :: "('a \<Rightarrow> path) \<Rightarrow> 'a list \<Rightarrow> 'a list" where
  "sorted_by_path key rows = sort_by (\<lambda>a b. compare (key a) (key b)) rows"

definition binary_search_by_path :: "('a \<Rightarrow> path) \<Rightarrow> 'a list \<Rightarrow> path \<Rightarrow> (nat, nat) result" where
  "binary_search_by_path key rows p = binary_search_by (\<lambda>row. compare (key row) p) rows"

text \<open>The rows of an index have pairwise different paths: they are strictly ascending.\<close>

definition ascending :: "('a \<Rightarrow> path) \<Rightarrow> 'a list \<Rightarrow> bool" where
  "ascending key rows \<longleftrightarrow> sorted_wrt (\<lambda>a b. key a < key b) rows"

definition row_of :: "('a \<Rightarrow> path) \<Rightarrow> 'a list \<Rightarrow> path \<Rightarrow> 'a option" where
  "row_of key rows p = List.find (\<lambda>row. key row = p) rows"

lemma ascending_simps [simp]:
  "ascending key []"
  "ascending key (x # xs) \<longleftrightarrow> (\<forall>y\<in>set xs. key x < key y) \<and> ascending key xs"
  by (auto simp: ascending_def)

lemma ascending_filter: "ascending key xs \<Longrightarrow> ascending key (filter P xs)"
  by (induction xs) auto

lemma ascending_dropWhile: "ascending key xs \<Longrightarrow> ascending key (dropWhile P xs)"
  by (induction xs) auto

lemma ascending_map: "ascending key (map f xs) \<longleftrightarrow> ascending (key \<circ> f) xs"
  by (induction xs) auto

lemma ascending_sorted: "ascending key xs \<Longrightarrow> sorted (map key xs)"
  by (induction xs) (auto intro: less_imp_le)

lemma ascending_distinct: "ascending key xs \<Longrightarrow> distinct (map key xs)"
  by (induction xs) auto

lemma row_of_simps [simp]:
  "row_of key [] p = None"
  "row_of key (x # xs) p = (if key x = p then Some x else row_of key xs p)"
  by (simp_all add: row_of_def)

lemma row_of_SomeD: "row_of key xs p = Some x \<Longrightarrow> x \<in> set xs \<and> key x = p"
  by (induction xs) (auto split: if_splits)

lemma row_of_None: "row_of key xs p = None \<longleftrightarrow> (\<forall>x\<in>set xs. key x \<noteq> p)"
  by (induction xs) auto

lemma row_of_in: "ascending key xs \<Longrightarrow> x \<in> set xs \<Longrightarrow> row_of key xs (key x) = Some x"
  by (induction xs) force+

lemma row_of_eq_Some: "ascending key xs \<Longrightarrow> row_of key xs p = Some x \<longleftrightarrow> x \<in> set xs \<and> key x = p"
  using row_of_SomeD row_of_in by fastforce

lemma row_of_filter:
  "ascending key xs \<Longrightarrow> row_of key (filter P xs) p
    = (case row_of key xs p of Some x \<Rightarrow> if P x then Some x else None | None \<Rightarrow> None)"
proof (induction xs)
  case (Cons x xs)
  then have "row_of key xs (key x) = None" by (auto simp: row_of_None)
  with Cons show ?case by auto
qed simp

lemma row_of_dropWhile_less:
  "ascending key xs \<Longrightarrow> row_of key (dropWhile (\<lambda>x. key x < p) xs) q
    = (if q < p then None else row_of key xs q)"
  by (induction xs) (auto simp: row_of_None)

text \<open>Ascending rows are determined by their lookup.\<close>

lemma ascending_ext:
  assumes "ascending key xs" "ascending key ys" "\<And>p. row_of key xs p = row_of key ys p"
  shows "xs = ys"
proof -
  have "x \<in> set xs \<longleftrightarrow> x \<in> set ys" for x
    using row_of_eq_Some [OF assms(1), of "key x" x] row_of_eq_Some [OF assms(2), of "key x" x]
      assms(3) [of "key x"] by simp
  then have "set xs = set ys" by blast
  moreover have "map key xs = map key ys"
  proof (rule sorted_distinct_set_unique)
    show "set (map key xs) = set (map key ys)" using \<open>set xs = set ys\<close> by simp
  qed (use ascending_sorted ascending_distinct assms(1,2) in auto)
  moreover have "inj_on key (set xs \<union> set ys)"
    using row_of_in [OF assms(1)] \<open>set xs = set ys\<close> by (metis inj_onI option.inject sup.idem)
  ultimately show ?thesis using map_inj_on by blast
qed

lemma binary_search_found:
  "ascending key xs \<Longrightarrow> (\<exists>i. binary_search_by_path key xs p = Ok i) \<longleftrightarrow> row_of key xs p \<noteq> None"
  unfolding binary_search_by_path_def binary_search_key_found [OF ascending_sorted]
  by (auto simp: row_of_None)

lemma binary_search_row:
  assumes "ascending key xs"
  shows "(case binary_search_by_path key xs p of Inr i \<Rightarrow> slice_get xs i | Inl _ \<Rightarrow> None) = row_of key xs p"
proof (cases "binary_search_by_path key xs p")
  case (Inl i)
  then show ?thesis using binary_search_found [OF assms, of p] by auto
next
  case (Inr i)
  from binary_search_key_Ok [OF Inr [unfolded binary_search_by_path_def] ascending_sorted [OF assms]]
  have "i < length xs" "key (xs ! i) = p" .
  then show ?thesis using Inr row_of_in [OF assms, of "xs ! i"] by (simp add: slice_get_def)
qed

section \<open>The file delta\<close>

record file_delta =
  upserted :: "file_meta list"
  deleted :: "file_meta list"

definition push_upserted :: "file_meta \<Rightarrow> file_delta \<Rightarrow> file_delta" where
  "push_upserted f d = d \<lparr> upserted := f # upserted d \<rparr>"

definition push_deleted :: "file_meta \<Rightarrow> file_delta \<Rightarrow> file_delta" where
  "push_deleted f d = d \<lparr> deleted := f # deleted d \<rparr>"

fun file_delta_compute :: "file_meta list \<Rightarrow> file_meta list \<Rightarrow> file_delta" where
  "file_delta_compute (c # cs) (p # ps) = (case compare (file_path c) (file_path p) of
       Less \<Rightarrow> push_upserted c (file_delta_compute cs (p # ps))
     | Greater \<Rightarrow> push_deleted p (file_delta_compute (c # cs) ps)
     | Equal \<Rightarrow> if c \<noteq> p then push_upserted c (file_delta_compute cs ps) else file_delta_compute cs ps)"
| "file_delta_compute (c # cs) [] = push_upserted c (file_delta_compute cs [])"
| "file_delta_compute [] (p # ps) = push_deleted p (file_delta_compute [] ps)"
| "file_delta_compute [] [] = \<lparr> upserted = [], deleted = [] \<rparr>"

definition file_delta_is_empty :: "file_delta \<Rightarrow> bool" where
  "file_delta_is_empty d \<longleftrightarrow> upserted d = [] \<and> deleted d = []"

definition changed_rows :: "file_meta list \<Rightarrow> file_meta list \<Rightarrow> file_meta list" where
  "changed_rows per cur = filter (\<lambda>c. row_of file_path per (file_path c) \<noteq> Some c) cur"

definition missing_rows :: "file_meta list \<Rightarrow> file_meta list \<Rightarrow> file_meta list" where
  "missing_rows cur per = filter (\<lambda>p. row_of file_path cur (file_path p) = None) per"

lemma changed_rows_skip:
  "\<forall>x\<in>set cur. file_path p < file_path x \<Longrightarrow> changed_rows (p # per) cur = changed_rows per cur"
  unfolding changed_rows_def by (rule filter_cong [OF refl]) force

lemma missing_rows_skip:
  "\<forall>x\<in>set per. file_path c < file_path x \<Longrightarrow> missing_rows (c # cur) per = missing_rows cur per"
  unfolding missing_rows_def by (rule filter_cong [OF refl]) force

lemma file_delta_steps:
  "file_path c < file_path p
    \<Longrightarrow> file_delta_compute (c # cs) (p # ps) = push_upserted c (file_delta_compute cs (p # ps))"
  "file_path p < file_path c
    \<Longrightarrow> file_delta_compute (c # cs) (p # ps) = push_deleted p (file_delta_compute (c # cs) ps)"
  "file_path c = file_path p \<Longrightarrow> file_delta_compute (c # cs) (p # ps)
     = (if c \<noteq> p then push_upserted c (file_delta_compute cs ps) else file_delta_compute cs ps)"
  by (simp_all add: compare_def)

lemma file_delta_spec:
  assumes "ascending file_path cur" "ascending file_path per"
  shows "file_delta_compute cur per = \<lparr> upserted = changed_rows per cur, deleted = missing_rows cur per \<rparr>"
  using assms
proof (induction cur per rule: file_delta_compute.induct)
  case (1 c cs p ps)
  have cs: "ascending file_path cs" "\<forall>x\<in>set cs. file_path c < file_path x"
    and ps: "ascending file_path ps" "\<forall>x\<in>set ps. file_path p < file_path x"
    using "1.prems" by simp_all
  consider (lt) "file_path c < file_path p" | (gt) "file_path p < file_path c"
    | (eq) "file_path c = file_path p" by fastforce
  then show ?case
  proof cases
    case lt
    have "row_of file_path (p # ps) (file_path c) = None"
      using lt ps by (auto simp: row_of_None)
    then have "changed_rows (p # ps) (c # cs) = c # changed_rows (p # ps) cs"
      by (simp add: changed_rows_def)
    moreover have "missing_rows (c # cs) (p # ps) = missing_rows cs (p # ps)"
      using lt ps by (intro missing_rows_skip) auto
    ultimately show ?thesis
      unfolding file_delta_steps(1) [OF lt] using "1.IH"(1) lt cs(1) "1.prems"(2)
      by (simp add: push_upserted_def)
  next
    case gt
    have "row_of file_path (c # cs) (file_path p) = None"
      using gt cs by (auto simp: row_of_None)
    then have "missing_rows (c # cs) (p # ps) = p # missing_rows (c # cs) ps"
      by (simp add: missing_rows_def)
    moreover have "changed_rows (p # ps) (c # cs) = changed_rows ps (c # cs)"
      using gt cs by (intro changed_rows_skip) auto
    moreover have greater: "compare (file_path c) (file_path p) = Greater" using gt by simp
    ultimately show ?thesis
      unfolding file_delta_steps(2) [OF gt] "1.IH"(4) [OF greater "1.prems"(1) ps(1)]
      by (simp add: push_deleted_def)
  next
    case eq
    have ps': "\<forall>x\<in>set cs. file_path p < file_path x" "\<forall>x\<in>set ps. file_path c < file_path x"
      using cs ps eq by simp_all
    have "row_of file_path (p # ps) (file_path c) = Some p" using eq by simp
    then have "changed_rows (p # ps) (c # cs) = (if c \<noteq> p then [c] else []) @ changed_rows (p # ps) cs"
      unfolding changed_rows_def filter.simps by auto
    moreover have "row_of file_path (c # cs) (file_path p) = Some c" using eq by simp
    then have "missing_rows (c # cs) (p # ps) = missing_rows (c # cs) ps"
      unfolding missing_rows_def filter.simps by auto
    moreover have ih: "file_delta_compute cs ps
        = \<lparr> upserted = changed_rows ps cs, deleted = missing_rows cs ps \<rparr>"
      using "1.IH"(2,3) eq cs(1) ps(1) by (cases "c = p") simp_all
    ultimately show ?thesis
      unfolding file_delta_steps(3) [OF eq] using ih changed_rows_skip [OF ps'(1)] missing_rows_skip [OF ps'(2)]
      by (simp add: push_upserted_def)
  qed
qed (simp_all add: push_upserted_def push_deleted_def changed_rows_def missing_rows_def)

section \<open>Merging refreshed notes\<close>

fun merge_notes :: "md_note list \<Rightarrow> md_note list \<Rightarrow> md_note list" where
  "merge_notes [] [] = []"
| "merge_notes (old # persisted) [] = old # persisted"
| "merge_notes [] (new # modified) = new # modified"
| "merge_notes (old # persisted) (new # modified) = (case compare (note_path old) (note_path new) of
       Less \<Rightarrow> old # merge_notes persisted (new # modified)
     | Greater \<Rightarrow> new # merge_notes (old # persisted) modified
     | Equal \<Rightarrow> new # merge_notes persisted modified)"

definition merge_refreshed_notes :: "md_note list \<Rightarrow> file_delta \<Rightarrow> md_note list \<Rightarrow> md_note list" where
  "merge_refreshed_notes stored delta modified =
     (let all_notes = (if deleted delta = [] then stored
            else filter (\<lambda>n. note_path n \<notin> file_path ` set (deleted delta)) stored)
      in merge_notes all_notes modified)"

lemma merge_notes_steps:
  "note_path a < note_path b \<Longrightarrow> merge_notes (a # as) (b # bs) = a # merge_notes as (b # bs)"
  "note_path b < note_path a \<Longrightarrow> merge_notes (a # as) (b # bs) = b # merge_notes (a # as) bs"
  "note_path a = note_path b \<Longrightarrow> merge_notes (a # as) (b # bs) = b # merge_notes as bs"
  by (simp_all add: compare_def less_not_sym less_imp_not_eq2)

lemma merge_notes_Nil [simp]: "merge_notes as [] = as" "merge_notes [] bs = bs"
  by (cases as; simp) (cases bs; simp)

lemma merge_notes_subset: "set (merge_notes as bs) \<subseteq> set as \<union> set bs"
proof (induction as bs rule: merge_notes.induct)
  case (4 a as b bs)
  then show ?case by (auto split: ordering.splits)
qed auto

text \<open>The union, with a modified note replacing the persisted one of its path.\<close>

lemma merge_notes_spec:
  assumes "ascending note_path as" "ascending note_path bs"
  shows "ascending note_path (merge_notes as bs)
    \<and> (\<forall>p. row_of note_path (merge_notes as bs) p
        = (case row_of note_path bs p of Some b \<Rightarrow> Some b | None \<Rightarrow> row_of note_path as p))"
  using assms
proof (induction as bs rule: merge_notes.induct)
  case (4 a as b bs)
  have as: "ascending note_path as" "\<forall>x\<in>set as. note_path a < note_path x"
    and bs: "ascending note_path bs" "\<forall>x\<in>set bs. note_path b < note_path x"
    using "4.prems" by simp_all
  consider (lt) "note_path a < note_path b" | (gt) "note_path b < note_path a"
    | (eq) "note_path a = note_path b" by fastforce
  then show ?case
  proof cases
    case lt
    have less: "compare (note_path a) (note_path b) = Less" using lt by simp
    have "row_of note_path (b # bs) (note_path a) = None" using lt bs by (auto simp: row_of_None)
    moreover have "\<forall>x\<in>set (merge_notes as (b # bs)). note_path a < note_path x"
      using merge_notes_subset [of as "b # bs"] as lt bs by fastforce
    ultimately show ?thesis
      unfolding merge_notes_steps(1) [OF lt] using "4.IH"(1) [OF less as(1) "4.prems"(2)]
      by (auto simp del: row_of_simps(2) simp: row_of_simps(2) [of _ a] split: option.split)
  next
    case gt
    have greater: "compare (note_path a) (note_path b) = Greater" using gt by simp
    have "\<forall>x\<in>set (merge_notes (a # as) bs). note_path b < note_path x"
      using merge_notes_subset [of "a # as" bs] bs gt as by fastforce
    then show ?thesis
      unfolding merge_notes_steps(2) [OF gt] using "4.IH"(3) [OF greater "4.prems"(1) bs(1)]
      by (auto simp del: row_of_simps(2) simp: row_of_simps(2) [of _ b] split: option.split)
  next
    case eq
    have equal: "compare (note_path a) (note_path b) = Equal" using eq by simp
    have "\<forall>x\<in>set (merge_notes as bs). note_path b < note_path x"
      using merge_notes_subset [of as bs] bs eq as by fastforce
    then show ?thesis
      unfolding merge_notes_steps(3) [OF eq] using "4.IH"(2) [OF equal as(1) bs(1)] eq
      by (auto split: option.split)
  qed
qed (auto split: option.split)

lemma merge_refreshed_notes_spec:
  assumes "ascending note_path stored" "ascending note_path modified"
  shows "ascending note_path (merge_refreshed_notes stored delta modified)
    \<and> row_of note_path (merge_refreshed_notes stored delta modified) p
      = (case row_of note_path modified p of Some n \<Rightarrow> Some n
         | None \<Rightarrow> if p \<in> file_path ` set (deleted delta) then None else row_of note_path stored p)"
proof -
  let ?all = "filter (\<lambda>n. note_path n \<notin> file_path ` set (deleted delta)) stored"
  have merge: "merge_refreshed_notes stored delta modified = merge_notes ?all modified"
    by (simp add: merge_refreshed_notes_def)
  have "row_of note_path ?all p
      = (if p \<in> file_path ` set (deleted delta) then None else row_of note_path stored p)"
    unfolding row_of_filter [OF assms(1)] by (auto split: option.split dest: row_of_SomeD)
  moreover from merge_notes_spec [OF ascending_filter [OF assms(1)] assms(2)]
  have "ascending note_path (merge_notes ?all modified)"
    "row_of note_path (merge_notes ?all modified) p = (case row_of note_path modified p of
        Some n \<Rightarrow> Some n | None \<Rightarrow> row_of note_path ?all p)"
    by (blast, simp only:)
  ultimately show ?thesis
    unfolding merge by (simp only:)
qed

section \<open>Assembling the index\<close>

type_synonym inlink_map = "(path \<times> path list) list"

record file_entry =
  entry_file :: file_meta
  entry_note :: "md_note option"
  entry_inlinks :: "path list"

type_synonym workspace_index = "file_entry list"

definition file_entry_new :: "file_meta \<Rightarrow> md_note option \<Rightarrow> file_entry" where
  "file_entry_new f n = \<lparr> entry_file = f, entry_note = n, entry_inlinks = [] \<rparr>"

text \<open>\<open>next_if\<close> on the notes: taken when it is the file's note.\<close>

fun next_note :: "file_meta \<Rightarrow> md_note list \<Rightarrow> md_note option \<times> md_note list" where
  "next_note f [] = (None, [])"
| "next_note f (n # rest) = (if note_path n = file_path f then (Some n, rest) else (None, n # rest))"

fun assemble :: "file_meta list \<Rightarrow> md_note list \<Rightarrow> inlink_map \<Rightarrow> workspace_index" where
  "assemble [] ns inlinks = []"
| "assemble (f # files) ns inlinks =
     (let ns1 = dropWhile (\<lambda>n. note_path n < file_path f) ns;
          (n, ns2) = next_note f ns1;
          e = file_entry_new f n
      in case map_of inlinks (file_path f) of
           Some sources \<Rightarrow> e \<lparr> entry_inlinks := sources \<rparr>
             # assemble files ns2 (AList.delete (file_path f) inlinks)
         | None \<Rightarrow> e # assemble files ns2 inlinks)"

definition entry_at :: "workspace_index \<Rightarrow> nat \<Rightarrow> file_entry option" where
  "entry_at index position = slice_get index position"

definition joined_entry :: "md_note list \<Rightarrow> inlink_map \<Rightarrow> file_meta \<Rightarrow> file_entry" where
  "joined_entry ns inlinks f = \<lparr> entry_file = f, entry_note = row_of note_path ns (file_path f),
     entry_inlinks = (case map_of inlinks (file_path f) of Some ss \<Rightarrow> ss | None \<Rightarrow> []) \<rparr>"

lemma next_note_spec:
  assumes "ascending note_path ns" "next_note f (dropWhile (\<lambda>n. note_path n < file_path f) ns) = (n, ns')"
  shows "n = row_of note_path ns (file_path f)" "ascending note_path ns'"
    and "\<And>p. file_path f < p \<Longrightarrow> row_of note_path ns' p = row_of note_path ns p"
proof -
  let ?d = "dropWhile (\<lambda>n. note_path n < file_path f) ns"
  have d: "ascending note_path ?d" "row_of note_path ?d (file_path f) = row_of note_path ns (file_path f)"
    "\<And>p. file_path f < p \<Longrightarrow> row_of note_path ?d p = row_of note_path ns p"
    using ascending_dropWhile row_of_dropWhile_less [OF assms(1)] assms(1) by auto
  have "n = row_of note_path ns (file_path f) \<and> ascending note_path ns'
    \<and> (\<forall>p. file_path f < p \<longrightarrow> row_of note_path ns' p = row_of note_path ns p)"
  proof (cases ?d)
    case Nil
    with assms(2) d show ?thesis by simp
  next
    case (Cons m ms)
    have rows: "ascending note_path (m # ms)" "row_of note_path ns (file_path f) = row_of note_path (m # ms) (file_path f)"
      "\<And>p. file_path f < p \<Longrightarrow> row_of note_path ns p = row_of note_path (m # ms) p"
      using d unfolding Cons by simp_all
    show ?thesis
    proof (cases "note_path m = file_path f")
      case True
      with assms(2) have "n = Some m" "ns' = ms" unfolding Cons by simp_all
      with True rows show ?thesis by auto
    next
      case False
      with assms(2) have n: "n = None" "ns' = m # ms" unfolding Cons by simp_all
      have "\<not> note_path m < file_path f" using Cons by (simp add: dropWhile_eq_Cons_conv)
      with False have "file_path f < note_path m" by simp
      then have "\<forall>x\<in>set (m # ms). note_path x \<noteq> file_path f" using rows(1) by fastforce
      then have "row_of note_path (m # ms) (file_path f) = None" unfolding row_of_None .
      with n rows show ?thesis by simp
    qed
  qed
  then show "n = row_of note_path ns (file_path f)" "ascending note_path ns'"
    "\<And>p. file_path f < p \<Longrightarrow> row_of note_path ns' p = row_of note_path ns p" by blast+
qed

lemma assemble_join:
  assumes "ascending file_path files" "ascending note_path ns"
  shows "assemble files ns inlinks = map (joined_entry ns inlinks) files"
  using assms
proof (induction files ns inlinks rule: assemble.induct)
  case (2 f files ns inlinks)
  obtain n ns' where n: "next_note f (dropWhile (\<lambda>n. note_path n < file_path f) ns) = (n, ns')"
    by fastforce
  note spec = next_note_spec [OF "2.prems"(2) n]
  have same: "joined_entry ns' (AList.delete (file_path f) inlinks) g = joined_entry ns inlinks g"
    "joined_entry ns' inlinks g = joined_entry ns inlinks g" if "g \<in> set files" for g
    using spec(3) [of "file_path g"] "2.prems"(1) that
    by (auto simp: joined_entry_def delete_conv')
  show ?case
    using "2.prems"(1) n spec(1,2) "2.IH" same
    by (auto simp: joined_entry_def file_entry_new_def split: option.split cong: map_cong)
qed simp

section \<open>Properties\<close>

lemma row_of_upserts:
  assumes "ascending file_path cur"
  shows "row_of file_path (changed_rows per cur) p = (case row_of file_path cur p of
      Some c \<Rightarrow> if row_of file_path per p \<noteq> Some c then Some c else None | None \<Rightarrow> None)"
  unfolding changed_rows_def row_of_filter [OF assms]
  by (auto split: option.split dest: row_of_SomeD)

lemma missing_paths:
  assumes "ascending file_path per"
  shows "p \<in> file_path ` set (missing_rows cur per)
    \<longleftrightarrow> row_of file_path per p \<noteq> None \<and> row_of file_path cur p = None"
  unfolding missing_rows_def using row_of_in [OF assms] by (force dest: row_of_SomeD)

lemma nothing_changed:
  assumes "ascending file_path cur" "ascending file_path per"
  shows "changed_rows per cur = [] \<and> missing_rows cur per = [] \<longleftrightarrow> cur = per"
proof
  assume none: "changed_rows per cur = [] \<and> missing_rows cur per = []"
  show "cur = per"
  proof (rule ascending_ext [OF assms])
    fix p
    show "row_of file_path cur p = row_of file_path per p"
      using row_of_upserts [OF assms(1), of per p] missing_paths [OF assms(2), of p cur] none
      by (cases "row_of file_path cur p") (auto split: if_splits)
  qed
next
  assume "cur = per"
  then show "changed_rows per cur = [] \<and> missing_rows cur per = []"
    using row_of_in [OF assms(1)] by (auto simp: changed_rows_def missing_rows_def filter_empty_conv)
qed

text \<open>C22. The delta of two scans is exact: replaying it on the persisted files (drop the deleted
  paths, put the upserted files in place) gives the current file of every path, no file is
  upserted that is already persisted unchanged, and the delta is empty only when nothing changed.\<close>

theorem file_delta_replays:
  assumes "ascending file_path cur" "ascending file_path per"
  shows "(\<forall>p. row_of file_path cur p =
        (if p \<in> file_path ` set (deleted (file_delta_compute cur per)) then None
         else case row_of file_path (upserted (file_delta_compute cur per)) p of
           Some f \<Rightarrow> Some f | None \<Rightarrow> row_of file_path per p))
    \<and> set (upserted (file_delta_compute cur per)) = set cur - set per
    \<and> (file_delta_is_empty (file_delta_compute cur per) \<longleftrightarrow> cur = per)"
proof (intro conjI allI)
  note spec = file_delta_spec [OF assms]
  fix p
  show "row_of file_path cur p =
        (if p \<in> file_path ` set (deleted (file_delta_compute cur per)) then None
         else case row_of file_path (upserted (file_delta_compute cur per)) p of
           Some f \<Rightarrow> Some f | None \<Rightarrow> row_of file_path per p)"
    unfolding spec file_delta.simps missing_paths [OF assms(2)] row_of_upserts [OF assms(1)]
    by (auto split: option.split)
  show "set (upserted (file_delta_compute cur per)) = set cur - set per"
    unfolding spec file_delta.simps changed_rows_def set_filter row_of_eq_Some [OF assms(2)] by blast
  show "file_delta_is_empty (file_delta_compute cur per) \<longleftrightarrow> cur = per"
    unfolding spec file_delta_is_empty_def file_delta.simps by (rule nothing_changed [OF assms])
qed

definition sample_file :: "string \<Rightarrow> int \<Rightarrow> file_meta" where
  "sample_file name modified = \<lparr> file_path = [Normal name], file_format_of = NoteFormat,
     file_created = None, file_modified = modified, file_size = 0, file_day = None \<rparr>"

definition sample_note :: "string \<Rightarrow> md_note" where
  "sample_note name = \<lparr> note_path = [Normal name], note_frontmatter = None, note_lists = [],
     note_headings = [], note_outlinks = [], note_inline = [], note_tags = [] \<rparr>"

theorem file_delta_replays_witness:
  "set (upserted (file_delta_compute [sample_file ''a'' 1, sample_file ''c'' 5]
      [sample_file ''a'' 1, sample_file ''b'' 2, sample_file ''c'' 3])) = {sample_file ''c'' 5}"
proof -
  have "ascending file_path [sample_file ''a'' 1, sample_file ''c'' 5]"
    "ascending file_path [sample_file ''a'' 1, sample_file ''b'' 2, sample_file ''c'' 3]"
    by code_simp+
  from file_delta_replays [OF this] show ?thesis by (auto simp: sample_file_def)
qed

text \<open>Assembling the index is the join by path: one entry per scanned file, in path order,
  with the parsed note of its path and the inbound links of its path, whatever notes and
  links of other paths are present.\<close>

theorem assemble_joins_by_path:
  assumes "ascending file_path files" "ascending note_path ns" "i < length files"
  shows "length (assemble files ns inlinks) = length files
    \<and> entry_at (assemble files ns inlinks) i = Some \<lparr> entry_file = files ! i,
        entry_note = row_of note_path ns (file_path (files ! i)),
        entry_inlinks = (case map_of inlinks (file_path (files ! i)) of Some ss \<Rightarrow> ss | None \<Rightarrow> []) \<rparr>"
  unfolding assemble_join [OF assms(1,2)] entry_at_def slice_get_def
  using assms(3) by (simp add: joined_entry_def)

theorem assemble_joins_by_path_witness:
  "entry_at (assemble [sample_file ''a'' 1, sample_file ''b'' 2] [sample_note ''Z'', sample_note ''b'']
      [([Normal ''b''], [[Normal ''a'']])]) 1
   = Some \<lparr> entry_file = sample_file ''b'' 2, entry_note = Some (sample_note ''b''),
       entry_inlinks = [[Normal ''a'']] \<rparr>"
proof -
  have "ascending file_path [sample_file ''a'' 1, sample_file ''b'' 2]"
    "ascending note_path [sample_note ''Z'', sample_note ''b'']"
    "1 < length [sample_file ''a'' 1, sample_file ''b'' 2]"
    by code_simp+
  from assemble_joins_by_path [OF this, of "[([Normal ''b''], [[Normal ''a'']])]"] show ?thesis
    by (simp add: sample_file_def sample_note_def del: assemble.simps)
qed

end
