(* ===== verification/Nearest.thy ===== *)
theory Nearest
  imports Paths "HOL-Library.Multiset"
begin

text \<open>
  \<open>src/index/trie.rs\<close>: the nearest file of a basename, by a linear scan or, from
  \<open>TRIE_THRESHOLD\<close> candidates on, by a folder trie with precomputed subtree aggregates.  The
  arena of the \<open>indextree\<close> crate is the list of its nodes in insertion order, a \<open>NodeId\<close> is an
  index into it, and a node lists its parent and its children in the order they were appended.
\<close>

section \<open>Aggregates\<close>

record nearest_candidate =
  min_depth :: nat
  cand_count :: nat
  cand_sample :: "path option"

definition empty_candidate :: nearest_candidate where
  "empty_candidate = \<lparr> min_depth = usize_max, cand_count = 0, cand_sample = None \<rparr>"

definition one_candidate :: "nat \<Rightarrow> path \<Rightarrow> nearest_candidate" where
  "one_candidate depth p = \<lparr> min_depth = depth, cand_count = 1, cand_sample = Some p \<rparr>"

definition merge_candidate :: "nearest_candidate \<Rightarrow> nearest_candidate \<Rightarrow> nearest_candidate" where
  "merge_candidate a b = (case compare (min_depth a) (min_depth b) of
       Less \<Rightarrow> a
     | Greater \<Rightarrow> b
     | Equal \<Rightarrow> \<lparr> min_depth = min_depth a, cand_count = sat_add (cand_count a) (cand_count b),
         cand_sample = (case cand_sample a of Some p \<Rightarrow> Some p | None \<Rightarrow> cand_sample b) \<rparr>)"

record aggregate =
  combined :: nearest_candidate
  by_ext :: "(string \<times> nearest_candidate) list"

definition empty_aggregate :: aggregate where
  "empty_aggregate = \<lparr> combined = empty_candidate, by_ext = [] \<rparr>"

definition from_local :: "nat \<Rightarrow> string option \<Rightarrow> path \<Rightarrow> aggregate" where
  "from_local depth ext p = \<lparr> combined = one_candidate depth p,
     by_ext = (case ext of Some e \<Rightarrow> [(e, one_candidate depth p)] | None \<Rightarrow> []) \<rparr>"

fun merge_ext ::
  "(string \<times> nearest_candidate) list \<Rightarrow> string \<Rightarrow> nearest_candidate \<Rightarrow> (string \<times> nearest_candidate) list"
where
  "merge_ext [] ext agg = [(ext, agg)]"
| "merge_ext ((e, c) # es) ext agg =
     (if e = ext then (e, merge_candidate c agg) # es else (e, c) # merge_ext es ext agg)"

definition merge_aggregate :: "aggregate \<Rightarrow> aggregate \<Rightarrow> aggregate" where
  "merge_aggregate a b = \<lparr> combined = merge_candidate (combined a) (combined b),
     by_ext = fold (\<lambda>(ext, agg) es. merge_ext es ext agg) (by_ext b) (by_ext a) \<rparr>"

definition lookup_aggregate :: "aggregate \<Rightarrow> string option \<Rightarrow> nearest_candidate" where
  "lookup_aggregate a target_ext = (case target_ext of
       None \<Rightarrow> combined a
     | Some ext \<Rightarrow> (case map_of (by_ext a) ext of Some c \<Rightarrow> c | None \<Rightarrow> empty_candidate))"

section \<open>The folder trie\<close>

type_synonym node_id = nat

record trie_node =
  node_depth :: nat
  node_parent :: "node_id option"
  node_children :: "node_id list"
  node_locals :: "(string option \<times> path) list"
  node_full :: aggregate
  node_excluding :: "(node_id \<times> aggregate) list"

type_synonym arena = "trie_node list"

type_synonym folder_map = "path \<Rightarrow> node_id option"

definition new_node_data :: "nat \<Rightarrow> trie_node" where
  "new_node_data depth = \<lparr> node_depth = depth, node_parent = None, node_children = [],
     node_locals = [], node_full = empty_aggregate, node_excluding = [] \<rparr>"

definition append_child :: "node_id \<Rightarrow> node_id \<Rightarrow> arena \<Rightarrow> arena" where
  "append_child parent_id c arena =
     (let arena1 = arena[c := (arena ! c) \<lparr> node_parent := Some parent_id \<rparr>]
      in arena1[parent_id := (arena1 ! parent_id)
           \<lparr> node_children := node_children (arena1 ! parent_id) @ [c] \<rparr>])"

text \<open>The recursion ends at a folder that has a node; a folder without any such ancestor would
  recurse forever, which is the value \<open>None\<close>.\<close>

partial_function (option) ensure_folder_node ::
  "arena \<Rightarrow> folder_map \<Rightarrow> path \<Rightarrow> (arena \<times> folder_map \<times> node_id) option"
where
  [code]: "ensure_folder_node arena by_folder folder = (case by_folder folder of
       Some i \<Rightarrow> Some (arena, by_folder, i)
     | None \<Rightarrow> Option.bind (ensure_folder_node arena by_folder (folder_of folder))
         (\<lambda>(arena1, by_folder1, parent_id).
           let depth = sat_add (node_depth (arena1 ! parent_id)) 1;
               i = length arena1;
               arena2 = append_child parent_id i (arena1 @ [new_node_data depth])
           in Some (arena2, by_folder1(folder \<mapsto> i), i)))"

definition push_local :: "node_id \<Rightarrow> string option \<Rightarrow> path \<Rightarrow> arena \<Rightarrow> arena" where
  "push_local i ext p arena =
     arena[i := (arena ! i) \<lparr> node_locals := node_locals (arena ! i) @ [(ext, p)] \<rparr>]"

text \<open>The prefix and suffix sweeps.\<close>

fun prefix_aggs :: "aggregate \<Rightarrow> aggregate list \<Rightarrow> aggregate list" where
  "prefix_aggs acc [] = [acc]"
| "prefix_aggs acc (a # aggs) = acc # prefix_aggs (merge_aggregate acc a) aggs"

fun suffix_aggs :: "aggregate list \<Rightarrow> aggregate list" where
  "suffix_aggs [] = [empty_aggregate]"
| "suffix_aggs (a # aggs) = (let after = suffix_aggs aggs in merge_aggregate a (hd after) # after)"

definition get_agg :: "aggregate list \<Rightarrow> nat \<Rightarrow> aggregate" where
  "get_agg aggs i = (case slice_get aggs i of Some a \<Rightarrow> a | None \<Rightarrow> empty_aggregate)"

definition excluding_per_child ::
  "aggregate \<Rightarrow> node_id list \<Rightarrow> aggregate list \<Rightarrow> (node_id \<times> aggregate) list"
where
  "excluding_per_child local_agg children child_aggs =
     (let pre = prefix_aggs empty_aggregate child_aggs;
          suf = suffix_aggs child_aggs
      in map (\<lambda>(i, c). (c, merge_aggregate (merge_aggregate (get_agg pre i) (get_agg suf (sat_add i 1)))
             local_agg)) (enumerate 0 children))"

definition local_aggregate :: "trie_node \<Rightarrow> aggregate" where
  "local_aggregate node = fold (\<lambda>(ext, p) agg. merge_aggregate agg (from_local (node_depth node) ext p))
     (node_locals node) empty_aggregate"

definition aggregate_node :: "node_id \<Rightarrow> arena \<Rightarrow> arena" where
  "aggregate_node i arena =
     (let node = arena ! i;
          local_agg = local_aggregate node;
          child_aggs = map (\<lambda>c. node_full (arena ! c)) (node_children node);
          full = fold (\<lambda>a acc. merge_aggregate acc a) child_aggs local_agg;
          excl = excluding_per_child local_agg (node_children node) child_aggs
      in arena[i := node \<lparr> node_full := full, node_excluding := excl \<rparr>])"

definition aggregate_arena :: "arena \<Rightarrow> arena" where
  "aggregate_arena arena = fold aggregate_node (rev [0..<length arena]) arena"

record trie =
  trie_arena :: arena
  trie_folders :: folder_map
  trie_root :: node_id

fun insert_candidates :: "path list \<Rightarrow> arena \<Rightarrow> folder_map \<Rightarrow> (arena \<times> folder_map) option" where
  "insert_candidates [] arena by_folder = Some (arena, by_folder)"
| "insert_candidates (p # ps) arena by_folder =
     Option.bind (ensure_folder_node arena by_folder (folder_of p)) (\<lambda>(arena1, by_folder1, i).
       insert_candidates ps (push_local i (extension p) p arena1) by_folder1)"

definition trie_build :: "path list \<Rightarrow> trie option" where
  "trie_build candidates =
     Option.bind (insert_candidates candidates [new_node_data 0] ((\<lambda>_. None)([] \<mapsto> 0)))
       (\<lambda>(arena, by_folder). Some \<lparr> trie_arena = aggregate_arena arena, trie_folders = by_folder,
          trie_root = 0 \<rparr>)"

section \<open>Queries\<close>

function start_node :: "folder_map \<Rightarrow> node_id \<Rightarrow> path \<Rightarrow> nat \<Rightarrow> node_id \<times> nat" where
  "start_node by_folder root probe extra_up = (case by_folder probe of
       Some i \<Rightarrow> (i, extra_up)
     | None \<Rightarrow> (case path_parent probe of
           Some up \<Rightarrow> start_node by_folder root up (sat_add extra_up 1)
         | None \<Rightarrow> (root, extra_up)))"
  by pat_completeness auto

termination
  by (relation "measure (\<lambda>(_, _, probe, _). length probe)")
    (auto simp: path_parent_def split: if_splits)

declare start_node.simps [simp del]

partial_function (option) climb ::
  "arena \<Rightarrow> string option \<Rightarrow> node_id option \<Rightarrow> node_id option \<Rightarrow> nat \<Rightarrow> nearest_candidate
    \<Rightarrow> nearest_candidate option"
where
  [code]: "climb arena ext current prev_child up_steps best = (case current of
       None \<Rightarrow> Some best
     | Some i \<Rightarrow>
         let node = arena ! i;
             agg = (case prev_child of
                 None \<Rightarrow> lookup_aggregate (node_full node) ext
               | Some c \<Rightarrow> (case map_of (node_excluding node) c of
                     Some a \<Rightarrow> lookup_aggregate a ext
                   | None \<Rightarrow> empty_candidate));
             best' = (if cand_count agg > 0
               then merge_candidate best \<lparr> min_depth = sat_add up_steps (min_depth agg) - node_depth node,
                 cand_count = cand_count agg, cand_sample = cand_sample agg \<rparr>
               else best)
         in climb arena ext (node_parent node) (Some i) (sat_add up_steps 1) best')"

definition trie_nearest :: "trie \<Rightarrow> path \<Rightarrow> string option \<Rightarrow> path option option" where
  "trie_nearest t src ext =
     (let (start, extra_up) = start_node (trie_folders t) (trie_root t) (folder_of src) 0
      in Option.bind (climb (trie_arena t) ext (Some start) None extra_up empty_candidate)
        (\<lambda>best. Some (if cand_count best = 1 then cand_sample best else None)))"

fun nearest_scan ::
  "path list \<Rightarrow> path \<Rightarrow> string option \<Rightarrow> (nat \<times> path) option \<Rightarrow> bool \<Rightarrow> (nat \<times> path) option \<times> bool"
where
  "nearest_scan [] src target_ext nearest tied = (nearest, tied)"
| "nearest_scan (candidate # cs) src target_ext nearest tied =
     (if target_ext \<noteq> None \<and> extension candidate \<noteq> target_ext
      then nearest_scan cs src target_ext nearest tied
      else let distance = distance_to (folder_of src) (folder_of candidate) in
        case nearest of
          Some (best, p) \<Rightarrow>
            if distance > best then nearest_scan cs src target_ext nearest tied
            else if distance = best then nearest_scan cs src target_ext nearest True
            else nearest_scan cs src target_ext (Some (distance, candidate)) False
        | None \<Rightarrow> nearest_scan cs src target_ext (Some (distance, candidate)) False)"

definition nearest_flat :: "path list \<Rightarrow> path \<Rightarrow> string option \<Rightarrow> path option" where
  "nearest_flat candidates src target_ext =
     (let (nearest, tied) = nearest_scan candidates src target_ext None False
      in if tied then None else map_option snd nearest)"

datatype basename_index = Flat "path list" | Trie trie

definition trie_threshold :: nat where "trie_threshold = 64"

definition basename_index_build :: "path list \<Rightarrow> basename_index option" where
  "basename_index_build candidates =
     (if length candidates \<ge> trie_threshold then map_option Trie (trie_build candidates)
      else Some (Flat candidates))"

fun basename_nearest :: "basename_index \<Rightarrow> path \<Rightarrow> string option \<Rightarrow> path option option" where
  "basename_nearest (Flat candidates) src ext = Some (nearest_flat candidates src ext)"
| "basename_nearest (Trie t) src ext = trie_nearest t src ext"

section \<open>What an aggregate stands for\<close>

text \<open>A candidate record stands for a multiset of candidates with their depths: the least depth,
  the number of candidates at it, and one of them.\<close>

definition at_depth :: "nat \<Rightarrow> (nat \<times> path) multiset \<Rightarrow> (nat \<times> path) multiset" where
  "at_depth d M = filter_mset (\<lambda>x. fst x = d) M"

definition stands :: "nearest_candidate \<Rightarrow> (nat \<times> path) multiset \<Rightarrow> bool" where
  "stands c M \<longleftrightarrow> (\<forall>x\<in>#M. min_depth c \<le> fst x \<and> fst x \<le> usize_max)
     \<and> (if M = {#} then min_depth c = usize_max else at_depth (min_depth c) M \<noteq> {#})
     \<and> cand_count c = min (size (at_depth (min_depth c) M)) usize_max
     \<and> (case cand_sample c of None \<Rightarrow> M = {#} | Some p \<Rightarrow> (min_depth c, p) \<in># M)"

lemma at_depth_empty: "\<forall>x\<in>#M. d < fst x \<Longrightarrow> at_depth d M = {#}"
  unfolding at_depth_def by (induction M) auto

lemma at_depth_union [simp]: "at_depth d (M + N) = at_depth d M + at_depth d N"
  by (simp add: at_depth_def)

lemma at_depth_none [simp]: "at_depth d {#} = {#}"
  by (simp add: at_depth_def)

lemma stands_empty [simp]: "stands c {#} \<longleftrightarrow> c = empty_candidate"
  by (cases c) (auto simp: stands_def empty_candidate_def split: option.splits)

lemma stands_one: "d \<le> usize_max \<Longrightarrow> stands (one_candidate d p) {#(d, p)#}"
  by (simp add: stands_def one_candidate_def at_depth_def usize_max_def)

lemma stands_empty_candidate: "stands empty_candidate M \<Longrightarrow> M = {#}"
  by (simp add: stands_def empty_candidate_def)

lemma stands_bound:
  assumes "stands c M"
  shows "min_depth c \<le> usize_max"
proof (cases "M = {#}")
  case False
  then obtain x where "x \<in># M" by blast
  with assms show ?thesis by (force simp: stands_def)
qed (use assms in \<open>simp add: empty_candidate_def\<close>)

lemma stands_count: "stands c M \<Longrightarrow> 0 < cand_count c \<longleftrightarrow> M \<noteq> {#}"
  by (cases "M = {#}") (auto simp: stands_def usize_max_def empty_candidate_def nonempty_has_size)

lemma merge_candidate_cases:
  "min_depth a < min_depth b \<Longrightarrow> merge_candidate a b = a"
  "min_depth b < min_depth a \<Longrightarrow> merge_candidate a b = b"
  "min_depth a = min_depth b \<Longrightarrow> merge_candidate a b = \<lparr> min_depth = min_depth a,
     cand_count = sat_add (cand_count a) (cand_count b),
     cand_sample = (case cand_sample a of Some p \<Rightarrow> Some p | None \<Rightarrow> cand_sample b) \<rparr>"
  by (simp_all add: merge_candidate_def compare_def)

lemma merge_empty_candidate:
  "stands c M \<Longrightarrow> merge_candidate c empty_candidate = c"
  "stands c M \<Longrightarrow> merge_candidate empty_candidate c = c"
proof -
  assume c: "stands c M"
  have "cand_count c \<le> usize_max" using c by (auto simp: stands_def)
  moreover have "min_depth c < usize_max \<or> min_depth c = usize_max" using stands_bound [OF c] by auto
  ultimately show "merge_candidate c empty_candidate = c" "merge_candidate empty_candidate c = c"
    by (cases c; auto simp: merge_candidate_cases empty_candidate_def sat_add_def split: option.split)+
qed

lemma stands_merge:
  assumes a: "stands a M" and b: "stands b N"
  shows "stands (merge_candidate a b) (M + N)"
proof (cases "M = {#} \<or> N = {#}")
  case True
  then show ?thesis using merge_empty_candidate a b by auto
next
  case False
  then have M: "\<forall>x\<in>#M. min_depth a \<le> fst x \<and> fst x \<le> usize_max" "at_depth (min_depth a) M \<noteq> {#}"
      "cand_count a = min (size (at_depth (min_depth a) M)) usize_max"
    and N: "\<forall>x\<in>#N. min_depth b \<le> fst x \<and> fst x \<le> usize_max" "at_depth (min_depth b) N \<noteq> {#}"
      "cand_count b = min (size (at_depth (min_depth b) N)) usize_max"
    using a b by (auto simp: stands_def)
  obtain p q where p: "cand_sample a = Some p" "(min_depth a, p) \<in># M"
    and q: "cand_sample b = Some q" "(min_depth b, q) \<in># N"
    using a b False by (auto simp: stands_def split: option.splits)
  consider "min_depth a < min_depth b" | "min_depth b < min_depth a" | "min_depth a = min_depth b"
    by linarith
  then show ?thesis
  proof cases
    case 1
    then have "at_depth (min_depth a) N = {#}" using N(1) by (intro at_depth_empty) force
    then show ?thesis
      unfolding merge_candidate_cases(1) [OF 1] using 1 M N p False by (force simp: stands_def)
  next
    case 2
    then have "at_depth (min_depth b) M = {#}" using M(1) by (intro at_depth_empty) force
    then show ?thesis
      unfolding merge_candidate_cases(2) [OF 2] using 2 M N q False by (force simp: stands_def)
  next
    case 3
    then show ?thesis
      unfolding merge_candidate_cases(3) [OF 3] using M N p False
      by (auto simp: stands_def sat_add_def)
  qed
qed

text \<open>Moving every candidate by the same number of steps.\<close>

definition shift :: "nat \<Rightarrow> nat \<Rightarrow> nat \<times> path \<Rightarrow> nat \<times> path" where
  "shift up depth x = (up + fst x - depth, snd x)"

lemma at_depth_shift:
  assumes "\<forall>x\<in>#M. depth \<le> fst x" "depth \<le> d"
  shows "at_depth (up + d - depth) (image_mset (shift up depth) M) = image_mset (shift up depth) (at_depth d M)"
proof -
  have "filter_mset (\<lambda>x. fst (shift up depth x) = up + d - depth) M = filter_mset (\<lambda>x. fst x = d) M"
    using assms by (intro filter_mset_cong) (auto simp: shift_def)
  then show ?thesis by (simp add: at_depth_def filter_mset_image_mset)
qed

lemma stands_shift:
  assumes c: "stands c M" and M: "M \<noteq> {#}" "\<forall>x\<in>#M. depth \<le> fst x \<and> up + fst x \<le> usize_max"
  shows "stands \<lparr> min_depth = sat_add up (min_depth c) - depth, cand_count = cand_count c,
      cand_sample = cand_sample c \<rparr> (image_mset (shift up depth) M)"
proof -
  obtain p where p: "cand_sample c = Some p" "(min_depth c, p) \<in># M"
    using c M(1) by (auto simp: stands_def split: option.splits)
  then have "depth \<le> min_depth c" "sat_add up (min_depth c) = up + min_depth c"
    using M(2) by (auto intro!: sat_add_exact)
  moreover from p have "(up + min_depth c - depth, p) \<in># image_mset (shift up depth) M"
    by (auto simp: shift_def image_iff intro!: bexI [of _ "(min_depth c, p)"])
  ultimately show ?thesis
    using c M p at_depth_shift [of M depth "min_depth c" up]
    by (auto simp: stands_def shift_def [of up depth] diff_le_mono)
qed

definition of_ext :: "string option \<Rightarrow> (nat \<times> path) multiset \<Rightarrow> (nat \<times> path) multiset" where
  "of_ext ext M = (if ext = None then M else filter_mset (\<lambda>x. extension (snd x) = ext) M)"

definition agg_stands :: "aggregate \<Rightarrow> (nat \<times> path) multiset \<Rightarrow> bool" where
  "agg_stands a M \<longleftrightarrow> distinct (map fst (by_ext a)) \<and> (\<forall>ext. stands (lookup_aggregate a ext) (of_ext ext M))"

lemma of_ext_union: "of_ext ext (M + N) = of_ext ext M + of_ext ext N"
  by (simp add: of_ext_def)

lemma of_ext_image:
  "(\<And>x. snd (f x) = snd x) \<Longrightarrow> of_ext ext (image_mset f M) = image_mset f (of_ext ext M)"
  by (simp add: of_ext_def filter_mset_image_mset)

lemma merge_ext_keys: "fst ` set (merge_ext es ext c) = insert ext (fst ` set es)"
  by (induction es ext c rule: merge_ext.induct) auto

lemma merge_ext_distinct: "distinct (map fst es) \<Longrightarrow> distinct (map fst (merge_ext es ext c))"
  by (induction es ext c rule: merge_ext.induct) (auto simp: merge_ext_keys)

lemma map_of_merge_ext:
  "map_of (merge_ext es ext c) e = (if e = ext then Some (case map_of es ext of
      Some c' \<Rightarrow> merge_candidate c' c | None \<Rightarrow> c) else map_of es e)"
  by (induction es ext c rule: merge_ext.induct) auto

lemma fold_merge_ext:
  assumes "distinct (map fst bs)" "distinct (map fst as)"
  shows "distinct (map fst (fold (\<lambda>(ext, c) es. merge_ext es ext c) bs as))
    \<and> map_of (fold (\<lambda>(ext, c) es. merge_ext es ext c) bs as) e = (case map_of bs e of
        None \<Rightarrow> map_of as e
      | Some c \<Rightarrow> Some (case map_of as e of Some c' \<Rightarrow> merge_candidate c' c | None \<Rightarrow> c))"
  using assms
proof (induction bs arbitrary: as)
  case (Cons b bs)
  obtain ext c where b: "b = (ext, c)" by (cases b)
  have "map_of bs ext = None" using Cons.prems(1) b by (simp add: map_of_eq_None_iff)
  then show ?case
    using Cons.IH [of "merge_ext as ext c"] Cons.prems merge_ext_distinct [of as ext c] b
    by (auto simp: map_of_merge_ext split: option.split)
qed simp

lemma agg_stands_empty: "agg_stands empty_aggregate {#}"
  by (auto simp: agg_stands_def empty_aggregate_def lookup_aggregate_def of_ext_def split: option.split)

lemma agg_stands_local: "d \<le> usize_max \<Longrightarrow> agg_stands (from_local d (extension p) p) {#(d, p)#}"
  using stands_one [of d p]
  by (auto simp: agg_stands_def from_local_def lookup_aggregate_def of_ext_def split: option.splits)

lemma agg_stands_merge:
  assumes "agg_stands a M" "agg_stands b N"
  shows "agg_stands (merge_aggregate a b) (M + N)"
proof -
  have distinct: "distinct (map fst (by_ext b))" "distinct (map fst (by_ext a))"
    using assms by (auto simp: agg_stands_def)
  note ext = fold_merge_ext [OF distinct]
  have "stands (lookup_aggregate (merge_aggregate a b) t) (of_ext t M + of_ext t N)" for t
  proof (cases t)
    case None
    have "stands (combined a) M" "stands (combined b) N"
      using assms by (auto simp: agg_stands_def lookup_aggregate_def of_ext_def dest: spec [of _ None])
    then show ?thesis
      using None by (simp add: lookup_aggregate_def merge_aggregate_def of_ext_def stands_merge)
  next
    case (Some e)
    have a: "stands (lookup_aggregate a t) (of_ext t M)" and b: "stands (lookup_aggregate b t) (of_ext t N)"
      using assms by (auto simp: agg_stands_def)
    have "lookup_aggregate (merge_aggregate a b) t
        = merge_candidate (lookup_aggregate a t) (lookup_aggregate b t)"
      using ext [of e] merge_empty_candidate [OF a] merge_empty_candidate [OF b] Some
      by (auto simp: lookup_aggregate_def merge_aggregate_def split: option.splits)
    then show ?thesis using stands_merge [OF a b] by simp
  qed
  with ext [of undefined] show ?thesis
    by (simp add: agg_stands_def of_ext_union) (simp add: merge_aggregate_def)
qed

section \<open>The shape of the trie\<close>

text \<open>\<open>fs\<close> lists the folder of every node.  The folders are distinct and closed under parents,
  which come first; links, depths and the folder map agree with them.\<close>

definition node_shape :: "path list \<Rightarrow> arena \<Rightarrow> node_id \<Rightarrow> bool" where
  "node_shape fs arena i \<longleftrightarrow> node_depth (arena ! i) = length (fs ! i)
     \<and> distinct (node_children (arena ! i))
     \<and> set (node_children (arena ! i)) = {c. c < length fs \<and> c \<noteq> 0 \<and> butlast (fs ! c) = fs ! i}
     \<and> (if i = 0 then node_parent (arena ! i) = None
        else fs ! i \<noteq> [] \<and> (\<exists>up<i. fs ! up = butlast (fs ! i) \<and> node_parent (arena ! i) = Some up))"

definition trie_shape :: "path list \<Rightarrow> arena \<Rightarrow> folder_map \<Rightarrow> bool" where
  "trie_shape fs arena by_folder \<longleftrightarrow> length fs = length arena \<and> fs \<noteq> [] \<and> fs ! 0 = [] \<and> distinct fs
     \<and> (\<forall>f i. by_folder f = Some i \<longleftrightarrow> i < length fs \<and> fs ! i = f)
     \<and> (\<forall>i<length fs. node_shape fs arena i)"

lemma trie_shapeD:
  assumes "trie_shape fs arena by_folder"
  shows "length arena = length fs" "fs \<noteq> []" "fs ! 0 = []" "distinct fs"
    "by_folder f = Some i \<longleftrightarrow> i < length fs \<and> fs ! i = f"
    "i < length fs \<Longrightarrow> node_shape fs arena i"
  using assms by (auto simp: trie_shape_def)

lemma folder_map_None: "trie_shape fs arena by_folder \<Longrightarrow> by_folder f = None \<longleftrightarrow> f \<notin> set fs"
  using trie_shapeD(5) [of fs arena by_folder f] by (cases "by_folder f") (auto simp: in_set_conv_nth)

lemma node_shapeD:
  assumes "node_shape fs arena i"
  shows "node_depth (arena ! i) = length (fs ! i)" "distinct (node_children (arena ! i))"
    "c \<in> set (node_children (arena ! i)) \<longleftrightarrow> c < length fs \<and> c \<noteq> 0 \<and> butlast (fs ! c) = fs ! i"
  using assms by (auto simp: node_shape_def)

lemma folder_of_butlast:
  assumes "RootDir \<notin> set p"
  shows "folder_of p = butlast p"
proof (cases "p = []")
  case False
  then have "last p \<noteq> RootDir" using assms last_in_set [of p] by metis
  with False show ?thesis by (simp add: folder_of_def path_parent_def)
qed (simp add: folder_of_def path_parent_def)

lemma append_child_nth:
  assumes "up < i" "length arena = i"
  shows "append_child up i (arena @ [n]) ! j = (if j = i then n \<lparr> node_parent := Some up \<rparr>
      else if j = up then (arena ! up) \<lparr> node_children := node_children (arena ! up) @ [i] \<rparr>
      else (arena @ [n]) ! j)"
    "length (append_child up i (arena @ [n])) = Suc i"
  using assms by (auto simp: append_child_def Let_def nth_list_update nth_append)

text \<open>Adding the node of a folder whose parent has one.\<close>

lemma trie_shape_append:
  assumes shape: "trie_shape fs arena by_folder" and up: "up < length fs" "fs ! up = butlast f"
    and f: "f \<notin> set fs" "f \<noteq> []" "length f = d"
  shows "trie_shape (fs @ [f]) (append_child up (length fs) (arena @ [new_node_data d]))
    (by_folder(f \<mapsto> length fs))"
proof -
  let ?fs = "fs @ [f]" and ?arena = "append_child up (length fs) (arena @ [new_node_data d])"
  note D = trie_shapeD [OF shape]
  note nth = append_child_nth [OF up(1) D(1), of "new_node_data d"]
  have maps: "(by_folder(f \<mapsto> length fs)) g = Some i \<longleftrightarrow> i < length ?fs \<and> ?fs ! i = g" for g i
    using D(5) [of g i] f(1) by (auto simp: nth_append less_Suc_eq in_set_conv_nth)
  have old: "node_shape ?fs ?arena i" if i: "i < length fs" for i
  proof -
    note S = node_shapeD [OF D(6) [OF i]]
    have children: "set (node_children (?arena ! i)) = {c. c < length ?fs \<and> c \<noteq> 0 \<and> butlast (?fs ! c) = ?fs ! i}"
    proof (cases "i = up")
      case True
      then have "set (node_children (?arena ! i)) = insert (length fs) (set (node_children (arena ! i)))"
        using i by (simp add: nth)
      also have "\<dots> = {c. c < length ?fs \<and> c \<noteq> 0 \<and> butlast (?fs ! c) = ?fs ! i}"
      proof (rule set_eqI)
        fix c
        have "c < length ?fs \<longleftrightarrow> c < length fs \<or> c = length fs" "?fs ! i = fs ! i" using i by (auto simp: nth_append)
        then show "c \<in> insert (length fs) (set (node_children (arena ! i)))
            \<longleftrightarrow> c \<in> {c. c < length ?fs \<and> c \<noteq> 0 \<and> butlast (?fs ! c) = ?fs ! i}"
          using S(3) [of c] up D(2) True by (cases "c = length fs") (simp_all add: nth_append)
      qed
      finally show ?thesis .
    next
      case False
      then have same: "node_children (?arena ! i) = node_children (arena ! i)"
        using i by (simp add: nth nth_append D(1))
      have "butlast f \<noteq> fs ! i"
        using False up i D(4) by (simp add: nth_eq_iff_index_eq flip: up(2))
      have "c \<in> set (node_children (arena ! i))
          \<longleftrightarrow> c \<in> {c. c < length ?fs \<and> c \<noteq> 0 \<and> butlast (?fs ! c) = ?fs ! i}" for c
      proof -
        have "c < length ?fs \<longleftrightarrow> c < length fs \<or> c = length fs" "?fs ! i = fs ! i" using i by (auto simp: nth_append)
        then show ?thesis
          using S(3) [of c] \<open>butlast f \<noteq> fs ! i\<close> by (cases "c = length fs") (simp_all add: nth_append)
      qed
      then show ?thesis unfolding same by (intro set_eqI)
    qed
    have "distinct (node_children (?arena ! i))"
      using S(2,3) i by (auto simp: nth nth_append D(1))
    moreover have parent: "node_parent (?arena ! i) = node_parent (arena ! i)"
      and depth: "node_depth (?arena ! i) = length (?fs ! i)"
      using S(1) i by (auto simp: nth nth_append D(1))
    moreover have "if i = 0 then node_parent (?arena ! i) = None else ?fs ! i \<noteq> []
        \<and> (\<exists>up<i. ?fs ! up = butlast (?fs ! i) \<and> node_parent (?arena ! i) = Some up)"
    proof (cases "i = 0")
      case True
      with D(6) [OF i] parent show ?thesis by (simp add: node_shape_def)
    next
      case False
      with D(6) [OF i] obtain u where "fs ! i \<noteq> []" "u < i" "fs ! u = butlast (fs ! i)"
        "node_parent (arena ! i) = Some u"
        by (auto simp: node_shape_def)
      with False i parent show ?thesis by (auto simp: nth_append intro!: exI [of _ u])
    qed
    ultimately show ?thesis unfolding node_shape_def using children by blast
  qed
  moreover have "node_shape ?fs ?arena (length fs)"
  proof -
    have "butlast (?fs ! c) \<noteq> f" if c: "c < length ?fs" "c \<noteq> 0" for c
    proof (cases "c = length fs")
      case False
      with c have "c < length fs" by simp
      from D(6) [OF this] c(2) obtain u where "u < c" "fs ! u = butlast (fs ! c)"
        by (auto simp: node_shape_def)
      then show ?thesis using \<open>c < length fs\<close> f(1) nth_mem [of u fs] by (auto simp: nth_append)
    next
      case True
      have "length (butlast f) \<noteq> length f" using f(2) by (cases f) simp_all
      then show ?thesis using True by (metis nth_append_length)
    qed
    then have none: "{c. c < length ?fs \<and> c \<noteq> 0 \<and> butlast (?fs ! c) = f} = {}" by blast
    have node: "?arena ! length fs = (new_node_data d) \<lparr> node_parent := Some up \<rparr>"
      using nth(1) [of "length fs"] by simp
    have "?fs ! length fs = f" "?fs ! up = butlast f" using up by (simp_all add: nth_append)
    then show ?thesis
      unfolding node_shape_def node using up f D(2) none
      by (simp add: new_node_data_def del: nth_append_length)
  qed
  ultimately show ?thesis
    using D(2-4) f(1) maps by (auto simp: trie_shape_def nth less_Suc_eq nth_append)
qed

lemma trie_shape_root: "trie_shape [[]] [new_node_data 0] ((\<lambda>_. None)([] \<mapsto> 0))"
  by (auto simp: trie_shape_def node_shape_def new_node_data_def)

lemma ensure_folder_node_found:
  assumes "trie_shape fs arena by_folder" "by_folder f = Some i"
  shows "\<exists>fs' arena' by_folder' i. ensure_folder_node arena by_folder f = Some (arena', by_folder', i)
    \<and> trie_shape (fs @ fs') arena' by_folder' \<and> i < length (fs @ fs') \<and> (fs @ fs') ! i = f
    \<and> (\<forall>g\<in>set fs'. prefix g f)
    \<and> (\<forall>j<length (fs @ fs'). node_locals (arena' ! j) = (if j < length fs then node_locals (arena ! j) else []))"
proof -
  have "ensure_folder_node arena by_folder f = Some (arena, by_folder, i)"
    using assms(2) by (subst ensure_folder_node.simps) simp
  moreover have "i < length fs" "fs ! i = f" using assms trie_shapeD(5) by blast+
  ultimately show ?thesis
    using assms(1) by (intro exI [of _ "[]"] exI [of _ arena] exI [of _ by_folder] exI [of _ i]) simp
qed

text \<open>The recursion returns, on every folder: the root folder always has a node.\<close>

lemma ensure_folder_node_ok:
  assumes "trie_shape fs arena by_folder" "RootDir \<notin> set f" "length f \<le> usize_max"
  shows "\<exists>fs' arena' by_folder' i. ensure_folder_node arena by_folder f = Some (arena', by_folder', i)
    \<and> trie_shape (fs @ fs') arena' by_folder' \<and> i < length (fs @ fs') \<and> (fs @ fs') ! i = f
    \<and> (\<forall>g\<in>set fs'. prefix g f)
    \<and> (\<forall>j<length (fs @ fs'). node_locals (arena' ! j) = (if j < length fs then node_locals (arena ! j) else []))"
  using assms(2,3)
proof (induction f rule: rev_induct)
  case Nil
  have "by_folder [] = Some 0" using trie_shapeD(2,3,5) [OF assms(1)] by auto
  then show ?case by (rule ensure_folder_node_found [OF assms(1)])
next
  case (snoc x f)
  show ?case
  proof (cases "by_folder (f @ [x])")
    case (Some i)
    then show ?thesis by (rule ensure_folder_node_found [OF assms(1)])
  next
    case None
    from snoc obtain fs1 arena1 by_folder1 up
      where ens: "ensure_folder_node arena by_folder f = Some (arena1, by_folder1, up)"
      and shape: "trie_shape (fs @ fs1) arena1 by_folder1"
      and up: "up < length (fs @ fs1)" "(fs @ fs1) ! up = f" and pre: "\<forall>g\<in>set fs1. prefix g f"
      and locals: "\<forall>j<length (fs @ fs1). node_locals (arena1 ! j)
        = (if j < length fs then node_locals (arena ! j) else [])"
      by fastforce
    have folder: "folder_of (f @ [x]) = f" using snoc.prems(1) by (simp add: folder_of_butlast)
    have new: "f @ [x] \<notin> set (fs @ fs1)"
      using None folder_map_None [OF assms(1)] pre by (auto dest: prefix_length_le)
    have depth: "sat_add (node_depth (arena1 ! up)) 1 = length (f @ [x])"
      using node_shapeD(1) [OF trie_shapeD(6) [OF shape up(1)]] up snoc.prems(2) by (simp add: sat_add_exact)
    let ?arena = "append_child up (length (fs @ fs1)) (arena1 @ [new_node_data (length (f @ [x]))])"
    have shape': "trie_shape ((fs @ fs1) @ [f @ [x]]) ?arena (by_folder1(f @ [x] \<mapsto> length (fs @ fs1)))"
      using shape up new by (intro trie_shape_append) auto
    have "ensure_folder_node arena by_folder (f @ [x])
        = Some (?arena, by_folder1(f @ [x] \<mapsto> length (fs @ fs1)), length (fs @ fs1))"
      using None ens folder depth trie_shapeD(1) [OF shape]
      by (subst ensure_folder_node.simps) (simp add: Let_def)
    moreover have "\<forall>g\<in>set (fs1 @ [f @ [x]]). prefix g (f @ [x])"
      using pre by (auto intro: prefix_prefix)
    moreover have "\<forall>j<length (fs @ fs1 @ [f @ [x]]). node_locals (?arena ! j)
        = (if j < length fs then node_locals (arena ! j) else [])"
      using locals up append_child_nth [OF up(1) trie_shapeD(1) [OF shape]]
      by (auto simp: nth_append less_Suc_eq new_node_data_def trie_shapeD(1) [OF shape])
    ultimately show ?thesis
      using shape' by (intro exI [of _ "fs1 @ [f @ [x]]"] exI conjI) auto
  qed
qed

section \<open>Filling the trie\<close>

definition locals_ok :: "path list \<Rightarrow> arena \<Rightarrow> path list \<Rightarrow> bool" where
  "locals_ok fs arena cs \<longleftrightarrow> (\<forall>p\<in>set cs. folder_of p \<in> set fs)
     \<and> (\<forall>j<length fs. node_locals (arena ! j)
          = map (\<lambda>p. (extension p, p)) (filter (\<lambda>p. folder_of p = fs ! j) cs))"

text \<open>Locals and aggregates do not matter for the shape.\<close>

lemma trie_shape_cong:
  assumes "trie_shape fs arena by_folder" "length arena' = length arena"
    "\<And>i. i < length arena \<Longrightarrow> node_depth (arena' ! i) = node_depth (arena ! i)
      \<and> node_parent (arena' ! i) = node_parent (arena ! i)
      \<and> node_children (arena' ! i) = node_children (arena ! i)"
  shows "trie_shape fs arena' by_folder"
  using assms by (simp add: trie_shape_def node_shape_def)

lemma ensure_grows:
  assumes "distinct (fs :: path list)" "\<forall>g\<in>set fs. prefix g f"
  shows "length fs \<le> Suc (length f)"
proof -
  have "length fs = card (set fs)" using assms(1) by (simp add: distinct_card)
  also have "\<dots> \<le> card (set (prefixes f))" using assms(2) by (intro card_mono) (auto simp: in_set_prefixes)
  also have "\<dots> \<le> Suc (length f)" using card_length [of "prefixes f"] by (simp add: length_prefixes)
  finally show ?thesis .
qed

definition plain :: "path \<Rightarrow> bool" where
  "plain p \<longleftrightarrow> RootDir \<notin> set p \<and> length p \<le> usize_max"

lemma plain_folder: "plain p \<Longrightarrow> RootDir \<notin> set (folder_of p) \<and> length (folder_of p) \<le> usize_max"
  by (auto simp: plain_def folder_of_butlast dest: in_set_butlastD)

lemma insert_candidates_ok:
  assumes "trie_shape fs arena by_folder" "locals_ok fs arena before" "\<forall>p\<in>set ps. plain p"
  shows "\<exists>fs' arena' by_folder'. insert_candidates ps arena by_folder = Some (arena', by_folder')
    \<and> trie_shape fs' arena' by_folder' \<and> locals_ok fs' arena' (before @ ps)
    \<and> length fs' \<le> length fs + sum_list (map (\<lambda>p. Suc (length p)) ps)"
  using assms
proof (induction ps arbitrary: fs arena by_folder before)
  case (Cons p ps)
  have plain: "RootDir \<notin> set (folder_of p)" "length (folder_of p) \<le> usize_max"
    using plain_folder Cons.prems(3) by auto
  from ensure_folder_node_ok [OF Cons.prems(1) plain] obtain new arena1 by_folder1 i
    where ens: "ensure_folder_node arena by_folder (folder_of p) = Some (arena1, by_folder1, i)"
    and shape: "trie_shape (fs @ new) arena1 by_folder1"
    and i: "i < length (fs @ new)" "(fs @ new) ! i = folder_of p" and pre: "\<forall>g\<in>set new. prefix g (folder_of p)"
    and locals: "\<And>j. j < length (fs @ new) \<Longrightarrow> node_locals (arena1 ! j)
      = (if j < length fs then node_locals (arena ! j) else [])"
    by blast
  let ?arena = "push_local i (extension p) p arena1"
  note D = trie_shapeD [OF shape]
  have shape': "trie_shape (fs @ new) ?arena by_folder1"
    using shape by (rule trie_shape_cong) (use i D(1) in \<open>auto simp: push_local_def nth_list_update\<close>)
  have "node_locals (?arena ! j) = map (\<lambda>p. (extension p, p))
      (filter (\<lambda>p. folder_of p = (fs @ new) ! j) (before @ [p]))" if j: "j < length (fs @ new)" for j
  proof -
    have "node_locals (arena1 ! j) = map (\<lambda>p. (extension p, p)) (filter (\<lambda>p. folder_of p = (fs @ new) ! j) before)"
    proof (cases "j < length fs")
      case True
      then show ?thesis using locals [OF j] Cons.prems(2) by (auto simp: locals_ok_def nth_append)
    next
      case False
      then have "(fs @ new) ! j \<notin> set fs"
        using D(4) j by (auto simp: nth_append)
      then show ?thesis
        using locals [OF j] False Cons.prems(2) by (auto simp: locals_ok_def filter_empty_conv)
    qed
    moreover have "(fs @ new) ! j = folder_of p \<longleftrightarrow> j = i"
      using i j D(4) by (metis nth_eq_iff_index_eq)
    ultimately show ?thesis using i j D(1) by (auto simp: push_local_def nth_list_update)
  qed
  then have "locals_ok (fs @ new) ?arena (before @ [p])"
    using Cons.prems(2) i nth_mem [of i "fs @ new"] by (auto simp: locals_ok_def)
  from Cons.IH [OF shape' this] Cons.prems(3) obtain fs' arena' by_folder'
    where ih: "insert_candidates ps ?arena by_folder1 = Some (arena', by_folder')"
      "trie_shape fs' arena' by_folder'" "locals_ok fs' arena' (before @ p # ps)"
      "length fs' \<le> length (fs @ new) + sum_list (map (\<lambda>p. Suc (length p)) ps)"
    by auto
  moreover have "length new \<le> Suc (length p)"
    using ensure_grows [of new, OF _ pre] D(4) by (auto simp: folder_of_def path_parent_def split: if_splits)
  ultimately show ?case using ens by auto
qed auto

section \<open>Aggregating\<close>

definition under :: "path list \<Rightarrow> (path \<Rightarrow> bool) \<Rightarrow> (nat \<times> path) multiset" where
  "under cs P = image_mset (\<lambda>p. (length (folder_of p), p)) (filter_mset (\<lambda>p. P (folder_of p)) (mset cs))"

lemma under_Nil [simp]: "under [] P = {#}"
  by (simp add: under_def)

lemma under_Cons:
  "under (p # cs) P = (if P (folder_of p) then {#(length (folder_of p), p)#} else {#}) + under cs P"
  by (simp add: under_def)

lemma under_split: "under cs P = under cs (\<lambda>f. P f \<and> Q f) + under cs (\<lambda>f. P f \<and> \<not> Q f)"
  by (induction cs) (auto simp: under_Cons)

lemma prefix_folder_mem:
  assumes "trie_shape fs arena by_folder" "f \<in> set fs" "prefix g f"
  shows "g \<in> set fs"
  using assms(2,3)
proof (induction f rule: rev_induct)
  case (snoc x f)
  then obtain i where i: "i < length fs" "fs ! i = f @ [x]" by (auto simp: in_set_conv_nth)
  with trie_shapeD(3,6) [OF assms(1)] have "i \<noteq> 0" "node_shape fs arena i" by (auto intro: gr0I)
  then obtain u where "u < i" "fs ! u = f" using i by (auto simp: node_shape_def)
  then have "f \<in> set fs" using i(1) by auto
  then show ?case using snoc by (auto simp: prefix_snoc)
qed auto

lemma child_iff:
  assumes shape: "trie_shape fs arena by_folder" and i: "i < length fs"
    and f: "f \<in> set fs" "prefix (fs ! i) f" "f \<noteq> fs ! i"
  shows "\<exists>c0\<in>set (node_children (arena ! i)). \<forall>c\<in>set (node_children (arena ! i)). prefix (fs ! c) f \<longleftrightarrow> c = c0"
proof -
  let ?g = "take (Suc (length (fs ! i))) f"
  note D = trie_shapeD [OF shape] and S = node_shapeD [OF trie_shapeD(6) [OF shape i]]
  have len: "length (fs ! i) < length f" using f(2,3) by (auto simp: prefix_def)
  have "?g \<in> set fs" by (rule prefix_folder_mem [OF shape f(1) take_is_prefix])
  then obtain c0 where c0: "c0 < length fs" "fs ! c0 = ?g" by (auto simp: in_set_conv_nth)
  have "butlast ?g = fs ! i" using len f(2) by (auto simp: butlast_take prefix_def)
  moreover have "c0 \<noteq> 0"
  proof
    assume "c0 = 0"
    then have "?g = []" using c0 D(3) by simp
    then show False using len by auto
  qed
  ultimately have "c0 \<in> set (node_children (arena ! i))" using S(3) c0 by simp
  moreover have "prefix (fs ! c) f \<longleftrightarrow> c = c0" if c: "c \<in> set (node_children (arena ! i))" for c
  proof
    assume "prefix (fs ! c) f"
    moreover have "length (fs ! c) = Suc (length (fs ! i))"
    proof -
      have "butlast (fs ! c) = fs ! i" "fs ! c \<noteq> []"
        using c S(3) D(6) [of c] by (auto simp: node_shape_def split: if_splits)
      then show ?thesis by (metis append_butlast_last_id length_append_singleton)
    qed
    ultimately have "fs ! c = ?g" by (auto simp: prefix_def)
    then show "c = c0" using c0 c S(3) [of c] nth_eq_iff_index_eq [OF D(4), of c c0] by simp
  next
    assume "c = c0"
    then show "prefix (fs ! c) f" using c0 by (simp add: take_is_prefix)
  qed
  ultimately show ?thesis by blast
qed

lemma sum_list_mempty: "\<forall>c\<in>set xs. f c = {#} \<Longrightarrow> sum_list (map f xs) = {#}"
  by (induction xs) auto

text \<open>A subtree is its own folder and the disjoint subtrees of the children.\<close>

lemma under_children:
  assumes shape: "trie_shape fs arena by_folder" and i: "i < length fs"
    and cs: "\<forall>p\<in>set cs. folder_of p \<in> set fs"
  shows "under cs (prefix (fs ! i)) = under cs (\<lambda>f. f = fs ! i)
    + sum_list (map (\<lambda>c. under cs (prefix (fs ! c))) (node_children (arena ! i)))"
  using cs
proof (induction cs)
  case (Cons p cs)
  let ?x = "{#(length (folder_of p), p)#}"
  note S = node_shapeD [OF trie_shapeD(6) [OF shape i]]
  have "sum_list (map (\<lambda>c. if prefix (fs ! c) (folder_of p) then ?x else {#}) (node_children (arena ! i)))
      = (if prefix (fs ! i) (folder_of p) \<and> folder_of p \<noteq> fs ! i then ?x else {#})"
  proof (cases "prefix (fs ! i) (folder_of p) \<and> folder_of p \<noteq> fs ! i")
    case True
    with child_iff [OF shape i] Cons.prems obtain c0 where c0: "c0 \<in> set (node_children (arena ! i))"
      "\<And>c. c \<in> set (node_children (arena ! i)) \<Longrightarrow> prefix (fs ! c) (folder_of p) \<longleftrightarrow> c = c0"
      by (metis list.set_intros(1))
    have "sum_list (map (\<lambda>c. if prefix (fs ! c) (folder_of p) then ?x else {#}) (node_children (arena ! i)))
        = (\<Sum>c\<in>set (node_children (arena ! i)). if c = c0 then ?x else {#})"
      using S(2) c0(2) by (simp add: sum_list_distinct_conv_sum_set cong: sum.cong)
    then show ?thesis using c0(1) True by simp
  next
    case False
    have "\<not> prefix (fs ! c) (folder_of p)" if c: "c \<in> set (node_children (arena ! i))" for c
    proof
      assume *: "prefix (fs ! c) (folder_of p)"
      have "butlast (fs ! c) = fs ! i" "fs ! c \<noteq> []"
        using c S(3) trie_shapeD(6) [OF shape, of c] by (auto simp: node_shape_def split: if_splits)
      then have "strict_prefix (fs ! i) (fs ! c)"
        by (metis append_butlast_last_id strict_prefixI')
      with * have "strict_prefix (fs ! i) (folder_of p)" by (rule prefix_order.less_le_trans [rotated])
      with False show False by (auto simp: strict_prefix_def)
    qed
    then have "sum_list (map (\<lambda>c. if prefix (fs ! c) (folder_of p) then ?x else {#})
        (node_children (arena ! i))) = {#}" by (intro sum_list_mempty) simp
    then show ?thesis using False by simp
  qed
  then show ?case
    using Cons by (auto simp: under_Cons sum_list_addf)
qed (simp add: sum_list_mempty)

lemma agg_stands_prefix:
  "list_all2 agg_stands aggs Ms \<Longrightarrow> agg_stands acc M \<Longrightarrow> i \<le> length aggs
    \<Longrightarrow> agg_stands (get_agg (prefix_aggs acc aggs) i) (M + sum_list (take i Ms))"
proof (induction aggs arbitrary: Ms acc M i)
  case (Cons a aggs)
  then obtain N Ns where Ms: "Ms = N # Ns" "agg_stands a N" "list_all2 agg_stands aggs Ns"
    by (auto simp: list_all2_Cons1)
  show ?case
  proof (cases i)
    case (Suc j)
    then show ?thesis
      using Cons.IH [OF Ms(3) agg_stands_merge [OF Cons.prems(2) Ms(2)], of j] Cons.prems(3) Ms(1)
      by (simp add: get_agg_def slice_get_def add.assoc split: option.splits if_splits)
  qed (use Cons.prems(2) Ms in \<open>simp add: get_agg_def slice_get_def\<close>)
qed (simp add: get_agg_def slice_get_def)

lemma suffix_aggs_length [simp]: "length (suffix_aggs aggs) = Suc (length aggs)"
  by (induction aggs) (simp_all add: Let_def)

lemma agg_stands_suffix:
  "list_all2 agg_stands aggs Ms \<Longrightarrow> i \<le> length aggs
    \<Longrightarrow> agg_stands (get_agg (suffix_aggs aggs) i) (sum_list (drop i Ms))"
proof (induction aggs arbitrary: Ms i)
  case (Cons a aggs)
  then obtain N Ns where Ms: "Ms = N # Ns" "agg_stands a N" "list_all2 agg_stands aggs Ns"
    by (auto simp: list_all2_Cons1)
  show ?case
  proof (cases i)
    case 0
    have "hd (suffix_aggs aggs) = get_agg (suffix_aggs aggs) 0"
      using suffix_aggs_length [of aggs] by (cases "suffix_aggs aggs") (auto simp: get_agg_def slice_get_def)
    then show ?thesis
      using 0 agg_stands_merge [OF Ms(2) Cons.IH [OF Ms(3), of 0]] Ms(1)
      by (simp add: Let_def get_agg_def slice_get_def)
  next
    case (Suc j)
    then show ?thesis
      using Cons.IH [OF Ms(3), of j] Cons.prems(2) Ms(1)
      by (simp add: Let_def get_agg_def slice_get_def split: option.splits if_splits)
  qed
qed (simp add: get_agg_def slice_get_def agg_stands_empty)

lemma agg_stands_fold:
  "list_all2 agg_stands aggs Ms \<Longrightarrow> agg_stands acc M
    \<Longrightarrow> agg_stands (fold (\<lambda>a acc. merge_aggregate acc a) aggs acc) (M + sum_list Ms)"
proof (induction aggs arbitrary: Ms acc M)
  case (Cons a aggs)
  then obtain N Ns where Ms: "Ms = N # Ns" "agg_stands a N" "list_all2 agg_stands aggs Ns"
    by (auto simp: list_all2_Cons1)
  then show ?case
    using Cons.IH [OF Ms(3) agg_stands_merge [OF Cons.prems(2) Ms(2)]] by (simp add: add.assoc)
qed simp

lemma map_of_enumerate:
  assumes "distinct xs" "i < length xs"
  shows "map_of (map (\<lambda>(i, c). (c, f i)) (enumerate n xs)) (xs ! i) = Some (f (n + i))"
  using assms
proof (induction xs arbitrary: n i)
  case (Cons x xs)
  then show ?case by (cases i) auto
qed simp

text \<open>Each exclusion aggregate stands for everything but its child's subtree.\<close>

lemma excluding_stands:
  assumes "list_all2 agg_stands aggs Ms" "agg_stands local_agg L" "length aggs = length cs"
    "distinct cs" "length cs < usize_max" "i < length cs"
  shows "\<exists>a. map_of (excluding_per_child local_agg cs aggs) (cs ! i) = Some a
    \<and> (\<exists>N. agg_stands a N \<and> N + Ms ! i = L + sum_list Ms)"
proof -
  let ?a = "merge_aggregate (merge_aggregate (get_agg (prefix_aggs empty_aggregate aggs) i)
      (get_agg (suffix_aggs aggs) (sat_add i 1))) local_agg"
  let ?N = "sum_list (take i Ms) + sum_list (drop (Suc i) Ms) + L"
  have step: "sat_add i 1 = Suc i" using assms(5,6) by (simp add: sat_add_exact)
  have "map_of (excluding_per_child local_agg cs aggs) (cs ! i) = Some ?a"
    unfolding excluding_per_child_def Let_def
    using map_of_enumerate [OF assms(4,6), where n = 0] by simp
  moreover have "agg_stands ?a ?N"
    using agg_stands_prefix [OF assms(1) agg_stands_empty, of i] agg_stands_suffix [OF assms(1), of "Suc i"]
      assms(2,3,6) unfolding step by (intro agg_stands_merge) auto
  moreover have "?N + Ms ! i = L + sum_list Ms"
  proof -
    have "i < length Ms" using assms(1,3,6) by (simp add: list_all2_lengthD)
    then have "sum_list Ms = sum_list (take i Ms) + Ms ! i + sum_list (drop (Suc i) Ms)"
      by (metis Cons_nth_drop_Suc append_take_drop_id sum_list.Cons sum_list_append add.assoc)
    then show ?thesis by (simp add: ac_simps)
  qed
  ultimately show ?thesis by blast
qed

lemma local_aggregate_stands:
  assumes "node_locals node = map (\<lambda>p. (extension p, p)) ps"
    "\<And>p. p \<in> set ps \<Longrightarrow> length (folder_of p) = node_depth node" "node_depth node \<le> usize_max \<or> ps = []"
  shows "agg_stands (local_aggregate node) (under ps (\<lambda>f. True))"
proof -
  have fold: "agg_stands (fold (\<lambda>(ext, p) agg. merge_aggregate agg (from_local (node_depth node) ext p))
      (map (\<lambda>p. (extension p, p)) qs) acc) (M + under qs (\<lambda>f. True))"
    if "agg_stands acc M" "set qs \<subseteq> set ps" for qs acc M
    using that
  proof (induction qs arbitrary: acc M)
    case (Cons q qs)
    then have d: "node_depth node \<le> usize_max" "length (folder_of q) = node_depth node"
      using assms(2,3) by auto
    then show ?case
      using Cons.IH [OF agg_stands_merge [OF Cons.prems(1) agg_stands_local [OF d(1), of q]]] Cons.prems(2)
      by (simp add: under_Cons add.assoc)
  qed simp
  show ?thesis
    using fold [OF agg_stands_empty, of ps] by (simp add: local_aggregate_def assms(1))
qed

definition node_aggregated :: "path list \<Rightarrow> path list \<Rightarrow> arena \<Rightarrow> node_id \<Rightarrow> bool" where
  "node_aggregated fs cs arena i \<longleftrightarrow> agg_stands (node_full (arena ! i)) (under cs (prefix (fs ! i)))
     \<and> (\<forall>c\<in>set (node_children (arena ! i)). \<exists>a. map_of (node_excluding (arena ! i)) c = Some a
          \<and> agg_stands a (under cs (\<lambda>f. prefix (fs ! i) f \<and> \<not> prefix (fs ! c) f)))"

lemma aggregate_node_nth:
  "i < length arena \<Longrightarrow> j \<noteq> i \<Longrightarrow> aggregate_node i arena ! j = arena ! j"
  "length (aggregate_node i arena) = length arena"
  by (simp_all add: aggregate_node_def Let_def)

lemma aggregate_node_same:
  assumes "i < length arena" "j < length arena"
  shows "node_depth (aggregate_node i arena ! j) = node_depth (arena ! j)"
    "node_parent (aggregate_node i arena ! j) = node_parent (arena ! j)"
    "node_children (aggregate_node i arena ! j) = node_children (arena ! j)"
    "node_locals (aggregate_node i arena ! j) = node_locals (arena ! j)"
  using assms by (simp_all add: aggregate_node_def Let_def nth_list_update)

lemma aggregate_node_step:
  assumes shape: "trie_shape fs arena by_folder" and locals: "locals_ok fs arena cs"
    and cs: "\<forall>p\<in>set cs. length (folder_of p) \<le> usize_max" and n: "length fs < usize_max"
    and i: "i < length fs" and later: "\<And>j. i < j \<Longrightarrow> j < length fs \<Longrightarrow> node_aggregated fs cs arena j"
  shows "node_aggregated fs cs (aggregate_node i arena) i"
proof -
  let ?node = "arena ! i" and ?children = "node_children (arena ! i)"
  let ?aggs = "map (\<lambda>c. node_full (arena ! c)) ?children"
  let ?Ms = "map (\<lambda>c. under cs (prefix (fs ! c))) ?children"
  note D = trie_shapeD [OF shape] and S = node_shapeD [OF trie_shapeD(6) [OF shape i]]
  have child: "c < length fs" "i < c" "prefix (fs ! i) (fs ! c)" if c: "c \<in> set ?children" for c
  proof -
    have "c < length fs" "c \<noteq> 0" "butlast (fs ! c) = fs ! i" using c S(3) by auto
    moreover from this D(6) [of c] obtain u where u: "u < c" "fs ! u = butlast (fs ! c)"
      by (auto simp: node_shape_def)
    moreover have "u = i" using u calculation i D(4) by (auto simp: nth_eq_iff_index_eq)
    ultimately show "c < length fs" "i < c" "prefix (fs ! i) (fs ! c)"
      by (auto simp: prefixeq_butlast simp flip: \<open>butlast (fs ! c) = fs ! i\<close>)
  qed
  have here: "agg_stands (local_aggregate ?node) (under cs (\<lambda>f. f = fs ! i))"
  proof -
    let ?ps = "filter (\<lambda>p. folder_of p = fs ! i) cs"
    have "under ?ps (\<lambda>f. True) = under cs (\<lambda>f. f = fs ! i)" by (simp add: under_def)
    moreover have "node_depth ?node \<le> usize_max \<or> ?ps = []"
      using S(1) cs by (auto simp: filter_empty_conv)
    ultimately show ?thesis
      using local_aggregate_stands [of ?node ?ps] locals i S(1) by (auto simp: locals_ok_def)
  qed
  have aggs: "list_all2 agg_stands ?aggs ?Ms"
    using later child by (auto simp: list_all2_conv_all_nth node_aggregated_def)
  have whole: "under cs (prefix (fs ! i)) = under cs (\<lambda>f. f = fs ! i) + sum_list ?Ms"
    using under_children [OF shape i] locals by (auto simp: locals_ok_def)
  have node: "aggregate_node i arena ! i = ?node \<lparr> node_full := fold (\<lambda>a acc. merge_aggregate acc a) ?aggs
      (local_aggregate ?node), node_excluding := excluding_per_child (local_aggregate ?node) ?children ?aggs \<rparr>"
    using i D(1) by (simp add: aggregate_node_def Let_def)
  have few: "length ?children < usize_max"
  proof -
    have "length ?children = card (set ?children)" using S(2) by (simp add: distinct_card)
    also have "\<dots> \<le> card {..<length fs}" using child(1) by (intro card_mono) auto
    finally show ?thesis using n by simp
  qed
  have "\<exists>a. map_of (excluding_per_child (local_aggregate ?node) ?children ?aggs) c = Some a
      \<and> agg_stands a (under cs (\<lambda>f. prefix (fs ! i) f \<and> \<not> prefix (fs ! c) f))" if c: "c \<in> set ?children" for c
  proof -
    obtain k where k: "k < length ?children" "?children ! k = c" using c by (auto simp: in_set_conv_nth)
    obtain a N where a: "map_of (excluding_per_child (local_aggregate ?node) ?children ?aggs) c = Some a"
      "agg_stands a N" "N + under cs (prefix (fs ! c)) = under cs (prefix (fs ! i))"
      using excluding_stands [OF aggs here _ S(2) few k(1)] k unfolding whole by auto
    have "(\<lambda>f. prefix (fs ! i) f \<and> prefix (fs ! c) f) = prefix (fs ! c)"
      using child(3) [OF c] by (auto intro: prefix_order.trans)
    then have "N = under cs (\<lambda>f. prefix (fs ! i) f \<and> \<not> prefix (fs ! c) f)"
      using a(3) under_split [of cs "prefix (fs ! i)" "prefix (fs ! c)"] by (simp add: add.commute)
    with a show ?thesis by blast
  qed
  moreover have "agg_stands (node_full (aggregate_node i arena ! i)) (under cs (prefix (fs ! i)))"
    unfolding node whole using agg_stands_fold [OF aggs here] by simp
  ultimately show ?thesis by (simp add: node_aggregated_def node)
qed

lemma aggregate_arena_ok:
  assumes "trie_shape fs arena by_folder" "locals_ok fs arena cs"
    and "\<forall>p\<in>set cs. length (folder_of p) \<le> usize_max" "length fs < usize_max"
  shows "trie_shape fs (aggregate_arena arena) by_folder
    \<and> (\<forall>i<length fs. node_aggregated fs cs (aggregate_arena arena) i)"
proof -
  have "trie_shape fs (fold aggregate_node (rev [0..<n]) a) by_folder
    \<and> (\<forall>i<length fs. node_aggregated fs cs (fold aggregate_node (rev [0..<n]) a) i)"
    if "trie_shape fs a by_folder" "locals_ok fs a cs" "n \<le> length fs"
      "\<And>i. n \<le> i \<Longrightarrow> i < length fs \<Longrightarrow> node_aggregated fs cs a i" for a n
    using that
  proof (induction n arbitrary: a)
    case (Suc n)
    let ?a = "aggregate_node n a"
    note D = trie_shapeD [OF Suc.prems(1)]
    have n: "n < length a" "n < length fs" using Suc.prems(3) D(1) by simp_all
    have "trie_shape fs ?a by_folder"
      by (rule trie_shape_cong [OF Suc.prems(1)]) (use aggregate_node_same [OF n(1)] aggregate_node_nth(2) in auto)
    moreover have "locals_ok fs ?a cs"
      using Suc.prems(2) aggregate_node_same(4) [OF n(1)] D(1) by (simp add: locals_ok_def)
    moreover have "node_aggregated fs cs ?a i" if i: "n \<le> i" "i < length fs" for i
    proof (cases "i = n")
      case True
      then show ?thesis
        using aggregate_node_step [OF Suc.prems(1,2) assms(3,4) n(2)] Suc.prems(4) by simp
    next
      case False
      then show ?thesis
        using aggregate_node_nth(1) [OF n(1) False] Suc.prems(4) i by (simp add: node_aggregated_def)
    qed
    ultimately show ?case using Suc.IH [of ?a] n(2) by simp
  qed simp
  from this [OF assms(1,2), of "length fs"] show ?thesis
    unfolding aggregate_arena_def trie_shapeD(1) [OF assms(1)] by auto
qed

section \<open>Answering queries\<close>

lemma start_node_ok:
  assumes shape: "trie_shape fs arena by_folder"
  shows "RootDir \<notin> set q \<Longrightarrow> extra + length q \<le> usize_max \<Longrightarrow>
    \<exists>i<length fs. start_node by_folder root q extra = (i, extra + (length q - length (fs ! i)))
      \<and> prefix (fs ! i) q \<and> (\<forall>g\<in>set fs. prefix g q \<longrightarrow> length g \<le> length (fs ! i))"
proof (induction q arbitrary: extra rule: rev_induct)
  case Nil
  have "by_folder [] = Some 0" using trie_shapeD(2,3,5) [OF shape] by auto
  then show ?case using trie_shapeD(2,3) [OF shape] by (auto simp: start_node.simps)
next
  case (snoc x q)
  show ?case
  proof (cases "by_folder (q @ [x])")
    case (Some i)
    then have "i < length fs" "fs ! i = q @ [x]" using trie_shapeD(5) [OF shape] by auto
    then show ?thesis
      using Some by (intro exI [of _ i]) (auto simp: start_node.simps dest: prefix_length_le)
  next
    case None
    have "path_parent (q @ [x]) = Some q" using snoc.prems(1) by (auto simp: path_parent_def)
    moreover have "sat_add extra 1 = extra + 1" using snoc.prems(2) by (simp add: sat_add_exact)
    moreover obtain i where i: "i < length fs"
      "start_node by_folder root q (extra + 1) = (i, extra + 1 + (length q - length (fs ! i)))"
      "prefix (fs ! i) q" "\<forall>g\<in>set fs. prefix g q \<longrightarrow> length g \<le> length (fs ! i)"
      using snoc.IH [of "extra + 1"] snoc.prems by auto
    moreover have "q @ [x] \<notin> set fs" using None folder_map_None [OF shape] by blast
    ultimately show ?thesis
      using None prefix_length_le [OF i(3)]
      by (intro exI [of _ i]) (auto simp: start_node.simps prefix_snoc)
  qed
qed

definition dists :: "path list \<Rightarrow> path \<Rightarrow> (path \<Rightarrow> bool) \<Rightarrow> (nat \<times> path) multiset" where
  "dists cs q P = image_mset (\<lambda>p. (tree_distance q (folder_of p), p)) (filter_mset (\<lambda>p. P (folder_of p)) (mset cs))"

lemma shared_len_ge: "prefix b xs \<Longrightarrow> prefix b ys \<Longrightarrow> length b \<le> shared_len xs ys"
proof (induction b arbitrary: xs ys)
  case (Cons x b)
  then show ?case by (cases xs; cases ys) auto
qed simp

lemma shift_under:
  assumes "prefix b q" "\<And>p. p \<in> set cs \<Longrightarrow> R (folder_of p) \<Longrightarrow> shared_len q (folder_of p) = length b"
  shows "image_mset (shift (length q - length b) (length b)) (under cs R) = dists cs q R"
proof -
  have "shift (length q - length b) (length b) (length (folder_of p), p) = (tree_distance q (folder_of p), p)"
    if "p \<in># filter_mset (\<lambda>p. R (folder_of p)) (mset cs)" for p
    using that assms(2) [of p] shared_len_le(2) [of q "folder_of p"]
    by (auto simp: shift_def tree_distance_def)
  then show ?thesis
    unfolding under_def dists_def image_mset.compositionality o_def by (intro image_mset_cong) auto
qed

lemma dists_split:
  "(\<And>f. R f \<longleftrightarrow> P f \<or> Q f) \<Longrightarrow> (\<And>f. \<not> (P f \<and> Q f)) \<Longrightarrow> dists cs q R = dists cs q P + dists cs q Q"
  by (induction cs) (auto simp: dists_def)

text \<open>One step of the climb adds the candidates that branch off at the node.\<close>

lemma climb_step:
  assumes best: "stands best (of_ext ext (dists cs q P))"
    and agg: "stands agg (of_ext ext (under cs R))"
    and b: "prefix b q" and shared: "\<And>p. p \<in> set cs \<Longrightarrow> R (folder_of p) \<Longrightarrow> shared_len q (folder_of p) = length b"
    and bound: "\<And>p. p \<in> set cs \<Longrightarrow> length q + length (folder_of p) \<le> usize_max"
    and disjoint: "\<And>f. \<not> (P f \<and> R f)" and whole: "\<And>f. S f \<longleftrightarrow> P f \<or> R f"
  shows "stands (if cand_count agg > 0
      then merge_candidate best \<lparr> min_depth = sat_add (length q - length b) (min_depth agg) - length b,
        cand_count = cand_count agg, cand_sample = cand_sample agg \<rparr>
      else best) (of_ext ext (dists cs q S))"
proof -
  let ?M = "of_ext ext (under cs R)"
  have dists: "of_ext ext (dists cs q S) = of_ext ext (dists cs q P)
      + image_mset (shift (length q - length b) (length b)) ?M"
    unfolding dists_split [OF whole disjoint] of_ext_union
    using shift_under [OF b shared] of_ext_image [of "shift (length q - length b) (length b)" ext "under cs R"]
    by (simp add: shift_def)
  show ?thesis
  proof (cases "?M = {#}")
    case True
    then show ?thesis using best agg dists by (simp add: empty_candidate_def)
  next
    case False
    have "\<forall>x\<in>#?M. length b \<le> fst x \<and> (length q - length b) + fst x \<le> usize_max"
    proof
      fix x assume "x \<in># ?M"
      then obtain p where p: "p \<in> set cs" "R (folder_of p)" "x = (length (folder_of p), p)"
        by (auto simp: of_ext_def under_def split: if_splits)
      then show "length b \<le> fst x \<and> (length q - length b) + fst x \<le> usize_max"
        using shared [OF p(1,2)] shared_len_le(2) [of q "folder_of p"] bound [OF p(1)] by simp
    qed
    from stands_merge [OF best stands_shift [OF agg False this]]
    show ?thesis using stands_count [OF agg] False dists by simp
  qed
qed

lemma climb_ok:
  assumes shape: "trie_shape fs arena by_folder" and agg: "\<forall>i<length fs. node_aggregated fs cs arena i"
    and cs: "\<forall>p\<in>set cs. folder_of p \<in> set fs \<and> length q + length (folder_of p) \<le> usize_max"
    and len: "length q \<le> usize_max"
    and i: "i < length fs" "prefix (fs ! i) q" "up = length q - length (fs ! i)"
    and prev: "case prev of
        None \<Rightarrow> (\<forall>g\<in>set fs. prefix g q \<longrightarrow> length g \<le> length (fs ! i)) \<and> P = (\<lambda>f. False)
      | Some c \<Rightarrow> c \<in> set (node_children (arena ! i)) \<and> prefix (fs ! c) q \<and> P = prefix (fs ! c)"
    and best: "stands best (of_ext ext (dists cs q P))"
  shows "\<exists>c. climb arena ext (Some i) prev up best = Some c \<and> stands c (of_ext ext (dists cs q (\<lambda>f. True)))"
  using i prev best
proof (induction i arbitrary: prev up best P rule: less_induct)
  case (less i)
  let ?node = "arena ! i"
  let ?agg = "case prev of
      None \<Rightarrow> lookup_aggregate (node_full ?node) ext
    | Some c \<Rightarrow> (case map_of (node_excluding ?node) c of
          Some a \<Rightarrow> lookup_aggregate a ext | None \<Rightarrow> empty_candidate)"
  let ?best = "if cand_count ?agg > 0
    then merge_candidate best \<lparr> min_depth = sat_add up (min_depth ?agg) - node_depth ?node,
      cand_count = cand_count ?agg, cand_sample = cand_sample ?agg \<rparr> else best"
  define R where "R = (\<lambda>f. prefix (fs ! i) f \<and> \<not> P f)"
  note D = trie_shapeD [OF shape] and S = node_shapeD [OF trie_shapeD(6) [OF shape less.prems(1)]]
  have agg_i: "node_aggregated fs cs arena i" using agg less.prems(1) by blast
  have stands: "stands ?agg (of_ext ext (under cs R))"
    using agg_i less.prems(4) unfolding node_aggregated_def agg_stands_def R_def
    by (cases prev) (auto split: option.splits)
  have shared: "shared_len q (folder_of p) = length (fs ! i)" if p: "p \<in> set cs" "R (folder_of p)" for p
  proof -
    let ?f = "folder_of p" and ?g = "take (Suc (length (fs ! i))) q"
    have f: "prefix (fs ! i) ?f" "\<not> P ?f" "?f \<in> set fs" using p cs by (auto simp: R_def)
    have "length (fs ! i) \<le> shared_len q ?f" by (rule shared_len_ge [OF less.prems(2) f(1)])
    moreover have "\<not> Suc (length (fs ! i)) \<le> shared_len q ?f"
    proof
      assume le: "Suc (length (fs ! i)) \<le> shared_len q ?f"
      then have "?g = take (Suc (length (fs ! i))) ?f"
        using shared_len_take [of q ?f] by (metis min.absorb1 take_take)
      then have g: "prefix ?g ?f" "prefix ?g q" by (simp_all add: take_is_prefix) (metis take_is_prefix)
      have glen: "length ?g = Suc (length (fs ! i))" using le shared_len_le(1) [of q ?f] by simp
      show False
      proof (cases prev)
        case None
        have "?g \<in> set fs" by (rule prefix_folder_mem [OF shape f(3) g(1)])
        with None less.prems(4) g(2) glen show False by fastforce
      next
        case (Some c)
        then have c: "c \<in> set (node_children ?node)" "prefix (fs ! c) q" "P = prefix (fs ! c)"
          using less.prems(4) by auto
        then have "butlast (fs ! c) = fs ! i" "fs ! c \<noteq> []"
          using S(3) D(6) [of c] by (auto simp: node_shape_def split: if_splits)
        then have "length (fs ! c) = Suc (length (fs ! i))"
          by (metis append_butlast_last_id length_append_singleton)
        then have "fs ! c = ?g" using c(2) by (auto simp: prefix_def)
        then show False using f(2) c(3) g(1) by simp
      qed
    qed
    ultimately show ?thesis by linarith
  qed
  have P: "P f \<Longrightarrow> prefix (fs ! i) f" for f
  proof (cases prev)
    case (Some c)
    then have "butlast (fs ! c) = fs ! i" "P = prefix (fs ! c)" using less.prems(4) S(3) by auto
    then show "P f \<Longrightarrow> prefix (fs ! i) f"
      using prefix_order.trans [OF prefixeq_butlast [of "fs ! c"], of f] by simp
  qed (use less.prems(4) in simp)
  have "stands ?best (of_ext ext (dists cs q (prefix (fs ! i))))"
    unfolding S(1) less.prems(3)
    by (rule climb_step [OF less.prems(5) stands less.prems(2) shared]) (use cs P in \<open>auto simp: R_def\<close>)
  note best' = this
  have climb: "climb arena ext (Some i) prev up best
      = climb arena ext (node_parent ?node) (Some i) (sat_add up 1) ?best"
    by (subst climb.simps) (simp add: Let_def)
  show ?case
  proof (cases "i = 0")
    case True
    then have parent: "node_parent ?node = None" and "fs ! i = []"
      using D(3,6) less.prems(1) by (auto simp: node_shape_def)
    then have "prefix (fs ! i) = (\<lambda>f. True)" by auto
    with best' have "stands ?best (of_ext ext (dists cs q (\<lambda>f. True)))" by (simp only:)
    moreover have "climb arena ext None (Some i) up' b = Some b" for up' b by (simp add: climb.simps)
    ultimately show ?thesis unfolding climb parent by blast
  next
    case False
    then obtain u where u: "u < i" "fs ! u = butlast (fs ! i)" "node_parent ?node = Some u" "fs ! i \<noteq> []"
      using D(6) [OF less.prems(1)] by (auto simp: node_shape_def)
    then have ulen: "length (fs ! i) = Suc (length (fs ! u))" by simp
    have ufs: "u < length fs" using u(1) less.prems(1) by simp
    have "i \<in> set (node_children (arena ! u))"
      using node_shapeD(3) [OF D(6) [OF ufs]] less.prems(1) False u(2) by simp
    moreover have "sat_add up 1 = length q - length (fs ! u)"
      using less.prems(3) ulen prefix_length_le [OF less.prems(2)] len by (simp add: sat_add_exact)
    moreover have "prefix (fs ! u) q"
      using prefix_order.trans [OF _ less.prems(2)] prefixeq_butlast u(2) by metis
    ultimately show ?thesis
      unfolding climb u(3) using less.IH [OF u(1) ufs, where up = "sat_add up 1" and prev = "Some i" and P = "prefix (fs ! i)"
          and best = ?best]
        less.prems(2) best' by simp
  qed
qed

section \<open>Both representations find the unique nearest candidate\<close>

definition unique_nearest :: "path list \<Rightarrow> path \<Rightarrow> string option \<Rightarrow> path option \<Rightarrow> bool" where
  "unique_nearest cs src ext r \<longleftrightarrow> (let M = of_ext ext (dists cs (folder_of src) (\<lambda>f. True)) in
     \<forall>p. r = Some p \<longleftrightarrow> (\<exists>d. at_depth d M = {#(d, p)#} \<and> (\<forall>x\<in>#M. d \<le> fst x)))"

lemma unique_nearest_det:
  assumes "unique_nearest cs src ext r" "unique_nearest cs src ext r'"
  shows "r = r'"
proof -
  have same: "r = Some p \<longleftrightarrow> r' = Some p" for p
    by (rule trans [OF spec [OF assms(1) [unfolded unique_nearest_def Let_def]]
          sym [OF spec [OF assms(2) [unfolded unique_nearest_def Let_def]]]])
  show ?thesis using same [of "the r"] same [of "the r'"] by (cases r; cases r') simp_all
qed

lemma at_depth_mem: "(d, p) \<in># at_depth d M \<longleftrightarrow> (d, p) \<in># M"
  by (simp add: at_depth_def)

text \<open>What is decided from a candidate at the least depth and the number of candidates there.\<close>

lemma unique_nearest_min:
  assumes "(d, p) \<in># M" "\<forall>x\<in>#M. d \<le> fst x"
  shows "(if size (at_depth d M) = 1 then Some p else None) = Some r
    \<longleftrightarrow> (\<exists>d. at_depth d M = {#(d, r)#} \<and> (\<forall>x\<in>#M. d \<le> fst x))"
proof -
  have mem: "(d, p) \<in># at_depth d M" using assms(1) by (simp add: at_depth_mem)
  have least: "d' = d" if "at_depth d' M = {#(d', r)#}" "\<forall>x\<in>#M. d' \<le> fst x" for d'
  proof -
    have "(d', r) \<in># M" using that(1) at_depth_mem [of d' r M] by simp
    then show ?thesis using that(2) assms by fastforce
  qed
  show ?thesis
  proof
    assume "(if size (at_depth d M) = 1 then Some p else None) = Some r"
    then have "size (at_depth d M) = 1" "p = r" by (auto split: if_splits)
    then obtain x where "at_depth d M = {#x#}" using size_1_singleton_mset by blast
    then have "at_depth d M = {#(d, r)#}" using mem \<open>p = r\<close> by simp
    then show "\<exists>d. at_depth d M = {#(d, r)#} \<and> (\<forall>x\<in>#M. d \<le> fst x)" using assms(2) by blast
  next
    assume "\<exists>d. at_depth d M = {#(d, r)#} \<and> (\<forall>x\<in>#M. d \<le> fst x)"
    then have "at_depth d M = {#(d, r)#}" using least by blast
    then show "(if size (at_depth d M) = 1 then Some p else None) = Some r" using mem by simp
  qed
qed

definition well_placed :: "path list \<Rightarrow> path \<Rightarrow> bool" where
  "well_placed cs src \<longleftrightarrow> RootDir \<notin> set src \<and> length src \<le> usize_max
     \<and> list_all (\<lambda>p. RootDir \<notin> set p \<and> length src + length p \<le> usize_max) cs
     \<and> sum_list (map (\<lambda>p. Suc (length p)) cs) < usize_max - 1"

lemma well_placedD:
  assumes "well_placed cs src"
  shows "RootDir \<notin> set (folder_of src)" "length (folder_of src) \<le> usize_max"
    "p \<in> set cs \<Longrightarrow> plain p" "p \<in> set cs \<Longrightarrow> length (folder_of p) \<le> usize_max"
    "p \<in> set cs \<Longrightarrow> length (folder_of src) + length (folder_of p) \<le> usize_max"
  using assms
  by (auto simp: well_placed_def list_all_iff plain_def folder_of_butlast dest: in_set_butlastD)

lemma trie_nearest_unique:
  assumes "well_placed cs src"
  shows "\<exists>t r. trie_build cs = Some t \<and> trie_nearest t src ext = Some r \<and> unique_nearest cs src ext r"
proof -
  note W = well_placedD [OF assms]
  let ?q = "folder_of src"
  have "locals_ok [[]] [new_node_data 0] []" by (simp add: locals_ok_def new_node_data_def)
  from insert_candidates_ok [OF trie_shape_root this, of cs] W(3) obtain fs arena by_folder
    where ins: "insert_candidates cs [new_node_data 0] ((\<lambda>_. None)([] \<mapsto> 0)) = Some (arena, by_folder)"
    and shape: "trie_shape fs arena by_folder" and locals: "locals_ok fs arena cs"
    and few: "length fs \<le> 1 + sum_list (map (\<lambda>p. Suc (length p)) cs)"
    by auto
  let ?t = "\<lparr> trie_arena = aggregate_arena arena, trie_folders = by_folder, trie_root = 0 \<rparr>"
  have build: "trie_build cs = Some ?t" using ins by (simp add: trie_build_def)
  have "sum_list (map (\<lambda>p. Suc (length p)) cs) < usize_max - 1" using assms by (simp add: well_placed_def)
  then have "length fs < usize_max" using few by linarith
  from aggregate_arena_ok [OF shape locals _ this] W(4)
  have shape': "trie_shape fs (aggregate_arena arena) by_folder"
    and agg: "\<forall>i<length fs. node_aggregated fs cs (aggregate_arena arena) i" by auto
  from start_node_ok [OF shape W(1), of 0 0] W(2) obtain i where i: "i < length fs" "prefix (fs ! i) ?q"
    "start_node by_folder 0 ?q 0 = (i, length ?q - length (fs ! i))"
    "\<forall>g\<in>set fs. prefix g ?q \<longrightarrow> length g \<le> length (fs ! i)"
    by auto
  have cs: "\<forall>p\<in>set cs. folder_of p \<in> set fs \<and> length ?q + length (folder_of p) \<le> usize_max"
    using locals W(5) by (auto simp: locals_ok_def)
  have none: "stands empty_candidate (of_ext ext (dists cs ?q (\<lambda>f. False)))"
    by (simp add: dists_def of_ext_def)
  obtain best where best: "climb (aggregate_arena arena) ext (Some i) None (length ?q - length (fs ! i)) empty_candidate = Some best"
    "stands best (of_ext ext (dists cs ?q (\<lambda>f. True)))"
    using climb_ok [OF shape' agg cs W(2) i(1,2) refl, where prev = None and P = "\<lambda>f. False"
        and best = empty_candidate and ext = ext] i(4) none
    by auto
  let ?r = "if cand_count best = 1 then cand_sample best else None"
  have "trie_nearest ?t src ext = Some ?r" using i(3) best(1) by (simp add: trie_nearest_def)
  moreover have "unique_nearest cs src ext ?r"
  proof (cases "of_ext ext (dists cs ?q (\<lambda>f. True)) = {#}")
    case True
    then show ?thesis using best(2) by (simp add: unique_nearest_def empty_candidate_def)
  next
    case False
    let ?M = "of_ext ext (dists cs ?q (\<lambda>f. True))"
    obtain p where p: "cand_sample best = Some p" "(min_depth best, p) \<in># ?M" "\<forall>x\<in>#?M. min_depth best \<le> fst x"
      using best(2) False by (auto simp: stands_def split: option.splits)
    have "cand_count best = 1 \<longleftrightarrow> size (at_depth (min_depth best) ?M) = 1"
      using best(2) by (auto simp: stands_def usize_max_def min_def split: if_splits)
    then have r: "?r = (if size (at_depth (min_depth best) ?M) = 1 then Some p else None)"
      using p(1) by simp
    show ?thesis
      unfolding unique_nearest_def Let_def r by (rule allI) (rule unique_nearest_min [OF p(2,3)])
  qed
  ultimately show ?thesis using build by blast
qed

text \<open>The scan keeps the first of the nearest candidates and whether there is a second.\<close>

definition scanned :: "(nat \<times> path) option \<times> bool \<Rightarrow> (nat \<times> path) multiset \<Rightarrow> bool" where
  "scanned s M \<longleftrightarrow> (case s of
       (None, tied) \<Rightarrow> M = {#} \<and> \<not> tied
     | (Some (d, p), tied) \<Rightarrow> (d, p) \<in># M \<and> (\<forall>x\<in>#M. d \<le> fst x) \<and> (tied \<longleftrightarrow> size (at_depth d M) \<noteq> 1))"

lemma scanned_add:
  assumes "scanned (nearest, tied) M"
  shows "scanned (case nearest of
      Some (best, p) \<Rightarrow> if d > best then (nearest, tied) else if d = best then (nearest, True)
        else (Some (d, c), False)
    | None \<Rightarrow> (Some (d, c), False)) (add_mset (d, c) M)"
proof (cases nearest)
  case None
  then show ?thesis using assms by (simp add: scanned_def at_depth_def)
next
  case (Some bp)
  obtain b p where bp: "nearest = Some (b, p)" using Some by (cases bp) auto
  have M: "(b, p) \<in># M" "\<forall>x\<in>#M. b \<le> fst x" "tied \<longleftrightarrow> size (at_depth b M) \<noteq> 1"
    using assms bp by (auto simp: scanned_def)
  have ne: "size (at_depth b M) \<noteq> 0" using M(1) at_depth_mem [of b p M] by auto
  consider "b < d" | "d = b" | "d < b" by linarith
  then show ?thesis
  proof cases
    case 3
    then have "at_depth d M = {#}" using M(2) by (intro at_depth_empty) force
    then show ?thesis using 3 bp M by (auto simp: scanned_def at_depth_def)
  qed (use bp M ne in \<open>auto simp: scanned_def at_depth_def\<close>)
qed

lemma nearest_scan_ok:
  assumes "scanned (nearest, tied) (of_ext ext (dists before (folder_of src) (\<lambda>f. True)))"
    and "\<forall>p\<in>set cs. distance_to (folder_of src) (folder_of p) = tree_distance (folder_of src) (folder_of p)"
  shows "scanned (nearest_scan cs src ext nearest tied) (of_ext ext (dists (before @ cs) (folder_of src) (\<lambda>f. True)))"
  using assms
proof (induction cs src ext nearest tied arbitrary: before rule: nearest_scan.induct)
  case (2 c cs src ext nearest tied)
  let ?q = "folder_of src"
  have add: "dists (before @ [c]) ?q (\<lambda>f. True) = add_mset (distance_to ?q (folder_of c), c) (dists before ?q (\<lambda>f. True))"
    using "2.prems"(2) by (simp add: dists_def)
  show ?case
  proof (cases "ext \<noteq> None \<and> extension c \<noteq> ext")
    case True
    then have "of_ext ext (dists (before @ [c]) ?q (\<lambda>f. True)) = of_ext ext (dists before ?q (\<lambda>f. True))"
      unfolding add by (auto simp: of_ext_def)
    then show ?thesis using "2.IH"(1) [OF True, of "before @ [c]"] "2.prems" True by simp
  next
    case False
    then have "of_ext ext (dists (before @ [c]) ?q (\<lambda>f. True))
        = add_mset (distance_to ?q (folder_of c), c) (of_ext ext (dists before ?q (\<lambda>f. True)))"
      unfolding add by (auto simp: of_ext_def)
    with scanned_add [OF "2.prems"(1), of "distance_to ?q (folder_of c)" c]
    have next_ok: "scanned (case nearest of
        Some (best, p) \<Rightarrow> if distance_to ?q (folder_of c) > best then (nearest, tied)
          else if distance_to ?q (folder_of c) = best then (nearest, True)
          else (Some (distance_to ?q (folder_of c), c), False)
      | None \<Rightarrow> (Some (distance_to ?q (folder_of c), c), False)) (of_ext ext (dists (before @ [c]) ?q (\<lambda>f. True)))"
      by simp
    show ?thesis
      using "2.IH"(2-) [OF False refl, where before = "before @ [c]"] next_ok False "2.prems"(2)
      by (auto simp: Let_def split: option.splits if_splits)
  qed
qed simp

lemma nearest_flat_unique:
  assumes "well_placed cs src"
  shows "unique_nearest cs src ext (nearest_flat cs src ext)"
proof -
  let ?M = "of_ext ext (dists cs (folder_of src) (\<lambda>f. True))"
  obtain nearest tied where scan: "nearest_scan cs src ext None False = (nearest, tied)" by fastforce
  have "scanned (nearest, tied) ?M"
    using nearest_scan_ok [of None False ext "[]" src cs] well_placedD(5) [OF assms] scan
    by (simp add: scanned_def dists_def of_ext_def distance_to_tree_distance)
  note ok = this
  show ?thesis
  proof (cases nearest)
    case None
    then show ?thesis using ok scan by (simp add: unique_nearest_def nearest_flat_def scanned_def)
  next
    case (Some dp)
    obtain d p where dp: "nearest = Some (d, p)" using Some by (cases dp) auto
    then have M: "(d, p) \<in># ?M" "\<forall>x\<in>#?M. d \<le> fst x" "tied \<longleftrightarrow> size (at_depth d ?M) \<noteq> 1"
      using ok by (auto simp: scanned_def)
    have "nearest_flat cs src ext = (if size (at_depth d ?M) = 1 then Some p else None)"
      using M(3) dp by (simp add: nearest_flat_def scan)
    then show ?thesis
      unfolding unique_nearest_def Let_def by (auto simp only: unique_nearest_min [OF M(1,2)])
  qed
qed

section \<open>The interface of a basename index\<close>

text \<open>What link resolution relies on: building an index and querying it return, and the answer is
  the unique nearest candidate.\<close>

locale nearest_search =
  fixes build :: "path list \<Rightarrow> 'i option"
    and nearest :: "'i \<Rightarrow> path \<Rightarrow> string option \<Rightarrow> path option option"
  assumes answers: "well_placed cs src
    \<Longrightarrow> \<exists>ix r. build cs = Some ix \<and> nearest ix src ext = Some r \<and> unique_nearest cs src ext r"
begin

lemma agrees_with_scan:
  assumes "well_placed cs src"
  shows "\<exists>ix. build cs = Some ix \<and> nearest ix src ext = Some (nearest_flat cs src ext)"
proof -
  obtain ix r where r: "build cs = Some ix" "nearest ix src ext = Some r" "unique_nearest cs src ext r"
    using answers [OF assms] by blast
  with unique_nearest_det [OF r(3) nearest_flat_unique [OF assms]] show ?thesis by simp
qed

lemma order_irrelevant:
  assumes "well_placed cs src" "mset cs' = mset cs"
  shows "\<exists>ix ix'. build cs = Some ix \<and> build cs' = Some ix' \<and> nearest ix src ext = nearest ix' src ext"
proof -
  have "set cs' = set cs" by (rule mset_eq_setD [OF assms(2)])
  moreover have "sum_list (map (\<lambda>p. Suc (length p)) cs') = sum_list (map (\<lambda>p. Suc (length p)) cs)"
    unfolding sum_mset_sum_list [symmetric] mset_map assms(2) ..
  ultimately have placed: "well_placed cs' src"
    using assms(1) by (simp add: well_placed_def list_all_iff)
  obtain ix r where r: "build cs = Some ix" "nearest ix src ext = Some r" "unique_nearest cs src ext r"
    using answers [OF assms(1)] by blast
  obtain ix' r' where r': "build cs' = Some ix'" "nearest ix' src ext = Some r'" "unique_nearest cs' src ext r'"
    using answers [OF placed] by blast
  have "unique_nearest cs src ext r'"
    using r'(3) by (simp add: unique_nearest_def dists_def assms(2))
  from unique_nearest_det [OF r(3) this] show ?thesis using r r' by simp
qed

end

interpretation flat: nearest_search Some "\<lambda>cs src ext. Some (nearest_flat cs src ext)"
  by unfold_locales (use nearest_flat_unique in blast)

interpretation folder_trie: nearest_search trie_build trie_nearest
  by unfold_locales (use trie_nearest_unique in blast)

interpretation basename: nearest_search basename_index_build basename_nearest
proof unfold_locales
  fix cs src ext assume placed: "well_placed cs src"
  show "\<exists>ix r. basename_index_build cs = Some ix \<and> basename_nearest ix src ext = Some r
      \<and> unique_nearest cs src ext r"
  proof (cases "length cs \<ge> trie_threshold")
    case True
    with trie_nearest_unique [OF placed, of ext] show ?thesis by (auto simp: basename_index_build_def)
  next
    case False
    with nearest_flat_unique [OF placed, of ext] show ?thesis by (auto simp: basename_index_build_def)
  qed
qed

section \<open>Properties\<close>

text \<open>C2. The folder trie and the linear scan are interchangeable: building the trie and querying it
  terminate, and every query, with or without an extension filter and with ties, gives the answer
  of the scan; so does the index that picks one of the two by the number of candidates.\<close>

theorem trie_refines_scan:
  assumes "well_placed cs src"
  shows "(\<exists>t. trie_build cs = Some t \<and> trie_nearest t src ext = Some (nearest_flat cs src ext))
    \<and> (\<exists>ix. basename_index_build cs = Some ix \<and> basename_nearest ix src ext = Some (nearest_flat cs src ext))"
  using folder_trie.agrees_with_scan [OF assms] basename.agrees_with_scan [OF assms] by blast

theorem trie_refines_scan_witness:
  "\<exists>t. trie_build [[Normal ''a'', Normal ''n.md''], [Normal ''a'', Normal ''b'', Normal ''n.pdf''],
      [Normal ''c'', Normal ''n.md'']] = Some t
    \<and> trie_nearest t [Normal ''a'', Normal ''b'', Normal ''x.md''] (Some ''md'')
      = Some (Some [Normal ''a'', Normal ''n.md''])"
proof -
  let ?cs = "[[Normal ''a'', Normal ''n.md''], [Normal ''a'', Normal ''b'', Normal ''n.pdf''],
      [Normal ''c'', Normal ''n.md'']]"
  let ?src = "[Normal ''a'', Normal ''b'', Normal ''x.md'']"
  have "well_placed ?cs ?src" by (simp add: well_placed_def usize_max_def)
  moreover have "nearest_flat ?cs ?src (Some ''md'') = Some [Normal ''a'', Normal ''n.md'']" by code_simp
  ultimately show ?thesis using trie_refines_scan [of ?cs ?src "Some ''md''"] by auto
qed

text \<open>C24. A link to a basename resolves to a candidate exactly when that candidate is strictly
  nearer, in folder distance, than every other candidate with the wanted extension; ties are not
  resolved.\<close>

theorem nearest_flat_strictly_closest:
  assumes "well_placed cs src" "distinct cs"
  shows "nearest_flat cs src ext = Some p \<longleftrightarrow> p \<in> set cs \<and> (ext = None \<or> extension p = ext)
    \<and> (\<forall>q\<in>set cs. (ext = None \<or> extension q = ext) \<and> q \<noteq> p
        \<longrightarrow> distance_to (folder_of src) (folder_of p) < distance_to (folder_of src) (folder_of q))"
proof -
  let ?ok = "\<lambda>q. ext = None \<or> extension q = ext" and ?q = "folder_of src"
  let ?d = "\<lambda>q. tree_distance ?q (folder_of q)"
  let ?M = "of_ext ext (dists cs ?q (\<lambda>f. True))"
  have M: "?M = image_mset (\<lambda>q. (?d q, q)) (mset_set {q \<in> set cs. ?ok q})"
  proof -
    have "mset cs = mset_set (set cs)" using assms(2) by (simp add: mset_set_set)
    then show ?thesis
      by (cases ext) (simp_all add: of_ext_def dists_def filter_mset_image_mset filter_mset_mset_set)
  qed
  have at: "at_depth d ?M = image_mset (\<lambda>q. (d, q)) (mset_set {q \<in> set cs. ?ok q \<and> ?d q = d})" for d
  proof -
    have "at_depth d ?M = image_mset (\<lambda>q. (?d q, q)) (filter_mset (\<lambda>q. ?d q = d) (mset_set {q \<in> set cs. ?ok q}))"
      unfolding M at_depth_def by (simp add: filter_mset_image_mset)
    also have "filter_mset (\<lambda>q. ?d q = d) (mset_set {q \<in> set cs. ?ok q}) = mset_set {q \<in> set cs. ?ok q \<and> ?d q = d}"
      by (simp add: filter_mset_mset_set)
    finally show ?thesis by (auto intro!: image_mset_cong)
  qed
  have "(\<exists>d. at_depth d ?M = {#(d, p)#} \<and> (\<forall>x\<in>#?M. d \<le> fst x)) \<longleftrightarrow> p \<in> set cs \<and> ?ok p
      \<and> (\<forall>q\<in>set cs. ?ok q \<and> q \<noteq> p \<longrightarrow> ?d p < ?d q)" (is "?l \<longleftrightarrow> ?r")
  proof
    assume ?l
    then obtain d where "at_depth d ?M = {#(d, p)#}" and least: "\<forall>x\<in>#?M. d \<le> fst x" by blast
    then have "image_mset snd (at_depth d ?M) = {#p#}" by simp
    then have "mset_set {q \<in> set cs. ?ok q \<and> ?d q = d} = {#p#}"
      unfolding at by (simp add: image_mset.compositionality o_def)
    from arg_cong [OF this, of set_mset] have eq: "{q \<in> set cs. ?ok q \<and> ?d q = d} = {p}" by simp
    then have "p \<in> {q \<in> set cs. ?ok q \<and> ?d q = d}" by (simp only: insertI1)
    then have p: "p \<in> set cs" "?ok p" "?d p = d" by auto
    have "?d p < ?d q" if q: "q \<in> set cs" "?ok q" "q \<noteq> p" for q
    proof -
      have "d \<le> ?d q" using least q(1,2) unfolding M by auto
      moreover have "?d q \<noteq> d"
      proof
        assume "?d q = d"
        then have "q \<in> {q \<in> set cs. ?ok q \<and> ?d q = d}" using q by simp
        then show False unfolding eq using q(3) by simp
      qed
      ultimately show ?thesis using p(3) by simp
    qed
    with p show ?r by blast
  next
    assume r: ?r
    then have "{q \<in> set cs. ?ok q \<and> ?d q = ?d p} = {p}" by auto
    moreover have "\<forall>x\<in>#?M. ?d p \<le> fst x" using r unfolding M by (auto intro: less_imp_le)
    ultimately show ?l using at [of "?d p"] by (intro exI [of _ "?d p"]) simp
  qed
  moreover have "distance_to ?q (folder_of q) = ?d q" if "q \<in> set cs" for q
    using well_placedD(5) [OF assms(1) that] by (rule distance_to_tree_distance)
  ultimately show ?thesis
    using nearest_flat_unique [OF assms(1), of ext] unfolding unique_nearest_def Let_def by auto
qed

theorem nearest_flat_strictly_closest_witness:
  "nearest_flat [[Normal ''a'', Normal ''n.md''], [Normal ''b'', Normal ''n.md'']] [Normal ''x.md''] None = None"
proof -
  let ?cs = "[[Normal ''a'', Normal ''n.md''], [Normal ''b'', Normal ''n.md'']]"
  have "well_placed ?cs [Normal ''x.md'']" by (simp add: well_placed_def usize_max_def)
  note spec = nearest_flat_strictly_closest [OF this, of None]
  let ?a = "[Normal ''a'', Normal ''n.md'']" and ?b = "[Normal ''b'', Normal ''n.md'']"
  have one: "distance_to (folder_of [Normal ''x.md'']) (folder_of ?a) = 1"
    "distance_to (folder_of [Normal ''x.md'']) (folder_of ?b) = 1"
    by code_simp+
  have "nearest_flat ?cs [Normal ''x.md''] None \<noteq> Some p" for p
  proof
    assume some: "nearest_flat ?cs [Normal ''x.md''] None = Some p"
    then have "p = ?a \<or> p = ?b" using spec [of p] by simp
    then show False using some spec [of ?a] spec [of ?b] by (auto simp: one)
  qed
  then show ?thesis by blast
qed

end
