(* ===== verification/Inlinks.thy ===== *)
theory Inlinks
  imports Index_Rows Nearest "HOL-Library.Product_Lexorder"
begin

text \<open>
  \<open>src/index/inlinks.rs\<close> and the inlink delta of \<open>src/index/delta.rs\<close>: resolving the
  outlinks of notes to indexed files, the inbound link map, its incremental patch and the diff of
  two maps.  A hash map is the association list of its entries in iteration order.  An outer
  \<open>None\<close> is a query of a basename index that does not return; there is none (theory
  \<open>Nearest\<close>).
\<close>

section \<open>Resolving links\<close>

record link_resolver =
  resolver_files :: "file_meta list"
  basename_index_of :: "string \<Rightarrow> basename_index option option"

definition push_basename :: "file_meta \<Rightarrow> (string \<Rightarrow> path list option) \<Rightarrow> string \<Rightarrow> path list option" where
  "push_basename f m = (case file_stem (file_path f) of
       Some b \<Rightarrow> m(b \<mapsto> (case m b of Some ps \<Rightarrow> ps | None \<Rightarrow> []) @ [file_path f])
     | None \<Rightarrow> m)"

definition link_resolver_new :: "file_meta list \<Rightarrow> link_resolver" where
  "link_resolver_new files =
     (let by_basename = fold push_basename files (\<lambda>_. None)
      in \<lparr> resolver_files = files, basename_index_of = (\<lambda>b. map_option basename_index_build (by_basename b)) \<rparr>)"

definition get_by_path :: "link_resolver \<Rightarrow> path \<Rightarrow> path option" where
  "get_by_path r p = (case binary_search_by_path file_path (resolver_files r) p of
       Inr i \<Rightarrow> map_option file_path (slice_get (resolver_files r) i)
     | Inl _ \<Rightarrow> None)"

definition nearest_by_basename :: "link_resolver \<Rightarrow> string \<Rightarrow> path \<Rightarrow> string option \<Rightarrow> path option option" where
  "nearest_by_basename r basename src target_ext = (case basename_index_of r basename of
       None \<Rightarrow> Some None
     | Some build \<Rightarrow> Option.bind build (\<lambda>ix. basename_nearest ix src target_ext))"

text \<open>\<open>Path::with_extension\<close> on a path with a file name.\<close>

definition with_extension :: "path \<Rightarrow> string \<Rightarrow> path" where
  "with_extension p ext = (case file_stem p of
       Some stem \<Rightarrow> butlast p @ [Normal (stem @ ''.'' @ ext)]
     | None \<Rightarrow> p)"

definition resolve_link :: "link_resolver \<Rightarrow> path \<Rightarrow> link_target_parts \<Rightarrow> path option option" where
  "resolve_link r src target =
     (if \<not> has_path target then Some None
      else case target_path target of
        None \<Rightarrow> Some None
      | Some path_part \<Rightarrow>
        let candidate = components path_part in
        case get_by_path r candidate of
          Some p \<Rightarrow> Some (Some p)
        | None \<Rightarrow>
          case (if extension candidate = None then get_by_path r (with_extension candidate ''md'') else None) of
            Some p \<Rightarrow> Some (Some p)
          | None \<Rightarrow>
            if \<not> is_basename target then Some None
            else
              let basename = (case file_stem candidate of Some s \<Rightarrow> s | None \<Rightarrow> path_part);
                  untyped = nearest_by_basename r basename src None
              in case extension candidate of
                   None \<Rightarrow> untyped
                 | Some ext \<Rightarrow> Option.bind (nearest_by_basename r basename src (Some ext)) (\<lambda>found.
                     case found of Some p \<Rightarrow> Some (Some p) | None \<Rightarrow> untyped))"

definition resolve_note :: "link_resolver \<Rightarrow> md_note \<Rightarrow> path list option" where
  "resolve_note r n =
     map_option (\<lambda>targets. dedup (sort (List.map_filter id targets)))
       (those (map (\<lambda>outlink. resolve_link r (note_path n) (target_parts outlink)) (note_outlinks n)))"

definition note_edges :: "link_resolver \<Rightarrow> md_note \<Rightarrow> (path \<times> path) list option" where
  "note_edges r n = map_option (map (\<lambda>t. (t, note_path n))) (resolve_note r n)"

definition resolve_edges_for :: "md_note list \<Rightarrow> file_meta list \<Rightarrow> (path \<times> path) list option" where
  "resolve_edges_for ns files =
     (let resolver = link_resolver_new files in map_option concat (those (map (note_edges resolver) ns)))"

section \<open>The inlink map\<close>

function from_flat_edges :: "(path \<times> path) list \<Rightarrow> inlink_map \<Rightarrow> inlink_map" where
  "from_flat_edges [] edges = edges"
| "from_flat_edges (first # rest) edges =
     (let group_len = partition_point (\<lambda>edge. fst edge = fst first) rest;
          sources = snd first # map snd (take group_len rest)
      in from_flat_edges (drop group_len rest) (AList.update (fst first) sources edges))"
  by pat_completeness auto

termination by (relation "measure (\<lambda>(flat, _). length flat)") auto

definition inlinks_with_resolver :: "md_note list \<Rightarrow> link_resolver \<Rightarrow> inlink_map option" where
  "inlinks_with_resolver ns r = map_option (\<lambda>edges. from_flat_edges (dedup (sort (concat edges))) [])
     (those (map (note_edges r) ns))"

definition inlinks_of :: "inlink_map \<Rightarrow> path \<Rightarrow> path list" where
  "inlinks_of m t = (case map_of m t of Some ss \<Rightarrow> ss | None \<Rightarrow> [])"

record inlink_delta =
  links_upserted :: "(path \<times> path) list"
  links_deleted :: "(path \<times> path) list"

text \<open>\<open>retain\<close>: the entries with an edited source lose it, and disappear when they have no other.\<close>

fun retain_unedited :: "path set \<Rightarrow> inlink_map \<Rightarrow> inlink_map \<times> (path \<times> path) list" where
  "retain_unedited edited [] = ([], [])"
| "retain_unedited edited ((t, srcs) # m) =
     (let (m', removed) = retain_unedited edited m in
      if \<not> list_ex (\<lambda>s. s \<in> edited) srcs then ((t, srcs) # m', removed)
      else let filtered = filter (\<lambda>s. s \<notin> edited) srcs;
               gone = map (Pair t) (filter (\<lambda>s. s \<in> edited) srcs)
           in (if filtered \<noteq> [] then (t, filtered) # m' else m', gone @ removed))"

fun insert_edges ::
  "(path \<times> path) list \<Rightarrow> inlink_map \<Rightarrow> (path \<times> path) list \<Rightarrow> inlink_map \<times> (path \<times> path) list"
where
  "insert_edges [] m added = (m, added)"
| "insert_edges ((t, src) # es) m added =
     (let sources = inlinks_of m t in
      case binary_search_by (\<lambda>s. compare s src) sources of
        Inl pos \<Rightarrow> insert_edges es (AList.update t (take pos sources @ src # drop pos sources) m) (added @ [(t, src)])
      | Inr _ \<Rightarrow> insert_edges es (AList.update t sources m) added)"

definition swap_remove :: "nat \<Rightarrow> 'a list \<Rightarrow> 'a list" where
  "swap_remove i xs = (let ys = butlast xs in if i < length ys then ys[i := last xs] else ys)"

fun cancel_edges :: "'a list \<Rightarrow> 'a list \<Rightarrow> 'a list \<times> 'a list" where
  "cancel_edges [] removed = ([], removed)"
| "cancel_edges (e # es) removed = (case find_byte e removed of
       Some pos \<Rightarrow> cancel_edges es (swap_remove pos removed)
     | None \<Rightarrow> (let (kept, removed') = cancel_edges es removed in (e # kept, removed')))"

definition patch_and_diff :: "inlink_map \<Rightarrow> path set \<Rightarrow> (path \<times> path) list \<Rightarrow> inlink_map \<times> inlink_delta" where
  "patch_and_diff m edited new_edges =
     (let (m1, removed) = retain_unedited edited m;
          (m2, added) = insert_edges new_edges m1 [];
          (upserted, removed') = cancel_edges added removed
      in (m2, \<lparr> links_upserted = upserted, links_deleted = removed' \<rparr>))"

fun diff_sorted_sources :: "path \<Rightarrow> path list \<Rightarrow> path list \<Rightarrow> (path \<times> path) list" where
  "diff_sorted_sources t (l # ls) (r # rs) = (case compare l r of
       Less \<Rightarrow> (t, l) # diff_sorted_sources t ls (r # rs)
     | Greater \<Rightarrow> diff_sorted_sources t (l # ls) rs
     | Equal \<Rightarrow> diff_sorted_sources t ls rs)"
| "diff_sorted_sources t (l # ls) [] = (t, l) # diff_sorted_sources t ls []"
| "diff_sorted_sources t [] rs = []"

definition inlink_delta_compute :: "inlink_map \<Rightarrow> inlink_map \<Rightarrow> inlink_delta" where
  "inlink_delta_compute current persisted =
     \<lparr> links_upserted = concat (map (\<lambda>(t, ss). diff_sorted_sources t ss (inlinks_of persisted t)) current),
       links_deleted = concat (map (\<lambda>(t, ss). diff_sorted_sources t ss (inlinks_of current t)) persisted) \<rparr>"

section \<open>Canonical maps\<close>

text \<open>Every target has at least one source, and its sources are strictly ascending.\<close>

definition canonical :: "inlink_map \<Rightarrow> bool" where
  "canonical m \<longleftrightarrow> distinct (map fst m)
     \<and> list_all (\<lambda>(t, ss). ss \<noteq> [] \<and> sorted_wrt (<) ss) m"

definition edges_of :: "inlink_map \<Rightarrow> (path \<times> path) set" where
  "edges_of m = {(t, s). \<exists>ss. map_of m t = Some ss \<and> s \<in> set ss}"

lemma canonical_iff:
  "canonical m \<longleftrightarrow> distinct (map fst m) \<and> (\<forall>t ss. map_of m t = Some ss \<longrightarrow> ss \<noteq> [] \<and> sorted_wrt (<) ss)"
proof (cases "distinct (map fst m)")
  case True
  then show ?thesis unfolding canonical_def list_all_iff map_of_eq_Some_iff [OF True] by fast
qed (simp add: canonical_def)

lemma canonical_update:
  assumes "canonical m" "ss \<noteq> []" "sorted_wrt (<) ss"
  shows "canonical (AList.update t ss m)"
  using assms by (auto simp: canonical_iff distinct_update update_conv' split: if_splits)

lemma edges_of_inlinks: "(t, s) \<in> edges_of m \<longleftrightarrow> s \<in> set (inlinks_of m t)"
  by (cases "map_of m t") (auto simp: edges_of_def inlinks_of_def)

lemma inlinks_of_update: "inlinks_of (AList.update t ss m) t' = (if t' = t then ss else inlinks_of m t')"
  by (simp add: inlinks_of_def update_conv')

lemma inlinks_of_sorted: "canonical m \<Longrightarrow> sorted_wrt (<) (inlinks_of m t)"
  by (auto simp: canonical_iff inlinks_of_def split: option.split)

lemma canonical_ext:
  assumes "canonical m" "canonical m'" "edges_of m = edges_of m'"
  shows "map_of m = map_of m'"
proof
  fix t
  have "set (inlinks_of m t) = set (inlinks_of m' t)"
    using assms(3) edges_of_inlinks by blast
  then have "inlinks_of m t = inlinks_of m' t"
    using inlinks_of_sorted [OF assms(1)] inlinks_of_sorted [OF assms(2)]
    by (intro sorted_distinct_set_unique) (auto simp: strict_sorted_iff)
  then show "map_of m t = map_of m' t"
    using assms(1,2) by (auto simp: canonical_iff inlinks_of_def split: option.splits)
qed

text \<open>Grouping sorted edges.\<close>

lemma sorted_map_snd:
  fixes es :: "(path \<times> path) list"
  shows "sorted_wrt (<) es \<Longrightarrow> \<forall>e\<in>set es. fst e = t \<Longrightarrow> sorted_wrt (<) (map snd es)"
proof (induction es)
  case (Cons e es)
  have "snd e < snd x" if "x \<in> set es" for x
  proof -
    have "e < x" "fst e = fst x" using Cons.prems that by auto
    then show ?thesis by (simp add: less_prod_def)
  qed
  with Cons show ?case by simp
qed simp

lemma from_flat_edges_spec:
  assumes "sorted_wrt (<) es" "canonical m" "\<forall>e\<in>set es. map_of m (fst e) = None"
  shows "canonical (from_flat_edges es m) \<and> edges_of (from_flat_edges es m) = set es \<union> edges_of m"
  using assms
proof (induction es m rule: from_flat_edges.induct)
  case (2 first rest m)
  let ?t = "fst first" and ?p = "\<lambda>e. fst e = fst first"
  let ?n = "partition_point ?p rest"
  have ge: "?t \<le> fst e" if "e \<in> set rest" for e
    using "2.prems"(1) that by (auto simp: less_prod_def)
  have sorted: "sorted_wrt (<) rest" using "2.prems"(1) by simp
  have mono: "\<forall>i j. i < j \<longrightarrow> j < length rest \<longrightarrow> ?p (rest ! j) \<longrightarrow> ?p (rest ! i)"
  proof (intro allI impI)
    fix i j assume ij: "i < j" "j < length rest" "?p (rest ! j)"
    then have "rest ! i < rest ! j" using sorted by (simp add: sorted_wrt_nth_less)
    then have "fst (rest ! i) \<le> fst (rest ! j)" by (auto simp: less_prod_def)
    moreover have "?t \<le> fst (rest ! i)" using ge ij by simp
    ultimately show "?p (rest ! i)" using ij(3) by simp
  qed
  let ?same = "take ?n rest" and ?tail = "drop ?n rest"
  have same: "\<forall>e\<in>set ?same. fst e = ?t" and tail: "\<forall>e\<in>set ?tail. fst e \<noteq> ?t"
    using partition_point_spec(2,3) [OF mono] by blast+
  let ?ss = "snd first # map snd ?same"
  have "sorted_wrt (<) (first # ?same)"
    using "2.prems"(1) sorted_wrt_take [of "(<)" rest ?n] by (auto dest: in_set_takeD)
  moreover have "\<forall>e\<in>set (first # ?same). fst e = ?t"
  proof
    fix e assume "e \<in> set (first # ?same)"
    then have "e = first \<or> e \<in> set ?same" by (simp only: list.set insert_iff)
    then show "fst e = ?t" by (elim disjE) (simp only:, rule bspec [OF same])
  qed
  ultimately have "sorted_wrt (<) (map snd (first # ?same))" by (rule sorted_map_snd)
  then have ss: "sorted_wrt (<) ?ss" by simp
  have "sorted_wrt (<) ?tail" using sorted by (rule sorted_wrt_drop)
  moreover have "canonical (AList.update ?t ?ss m)" using "2.prems"(2) ss by (intro canonical_update) auto
  moreover have "\<forall>e\<in>set ?tail. map_of (AList.update ?t ?ss m) (fst e) = None"
  proof
    fix e assume e: "e \<in> set ?tail"
    then have "e \<in> set (first # rest)" by (simp add: in_set_dropD)
    then have "map_of m (fst e) = None" using "2.prems"(3) by blast
    with bspec [OF tail e] show "map_of (AList.update ?t ?ss m) (fst e) = None" by (simp add: update_conv')
  qed
  ultimately have "canonical (from_flat_edges ?tail (AList.update ?t ?ss m))
      \<and> edges_of (from_flat_edges ?tail (AList.update ?t ?ss m)) = set ?tail \<union> edges_of (AList.update ?t ?ss m)"
    using "2.IH" [OF refl refl] by blast
  moreover have "edges_of (AList.update ?t ?ss m) = insert first (set ?same) \<union> edges_of m"
  proof -
    have none: "inlinks_of m ?t = []" using "2.prems"(3) by (simp add: inlinks_of_def)
    have mem: "(t, s) \<in> insert first (set ?same) \<longleftrightarrow> t = ?t \<and> s \<in> set ?ss" for t s
    proof -
      have "(t, s) \<in> set ?same \<longleftrightarrow> t = ?t \<and> s \<in> snd ` set ?same"
      proof
        assume e: "(t, s) \<in> set ?same"
        from bspec [OF same e] have "t = ?t" by (simp only: fst_conv)
        moreover from e have "snd (t, s) \<in> snd ` set ?same" by (rule imageI)
        ultimately show "t = ?t \<and> s \<in> snd ` set ?same" by (simp only: snd_conv)
      next
        assume "t = ?t \<and> s \<in> snd ` set ?same"
        then obtain e where e: "e \<in> set ?same" "s = snd e" "t = ?t" by (elim conjE imageE) metis
        from bspec [OF same e(1)] e(2,3) have "e = (t, s)" by (intro prod_eqI) (simp_all only: fst_conv snd_conv)
        then show "(t, s) \<in> set ?same" using e(1) by (simp only:)
      qed
      then show ?thesis by (cases first) auto
    qed
    have "(t, s) \<in> edges_of (AList.update ?t ?ss m) \<longleftrightarrow> (t, s) \<in> insert first (set ?same) \<union> edges_of m" for t s
      unfolding edges_of_inlinks inlinks_of_update Un_iff mem using none by (cases "t = ?t") simp_all
    then show ?thesis by (intro set_eqI) (simp only: split_paired_all)
  qed
  moreover have "set rest = set ?same \<union> set ?tail" by (metis append_take_drop_id set_append)
  ultimately show ?case
    unfolding from_flat_edges.simps Let_def list.set by blast
qed simp

section \<open>The patch\<close>

text \<open>A map whose sources are listed in some order, each once.\<close>

definition listed :: "(path \<Rightarrow> path \<Rightarrow> bool) \<Rightarrow> inlink_map \<Rightarrow> bool" where
  "listed R m \<longleftrightarrow> distinct (map fst m)
     \<and> list_all (\<lambda>(t, ss). ss \<noteq> [] \<and> distinct ss \<and> sorted_wrt R ss) m"

lemma canonical_listed: "canonical m \<longleftrightarrow> listed (<) m"
  by (auto simp: canonical_def listed_def list_all_iff strict_sorted_iff)

lemma retain_unedited_listed:
  assumes "retain_unedited edited m = (m', removed)" "listed R m"
  shows "listed R m' \<and> set (map fst m') \<subseteq> set (map fst m)
    \<and> (\<forall>t. inlinks_of m' t = filter (\<lambda>s. s \<notin> edited) (inlinks_of m t))
    \<and> distinct removed \<and> set removed = {(t, s). s \<in> set (inlinks_of m t) \<and> s \<in> edited}"
  using assms
proof (induction m arbitrary: m' removed)
  case (Cons e m)
  obtain t ss where e: "e = (t, ss)" by (cases e)
  obtain m1 r1 where rec: "retain_unedited edited m = (m1, r1)" by fastforce
  have canon: "listed R m" "t \<notin> set (map fst m)" "ss \<noteq> []" "distinct ss" "sorted_wrt R ss"
    using Cons.prems(2) by (auto simp: listed_def e)
  note ih = Cons.IH [OF rec canon(1)]
  let ?f = "filter (\<lambda>s. s \<notin> edited) ss" and ?g = "filter (\<lambda>s. s \<in> edited) ss"
  have plain: "?f = ss \<and> ?g = []" if "\<not> list_ex (\<lambda>s. s \<in> edited) ss"
    using that by (auto simp: list_ex_iff filter_id_conv filter_empty_conv)
  then have results: "m' = (if ?f \<noteq> [] then (t, ?f) # m1 else m1)" "removed = map (Pair t) ?g @ r1"
    using Cons.prems(1) canon(3) by (auto simp: e rec Let_def split: if_splits)
  have look: "inlinks_of (e # m) u = (if u = t then ss else inlinks_of m u)" for u
    by (simp add: inlinks_of_def e)
  have none: "inlinks_of m t = []" "t \<notin> set (map fst m1)"
    using canon(2) ih by (auto simp: inlinks_of_def map_of_eq_None_iff [THEN iffD2])
  have "listed R m'"
    using ih none(2) canon(4,5) by (auto simp: listed_def results sorted_wrt_filter)
  moreover have "set (map fst m') \<subseteq> set (map fst (e # m))" using ih by (auto simp: results e)
  moreover have "inlinks_of m' u = filter (\<lambda>s. s \<notin> edited) (inlinks_of (e # m) u)" for u
  proof (cases "u = t")
    case True
    have "inlinks_of m1 t = []" using none(2) by (simp add: inlinks_of_def map_of_eq_None_iff [THEN iffD2])
    with True show ?thesis by (simp add: look results) (simp add: inlinks_of_def)
  next
    case False
    then have "inlinks_of m' u = inlinks_of m1 u" by (simp add: results inlinks_of_def)
    with False ih show ?thesis by (simp add: look)
  qed
  moreover have "distinct removed"
    using ih canon(4) none(1) by (auto simp: results distinct_map inj_on_def)
  moreover have "set removed = {(u, s). s \<in> set (inlinks_of (e # m) u) \<and> s \<in> edited}"
    using ih none(1) by (auto simp: results look split: if_splits)
  ultimately show ?case by blast
qed (simp add: inlinks_of_def listed_def)

lemmas retain_unedited_spec = retain_unedited_listed [where R = "(<)", folded canonical_listed]

lemma sorted_insert_at:
  assumes "sorted_wrt (<) (xs :: 'a::linorder list)" "binary_search_by (\<lambda>s. compare s x) xs = Err pos"
  shows "sorted_wrt (<) (take pos xs @ x # drop pos xs)" "x \<notin> set xs"
proof -
  have "sorted (map (\<lambda>s. s) xs)" using assms(1) by (simp add: strict_sorted_iff)
  from binary_search_key_Err(2,3) [OF assms(2) this]
  have "\<forall>y\<in>set (take pos xs). y < x" "\<forall>y\<in>set (drop pos xs). x < y" .
  moreover have "sorted_wrt (<) (take pos xs @ drop pos xs)" using assms(1) by simp
  ultimately show "sorted_wrt (<) (take pos xs @ x # drop pos xs)"
    unfolding sorted_wrt_append by auto
  show "x \<notin> set xs"
    using \<open>\<forall>y\<in>set (take pos xs). y < x\<close> \<open>\<forall>y\<in>set (drop pos xs). x < y\<close>
    by (metis append_take_drop_id less_irrefl set_append Un_iff)
qed

lemma insert_edges_spec:
  assumes "insert_edges es m added = (m', added')" "canonical m" "distinct added" "set added \<subseteq> edges_of m"
  shows "canonical m' \<and> edges_of m' = edges_of m \<union> set es
    \<and> distinct added' \<and> set added' = set added \<union> (set es - edges_of m)"
  using assms
proof (induction es m added rule: insert_edges.induct)
  case (2 t src es m added)
  let ?ss = "inlinks_of m t"
  have ss: "sorted_wrt (<) ?ss" by (rule inlinks_of_sorted [OF "2.prems"(2)])
  show ?case
  proof (cases "binary_search_by (\<lambda>s. compare s src) ?ss")
    case (Inl pos)
    let ?new = "take pos ?ss @ src # drop pos ?ss"
    let ?m = "AList.update t ?new m"
    have new: "sorted_wrt (<) ?new" "src \<notin> set ?ss" using sorted_insert_at [OF ss Inl] by auto
    have set_new: "set ?new = insert src (set ?ss)"
      by (metis append_take_drop_id Un_insert_right list.simps(15) set_append)
    have edges: "edges_of ?m = insert (t, src) (edges_of m)"
    proof (intro set_eqI, unfold split_paired_all)
      fix u s
      show "(u, s) \<in> edges_of ?m \<longleftrightarrow> (u, s) \<in> insert (t, src) (edges_of m)"
        unfolding edges_of_inlinks inlinks_of_update insert_iff using set_new by (cases "u = t") auto
    qed
    have fresh: "(t, src) \<notin> edges_of m" using new(2) by (simp add: edges_of_inlinks)
    have "canonical ?m" using "2.prems"(2) new(1) by (intro canonical_update) auto
    have ins: "insert_edges es ?m (added @ [(t, src)]) = (m', added')"
      using "2.prems"(1) Inl by (simp add: Let_def)
    have "(t, src) \<notin> set added" using fresh "2.prems"(4) by blast
    then have added: "distinct (added @ [(t, src)])" "set (added @ [(t, src)]) \<subseteq> edges_of ?m"
      unfolding edges using "2.prems"(3,4) by auto
    have "set (added @ [(t, src)]) \<union> (set es - insert (t, src) (edges_of m))
        = set added \<union> (set ((t, src) # es) - edges_of m)"
      using fresh by auto
    with "2.IH"(1) [OF refl Inl ins \<open>canonical ?m\<close> added] show ?thesis
      unfolding edges by simp
  next
    case (Inr i)
    have "sorted (map (\<lambda>s. s) ?ss)" using ss by (simp add: strict_sorted_iff)
    from binary_search_key_Ok [OF Inr this] have src: "src \<in> set ?ss" by auto
    let ?m = "AList.update t ?ss m"
    have edges: "edges_of ?m = edges_of m"
    proof (intro set_eqI, unfold split_paired_all)
      fix u s
      show "(u, s) \<in> edges_of ?m \<longleftrightarrow> (u, s) \<in> edges_of m"
        unfolding edges_of_inlinks inlinks_of_update by simp
    qed
    have old: "(t, src) \<in> edges_of m" using src by (simp add: edges_of_inlinks)
    have "canonical ?m" using "2.prems"(2) ss src by (intro canonical_update) auto
    from "2.IH"(2) [OF refl Inr _ this] "2.prems" old edges Inr
    show ?thesis by (auto simp: Let_def)
  qed
qed simp

lemma swap_remove_spec:
  assumes "i < length xs" "distinct xs"
  shows "distinct (swap_remove i xs)" "set (swap_remove i xs) = set xs - {xs ! i}"
proof -
  obtain ys y where xs: "xs = ys @ [y]" using assms(1) by (cases xs rule: rev_cases) auto
  have "mset (swap_remove i xs) = mset xs - {#xs ! i#}"
    using assms(1) xs by (auto simp: swap_remove_def Let_def mset_update nth_append less_Suc_eq)
  then show "distinct (swap_remove i xs)" "set (swap_remove i xs) = set xs - {xs ! i}"
    using assms by (metis distinct_remove1 mset_eq_imp_distinct_iff mset_remove1,
        metis assms(2) mset_eq_setD mset_remove1 set_remove1_eq)
qed

lemma find_byte_Some: "find_byte c xs = Some i \<Longrightarrow> i < length xs \<and> xs ! i = c"
proof -
  have "c \<in> set xs \<Longrightarrow> length (takeWhile (\<lambda>x. x \<noteq> c) xs) < length xs \<and> xs ! length (takeWhile (\<lambda>x. x \<noteq> c) xs) = c"
    by (induction xs) auto
  then show "find_byte c xs = Some i \<Longrightarrow> i < length xs \<and> xs ! i = c"
    by (auto simp: find_byte_def split: if_splits)
qed

lemma cancel_edges_spec:
  assumes "cancel_edges es removed = (kept, removed')" "distinct es" "distinct removed"
  shows "distinct kept \<and> distinct removed' \<and> set kept = set es - set removed \<and> set removed' = set removed - set es"
  using assms
proof (induction es removed arbitrary: kept removed' rule: cancel_edges.induct)
  case (2 e es removed)
  show ?case
  proof (cases "find_byte e removed")
    case None
    then have "e \<notin> set removed" by (simp add: find_byte_def split: if_splits)
    with None 2 show ?thesis by (auto split: prod.splits)
  next
    case (Some i)
    from find_byte_Some [OF Some] have i: "i < length removed" "removed ! i = e" by auto
    note sr = swap_remove_spec [OF i(1) "2.prems"(3)]
    have "e \<in> set removed" using i by auto
    with "2.IH"(2) [OF Some _ _ sr(1)] "2.prems" Some sr(2) i(2) show ?thesis by auto
  qed
qed simp

lemma patch_and_diff_spec:
  assumes "canonical m" "patch_and_diff m edited new_edges = (m', d)"
  shows "canonical m'"
    and "edges_of m' = {e \<in> edges_of m. snd e \<notin> edited} \<union> set new_edges"
    and "distinct (links_upserted d)" "set (links_upserted d) = edges_of m' - edges_of m"
    and "distinct (links_deleted d)" "set (links_deleted d) = edges_of m - edges_of m'"
proof -
  obtain m1 removed where r: "retain_unedited edited m = (m1, removed)" by fastforce
  obtain m2 added where a: "insert_edges new_edges m1 [] = (m2, added)" by fastforce
  obtain kept removed' where c: "cancel_edges added removed = (kept, removed')" by fastforce
  have m': "m' = m2" "links_upserted d = kept" "links_deleted d = removed'"
    using assms(2) by (auto simp: patch_and_diff_def r a c)
  note R = retain_unedited_spec [OF r assms(1)]
  then have edges1: "edges_of m1 = {e \<in> edges_of m. snd e \<notin> edited}"
    by (auto simp: edges_of_inlinks)
  have gone: "set removed = {e \<in> edges_of m. snd e \<in> edited}"
    using R by (auto simp: edges_of_inlinks)
  have A: "canonical m2" "edges_of m2 = edges_of m1 \<union> set new_edges" "distinct added"
    "set added = set new_edges - edges_of m1"
    using insert_edges_spec [OF a] R by auto
  have C: "distinct kept" "distinct removed'" "set kept = set added - set removed" "set removed' = set removed - set added"
    using cancel_edges_spec [OF c A(3)] R by auto
  show "canonical m'" "edges_of m' = {e \<in> edges_of m. snd e \<notin> edited} \<union> set new_edges"
    using A edges1 m' by auto
  show "distinct (links_upserted d)" "distinct (links_deleted d)" using C m' by auto
  show "set (links_upserted d) = edges_of m' - edges_of m" "set (links_deleted d) = edges_of m - edges_of m'"
    unfolding m' C A edges1 gone by auto
qed

section \<open>The diff of two maps\<close>

lemma diff_sorted_sources_steps:
  "l < r \<Longrightarrow> diff_sorted_sources t (l # ls) (r # rs) = (t, l) # diff_sorted_sources t ls (r # rs)"
  "r < l \<Longrightarrow> diff_sorted_sources t (l # ls) (r # rs) = diff_sorted_sources t (l # ls) rs"
  "diff_sorted_sources t (l # ls) (l # rs) = diff_sorted_sources t ls rs"
  by (simp_all add: compare_def less_not_sym less_imp_not_eq2)

lemma diff_sorted_sources_spec:
  "sorted_wrt (<) ls \<Longrightarrow> sorted_wrt (<) rs
    \<Longrightarrow> diff_sorted_sources t ls rs = map (Pair t) (filter (\<lambda>l. l \<notin> set rs) ls)"
proof (induction t ls rs rule: diff_sorted_sources.induct)
  case (1 t l ls r rs)
  note ih = "1.IH"
  consider (Less) "l < r" | (Equal) "l = r" | (Greater) "r < l" by fastforce
  then show ?case
  proof cases
    case Less
    then have "l \<notin> set (r # rs)" "compare l r = Less" using "1.prems" by auto
    then show ?thesis
      unfolding diff_sorted_sources_steps(1) [OF Less] using ih(1) "1.prems" by simp
  next
    case Equal
    then have "filter (\<lambda>s. s \<notin> set (r # rs)) ls = filter (\<lambda>s. s \<notin> set rs) ls"
      using "1.prems" by (intro filter_cong) auto
    then show ?thesis
      unfolding Equal diff_sorted_sources_steps(3) using ih(2) "1.prems" Equal by simp
  next
    case Greater
    then have "filter (\<lambda>s. s \<notin> set (r # rs)) (l # ls) = filter (\<lambda>s. s \<notin> set rs) (l # ls)"
      using "1.prems" by (intro filter_cong) auto
    moreover have "compare l r = Greater" using Greater by simp
    ultimately show ?thesis
      unfolding diff_sorted_sources_steps(2) [OF Greater] using ih(3) "1.prems" by simp
  qed
next
  case (2 t l ls)
  then show ?case by (simp add: filter_id_conv)
qed simp

lemma inlink_diff_edges:
  assumes "canonical m" "canonical m'"
  shows "distinct (concat (map (\<lambda>(t, ss). diff_sorted_sources t ss (inlinks_of m' t)) m))
    \<and> set (concat (map (\<lambda>(t, ss). diff_sorted_sources t ss (inlinks_of m' t)) m)) = edges_of m - edges_of m'"
  using assms(1)
proof (induction m)
  case (Cons e m)
  obtain t ss where e: "e = (t, ss)" by (cases e)
  have canon: "canonical m" "t \<notin> set (map fst m)" "sorted_wrt (<) ss"
    using Cons.prems by (auto simp: canonical_def e)
  have diff: "diff_sorted_sources t ss (inlinks_of m' t) = map (Pair t) (filter (\<lambda>s. s \<notin> set (inlinks_of m' t)) ss)"
    by (rule diff_sorted_sources_spec [OF canon(3) inlinks_of_sorted [OF assms(2)]])
  have none: "inlinks_of m t = []" using canon(2) by (simp add: inlinks_of_def map_of_eq_None_iff [THEN iffD2])
  have look: "inlinks_of (e # m) u = (if u = t then ss else inlinks_of m u)" for u
    by (simp add: inlinks_of_def e)
  have edges: "edges_of (e # m) = Pair t ` set ss \<union> edges_of m"
    using none by (auto simp: edges_of_inlinks look split: if_splits)
  have "\<forall>x\<in>edges_of m. fst x \<noteq> t" using none by (auto simp: edges_of_inlinks)
  moreover have "distinct (map (Pair t) (filter (\<lambda>s. s \<notin> set (inlinks_of m' t)) ss))"
    using canon(3) by (simp add: distinct_map inj_on_def strict_sorted_iff)
  ultimately show ?case
    using Cons.IH [OF canon(1)] edges unfolding e diff list.map concat.simps prod.case
    by (auto simp: edges_of_inlinks)
qed (simp add: edges_of_def)

lemma inlink_delta_compute_spec:
  assumes "canonical m" "canonical m'"
  shows "set (links_upserted (inlink_delta_compute m m')) = edges_of m - edges_of m'"
    "set (links_deleted (inlink_delta_compute m m')) = edges_of m' - edges_of m"
    "distinct (links_upserted (inlink_delta_compute m m'))" "distinct (links_deleted (inlink_delta_compute m m'))"
  using inlink_diff_edges [OF assms] inlink_diff_edges [OF assms(2,1)]
  by (simp_all add: inlink_delta_compute_def)

end
