(* ===== verification/Resolution.thy ===== *)
theory Resolution
  imports Inlinks
begin

text \<open>
  What link resolution and the inbound link map of \<open>src/index/inlinks.rs\<close> compute.  The
  reference definition \<open>resolution\<close> looks only at the paths of the indexed files; resolution
  through the sorted files and the basename indexes equals it and always returns.  From it follow the
  exact edges of a full build and of an incremental patch.
\<close>

section \<open>The reference\<close>

definition named :: "path list \<Rightarrow> string \<Rightarrow> path list" where
  "named paths basename = filter (\<lambda>p. file_stem p = Some basename) paths"

definition basename_resolution :: "path list \<Rightarrow> path \<Rightarrow> path \<Rightarrow> string \<Rightarrow> path option" where
  "basename_resolution paths src candidate path_part =
     (let same_name = named paths (case file_stem candidate of Some s \<Rightarrow> s | None \<Rightarrow> path_part)
      in case Option.bind (extension candidate) (\<lambda>ext. nearest_flat same_name src (Some ext)) of
           Some p \<Rightarrow> Some p
         | None \<Rightarrow> nearest_flat same_name src None)"

definition resolution :: "path list \<Rightarrow> path \<Rightarrow> link_target_parts \<Rightarrow> path option" where
  "resolution paths src target = (case target_path target of
       None \<Rightarrow> None
     | Some path_part \<Rightarrow>
         let candidate = components path_part in
         if path_part = [] then None
         else if candidate \<in> set paths then Some candidate
         else if extension candidate = None \<and> with_extension candidate ''md'' \<in> set paths
           then Some (with_extension candidate ''md'')
         else if is_basename target then basename_resolution paths src candidate path_part
         else None)"

lemma fold_push_basename:
  "fold push_basename files m b = (case m b of
       Some ps \<Rightarrow> Some (ps @ named (map file_path files) b)
     | None \<Rightarrow> if named (map file_path files) b = [] then None else Some (named (map file_path files) b))"
proof (induction files arbitrary: m)
  case (Cons f files)
  have step: "push_basename f m b = (if file_stem (file_path f) = Some b
      then Some ((case m b of Some ps \<Rightarrow> ps | None \<Rightarrow> []) @ [file_path f]) else m b)"
    by (auto simp: push_basename_def split: option.splits)
  show ?case
    unfolding fold.simps o_apply Cons.IH step by (auto simp: named_def split: option.splits)
qed (simp add: named_def split: option.split)

lemma basename_index_of_new:
  "basename_index_of (link_resolver_new files) b =
     (if named (map file_path files) b = [] then None
      else Some (basename_index_build (named (map file_path files) b)))"
  by (simp add: link_resolver_new_def fold_push_basename)

lemma resolver_files_new [simp]: "resolver_files (link_resolver_new files) = files"
  by (simp add: link_resolver_new_def)

lemma well_placed_filter: "well_placed cs src \<Longrightarrow> well_placed (filter P cs) src"
proof -
  assume "well_placed cs src"
  moreover have "sum_list (map (\<lambda>p. Suc (length p)) (filter P cs)) \<le> sum_list (map (\<lambda>p. Suc (length p)) cs)"
    by (induction cs) auto
  ultimately show ?thesis by (auto simp: well_placed_def list_all_iff)
qed

lemma nearest_flat_Nil [simp]: "nearest_flat [] src ext = None"
  by (simp add: nearest_flat_def)

lemma nearest_by_basename_new:
  assumes "well_placed (map file_path files) src"
  shows "nearest_by_basename (link_resolver_new files) b src ext
    = Some (nearest_flat (named (map file_path files) b) src ext)"
proof -
  have "well_placed (named (map file_path files) b) src"
    unfolding named_def by (rule well_placed_filter [OF assms])
  from basename.agrees_with_scan [OF this, of ext]
  show ?thesis by (auto simp: nearest_by_basename_def basename_index_of_new)
qed

lemma get_by_path_new:
  assumes "ascending file_path files"
  shows "get_by_path (link_resolver_new files) p = (if p \<in> file_path ` set files then Some p else None)"
proof -
  have "get_by_path (link_resolver_new files) p
      = map_option file_path (case binary_search_by_path file_path files p of
          Inr i \<Rightarrow> slice_get files i | Inl _ \<Rightarrow> None)"
    by (simp add: get_by_path_def split: sum.split)
  also have "\<dots> = map_option file_path (row_of file_path files p)"
    unfolding binary_search_row [OF assms] ..
  also have "\<dots> = (if p \<in> file_path ` set files then Some p else None)"
    by (cases "row_of file_path files p") (auto simp: row_of_None dest: row_of_SomeD)
  finally show ?thesis .
qed

lemma resolve_link_resolution:
  assumes "ascending file_path files" "well_placed (map file_path files) src"
  shows "resolve_link (link_resolver_new files) src target = Some (resolution (map file_path files) src target)"
  unfolding resolve_link_def resolution_def basename_resolution_def Let_def
    get_by_path_new [OF assms(1)] nearest_by_basename_new [OF assms(2)]
  by (auto simp: has_path_def split: option.splits)

section \<open>Resolving a note\<close>

text \<open>The outlinks of a note as edges to the files they resolve to.\<close>

definition outlink_targets :: "path list \<Rightarrow> md_note \<Rightarrow> path set" where
  "outlink_targets paths n =
     {t. \<exists>l\<in>set (note_outlinks n). resolution paths (note_path n) (target_parts l) = Some t}"

definition note_links :: "path list \<Rightarrow> md_note set \<Rightarrow> (path \<times> path) set" where
  "note_links paths ns = {(t, note_path n) | t n. n \<in> ns \<and> t \<in> outlink_targets paths n}"

lemma those_Some: "those (map (\<lambda>x. Some (f x)) xs) = Some (map f xs)"
  by (induction xs) auto

lemma those_map_Some: "(\<And>x. x \<in> set xs \<Longrightarrow> f x = Some (g x)) \<Longrightarrow> those (map f xs) = Some (map g xs)"
  by (induction xs) auto

definition placed_notes :: "file_meta list \<Rightarrow> md_note list \<Rightarrow> bool" where
  "placed_notes files ns \<longleftrightarrow> list_all (\<lambda>n. well_placed (map file_path files) (note_path n)) ns"

lemma set_map_filter_id: "set (List.map_filter id (map f xs)) = {t. \<exists>x\<in>set xs. f x = Some t}"
  by (induction xs) (auto split: option.split)

lemma edges_of_Cons:
  "edges_of ((t, ss) # m) = Pair t ` set ss \<union> {e \<in> edges_of m. fst e \<noteq> t}"
  by (auto simp: edges_of_def split: if_splits)

lemma empty_map [simp]: "canonical []" "edges_of [] = {}"
  by (simp_all add: canonical_def edges_of_def)

lemma resolve_note_targets:
  assumes "ascending file_path files" "well_placed (map file_path files) (note_path n)"
  shows "\<exists>ts. resolve_note (link_resolver_new files) n = Some ts \<and> sorted_wrt (<) ts
    \<and> set ts = outlink_targets (map file_path files) n"
proof -
  let ?ts = "dedup (sort (List.map_filter id
      (map (\<lambda>l. resolution (map file_path files) (note_path n) (target_parts l)) (note_outlinks n))))"
  have "resolve_note (link_resolver_new files) n = Some ?ts"
    unfolding resolve_note_def resolve_link_resolution [OF assms] those_Some by simp
  moreover have "set ?ts = outlink_targets (map file_path files) n"
    by (simp add: outlink_targets_def set_map_filter_id)
  ultimately show ?thesis using sorted_dedup_distinct(1) [OF sorted_sort] by blast
qed

lemma note_edges_links:
  assumes "ascending file_path files" "placed_notes files ns"
  shows "\<exists>es. those (map (note_edges (link_resolver_new files)) ns) = Some es
    \<and> set (concat es) = note_links (map file_path files) (set ns)"
proof -
  let ?r = "link_resolver_new files"
  have each: "\<exists>ts. resolve_note ?r n = Some ts \<and> set ts = outlink_targets (map file_path files) n"
    if "n \<in> set ns" for n
    using resolve_note_targets [OF assms(1), of n] assms(2) that by (auto simp: placed_notes_def list_all_iff)
  define ts where "ts n = the (resolve_note ?r n)" for n
  have ts: "resolve_note ?r n = Some (ts n)" "set (ts n) = outlink_targets (map file_path files) n"
    if n: "n \<in> set ns" for n
  proof -
    obtain x where "resolve_note ?r n = Some x" "set x = outlink_targets (map file_path files) n"
      using each [OF n] by blast
    then show "resolve_note ?r n = Some (ts n)" "set (ts n) = outlink_targets (map file_path files) n"
      by (simp_all only: ts_def option.sel)
  qed
  have "those (map (note_edges ?r) ns) = Some (map (\<lambda>n. map (\<lambda>t. (t, note_path n)) (ts n)) ns)"
    by (rule those_map_Some) (simp add: note_edges_def ts)
  moreover have "set (concat (map (\<lambda>n. map (\<lambda>t. (t, note_path n)) (ts n)) ns))
      = note_links (map file_path files) (set ns)"
    using ts(2) by (auto simp: note_links_def)
  ultimately show ?thesis by blast
qed

lemma inlinks_with_resolver_links:
  assumes "ascending file_path files" "placed_notes files ns"
  shows "\<exists>m. inlinks_with_resolver ns (link_resolver_new files) = Some m \<and> canonical m
    \<and> edges_of m = note_links (map file_path files) (set ns)"
proof -
  obtain es where es: "those (map (note_edges (link_resolver_new files)) ns) = Some es"
    "set (concat es) = note_links (map file_path files) (set ns)"
    using note_edges_links [OF assms] by blast
  have "sorted_wrt (<) (dedup (sort (concat es)))" "set (dedup (sort (concat es))) = set (concat es)"
    using sorted_dedup_distinct [OF sorted_sort] by (simp_all add: sorted_dedup_distinct(2))
  with from_flat_edges_spec [of "dedup (sort (concat es))" "[]"] es(2)
  show ?thesis unfolding inlinks_with_resolver_def es(1) by simp
qed

lemma resolve_edges_for_links:
  assumes "ascending file_path files" "placed_notes files ns"
  shows "\<exists>es. resolve_edges_for ns files = Some es \<and> set es = note_links (map file_path files) (set ns)"
  using note_edges_links [OF assms] by (auto simp: resolve_edges_for_def)


section \<open>Properties\<close>

lemma note_links_eq: "(t, s) \<in> note_links paths ns
    \<longleftrightarrow> (\<exists>n\<in>ns. note_path n = s \<and> (\<exists>l\<in>set (note_outlinks n). resolution paths s (target_parts l) = Some t))"
  by (auto simp: note_links_def outlink_targets_def)

lemma nearest_flat_member:
  assumes "well_placed cs src" "nearest_flat cs src ext = Some p"
  shows "p \<in> set cs"
proof -
  from nearest_flat_unique [OF assms(1), of ext] assms(2)
  obtain d where "at_depth d (of_ext ext (dists cs (folder_of src) (\<lambda>f. True))) = {#(d, p)#}"
    by (auto simp: unique_nearest_def Let_def)
  then have "(d, p) \<in># of_ext ext (dists cs (folder_of src) (\<lambda>f. True))"
    by (metis at_depth_mem multi_member_last)
  then show ?thesis by (cases ext) (auto simp: of_ext_def dists_def)
qed

lemma resolution_member:
  assumes "well_placed paths src" "resolution paths src target = Some p"
  shows "p \<in> set paths"
proof -
  have flat: "q \<in> set paths" if "nearest_flat (named paths b) src ext = Some q" for b ext q
    using nearest_flat_member [OF well_placed_filter [OF assms(1)] that [unfolded named_def]] by simp
  have based: "q \<in> set paths" if "basename_resolution paths src c part = Some q" for c part q
  proof (cases "Option.bind (extension c) (\<lambda>ext. nearest_flat
      (named paths (case file_stem c of Some s \<Rightarrow> s | None \<Rightarrow> part)) src (Some ext))")
    case None
    with that flat show ?thesis by (simp add: basename_resolution_def Let_def)
  next
    case (Some r)
    with that have "r = q" by (simp add: basename_resolution_def Let_def)
    with Some flat show ?thesis by (auto simp: bind_eq_Some_conv)
  qed
  obtain part where part: "target_path target = Some part"
    using assms(2) by (cases "target_path target") (simp_all add: resolution_def)
  show ?thesis
    using assms(2) based by (simp add: resolution_def part Let_def split: if_splits)
qed

text \<open>C11. Resolving a link through the path-sorted files and the basename indexes returns, gives the
  answer of the reference (the exact path, else the path with its missing \<open>.md\<close>, else, for a bare
  basename, the nearest file of that name, of the wanted extension first), and never points
  outside the index.\<close>

theorem resolve_link_reference:
  assumes "ascending file_path files" "well_placed (map file_path files) src"
  shows "resolve_link (link_resolver_new files) src target = Some (resolution (map file_path files) src target)
    \<and> (\<forall>p. resolve_link (link_resolver_new files) src target \<noteq> Some (Some p) \<or> p \<in> file_path ` set files)"
  using resolve_link_resolution [OF assms] resolution_member [OF assms(2)] by auto

theorem resolve_link_reference_witness:
  "resolve_link (link_resolver_new [sample_file ''a.md'' 1, sample_file ''b.png'' 2]) [Normal ''b.md'']
     (TargetPath ''a'') = Some (Some [Normal ''a.md''])"
proof -
  let ?files = "[sample_file ''a.md'' 1, sample_file ''b.png'' 2]"
  have "ascending file_path ?files" by code_simp
  moreover have "well_placed (map file_path ?files) [Normal ''b.md'']"
    by (simp add: well_placed_def usize_max_def sample_file_def)
  ultimately have "resolve_link (link_resolver_new ?files) [Normal ''b.md''] (TargetPath ''a'')
      = Some (resolution (map file_path ?files) [Normal ''b.md''] (TargetPath ''a''))"
    by (rule resolve_link_reference [THEN conjunct1])
  also have "resolution (map file_path ?files) [Normal ''b.md''] (TargetPath ''a'') = Some [Normal ''a.md'']"
    by code_simp
  finally show ?thesis .
qed

text \<open>C15. The inbound link map of a full build is exact: it is computed, every target has at least
  one source and its sources ascend strictly, and a source is listed under a target exactly when
  it is the path of a note with an outlink that resolves to the target.\<close>

theorem inlink_map_exact:
  assumes "ascending file_path files" "placed_notes files ns"
  shows "\<exists>m. inlinks_with_resolver ns (link_resolver_new files) = Some m \<and> canonical m
    \<and> (\<forall>t s. s \<in> set (inlinks_of m t) \<longleftrightarrow> (\<exists>n\<in>set ns. note_path n = s
        \<and> (\<exists>l\<in>set (note_outlinks n). resolution (map file_path files) s (target_parts l) = Some t)))"
  using inlinks_with_resolver_links [OF assms] unfolding edges_of_inlinks [symmetric] note_links_eq [symmetric]
  by auto

definition linking_note :: "string \<Rightarrow> string \<Rightarrow> md_note" where
  "linking_note name target = sample_note name \<lparr> note_outlinks := [link_new target [] Wikilink] \<rparr>"

theorem inlink_map_exact_witness:
  "map_option (\<lambda>m. [Normal ''b.md''] \<in> set (inlinks_of m [Normal ''a.md'']))
     (inlinks_with_resolver [linking_note ''b.md'' ''a'']
       (link_resolver_new [sample_file ''a.md'' 1, sample_file ''b.md'' 2])) = Some True"
proof -
  let ?files = "[sample_file ''a.md'' 1, sample_file ''b.md'' 2]" and ?n = "linking_note ''b.md'' ''a''"
  have "ascending file_path ?files" by code_simp
  moreover have "placed_notes ?files [?n]"
    by (simp add: placed_notes_def well_placed_def usize_max_def sample_file_def linking_note_def sample_note_def)
  ultimately obtain m where m: "inlinks_with_resolver [?n] (link_resolver_new ?files) = Some m"
    "\<forall>t s. s \<in> set (inlinks_of m t) \<longleftrightarrow> (\<exists>n\<in>set [?n]. note_path n = s
        \<and> (\<exists>l\<in>set (note_outlinks n). resolution (map file_path ?files) s (target_parts l) = Some t))"
    using inlink_map_exact [of ?files "[?n]"] by blast
  have "note_path ?n = [Normal ''b.md'']" by code_simp
  moreover have "list_ex (\<lambda>l. resolution (map file_path ?files) [Normal ''b.md''] (target_parts l)
      = Some [Normal ''a.md'']) (note_outlinks ?n)"
    by code_simp
  ultimately show ?thesis unfolding m(1) using m(2) by (simp add: list_ex_iff)
qed

text \<open>C5. Patching the inbound link map after an edit is exact: the edges of the edited notes are
  replaced by the new ones, the others stay, the map stays canonical, and the reported delta is the
  difference of the two maps, each edge once.\<close>

theorem patch_and_diff_exact:
  assumes "canonical m" "patch_and_diff m edited new_edges = (m', d)"
  shows "canonical m' \<and> edges_of m' = {e \<in> edges_of m. snd e \<notin> edited} \<union> set new_edges
    \<and> distinct (links_upserted d) \<and> set (links_upserted d) = edges_of m' - edges_of m
    \<and> distinct (links_deleted d) \<and> set (links_deleted d) = edges_of m - edges_of m'"
  using patch_and_diff_spec [OF assms] by blast

theorem patch_and_diff_exact_witness:
  "edges_of (fst (patch_and_diff [([Normal ''t''], [[Normal ''a''], [Normal ''b'']])] {[Normal ''a'']}
      [([Normal ''u''], [Normal ''a''])]))
   = {([Normal ''t''], [Normal ''b'']), ([Normal ''u''], [Normal ''a''])}"
proof -
  let ?m = "[([Normal ''t''], [[Normal ''a''], [Normal ''b'']])]" and ?new = "[([Normal ''u''], [Normal ''a''])]"
  obtain m' d where r: "patch_and_diff ?m {[Normal ''a'']} ?new = (m', d)" by fastforce
  have "canonical ?m" by code_simp
  from patch_and_diff_exact [OF this r]
  have "edges_of m' = {e \<in> edges_of ?m. snd e \<notin> {[Normal ''a'']}} \<union> set ?new" by (elim conjE)
  also have "\<dots> = {([Normal ''t''], [Normal ''b'']), ([Normal ''u''], [Normal ''a''])}"
    by (auto simp: edges_of_Cons)
  finally show ?thesis unfolding r fst_conv .
qed

text \<open>The link delta between two maps lists each edge that only the current map has as upserted,
  and each edge that only the persisted map has as deleted, once.\<close>

theorem inlink_delta_exact:
  assumes "canonical current" "canonical persisted"
  shows "set (links_upserted (inlink_delta_compute current persisted)) = edges_of current - edges_of persisted
    \<and> set (links_deleted (inlink_delta_compute current persisted)) = edges_of persisted - edges_of current
    \<and> distinct (links_upserted (inlink_delta_compute current persisted))
    \<and> distinct (links_deleted (inlink_delta_compute current persisted))"
  using inlink_delta_compute_spec [OF assms] by blast

theorem inlink_delta_exact_witness:
  "set (links_deleted (inlink_delta_compute [([Normal ''t''], [[Normal ''a'']])]
      [([Normal ''t''], [[Normal ''a''], [Normal ''b'']])])) = {([Normal ''t''], [Normal ''b''])}"
proof -
  have "canonical [([Normal ''t''], [[Normal ''a'']])]" "canonical [([Normal ''t''], [[Normal ''a''], [Normal ''b'']])]"
    by code_simp+
  from inlink_delta_exact [OF this] show ?thesis by (auto simp: edges_of_Cons)
qed

end
