(* ===== verification/Store.thy ===== *)
theory Store
  imports Inlinks
begin

text \<open>
  \<open>src/index/store.rs\<close>, \<open>src/index/tables.rs\<close>, \<open>src/index/codec.rs\<close> and
  \<open>src/index/error.rs\<close>: the persisted index, seven tables of a \<open>redb\<close> database.  The
  database and the row codec are third-party code, so they are parameters: a \<open>backend\<close> holds one
  function for every call the source makes, and each may fail.  What a table holds is read through
  these functions only; \<open>backend_ok\<close> (theory \<open>Store_Contents\<close>) states their documented
  behaviour.  A write transaction works on a copy of the tables, which replaces them on commit.
\<close>

section \<open>Errors\<close>

datatype store_error =
  StoreIo path string
| StoreRedb path string
| StoreSerialize path
| StoreDeserialize path

datatype index_error =
  StoreFailed store_error
| ScanFailed string
| PathFailed string
| NoteParseFailed path string
| InspectFailed path string

section \<open>The database\<close>

record ('t, 'm) tables =
  files_table :: "'t option"
  notes_table :: "'t option"
  links_table :: "'m option"
  paths_by_tag :: "'m option"
  paths_by_class :: "'m option"
  tags_by_path :: "'m option"
  classes_by_path :: "'m option"

datatype table_error = TableDoesNotExist | TableFailed string

record ('t, 'm) redb =
  begin_read :: "('t, 'm) tables \<Rightarrow> (string, unit) result"
  begin_write :: "('t, 'm) tables \<Rightarrow> (string, unit) result"
  set_durability :: "('t, 'm) tables \<Rightarrow> (string, unit) result"
  commit_txn :: "('t, 'm) tables \<Rightarrow> (string, unit) result"
  row_open :: "'t option \<Rightarrow> (string, 't) result"
  row_get :: "'t \<Rightarrow> string \<Rightarrow> (string, string option) result"
  row_iter :: "'t \<Rightarrow> (string, (string \<times> string) list) result"
  row_range :: "'t \<Rightarrow> string \<Rightarrow> string \<Rightarrow> (string, (string \<times> string) list) result"
  row_insert :: "'t \<Rightarrow> string \<Rightarrow> string \<Rightarrow> (string, 't) result"
  row_remove :: "'t \<Rightarrow> string \<Rightarrow> (string, 't) result"
  row_delete :: "'t option \<Rightarrow> (table_error, unit) result"
  multi_open :: "'m option \<Rightarrow> (string, 'm) result"
  multi_get :: "'m \<Rightarrow> string \<Rightarrow> (string, string list) result"
  multi_iter :: "'m \<Rightarrow> (string, (string \<times> string list) list) result"
  multi_insert :: "'m \<Rightarrow> string \<Rightarrow> string \<Rightarrow> (string, 'm) result"
  multi_remove :: "'m \<Rightarrow> string \<Rightarrow> string \<Rightarrow> (string, 'm) result"
  multi_remove_all :: "'m \<Rightarrow> string \<Rightarrow> (string, 'm) result"
  multi_delete :: "'m option \<Rightarrow> (table_error, unit) result"

text \<open>The row codec of the \<open>postcard\<close> crate (\<open>None\<close> is an error), \<open>str::to_lowercase\<close> and
  the Unicode tables.\<close>

record ('t, 'm) backend = "('t, 'm) redb" +
  enc_file :: "file_meta \<Rightarrow> string option"
  dec_file :: "string \<Rightarrow> file_meta option"
  enc_note :: "md_note \<Rightarrow> string option"
  dec_note :: "string \<Rightarrow> md_note option"
  text_lowercase :: "string \<Rightarrow> string"
  unicode_tables :: unicode

record ('t, 'm) index_store =
  store_path :: path
  store_tables :: "('t, 'm) tables"

definition wrap_redb_error :: "('t, 'm) index_store \<Rightarrow> string \<Rightarrow> index_error" where
  "wrap_redb_error st e = StoreFailed (StoreRedb (store_path st) e)"

abbreviation redb_try :: "('t, 'm) index_store \<Rightarrow> (string, 'a) result \<Rightarrow> (index_error, 'a) result" where
  "redb_try st r \<equiv> map_err (wrap_redb_error st) r"

section \<open>Keys and rows\<close>

fun component_text :: "component \<Rightarrow> string" where
  "component_text RootDir = ''''"
| "component_text CurDir = ''.''"
| "component_text ParentDir = ''..''"
| "component_text (Normal s) = s"

text \<open>\<open>PathKey::as_bytes\<close> of a relative path.\<close>

definition path_key :: "path \<Rightarrow> string" where
  "path_key p = join_with ''/'' (map component_text p)"

text \<open>\<open>path_from_bytes\<close> on UTF-8.\<close>

definition path_from_bytes :: "string \<Rightarrow> path" where
  "path_from_bytes bytes = components bytes"

definition encode_row :: "('a \<Rightarrow> string option) \<Rightarrow> path \<Rightarrow> 'a \<Rightarrow> (index_error, string) result" where
  "encode_row enc p v = ok_or (StoreFailed (StoreSerialize p)) (enc v)"

definition decode_row :: "(string \<Rightarrow> 'a option) \<Rightarrow> path \<Rightarrow> string \<Rightarrow> (index_error, 'a) result" where
  "decode_row dec p bytes = ok_or (StoreFailed (StoreDeserialize p)) (dec bytes)"

section \<open>Dimensions\<close>

datatype index_dimension = TagAxis | ClassAxis string

definition for_class_field :: "string \<Rightarrow> index_dimension list" where
  "for_class_field class_field = [TagAxis, ClassAxis class_field]"

fun axis_forward :: "index_dimension \<Rightarrow> ('t, 'm) tables \<Rightarrow> 'm option" where
  "axis_forward TagAxis tabs = paths_by_tag tabs"
| "axis_forward (ClassAxis key) tabs = paths_by_class tabs"

fun axis_reverse :: "index_dimension \<Rightarrow> ('t, 'm) tables \<Rightarrow> 'm option" where
  "axis_reverse TagAxis tabs = tags_by_path tabs"
| "axis_reverse (ClassAxis key) tabs = classes_by_path tabs"

fun set_axis_forward :: "index_dimension \<Rightarrow> 'm \<Rightarrow> ('t, 'm) tables \<Rightarrow> ('t, 'm) tables" where
  "set_axis_forward TagAxis m tabs = tabs \<lparr> paths_by_tag := Some m \<rparr>"
| "set_axis_forward (ClassAxis key) m tabs = tabs \<lparr> paths_by_class := Some m \<rparr>"

fun set_axis_reverse :: "index_dimension \<Rightarrow> 'm \<Rightarrow> ('t, 'm) tables \<Rightarrow> ('t, 'm) tables" where
  "set_axis_reverse TagAxis m tabs = tabs \<lparr> tags_by_path := Some m \<rparr>"
| "set_axis_reverse (ClassAxis key) m tabs = tabs \<lparr> classes_by_path := Some m \<rparr>"

definition with_lowercased :: "('t, 'm) backend \<Rightarrow> string \<Rightarrow> string" where
  "with_lowercased db txt =
     (let ascii_prefix = takeWhile ascii txt;
          has_upper = list_ex ascii_upper ascii_prefix;
          is_ascii = list_all ascii txt
      in if is_ascii \<and> \<not> has_upper then txt else text_lowercase db txt)"

text \<open>\<open>visit_values\<close>: the normalized values of a note along a dimension, in visiting order.\<close>

fun axis_values :: "('t, 'm) backend \<Rightarrow> index_dimension \<Rightarrow> md_note \<Rightarrow> string list" where
  "axis_values db TagAxis n = map (with_lowercased db) (concat (map tag_segments (note_tags n)))"
| "axis_values db (ClassAxis key) n = map (with_lowercased db)
     (List.map_filter value_as_str
       (case note_frontmatter n of Some fm \<Rightarrow> get_values (unicode_tables db) fm key | None \<Rightarrow> []))"

section \<open>Write primitives\<close>

definition upsert_row ::
  "('t, 'm) backend \<Rightarrow> ('t, 'm) index_store \<Rightarrow> ('a \<Rightarrow> string option) \<Rightarrow> ('a \<Rightarrow> path) \<Rightarrow> 'a \<Rightarrow> 't
    \<Rightarrow> (index_error, 't) result"
where
  "upsert_row db st enc path_of v t = and_then (encode_row enc (path_of v) v)
     (\<lambda>bytes. redb_try st (row_insert db t (path_key (path_of v)) bytes))"

definition write_rows ::
  "('t, 'm) backend \<Rightarrow> ('t, 'm) index_store \<Rightarrow> ('a \<Rightarrow> string option) \<Rightarrow> ('a \<Rightarrow> path) \<Rightarrow> 'a list
    \<Rightarrow> 't option \<Rightarrow> (index_error, 't) result"
where
  "write_rows db st enc path_of items t = and_then (redb_try st (row_open db t))
     (\<lambda>t. try_fold (upsert_row db st enc path_of) items t)"

definition insert_pairs ::
  "('t, 'm) backend \<Rightarrow> ('t, 'm) index_store \<Rightarrow> (string \<times> string) list \<Rightarrow> 'm \<Rightarrow> (index_error, 'm) result"
where
  "insert_pairs db st = try_fold (\<lambda>(k, v) m. redb_try st (multi_insert db m k v))"

definition link_pairs :: "file_entry \<Rightarrow> (string \<times> string) list" where
  "link_pairs e = map (\<lambda>src. (path_key (file_path (entry_file e)), path_key src)) (entry_inlinks e)"

definition write_links ::
  "('t, 'm) backend \<Rightarrow> ('t, 'm) index_store \<Rightarrow> file_entry list \<Rightarrow> ('t, 'm) tables
    \<Rightarrow> (index_error, ('t, 'm) tables) result"
where
  "write_links db st ents tabs = and_then (redb_try st (multi_open db (links_table tabs)))
     (\<lambda>m. and_then (try_fold (\<lambda>e. insert_pairs db st (link_pairs e)) ents m)
       (\<lambda>m. Ok (tabs \<lparr> links_table := Some m \<rparr>)))"

section \<open>Full rebuild\<close>

datatype delete_policy = Required | BestEffort

definition delete_outcome ::
  "('t, 'm) index_store \<Rightarrow> delete_policy \<Rightarrow> (table_error, unit) result \<Rightarrow> (index_error, unit) result"
where
  "delete_outcome st policy r = (case r of
       Inr _ \<Rightarrow> Ok ()
     | Inl TableDoesNotExist \<Rightarrow>
         if policy = BestEffort then Ok () else Err (wrap_redb_error st ''table does not exist'')
     | Inl (TableFailed e) \<Rightarrow> Err (wrap_redb_error st e))"

definition delete_tables ::
  "('t, 'm) backend \<Rightarrow> ('t, 'm) index_store \<Rightarrow> ('t, 'm) tables \<Rightarrow> (index_error, ('t, 'm) tables) result"
where
  "delete_tables db st tabs =
     and_then (delete_outcome st Required (row_delete db (files_table tabs))) (\<lambda>_.
     and_then (delete_outcome st Required (row_delete db (notes_table tabs))) (\<lambda>_.
     and_then (delete_outcome st Required (multi_delete db (links_table tabs))) (\<lambda>_.
     and_then (delete_outcome st BestEffort (multi_delete db (paths_by_tag tabs))) (\<lambda>_.
     and_then (delete_outcome st BestEffort (multi_delete db (paths_by_class tabs))) (\<lambda>_.
     and_then (delete_outcome st BestEffort (multi_delete db (tags_by_path tabs))) (\<lambda>_.
     and_then (delete_outcome st BestEffort (multi_delete db (classes_by_path tabs))) (\<lambda>_.
       Ok \<lparr> files_table = None, notes_table = None, links_table = None, paths_by_tag = None,
         paths_by_class = None, tags_by_path = None, classes_by_path = None \<rparr>)))))))"

definition entry_notes :: "file_entry list \<Rightarrow> md_note list" where
  "entry_notes ents = List.map_filter entry_note ents"

definition write_all ::
  "('t, 'm) backend \<Rightarrow> ('t, 'm) index_store \<Rightarrow> file_entry list \<Rightarrow> ('t, 'm) tables
    \<Rightarrow> (index_error, ('t, 'm) tables) result"
where
  "write_all db st ents tabs =
     and_then (write_rows db st (enc_file db) file_path (map entry_file ents) (files_table tabs)) (\<lambda>fs.
     and_then (write_rows db st (enc_note db) note_path (entry_notes ents) (notes_table tabs)) (\<lambda>ns.
       write_links db st ents (tabs \<lparr> files_table := Some fs, notes_table := Some ns \<rparr>)))"

definition forward_pairs :: "('t, 'm) backend \<Rightarrow> index_dimension \<Rightarrow> md_note \<Rightarrow> (string \<times> string) list" where
  "forward_pairs db dim n = map (\<lambda>v. (v, path_key (note_path n))) (axis_values db dim n)"

definition reverse_pairs :: "('t, 'm) backend \<Rightarrow> index_dimension \<Rightarrow> md_note \<Rightarrow> (string \<times> string) list" where
  "reverse_pairs db dim n = map (\<lambda>v. (path_key (note_path n), v)) (axis_values db dim n)"

definition write_index_by_value ::
  "('t, 'm) backend \<Rightarrow> ('t, 'm) index_store \<Rightarrow> file_entry list \<Rightarrow> index_dimension \<Rightarrow> ('t, 'm) tables
    \<Rightarrow> (index_error, ('t, 'm) tables) result"
where
  "write_index_by_value db st ents dim tabs =
     and_then (redb_try st (multi_open db (axis_forward dim tabs))) (\<lambda>m.
     and_then (try_fold (\<lambda>n. insert_pairs db st (forward_pairs db dim n)) (entry_notes ents) m) (\<lambda>m.
       Ok (set_axis_forward dim m tabs)))"

definition write_index_by_path ::
  "('t, 'm) backend \<Rightarrow> ('t, 'm) index_store \<Rightarrow> file_entry list \<Rightarrow> index_dimension \<Rightarrow> ('t, 'm) tables
    \<Rightarrow> (index_error, ('t, 'm) tables) result"
where
  "write_index_by_path db st ents dim tabs =
     and_then (redb_try st (multi_open db (axis_reverse dim tabs))) (\<lambda>m.
     and_then (try_fold (\<lambda>n. insert_pairs db st (reverse_pairs db dim n)) (entry_notes ents) m) (\<lambda>m.
       Ok (set_axis_reverse dim m tabs)))"

definition write_axes ::
  "('t, 'm) backend \<Rightarrow> ('t, 'm) index_store \<Rightarrow> file_entry list \<Rightarrow> index_dimension list \<Rightarrow> ('t, 'm) tables
    \<Rightarrow> (index_error, ('t, 'm) tables) result"
where
  "write_axes db st ents = try_fold (\<lambda>dim tabs.
     and_then (write_index_by_value db st ents dim tabs) (write_index_by_path db st ents dim))"

definition begin_cache_txn ::
  "('t, 'm) backend \<Rightarrow> ('t, 'm) index_store \<Rightarrow> (index_error, ('t, 'm) tables) result"
where
  "begin_cache_txn db st = and_then (redb_try st (begin_write db (store_tables st)))
     (\<lambda>_. and_then (redb_try st (set_durability db (store_tables st))) (\<lambda>_. Ok (store_tables st)))"

definition apply_rebuild ::
  "('t, 'm) backend \<Rightarrow> ('t, 'm) index_store \<Rightarrow> file_entry list \<Rightarrow> index_dimension list
    \<Rightarrow> (index_error, ('t, 'm) tables) result"
where
  "apply_rebuild db st ents dims =
     and_then (begin_cache_txn db st) (\<lambda>tabs.
     and_then (delete_tables db st tabs) (\<lambda>tabs.
     and_then (write_all db st ents tabs) (\<lambda>tabs.
     and_then (write_axes db st ents dims tabs) (\<lambda>tabs.
     and_then (redb_try st (commit_txn db tabs)) (\<lambda>_. Ok tabs)))))"

section \<open>Incremental refresh\<close>

definition delete_files_and_notes ::
  "('t, 'm) backend \<Rightarrow> ('t, 'm) index_store \<Rightarrow> file_meta list \<Rightarrow> ('t, 'm) tables
    \<Rightarrow> (index_error, ('t, 'm) tables) result"
where
  "delete_files_and_notes db st gone tabs =
     and_then (redb_try st (row_open db (files_table tabs))) (\<lambda>fs.
     and_then (redb_try st (row_open db (notes_table tabs))) (\<lambda>ns.
     and_then (try_fold (\<lambda>f (fs, ns). let key = path_key (file_path f) in
         and_then (redb_try st (row_remove db fs key)) (\<lambda>fs.
         and_then (redb_try st (row_remove db ns key)) (\<lambda>ns. Ok (fs, ns)))) gone (fs, ns)) (\<lambda>(fs, ns).
       Ok (tabs \<lparr> files_table := Some fs, notes_table := Some ns \<rparr>))))"

definition remove_axis_entry ::
  "('t, 'm) backend \<Rightarrow> ('t, 'm) index_store \<Rightarrow> string \<Rightarrow> 'm \<times> 'm \<Rightarrow> (index_error, 'm \<times> 'm) result"
where
  "remove_axis_entry db st key = (\<lambda>(fwd, rev).
     and_then (redb_try st (multi_get db rev key)) (\<lambda>olds.
     and_then (try_fold (\<lambda>old fwd. redb_try st (multi_remove db fwd old key)) olds fwd) (\<lambda>fwd.
     and_then (redb_try st (multi_remove_all db rev key)) (\<lambda>rev. Ok (fwd, rev)))))"

definition open_axis ::
  "('t, 'm) backend \<Rightarrow> ('t, 'm) index_store \<Rightarrow> index_dimension \<Rightarrow> ('t, 'm) tables
    \<Rightarrow> (index_error, 'm \<times> 'm) result"
where
  "open_axis db st dim tabs =
     and_then (redb_try st (multi_open db (axis_forward dim tabs))) (\<lambda>fwd.
     and_then (redb_try st (multi_open db (axis_reverse dim tabs))) (\<lambda>rev. Ok (fwd, rev)))"

definition delete_index_entries_for_paths ::
  "('t, 'm) backend \<Rightarrow> ('t, 'm) index_store \<Rightarrow> file_meta list \<Rightarrow> index_dimension \<Rightarrow> ('t, 'm) tables
    \<Rightarrow> (index_error, ('t, 'm) tables) result"
where
  "delete_index_entries_for_paths db st gone dim tabs =
     and_then (open_axis db st dim tabs) (\<lambda>axis.
     and_then (try_fold (\<lambda>f. remove_axis_entry db st (path_key (file_path f))) gone axis) (\<lambda>(fwd, rev).
       Ok (set_axis_reverse dim rev (set_axis_forward dim fwd tabs))))"

definition apply_diff_deletions ::
  "('t, 'm) backend \<Rightarrow> ('t, 'm) index_store \<Rightarrow> file_meta list \<Rightarrow> index_dimension list \<Rightarrow> ('t, 'm) tables
    \<Rightarrow> (index_error, ('t, 'm) tables) result"
where
  "apply_diff_deletions db st gone dims tabs = (if gone = [] then Ok tabs
     else and_then (delete_files_and_notes db st gone tabs)
       (try_fold (delete_index_entries_for_paths db st gone) dims))"

definition apply_diff_upserts ::
  "('t, 'm) backend \<Rightarrow> ('t, 'm) index_store \<Rightarrow> file_meta list \<Rightarrow> ('t, 'm) tables
    \<Rightarrow> (index_error, ('t, 'm) tables) result"
where
  "apply_diff_upserts db st files tabs = and_then (write_rows db st (enc_file db) file_path files (files_table tabs))
     (\<lambda>fs. Ok (tabs \<lparr> files_table := Some fs \<rparr>))"

definition upsert_axis_note ::
  "('t, 'm) backend \<Rightarrow> ('t, 'm) index_store \<Rightarrow> index_dimension \<Rightarrow> md_note \<Rightarrow> 'm \<times> 'm
    \<Rightarrow> (index_error, 'm \<times> 'm) result"
where
  "upsert_axis_note db st dim n axis =
     and_then (remove_axis_entry db st (path_key (note_path n)) axis)
       (try_fold (\<lambda>value (fwd, rev).
         and_then (redb_try st (multi_insert db fwd value (path_key (note_path n)))) (\<lambda>fwd.
         and_then (redb_try st (multi_insert db rev (path_key (note_path n)) value)) (\<lambda>rev. Ok (fwd, rev))))
         (axis_values db dim n))"

definition upsert_index_axis ::
  "('t, 'm) backend \<Rightarrow> ('t, 'm) index_store \<Rightarrow> md_note list \<Rightarrow> index_dimension \<Rightarrow> ('t, 'm) tables
    \<Rightarrow> (index_error, ('t, 'm) tables) result"
where
  "upsert_index_axis db st ns dim tabs =
     and_then (open_axis db st dim tabs) (\<lambda>axis.
     and_then (try_fold (upsert_axis_note db st dim) ns axis) (\<lambda>(fwd, rev).
       Ok (set_axis_reverse dim rev (set_axis_forward dim fwd tabs))))"

definition apply_modified_notes ::
  "('t, 'm) backend \<Rightarrow> ('t, 'm) index_store \<Rightarrow> md_note list \<Rightarrow> index_dimension list \<Rightarrow> ('t, 'm) tables
    \<Rightarrow> (index_error, ('t, 'm) tables) result"
where
  "apply_modified_notes db st ns dims tabs = (if ns = [] then Ok tabs
     else and_then (write_rows db st (enc_note db) note_path ns (notes_table tabs))
       (\<lambda>t. try_fold (upsert_index_axis db st ns) dims (tabs \<lparr> notes_table := Some t \<rparr>)))"

definition apply_inlink_delta ::
  "('t, 'm) backend \<Rightarrow> ('t, 'm) index_store \<Rightarrow> inlink_delta \<Rightarrow> ('t, 'm) tables
    \<Rightarrow> (index_error, ('t, 'm) tables) result"
where
  "apply_inlink_delta db st edges tabs =
     (if links_upserted edges = [] \<and> links_deleted edges = [] then Ok tabs
      else and_then (redb_try st (multi_open db (links_table tabs))) (\<lambda>m.
        and_then (try_fold (\<lambda>(t, s) m. redb_try st (multi_remove db m (path_key t) (path_key s)))
          (links_deleted edges) m) (\<lambda>m.
        and_then (try_fold (\<lambda>(t, s) m. redb_try st (multi_insert db m (path_key t) (path_key s)))
          (links_upserted edges) m) (\<lambda>m.
          Ok (tabs \<lparr> links_table := Some m \<rparr>)))))"

definition apply_incremental ::
  "('t, 'm) backend \<Rightarrow> ('t, 'm) index_store \<Rightarrow> index_dimension list \<Rightarrow> file_delta \<Rightarrow> md_note list
    \<Rightarrow> inlink_delta \<Rightarrow> (index_error, ('t, 'm) tables) result"
where
  "apply_incremental db st dims delta ns edges =
     and_then (begin_cache_txn db st) (\<lambda>tabs.
     and_then (apply_diff_deletions db st (deleted delta) dims tabs) (\<lambda>tabs.
     and_then (apply_diff_upserts db st (upserted delta) tabs) (\<lambda>tabs.
     and_then (apply_modified_notes db st ns dims tabs) (\<lambda>tabs.
     and_then (apply_inlink_delta db st edges tabs) (\<lambda>tabs.
     and_then (redb_try st (commit_txn db tabs)) (\<lambda>_. Ok tabs))))))"

datatype persist_rows =
  Rebuild "file_entry list"
| Incremental file_delta "md_note list" inlink_delta

definition persist_tables ::
  "('t, 'm) backend \<Rightarrow> ('t, 'm) index_store \<Rightarrow> index_dimension list \<Rightarrow> persist_rows
    \<Rightarrow> (index_error, ('t, 'm) tables) result"
where
  "persist_tables db st dims rows = (case rows of
       Rebuild ents \<Rightarrow> apply_rebuild db st ents dims
     | Incremental delta ns edges \<Rightarrow>
         if file_delta_is_empty delta \<and> ns = [] \<and> links_upserted edges = [] \<and> links_deleted edges = []
         then Ok (store_tables st)
         else apply_incremental db st dims delta ns edges)"

text \<open>The store after the call: an error leaves the transaction uncommitted.\<close>

definition persist ::
  "('t, 'm) backend \<Rightarrow> ('t, 'm) index_store \<Rightarrow> index_dimension list \<Rightarrow> persist_rows
    \<Rightarrow> (index_error, unit) result \<times> ('t, 'm) index_store"
where
  "persist db st dims rows = (case persist_tables db st dims rows of
       Inr tabs \<Rightarrow> (Ok (), st \<lparr> store_tables := tabs \<rparr>)
     | Inl e \<Rightarrow> (Err e, st))"

section \<open>Reads\<close>

definition read_table ::
  "('t, 'm) backend \<Rightarrow> ('t, 'm) index_store \<Rightarrow> (string \<Rightarrow> 'a option) \<Rightarrow> ('a \<Rightarrow> path) \<Rightarrow> 't option
    \<Rightarrow> (index_error, 'a list) result"
where
  "read_table db st dec key t = (case t of
       None \<Rightarrow> Ok []
     | Some _ \<Rightarrow> and_then (redb_try st (row_open db t)) (\<lambda>t.
         and_then (redb_try st (row_iter db t)) (\<lambda>rows.
         and_then (try_map (\<lambda>(k, v). decode_row dec (path_from_bytes k) v) rows) (\<lambda>items.
           Ok (sorted_by_path key items)))))"

definition read_all_files ::
  "('t, 'm) backend \<Rightarrow> ('t, 'm) index_store \<Rightarrow> (index_error, file_meta list) result"
where
  "read_all_files db st = and_then (redb_try st (begin_read db (store_tables st)))
     (\<lambda>_. read_table db st (dec_file db) file_path (files_table (store_tables st)))"

definition read_all_notes ::
  "('t, 'm) backend \<Rightarrow> ('t, 'm) index_store \<Rightarrow> (index_error, md_note list) result"
where
  "read_all_notes db st = and_then (redb_try st (begin_read db (store_tables st)))
     (\<lambda>_. read_table db st (dec_note db) note_path (notes_table (store_tables st)))"

definition path_by_key :: "path list \<Rightarrow> string \<Rightarrow> path option" where
  "path_by_key paths = fold (\<lambda>p m. m(path_key p \<mapsto> p)) paths (\<lambda>_. None)"

definition resolve_link_entry ::
  "(string \<Rightarrow> path option) \<Rightarrow> (string \<Rightarrow> path option) \<Rightarrow> string \<times> string list \<Rightarrow> (path \<times> path list) option"
where
  "resolve_link_entry target_paths source_paths entry =
     (case target_paths (fst entry) of
        None \<Rightarrow> None
      | Some t \<Rightarrow> let sources = List.map_filter source_paths (snd entry)
                  in if sources = [] then None else Some (t, sources))"

definition collect_resolved_links ::
  "(string \<times> string list) list \<Rightarrow> (string \<Rightarrow> path option) \<Rightarrow> (string \<Rightarrow> path option) \<Rightarrow> inlink_map"
where
  "collect_resolved_links ents target_paths source_paths =
     fold (\<lambda>entry links. case resolve_link_entry target_paths source_paths entry of
         Some (t, sources) \<Rightarrow> AList.update t sources links
       | None \<Rightarrow> links) ents []"

definition read_links ::
  "('t, 'm) backend \<Rightarrow> ('t, 'm) index_store \<Rightarrow> (string \<Rightarrow> path option) \<Rightarrow> (string \<Rightarrow> path option)
    \<Rightarrow> (index_error, inlink_map) result"
where
  "read_links db st target_paths source_paths = (case links_table (store_tables st) of
       None \<Rightarrow> Ok []
     | Some m \<Rightarrow> and_then (redb_try st (multi_open db (Some m))) (\<lambda>m.
         and_then (redb_try st (multi_iter db m)) (\<lambda>ents.
           Ok (collect_resolved_links ents target_paths source_paths))))"

definition read_all_links ::
  "('t, 'm) backend \<Rightarrow> ('t, 'm) index_store \<Rightarrow> file_meta list \<Rightarrow> (index_error, inlink_map) result"
where
  "read_all_links db st files = and_then (redb_try st (begin_read db (store_tables st)))
     (\<lambda>_. read_links db st (path_by_key (map file_path files))
       (path_by_key (map file_path (filter (\<lambda>f. file_format_of f = NoteFormat) files))))"

definition read_all ::
  "('t, 'm) backend \<Rightarrow> ('t, 'm) index_store
    \<Rightarrow> (index_error, file_meta list \<times> md_note list \<times> inlink_map) result"
where
  "read_all db st =
     and_then (redb_try st (begin_read db (store_tables st))) (\<lambda>_.
     and_then (read_table db st (dec_file db) file_path (files_table (store_tables st))) (\<lambda>files.
     and_then (read_table db st (dec_note db) note_path (notes_table (store_tables st))) (\<lambda>ns.
     and_then (read_links db st (path_by_key (map file_path files)) (path_by_key (map note_path ns))) (\<lambda>links.
       Ok (files, ns, links)))))"

section \<open>Point reads and path queries\<close>

definition read_batch ::
  "('t, 'm) backend \<Rightarrow> ('t, 'm) index_store \<Rightarrow> (string \<Rightarrow> 'a option) \<Rightarrow> 't option \<Rightarrow> path list
    \<Rightarrow> (index_error, 'a list) result"
where
  "read_batch db st dec t paths = and_then (redb_try st (begin_read db (store_tables st))) (\<lambda>_.
     case t of
       None \<Rightarrow> Ok []
     | Some _ \<Rightarrow> and_then (redb_try st (row_open db t)) (\<lambda>t.
         and_then (try_map (\<lambda>p. and_then (redb_try st (row_get db t (path_key p))) (\<lambda>bytes.
             Ok (Option.bind bytes dec))) paths) (\<lambda>items. Ok (List.map_filter id items))))"

definition read_notes_batch ::
  "('t, 'm) backend \<Rightarrow> ('t, 'm) index_store \<Rightarrow> path list \<Rightarrow> (index_error, md_note list) result"
where
  "read_notes_batch db st paths = read_batch db st (dec_note db) (notes_table (store_tables st)) paths"

definition read_files_batch ::
  "('t, 'm) backend \<Rightarrow> ('t, 'm) index_store \<Rightarrow> path list \<Rightarrow> (index_error, file_meta list) result"
where
  "read_files_batch db st paths = read_batch db st (dec_file db) (files_table (store_tables st)) paths"

definition collect_stored_paths ::
  "('t, 'm) backend \<Rightarrow> ('t, 'm) index_store \<Rightarrow> 'm \<Rightarrow> string \<Rightarrow> (index_error, path list) result"
where
  "collect_stored_paths db st m key = and_then (redb_try st (multi_get db m key))
     (\<lambda>values. Ok (map path_from_bytes values))"

definition read_links_for_targets ::
  "('t, 'm) backend \<Rightarrow> ('t, 'm) index_store \<Rightarrow> path list \<Rightarrow> (index_error, inlink_map) result"
where
  "read_links_for_targets db st targets = and_then (redb_try st (begin_read db (store_tables st))) (\<lambda>_.
     case links_table (store_tables st) of
       None \<Rightarrow> Ok []
     | Some m \<Rightarrow> and_then (redb_try st (multi_open db (Some m))) (\<lambda>m.
         and_then (try_map (\<lambda>t. and_then (collect_stored_paths db st m (path_key t)) (\<lambda>sources.
             Ok (t, sources))) targets) (\<lambda>edges.
           Ok (fold (\<lambda>(t, sources) links. if sources = [] then links else AList.update t sources links)
             edges []))))"

definition paths_from_multimap ::
  "('t, 'm) backend \<Rightarrow> ('t, 'm) index_store \<Rightarrow> 'm option \<Rightarrow> string \<Rightarrow> (index_error, path list) result"
where
  "paths_from_multimap db st m key = and_then (redb_try st (begin_read db (store_tables st))) (\<lambda>_.
     case m of
       None \<Rightarrow> Ok []
     | Some _ \<Rightarrow> and_then (redb_try st (multi_open db m)) (\<lambda>m.
         and_then (collect_stored_paths db st m key) (\<lambda>paths. Ok (dedup (sort paths)))))"

definition paths_with_tag ::
  "('t, 'm) backend \<Rightarrow> ('t, 'm) index_store \<Rightarrow> string \<Rightarrow> (index_error, path list) result"
where
  "paths_with_tag db st tag =
     (let lower = with_lowercased db tag
      in paths_from_multimap db st (paths_by_tag (store_tables st))
           (if prefix ''#'' tag then lower else CHR ''#'' # lower))"

definition paths_with_file_class ::
  "('t, 'm) backend \<Rightarrow> ('t, 'm) index_store \<Rightarrow> string \<Rightarrow> (index_error, path list) result"
where
  "paths_with_file_class db st cls =
     paths_from_multimap db st (paths_by_class (store_tables st)) (with_lowercased db cls)"

definition collect_sorted_path_keys :: "(string \<times> string) list \<Rightarrow> path list" where
  "collect_sorted_path_keys rows = sort (map (\<lambda>(k, v). path_from_bytes k) rows)"

definition end_of_prefix :: "string \<Rightarrow> string" where
  "end_of_prefix p = (if p = [] then []
     else butlast p @ [char_of (min 255 (of_char (last p) + 1) :: nat)])"

definition collect_folder_paths ::
  "('t, 'm) backend \<Rightarrow> ('t, 'm) index_store \<Rightarrow> 't \<Rightarrow> string \<Rightarrow> (index_error, path list) result"
where
  "collect_folder_paths db st t folder =
     (if folder = [] \<or> folder = ''.''
      then and_then (redb_try st (row_iter db t)) (\<lambda>rows. Ok (collect_sorted_path_keys rows))
      else let p = (if suffix ''/'' folder then folder else folder @ ''/'')
           in and_then (redb_try st (row_range db t p (end_of_prefix p)))
                (\<lambda>rows. Ok (collect_sorted_path_keys rows)))"

definition paths_in_folder ::
  "('t, 'm) backend \<Rightarrow> ('t, 'm) index_store \<Rightarrow> string \<Rightarrow> (index_error, path list) result"
where
  "paths_in_folder db st folder = and_then (redb_try st (begin_read db (store_tables st))) (\<lambda>_.
     case files_table (store_tables st) of
       None \<Rightarrow> Ok []
     | Some _ \<Rightarrow> and_then (redb_try st (row_open db (files_table (store_tables st))))
         (\<lambda>t. collect_folder_paths db st t folder))"

end
