(* ===== verification/Store_Contents.thy ===== *)
theory Store_Contents
  imports Store
begin

text \<open>
  What the tables of the store hold.  \<open>backend_ok\<close> states the documented behaviour of the
  database calls that succeed, over the contents of a table: a map of byte keys for a row table,
  a set of pairs for a multimap.  \<open>in_sync\<close> relates the seven tables to the files, notes and
  link edges of an index; a rebuild establishes it, an incremental write takes it from one index to
  the next, and the reads invert it.
\<close>

section \<open>The documented behaviour of the database\<close>

definition opt_rows :: "('t \<Rightarrow> string \<Rightarrow> string option) \<Rightarrow> 't option \<Rightarrow> string \<Rightarrow> string option" where
  "opt_rows rows t = (case t of None \<Rightarrow> (\<lambda>_. None) | Some t \<Rightarrow> rows t)"

definition opt_pairs :: "('m \<Rightarrow> (string \<times> string) set) \<Rightarrow> 'm option \<Rightarrow> (string \<times> string) set" where
  "opt_pairs pairs m = (case m of None \<Rightarrow> {} | Some m \<Rightarrow> pairs m)"

lemma opt_simps [simp]:
  "opt_rows rows None = (\<lambda>_. None)" "opt_rows rows (Some t) = rows t"
  "opt_pairs pairs None = {}" "opt_pairs pairs (Some m) = pairs m"
  by (simp_all add: opt_rows_def opt_pairs_def)

definition backend_ok ::
  "('t, 'm) backend \<Rightarrow> ('t \<Rightarrow> string \<Rightarrow> string option) \<Rightarrow> ('m \<Rightarrow> (string \<times> string) set) \<Rightarrow> bool"
where
  "backend_ok db rows pairs \<longleftrightarrow>
     (\<forall>t t'. row_open db t = Ok t' \<longrightarrow> rows t' = opt_rows rows t)
   \<and> (\<forall>t k v t'. row_insert db t k v = Ok t' \<longrightarrow> rows t' = (rows t)(k \<mapsto> v))
   \<and> (\<forall>t k t'. row_remove db t k = Ok t' \<longrightarrow> rows t' = (rows t)(k := None))
   \<and> (\<forall>t k r. row_get db t k = Ok r \<longrightarrow> r = rows t k)
   \<and> (\<forall>t es. row_iter db t = Ok es \<longrightarrow> distinct (map fst es) \<and> map_of es = rows t)
   \<and> (\<forall>t lo hi es. row_range db t lo hi = Ok es \<longrightarrow> distinct (map fst es)
        \<and> map_of es = (\<lambda>k. if lo \<le> k \<and> k < hi then rows t k else None))
   \<and> (\<forall>m m'. multi_open db m = Ok m' \<longrightarrow> pairs m' = opt_pairs pairs m)
   \<and> (\<forall>m k v m'. multi_insert db m k v = Ok m' \<longrightarrow> pairs m' = insert (k, v) (pairs m))
   \<and> (\<forall>m k v m'. multi_remove db m k v = Ok m' \<longrightarrow> pairs m' = pairs m - {(k, v)})
   \<and> (\<forall>m k m'. multi_remove_all db m k = Ok m' \<longrightarrow> pairs m' = {e \<in> pairs m. fst e \<noteq> k})
   \<and> (\<forall>m k vs. multi_get db m k = Ok vs \<longrightarrow> sorted_wrt (<) vs \<and> set vs = {v. (k, v) \<in> pairs m})
   \<and> (\<forall>m es. multi_iter db m = Ok es \<longrightarrow> distinct (map fst es)
        \<and> (\<forall>(k, vs)\<in>set es. vs \<noteq> [] \<and> sorted_wrt (<) vs)
        \<and> pairs m = {(k, v). \<exists>vs. (k, vs) \<in> set es \<and> v \<in> set vs})
   \<and> (\<forall>f bytes. enc_file db f = Some bytes \<longrightarrow> dec_file db bytes = Some f)
   \<and> (\<forall>n bytes. enc_note db n = Some bytes \<longrightarrow> dec_note db bytes = Some n)"

lemma backend_rows:
  assumes "backend_ok db rows pairs"
  shows "row_open db t = Ok t' \<Longrightarrow> rows t' = opt_rows rows t"
    and "row_insert db t' k v = Ok t2 \<Longrightarrow> rows t2 = (rows t')(k \<mapsto> v)"
    and "row_remove db t' k = Ok t2 \<Longrightarrow> rows t2 = (rows t')(k := None)"
    and "row_get db t' k = Ok r \<Longrightarrow> r = rows t' k"
    and "row_iter db t' = Ok es \<Longrightarrow> distinct (map fst es) \<and> map_of es = rows t'"
    and "row_range db t' lo hi = Ok es \<Longrightarrow> distinct (map fst es)
      \<and> map_of es = (\<lambda>k. if lo \<le> k \<and> k < hi then rows t' k else None)"
  using assms unfolding backend_ok_def by (elim conjE; simp)+

lemma backend_pairs:
  assumes "backend_ok db rows pairs"
  shows "multi_open db m = Ok m' \<Longrightarrow> pairs m' = opt_pairs pairs m"
    and "multi_insert db m' k v = Ok m2 \<Longrightarrow> pairs m2 = insert (k, v) (pairs m')"
    and "multi_remove db m' k v = Ok m2 \<Longrightarrow> pairs m2 = pairs m' - {(k, v)}"
    and "multi_remove_all db m' k = Ok m2 \<Longrightarrow> pairs m2 = {e \<in> pairs m'. fst e \<noteq> k}"
    and "multi_get db m' k = Ok vs \<Longrightarrow> sorted_wrt (<) vs \<and> set vs = {v. (k, v) \<in> pairs m'}"
    and "multi_iter db m' = Ok es2 \<Longrightarrow> distinct (map fst es2)
      \<and> (\<forall>(k, vs)\<in>set es2. vs \<noteq> [] \<and> sorted_wrt (<) vs)
      \<and> pairs m' = {(k, v). \<exists>vs. (k, vs) \<in> set es2 \<and> v \<in> set vs}"
  using assms unfolding backend_ok_def by (elim conjE; simp)+

lemma backend_codec:
  assumes "backend_ok db rows pairs"
  shows "enc_file db f = Some bytes \<Longrightarrow> dec_file db bytes = Some f"
    and "enc_note db n = Some bytes \<Longrightarrow> dec_note db bytes = Some n"
  using assms unfolding backend_ok_def by (elim conjE; simp)+

section \<open>Keys\<close>

text \<open>The paths of an index are project-relative: named components only.\<close>

definition plain_component :: "component \<Rightarrow> bool" where
  "plain_component c \<longleftrightarrow> (\<exists>s. c = Normal s \<and> s \<noteq> [] \<and> s \<noteq> ''.'' \<and> s \<noteq> ''..'' \<and> CHR ''/'' \<notin> set s)"

definition plain_path :: "path \<Rightarrow> bool" where
  "plain_path p \<longleftrightarrow> p \<noteq> [] \<and> (\<forall>c\<in>set p. plain_component c)"

lemma components_key:
  assumes "plain_path p"
  shows "components (path_key p) = p"
proof -
  have seg: "CHR ''/'' \<notin> set (component_text c)" "component_of (component_text c) = Some c"
    "component_text c \<noteq> []" "component_text c \<noteq> ''.''" if "c \<in> set p" for c
    using assms that by (auto simp: plain_path_def plain_component_def component_of_def)
  have "map component_text p \<noteq> []" using assms by (simp add: plain_path_def)
  then have segs: "split_on CHR ''/'' (path_key p) = map component_text p"
    unfolding path_key_def using seg(1) by (intro split_join) auto
  obtain c cs where p: "p = c # cs" using assms by (cases p) (auto simp: plain_path_def)
  have "path_key p = component_text c @ (if cs = [] then [] else ''/'' @ join_with ''/'' (map component_text cs))"
    by (cases cs) (simp_all add: path_key_def p)
  then have "hd (path_key p) \<noteq> CHR ''/''" "path_key p \<noteq> []"
    using seg(1,3) [of c] p hd_in_set [of "component_text c"] by (auto simp del: hd_in_set)
  then have "\<not> prefix ''/'' (path_key p)" by (cases "path_key p") auto
  moreover have "List.map_filter component_of (map component_text p) = p"
    using seg(2) by (induction p) (auto simp: List.map_filter_def)
  ultimately show ?thesis using segs seg(4) [of c] p by (simp add: components_def)
qed

lemma path_key_inj: "plain_path p \<Longrightarrow> plain_path q \<Longrightarrow> path_key p = path_key q \<Longrightarrow> p = q"
  by (metis components_key)

definition row_image :: "('a \<Rightarrow> path) \<Rightarrow> ('a \<Rightarrow> string option) \<Rightarrow> 'a list \<Rightarrow> string \<Rightarrow> string option" where
  "row_image key enc items k = Option.bind (List.find (\<lambda>x. path_key (key x) = k) items) enc"

definition plain_rows :: "('a \<Rightarrow> path) \<Rightarrow> 'a list \<Rightarrow> bool" where
  "plain_rows key items \<longleftrightarrow> ascending key items \<and> (\<forall>x\<in>set items. plain_path (key x))"

lemma plain_rows_keys:
  assumes "plain_rows key items"
  shows "distinct (map (\<lambda>x. path_key (key x)) items)"
proof -
  have "inj_on (\<lambda>x. path_key (key x)) (set items)"
  proof (rule inj_onI)
    fix x y assume xy: "x \<in> set items" "y \<in> set items" "path_key (key x) = path_key (key y)"
    then have "key x = key y" using assms path_key_inj by (auto simp: plain_rows_def)
    have "row_of key items (key x) = Some x" "row_of key items (key y) = Some y"
      using row_of_in xy(1,2) assms by (auto simp: plain_rows_def)
    then show "x = y" unfolding \<open>key x = key y\<close> by simp
  qed
  moreover have "distinct items"
    using ascending_distinct [of key items] assms by (simp add: plain_rows_def distinct_map)
  ultimately show ?thesis by (simp add: distinct_map)
qed

lemma find_key_row:
  assumes "\<forall>x\<in>set items. plain_path (key x)" "plain_path p"
  shows "List.find (\<lambda>x. path_key (key x) = path_key p) items = row_of key items p"
  unfolding row_of_def using assms path_key_inj
  by (induction items) auto

lemma row_image_at:
  "plain_rows key items \<Longrightarrow> plain_path p
    \<Longrightarrow> row_image key enc items (path_key p) = Option.bind (row_of key items p) enc"
  by (simp add: row_image_def find_key_row plain_rows_def)

section \<open>Row tables\<close>

lemma upsert_row_view:
  assumes "backend_ok db rows pairs" "upsert_row db st enc path_of v t = Ok t'"
  shows "rows t' = (rows t)(path_key (path_of v) := enc v) \<and> enc v \<noteq> None"
  using assms(2) backend_rows(2) [OF assms(1)]
  by (cases "enc v") (auto simp: upsert_row_def encode_row_def)

lemma fold_upsert:
  "distinct (map K items) \<Longrightarrow> fold (\<lambda>x m. m(K x := enc x)) items m k
    = (case List.find (\<lambda>x. K x = k) items of Some x \<Rightarrow> enc x | None \<Rightarrow> m k)"
proof (induction items arbitrary: m)
  case (Cons x items)
  have "K y \<noteq> K x" if "y \<in> set items" for y using Cons.prems imageI [OF that, of K] by auto
  then have "List.find (\<lambda>y. K y = K x) items = None" by (simp add: find_None_iff)
  with Cons show ?case by auto
qed simp

lemma write_rows_view:
  assumes ok: "backend_ok db rows pairs"
    and w: "write_rows db st enc path_of items t = Ok t'"
    and dist: "distinct (map (\<lambda>x. path_key (path_of x)) items)"
  shows "rows t' k = (case List.find (\<lambda>x. path_key (path_of x) = k) items of
      Some x \<Rightarrow> enc x | None \<Rightarrow> opt_rows rows t k)"
    and "\<forall>x\<in>set items. enc x \<noteq> None"
proof -
  obtain t0 where t0: "row_open db t = Ok t0" "try_fold (upsert_row db st enc path_of) items t0 = Ok t'"
    using w by (auto simp: write_rows_def and_then_eq_Ok)
  have "rows t' = fold (\<lambda>x m. m(path_key (path_of x) := enc x)) items (rows t0)"
  proof (rule try_fold_view [OF _ t0(2)])
    fix x s s' assume "upsert_row db st enc path_of x s = Ok s'"
    from upsert_row_view [OF ok this] show "rows s' = (rows s)(path_key (path_of x) := enc x)" ..
  qed
  then have "rows t' k = fold (\<lambda>x m. m(path_key (path_of x) := enc x)) items (rows t0) k" by (rule fun_cong)
  then show "rows t' k = (case List.find (\<lambda>x. path_key (path_of x) = k) items of
      Some x \<Rightarrow> enc x | None \<Rightarrow> opt_rows rows t k)"
    unfolding fold_upsert [OF dist] backend_rows(1) [OF ok t0(1)] .
  have "\<forall>x\<in>set items. enc x \<noteq> None" if "try_fold (upsert_row db st enc path_of) items s = Ok s'" for s s'
    using that
  proof (induction items arbitrary: s)
    case (Cons x items)
    then obtain u where u: "upsert_row db st enc path_of x s = Ok u" "try_fold (upsert_row db st enc path_of) items u = Ok s'"
      by (auto simp: and_then_eq_Ok)
    from upsert_row_view [OF ok u(1)] have "enc x \<noteq> None" ..
    with Cons.IH [OF u(2)] show ?case by simp
  qed simp
  with t0(2) show "\<forall>x\<in>set items. enc x \<noteq> None" by blast
qed

section \<open>Multimaps\<close>

lemma insert_pairs_view:
  assumes "backend_ok db rows pairs" "insert_pairs db st kvs m = Ok m'"
  shows "pairs m' = set kvs \<union> pairs m"
proof -
  have "pairs m' = fold (\<lambda>kv. insert kv) kvs (pairs m)"
    using assms(2) unfolding insert_pairs_def
  proof (rule try_fold_view [rotated])
    fix kv s s' assume "(case kv of (k, v) \<Rightarrow> \<lambda>m. redb_try st (multi_insert db m k v)) s = Ok s'"
    then have "multi_insert db s (fst kv) (snd kv) = Ok s'" by (cases kv) simp
    from backend_pairs(2) [OF assms(1) this] show "pairs s' = insert kv (pairs s)" by simp
  qed
  then show ?thesis by (simp add: union_set_fold)
qed

lemma fold_union: "fold (\<lambda>x A. f x \<union> A) xs A = \<Union> (f ` set xs) \<union> A"
  by (induction xs arbitrary: A) auto

lemma fold_insert_pairs_view:
  assumes "backend_ok db rows pairs" "try_fold (\<lambda>x. insert_pairs db st (kvs x)) xs m = Ok m'"
  shows "pairs m' = \<Union> ((\<lambda>x. set (kvs x)) ` set xs) \<union> pairs m"
proof -
  have "pairs m' = fold (\<lambda>x A. set (kvs x) \<union> A) xs (pairs m)"
    by (rule try_fold_view [OF _ assms(2)]) (rule insert_pairs_view [OF assms(1)])
  then show ?thesis by (simp add: fold_union)
qed

section \<open>The two tables of a dimension\<close>

text \<open>The forward table is the converse of the reverse table, whose pairs are (path key, value).\<close>

definition axis_paired :: "('m \<Rightarrow> (string \<times> string) set) \<Rightarrow> 'm \<times> 'm \<Rightarrow> bool" where
  "axis_paired pairs axis \<longleftrightarrow> pairs (fst axis) = (pairs (snd axis))\<inverse>"

lemma fold_remove: "fold (\<lambda>x A. A - {(x, k)}) xs A = A - {(x, k) | x. x \<in> set xs}"
  by (induction xs arbitrary: A) auto

lemma remove_axis_entry_view:
  assumes ok: "backend_ok db rows pairs" and paired: "axis_paired pairs axis"
    and rem: "remove_axis_entry db st key axis = Ok axis'"
  shows "axis_paired pairs axis' \<and> pairs (snd axis') = {e \<in> pairs (snd axis). fst e \<noteq> key}"
proof -
  obtain fwd rev where axis: "axis = (fwd, rev)" by (cases axis)
  obtain olds fwd' rev' where r: "multi_get db rev key = Ok olds"
    "try_fold (\<lambda>old fwd. redb_try st (multi_remove db fwd old key)) olds fwd = Ok fwd'"
    "multi_remove_all db rev key = Ok rev'" "axis' = (fwd', rev')"
    using rem by (auto simp: remove_axis_entry_def axis and_then_eq_Ok)
  have "pairs fwd' = fold (\<lambda>old A. A - {(old, key)}) olds (pairs fwd)"
  proof (rule try_fold_view [OF _ r(2)])
    fix x s s' assume "redb_try st (multi_remove db s x key) = Ok s'"
    then have "multi_remove db s x key = Ok s'" by simp
    from backend_pairs(3) [OF ok this] show "pairs s' = pairs s - {(x, key)}" .
  qed
  then have "pairs fwd' = pairs fwd - {(x, key) | x. x \<in> set olds}" by (simp only: fold_remove)
  moreover have "set olds = {v. (key, v) \<in> pairs rev}" using backend_pairs(5) [OF ok r(1)] by blast
  moreover have "pairs rev' = {e \<in> pairs rev. fst e \<noteq> key}" by (rule backend_pairs(4) [OF ok r(3)])
  ultimately show ?thesis using paired unfolding axis r(4) axis_paired_def fst_conv snd_conv by auto
qed

lemma fold_keep: "fold (\<lambda>x A. {e \<in> A. fst e \<noteq> K x}) xs A = {e \<in> A. fst e \<notin> K ` set xs}"
  by (induction xs arbitrary: A) auto

lemma remove_entries_view:
  assumes ok: "backend_ok db rows pairs" and paired: "axis_paired pairs axis"
    and rem: "try_fold (\<lambda>x. remove_axis_entry db st (K x)) xs axis = Ok axis'"
  shows "axis_paired pairs axis' \<and> pairs (snd axis') = {e \<in> pairs (snd axis). fst e \<notin> K ` set xs}"
proof -
  have "axis_paired pairs axis' \<and> pairs (snd axis')
      = fold (\<lambda>x A. {e \<in> A. fst e \<noteq> K x}) xs (pairs (snd axis))"
    by (rule try_fold_inv [where I = "axis_paired pairs" and view = "\<lambda>a. pairs (snd a)", OF _ paired rem]) (rule remove_axis_entry_view [OF ok])
  then show ?thesis by (simp only: fold_keep)
qed

lemma fold_insert_pair: "fold (\<lambda>v A. insert (k, v) A) vs A = Pair k ` set vs \<union> A"
  by (induction vs arbitrary: A) auto

lemma upsert_axis_note_view:
  assumes ok: "backend_ok db rows pairs" and paired: "axis_paired pairs axis"
    and up: "upsert_axis_note db st dim n axis = Ok axis'"
  shows "axis_paired pairs axis' \<and> pairs (snd axis') = {e \<in> pairs (snd axis). fst e \<noteq> path_key (note_path n)}
    \<union> Pair (path_key (note_path n)) ` set (axis_values db dim n)"
proof -
  let ?k = "path_key (note_path n)"
  let ?ins = "\<lambda>value (fwd, rev). and_then (redb_try st (multi_insert db fwd value ?k)) (\<lambda>fwd.
    and_then (redb_try st (multi_insert db rev ?k value)) (\<lambda>rev. Ok (fwd, rev)))"
  obtain axis1 where rem: "remove_axis_entry db st ?k axis = Ok axis1"
    and ins: "try_fold ?ins (axis_values db dim n) axis1 = Ok axis'"
    using up by (auto simp: upsert_axis_note_def and_then_eq_Ok)
  note R = remove_axis_entry_view [OF ok paired rem]
  have "axis_paired pairs axis' \<and> pairs (snd axis')
      = fold (\<lambda>v A. insert (?k, v) A) (axis_values db dim n) (pairs (snd axis1))"
  proof (rule try_fold_inv [where I = "axis_paired pairs" and view = "\<lambda>a. pairs (snd a)", OF _ conjunct1 [OF R] ins])
    fix v s s' assume s: "axis_paired pairs s" "?ins v s = Ok s'"
    obtain fwd rev where fr: "s = (fwd, rev)" by (cases s)
    with s(2) obtain fwd' rev' where i: "multi_insert db fwd v ?k = Ok fwd'"
      "multi_insert db rev ?k v = Ok rev'" "s' = (fwd', rev')"
      by (auto simp: and_then_eq_Ok)
    from backend_pairs(2) [OF ok i(1)] backend_pairs(2) [OF ok i(2)] s(1)
    show "axis_paired pairs s' \<and> pairs (snd s') = insert (?k, v) (pairs (snd s))"
      by (auto simp: axis_paired_def fr i(3))
  qed
  then show ?thesis unfolding fold_insert_pair using R by (simp only: Un_commute)
qed

lemma fold_replace:
  "distinct (map K xs) \<Longrightarrow> fold (\<lambda>x A. {e \<in> A. fst e \<noteq> K x} \<union> Pair (K x) ` set (f x)) xs A
    = {e \<in> A. fst e \<notin> K ` set xs} \<union> {(K x, v) | x v. x \<in> set xs \<and> v \<in> set (f x)}"
proof (induction xs arbitrary: A)
  case (Cons x xs)
  then have "K x \<notin> K ` set xs" by simp
  with Cons show ?case by auto
qed auto

lemma upsert_notes_view:
  assumes ok: "backend_ok db rows pairs" and paired: "axis_paired pairs axis"
    and up: "try_fold (upsert_axis_note db st dim) ns axis = Ok axis'"
    and dist: "distinct (map (\<lambda>n. path_key (note_path n)) ns)"
  shows "axis_paired pairs axis' \<and> pairs (snd axis')
    = {e \<in> pairs (snd axis). fst e \<notin> (\<lambda>n. path_key (note_path n)) ` set ns}
      \<union> {(path_key (note_path n), v) | n v. n \<in> set ns \<and> v \<in> set (axis_values db dim n)}"
proof -
  have "axis_paired pairs axis' \<and> pairs (snd axis') = fold (\<lambda>n A. {e \<in> A. fst e \<noteq> path_key (note_path n)}
      \<union> Pair (path_key (note_path n)) ` set (axis_values db dim n)) ns (pairs (snd axis))"
    by (rule try_fold_inv [where I = "axis_paired pairs" and view = "\<lambda>a. pairs (snd a)", OF _ paired up]) (rule upsert_axis_note_view [OF ok])
  then show ?thesis by (simp only: fold_replace [OF dist])
qed

section \<open>Synchronized tables\<close>

definition axis_image :: "('t, 'm) backend \<Rightarrow> index_dimension \<Rightarrow> md_note list \<Rightarrow> (string \<times> string) set" where
  "axis_image db dim ns = {(path_key (note_path n), v) | n v. n \<in> set ns \<and> v \<in> set (axis_values db dim n)}"

definition link_image :: "(path \<times> path) set \<Rightarrow> (string \<times> string) set" where
  "link_image edges = map_prod path_key path_key ` edges"

definition rows_in_sync ::
  "('t, 'm) backend \<Rightarrow> ('t \<Rightarrow> string \<Rightarrow> string option) \<Rightarrow> ('t, 'm) tables \<Rightarrow> file_meta list \<Rightarrow> md_note list \<Rightarrow> bool"
where
  "rows_in_sync db rows tabs files ns \<longleftrightarrow>
     (\<forall>k. opt_rows rows (files_table tabs) k = row_image file_path (enc_file db) files k)
   \<and> (\<forall>k. opt_rows rows (notes_table tabs) k = row_image note_path (enc_note db) ns k)
   \<and> (\<forall>f\<in>set files. enc_file db f \<noteq> None) \<and> (\<forall>n\<in>set ns. enc_note db n \<noteq> None)"

definition axes_in_sync ::
  "('t, 'm) backend \<Rightarrow> ('m \<Rightarrow> (string \<times> string) set) \<Rightarrow> index_dimension list \<Rightarrow> ('t, 'm) tables
    \<Rightarrow> md_note list \<Rightarrow> bool"
where
  "axes_in_sync db pairs dims tabs ns \<longleftrightarrow> (\<forall>dim\<in>set dims.
     opt_pairs pairs (axis_reverse dim tabs) = axis_image db dim ns
     \<and> opt_pairs pairs (axis_forward dim tabs) = (axis_image db dim ns)\<inverse>)"

definition in_sync ::
  "('t, 'm) backend \<Rightarrow> ('t \<Rightarrow> string \<Rightarrow> string option) \<Rightarrow> ('m \<Rightarrow> (string \<times> string) set) \<Rightarrow> string
    \<Rightarrow> ('t, 'm) tables \<Rightarrow> file_meta list \<Rightarrow> md_note list \<Rightarrow> (path \<times> path) set \<Rightarrow> bool"
where
  "in_sync db rows pairs class_field tabs files ns edges \<longleftrightarrow>
     rows_in_sync db rows tabs files ns \<and> opt_pairs pairs (links_table tabs) = link_image edges
     \<and> axes_in_sync db pairs (for_class_field class_field) tabs ns"

text \<open>What a step leaves alone.\<close>

definition same_rows_links :: "('t, 'm) tables \<Rightarrow> ('t, 'm) tables \<Rightarrow> bool" where
  "same_rows_links a b \<longleftrightarrow> files_table b = files_table a \<and> notes_table b = notes_table a
     \<and> links_table b = links_table a"

definition same_axes :: "('t, 'm) tables \<Rightarrow> ('t, 'm) tables \<Rightarrow> bool" where
  "same_axes a b \<longleftrightarrow> (\<forall>dim. axis_forward dim b = axis_forward dim a \<and> axis_reverse dim b = axis_reverse dim a)"

lemma same_axes_row_update [simp]:
  "same_axes tabs (tabs \<lparr> files_table := x, notes_table := y \<rparr>)" "same_axes tabs (tabs \<lparr> files_table := x \<rparr>)"
  "same_axes tabs (tabs \<lparr> notes_table := y \<rparr>)" "same_axes tabs (tabs \<lparr> links_table := z \<rparr>)" "same_axes tabs tabs"
  unfolding same_axes_def by (intro allI, case_tac dim, simp_all)+

lemma same_rows_links_refl [simp]: "same_rows_links a a"
  by (simp add: same_rows_links_def)

lemma same_rows_links_trans: "same_rows_links a b \<Longrightarrow> same_rows_links b c \<Longrightarrow> same_rows_links a c"
  by (simp add: same_rows_links_def)

fun same_axis :: "index_dimension \<Rightarrow> index_dimension \<Rightarrow> bool" where
  "same_axis TagAxis TagAxis \<longleftrightarrow> True"
| "same_axis (ClassAxis a) (ClassAxis b) \<longleftrightarrow> True"
| "same_axis _ _ \<longleftrightarrow> False"

lemma set_axis_simps [simp]:
  "axis_forward d (set_axis_forward dim m tabs) = (if same_axis d dim then Some m else axis_forward d tabs)"
  "axis_reverse d (set_axis_forward dim m tabs) = axis_reverse d tabs"
  "axis_reverse d (set_axis_reverse dim m tabs) = (if same_axis d dim then Some m else axis_reverse d tabs)"
  "axis_forward d (set_axis_reverse dim m tabs) = axis_forward d tabs"
  by (cases d; cases dim; simp)+

lemma set_axis_rows [simp]:
  "files_table (set_axis_forward dim m tabs) = files_table tabs"
  "notes_table (set_axis_forward dim m tabs) = notes_table tabs"
  "links_table (set_axis_forward dim m tabs) = links_table tabs"
  "files_table (set_axis_reverse dim m tabs) = files_table tabs"
  "notes_table (set_axis_reverse dim m tabs) = notes_table tabs"
  "links_table (set_axis_reverse dim m tabs) = links_table tabs"
  by (cases dim; simp)+

text \<open>Both tables of a dimension hold the relation \<open>A\<close>.\<close>

definition axis_holds ::
  "('m \<Rightarrow> (string \<times> string) set) \<Rightarrow> ('t, 'm) tables \<Rightarrow> index_dimension \<Rightarrow> (string \<times> string) set \<Rightarrow> bool"
where
  "axis_holds pairs tabs dim A \<longleftrightarrow>
     opt_pairs pairs (axis_reverse dim tabs) = A \<and> opt_pairs pairs (axis_forward dim tabs) = A\<inverse>"

lemma axes_in_sync_holds:
  "axes_in_sync db pairs dims tabs ns \<longleftrightarrow> (\<forall>dim\<in>set dims. axis_holds pairs tabs dim (axis_image db dim ns))"
  by (simp add: axes_in_sync_def axis_holds_def)

lemma open_axis_view:
  assumes ok: "backend_ok db rows pairs" and holds: "axis_holds pairs tabs dim A"
    and op: "open_axis db st dim tabs = Ok axis"
  shows "axis_paired pairs axis \<and> pairs (snd axis) = A"
  using op holds backend_pairs(1) [OF ok]
  by (auto simp: open_axis_def and_then_eq_Ok axis_paired_def axis_holds_def)

lemma axis_step:
  assumes ok: "backend_ok db rows pairs" and holds: "axis_holds pairs tabs dim A"
    and run: "and_then (open_axis db st dim tabs) (\<lambda>axis. and_then (body axis)
        (\<lambda>(fwd, rev). Ok (set_axis_reverse dim rev (set_axis_forward dim fwd tabs)))) = Ok tabs'"
    and step: "\<And>axis axis'. axis_paired pairs axis \<Longrightarrow> body axis = Ok axis'
        \<Longrightarrow> axis_paired pairs axis' \<and> pairs (snd axis') = g (pairs (snd axis))"
  shows "axis_holds pairs tabs' dim (g A) \<and> same_rows_links tabs tabs'
    \<and> (\<forall>d B. \<not> same_axis d dim \<longrightarrow> axis_holds pairs tabs d B \<longrightarrow> axis_holds pairs tabs' d B)"
proof -
  obtain axis fwd rev where r: "open_axis db st dim tabs = Ok axis" "body axis = Ok (fwd, rev)"
    "tabs' = set_axis_reverse dim rev (set_axis_forward dim fwd tabs)"
    using run by (auto simp: and_then_eq_Ok)
  note O = open_axis_view [OF ok holds r(1)]
  from step [OF conjunct1 [OF O] r(2)] O
  have "pairs fwd = (pairs rev)\<inverse>" "pairs rev = g A" by (simp_all add: axis_paired_def)
  moreover have "same_axis dim dim" by (cases dim) simp_all
  ultimately show ?thesis by (simp add: r(3) axis_holds_def same_rows_links_def)
qed

text \<open>Running a step over both dimensions.\<close>

lemma both_axes:
  assumes run: "try_fold step (for_class_field cls) tabs = Ok tabs'"
    and holds: "\<forall>dim\<in>set (for_class_field cls). axis_holds pairs tabs dim (A dim)"
    and one: "\<And>dim t t'. step dim t = Ok t' \<Longrightarrow> axis_holds pairs t dim (A dim)
      \<Longrightarrow> axis_holds pairs t' dim (B dim) \<and> same_rows_links t t'
        \<and> (\<forall>d C. \<not> same_axis d dim \<longrightarrow> axis_holds pairs t d C \<longrightarrow> axis_holds pairs t' d C)"
  shows "(\<forall>dim\<in>set (for_class_field cls). axis_holds pairs tabs' dim (B dim)) \<and> same_rows_links tabs tabs'"
proof -
  obtain t where t: "step TagAxis tabs = Ok t" "step (ClassAxis cls) t = Ok tabs'"
    using run by (auto simp: for_class_field_def and_then_eq_Ok)
  from holds have h: "axis_holds pairs tabs TagAxis (A TagAxis)" "axis_holds pairs tabs (ClassAxis cls) (A (ClassAxis cls))"
    by (simp_all add: for_class_field_def)
  note T = one [OF t(1) h(1)]
  then have "axis_holds pairs t (ClassAxis cls) (A (ClassAxis cls))" using h(2) by simp
  note C = one [OF t(2) this]
  show ?thesis using T C by (auto simp: for_class_field_def intro: same_rows_links_trans)
qed

section \<open>The rebuild\<close>

lemma delete_tables_view:
  "delete_tables db st tabs = Ok tabs' \<Longrightarrow> tabs' = \<lparr> files_table = None, notes_table = None,
     links_table = None, paths_by_tag = None, paths_by_class = None, tags_by_path = None, classes_by_path = None \<rparr>"
  by (auto simp: delete_tables_def and_then_eq_Ok)

lemma write_axis_view:
  assumes ok: "backend_ok db rows pairs" and holds: "axis_holds pairs tabs dim {}"
    and run: "and_then (write_index_by_value db st ents dim tabs) (write_index_by_path db st ents dim) = Ok tabs'"
  shows "axis_holds pairs tabs' dim (axis_image db dim (entry_notes ents)) \<and> same_rows_links tabs tabs'
    \<and> (\<forall>d B. \<not> same_axis d dim \<longrightarrow> axis_holds pairs tabs d B \<longrightarrow> axis_holds pairs tabs' d B)"
proof -
  obtain f f' r r' where w: "multi_open db (axis_forward dim tabs) = Ok f"
    "try_fold (\<lambda>n. insert_pairs db st (forward_pairs db dim n)) (entry_notes ents) f = Ok f'"
    "multi_open db (axis_reverse dim tabs) = Ok r"
    "try_fold (\<lambda>n. insert_pairs db st (reverse_pairs db dim n)) (entry_notes ents) r = Ok r'"
    "tabs' = set_axis_reverse dim r' (set_axis_forward dim f' tabs)"
    using run by (auto simp: write_index_by_value_def write_index_by_path_def and_then_eq_Ok)
  have "pairs f = {}" "pairs r = {}"
    using backend_pairs(1) [OF ok w(1)] backend_pairs(1) [OF ok w(3)] holds by (auto simp: axis_holds_def)
  then have "pairs f' = (axis_image db dim (entry_notes ents))\<inverse>" "pairs r' = axis_image db dim (entry_notes ents)"
    using fold_insert_pairs_view [OF ok w(2)] fold_insert_pairs_view [OF ok w(4)]
    by (auto simp: axis_image_def forward_pairs_def reverse_pairs_def)
  moreover have "same_axis dim dim" by (cases dim) simp_all
  ultimately show ?thesis by (simp add: w(5) axis_holds_def same_rows_links_def)
qed

definition entry_edges :: "file_entry list \<Rightarrow> (path \<times> path) set" where
  "entry_edges ents = {(file_path (entry_file e), s) | e s. e \<in> set ents \<and> s \<in> set (entry_inlinks e)}"

definition plain_entries :: "file_entry list \<Rightarrow> bool" where
  "plain_entries ents \<longleftrightarrow> plain_rows file_path (map entry_file ents) \<and> plain_rows note_path (entry_notes ents)"

lemma find_image: "(case List.find P xs of Some x \<Rightarrow> enc x | None \<Rightarrow> None) = Option.bind (List.find P xs) enc"
  by (cases "List.find P xs") simp_all

lemma apply_rebuild_in_sync:
  assumes ok: "backend_ok db rows pairs" and plain: "plain_entries ents"
    and run: "apply_rebuild db st ents (for_class_field cls) = Ok tabs"
  shows "in_sync db rows pairs cls tabs (map entry_file ents) (entry_notes ents) (entry_edges ents)"
proof -
  obtain t0 t1 fs ns ls t3 where r: "delete_tables db st (store_tables st) = Ok t0"
    "write_rows db st (enc_file db) file_path (map entry_file ents) (files_table t0) = Ok fs"
    "write_rows db st (enc_note db) note_path (entry_notes ents) (notes_table t0) = Ok ns"
    "multi_open db (links_table t0) = Ok ls"
    "try_fold (\<lambda>e. insert_pairs db st (link_pairs e)) ents ls = Ok t1"
    "t3 = t0 \<lparr> files_table := Some fs, notes_table := Some ns, links_table := Some t1 \<rparr>"
    "write_axes db st ents (for_class_field cls) t3 = Ok tabs"
    using run by (auto simp: apply_rebuild_def begin_cache_txn_def write_all_def write_links_def and_then_eq_Ok)
  note t0 = delete_tables_view [OF r(1)]
  have keys: "distinct (map (\<lambda>f. path_key (file_path f)) (map entry_file ents))"
    "distinct (map (\<lambda>n. path_key (note_path n)) (entry_notes ents))"
    using plain plain_rows_keys unfolding plain_entries_def by blast+
  have none: "opt_rows rows (files_table t0) k = None" "opt_rows rows (notes_table t0) k = None" for k
    by (simp_all add: t0)
  note F = write_rows_view [OF ok r(2) keys(1), unfolded none find_image]
    and N = write_rows_view [OF ok r(3) keys(2), unfolded none find_image]
  have "\<forall>dim\<in>set (for_class_field cls). axis_holds pairs t3 dim {}"
    by (auto simp: for_class_field_def axis_holds_def r(6) t0)
  then have axes: "(\<forall>dim\<in>set (for_class_field cls). axis_holds pairs tabs dim (axis_image db dim (entry_notes ents)))
      \<and> same_rows_links t3 tabs"
    by (rule both_axes [OF r(7) [unfolded write_axes_def]]) (rule write_axis_view [OF ok]; assumption)
  have "pairs t1 = \<Union> ((\<lambda>e. set (link_pairs e)) ` set ents)"
    using fold_insert_pairs_view [OF ok r(5)] backend_pairs(1) [OF ok r(4)] t0 by simp
  also have "\<dots> = link_image (entry_edges ents)"
    by (force simp: link_pairs_def link_image_def entry_edges_def image_iff)
  finally have "pairs t1 = link_image (entry_edges ents)" .
  then show ?thesis
    using axes F N
    by (simp add: in_sync_def rows_in_sync_def row_image_def axes_in_sync_holds same_rows_links_def r(6))
qed

section \<open>The incremental write\<close>

lemma delete_files_and_notes_view:
  assumes ok: "backend_ok db rows pairs" and run: "delete_files_and_notes db st gone tabs = Ok tabs'"
  shows "opt_rows rows (files_table tabs') k
      = (if k \<in> (\<lambda>f. path_key (file_path f)) ` set gone then None else opt_rows rows (files_table tabs) k)"
    and "opt_rows rows (notes_table tabs') k
      = (if k \<in> (\<lambda>f. path_key (file_path f)) ` set gone then None else opt_rows rows (notes_table tabs) k)"
    and "links_table tabs' = links_table tabs" "same_axes tabs tabs'"
proof -
  let ?K = "\<lambda>f. path_key (file_path f)"
  let ?step = "\<lambda>f (fs, ns). let key = ?K f in and_then (redb_try st (row_remove db fs key)) (\<lambda>fs.
      and_then (redb_try st (row_remove db ns key)) (\<lambda>ns. Ok (fs, ns)))"
  obtain fs ns fs' ns' where r: "row_open db (files_table tabs) = Ok fs" "row_open db (notes_table tabs) = Ok ns"
    "try_fold ?step gone (fs, ns) = Ok (fs', ns')" "tabs' = tabs \<lparr> files_table := Some fs', notes_table := Some ns' \<rparr>"
    using run by (auto simp: delete_files_and_notes_def and_then_eq_Ok)
  have one: "rows a' = (rows a)(?K f := None) \<and> rows b' = (rows b)(?K f := None)"
    if "?step f (a, b) = Ok (a', b')" for f a b a' b'
    using that backend_rows(3) [OF ok] by (auto simp: and_then_eq_Ok Let_def)
  have gone: "rows fs' = (\<lambda>k. if k \<in> ?K ` set gone then None else rows fs k)
      \<and> rows ns' = (\<lambda>k. if k \<in> ?K ` set gone then None else rows ns k)"
    using r(3)
  proof (induction gone arbitrary: fs ns)
    case (Cons f gone)
    then obtain a b where ab: "?step f (fs, ns) = Ok (a, b)" "try_fold ?step gone (a, b) = Ok (fs', ns')"
      by (auto simp: and_then_eq_Ok Let_def)
    from Cons.IH [OF ab(2)] one [OF ab(1)] show ?case by (auto simp: fun_eq_iff)
  qed simp
  show "opt_rows rows (files_table tabs') k = (if k \<in> ?K ` set gone then None else opt_rows rows (files_table tabs) k)"
    "opt_rows rows (notes_table tabs') k = (if k \<in> ?K ` set gone then None else opt_rows rows (notes_table tabs) k)"
    using gone backend_rows(1) [OF ok r(1)] backend_rows(1) [OF ok r(2)] by (simp_all add: r(4))
  show "links_table tabs' = links_table tabs" "same_axes tabs tabs'" by (simp_all add: r(4))
qed

lemma same_axes_holds: "same_axes a b \<Longrightarrow> axis_holds pairs b dim A = axis_holds pairs a dim A"
  by (simp add: same_axes_def axis_holds_def)

text \<open>A key is that of at most one path of the index.\<close>

definition key_path :: "string \<Rightarrow> path option" where
  "key_path k = (if plain_path (components k) \<and> path_key (components k) = k then Some (components k) else None)"

lemma key_path_eq: "key_path k = Some p \<longleftrightarrow> plain_path p \<and> path_key p = k"
  by (auto simp: key_path_def components_key)

lemma key_path_key [simp]: "plain_path p \<Longrightarrow> key_path (path_key p) = Some p"
  by (simp add: key_path_eq)

lemma find_by_key:
  assumes "\<forall>x\<in>set items. plain_path (key x)"
  shows "List.find (\<lambda>x. path_key (key x) = k) items = Option.bind (key_path k) (row_of key items)"
proof (cases "key_path k")
  case None
  then have "\<forall>x\<in>set items. path_key (key x) \<noteq> k" using assms key_path_key by force
  then show ?thesis using None by (simp add: find_None_iff)
next
  case (Some p)
  then have "plain_path p" "k = path_key p" by (auto simp: key_path_eq)
  then show ?thesis using find_key_row [OF assms] Some by simp
qed

lemma key_in_image:
  "(\<forall>x\<in>set items. plain_path (key x)) \<Longrightarrow> k \<in> (\<lambda>x. path_key (key x)) ` set items
    \<longleftrightarrow> (\<exists>p. key_path k = Some p \<and> p \<in> key ` set items)"
  by (auto simp: key_path_eq)

lemma row_image_by_key:
  "\<forall>x\<in>set items. plain_path (key x)
    \<Longrightarrow> row_image key enc items k = Option.bind (Option.bind (key_path k) (row_of key items)) enc"
  by (simp add: row_image_def find_by_key)

text \<open>The rows after dropping the deleted paths and writing the new ones.\<close>

definition replaced :: "('a \<Rightarrow> path) \<Rightarrow> 'a list \<Rightarrow> path set \<Rightarrow> 'a list \<Rightarrow> 'a list \<Rightarrow> bool" where
  "replaced key new gone items old \<longleftrightarrow> (\<forall>p. row_of key new p = (case row_of key items p of
     Some x \<Rightarrow> Some x | None \<Rightarrow> if p \<in> gone then None else row_of key old p))"

lemma replaced_rows:
  assumes "replaced key new gone items old" "plain_rows key new" "plain_rows key items" "plain_rows key old"
    and old: "Mold k = row_image key enc old k"
    and gone: "Mgone k = (if \<exists>p. key_path k = Some p \<and> p \<in> gone then None else Mold k)"
    and wrote: "Mnew k = (case List.find (\<lambda>x. path_key (key x) = k) items of Some x \<Rightarrow> enc x | None \<Rightarrow> Mgone k)"
  shows "Mnew k = row_image key enc new k"
proof -
  have plain: "\<forall>x\<in>set new. plain_path (key x)" "\<forall>x\<in>set items. plain_path (key x)" "\<forall>x\<in>set old. plain_path (key x)"
    using assms(2-4) by (simp_all add: plain_rows_def)
  show ?thesis
  proof (cases "key_path k")
    case None
    then show ?thesis using old gone wrote by (simp add: row_image_by_key [OF plain(1)] row_image_by_key [OF plain(3)]
        find_by_key [OF plain(2)])
  next
    case (Some p)
    have "row_of key new p = (case row_of key items p of
        Some x \<Rightarrow> Some x | None \<Rightarrow> if p \<in> gone then None else row_of key old p)"
      using assms(1) by (simp add: replaced_def)
    then show ?thesis using old gone wrote Some
      by (simp add: row_image_by_key [OF plain(1)] row_image_by_key [OF plain(3)]
        find_by_key [OF plain(2)] split: option.split)
  qed
qed

lemma replaced_enc:
  assumes "replaced key new gone items old" "ascending key new"
    "\<forall>x\<in>set items. enc x \<noteq> None" "\<forall>x\<in>set old. enc x \<noteq> None"
  shows "\<forall>x\<in>set new. enc x \<noteq> None"
proof
  fix x assume "x \<in> set new"
  then have "row_of key new (key x) = Some x" by (rule row_of_in [OF assms(2)])
  then have "x \<in> set items \<or> x \<in> set old"
    using assms(1) by (auto simp: replaced_def split: option.splits if_splits dest: row_of_SomeD)
  then show "enc x \<noteq> None" using assms(3,4) by blast
qed

text \<open>The values of a dimension after the same replacement.\<close>

lemma axis_image_mem:
  assumes "plain_rows note_path ns"
  shows "(k, v) \<in> axis_image db dim ns
    \<longleftrightarrow> (\<exists>p n. key_path k = Some p \<and> row_of note_path ns p = Some n \<and> v \<in> set (axis_values db dim n))"
proof -
  have "n \<in> set ns \<and> path_key (note_path n) = k \<longleftrightarrow> key_path k = Some (note_path n) \<and> row_of note_path ns (note_path n) = Some n"
    for n using assms row_of_in [of note_path ns n] by (auto simp: plain_rows_def key_path_eq dest: row_of_SomeD)
  then show ?thesis unfolding axis_image_def by (auto dest: row_of_SomeD) (metis row_of_SomeD)+
qed

lemma replaced_axis:
  assumes "replaced note_path new gone ns old" "plain_rows note_path new" "plain_rows note_path ns"
    "plain_rows note_path old" "\<forall>p\<in>gone. plain_path p"
  shows "{e \<in> {e \<in> axis_image db dim old. fst e \<notin> path_key ` gone}. fst e \<notin> (\<lambda>n. path_key (note_path n)) ` set ns}
      \<union> {(path_key (note_path n), v) | n v. n \<in> set ns \<and> v \<in> set (axis_values db dim n)}
    = axis_image db dim new"
proof (rule set_eqI, unfold split_paired_all)
  fix k v
  have plain: "\<forall>x\<in>set ns. plain_path (note_path x)" using assms(3) by (simp add: plain_rows_def)
  have gone: "k \<in> path_key ` gone \<longleftrightarrow> (\<exists>p. key_path k = Some p \<and> p \<in> gone)"
    using assms(5) by (auto simp: key_path_eq)
  have row: "row_of note_path new p = (case row_of note_path ns p of
      Some x \<Rightarrow> Some x | None \<Rightarrow> if p \<in> gone then None else row_of note_path old p)" for p
    using assms(1) by (simp add: replaced_def)
  have mem: "p \<in> note_path ` set ns \<longleftrightarrow> row_of note_path ns p \<noteq> None" for p
    by (auto simp: row_of_None)
  show "(k, v) \<in> {e \<in> {e \<in> axis_image db dim old. fst e \<notin> path_key ` gone}. fst e \<notin> (\<lambda>n. path_key (note_path n)) ` set ns}
      \<union> {(path_key (note_path n), v) | n v. n \<in> set ns \<and> v \<in> set (axis_values db dim n)}
    \<longleftrightarrow> (k, v) \<in> axis_image db dim new"
    unfolding axis_image_def [of db dim ns, symmetric] Un_iff mem_Collect_eq fst_conv gone
      key_in_image [OF plain] axis_image_mem [OF assms(2)] axis_image_mem [OF assms(3)] axis_image_mem [OF assms(4)] mem row
    by (cases "key_path k") (auto split: option.splits)
qed

lemma apply_inlink_delta_view:
  assumes ok: "backend_ok db rows pairs" and run: "apply_inlink_delta db st edges tabs = Ok tabs'"
  shows "opt_pairs pairs (links_table tabs') = opt_pairs pairs (links_table tabs)
        - link_image (set (links_deleted edges)) \<union> link_image (set (links_upserted edges))"
    and "files_table tabs' = files_table tabs" "notes_table tabs' = notes_table tabs" "same_axes tabs tabs'"
proof -
  have "opt_pairs pairs (links_table tabs') = opt_pairs pairs (links_table tabs)
        - link_image (set (links_deleted edges)) \<union> link_image (set (links_upserted edges))
    \<and> files_table tabs' = files_table tabs \<and> notes_table tabs' = notes_table tabs \<and> same_axes tabs tabs'"
  proof (cases "links_upserted edges = [] \<and> links_deleted edges = []")
    case True
    with run show ?thesis by (simp add: apply_inlink_delta_def link_image_def)
  next
    case False
    let ?rem = "\<lambda>(t, s) m. redb_try st (multi_remove db m (path_key t) (path_key s))"
    let ?ins = "\<lambda>(t, s) m. redb_try st (multi_insert db m (path_key t) (path_key s))"
    obtain m0 m1 m2 where r: "multi_open db (links_table tabs) = Ok m0" "try_fold ?rem (links_deleted edges) m0 = Ok m1"
      "try_fold ?ins (links_upserted edges) m1 = Ok m2" "tabs' = tabs \<lparr> links_table := Some m2 \<rparr>"
      using run False by (auto simp: apply_inlink_delta_def and_then_eq_Ok)
    have "pairs m1 = fold (\<lambda>e A. A - {map_prod path_key path_key e}) (links_deleted edges) (pairs m0)"
    proof (rule try_fold_view [OF _ r(2)])
      fix e s s' assume "?rem e s = Ok s'"
      then have "multi_remove db s (path_key (fst e)) (path_key (snd e)) = Ok s'" by (cases e) simp
      from backend_pairs(3) [OF ok this] show "pairs s' = pairs s - {map_prod path_key path_key e}" by (cases e) simp
    qed
    moreover have "fold (\<lambda>e A. A - {f e}) es A = A - f ` set es" for f es A
      by (induction es arbitrary: A) auto
    ultimately have m1: "pairs m1 = pairs m0 - link_image (set (links_deleted edges))" by (simp add: link_image_def)
    have "pairs m2 = fold (\<lambda>e A. insert (map_prod path_key path_key e) A) (links_upserted edges) (pairs m1)"
    proof (rule try_fold_view [OF _ r(3)])
      fix e s s' assume "?ins e s = Ok s'"
      then have "multi_insert db s (path_key (fst e)) (path_key (snd e)) = Ok s'" by (cases e) simp
      from backend_pairs(2) [OF ok this] show "pairs s' = insert (map_prod path_key path_key e) (pairs s)" by (cases e) simp
    qed
    moreover have "fold (\<lambda>e A. insert (f e) A) es A = A \<union> f ` set es" for f es A
      by (induction es arbitrary: A) auto
    ultimately have "pairs m2 = pairs m1 \<union> link_image (set (links_upserted edges))" by (simp add: link_image_def)
    with m1 backend_pairs(1) [OF ok r(1)] show ?thesis by (simp add: r(4))
  qed
  then show "opt_pairs pairs (links_table tabs') = opt_pairs pairs (links_table tabs)
        - link_image (set (links_deleted edges)) \<union> link_image (set (links_upserted edges))"
    "files_table tabs' = files_table tabs" "notes_table tabs' = notes_table tabs" "same_axes tabs tabs'" by simp_all
qed

definition plain_edges :: "(path \<times> path) set \<Rightarrow> bool" where
  "plain_edges edges \<longleftrightarrow> (\<forall>(t, s)\<in>edges. plain_path t \<and> plain_path s)"

lemma link_image_minus:
  assumes "plain_edges A" "plain_edges B"
  shows "link_image (A - B) = link_image A - link_image B"
proof -
  have "inj_on (map_prod path_key path_key) (A \<union> B)"
    using assms by (intro inj_on_inverseI [where g = "map_prod components components"])
      (auto simp: plain_edges_def components_key)
  then show ?thesis unfolding link_image_def by (rule inj_on_image_set_diff) auto
qed

text \<open>Deletions, in the row tables and in the dimensions.\<close>

lemma apply_diff_deletions_view:
  assumes ok: "backend_ok db rows pairs" and plain: "\<forall>f\<in>set gone. plain_path (file_path f)"
    and holds: "\<forall>dim\<in>set (for_class_field cls). axis_holds pairs tabs dim (A dim)"
    and run: "apply_diff_deletions db st gone (for_class_field cls) tabs = Ok tabs'"
  shows "(\<forall>k. opt_rows rows (files_table tabs') k = (if \<exists>p. key_path k = Some p \<and> p \<in> file_path ` set gone
        then None else opt_rows rows (files_table tabs) k))
    \<and> (\<forall>k. opt_rows rows (notes_table tabs') k = (if \<exists>p. key_path k = Some p \<and> p \<in> file_path ` set gone
        then None else opt_rows rows (notes_table tabs) k))
    \<and> links_table tabs' = links_table tabs
    \<and> (\<forall>dim\<in>set (for_class_field cls).
        axis_holds pairs tabs' dim {e \<in> A dim. fst e \<notin> path_key ` (file_path ` set gone)})"
proof (cases "gone = []")
  case True
  then show ?thesis using run holds by (simp add: apply_diff_deletions_def)
next
  case False
  let ?B = "\<lambda>A. {e \<in> A. fst e \<notin> (\<lambda>f. path_key (file_path f)) ` set gone}"
  obtain t where r: "delete_files_and_notes db st gone tabs = Ok t"
    "try_fold (delete_index_entries_for_paths db st gone) (for_class_field cls) t = Ok tabs'"
    using run False by (auto simp: apply_diff_deletions_def and_then_eq_Ok)
  note D = delete_files_and_notes_view [OF ok r(1)]
  have "\<forall>dim\<in>set (for_class_field cls). axis_holds pairs t dim (A dim)"
    using holds by (simp add: same_axes_holds [OF D(4)])
  then have "(\<forall>dim\<in>set (for_class_field cls). axis_holds pairs tabs' dim (?B (A dim))) \<and> same_rows_links t tabs'"
  proof (rule both_axes [OF r(2), where A = A and B = "\<lambda>dim. ?B (A dim)"])
    fix dim a b
    assume step: "delete_index_entries_for_paths db st gone dim a = Ok b" "axis_holds pairs a dim (A dim)"
    show "axis_holds pairs b dim (?B (A dim)) \<and> same_rows_links a b
      \<and> (\<forall>d C. \<not> same_axis d dim \<longrightarrow> axis_holds pairs a d C \<longrightarrow> axis_holds pairs b d C)"
      by (rule axis_step [OF ok step(2) step(1) [unfolded delete_index_entries_for_paths_def], where g = ?B])
        (rule remove_entries_view [OF ok])
  qed
  then show ?thesis
    using D(1-3) by (simp add: same_rows_links_def key_in_image [OF plain] image_image)
qed

lemma apply_modified_notes_view:
  assumes ok: "backend_ok db rows pairs" and plain: "plain_rows note_path ns"
    and holds: "\<forall>dim\<in>set (for_class_field cls). axis_holds pairs tabs dim (A dim)"
    and run: "apply_modified_notes db st ns (for_class_field cls) tabs = Ok tabs'"
  shows "opt_rows rows (notes_table tabs') k = (case List.find (\<lambda>n. path_key (note_path n) = k) ns of
        Some n \<Rightarrow> enc_note db n | None \<Rightarrow> opt_rows rows (notes_table tabs) k)"
    and "\<forall>n\<in>set ns. enc_note db n \<noteq> None"
    and "files_table tabs' = files_table tabs" "links_table tabs' = links_table tabs"
    and "\<forall>dim\<in>set (for_class_field cls). axis_holds pairs tabs' dim
      ({e \<in> A dim. fst e \<notin> (\<lambda>n. path_key (note_path n)) ` set ns}
        \<union> {(path_key (note_path n), v) | n v. n \<in> set ns \<and> v \<in> set (axis_values db dim n)})"
proof -
  let ?B = "\<lambda>dim A. {e \<in> A. fst e \<notin> (\<lambda>n. path_key (note_path n)) ` set ns}
        \<union> {(path_key (note_path n), v) | n v. n \<in> set ns \<and> v \<in> set (axis_values db dim n)}"
  have "opt_rows rows (notes_table tabs') k = (case List.find (\<lambda>n. path_key (note_path n) = k) ns of
        Some n \<Rightarrow> enc_note db n | None \<Rightarrow> opt_rows rows (notes_table tabs) k)
    \<and> (\<forall>n\<in>set ns. enc_note db n \<noteq> None) \<and> files_table tabs' = files_table tabs
    \<and> links_table tabs' = links_table tabs
    \<and> (\<forall>dim\<in>set (for_class_field cls). axis_holds pairs tabs' dim (?B dim (A dim)))"
  proof (cases "ns = []")
    case True
    with run holds show ?thesis by (simp add: apply_modified_notes_def)
  next
    case False
    note keys = plain_rows_keys [OF plain]
    obtain t where r: "write_rows db st (enc_note db) note_path ns (notes_table tabs) = Ok t"
      "try_fold (upsert_index_axis db st ns) (for_class_field cls) (tabs \<lparr> notes_table := Some t \<rparr>) = Ok tabs'"
      using run False by (auto simp: apply_modified_notes_def and_then_eq_Ok)
    note W = write_rows_view [OF ok r(1) keys]
    have "\<forall>dim\<in>set (for_class_field cls). axis_holds pairs (tabs \<lparr> notes_table := Some t \<rparr>) dim (A dim)"
      using holds by (simp add: same_axes_holds [OF same_axes_row_update(3)])
    then have axes: "(\<forall>dim\<in>set (for_class_field cls). axis_holds pairs tabs' dim (?B dim (A dim)))
        \<and> same_rows_links (tabs \<lparr> notes_table := Some t \<rparr>) tabs'"
    proof (rule both_axes [OF r(2), where A = A and B = "\<lambda>dim. ?B dim (A dim)"])
      fix dim a b
      assume step: "upsert_index_axis db st ns dim a = Ok b" "axis_holds pairs a dim (A dim)"
      show "axis_holds pairs b dim (?B dim (A dim)) \<and> same_rows_links a b
        \<and> (\<forall>d C. \<not> same_axis d dim \<longrightarrow> axis_holds pairs a d C \<longrightarrow> axis_holds pairs b d C)"
        by (rule axis_step [OF ok step(2) step(1) [unfolded upsert_index_axis_def], where g = "?B dim"])
          (rule upsert_notes_view [OF ok _ _ keys])
    qed
    then show ?thesis using W by (simp add: same_rows_links_def)
  qed
  then show "opt_rows rows (notes_table tabs') k = (case List.find (\<lambda>n. path_key (note_path n) = k) ns of
        Some n \<Rightarrow> enc_note db n | None \<Rightarrow> opt_rows rows (notes_table tabs) k)"
    "\<forall>n\<in>set ns. enc_note db n \<noteq> None" "files_table tabs' = files_table tabs" "links_table tabs' = links_table tabs"
    "\<forall>dim\<in>set (for_class_field cls). axis_holds pairs tabs' dim (?B dim (A dim))" by simp_all
qed

text \<open>The plain paths of a change from one index to the next.\<close>

definition plain_change ::
  "file_meta list \<Rightarrow> md_note list \<Rightarrow> file_delta \<Rightarrow> md_note list \<Rightarrow> file_meta list \<Rightarrow> md_note list \<Rightarrow> bool"
where
  "plain_change files ns delta changed files' ns' \<longleftrightarrow>
     plain_rows file_path files \<and> plain_rows note_path ns \<and> plain_rows file_path (upserted delta)
   \<and> plain_rows note_path changed \<and> plain_rows file_path files' \<and> plain_rows note_path ns'
   \<and> (\<forall>f\<in>set (deleted delta). plain_path (file_path f))"

definition change_of ::
  "file_meta list \<Rightarrow> md_note list \<Rightarrow> file_delta \<Rightarrow> md_note list \<Rightarrow> file_meta list \<Rightarrow> md_note list \<Rightarrow> bool"
where
  "change_of files ns delta changed files' ns' \<longleftrightarrow>
     replaced file_path files' (file_path ` set (deleted delta)) (upserted delta) files
   \<and> replaced note_path ns' (file_path ` set (deleted delta)) changed ns"

lemma apply_incremental_in_sync:
  assumes ok: "backend_ok db rows pairs"
    and sync: "in_sync db rows pairs cls (store_tables st) files ns edges"
    and plain: "plain_change files ns delta changed files' ns'"
    and change: "change_of files ns delta changed files' ns'"
    and links: "plain_edges edges" "plain_edges (set (links_deleted ld))"
    and run: "apply_incremental db st (for_class_field cls) delta changed ld = Ok tabs"
  shows "in_sync db rows pairs cls tabs files' ns'
    (edges - set (links_deleted ld) \<union> set (links_upserted ld))"
proof -
  let ?gone = "file_path ` set (deleted delta)"
  obtain t1 t2 t3 where r: "apply_diff_deletions db st (deleted delta) (for_class_field cls) (store_tables st) = Ok t1"
    "apply_diff_upserts db st (upserted delta) t1 = Ok t2"
    "apply_modified_notes db st changed (for_class_field cls) t2 = Ok t3"
    "apply_inlink_delta db st ld t3 = Ok tabs"
    using run by (auto simp: apply_incremental_def begin_cache_txn_def and_then_eq_Ok)
  have P: "plain_rows file_path files" "plain_rows note_path ns" "plain_rows file_path (upserted delta)"
    "plain_rows note_path changed" "plain_rows file_path files'" "plain_rows note_path ns'"
    "\<forall>f\<in>set (deleted delta). plain_path (file_path f)"
    using plain by (simp_all add: plain_change_def)
  have S: "rows_in_sync db rows (store_tables st) files ns"
    "opt_pairs pairs (links_table (store_tables st)) = link_image edges"
    "\<forall>dim\<in>set (for_class_field cls). axis_holds pairs (store_tables st) dim (axis_image db dim ns)"
    using sync by (simp_all add: in_sync_def axes_in_sync_holds)
  have D: "opt_rows rows (files_table t1) k = (if \<exists>p. key_path k = Some p \<and> p \<in> ?gone
        then None else opt_rows rows (files_table (store_tables st)) k)"
    "opt_rows rows (notes_table t1) k = (if \<exists>p. key_path k = Some p \<and> p \<in> ?gone
        then None else opt_rows rows (notes_table (store_tables st)) k)"
    "links_table t1 = links_table (store_tables st)"
    "\<forall>dim\<in>set (for_class_field cls).
        axis_holds pairs t1 dim {e \<in> axis_image db dim ns. fst e \<notin> path_key ` ?gone}" for k
    using apply_diff_deletions_view [OF ok P(7) S(3) r(1)] by simp_all
  obtain fs where fs: "write_rows db st (enc_file db) file_path (upserted delta) (files_table t1) = Ok fs"
    "t2 = t1 \<lparr> files_table := Some fs \<rparr>"
    using r(2) by (auto simp: apply_diff_upserts_def and_then_eq_Ok)
  note U = write_rows_view [OF ok fs(1) plain_rows_keys [OF P(3)]]
  have "\<forall>dim\<in>set (for_class_field cls). axis_holds pairs t2 dim {e \<in> axis_image db dim ns. fst e \<notin> path_key ` ?gone}"
    using D(4) by (simp add: fs(2) same_axes_holds [OF same_axes_row_update(2)])
  note N = apply_modified_notes_view [OF ok P(4) this r(3)]
  note L = apply_inlink_delta_view [OF ok r(4)]
  have C: "replaced file_path files' ?gone (upserted delta) files" "replaced note_path ns' ?gone changed ns"
    using change by (simp_all add: change_of_def)
  have R: "opt_rows rows (files_table (store_tables st)) k = row_image file_path (enc_file db) files k"
    "opt_rows rows (notes_table (store_tables st)) k = row_image note_path (enc_note db) ns k" for k
    using S(1) by (simp_all add: rows_in_sync_def)
  have "opt_rows rows (files_table tabs) k = row_image file_path (enc_file db) files' k" for k
  proof -
    have "rows fs k = row_image file_path (enc_file db) files' k"
      by (rule replaced_rows [OF C(1) P(5) P(3) P(1) R(1) D(1) U(1)])
    then show ?thesis by (simp add: L(2) N(3) fs(2))
  qed
  moreover have "opt_rows rows (notes_table tabs) k = row_image note_path (enc_note db) ns' k" for k
  proof -
    have "opt_rows rows (notes_table t2) k = opt_rows rows (notes_table t1) k" for k by (simp add: fs(2))
    note N1 = N(1) [unfolded this]
    have "opt_rows rows (notes_table t3) k = row_image note_path (enc_note db) ns' k"
      by (rule replaced_rows [OF C(2) P(6) P(4) P(2) R(2) D(2) N1])
    then show ?thesis by (simp add: L(3))
  qed
  moreover have "(\<forall>f\<in>set files'. enc_file db f \<noteq> None) \<and> (\<forall>n\<in>set ns'. enc_note db n \<noteq> None)"
    using replaced_enc [of file_path files' ?gone "upserted delta" files "enc_file db"]
      replaced_enc [of note_path ns' ?gone changed ns "enc_note db"] change P(5,6) U(2) N(2) S(1)
    by (simp add: change_of_def plain_rows_def rows_in_sync_def)
  ultimately have "rows_in_sync db rows tabs files' ns'" by (simp add: rows_in_sync_def)
  moreover have "opt_pairs pairs (links_table tabs)
      = link_image (edges - set (links_deleted ld) \<union> set (links_upserted ld))"
    unfolding L(1) using N(4) D(3) S(2) fs(2) link_image_minus [OF links] by (simp add: link_image_def image_Un)
  moreover have "axes_in_sync db pairs (for_class_field cls) tabs ns'"
    unfolding axes_in_sync_holds
  proof
    fix dim assume "dim \<in> set (for_class_field cls)"
    with N(5) have "axis_holds pairs t3 dim
      ({e \<in> {e \<in> axis_image db dim ns. fst e \<notin> path_key ` ?gone}. fst e \<notin> (\<lambda>n. path_key (note_path n)) ` set changed}
        \<union> {(path_key (note_path n), v) | n v. n \<in> set changed \<and> v \<in> set (axis_values db dim n)})" by (rule bspec)
    moreover have "replaced note_path ns' ?gone changed ns" using change by (simp add: change_of_def)
    note replaced_axis [OF this P(6) P(4) P(2), of db dim]
    ultimately show "axis_holds pairs tabs dim (axis_image db dim ns')"
      using same_axes_holds [OF L(4)] P(7) by simp
  qed
  ultimately show ?thesis by (simp add: in_sync_def)
qed

end
