(* ===== verification/Store_Reads.thy ===== *)
theory Store_Reads
  imports Store_Contents Resolution
begin

text \<open>
  Reading the store back.  Files and notes come back in path order; the sources of a link target
  come back in the byte order of their keys, which is not the path order, so the inbound link
  maps that a refresh patches and compares are only \<open>listed\<close>: every source once, in some
  order.  The second half shows what the patch and the delta still give for such maps.
\<close>

section \<open>Row tables\<close>

lemma ascending_eqI:
  assumes "ascending key xs" "ascending key ys" "set xs = set ys"
  shows "xs = ys"
proof (rule ascending_ext [OF assms(1,2)])
  fix p
  show "row_of key xs p = row_of key ys p"
    using row_of_eq_Some [OF assms(1), of p] row_of_eq_Some [OF assms(2), of p] assms(3)
    by (cases "row_of key xs p"; cases "row_of key ys p") auto
qed

lemma sorted_by_path_ascending:
  assumes "distinct (map key xs)"
  shows "ascending key (sorted_by_path key xs)"
proof -
  have "sorted_by (\<lambda>a b. compare (key a) (key b)) (sorted_by_path key xs)"
    unfolding sorted_by_path_def
    by (rule total_cmp.sorted_sort_by [OF total_cmp_key [OF linorder_cmp.total_cmp_axioms]])
  then have "sorted (map key (sorted_by_path key xs))"
    by (simp add: sorted_map cmp_simps not_less)
  moreover have "distinct (map key (sorted_by_path key xs))"
    using assms by (simp add: distinct_map sorted_by_path_def)
  ultimately show ?thesis by (simp add: ascending_def strict_sorted_iff flip: sorted_wrt_map)
qed

lemma read_table_rows:
  assumes ok: "backend_ok db rows pairs"
    and stored: "\<And>k. opt_rows rows t k = row_image key enc items k"
    and enc: "\<forall>x\<in>set items. enc x \<noteq> None" and plain: "plain_rows key items"
    and codec: "\<And>x bytes. enc x = Some bytes \<Longrightarrow> dec bytes = Some x"
    and run: "read_table db st dec key t = Ok xs"
  shows "xs = items"
proof -
  have keyed: "opt_rows rows t (path_key (key x)) = enc x" if "x \<in> set items" for x
  proof -
    have "plain_path (key x)" "row_of key items (key x) = Some x"
      using plain row_of_in that by (auto simp: plain_rows_def)
    then show ?thesis unfolding stored using row_image_at [OF plain] by simp
  qed
  show ?thesis
  proof (cases t)
    case None
    then have "items = []" using keyed enc by (cases items) auto
    then show ?thesis using run None by (simp add: read_table_def)
  next
    case (Some t0)
    then obtain t1 es ys where r: "row_open db t = Ok t1" "row_iter db t1 = Ok es"
      "list_all2 (\<lambda>(k, v) y. decode_row dec (path_from_bytes k) v = Ok y) es ys" "xs = sorted_by_path key ys"
      using run by (auto simp: read_table_def and_then_eq_Ok try_map_Ok case_prod_unfold)
    have es: "distinct (map fst es)" "map_of es = opt_rows rows t"
      using backend_rows(5) [OF ok r(2)] backend_rows(1) [OF ok r(1)] by simp_all
    have pair: "y \<in> set items \<and> path_key (key y) = k" if "(k, v) \<in> set es" "decode_row dec (path_from_bytes k) v = Ok y" for k v y
    proof -
      have "row_image key enc items k = Some v" using es that(1) stored by (metis map_of_is_SomeI)
      then obtain x where x: "List.find (\<lambda>x. path_key (key x) = k) items = Some x" "enc x = Some v"
        by (auto simp: row_image_def bind_eq_Some_conv)
      then have "x \<in> set items" "path_key (key x) = k" by (auto simp: find_Some_iff)
      moreover have "y = x" using codec [OF x(2)] that(2) by (simp add: decode_row_def)
      ultimately show ?thesis by simp
    qed
    have zip: "(es ! i, ys ! i) \<in> set (zip es ys)" if "i < length ys" for i
      using that list_all2_lengthD [OF r(3)] by (auto simp: set_zip)
    have each: "y \<in> set items \<and> path_key (key y) = fst e" if "(e, y) \<in> set (zip es ys)" for e y
      using r(3) that pair [of "fst e" "snd e" y] set_zip_leftD [OF that]
      by (auto simp: list_all2_iff case_prod_unfold)
    have "map (\<lambda>y. path_key (key y)) ys = map fst es"
    proof (rule nth_equalityI)
      show "length (map (\<lambda>y. path_key (key y)) ys) = length (map fst es)" using list_all2_lengthD [OF r(3)] by simp
      fix i assume "i < length (map (\<lambda>y. path_key (key y)) ys)"
      then show "map (\<lambda>y. path_key (key y)) ys ! i = map fst es ! i"
        using each [OF zip, of i] list_all2_lengthD [OF r(3)] by simp
    qed
    then have "distinct (map (\<lambda>y. path_key (key y)) ys)" using es(1) by simp
    then have dist: "distinct (map key ys)" by (auto simp: distinct_map inj_on_def)
    have "set ys = set items"
    proof
      show "set ys \<subseteq> set items"
      proof
        fix y assume "y \<in> set ys"
        then obtain i where "i < length ys" "ys ! i = y" by (auto simp: in_set_conv_nth)
        with each [OF zip, of i] show "y \<in> set items" by simp
      qed
      show "set items \<subseteq> set ys"
      proof
        fix x assume x: "x \<in> set items"
        then obtain v where v: "enc x = Some v" using enc by blast
        then have "map_of es (path_key (key x)) = Some v" using keyed [OF x] es(2) by simp
        then have "(path_key (key x), v) \<in> set es" by (rule map_of_SomeD)
        then obtain i where "i < length es" "es ! i = (path_key (key x), v)" by (auto simp: in_set_conv_nth)
        then have y: "((path_key (key x), v), ys ! i) \<in> set (zip es ys)"
          using zip [of i] list_all2_lengthD [OF r(3)] by simp
        then have "dec v = Some (ys ! i)" using r(3) by (auto simp: list_all2_iff decode_row_def ok_or_def split: option.splits)
        then have "ys ! i = x" using codec [OF v] by simp
        then show "x \<in> set ys" using set_zip_rightD [OF y] by simp
      qed
    qed
    then have "set (sorted_by_path key ys) = set items" by (simp add: sorted_by_path_def)
    with sorted_by_path_ascending [OF dist] plain show ?thesis
      unfolding r(4) by (intro ascending_eqI) (auto simp: plain_rows_def)
  qed
qed

lemma read_all_files_in_sync:
  assumes "backend_ok db rows pairs" "rows_in_sync db rows (store_tables st) files ns" "plain_rows file_path files"
    "read_all_files db st = Ok xs"
  shows "xs = files"
proof -
  have "read_table db st (dec_file db) file_path (files_table (store_tables st)) = Ok xs"
    using assms(4) by (auto simp: read_all_files_def and_then_eq_Ok)
  from read_table_rows [OF assms(1) _ _ assms(3) _ this, where enc = "enc_file db"] assms(2) backend_codec(1) [OF assms(1)]
  show ?thesis by (simp add: rows_in_sync_def)
qed

lemma read_all_notes_in_sync:
  assumes "backend_ok db rows pairs" "rows_in_sync db rows (store_tables st) files ns" "plain_rows note_path ns"
    "read_all_notes db st = Ok xs"
  shows "xs = ns"
proof -
  have "read_table db st (dec_note db) note_path (notes_table (store_tables st)) = Ok xs"
    using assms(4) by (auto simp: read_all_notes_def and_then_eq_Ok)
  from read_table_rows [OF assms(1) _ _ assms(3) _ this, where enc = "enc_note db"] assms(2) backend_codec(2) [OF assms(1)]
  show ?thesis by (simp add: rows_in_sync_def)
qed

section \<open>Links\<close>

text \<open>The order in which the store lists the sources of a target.\<close>

definition key_order :: "path \<Rightarrow> path \<Rightarrow> bool" where
  "key_order p q \<longleftrightarrow> path_key p < path_key q"

lemma path_by_key_eq:
  assumes "\<forall>p\<in>set paths. plain_path p"
  shows "path_by_key paths k = (case key_path k of Some p \<Rightarrow> if p \<in> set paths then Some p else None | None \<Rightarrow> None)"
proof -
  have "fold (\<lambda>p m. m(path_key p \<mapsto> p)) paths m k
      = (case key_path k of Some p \<Rightarrow> if p \<in> set paths then Some p else m k | None \<Rightarrow> m k)" for m
    using assms
  proof (induction paths arbitrary: m)
    case (Cons q paths)
    have "path_key q = k \<longleftrightarrow> key_path k = Some q" using Cons.prems by (simp add: key_path_eq)
    with Cons show ?case by (auto split: option.splits)
  qed (simp split: option.split)
  then show ?thesis by (simp add: path_by_key_def)
qed

lemma collect_resolved_links_spec:
  assumes "distinct (map fst es)" "\<And>k t. tp k = Some t \<Longrightarrow> k = path_key t" "\<forall>e\<in>set es. \<forall>t. tp (fst e) = Some t \<longrightarrow> t \<notin> fst ` set acc"
    "distinct (map fst acc)"
  shows "distinct (map fst (fold (\<lambda>entry links. case resolve_link_entry tp sp entry of
        Some (t, sources) \<Rightarrow> AList.update t sources links | None \<Rightarrow> links) es acc))
    \<and> set (fold (\<lambda>entry links. case resolve_link_entry tp sp entry of
        Some (t, sources) \<Rightarrow> AList.update t sources links | None \<Rightarrow> links) es acc)
      = set acc \<union> {(t, ss). \<exists>k vs. (k, vs) \<in> set es \<and> tp k = Some t \<and> ss = List.map_filter sp vs \<and> ss \<noteq> []}"
  using assms
proof (induction es arbitrary: acc)
  case (Cons e es)
  obtain k vs where e: "e = (k, vs)" by (cases e)
  let ?ss = "List.map_filter sp vs"
  let ?G = "\<lambda>entry links. case resolve_link_entry tp sp entry of
      Some (t, sources) \<Rightarrow> AList.update t sources links | None \<Rightarrow> links"
  show ?case
  proof (cases "\<exists>t. tp k = Some t \<and> ?ss \<noteq> []")
    case True
    then obtain t where t: "tp k = Some t" "?ss \<noteq> []" by blast
    have fresh: "t \<notin> fst ` set acc" using Cons.prems(3) t(1) e by auto
    then have upd: "AList.update t ?ss acc = acc @ [(t, ?ss)]"
      by (induction acc) auto
    have res: "resolve_link_entry tp sp e = Some (t, ?ss)" using t by (simp add: resolve_link_entry_def e Let_def)
    have "\<forall>e'\<in>set es. \<forall>t'. tp (fst e') = Some t' \<longrightarrow> t' \<notin> fst ` set (acc @ [(t, ?ss)])"
    proof (intro ballI allI impI)
      fix e' t' assume e': "e' \<in> set es" "tp (fst e') = Some t'"
      have "fst e' \<noteq> k" using Cons.prems(1) e e'(1) by auto
      then have "t' \<noteq> t" using Cons.prems(2) [OF e'(2)] Cons.prems(2) [OF t(1)] by auto
      then show "t' \<notin> fst ` set (acc @ [(t, ?ss)])" using Cons.prems(3) e' by auto
    qed
    moreover have "distinct (map fst (acc @ [(t, ?ss)]))" using Cons.prems(4) fresh by simp
    ultimately have ih: "distinct (map fst (fold (\<lambda>entry links. case resolve_link_entry tp sp entry of
        Some (t, sources) \<Rightarrow> AList.update t sources links | None \<Rightarrow> links) es (acc @ [(t, ?ss)])))
      \<and> set (fold (\<lambda>entry links. case resolve_link_entry tp sp entry of
        Some (t, sources) \<Rightarrow> AList.update t sources links | None \<Rightarrow> links) es (acc @ [(t, ?ss)]))
      = set (acc @ [(t, ?ss)]) \<union> {(t, ss). \<exists>k vs. (k, vs) \<in> set es \<and> tp k = Some t \<and> ss = List.map_filter sp vs \<and> ss \<noteq> []}"
      using Cons.prems(1,2) by (intro Cons.IH) auto
    have "fold ?G (e # es) acc = fold ?G es (acc @ [(t, ?ss)])" by (simp add: res upd)
    then have step: "fold ?G ((k, vs) # es) acc = fold ?G es (acc @ [(t, ?ss)])" by (simp only: e)
    show ?thesis unfolding e step using ih t by auto
  next
    case False
    then have "resolve_link_entry tp sp e = None"
      by (auto simp: resolve_link_entry_def e Let_def split: option.split)
    then show ?thesis using Cons.IH [of acc] Cons.prems False e by auto
  qed
qed auto

lemma map_filter_sources:
  assumes "\<And>v. v \<in> set vs \<Longrightarrow> \<exists>p. sp v = Some p \<and> path_key p = v" "sorted_wrt (<) vs"
  shows "map path_key (List.map_filter sp vs) = vs" "sorted_wrt key_order (List.map_filter sp vs)"
proof -
  show keys: "map path_key (List.map_filter sp vs) = vs"
    using assms(1) by (induction vs) (force simp: List.map_filter_def)+
  have "sorted_wrt (<) (map path_key (List.map_filter sp vs))" using assms(2) by (simp only: keys)
  then show "sorted_wrt key_order (List.map_filter sp vs)" by (simp add: sorted_wrt_map key_order_def [abs_def])
qed


definition links_within :: "file_meta list \<Rightarrow> (path \<times> path) set \<Rightarrow> bool" where
  "links_within files edges \<longleftrightarrow> (\<forall>(t, s)\<in>edges. t \<in> file_path ` set files
     \<and> s \<in> file_path ` {f \<in> set files. file_format_of f = NoteFormat})"

lemma links_within_plain:
  "plain_rows file_path files \<Longrightarrow> links_within files edges \<Longrightarrow> plain_edges edges"
  by (fastforce simp: plain_rows_def links_within_def plain_edges_def)

lemma listed_edges:
  assumes "distinct (map fst m)"
  shows "edges_of m = {(t, s). \<exists>ss. (t, ss) \<in> set m \<and> s \<in> set ss}"
  using assms by (auto simp: edges_of_def)

lemma read_links_in_sync:
  assumes ok: "backend_ok db rows pairs" and all_plain: "\<forall>p\<in>set targets. plain_path p" "\<forall>p\<in>set sources. plain_path p"
    and within: "edges \<subseteq> set targets \<times> set sources"
    and stored: "opt_pairs pairs (links_table (store_tables st)) = link_image edges"
    and rd: "read_links db st (path_by_key targets) (path_by_key sources) = Ok m"
  shows "listed key_order m \<and> edges_of m = edges"
proof -
  let ?tp = "path_by_key targets"
  let ?sp = "path_by_key sources"
  note tp = path_by_key_eq [OF all_plain(1)] and sp = path_by_key_eq [OF all_plain(2)]
  have known: "?tp (path_key t) = Some t" "?sp (path_key s) = Some s" if "(t, s) \<in> edges" for t s
    using that within all_plain by (fastforce simp: tp sp)+
  show ?thesis
  proof (cases "links_table (store_tables st)")
    case None
    then have "m = []" "link_image edges = {}" using rd stored by (simp_all add: read_links_def)
    then show ?thesis by (simp add: link_image_def listed_def)
  next
    case (Some m0)
    then obtain m1 es where r: "multi_open db (Some m0) = Ok m1" "multi_iter db m1 = Ok es"
      "m = collect_resolved_links es ?tp ?sp"
      using rd by (auto simp: read_links_def and_then_eq_Ok)
    have es: "distinct (map fst es)" "\<forall>(k, vs)\<in>set es. vs \<noteq> [] \<and> sorted_wrt (<) vs"
      "link_image edges = {(k, v). \<exists>vs. (k, vs) \<in> set es \<and> v \<in> set vs}"
      using backend_pairs(6) [OF ok r(2)] backend_pairs(1) [OF ok r(1)] stored Some by simp_all
    have tp_key: "k = path_key t" if "?tp k = Some t" for k t
      using that by (auto simp: tp key_path_eq split: option.splits if_splits)
    have C: "distinct (map fst m)"
      "set m = {(t, ss). \<exists>k vs. (k, vs) \<in> set es \<and> ?tp k = Some t \<and> ss = List.map_filter ?sp vs \<and> ss \<noteq> []}"
      using collect_resolved_links_spec [where acc = "[]" and sp = ?sp, OF es(1) tp_key]
      by (simp_all add: r(3) collect_resolved_links_def)
    have row: "\<exists>t. ?tp k = Some t \<and> k = path_key t \<and> (\<forall>v\<in>set vs. \<exists>s. ?sp v = Some s \<and> path_key s = v \<and> (t, s) \<in> edges)"
      if kvs: "(k, vs) \<in> set es" for k vs
    proof -
      have pair: "\<exists>t s. (t, s) \<in> edges \<and> k = path_key t \<and> v = path_key s" if "v \<in> set vs" for v
      proof -
        have "(k, v) \<in> link_image edges" using kvs that by (auto simp: es(3))
        then show ?thesis by (auto simp: link_image_def)
      qed
      obtain v where "v \<in> set vs" using es(2) kvs by (cases vs) auto
      from pair [OF this] obtain t s where t: "(t, s) \<in> edges" "k = path_key t" by blast
      have "\<exists>s. ?sp v = Some s \<and> path_key s = v \<and> (t, s) \<in> edges" if v: "v \<in> set vs" for v
      proof -
        obtain t' s' where e: "(t', s') \<in> edges" "k = path_key t'" "v = path_key s'" using pair [OF v] by blast
        have "t' = t" using known(1) [OF e(1), folded e(2)] known(1) [OF t(1), folded t(2)] by simp
        then show ?thesis using e known(2) [OF e(1)] by blast
      qed
      then show ?thesis using t known(1) by blast
    qed
    have sources: "map path_key (List.map_filter ?sp vs) = vs" "sorted_wrt key_order (List.map_filter ?sp vs)"
      if "(k, vs) \<in> set es" for k vs
      using map_filter_sources [of vs ?sp] row [OF that] es(2) that by blast+
    have "ss \<noteq> [] \<and> distinct ss \<and> sorted_wrt key_order ss" if mem: "(t, ss) \<in> set m" for t ss
    proof -
      obtain k vs where kvs: "(k, vs) \<in> set es" "ss = List.map_filter ?sp vs" "ss \<noteq> []"
        using mem unfolding C(2) by blast
      have "distinct vs" using es(2) kvs(1) by (auto simp: strict_sorted_iff)
      then have "distinct (map path_key ss)" using sources(1) [OF kvs(1)] kvs(2) by simp
      then show ?thesis using sources(2) [OF kvs(1)] kvs(2,3) by (auto simp: distinct_map)
    qed
    then have "listed key_order m" using C(1) by (auto simp: listed_def list_all_iff)
    moreover have "edges_of m = edges"
    proof (rule set_eqI, unfold split_paired_all)
      fix t s
      show "(t, s) \<in> edges_of m \<longleftrightarrow> (t, s) \<in> edges"
      proof
        assume "(t, s) \<in> edges_of m"
        then obtain k vs where kvs: "(k, vs) \<in> set es" "?tp k = Some t" "s \<in> set (List.map_filter ?sp vs)"
          using C(2) by (auto simp: listed_edges [OF C(1)])
        obtain t' where t': "?tp k = Some t'" "\<forall>v\<in>set vs. \<exists>s. ?sp v = Some s \<and> path_key s = v \<and> (t', s) \<in> edges"
          using row [OF kvs(1)] by blast
        obtain v where "v \<in> set vs" "?sp v = Some s" using kvs(3) by (auto simp: List.map_filter_def)
        with t' kvs(2) show "(t, s) \<in> edges" by force
      next
        assume e: "(t, s) \<in> edges"
        then have "(path_key t, path_key s) \<in> link_image edges" by (force simp: link_image_def)
        then obtain vs where vs: "(path_key t, vs) \<in> set es" "path_key s \<in> set vs" by (auto simp: es(3))
        then have src: "s \<in> set (List.map_filter ?sp vs)" using known(2) [OF e] by (force simp: List.map_filter_def)
        then have "List.map_filter ?sp vs \<noteq> []" by force
        then have "(t, List.map_filter ?sp vs) \<in> set m"
          unfolding C(2) using vs(1) known(1) [OF e] by blast
        with src show "(t, s) \<in> edges_of m" by (auto simp: listed_edges [OF C(1)])
      qed
    qed
    ultimately show ?thesis by blast
  qed
qed

lemma read_all_links_in_sync:
  assumes ok: "backend_ok db rows pairs" and plain: "plain_rows file_path files" and within: "links_within files edges"
    and stored: "opt_pairs pairs (links_table (store_tables st)) = link_image edges"
    and run: "read_all_links db st files = Ok m"
  shows "listed key_order m \<and> edges_of m = edges"
proof (rule read_links_in_sync [OF ok _ _ _ stored])
  show "read_links db st (path_by_key (map file_path files))
      (path_by_key (map file_path (filter (\<lambda>f. file_format_of f = NoteFormat) files))) = Ok m"
    using run by (auto simp: read_all_links_def and_then_eq_Ok)
  show "\<forall>p\<in>set (map file_path files). plain_path p"
    "\<forall>p\<in>set (map file_path (filter (\<lambda>f. file_format_of f = NoteFormat) files)). plain_path p"
    using plain by (auto simp: plain_rows_def)
  show "edges \<subseteq> set (map file_path files) \<times> set (map file_path (filter (\<lambda>f. file_format_of f = NoteFormat) files))"
    using within by (auto simp: links_within_def)
qed

section \<open>Maps listed in another order\<close>

text \<open>The merge of two lists emits a shared element in both directions or in neither.\<close>

lemma diff_sorted_sources_subset: "set (diff_sorted_sources t ls rs) \<subseteq> Pair t ` set ls"
  by (induction t ls rs rule: diff_sorted_sources.induct) (auto split: ordering.splits)

lemma diff_sorted_sources_only:
  "l \<in> set ls \<Longrightarrow> l \<notin> set rs \<Longrightarrow> (t, l) \<in> set (diff_sorted_sources t ls rs)"
proof (induction t ls rs rule: diff_sorted_sources.induct)
  case (1 t x ls y rs)
  consider (lt) "x < y" | (gt) "y < x" | (eq) "x = y" by fastforce
  then show ?case
  proof cases
    case lt
    then have "compare x y = Less" by simp
    with "1.IH"(1) "1.prems" show ?thesis unfolding diff_sorted_sources_steps(1) [OF lt] by auto
  next
    case gt
    then have "compare x y = Greater" by simp
    with "1.IH"(3) "1.prems" show ?thesis unfolding diff_sorted_sources_steps(2) [OF gt] by auto
  next
    case eq
    then have "compare x y = Equal" by simp
    with "1.IH"(2) "1.prems" eq show ?thesis unfolding eq diff_sorted_sources_steps(3) by auto
  qed
qed auto

lemma diff_sorted_sources_both:
  "distinct ls \<Longrightarrow> distinct rs \<Longrightarrow> x \<in> set ls \<Longrightarrow> x \<in> set rs
    \<Longrightarrow> (t, x) \<in> set (diff_sorted_sources t ls rs) \<longleftrightarrow> (t, x) \<in> set (diff_sorted_sources t rs ls)"
proof (induction t ls rs rule: diff_sorted_sources.induct)
  case (1 t l ls r rs)
  consider (lt) "l < r" | (gt) "r < l" | (eq) "l = r" by fastforce
  then show ?case
  proof cases
    case lt
    have less: "compare l r = Less" using lt by simp
    show ?thesis
    proof (cases "x = l")
      case True
      then have "(t, x) \<in> set (diff_sorted_sources t (r # rs) ls)"
        using "1.prems" by (intro diff_sorted_sources_only) auto
      with True show ?thesis
        unfolding diff_sorted_sources_steps(1) [OF lt] diff_sorted_sources_steps(2) [OF lt] by simp
    next
      case False
      then have "x \<in> set ls" using "1.prems"(3) by simp
      with "1.IH"(1) [OF less] "1.prems" False show ?thesis
        unfolding diff_sorted_sources_steps(1) [OF lt] diff_sorted_sources_steps(2) [OF lt] by simp
    qed
  next
    case gt
    have greater: "compare l r = Greater" using gt by simp
    show ?thesis
    proof (cases "x = r")
      case True
      then have "(t, x) \<in> set (diff_sorted_sources t (l # ls) rs)"
        using "1.prems" by (intro diff_sorted_sources_only) auto
      with True show ?thesis
        unfolding diff_sorted_sources_steps(1) [OF gt] diff_sorted_sources_steps(2) [OF gt] by simp
    next
      case False
      then have "x \<in> set rs" using "1.prems"(4) by simp
      with "1.IH"(3) [OF greater] "1.prems" False show ?thesis
        unfolding diff_sorted_sources_steps(1) [OF gt] diff_sorted_sources_steps(2) [OF gt] by simp
    qed
  next
    case eq
    have equal: "compare l r = Equal" using eq by simp
    show ?thesis
    proof (cases "x = l")
      case True
      then have "(t, x) \<notin> set (diff_sorted_sources t ls rs)" "(t, x) \<notin> set (diff_sorted_sources t rs ls)"
        using "1.prems"(1,2) eq diff_sorted_sources_subset by fastforce+
      then show ?thesis unfolding eq diff_sorted_sources_steps(3) by simp
    next
      case False
      with "1.IH"(2) [OF equal] "1.prems" eq show ?thesis
        unfolding eq diff_sorted_sources_steps(3) by simp
    qed
  qed
qed auto

lemma listed_sources: "listed R m \<Longrightarrow> distinct (inlinks_of m t)"
  by (auto simp: listed_def list_all_iff inlinks_of_def split: option.split dest!: map_of_SomeD)

lemma delta_side:
  assumes "distinct (map fst m)"
  shows "(t, s) \<in> set (concat (map (\<lambda>(t, ss). diff_sorted_sources t ss (f t)) m))
    \<longleftrightarrow> (t, s) \<in> set (diff_sorted_sources t (inlinks_of m t) (f t))"
proof
  assume "(t, s) \<in> set (concat (map (\<lambda>(t, ss). diff_sorted_sources t ss (f t)) m))"
  then obtain t' ss where m: "(t', ss) \<in> set m" "(t, s) \<in> set (diff_sorted_sources t' ss (f t'))" by auto
  then have "t' = t" using diff_sorted_sources_subset by fastforce
  moreover have "inlinks_of m t = ss" using m(1) assms \<open>t' = t\<close> by (simp add: inlinks_of_def)
  ultimately show "(t, s) \<in> set (diff_sorted_sources t (inlinks_of m t) (f t))" using m(2) by simp
next
  assume d: "(t, s) \<in> set (diff_sorted_sources t (inlinks_of m t) (f t))"
  then have "inlinks_of m t \<noteq> []" by auto
  then obtain ss where "map_of m t = Some ss" by (auto simp: inlinks_of_def split: option.splits)
  then have "(t, ss) \<in> set m" "inlinks_of m t = ss" by (auto simp: inlinks_of_def dest: map_of_SomeD)
  with d show "(t, s) \<in> set (concat (map (\<lambda>(t, ss). diff_sorted_sources t ss (f t)) m))" by force
qed

lemma inlink_delta_any_order:
  assumes "listed R current" "listed S persisted"
  shows "edges_of persisted - set (links_deleted (inlink_delta_compute current persisted))
      \<union> set (links_upserted (inlink_delta_compute current persisted)) = edges_of current"
    and "set (links_deleted (inlink_delta_compute current persisted)) \<subseteq> edges_of persisted"
proof -
  have keys: "distinct (map fst current)" "distinct (map fst persisted)" using assms by (simp_all add: listed_def)
  have up: "(t, s) \<in> set (links_upserted (inlink_delta_compute current persisted))
      \<longleftrightarrow> (t, s) \<in> set (diff_sorted_sources t (inlinks_of current t) (inlinks_of persisted t))" for t s
    unfolding inlink_delta_compute_def inlink_delta.simps by (rule delta_side [OF keys(1)])
  have del: "(t, s) \<in> set (links_deleted (inlink_delta_compute current persisted))
      \<longleftrightarrow> (t, s) \<in> set (diff_sorted_sources t (inlinks_of persisted t) (inlinks_of current t))" for t s
    unfolding inlink_delta_compute_def inlink_delta.simps by (rule delta_side [OF keys(2)])
  have dist: "distinct (inlinks_of current t)" "distinct (inlinks_of persisted t)" for t
    using assms listed_sources by blast+
  show "set (links_deleted (inlink_delta_compute current persisted)) \<subseteq> edges_of persisted"
    using del diff_sorted_sources_subset by (fastforce simp: edges_of_inlinks)
  show "edges_of persisted - set (links_deleted (inlink_delta_compute current persisted))
      \<union> set (links_upserted (inlink_delta_compute current persisted)) = edges_of current"
  proof (rule set_eqI, unfold split_paired_all)
    fix t s
    show "(t, s) \<in> edges_of persisted - set (links_deleted (inlink_delta_compute current persisted))
      \<union> set (links_upserted (inlink_delta_compute current persisted)) \<longleftrightarrow> (t, s) \<in> edges_of current"
      unfolding Un_iff Diff_iff up del edges_of_inlinks
      using diff_sorted_sources_both [OF dist(1) [of t] dist(2) [of t], of s t]
        diff_sorted_sources_only [of s "inlinks_of current t" "inlinks_of persisted t" t]
        diff_sorted_sources_only [of s "inlinks_of persisted t" "inlinks_of current t" t]
        diff_sorted_sources_subset [of t "inlinks_of current t" "inlinks_of persisted t"]
      by blast
  qed
qed

text \<open>The delta holds exactly what changed; and when the order of the keys and the order of the paths agree
  on the sources of every target, the merge behind it is given sorted lists.\<close>

definition delta_exact :: "(path \<times> path) set \<Rightarrow> (path \<times> path) set \<Rightarrow> inlink_delta \<Rightarrow> bool" where
  "delta_exact E E' d \<longleftrightarrow> distinct (links_upserted d) \<and> set (links_upserted d) = E' - E
     \<and> distinct (links_deleted d) \<and> set (links_deleted d) = E - E'"

definition orders_agree :: "(path \<times> path) set \<Rightarrow> bool" where
  "orders_agree E \<longleftrightarrow> (\<forall>t s s'. (t, s) \<in> E \<longrightarrow> (t, s') \<in> E \<longrightarrow> s < s' \<longrightarrow> path_key s < path_key s')"

lemma key_sorted_agree:
  assumes "sorted_wrt key_order ss" "distinct ss"
  shows "sorted_wrt (<) ss \<longleftrightarrow> (\<forall>s\<in>set ss. \<forall>s'\<in>set ss. s < s' \<longrightarrow> path_key s < path_key s')"
  using assms
proof (induction ss)
  case (Cons x ss)
  then have ih: "sorted_wrt (<) ss \<longleftrightarrow> (\<forall>s\<in>set ss. \<forall>s'\<in>set ss. s < s' \<longrightarrow> path_key s < path_key s')"
    and x: "\<forall>s\<in>set ss. path_key x < path_key s \<and> x \<noteq> s"
    by (auto simp: key_order_def)
  have "(\<forall>s\<in>set ss. x < s) \<longleftrightarrow> (\<forall>s\<in>set ss. \<not> s < x)" using x by (metis less_asym linorder_less_linear)
  moreover have "\<not> path_key s < path_key x" if "s \<in> set ss" for s using x that by (metis less_asym)
  ultimately show ?case using ih x by auto
qed simp

lemma listed_agree:
  assumes "listed key_order m"
  shows "canonical m \<longleftrightarrow> orders_agree (edges_of m)"
    and "orders_agree (edges_of m) \<longleftrightarrow> (\<forall>t. sorted_wrt (<) (inlinks_of m t))"
proof -
  have keys: "sorted_wrt key_order (inlinks_of m t)" "distinct (inlinks_of m t)" for t
    using assms listed_sources by (auto simp: listed_def list_all_iff inlinks_of_def split: option.split dest!: map_of_SomeD)
  show sorted: "orders_agree (edges_of m) \<longleftrightarrow> (\<forall>t. sorted_wrt (<) (inlinks_of m t))"
    unfolding key_sorted_agree [OF keys] orders_agree_def edges_of_inlinks by blast
  have "canonical m \<longleftrightarrow> (\<forall>t. sorted_wrt (<) (inlinks_of m t))"
    using assms by (auto simp: canonical_def listed_def list_all_iff inlinks_of_def split: option.split dest!: map_of_SomeD)
  then show "canonical m \<longleftrightarrow> orders_agree (edges_of m)" unfolding sorted .
qed

lemma diff_sorted_sources_none: "diff_sorted_sources t ls rs = [] \<Longrightarrow> subseq ls rs"
proof (induction t ls rs rule: diff_sorted_sources.induct)
  case (1 t l ls r rs)
  consider (lt) "l < r" | (gt) "r < l" | (eq) "l = r" by fastforce
  then show ?case
  proof cases
    case lt
    then show ?thesis using "1.prems" unfolding diff_sorted_sources_steps(1) [OF lt] by simp
  next
    case gt
    then have greater: "compare l r = Greater" by simp
    have "subseq (l # ls) rs"
      using "1.IH"(3) [OF greater] "1.prems" unfolding diff_sorted_sources_steps(2) [OF gt] by simp
    then show ?thesis by (rule list_emb_Cons)
  next
    case eq
    then have equal: "compare l r = Equal" by simp
    show ?thesis using "1.IH"(2) [OF equal] "1.prems" unfolding eq diff_sorted_sources_steps(3) by simp
  qed
qed simp_all

lemma inlink_delta_key_order:
  assumes m': "canonical m'" and m: "listed key_order m" and d: "d = inlink_delta_compute m' m"
  shows "orders_agree (edges_of m) \<Longrightarrow> delta_exact (edges_of m) (edges_of m') d"
    and "edges_of m' = edges_of m \<Longrightarrow> links_upserted d = [] \<Longrightarrow> links_deleted d = [] \<Longrightarrow> orders_agree (edges_of m)"
proof -
  show "orders_agree (edges_of m) \<Longrightarrow> delta_exact (edges_of m) (edges_of m') d"
    using inlink_delta_compute_spec [OF m', of m] listed_agree(1) [OF m] by (simp add: delta_exact_def d)
  assume same: "edges_of m' = edges_of m" and none: "links_upserted d = []" "links_deleted d = []"
  have "sorted_wrt (<) (inlinks_of m t)" for t
  proof -
    have sets: "set (inlinks_of m' t) = set (inlinks_of m t)" using same edges_of_inlinks by blast
    have sorted: "sorted_wrt (<) (inlinks_of m' t)" by (rule inlinks_of_sorted [OF m'])
    then have "length (inlinks_of m' t) = length (inlinks_of m t)"
      using sets listed_sources [OF m, of t] by (metis distinct_card strict_sorted_iff)
    moreover have "set (diff_sorted_sources t (inlinks_of m' t) (inlinks_of m t)) = {}"
    proof -
      have "distinct (map fst m')" using m' by (simp add: canonical_def)
      have "concat (map (\<lambda>(t, ss). diff_sorted_sources t ss (inlinks_of m t)) m') = []"
        using none(1) by (simp only: d inlink_delta_compute_def inlink_delta.simps)
      from delta_side [OF \<open>distinct (map fst m')\<close>, of t _ "inlinks_of m", unfolded this]
      have "(t, s) \<notin> set (diff_sorted_sources t (inlinks_of m' t) (inlinks_of m t))" for s by simp
      then have "e \<notin> set (diff_sorted_sources t (inlinks_of m' t) (inlinks_of m t))" for e
        using diff_sorted_sources_subset [of t "inlinks_of m' t" "inlinks_of m t"] by (metis imageE subsetD)
      then show ?thesis by (metis all_not_in_conv)
    qed
    ultimately have "inlinks_of m' t = inlinks_of m t"
      using diff_sorted_sources_none subseq_same_length by (metis set_empty)
    with sorted show ?thesis by simp
  qed
  then show "orders_agree (edges_of m)" using listed_agree(2) [OF m] by blast
qed

text \<open>Sources in any order.\<close>

abbreviation unordered :: "inlink_map \<Rightarrow> bool" where
  "unordered \<equiv> listed (\<lambda>_ _. True)"

lemma listed_unordered: "listed R m \<Longrightarrow> unordered m"
  by (auto simp: listed_def list_all_iff sorted_wrt_iff_nth_less)

lemma unordered_iff:
  "unordered m \<longleftrightarrow> distinct (map fst m) \<and> (\<forall>t ss. map_of m t = Some ss \<longrightarrow> ss \<noteq> [] \<and> distinct ss)"
proof (cases "distinct (map fst m)")
  case True
  have "sorted_wrt (\<lambda>_ _. True) ss" for ss :: "path list" by (simp add: sorted_wrt_iff_nth_less)
  then show ?thesis unfolding listed_def list_all_iff map_of_eq_Some_iff [OF True] by fast
qed (simp add: listed_def)

lemma distinct_insert_at:
  assumes "distinct xs" "x \<notin> set xs"
  shows "distinct (take n xs @ x # drop n xs)"
proof -
  have "mset (take n xs) + mset (drop n xs) = mset xs" by (simp only: mset_append [symmetric] append_take_drop_id)
  then have "mset (take n xs @ x # drop n xs) = mset (x # xs)" by simp
  from mset_eq_imp_distinct_iff [OF this] show ?thesis using assms by simp
qed

lemma insert_edges_unordered:
  assumes "insert_edges es m added = (m', added')" "unordered m" "distinct es" "set es \<inter> edges_of m = {}"
  shows "unordered m' \<and> edges_of m' = edges_of m \<union> set es \<and> added' = added @ es"
  using assms
proof (induction es m added rule: insert_edges.induct)
  case (2 t src es m added)
  let ?ss = "inlinks_of m t"
  have fresh: "src \<notin> set ?ss" using "2.prems"(4) by (auto simp: edges_of_inlinks)
  have search: "case binary_search_by (\<lambda>s. compare s src) ?ss of
      Inr i \<Rightarrow> i < length ?ss \<and> compare (?ss ! i) src = Equal | Inl i \<Rightarrow> i \<le> length ?ss"
    by (rule binary_search_any)
  obtain pos where pos: "binary_search_by (\<lambda>s. compare s src) ?ss = Err pos"
    using search fresh by (cases "binary_search_by (\<lambda>s. compare s src) ?ss") auto
  let ?new = "take pos ?ss @ src # drop pos ?ss"
  let ?m = "AList.update t ?new m"
  have set_new: "set ?new = insert src (set ?ss)"
    by (metis append_take_drop_id Un_insert_right list.simps(15) set_append)
  have "distinct ?ss" using listed_sources "2.prems"(2) by blast
  then have "distinct ?new" using fresh by (rule distinct_insert_at)
  have edges: "edges_of ?m = insert (t, src) (edges_of m)"
  proof (intro set_eqI, unfold split_paired_all)
    fix u s
    show "(u, s) \<in> edges_of ?m \<longleftrightarrow> (u, s) \<in> insert (t, src) (edges_of m)"
      unfolding edges_of_inlinks inlinks_of_update insert_iff using set_new by (cases "u = t") auto
  qed
  have "unordered ?m"
    using "2.prems"(2) \<open>distinct ?new\<close> unfolding unordered_iff
    by (auto simp: distinct_update update_conv' split: if_splits)
  moreover have "insert_edges es ?m (added @ [(t, src)]) = (m', added')"
    using "2.prems"(1) pos by (simp add: Let_def)
  moreover have "distinct es" "set es \<inter> edges_of ?m = {}" using "2.prems"(3,4) unfolding edges by auto
  ultimately show ?case using "2.IH"(1) [OF refl pos] unfolding edges by simp
qed simp

lemma patch_and_diff_any_order:
  assumes "listed R m" "patch_and_diff m edited new_edges = (m', d)" "distinct new_edges"
    "\<forall>e\<in>set new_edges. snd e \<in> edited"
  shows "unordered m'"
    and "edges_of m' = {e \<in> edges_of m. snd e \<notin> edited} \<union> set new_edges"
    and "edges_of m - set (links_deleted d) \<union> set (links_upserted d) = edges_of m'"
    and "set (links_deleted d) \<subseteq> edges_of m"
    and "delta_exact (edges_of m) (edges_of m') d"
proof -
  obtain m1 removed where r: "retain_unedited edited m = (m1, removed)" by fastforce
  obtain m2 added where a: "insert_edges new_edges m1 [] = (m2, added)" by fastforce
  obtain kept removed' where c: "cancel_edges added removed = (kept, removed')" by fastforce
  have m': "m' = m2" "links_upserted d = kept" "links_deleted d = removed'"
    using assms(2) by (auto simp: patch_and_diff_def r a c)
  note R = retain_unedited_listed [OF r assms(1)]
  then have edges1: "edges_of m1 = {e \<in> edges_of m. snd e \<notin> edited}"
    by (auto simp: edges_of_inlinks)
  have gone: "set removed = {e \<in> edges_of m. snd e \<in> edited}"
    using R by (auto simp: edges_of_inlinks)
  have apart: "set new_edges \<inter> edges_of m1 = {}" using assms(4) by (auto simp: edges1)
  have A: "unordered m2" "edges_of m2 = edges_of m1 \<union> set new_edges" "added = new_edges"
    using insert_edges_unordered [OF a listed_unordered [OF conjunct1 [OF R]] assms(3) apart] by simp_all
  have "distinct removed" using R by blast
  note C = cancel_edges_spec [OF c [unfolded A(3)] assms(3) this]
  show "unordered m'" "edges_of m' = {e \<in> edges_of m. snd e \<notin> edited} \<union> set new_edges"
    using A edges1 m' by auto
  show "set (links_deleted d) \<subseteq> edges_of m" unfolding m' using C gone by auto
  show "edges_of m - set (links_deleted d) \<union> set (links_upserted d) = edges_of m'"
    unfolding m' A(2) edges1 using C gone assms(4) by blast
  show "delta_exact (edges_of m) (edges_of m') d"
    unfolding delta_exact_def m' A(2) edges1 using C gone assms(4) by (auto simp del: split_paired_All)
qed

end
