(* ===== verification/Refresh.thy ===== *)
theory Refresh
  imports Store_Reads
begin

text \<open>
  The index service: \<open>src/index/service.rs\<close>, \<open>src/index/refresh.rs\<close> and
  \<open>materialize_apply\<close> of \<open>src/index/mod.rs\<close>.  Opening the store, scanning the file system
  and reading and parsing one note are parameters (\<open>opened\<close>, \<open>scan\<close>, \<open>parse\<close>); their
  errors are values.  Rayon joins run in sequence, and of several parse errors the first is returned.
  An outer \<open>None\<close> is a link query that does not return.
\<close>

section \<open>Full builds\<close>

definition parse_notes ::
  "(file_meta \<Rightarrow> (index_error, md_note) result) \<Rightarrow> file_meta list \<Rightarrow> (index_error, md_note list) result"
where
  "parse_notes parse files = try_map parse (filter (\<lambda>f. file_format_of f = NoteFormat) files)"

definition build ::
  "(index_error, file_meta list) result \<Rightarrow> (file_meta \<Rightarrow> (index_error, md_note) result)
    \<Rightarrow> (index_error, workspace_index) result option"
where
  "build scan parse = (case scan of
       Inl e \<Rightarrow> Some (Err e)
     | Inr files \<Rightarrow> (case parse_notes parse files of
           Inl e \<Rightarrow> Some (Err e)
         | Inr ns \<Rightarrow> map_option (\<lambda>links. Ok (assemble files ns links))
             (inlinks_with_resolver ns (link_resolver_new files))))"

section \<open>Reconciliation\<close>

record refresh_report =
  upserted_count :: nat
  deleted_count :: nat
  links_modified_count :: nat

datatype note_scope = Modified "md_note list" | Complete "md_note list"

fun to_upsert :: "note_scope \<Rightarrow> file_meta list \<Rightarrow> md_note list" where
  "to_upsert (Modified ns) files = ns"
| "to_upsert (Complete ns) files = List.map_filter (\<lambda>f.
     case binary_search_by (\<lambda>n. compare (note_path n) (file_path f)) ns of
       Inr i \<Rightarrow> slice_get ns i | Inl _ \<Rightarrow> None) files"

definition merge_stored ::
  "('t, 'm) backend \<Rightarrow> ('t, 'm) index_store \<Rightarrow> file_delta \<Rightarrow> md_note list \<Rightarrow> (index_error, md_note list) result"
where
  "merge_stored db st delta modified = and_then (read_all_notes db st)
     (\<lambda>stored. Ok (merge_refreshed_notes stored delta modified))"

fun resolve_scope ::
  "('t, 'm) backend \<Rightarrow> ('t, 'm) index_store \<Rightarrow> file_delta \<Rightarrow> note_scope \<Rightarrow> (index_error, md_note list) result"
where
  "resolve_scope db st delta (Modified ns) = merge_stored db st delta ns"
| "resolve_scope db st delta (Complete ns) = Ok ns"

record ('t, 'm) refresh_plan =
  plan_store :: "('t, 'm) index_store"
  current_files :: "file_meta list"
  persisted_files :: "file_meta list"
  plan_delta :: file_delta

definition collect_plan ::
  "('t, 'm) backend \<Rightarrow> (index_error, ('t, 'm) index_store) result \<Rightarrow> (index_error, file_meta list) result
    \<Rightarrow> (index_error, ('t, 'm) refresh_plan) result"
where
  "collect_plan db opened scan =
     and_then opened (\<lambda>st. and_then (read_all_files db st) (\<lambda>persisted. and_then scan (\<lambda>current.
       Ok \<lparr> plan_store = st, current_files = current, persisted_files = persisted,
         plan_delta = file_delta_compute current persisted \<rparr>)))"

definition is_paths_unchanged :: "file_delta \<Rightarrow> file_meta list \<Rightarrow> bool" where
  "is_paths_unchanged delta persisted \<longleftrightarrow> deleted delta = [] \<and> list_all (\<lambda>f.
     case binary_search_by_path file_path persisted (file_path f) of Inr _ \<Rightarrow> True | Inl _ \<Rightarrow> False)
     (upserted delta)"

record index_update =
  update_files :: "file_meta list"
  update_delta :: file_delta
  update_links :: inlink_map
  update_scope :: note_scope
  update_link_delta :: inlink_delta

definition reconcile ::
  "('t, 'm) backend \<Rightarrow> ('t, 'm) refresh_plan \<Rightarrow> md_note list \<Rightarrow> inlink_map
    \<Rightarrow> (index_error, index_update) result option"
where
  "reconcile db plan modified persisted =
     (if is_paths_unchanged (plan_delta plan) (persisted_files plan)
      then map_option (\<lambda>new_edges.
          let (links, d) = patch_and_diff persisted (note_path ` set modified) new_edges
          in Ok \<lparr> update_files = current_files plan, update_delta = plan_delta plan, update_links = links,
               update_scope = Modified modified, update_link_delta = d \<rparr>)
        (resolve_edges_for modified (current_files plan))
      else case merge_stored db (plan_store plan) (plan_delta plan) modified of
          Inl e \<Rightarrow> Some (Err e)
        | Inr ns \<Rightarrow> map_option (\<lambda>links.
            Ok \<lparr> update_files = current_files plan, update_delta = plan_delta plan, update_links = links,
               update_scope = Complete ns, update_link_delta = inlink_delta_compute links persisted \<rparr>)
          (inlinks_with_resolver ns (link_resolver_new (current_files plan))))"

definition update_report :: "index_update \<Rightarrow> refresh_report" where
  "update_report u = \<lparr> upserted_count = length (upserted (update_delta u)),
     deleted_count = length (deleted (update_delta u)),
     links_modified_count = sat_add (length (links_upserted (update_link_delta u)))
       (length (links_deleted (update_link_delta u))) \<rparr>"

definition notes_to_upsert :: "index_update \<Rightarrow> md_note list" where
  "notes_to_upsert u = to_upsert (update_scope u) (upserted (update_delta u))"

definition into_index ::
  "('t, 'm) backend \<Rightarrow> ('t, 'm) index_store \<Rightarrow> index_update \<Rightarrow> (index_error, workspace_index) result"
where
  "into_index db st u = and_then (resolve_scope db st (update_delta u) (update_scope u))
     (\<lambda>ns. Ok (assemble (update_files u) ns (update_links u)))"

definition apply_pending ::
  "('t, 'm) backend \<Rightarrow> ('t, 'm) index_store \<Rightarrow> index_update \<Rightarrow> string
    \<Rightarrow> (index_error, unit) result \<times> ('t, 'm) index_store"
where
  "apply_pending db st u class_field = persist db st (for_class_field class_field)
     (Incremental (update_delta u) (notes_to_upsert u) (update_link_delta u))"

section \<open>Refreshes\<close>

datatype ('t, 'm) refresh_state =
  Fresh "('t, 'm) index_store" "file_meta list"
| Stale "('t, 'm) index_store" index_update

definition prepare_pass ::
  "('t, 'm) backend \<Rightarrow> (index_error, ('t, 'm) index_store) result \<Rightarrow> (index_error, file_meta list) result
    \<Rightarrow> (file_meta \<Rightarrow> (index_error, md_note) result) \<Rightarrow> (index_error, ('t, 'm) refresh_state) result option"
where
  "prepare_pass db opened scan parse = (case collect_plan db opened scan of
       Inl e \<Rightarrow> Some (Err e)
     | Inr plan \<Rightarrow>
         if file_delta_is_empty (plan_delta plan) then Some (Ok (Fresh (plan_store plan) (persisted_files plan)))
         else case and_then (parse_notes parse (upserted (plan_delta plan))) (\<lambda>modified.
             and_then (read_all_links db (plan_store plan) (persisted_files plan)) (\<lambda>links. Ok (modified, links))) of
           Inl e \<Rightarrow> Some (Err e)
         | Inr (modified, links) \<Rightarrow>
             map_option (\<lambda>r. and_then r (\<lambda>u. Ok (Stale (plan_store plan) u))) (reconcile db plan modified links))"

definition assemble_unchanged ::
  "('t, 'm) backend \<Rightarrow> ('t, 'm) index_store \<Rightarrow> file_meta list
    \<Rightarrow> (index_error, workspace_index \<times> refresh_report) result"
where
  "assemble_unchanged db st files =
     and_then (read_all_notes db st) (\<lambda>ns. and_then (read_all_links db st files) (\<lambda>links.
       Ok (assemble files ns links, \<lparr> upserted_count = 0, deleted_count = 0, links_modified_count = 0 \<rparr>)))"

text \<open>The result and the store afterwards, when it was opened.\<close>

definition refresh_with_report ::
  "('t, 'm) backend \<Rightarrow> string \<Rightarrow> (index_error, ('t, 'm) index_store) result
    \<Rightarrow> (index_error, file_meta list) result \<Rightarrow> (file_meta \<Rightarrow> (index_error, md_note) result)
    \<Rightarrow> ((index_error, workspace_index \<times> refresh_report) result \<times> ('t, 'm) index_store option) option"
where
  "refresh_with_report db class_field opened scan parse =
     map_option (\<lambda>pass. case pass of
         Inl e \<Rightarrow> (Err e, case opened of Inr st \<Rightarrow> Some st | Inl _ \<Rightarrow> None)
       | Inr (Fresh st files) \<Rightarrow> (assemble_unchanged db st files, Some st)
       | Inr (Stale st u) \<Rightarrow>
           let (persisted, st') = apply_pending db st u class_field
           in (and_then (into_index db st' u) (\<lambda>index. Ok (index, update_report u)), Some st'))
       (prepare_pass db opened scan parse)"

definition refresh_store ::
  "('t, 'm) backend \<Rightarrow> string \<Rightarrow> (index_error, ('t, 'm) index_store) result
    \<Rightarrow> (index_error, file_meta list) result \<Rightarrow> (file_meta \<Rightarrow> (index_error, md_note) result)
    \<Rightarrow> (index_error, ('t, 'm) index_store) result option"
where
  "refresh_store db class_field opened scan parse =
     map_option (\<lambda>pass. case pass of
         Inl e \<Rightarrow> Err e
       | Inr (Fresh st files) \<Rightarrow> Ok st
       | Inr (Stale st u) \<Rightarrow> (case apply_pending db st u class_field of
             (Inr _, st') \<Rightarrow> Ok st'
           | (Inl e, _) \<Rightarrow> Err e))
       (prepare_pass db opened scan parse)"

definition persist_index ::
  "('t, 'm) backend \<Rightarrow> string \<Rightarrow> ('t, 'm) index_store \<Rightarrow> workspace_index
    \<Rightarrow> (index_error, unit) result \<times> ('t, 'm) index_store"
where
  "persist_index db class_field st index = persist db st (for_class_field class_field) (Rebuild index)"

definition load_index ::
  "('t, 'm) backend \<Rightarrow> (index_error, ('t, 'm) index_store) result \<Rightarrow> (index_error, workspace_index) result"
where
  "load_index db opened = and_then opened (\<lambda>st. and_then (read_all db st)
     (\<lambda>(files, ns, links). Ok (assemble files ns links)))"

section \<open>What the notes of a scan are\<close>

text \<open>A scanned vault: relative paths in order, formats from the extension, notes parsed at the path
  of their file, and few enough path components for the distances of link resolution.\<close>

definition vault :: "(file_meta \<Rightarrow> (index_error, md_note) result) \<Rightarrow> file_meta list \<Rightarrow> bool" where
  "vault parse files \<longleftrightarrow> plain_rows file_path files
     \<and> (\<forall>f\<in>set files. file_format_of f = format_from_path (file_path f)
         \<and> (\<forall>n. parse f = Ok n \<longrightarrow> note_path n = file_path f)
         \<and> well_placed (map file_path files) (file_path f))"

lemma vault_plain: "vault parse files \<Longrightarrow> plain_rows file_path files"
  by (simp add: vault_def)

definition parsed :: "(file_meta \<Rightarrow> (index_error, md_note) result) \<Rightarrow> file_meta \<Rightarrow> md_note" where
  "parsed parse f = projr (parse f)"

lemma parse_notes_Ok:
  "parse_notes parse files = Ok ns \<longleftrightarrow> (\<forall>f\<in>set files. file_format_of f = NoteFormat \<longrightarrow> (\<exists>n. parse f = Ok n))
    \<and> ns = map (parsed parse) (filter (\<lambda>f. file_format_of f = NoteFormat) files)"
proof -
  have "try_map parse fs = Ok ns \<longleftrightarrow> (\<forall>f\<in>set fs. \<exists>n. parse f = Ok n) \<and> ns = map (parsed parse) fs" for fs
    by (induction fs arbitrary: ns) (auto simp: and_then_eq_Ok parsed_def)
  then show ?thesis by (auto simp: parse_notes_def)
qed

lemma ascending_parsed:
  assumes "ascending file_path files" "\<forall>f\<in>set files. note_path (g f) = file_path f"
  shows "ascending note_path (map g files)"
  using assms by (induction files) auto

lemma row_of_parsed:
  assumes "ascending file_path files" "\<forall>f\<in>set files. note_path (g f) = file_path f"
  shows "row_of note_path (map g files) p = map_option g (row_of file_path files p)"
  using assms by (induction files) auto

definition note_row ::
  "(file_meta \<Rightarrow> (index_error, md_note) result) \<Rightarrow> file_meta list \<Rightarrow> path \<Rightarrow> md_note option"
where
  "note_row parse files p = (case row_of file_path files p of
     Some f \<Rightarrow> if file_format_of f = NoteFormat then Some (parsed parse f) else None | None \<Rightarrow> None)"

lemma parse_notes_rows:
  assumes "vault parse vault_files" "set files \<subseteq> set vault_files" "ascending file_path files" "parse_notes parse files = Ok ns"
  shows "plain_rows note_path ns" "row_of note_path ns p = note_row parse files p"
proof -
  let ?notes = "filter (\<lambda>f. file_format_of f = NoteFormat) files"
  have ns: "ns = map (parsed parse) ?notes" and ok: "\<forall>f\<in>set ?notes. \<exists>n. parse f = Ok n"
    using assms(4) by (auto simp: parse_notes_Ok)
  have at: "\<forall>f\<in>set ?notes. note_path (parsed parse f) = file_path f"
    using ok assms(1,2) by (fastforce simp: parsed_def vault_def)
  have asc: "ascending file_path ?notes" by (rule ascending_filter [OF assms(3)])
  have "\<forall>f\<in>set ?notes. plain_path (file_path f)" using assms(1,2) by (auto simp: vault_def plain_rows_def)
  then show "plain_rows note_path ns"
    using ascending_parsed [OF asc at] at by (auto simp: plain_rows_def ns)
  show "row_of note_path ns p = note_row parse files p"
    unfolding ns row_of_parsed [OF asc at] row_of_filter [OF assms(3)] note_row_def by (auto split: option.split)
qed

section \<open>The change between two scans\<close>

lemma delta_rows:
  assumes "ascending file_path cur" "ascending file_path per"
  shows "upserted (file_delta_compute cur per) = changed_rows per cur"
    "deleted (file_delta_compute cur per) = missing_rows cur per"
    "ascending file_path (changed_rows per cur)" "set (changed_rows per cur) \<subseteq> set cur"
    "set (missing_rows cur per) \<subseteq> set per"
  using file_delta_spec [OF assms] ascending_filter [OF assms(1)]
  by (auto simp: changed_rows_def missing_rows_def)

lemma replaced_files:
  assumes "ascending file_path cur" "ascending file_path per"
  shows "replaced file_path cur (file_path ` set (missing_rows cur per)) (changed_rows per cur) per"
  unfolding replaced_def row_of_upserts [OF assms(1)] missing_paths [OF assms(2)]
  by (auto split: option.split)

lemma note_row_change:
  assumes cur: "vault parse cur" and per: "vault parse0 per"
    and same: "\<forall>f\<in>set cur \<inter> set per. parse f = parse0 f"
  shows "note_row parse cur p = (case note_row parse (changed_rows per cur) p of
      Some n \<Rightarrow> Some n
    | None \<Rightarrow> if p \<in> file_path ` set (missing_rows cur per) then None else note_row parse0 per p)"
proof -
  have asc: "ascending file_path cur" "ascending file_path per" using cur per by (auto simp: vault_def plain_rows_def)
  have fmt: "file_format_of c = file_format_of f" if "row_of file_path cur p = Some c" "row_of file_path per p = Some f" for c f
    using cur per row_of_SomeD [OF that(1)] row_of_SomeD [OF that(2)] by (auto simp: vault_def)
  have old: "parsed parse f = parsed parse0 f" if "row_of file_path cur p = Some f" "row_of file_path per p = Some f" for f
    using same row_of_SomeD [OF that(1)] row_of_SomeD [OF that(2)] by (auto simp: parsed_def)
  note eval = note_row_def row_of_upserts [OF asc(1)] missing_paths [OF asc(2)]
  show ?thesis
  proof (cases "row_of file_path cur p")
    case None
    then show ?thesis by (simp add: eval split: option.split)
  next
    case (Some c)
    note c = this
    show ?thesis
    proof (cases "row_of file_path per p")
      case None
      with c show ?thesis by (simp add: eval)
    next
      case (Some f)
      show ?thesis
      proof (cases "f = c")
        case True
        with c Some old [of c] show ?thesis by (simp add: eval)
      next
        case False
        with c Some fmt [OF c Some] show ?thesis by (simp add: eval)
      qed
    qed
  qed
qed

lemma map_filter_map: "List.map_filter (\<lambda>x. if P x then Some (g x) else None) xs = map g (filter P xs)"
  by (induction xs) auto

lemma map_filter_cong: "(\<And>x. x \<in> set xs \<Longrightarrow> f x = g x) \<Longrightarrow> List.map_filter f xs = List.map_filter g xs"
  by (induction xs) (auto split: option.split)

lemma to_upsert_complete:
  assumes "ascending note_path ns"
  shows "to_upsert (Complete ns) files = List.map_filter (\<lambda>f. row_of note_path ns (file_path f)) files"
  using binary_search_row [OF assms] by (simp add: binary_search_by_path_def)

text \<open>The index of the previous refresh holds the notes of the persisted files, and a file with
  unchanged metadata parses as before.\<close>

lemma refreshed_notes:
  assumes cur: "vault parse cur" and per: "vault parse0 per"
    and same: "\<forall>f\<in>set cur \<inter> set per. parse f = parse0 f"
    and old: "parse_notes parse0 per = Ok old"
    and mod: "parse_notes parse (changed_rows per cur) = Ok modified"
  obtains new where "parse_notes parse cur = Ok new" "plain_rows note_path new" "plain_rows note_path modified"
    "replaced note_path new (file_path ` set (missing_rows cur per)) modified old"
    "to_upsert (Complete new) (changed_rows per cur) = modified"
proof -
  have asc: "ascending file_path cur" "ascending file_path per" using cur per by (auto simp: vault_def plain_rows_def)
  note D = delta_rows [OF asc]
  have "\<exists>n. parse f = Ok n" if "f \<in> set cur" "file_format_of f = NoteFormat" for f
  proof (cases "f \<in> set (changed_rows per cur)")
    case True
    with mod that show ?thesis by (auto simp: parse_notes_Ok)
  next
    case False
    then have "f \<in> set per" using that(1) row_of_eq_Some [OF asc(2)] by (auto simp: changed_rows_def)
    with same that old show ?thesis by (auto simp: parse_notes_Ok)
  qed
  then obtain new where new: "parse_notes parse cur = Ok new" by (auto simp: parse_notes_Ok)
  note N = parse_notes_rows [OF cur subset_refl asc(1) new]
    and M = parse_notes_rows [OF cur D(4) D(3) mod]
    and O = parse_notes_rows [OF per subset_refl asc(2) old]
  have "replaced note_path new (file_path ` set (missing_rows cur per)) modified old"
    unfolding replaced_def N(2) M(2) O(2) by (intro allI note_row_change [OF cur per same])
  moreover have "to_upsert (Complete new) (changed_rows per cur) = modified"
  proof -
    have "row_of file_path cur (file_path f) = Some f" if "f \<in> set (changed_rows per cur)" for f
      using row_of_in [OF asc(1)] D(4) that by blast
    then have "List.map_filter (\<lambda>f. row_of note_path new (file_path f)) (changed_rows per cur)
        = List.map_filter (\<lambda>f. if file_format_of f = NoteFormat then Some (parsed parse f) else None) (changed_rows per cur)"
      by (intro map_filter_cong) (simp add: N(2) note_row_def)
    also have "\<dots> = modified" unfolding map_filter_map using mod by (simp add: parse_notes_Ok)
    finally show ?thesis
      using N(1) by (simp del: to_upsert.simps add: to_upsert_complete plain_rows_def)
  qed
  ultimately show ?thesis using that new N(1) M(1) by blast
qed

lemma merge_replaced:
  assumes "replaced note_path new (file_path ` set (deleted delta)) modified stored"
    "ascending note_path new" "ascending note_path modified" "ascending note_path stored"
  shows "merge_refreshed_notes stored delta modified = new"
proof (rule ascending_ext [OF _ assms(2)])
  fix p
  note spec = merge_refreshed_notes_spec [OF assms(4,3), of delta p]
  show "ascending note_path (merge_refreshed_notes stored delta modified)" using spec by (rule conjunct1)
  show "row_of note_path (merge_refreshed_notes stored delta modified) p = row_of note_path new p"
    unfolding spec [THEN conjunct2] using assms(1) by (simp add: replaced_def)
qed

lemma replaced_again:
  assumes "replaced key new gone items old" "gone \<inter> key ` set items = {}"
  shows "replaced key new gone items new"
  using assms by (auto simp: replaced_def split: option.splits dest: row_of_SomeD)

lemma replaced_set:
  assumes "replaced key new gone items old" "ascending key new" "ascending key items" "ascending key old"
  shows "set new = set items \<union> {x \<in> set old. key x \<notin> key ` set items \<and> key x \<notin> gone}"
proof (rule set_eqI)
  fix x
  have "x \<in> set new \<longleftrightarrow> row_of key new (key x) = Some x" using row_of_eq_Some [OF assms(2)] by simp
  also have "\<dots> \<longleftrightarrow> (case row_of key items (key x) of
      Some y \<Rightarrow> Some y | None \<Rightarrow> if key x \<in> gone then None else row_of key old (key x)) = Some x"
    using assms(1) by (simp add: replaced_def)
  also have "\<dots> \<longleftrightarrow> x \<in> set items \<union> {x \<in> set old. key x \<notin> key ` set items \<and> key x \<notin> gone}"
  proof (cases "row_of key items (key x)")
    case None
    then have "key x \<notin> key ` set items" "x \<notin> set items" by (auto simp: row_of_None)
    then show ?thesis unfolding None using row_of_eq_Some [OF assms(4), of "key x" x] by simp
  next
    case (Some y)
    then have y: "y \<in> set items" "key y = key x" by (auto dest: row_of_SomeD)
    from imageI [OF y(1), of key] have "key x \<in> key ` set items" unfolding y(2) .
    moreover have "x \<in> set items \<longleftrightarrow> y = x" using row_of_in [OF assms(3), of x] Some y(1) by auto
    ultimately show ?thesis unfolding Some by simp
  qed
  finally show "x \<in> set new \<longleftrightarrow> x \<in> set items \<union> {x \<in> set old. key x \<notin> key ` set items \<and> key x \<notin> gone}" .
qed

text \<open>A content-only delta keeps the paths.\<close>

lemma paths_unchanged:
  assumes "ascending file_path cur" "ascending file_path per"
    "is_paths_unchanged (file_delta_compute cur per) per"
  shows "map file_path cur = map file_path per" "missing_rows cur per = []"
proof -
  note D = delta_rows [OF assms(1,2)]
  show none: "missing_rows cur per = []" using assms(3) by (simp add: is_paths_unchanged_def D)
  have found: "file_path f \<in> file_path ` set per" if f: "f \<in> set (changed_rows per cur)" for f
  proof -
    have "case binary_search_by_path file_path per (file_path f) of Inr _ \<Rightarrow> True | Inl _ \<Rightarrow> False"
      using assms(3) f by (simp add: is_paths_unchanged_def list_all_iff D)
    then obtain i where i: "binary_search_by_path file_path per (file_path f) = Ok i"
      by (cases "binary_search_by_path file_path per (file_path f)") simp_all
    then have "row_of file_path per (file_path f) \<noteq> None" using binary_search_found [OF assms(2)] by blast
    then obtain g where "row_of file_path per (file_path f) = Some g" by blast
    from row_of_SomeD [OF this] show ?thesis by (metis image_eqI)
  qed
  have "file_path ` set cur = file_path ` set per"
  proof
    show "file_path ` set cur \<subseteq> file_path ` set per"
      using found by (auto simp: changed_rows_def) (metis image_eqI row_of_SomeD)
    show "file_path ` set per \<subseteq> file_path ` set cur"
      using none by (auto simp: missing_rows_def filter_empty_conv row_of_None) (metis image_eqI)
  qed
  then show "map file_path cur = map file_path per"
    using ascending_sorted ascending_distinct assms(1,2) by (intro sorted_distinct_set_unique) auto
qed

lemma same_paths:
  assumes "ascending file_path cur" "ascending file_path per" "map file_path per = map file_path cur"
  shows "is_paths_unchanged (file_delta_compute cur per) per"
proof -
  note D = delta_rows [OF assms(1,2)]
  have sets: "file_path ` set per = file_path ` set cur" using assms(3) by (metis list.set_map)
  have "row_of file_path cur (file_path f) \<noteq> None" if "f \<in> set per" for f
  proof -
    have "file_path f \<in> file_path ` set cur" using imageI [OF that, of file_path] sets by simp
    then obtain g where "g \<in> set cur" "file_path g = file_path f" by (metis imageE)
    then show ?thesis by (metis row_of_None)
  qed
  then have "missing_rows cur per = []" by (simp add: missing_rows_def filter_empty_conv)
  moreover have "case binary_search_by_path file_path per (file_path f) of Inr _ \<Rightarrow> True | Inl _ \<Rightarrow> False"
    if "f \<in> set (changed_rows per cur)" for f
  proof -
    have "file_path f \<in> file_path ` set per" using that D(4) sets by auto
    then obtain g where "g \<in> set per" "file_path g = file_path f" by (metis imageE)
    then have "row_of file_path per (file_path f) \<noteq> None" by (metis row_of_None)
    then obtain i where "binary_search_by_path file_path per (file_path f) = Ok i"
      using binary_search_found [OF assms(2)] by blast
    then show ?thesis by simp
  qed
  ultimately show ?thesis by (simp add: is_paths_unchanged_def list_all_iff D(1,2))
qed

section \<open>Links of a refresh\<close>

lemma vault_placed:
  assumes "vault parse files" "parse_notes parse files = Ok ns"
  shows "placed_notes files ns" "links_within files (note_links (map file_path files) (set ns))"
proof -
  have note_at: "\<exists>f\<in>set files. file_format_of f = NoteFormat \<and> note_path n = file_path f" if "n \<in> set ns" for n
    using assms that by (fastforce simp: parse_notes_Ok parsed_def vault_def)
  then show "placed_notes files ns"
    using assms(1) by (fastforce simp: placed_notes_def list_all_iff vault_def)
  show "links_within files (note_links (map file_path files) (set ns))"
    unfolding links_within_def
  proof (intro ballI, unfold split_paired_all split)
    fix t s assume "(t, s) \<in> note_links (map file_path files) (set ns)"
    then obtain n l where n: "n \<in> set ns" "note_path n = s"
      "resolution (map file_path files) s (target_parts l) = Some t" by (auto simp: note_links_eq)
    obtain f where f: "f \<in> set files" "file_format_of f = NoteFormat" "s = file_path f" using note_at [OF n(1)] n(2) by blast
    have "well_placed (map file_path files) s" using assms(1) f by (simp add: vault_def)
    from resolution_member [OF this n(3)] f
    show "t \<in> file_path ` set files \<and> s \<in> file_path ` {f \<in> set files. file_format_of f = NoteFormat}" by auto
  qed
qed

lemma note_edges_distinct:
  assumes "ascending file_path files" "placed_notes files ns" "distinct (map note_path ns)"
    and es: "those (map (note_edges (link_resolver_new files)) ns) = Some es"
  shows "distinct (concat es)"
  using assms(2-)
proof (induction ns arbitrary: es)
  case (Cons n ns)
  let ?r = "link_resolver_new files"
  obtain ts where ts: "resolve_note ?r n = Some ts" "sorted_wrt (<) ts"
    using resolve_note_targets [OF assms(1), of n] Cons.prems(1) by (auto simp: placed_notes_def)
  have head: "note_edges ?r n = Some (map (\<lambda>t. (t, note_path n)) ts)" by (simp add: note_edges_def ts(1))
  obtain es' where es': "those (map (note_edges ?r) ns) = Some es'" "es = map (\<lambda>t. (t, note_path n)) ts # es'"
    using Cons.prems(3) head by (auto split: option.splits)
  have "distinct (concat es')" using Cons.IH [OF _ _ es'(1)] Cons.prems(1,2) by (simp add: placed_notes_def)
  moreover have "distinct (map (\<lambda>t. (t, note_path n)) ts)"
    using ts(2) by (simp add: distinct_map inj_on_def strict_sorted_iff)
  moreover have "placed_notes files ns" using Cons.prems(1) by (simp add: placed_notes_def)
  then have "set (concat es') = note_links (map file_path files) (set ns)"
    using note_edges_links [OF assms(1), of ns] es'(1) by auto
  then have "snd e \<in> note_path ` set ns" if "e \<in> set (concat es')" for e
    using that by (auto simp: note_links_def)
  moreover have "note_path n \<notin> note_path ` set ns" using Cons.prems(2) by simp
  ultimately show ?case unfolding es'(2) concat.simps distinct_append by fastforce
qed simp

lemma note_links_replaced:
  assumes "set new = set modified \<union> {n \<in> set old. note_path n \<notin> note_path ` set modified \<and> note_path n \<notin> {}}"
  shows "{e \<in> note_links P (set old). snd e \<notin> note_path ` set modified} \<union> note_links P (set modified)
    = note_links P (set new)"
  unfolding assms by (auto simp: note_links_def)

text \<open>Two indexes that differ at most in the order of inbound links.\<close>

definition same_entry :: "file_entry \<Rightarrow> file_entry \<Rightarrow> bool" where
  "same_entry a b \<longleftrightarrow> entry_file a = entry_file b \<and> entry_note a = entry_note b
     \<and> mset (entry_inlinks a) = mset (entry_inlinks b)"

lemma assemble_same:
  assumes "ascending file_path files" "ascending note_path ns" "unordered m" "unordered m'" "edges_of m = edges_of m'"
  shows "list_all2 same_entry (assemble files ns m) (assemble files ns m')"
proof -
  have links: "mset (inlinks_of m t) = mset (inlinks_of m' t)" for t
  proof -
    have "set (inlinks_of m t) = set (inlinks_of m' t)" using assms(5) edges_of_inlinks by blast
    moreover have "distinct (inlinks_of m t)" "distinct (inlinks_of m' t)" using listed_sources assms(3,4) by blast+
    ultimately show ?thesis by (simp add: set_eq_iff_mset_eq_distinct)
  qed
  show ?thesis
    unfolding assemble_join [OF assms(1,2)] list_all2_map1 list_all2_map2
    using links by (auto simp: list_all2_same same_entry_def joined_entry_def inlinks_of_def)
qed

section \<open>Reconciliation is exact\<close>

text \<open>With the same paths the report compares the links of the edited notes; otherwise it merges the map it
  has resolved, with sources in path order, with the stored one, in key order.\<close>

definition links_reported ::
  "file_meta list \<Rightarrow> file_meta list \<Rightarrow> (path \<times> path) set \<Rightarrow> (path \<times> path) set \<Rightarrow> inlink_delta \<Rightarrow> bool"
where
  "links_reported per cur E E' d \<longleftrightarrow> (if map file_path per = map file_path cur then delta_exact E E' d
     else \<exists>m m'. listed key_order m \<and> edges_of m = E \<and> canonical m' \<and> edges_of m' = E' \<and> d = inlink_delta_compute m' m)"

lemma links_reported_delta:
  assumes "links_reported per cur E E' d"
  shows "map file_path per = map file_path cur \<or> orders_agree E \<Longrightarrow> delta_exact E E' d"
    and "E' = E \<Longrightarrow> links_upserted d = [] \<and> links_deleted d = [] \<longleftrightarrow> map file_path per = map file_path cur \<or> orders_agree E"
proof -
  show exact: "delta_exact E E' d" if "map file_path per = map file_path cur \<or> orders_agree E"
  proof (cases "map file_path per = map file_path cur")
    case False
    then obtain m m' where "listed key_order m" "edges_of m = E" "canonical m'" "edges_of m' = E'" "d = inlink_delta_compute m' m"
      using assms by (auto simp only: links_reported_def if_False)
    with inlink_delta_key_order(1) [of m' m d] that False show ?thesis by blast
  qed (use assms in \<open>simp add: links_reported_def\<close>)
  assume same: "E' = E"
  have "map file_path per = map file_path cur \<or> orders_agree E" if "links_upserted d = []" "links_deleted d = []"
  proof (cases "map file_path per = map file_path cur")
    case False
    then obtain m m' where "listed key_order m" "edges_of m = E" "canonical m'" "edges_of m' = E'" "d = inlink_delta_compute m' m"
      using assms by (auto simp only: links_reported_def if_False)
    then show ?thesis using inlink_delta_key_order(2) [of m' m d] that same by auto
  qed simp
  then show "links_upserted d = [] \<and> links_deleted d = [] \<longleftrightarrow> map file_path per = map file_path cur \<or> orders_agree E"
    using exact same by (metis Diff_cancel delta_exact_def set_empty)
qed

definition reconciled ::
  "file_meta list \<Rightarrow> file_meta list \<Rightarrow> file_delta \<Rightarrow> md_note list \<Rightarrow> md_note list \<Rightarrow> (path \<times> path) set \<Rightarrow> index_update \<Rightarrow> bool"
where
  "reconciled per cur delta modified new edges u \<longleftrightarrow>
     update_files u = cur \<and> update_delta u = delta \<and> notes_to_upsert u = modified
   \<and> (update_scope u = Complete new \<or> update_scope u = Modified modified \<and> deleted delta = [])
   \<and> unordered (update_links u) \<and> edges_of (update_links u) = note_links (map file_path cur) (set new)
   \<and> set (links_deleted (update_link_delta u)) \<subseteq> edges
   \<and> edges - set (links_deleted (update_link_delta u)) \<union> set (links_upserted (update_link_delta u))
      = note_links (map file_path cur) (set new)
   \<and> links_reported per cur edges (note_links (map file_path cur) (set new)) (update_link_delta u)"

lemma canonical_unordered: "canonical m \<Longrightarrow> unordered m"
  by (rule listed_unordered) (simp add: canonical_listed)

lemma reconcile_content:
  assumes cur: "vault parse cur" and per: "vault parse0 per"
    and new: "parse_notes parse cur = Ok new" "plain_rows note_path new" and mod: "plain_rows note_path modified"
    and repl: "replaced note_path new (file_path ` set (missing_rows cur per)) modified old"
    and old: "plain_rows note_path old"
    and links: "listed key_order m" "edges_of m = note_links (map file_path per) (set old)"
    and same: "is_paths_unchanged delta per" and delta: "delta = file_delta_compute cur per"
  shows "\<exists>u. reconcile db \<lparr> plan_store = st, current_files = cur, persisted_files = per, plan_delta = delta \<rparr> modified m
      = Some (Ok u) \<and> reconciled per cur delta modified new (note_links (map file_path per) (set old)) u"
proof -
  let ?P = "map file_path cur"
  have asc: "ascending file_path cur" "ascending file_path per" using cur per by (auto simp: vault_def plain_rows_def)
  have paths: "?P = map file_path per" "missing_rows cur per = []"
    using paths_unchanged [OF asc same [unfolded delta]] .
  have sets: "set new = set modified \<union> {n \<in> set old. note_path n \<notin> note_path ` set modified \<and> note_path n \<notin> {}}"
    using replaced_set [OF repl] new(2) mod old paths(2) by (simp add: plain_rows_def)
  have "placed_notes cur new" by (rule vault_placed(1) [OF cur new(1)])
  then have placed: "placed_notes cur modified" using sets by (auto simp: placed_notes_def list_all_iff)
  obtain es where es: "those (map (note_edges (link_resolver_new cur)) modified) = Some es"
    "set (concat es) = note_links ?P (set modified)"
    using note_edges_links [OF asc(1) placed] by blast
  have dist: "distinct (concat es)"
    using note_edges_distinct [OF asc(1) placed _ es(1)] ascending_distinct mod by (auto simp: plain_rows_def)
  obtain m' d where p: "patch_and_diff m (note_path ` set modified) (concat es) = (m', d)" by fastforce
  have edited: "\<forall>e\<in>set (concat es). snd e \<in> note_path ` set modified" unfolding es(2) by (auto simp: note_links_def)
  note P = patch_and_diff_any_order [OF links(1) p dist edited]
  have E: "edges_of m' = note_links ?P (set new)"
    unfolding P(2) links(2) es(2) paths(1) [symmetric] by (rule note_links_replaced [OF sets])
  have "deleted delta = []" using delta_rows(2) [OF asc] paths(2) delta by simp
  let ?u = "\<lparr> update_files = cur, update_delta = delta, update_links = m', update_scope = Modified modified,
      update_link_delta = d \<rparr>"
  have "reconcile db \<lparr> plan_store = st, current_files = cur, persisted_files = per, plan_delta = delta \<rparr> modified m
      = Some (Ok ?u)"
    using same es(1) p by (simp add: reconcile_def resolve_edges_for_def)
  moreover have "reconciled per cur delta modified new (note_links (map file_path per) (set old)) ?u"
    using P(1,3,4,5) E \<open>deleted delta = []\<close> links(2) paths(1)
    by (simp add: reconciled_def notes_to_upsert_def links_reported_def)
  ultimately show ?thesis by blast
qed

lemma reconcile_paths:
  assumes cur: "vault parse cur" and asc: "ascending file_path per"
    and new: "parse_notes parse cur = Ok new" "plain_rows note_path new" and mod: "plain_rows note_path modified"
    and repl: "replaced note_path new (file_path ` set (missing_rows cur per)) modified old"
    and ups: "to_upsert (Complete new) (changed_rows per cur) = modified"
    and old: "plain_rows note_path old" and stored: "read_all_notes db st = Ok old"
    and links: "listed key_order m" "edges_of m = edges"
    and differ: "\<not> is_paths_unchanged delta per" and delta: "delta = file_delta_compute cur per"
  shows "\<exists>u. reconcile db \<lparr> plan_store = st, current_files = cur, persisted_files = per, plan_delta = delta \<rparr> modified m
      = Some (Ok u) \<and> reconciled per cur delta modified new edges u"
proof -
  have ascc: "ascending file_path cur" using cur by (auto simp: vault_def plain_rows_def)
  note D = delta_rows [OF ascc asc]
  have merged: "merge_refreshed_notes old delta modified = new"
    using repl new(2) mod old by (intro merge_replaced) (simp_all add: plain_rows_def delta D)
  obtain m' where m': "inlinks_with_resolver new (link_resolver_new cur) = Some m'" "canonical m'"
    "edges_of m' = note_links (map file_path cur) (set new)"
    using inlinks_with_resolver_links [OF ascc vault_placed(1) [OF cur new(1)]] by blast
  let ?u = "\<lparr> update_files = cur, update_delta = delta, update_links = m', update_scope = Complete new,
      update_link_delta = inlink_delta_compute m' m \<rparr>"
  have "reconcile db \<lparr> plan_store = st, current_files = cur, persisted_files = per, plan_delta = delta \<rparr> modified m
      = Some (Ok ?u)"
    using differ stored m'(1) merged by (simp add: reconcile_def merge_stored_def)
  moreover have "listed (<) m'" using m'(2) by (simp add: canonical_listed)
  note I = inlink_delta_any_order [OF this links(1)]
  have "map file_path per \<noteq> map file_path cur" using differ same_paths [OF ascc asc] delta by auto
  then have "links_reported per cur edges (note_links (map file_path cur) (set new)) (inlink_delta_compute m' m)"
    using links m'(2,3) by (auto simp: links_reported_def)
  then have "reconciled per cur delta modified new edges ?u"
    unfolding reconciled_def notes_to_upsert_def
    using I links(2) m'(3) canonical_unordered [OF m'(2)] ups
    by (simp del: to_upsert.simps add: delta D)
  ultimately show ?thesis by blast
qed

lemma changed_apart:
  assumes "vault parse cur" "ascending file_path per" "parse_notes parse (changed_rows per cur) = Ok modified"
  shows "file_path ` set (missing_rows cur per) \<inter> note_path ` set modified = {}"
proof -
  have asc: "ascending file_path cur" using assms(1) by (simp add: vault_def plain_rows_def)
  have sub: "set (changed_rows per cur) \<subseteq> set cur" using delta_rows [OF asc assms(2)] by simp
  have "note_path n \<in> file_path ` set cur" if "n \<in> set modified" for n
  proof -
    from that obtain f where f: "f \<in> set (changed_rows per cur)" "parse f = Ok n"
      using assms(3) by (fastforce simp: parse_notes_Ok parsed_def)
    then have "note_path n = file_path f" "f \<in> set cur" using assms(1) sub by (auto simp: vault_def)
    then show ?thesis by simp
  qed
  moreover have "row_of file_path cur p \<noteq> None" if "p \<in> file_path ` set cur" for p
    using that by (auto simp only: row_of_None)
  ultimately have "p \<notin> file_path ` set (missing_rows cur per)" if "p \<in> note_path ` set modified" for p
    using that by (auto simp only: missing_paths [OF assms(2)])
  then show ?thesis by (simp only: disjoint_iff) blast
qed

section \<open>The refresh against the build\<close>

lemma build_ok:
  assumes "vault parse cur" "parse_notes parse cur = Ok new"
  shows "\<exists>m. build (Ok cur) parse = Some (Ok (assemble cur new m)) \<and> unordered m
    \<and> edges_of m = note_links (map file_path cur) (set new)"
proof -
  have "ascending file_path cur" using assms(1) by (simp add: vault_def plain_rows_def)
  from inlinks_with_resolver_links [OF this vault_placed(1) [OF assms]] canonical_unordered
  show ?thesis using assms(2) by (auto simp: build_def)
qed

text \<open>The store holds the index of the files \<open>per\<close>.\<close>

definition holds_index ::
  "('t, 'm) backend \<Rightarrow> ('t \<Rightarrow> string \<Rightarrow> string option) \<Rightarrow> ('m \<Rightarrow> (string \<times> string) set) \<Rightarrow> string
    \<Rightarrow> ('t, 'm) index_store \<Rightarrow> (file_meta \<Rightarrow> (index_error, md_note) result) \<Rightarrow> file_meta list \<Rightarrow> bool"
where
  "holds_index db rows pairs cls st parse files \<longleftrightarrow> vault parse files \<and> (\<exists>ns. parse_notes parse files = Ok ns
     \<and> in_sync db rows pairs cls (store_tables st) files ns (note_links (map file_path files) (set ns)))"

definition refresh_outcome ::
  "('t, 'm) backend \<Rightarrow> ('t \<Rightarrow> string \<Rightarrow> string option) \<Rightarrow> ('m \<Rightarrow> (string \<times> string) set) \<Rightarrow> string
    \<Rightarrow> ('t, 'm) index_store \<Rightarrow> (file_meta \<Rightarrow> (index_error, md_note) result) \<Rightarrow> file_meta list
    \<Rightarrow> (index_error, workspace_index \<times> refresh_report) result \<Rightarrow> ('t, 'm) index_store \<Rightarrow> bool"
where
  "refresh_outcome db rows pairs cls st parse cur result st' \<longleftrightarrow>
     (\<forall>index report. result = Ok (index, report) \<longrightarrow>
        (\<exists>fresh. build (Ok cur) parse = Some (Ok fresh) \<and> list_all2 same_entry index fresh))
   \<and> (st' = st \<or> holds_index db rows pairs cls st' parse cur)"

lemma outcome_err: "refresh_outcome db rows pairs cls st parse cur (Err e) st"
  by (simp add: refresh_outcome_def)

lemma outcome_index:
  assumes "vault parse cur" "parse_notes parse cur = Ok new" "unordered m"
    "edges_of m = note_links (map file_path cur) (set new)" "ascending note_path new"
  shows "\<exists>fresh. build (Ok cur) parse = Some (Ok fresh) \<and> list_all2 same_entry (assemble cur new m) fresh"
proof -
  obtain mb where mb: "build (Ok cur) parse = Some (Ok (assemble cur new mb))" "unordered mb"
    "edges_of mb = note_links (map file_path cur) (set new)" using build_ok [OF assms(1,2)] by blast
  have "ascending file_path cur" using assms(1) by (simp add: vault_def plain_rows_def)
  from assemble_same [OF this assms(5,3) mb(2)] assms(4) mb(1,3) show ?thesis by auto
qed

lemma pending_store:
  assumes ok: "backend_ok db rows pairs"
    and plain: "plain_change per old delta modified cur new" and change: "change_of per old delta modified cur new"
    and sync: "in_sync db rows pairs cls (store_tables st) per old edges"
    and within: "plain_edges edges" and some: "\<not> file_delta_is_empty delta"
    and u: "reconciled per cur delta modified new edges u"
    and run: "apply_pending db st u cls = (persisted, st')"
  shows "case persisted of Inl e \<Rightarrow> st' = st
    | Inr _ \<Rightarrow> in_sync db rows pairs cls (store_tables st') cur new (note_links (map file_path cur) (set new))"
proof -
  have U: "update_delta u = delta" "notes_to_upsert u = modified"
    "set (links_deleted (update_link_delta u)) \<subseteq> edges"
    "edges - set (links_deleted (update_link_delta u)) \<union> set (links_upserted (update_link_delta u))
      = note_links (map file_path cur) (set new)"
    using u by (simp_all add: reconciled_def)
  show ?thesis
  proof (cases "persist_tables db st (for_class_field cls) (Incremental delta modified (update_link_delta u))")
    case (Inl e)
    then show ?thesis using run by (auto simp: apply_pending_def persist_def U)
  next
    case (Inr tabs)
    then have st': "st' = st \<lparr> store_tables := tabs \<rparr>" and committed: "persisted = Ok ()"
      using run by (auto simp: apply_pending_def persist_def U)
    have inc: "apply_incremental db st (for_class_field cls) delta modified (update_link_delta u) = Ok tabs"
      using Inr some by (simp add: persist_tables_def)
    have "plain_edges (set (links_deleted (update_link_delta u)))"
      using within U(3) by (auto simp: plain_edges_def)
    from apply_incremental_in_sync [OF ok sync plain change within this inc]
    show ?thesis unfolding U(4) by (simp add: st' committed)
  qed
qed

lemma outcome_stale:
  assumes ok: "backend_ok db rows pairs"
    and cur: "vault parse cur" and new: "parse_notes parse cur = Ok new"
    and plain: "plain_change per old delta modified cur new" and change: "change_of per old delta modified cur new"
    and sync: "in_sync db rows pairs cls (store_tables st) per old edges"
    and within: "plain_edges edges" and apart: "file_path ` set (deleted delta) \<inter> note_path ` set modified = {}"
    and some: "\<not> file_delta_is_empty delta"
    and u: "reconciled per cur delta modified new edges u"
    and run: "apply_pending db st u cls = (persisted, st')"
  shows "refresh_outcome db rows pairs cls st parse cur
    (and_then (into_index db st' u) (\<lambda>index. Ok (index, update_report u))) st'"
proof -
  let ?E = "note_links (map file_path cur) (set new)"
  have U: "update_files u = cur" "update_delta u = delta" "notes_to_upsert u = modified"
    "update_scope u = Complete new \<or> update_scope u = Modified modified \<and> deleted delta = []"
    "unordered (update_links u)" "edges_of (update_links u) = ?E"
    using u by (simp_all add: reconciled_def)
  have asc: "ascending note_path new" "ascending note_path modified" "ascending note_path old"
    and repl: "replaced note_path new (file_path ` set (deleted delta)) modified old"
    using plain change by (simp_all add: plain_change_def plain_rows_def change_of_def)
  have store: "st' = st \<or> in_sync db rows pairs cls (store_tables st') cur new ?E"
    using pending_store [OF ok plain change sync within some u run] by (auto split: sum.splits)
  have stored: "stored = new \<or> stored = old" if read: "read_all_notes db st' = Ok stored" for stored
    using store
  proof
    assume eq: "st' = st"
    have "rows_in_sync db rows (store_tables st') per old" "plain_rows note_path old"
      using eq sync plain by (simp_all add: in_sync_def plain_change_def)
    from read_all_notes_in_sync [OF ok this read] show ?thesis by simp
  next
    assume "in_sync db rows pairs cls (store_tables st') cur new ?E"
    then have "rows_in_sync db rows (store_tables st') cur new" "plain_rows note_path new"
      using plain by (simp_all add: in_sync_def plain_change_def)
    from read_all_notes_in_sync [OF ok this read] show ?thesis by simp
  qed
  have resolved: "ns = new" if scope: "resolve_scope db st' delta (update_scope u) = Ok ns" for ns
    using U(4)
  proof
    assume "update_scope u = Complete new"
    with scope show ?thesis by simp
  next
    assume "update_scope u = Modified modified \<and> deleted delta = []"
    then obtain stored' where s: "read_all_notes db st' = Ok stored'" "ns = merge_refreshed_notes stored' delta modified"
      using scope by (auto simp: merge_stored_def and_then_eq_Ok)
    have "replaced note_path new (file_path ` set (deleted delta)) modified new"
      by (rule replaced_again [OF repl apart])
    then show ?thesis using stored [OF s(1)] merge_replaced [OF repl asc] merge_replaced [OF _ asc(1,2,1)]
      unfolding s(2) by blast
  qed
  have "\<exists>fresh. build (Ok cur) parse = Some (Ok fresh) \<and> list_all2 same_entry index fresh"
    if "and_then (into_index db st' u) (\<lambda>index. Ok (index, update_report u)) = Ok (index, report)" for index report
  proof -
    have "index = assemble cur new (update_links u)"
      using that resolved by (auto simp: into_index_def and_then_eq_Ok U)
    with outcome_index [OF cur new U(5,6) asc(1)] show ?thesis by simp
  qed
  moreover have "st' = st \<or> holds_index db rows pairs cls st' parse cur"
    using store cur new by (auto simp: holds_index_def)
  ultimately show ?thesis unfolding refresh_outcome_def by blast
qed

text \<open>What a pass finds: the first error, an unchanged vault, or an update that leads from the stored
  index to the index of the scan.\<close>

lemma prepare_pass_cases:
  assumes ok: "backend_ok db rows pairs" and cur: "vault parse cur"
    and held: "holds_index db rows pairs cls st parse0 per" and same: "\<forall>f\<in>set cur \<inter> set per. parse f = parse0 f"
  obtains (failed) e where "prepare_pass db (Ok st) (Ok cur) parse = Some (Err e)"
  | (fresh) old where "prepare_pass db (Ok st) (Ok cur) parse = Some (Ok (Fresh st cur))"
      "parse_notes parse cur = Ok old"
      "in_sync db rows pairs cls (store_tables st) cur old (note_links (map file_path cur) (set old))" "cur = per"
      "parse_notes parse0 per = Ok old"
  | (stale) old modified new edges u where "prepare_pass db (Ok st) (Ok cur) parse = Some (Ok (Stale st u))"
      "parse_notes parse cur = Ok new"
      "plain_change per old (file_delta_compute cur per) modified cur new"
      "change_of per old (file_delta_compute cur per) modified cur new"
      "in_sync db rows pairs cls (store_tables st) per old edges" "plain_edges edges"
      "file_path ` set (deleted (file_delta_compute cur per)) \<inter> note_path ` set modified = {}"
      "\<not> file_delta_is_empty (file_delta_compute cur per)"
      "reconciled per cur (file_delta_compute cur per) modified new edges u"
      "parse_notes parse0 per = Ok old" "edges = note_links (map file_path per) (set old)"
proof -
  let ?delta = "file_delta_compute cur per"
  obtain old where per: "vault parse0 per" and old: "parse_notes parse0 per = Ok old"
    and sync: "in_sync db rows pairs cls (store_tables st) per old (note_links (map file_path per) (set old))"
    using held by (auto simp: holds_index_def)
  let ?E = "note_links (map file_path per) (set old)"
  have asc: "ascending file_path cur" "ascending file_path per" using cur per by (auto simp: vault_def plain_rows_def)
  note D = delta_rows [OF asc]
  have rows: "rows_in_sync db rows (store_tables st) per old"
    and stored: "opt_pairs pairs (links_table (store_tables st)) = link_image ?E"
    using sync by (simp_all add: in_sync_def)
  have within: "links_within per ?E" by (rule vault_placed(2) [OF per old])
  have plain_old: "plain_rows note_path old" by (rule parse_notes_rows(1) [OF per subset_refl asc(2) old])
  note notes_read = read_all_notes_in_sync [OF ok rows plain_old]
  note links_read = read_all_links_in_sync [OF ok vault_plain [OF per] within stored]
  show ?thesis
  proof (cases "read_all_files db st")
    case (Inl e)
    then show ?thesis by (intro failed [of e]) (simp add: prepare_pass_def collect_plan_def)
  next
    case (Inr fs)
    let ?plan = "\<lparr> plan_store = st, current_files = cur, persisted_files = per, plan_delta = ?delta \<rparr>"
    have plan: "collect_plan db (Ok st) (Ok cur) = Ok ?plan"
      using Inr read_all_files_in_sync [OF ok rows vault_plain [OF per] Inr] by (simp add: collect_plan_def)
    show ?thesis
    proof (cases "file_delta_is_empty ?delta")
      case True
      then have "cur = per" using nothing_changed [OF asc] by (simp add: file_delta_is_empty_def D)
      then have "parse_notes parse cur = Ok old"
        using old same by (auto simp: parse_notes_Ok parsed_def intro!: map_cong)
      moreover have "prepare_pass db (Ok st) (Ok cur) parse = Some (Ok (Fresh st cur))"
        using True by (simp add: prepare_pass_def plan) (simp add: \<open>cur = per\<close>)
      ultimately show ?thesis using sync fresh old \<open>cur = per\<close> by blast
    next
      case some: False
      show ?thesis
      proof (cases "and_then (parse_notes parse (upserted ?delta)) (\<lambda>modified.
          and_then (read_all_links db st per) (\<lambda>links. Ok (modified, links)))")
        case (Inl e)
        then show ?thesis using some by (intro failed [of e]) (simp add: prepare_pass_def plan)
      next
        case (Inr ml)
        then obtain modified m where m: "parse_notes parse (upserted ?delta) = Ok modified" "read_all_links db st per = Ok m"
          "ml = (modified, m)" by (auto simp: and_then_eq_Ok)
        note L = links_read [OF m(2)]
        obtain new where new: "parse_notes parse cur = Ok new" "plain_rows note_path new" "plain_rows note_path modified"
          "replaced note_path new (file_path ` set (missing_rows cur per)) modified old"
          "to_upsert (Complete new) (changed_rows per cur) = modified"
          using refreshed_notes [OF cur per same old] m(1) unfolding D(1) by blast
        consider (err) e where "reconcile db ?plan modified m = Some (Err e)"
          | (update) u where "reconcile db ?plan modified m = Some (Ok u)" "reconciled per cur ?delta modified new ?E u"
        proof (cases "is_paths_unchanged ?delta per")
          case True
          from reconcile_content [OF cur per new(1-4) plain_old conjunct1 [OF L] conjunct2 [OF L] True refl]
          show ?thesis using that by blast
        next
          case paths: False
          show ?thesis
          proof (cases "read_all_notes db st")
            case (Inl e)
            with paths show ?thesis by (intro that(1) [of e]) (simp add: reconcile_def merge_stored_def)
          next
            case (Inr stored_notes)
            then have "read_all_notes db st = Ok old" using notes_read by simp
            from reconcile_paths [OF cur asc(2) new(1-5) plain_old this conjunct1 [OF L] conjunct2 [OF L] paths refl]
            show ?thesis using that by blast
          qed
        qed
        then show ?thesis
        proof cases
          case err
          then show ?thesis using some Inr m(3) by (intro failed [of e]) (simp add: prepare_pass_def plan)
        next
          case update
          have "plain_change per old ?delta modified cur new"
            using vault_plain [OF per] vault_plain [OF cur] plain_old new(2,3) D(3-5)
            by (auto simp: plain_change_def plain_rows_def D(1,2))
          moreover have "change_of per old ?delta modified cur new"
            using new(4) replaced_files [OF asc] by (simp add: change_of_def D(1,2))
          moreover have "file_path ` set (deleted ?delta) \<inter> note_path ` set modified = {}"
            using changed_apart [OF cur asc(2) m(1) [unfolded D(1)]] by (simp add: D(2))
          moreover have "prepare_pass db (Ok st) (Ok cur) parse = Some (Ok (Stale st u))"
            using some Inr m(3) update(1) by (simp add: prepare_pass_def plan)
          ultimately show ?thesis
            using stale new(1) sync links_within_plain [OF vault_plain [OF per] within] some update(2) old by blast
        qed
      qed
    qed
  qed
qed

lemma refresh_core:
  assumes ok: "backend_ok db rows pairs" and cur: "vault parse cur"
    and held: "holds_index db rows pairs cls st parse0 per" and same: "\<forall>f\<in>set cur \<inter> set per. parse f = parse0 f"
  shows "\<exists>result st'. refresh_with_report db cls (Ok st) (Ok cur) parse = Some (result, Some st')
    \<and> refresh_outcome db rows pairs cls st parse cur result st'"
  using ok cur held same
proof (cases rule: prepare_pass_cases)
  case (failed e)
  then show ?thesis using outcome_err by (auto simp: refresh_with_report_def)
next
  case (fresh old)
  have rows: "rows_in_sync db rows (store_tables st) cur old"
    and stored: "opt_pairs pairs (links_table (store_tables st)) = link_image (note_links (map file_path cur) (set old))"
    using fresh(3) by (simp_all add: in_sync_def)
  have "ascending file_path cur" using cur by (simp add: vault_def plain_rows_def)
  from parse_notes_rows(1) [OF cur subset_refl this fresh(2)] have plain_old: "plain_rows note_path old" .
  have "refresh_outcome db rows pairs cls st parse cur (assemble_unchanged db st cur) st"
    unfolding refresh_outcome_def
  proof (intro conjI allI impI disjI1 refl)
    fix index report assume "assemble_unchanged db st cur = Ok (index, report)"
    then obtain m where m: "index = assemble cur old m" "read_all_links db st cur = Ok m"
      using read_all_notes_in_sync [OF ok rows plain_old] by (auto simp: assemble_unchanged_def and_then_eq_Ok)
    note L = read_all_links_in_sync [OF ok vault_plain [OF cur] vault_placed(2) [OF cur fresh(2)] stored m(2)]
    show "\<exists>fresh. build (Ok cur) parse = Some (Ok fresh) \<and> list_all2 same_entry index fresh"
      using outcome_index [OF cur fresh(2) listed_unordered [OF conjunct1 [OF L]] conjunct2 [OF L]] plain_old
      by (simp add: m(1) plain_rows_def)
  qed
  then show ?thesis using fresh(1) by (simp add: refresh_with_report_def)
next
  case (stale old modified new edges u)
  obtain persisted st' where p: "apply_pending db st u cls = (persisted, st')" by fastforce
  have "refresh_with_report db cls (Ok st) (Ok cur) parse
    = Some (and_then (into_index db st' u) (\<lambda>index. Ok (index, update_report u)), Some st')"
    using stale(1) p by (simp add: refresh_with_report_def)
  with outcome_stale [OF ok cur stale(2-9) p] show ?thesis by blast
qed

end
