(* ===== verification/Memory_Backend.thy ===== *)
theory Memory_Backend
  imports Store_Contents
begin

text \<open>
  An executable instance of the database interface: association lists for the row tables, lists of
  pairs for the multimaps, and a codec that numbers the rows of two fixed lists.  It satisfies
  \<open>backend_ok\<close>, so the theorems about the store can be evaluated on it.
\<close>

definition number_of :: "'a list \<Rightarrow> 'a \<Rightarrow> string option" where
  "number_of xs x = (if x \<in> set xs then Some (replicate (length (takeWhile (\<lambda>y. y \<noteq> x) xs)) (CHR ''x'')) else None)"

definition numbered :: "'a list \<Rightarrow> string \<Rightarrow> 'a option" where
  "numbered xs bytes = slice_get xs (length bytes)"

lemma numbered_number_of: "number_of xs x = Some bytes \<Longrightarrow> numbered xs bytes = Some x"
proof -
  assume "number_of xs x = Some bytes"
  then have "x \<in> set xs" "length bytes = length (takeWhile (\<lambda>y. y \<noteq> x) xs)"
    by (auto simp: number_of_def split: if_splits)
  moreover have "length (takeWhile (\<lambda>y. y \<noteq> x) xs) < length xs" if "x \<in> set xs"
    using that by (induction xs) auto
  moreover have "xs ! length (takeWhile (\<lambda>y. y \<noteq> x) xs) = x" if "x \<in> set xs"
    using that by (induction xs) auto
  ultimately show ?thesis by (simp add: numbered_def slice_get_def)
qed

definition values_at :: "(string \<times> string) list \<Rightarrow> string \<Rightarrow> string list" where
  "values_at m k = sort (remdups (map snd (filter (\<lambda>e. fst e = k) m)))"

lemma values_at_spec: "sorted_wrt (<) (values_at m k)" "set (values_at m k) = {v. (k, v) \<in> set m}"
  by (force simp: values_at_def strict_sorted_iff)+

type_synonym memory_table = "(string \<times> string) list"

definition memory_db :: "file_meta list \<Rightarrow> md_note list \<Rightarrow> (memory_table, memory_table) backend" where
  "memory_db files ns = \<lparr>
     begin_read = (\<lambda>_. Ok ()), begin_write = (\<lambda>_. Ok ()), set_durability = (\<lambda>_. Ok ()),
     commit_txn = (\<lambda>_. Ok ()),
     row_open = (\<lambda>t. Ok (case t of None \<Rightarrow> [] | Some t \<Rightarrow> t)),
     row_get = (\<lambda>t k. Ok (map_of t k)),
     row_iter = (\<lambda>t. Ok (AList.clearjunk t)),
     row_range = (\<lambda>t lo hi. Ok (filter (\<lambda>e. lo \<le> fst e \<and> fst e < hi) (AList.clearjunk t))),
     row_insert = (\<lambda>t k v. Ok (AList.update k v t)),
     row_remove = (\<lambda>t k. Ok (AList.delete k t)),
     row_delete = (\<lambda>_. Inr ()),
     multi_open = (\<lambda>m. Ok (case m of None \<Rightarrow> [] | Some m \<Rightarrow> m)),
     multi_get = (\<lambda>m k. Ok (values_at m k)),
     multi_iter = (\<lambda>m. Ok (map (\<lambda>k. (k, values_at m k)) (remdups (map fst m)))),
     multi_insert = (\<lambda>m k v. Ok ((k, v) # m)),
     multi_remove = (\<lambda>m k v. Ok (removeAll (k, v) m)),
     multi_remove_all = (\<lambda>m k. Ok (filter (\<lambda>e. fst e \<noteq> k) m)),
     multi_delete = (\<lambda>_. Inr ()),
     enc_file = number_of files, dec_file = numbered files,
     enc_note = number_of ns, dec_note = numbered ns,
     text_lowercase = (\<lambda>s. s),
     unicode_tables = \<lparr> wide_alphabetic = (\<lambda>_. False), wide_alphanumeric = (\<lambda>_. False),
       wide_lowercase = (\<lambda>s. s) \<rparr> \<rparr>"

lemma map_of_filter_keys:
  "distinct (map fst es) \<Longrightarrow> map_of (filter (\<lambda>e. P (fst e)) es) k = (if P k then map_of es k else None)"
  by (induction es) (auto simp: map_of_eq_None_iff image_iff)

lemma memory_multi_iter:
  "distinct (map fst (map (\<lambda>k. (k, values_at m k)) (remdups (map fst m))))"
  "(k, vs) \<in> set (map (\<lambda>k. (k, values_at m k)) (remdups (map fst m))) \<Longrightarrow> vs \<noteq> [] \<and> sorted_wrt (<) vs"
  "set m = {(k, v). \<exists>vs. (k, vs) \<in> set (map (\<lambda>k. (k, values_at m k)) (remdups (map fst m))) \<and> v \<in> set vs}"
proof -
  show "distinct (map fst (map (\<lambda>k. (k, values_at m k)) (remdups (map fst m))))" by (simp add: comp_def)
  assume "(k, vs) \<in> set (map (\<lambda>k. (k, values_at m k)) (remdups (map fst m)))"
  then have vs: "vs = values_at m k" and "k \<in> fst ` set m" by auto
  then have "set vs \<noteq> {}" by (auto simp: values_at_spec)
  with values_at_spec(1) show "vs \<noteq> [] \<and> sorted_wrt (<) vs" by (auto simp: vs)
next
  show "set m = {(k, v). \<exists>vs. (k, vs) \<in> set (map (\<lambda>k. (k, values_at m k)) (remdups (map fst m))) \<and> v \<in> set vs}"
    by (force simp: values_at_spec)
qed

lemma memory_db_ok: "backend_ok (memory_db files ns) map_of set"
proof -
  have range: "map_of (filter (\<lambda>e. lo \<le> fst e \<and> fst e < hi) (AList.clearjunk t))
      = (\<lambda>k. if lo \<le> k \<and> k < hi then map_of t k else None)" for lo hi and t :: memory_table
    using map_of_filter_keys [OF distinct_clearjunk, of "\<lambda>k. lo \<le> k \<and> k < hi" t]
    by (intro ext) (simp add: map_of_clearjunk)
  have range_distinct: "distinct (map fst (filter (\<lambda>e. lo \<le> fst e \<and> fst e < hi) (AList.clearjunk t)))"
    for lo hi and t :: memory_table
    by (rule distinct_map_filter [OF distinct_clearjunk])
  have iter: "distinct (map fst es) \<and> (\<forall>(k, vs)\<in>set es. vs \<noteq> [] \<and> sorted_wrt (<) vs)
      \<and> set m = {(k, v). \<exists>vs. (k, vs) \<in> set es \<and> v \<in> set vs}"
    if "es = map (\<lambda>k. (k, values_at m k)) (remdups (map fst m))" for es m
    using memory_multi_iter(1) [of m] memory_multi_iter(2) [of _ _ m] memory_multi_iter(3) [of m]
    unfolding that by fast
  show ?thesis
    unfolding backend_ok_def
  proof (intro conjI)
    show "\<forall>m es. multi_iter (memory_db files ns) m = Ok es \<longrightarrow> distinct (map fst es)
        \<and> (\<forall>(k, vs)\<in>set es. vs \<noteq> [] \<and> sorted_wrt (<) vs)
        \<and> set m = {(k, v). \<exists>vs. (k, vs) \<in> set es \<and> v \<in> set vs}"
      by (intro allI impI iter) (simp add: memory_db_def)
  qed (simp_all add: memory_db_def opt_rows_def opt_pairs_def map_of_clearjunk distinct_clearjunk range
      range_distinct values_at_spec update_conv' delete_conv' numbered_number_of set_eq_iff
      filter_eq_Cons_iff split: option.split)
qed

definition empty_store :: "(memory_table, memory_table) index_store" where
  "empty_store = \<lparr> store_path = [Normal ''index''], store_tables =
     \<lparr> files_table = None, notes_table = None, links_table = None, paths_by_tag = None,
       paths_by_class = None, tags_by_path = None, classes_by_path = None \<rparr> \<rparr>"

lemma empty_store_in_sync: "in_sync (memory_db files ns) map_of set cls (store_tables empty_store) [] [] {}"
  by (simp add: in_sync_def rows_in_sync_def axes_in_sync_def empty_store_def row_image_def link_image_def
      for_class_field_def axis_image_def)

end
