(* ===== verification/Index_Service.thy ===== *)
theory Index_Service
  imports Refresh Memory_Backend
begin

text \<open>
  What the index service promises its callers, over every database that satisfies
  \<open>backend_ok\<close>: a refresh agrees with a build, the store follows the vault, what was persisted is
  loaded back, and the path queries answer from the tables what the notes say.
\<close>

section \<open>A built index as rows\<close>

lemma joined_notes:
  assumes "ascending file_path files" "ascending note_path ns" "note_path ` set ns \<subseteq> file_path ` set files"
  shows "entry_notes (map (joined_entry ns m) files) = ns"
proof -
  have "entry_notes (map (joined_entry ns m) fs) = List.map_filter (\<lambda>f. row_of note_path ns (file_path f)) fs" for fs
    by (induction fs) (auto simp: entry_notes_def List.map_filter_def joined_entry_def)
  moreover have "ascending note_path (List.map_filter (\<lambda>f. row_of note_path ns (file_path f)) fs)"
    if "ascending file_path fs" for fs
    using that
  proof (induction fs)
    case (Cons f fs)
    let ?g = "\<lambda>f. row_of note_path ns (file_path f)"
    have later: "file_path f < note_path n" if n: "n \<in> set (List.map_filter ?g fs)" for n
    proof -
      obtain g where g: "g \<in> set fs" "?g g = Some n" using n by (auto simp: List.map_filter_def)
      then show ?thesis using Cons.prems row_of_SomeD [OF g(2)] by simp
    qed
    have ih: "ascending note_path (List.map_filter ?g fs)" using Cons.IH Cons.prems by simp
    show ?case
    proof (cases "?g f")
      case None
      then show ?thesis using ih by (simp add: List.map_filter_simps)
    next
      case (Some n)
      have "note_path n = file_path f" using row_of_SomeD [OF Some] by simp
      then show ?thesis using ih later by (simp add: List.map_filter_simps Some)
    qed
  qed (simp add: List.map_filter_simps)
  moreover have "set (List.map_filter (\<lambda>f. row_of note_path ns (file_path f)) files) = set ns"
  proof (rule set_eqI)
    fix n
    have "n \<in> set (List.map_filter (\<lambda>f. row_of note_path ns (file_path f)) files)
        \<longleftrightarrow> (\<exists>f\<in>set files. row_of note_path ns (file_path f) = Some n)"
      by (induction files) (auto simp: List.map_filter_simps split: option.split)
    also have "\<dots> \<longleftrightarrow> n \<in> set ns \<and> note_path n \<in> file_path ` set files"
      unfolding row_of_eq_Some [OF assms(2)] by auto
    also have "\<dots> \<longleftrightarrow> n \<in> set ns" using assms(3) by blast
    finally show "n \<in> set (List.map_filter (\<lambda>f. row_of note_path ns (file_path f)) files) \<longleftrightarrow> n \<in> set ns" .
  qed
  ultimately show ?thesis using assms(1) by (intro ascending_eqI [OF _ assms(2)]) simp_all
qed

lemma joined_selectors:
  "entry_file (joined_entry ns m f) = f" "entry_inlinks (joined_entry ns m f) = inlinks_of m (file_path f)"
  by (simp_all add: joined_entry_def inlinks_of_def)

lemma entry_edges_simps:
  "entry_edges [] = {}"
  "entry_edges (e # es) = Pair (file_path (entry_file e)) ` set (entry_inlinks e) \<union> entry_edges es"
  by (auto simp: entry_edges_def)

lemma joined_files: "map entry_file (map (joined_entry ns m) files) = files"
  by (induction files) (simp_all add: joined_entry_def)

lemma joined_edges:
  assumes "fst ` edges_of m \<subseteq> file_path ` set files"
  shows "entry_edges (map (joined_entry ns m) files) = edges_of m"
proof (rule set_eqI, unfold split_paired_all)
  fix t s
  have "(t, s) \<in> entry_edges (map (joined_entry ns m) fs) \<longleftrightarrow> t \<in> file_path ` set fs \<and> s \<in> set (inlinks_of m t)" for fs
    by (induction fs) (auto simp: entry_edges_simps joined_selectors)
  also have "t \<in> file_path ` set files \<and> s \<in> set (inlinks_of m t) \<longleftrightarrow> (t, s) \<in> edges_of m"
    unfolding edges_of_inlinks [symmetric] using subsetD [OF assms, of t] by (metis fst_conv imageI)
  finally show "(t, s) \<in> entry_edges (map (joined_entry ns m) files) \<longleftrightarrow> (t, s) \<in> edges_of m" .
qed

lemma build_rows:
  assumes "vault parse cur" "build (Ok cur) parse = Some (Ok index)"
  obtains ns m where "parse_notes parse cur = Ok ns" "index = assemble cur ns m" "plain_entries index"
    "map entry_file index = cur" "entry_notes index = ns" "unordered m"
    "edges_of m = note_links (map file_path cur) (set ns)"
    "entry_edges index = note_links (map file_path cur) (set ns)"
proof -
  obtain ns where ns: "parse_notes parse cur = Ok ns" using assms(2) by (auto simp: build_def split: sum.splits)
  obtain m where m: "index = assemble cur ns m" "unordered m"
    "edges_of m = note_links (map file_path cur) (set ns)"
    using build_ok [OF assms(1) ns] assms(2) by auto
  have asc: "ascending file_path cur" and plain: "plain_rows file_path cur"
    using assms(1) by (simp_all add: vault_def plain_rows_def)
  note rows = parse_notes_rows [OF assms(1) subset_refl asc ns]
  have asc_ns: "ascending note_path ns" using rows(1) by (simp add: plain_rows_def)
  have "note_path n \<in> file_path ` set cur" if n: "n \<in> set ns" for n
  proof -
    have "row_of note_path ns (note_path n) = Some n" by (rule row_of_in [OF asc_ns n])
    then obtain f where "row_of file_path cur (note_path n) = Some f"
      by (auto simp: rows(2) note_row_def split: option.splits)
    from row_of_SomeD [OF this] show ?thesis by (metis image_eqI)
  qed
  then have "note_path ` set ns \<subseteq> file_path ` set cur" by blast
  note J = joined_notes [OF asc asc_ns this]
  have index: "index = map (joined_entry ns m) cur" unfolding m(1) by (rule assemble_join [OF asc asc_ns])
  have "fst ` edges_of m \<subseteq> file_path ` set cur"
    using vault_placed(2) [OF assms(1) ns] by (force simp: m(3) links_within_def)
  from joined_edges [OF this] have "entry_edges index = edges_of m" by (simp only: index)
  then show ?thesis
    using that [OF ns m(1) _ _ _ m(2,3)] J [of m] joined_files [of ns m cur] rows(1) plain
    by (simp add: index plain_entries_def m(3))
qed

lemma persist_index_rows:
  assumes ok: "backend_ok db rows pairs" and cur: "vault parse cur" "build (Ok cur) parse = Some (Ok index)"
    and run: "persist_index db cls st index = (r, st')"
  shows "case r of Inl e \<Rightarrow> st' = st | Inr _ \<Rightarrow> holds_index db rows pairs cls st' parse cur"
proof -
  obtain ns m where b: "parse_notes parse cur = Ok ns" "plain_entries index" "map entry_file index = cur"
    "entry_notes index = ns" "entry_edges index = note_links (map file_path cur) (set ns)"
    using build_rows [OF cur] by metis
  show ?thesis
  proof (cases "apply_rebuild db st index (for_class_field cls)")
    case (Inl e)
    then show ?thesis using run by (auto simp: persist_index_def persist_def persist_tables_def)
  next
    case (Inr tabs)
    then have "r = Ok ()" "st' = st \<lparr> store_tables := tabs \<rparr>"
      using run by (auto simp: persist_index_def persist_def persist_tables_def)
    with apply_rebuild_in_sync [OF ok b(2) Inr] b cur(1) show ?thesis by (auto simp: holds_index_def)
  qed
qed

lemma read_all_in_sync:
  assumes ok: "backend_ok db rows pairs" and held: "holds_index db rows pairs cls st parse cur"
    and run: "read_all db st = Ok (files, ns, m)"
  shows "files = cur" "parse_notes parse cur = Ok ns" "listed key_order m"
    "edges_of m = note_links (map file_path cur) (set ns)"
proof -
  obtain old where cur: "vault parse cur" and old: "parse_notes parse cur = Ok old"
    and sync: "in_sync db rows pairs cls (store_tables st) cur old (note_links (map file_path cur) (set old))"
    using held by (auto simp: holds_index_def)
  have rows: "rows_in_sync db rows (store_tables st) cur old"
    and stored: "opt_pairs pairs (links_table (store_tables st)) = link_image (note_links (map file_path cur) (set old))"
    using sync by (simp_all add: in_sync_def)
  have plain: "plain_rows file_path cur" by (rule vault_plain [OF cur])
  then have "ascending file_path cur" by (simp add: plain_rows_def)
  from parse_notes_rows(1) [OF cur subset_refl this old] have plain_old: "plain_rows note_path old" .
  have r: "read_all_files db st = Ok files" "read_all_notes db st = Ok ns"
    "read_links db st (path_by_key (map file_path files)) (path_by_key (map note_path ns)) = Ok m"
    using run by (auto simp: read_all_def read_all_files_def read_all_notes_def and_then_eq_Ok)
  show files: "files = cur" by (rule read_all_files_in_sync [OF ok rows plain r(1)])
  have ns: "ns = old" by (rule read_all_notes_in_sync [OF ok rows plain_old r(2)])
  then show "parse_notes parse cur = Ok ns" using old by simp
  have "note_links (map file_path cur) (set old) \<subseteq> set (map file_path cur) \<times> set (map note_path old)"
    using vault_placed(2) [OF cur old] by (auto simp: links_within_def note_links_def)
  from read_links_in_sync [OF ok _ _ this stored r(3) [unfolded files ns]] plain plain_old
  have "listed key_order m \<and> edges_of m = note_links (map file_path cur) (set old)" by (simp add: plain_rows_def)
  then show "listed key_order m" "edges_of m = note_links (map file_path cur) (set ns)" using ns by simp_all
qed

section \<open>Refreshes\<close>

text \<open>A sample vault of two notes, of which one links to the other, and its database.\<close>

definition sample_vault :: "file_meta list" where
  "sample_vault = [sample_file ''a.md'' 1, sample_file ''b.md'' 2]"

definition sample_parse :: "file_meta \<Rightarrow> (index_error, md_note) result" where
  "sample_parse f = (if file_path f = [Normal ''b.md''] then Ok (linking_note ''b.md'' ''a'')
     else if file_path f = [Normal ''a.md''] then Ok (sample_note ''a.md'')
     else Err (NoteParseFailed (file_path f) ''unexpected''))"

definition sample_db :: "(memory_table, memory_table) backend" where
  "sample_db = memory_db sample_vault [sample_note ''a.md'', linking_note ''b.md'' ''a'']"

lemma sample_db_ok: "backend_ok sample_db map_of set"
  unfolding sample_db_def by (rule memory_db_ok)

lemma sample_vault_ok: "vault sample_parse sample_vault"
proof -
  have plain: "ascending file_path sample_vault" by code_simp
  have formats: "list_all (\<lambda>f. file_format_of f = format_from_path (file_path f)) sample_vault" by code_simp
  show ?thesis
    unfolding vault_def plain_rows_def using plain formats
    by (simp add: sample_vault_def sample_file_def sample_parse_def linking_note_def sample_note_def
        plain_path_def plain_component_def well_placed_def usize_max_def)
qed

lemma sample_store_empty: "holds_index sample_db map_of set ''class'' empty_store sample_parse []"
  using empty_store_in_sync by (simp add: holds_index_def vault_def plain_rows_def parse_notes_def
      sample_db_def note_links_def)

text \<open>C1. A refresh of a store that holds the index of an earlier scan returns, whatever the database
  does, and an index it returns equals the index that a full build of the current files makes: the
  same files and notes in the same order, each with the same inbound links (as a multiset; the order
  of the links is that of the store's keys).  A file whose metadata did not change is taken to parse
  as it did.\<close>

theorem refresh_agrees_with_build:
  assumes "backend_ok db rows pairs" "vault parse cur" "holds_index db rows pairs cls st parse0 per"
    "\<forall>f\<in>set cur \<inter> set per. parse f = parse0 f"
  shows "\<exists>result st'. refresh_with_report db cls (Ok st) (Ok cur) parse = Some (result, Some st')
    \<and> (\<forall>index report. result = Ok (index, report) \<longrightarrow>
        (\<exists>fresh. build (Ok cur) parse = Some (Ok fresh) \<and> list_all2 same_entry index fresh))"
  using refresh_core [OF assms] unfolding refresh_outcome_def by blast

theorem refresh_agrees_with_build_witness:
  "\<exists>result st'. refresh_with_report sample_db ''class'' (Ok empty_store) (Ok sample_vault) sample_parse
      = Some (result, Some st')
    \<and> (\<forall>index report. result = Ok (index, report) \<longrightarrow>
        (\<exists>fresh. build (Ok sample_vault) sample_parse = Some (Ok fresh) \<and> list_all2 same_entry index fresh))"
  by (rule refresh_agrees_with_build [OF sample_db_ok sample_vault_ok sample_store_empty]) simp

text \<open>C3. After any refresh the store still holds the index of a scan: either it is untouched, or its
  seven tables hold the files, the notes, the link edges and both axes of the current vault, and
  nothing else.\<close>

theorem refresh_keeps_store:
  assumes "backend_ok db rows pairs" "vault parse cur" "holds_index db rows pairs cls st parse0 per"
    "\<forall>f\<in>set cur \<inter> set per. parse f = parse0 f"
    and "refresh_with_report db cls (Ok st) (Ok cur) parse = Some (result, after)"
  shows "\<exists>st'. after = Some st' \<and> (st' = st \<or> holds_index db rows pairs cls st' parse cur)"
  using refresh_core [OF assms(1-4)] assms(5) unfolding refresh_outcome_def by fastforce

theorem refresh_keeps_store_witness:
  "\<exists>result after. refresh_with_report sample_db ''class'' (Ok empty_store) (Ok sample_vault) sample_parse
      = Some (result, after)
    \<and> (\<exists>st'. after = Some st' \<and> (st' = empty_store
        \<or> holds_index sample_db map_of set ''class'' st' sample_parse sample_vault))"
proof -
  have same: "\<forall>f\<in>set sample_vault \<inter> set []. sample_parse f = sample_parse f" by simp
  obtain result st' where r: "refresh_with_report sample_db ''class'' (Ok empty_store) (Ok sample_vault) sample_parse
      = Some (result, Some st')"
    using refresh_core [OF sample_db_ok sample_vault_ok sample_store_empty same] by blast
  from refresh_keeps_store [OF sample_db_ok sample_vault_ok sample_store_empty same this] r
  show ?thesis by blast
qed

text \<open>C4. The store that a query gets from \<open>refresh_store\<close> is current: when the call succeeds, the
  returned store holds the index of the current files.\<close>

theorem refresh_store_current:
  assumes "backend_ok db rows pairs" "vault parse cur" "holds_index db rows pairs cls st parse0 per"
    "\<forall>f\<in>set cur \<inter> set per. parse f = parse0 f"
  shows "\<exists>r. refresh_store db cls (Ok st) (Ok cur) parse = Some r
    \<and> (\<forall>st'. r = Ok st' \<longrightarrow> holds_index db rows pairs cls st' parse cur)"
  using assms
proof (cases rule: prepare_pass_cases)
  case (failed e)
  then show ?thesis by (simp add: refresh_store_def)
next
  case (fresh old)
  then show ?thesis using assms(2) by (auto simp: refresh_store_def holds_index_def)
next
  case (stale old modified new edges u)
  obtain persisted st' where p: "apply_pending db st u cls = (persisted, st')" by fastforce
  from pending_store [OF assms(1) stale(3-6,8,9) p] stale(1,2) p assms(2)
  show ?thesis by (auto simp: refresh_store_def holds_index_def split: sum.splits)
qed

theorem refresh_store_current_witness:
  "\<exists>r. refresh_store sample_db ''class'' (Ok empty_store) (Ok sample_vault) sample_parse = Some r
    \<and> (\<forall>st'. r = Ok st' \<longrightarrow> holds_index sample_db map_of set ''class'' st' sample_parse sample_vault)"
  by (rule refresh_store_current [OF sample_db_ok sample_vault_ok sample_store_empty]) simp

section \<open>Persisting and loading\<close>

text \<open>C12. Persisting a built index is all or nothing: on an error the store is the one before the
  call, otherwise all seven tables hold exactly the built index, whatever they held before.\<close>

theorem persist_all_or_nothing:
  assumes "backend_ok db rows pairs" "vault parse cur" "build (Ok cur) parse = Some (Ok index)"
  shows "case persist_index db cls st index of
      (Inl e, st') \<Rightarrow> st' = st
    | (Inr _, st') \<Rightarrow> holds_index db rows pairs cls st' parse cur"
proof -
  obtain r st' where "persist_index db cls st index = (r, st')" by fastforce
  with persist_index_rows [OF assms this] show ?thesis by (auto split: sum.splits)
qed

definition sample_index :: workspace_index where
  "sample_index =
     [file_entry_new (sample_file ''a.md'' 1) (Some (sample_note ''a.md'')) \<lparr> entry_inlinks := [[Normal ''b.md'']] \<rparr>,
      file_entry_new (sample_file ''b.md'' 2) (Some (linking_note ''b.md'' ''a''))]"

lemma sample_index_built: "build (Ok sample_vault) sample_parse = Some (Ok sample_index)"
  by code_simp

theorem persist_all_or_nothing_witness:
  "case persist_index sample_db ''class'' empty_store sample_index of
      (Inl e, st') \<Rightarrow> st' = empty_store
    | (Inr _, st') \<Rightarrow> holds_index sample_db map_of set ''class'' st' sample_parse sample_vault"
  by (rule persist_all_or_nothing [OF sample_db_ok sample_vault_ok sample_index_built])

text \<open>C16. What was persisted is loaded back: after a successful persist of a built index, an index that
  \<open>load\<close> returns has the same files, the same notes and the same inbound links.\<close>

theorem persist_then_load:
  assumes "backend_ok db rows pairs" "vault parse cur" "build (Ok cur) parse = Some (Ok index)"
    "persist_index db cls st index = (Ok (), st')" "load_index db (Ok st') = Ok loaded"
  shows "list_all2 same_entry loaded index"
proof -
  have held: "holds_index db rows pairs cls st' parse cur"
    using persist_index_rows [OF assms(1-4)] by simp
  obtain files ns m where r: "read_all db st' = Ok (files, ns, m)" "loaded = assemble files ns m"
    using assms(5) by (auto simp: load_index_def and_then_eq_Ok)
  note R = read_all_in_sync [OF assms(1) held r(1)]
  have asc: "ascending file_path cur" using assms(2) by (simp add: vault_def plain_rows_def)
  have "ascending note_path ns"
    using parse_notes_rows(1) [OF assms(2) subset_refl asc R(2)] by (simp add: plain_rows_def)
  from outcome_index [OF assms(2) R(2) listed_unordered [OF R(3)] R(4) this] show ?thesis
    using assms(3) R(1) r(2) by simp
qed

definition sample_store :: "(memory_table, memory_table) index_store" where
  "sample_store = snd (persist_index sample_db ''class'' empty_store sample_index)"

lemma sample_persisted: "persist_index sample_db ''class'' empty_store sample_index = (Ok (), sample_store)"
proof -
  have "fst (persist_index sample_db ''class'' empty_store sample_index) = Ok ()" by code_simp
  then show ?thesis by (simp add: sample_store_def prod_eq_iff)
qed

lemma sample_store_holds: "holds_index sample_db map_of set ''class'' sample_store sample_parse sample_vault"
  using persist_index_rows [OF sample_db_ok sample_vault_ok sample_index_built sample_persisted] by simp

theorem persist_then_load_witness:
  "\<exists>loaded. load_index sample_db (Ok sample_store) = Ok loaded \<and> list_all2 same_entry loaded sample_index"
proof -
  have "load_index sample_db (Ok sample_store) = Ok sample_index" by code_simp
  with persist_then_load [OF sample_db_ok sample_vault_ok sample_index_built sample_persisted this]
  show ?thesis by blast
qed

end
