(* ===== verification/Store_Queries.thy ===== *)
theory Store_Queries
  imports Index_Service
begin

text \<open>
  The path queries and point reads of the store (\<open>paths_with_tag\<close>, \<open>paths_in_folder\<close>, the
  batch reads, \<open>read_links_for_targets\<close>) on a store that holds the index of a vault.
\<close>

section \<open>Prefix ranges\<close>

lemma prefix_range:
  fixes a b :: char
  assumes "\<And>c. c < b \<longleftrightarrow> c \<le> a"
  shows "q @ [a] \<le> k \<and> k < q @ [b] \<longleftrightarrow> prefix (q @ [a]) k"
proof (induction q arbitrary: k)
  case Nil
  show ?case
  proof (cases k)
    case (Cons c cs)
    show ?thesis using assms [of c] by (cases cs) (auto simp: Cons)
  qed simp
next
  case (Cons x q)
  show ?case
  proof (cases k)
    case (Cons c cs)
    then show ?thesis using Cons.IH [of cs] by auto
  qed simp
qed

lemma end_of_folder: "end_of_prefix (q @ ''/'') = q @ ''0''"
  by (simp add: end_of_prefix_def) code_simp

lemma folder_range: "q @ ''/'' \<le> k \<and> k < end_of_prefix (q @ ''/'') \<longleftrightarrow> prefix (q @ ''/'') k"
proof -
  have "c < CHR ''0'' \<longleftrightarrow> c \<le> CHR ''/''" for c
    by (simp add: less_char_def less_eq_char_def) presburger
  from prefix_range [OF this] show ?thesis by (simp only: end_of_folder)
qed

lemma prefix_slash:
  assumes "CHR ''/'' \<notin> set a" "CHR ''/'' \<notin> set b"
  shows "prefix (a @ CHR ''/'' # x) (b @ CHR ''/'' # y) \<longleftrightarrow> a = b \<and> prefix x y"
  using assms
proof (induction a arbitrary: b)
  case Nil
  then show ?case by (cases b) auto
next
  case (Cons c a)
  then show ?case by (cases b) auto
qed

lemma prefix_slash_only:
  "CHR ''/'' \<notin> set b \<Longrightarrow> \<not> prefix (a @ CHR ''/'' # x) b"
  by (auto simp: prefix_def)

lemma component_no_slash: "plain_component c \<Longrightarrow> CHR ''/'' \<notin> set (component_text c)"
  by (auto simp: plain_component_def)

lemma component_text_inj: "plain_component c \<Longrightarrow> plain_component d \<Longrightarrow> component_text c = component_text d \<longleftrightarrow> c = d"
  by (auto simp: plain_component_def)

lemma prefix_key:
  assumes "plain_path d" "plain_path p"
  shows "prefix (path_key d @ ''/'') (path_key p) \<longleftrightarrow> strict_prefix d p"
  using assms
proof (induction d arbitrary: p)
  case (Cons c d)
  obtain c' p' where p: "p = c' # p'" using Cons.prems(2) by (cases p) (auto simp: plain_path_def)
  have c: "plain_component c" "plain_component c'" using Cons.prems by (auto simp: plain_path_def p)
  note ns = component_no_slash [OF c(1)] component_no_slash [OF c(2)]
  show ?case
  proof (cases "p' = []")
    case True
    have "\<not> prefix (path_key (c # d) @ ''/'') (component_text c')"
      using prefix_slash_only [OF ns(2), of "path_key (c # d)" "[]"] by simp
    then show ?thesis by (auto simp: p True path_key_def strict_prefix_def)
  next
    case False
    then have key: "path_key p = component_text c' @ CHR ''/'' # path_key p'"
      by (simp add: p path_key_def join_with_Cons)
    have pp: "plain_path p'" using Cons.prems(2) False by (auto simp: p plain_path_def)
    show ?thesis
    proof (cases "d = []")
      case True
      then show ?thesis unfolding key using prefix_slash [OF ns, of "[]" "path_key p'"] component_text_inj [OF c] False
        by (auto simp: p path_key_def strict_prefix_def)
    next
      case d: False
      then have "path_key (c # d) = component_text c @ CHR ''/'' # path_key d"
        by (simp add: path_key_def join_with_Cons)
      moreover have "plain_path d" using Cons.prems(1) d by (auto simp: plain_path_def)
      ultimately show ?thesis
        unfolding key using prefix_slash [OF ns, of "path_key d @ ''/''" "path_key p'"] component_text_inj [OF c] Cons.IH [OF _ pp]
        by (auto simp: p)
    qed
  qed
qed (simp add: plain_path_def)

section \<open>The tables of a held index\<close>

lemma held_tables:
  assumes "holds_index db rows pairs cls st parse cur" "parse_notes parse cur = Ok ns"
  shows "rows_in_sync db rows (store_tables st) cur ns" "plain_rows file_path cur" "plain_rows note_path ns"
    "opt_pairs pairs (links_table (store_tables st)) = link_image (note_links (map file_path cur) (set ns))"
    "axes_in_sync db pairs (for_class_field cls) (store_tables st) ns"
    "links_within cur (note_links (map file_path cur) (set ns))"
proof -
  have cur: "vault parse cur" using assms(1) by (simp add: holds_index_def)
  then show plain: "plain_rows file_path cur" by (rule vault_plain)
  then have "ascending file_path cur" by (simp add: plain_rows_def)
  from parse_notes_rows(1) [OF cur subset_refl this assms(2)] show "plain_rows note_path ns" .
  show "links_within cur (note_links (map file_path cur) (set ns))" by (rule vault_placed(2) [OF cur assms(2)])
  show "rows_in_sync db rows (store_tables st) cur ns"
    "opt_pairs pairs (links_table (store_tables st)) = link_image (note_links (map file_path cur) (set ns))"
    "axes_in_sync db pairs (for_class_field cls) (store_tables st) ns"
    using assms by (auto simp: holds_index_def in_sync_def)
qed

lemma stored_paths:
  assumes ok: "backend_ok db rows pairs" and key: "{v. (key, v) \<in> pairs m} = path_key ` P"
    and plain: "\<forall>p\<in>P. plain_path p" and run: "collect_stored_paths db st m key = Ok ps"
  shows "set ps = P" "sorted_wrt key_order ps"
proof -
  obtain vs where vs: "multi_get db m key = Ok vs" "ps = map path_from_bytes vs"
    using run by (auto simp: collect_stored_paths_def and_then_eq_Ok)
  have v: "sorted_wrt (<) vs" "set vs = path_key ` P" using backend_pairs(5) [OF ok vs(1)] key by simp_all
  have inv: "path_from_bytes (path_key p) = p" if "p \<in> P" for p
    using plain that by (simp add: path_from_bytes_def components_key)
  show "set ps = P" using inv by (simp add: vs(2) v(2) image_image)
  have "map path_key ps = vs" using inv v(2) by (auto simp: vs(2) intro!: map_idI)
  then show "sorted_wrt key_order ps" using v(1) by (auto simp: key_order_def [abs_def] sorted_wrt_map)
qed

lemma multimap_paths:
  assumes ok: "backend_ok db rows pairs" and key: "{v. (key, v) \<in> opt_pairs pairs m} = path_key ` P"
    and plain: "\<forall>p\<in>P. plain_path p" and run: "paths_from_multimap db st m key = Ok ps"
  shows "set ps = P \<and> sorted_wrt (<) ps"
proof (cases m)
  case None
  then show ?thesis using run key by (auto simp: paths_from_multimap_def and_then_eq_Ok)
next
  case (Some m0)
  then obtain m1 qs where r: "multi_open db m = Ok m1" "collect_stored_paths db st m1 key = Ok qs" "ps = dedup (sort qs)"
    using run by (auto simp: paths_from_multimap_def and_then_eq_Ok)
  have "pairs m1 = opt_pairs pairs m" by (rule backend_pairs(1) [OF ok r(1)])
  then have "set qs = P" using stored_paths(1) [OF ok _ plain r(2)] key by simp
  then show ?thesis using sorted_dedup_distinct [OF sorted_sort, of qs] by (simp add: r(3))
qed

lemma axis_paths:
  assumes "axes_in_sync db pairs dims tabs ns" "dim \<in> set dims"
  shows "{v. (key, v) \<in> opt_pairs pairs (axis_forward dim tabs)}
    = path_key ` note_path ` {n \<in> set ns. key \<in> set (axis_values db dim n)}"
proof -
  have "opt_pairs pairs (axis_forward dim tabs) = (axis_image db dim ns)\<inverse>" using assms by (simp add: axes_in_sync_def)
  then show ?thesis by (auto simp: axis_image_def)
qed

section \<open>Path queries\<close>

lemma tag_paths:
  assumes "backend_ok db rows pairs" "holds_index db rows pairs cls st parse cur" "parse_notes parse cur = Ok ns"
    "paths_with_tag db st tag = Ok ps"
  shows "sorted_wrt (<) ps
    \<and> set ps = {note_path n | n. n \<in> set ns \<and> (\<exists>t\<in>set (note_tags n). \<exists>seg\<in>set (tag_segments t).
      with_lowercased db seg = (if prefix ''#'' tag then with_lowercased db tag else CHR ''#'' # with_lowercased db tag))}"
proof -
  let ?key = "if prefix ''#'' tag then with_lowercased db tag else CHR ''#'' # with_lowercased db tag"
  note H = held_tables [OF assms(2,3)]
  have "paths_from_multimap db st (axis_forward TagAxis (store_tables st)) ?key = Ok ps"
    using assms(4) by (simp add: paths_with_tag_def Let_def)
  from multimap_paths [OF assms(1) axis_paths [OF H(5)] _ this] H(3)
  have P: "set ps = note_path ` {n \<in> set ns. ?key \<in> set (axis_values db TagAxis n)} \<and> sorted_wrt (<) ps"
    by (auto simp: for_class_field_def plain_rows_def)
  have "k \<in> set (axis_values db TagAxis n)
      \<longleftrightarrow> (\<exists>t\<in>set (note_tags n). \<exists>seg\<in>set (tag_segments t). with_lowercased db seg = k)" for k n by auto
  with P show ?thesis
    by (simp only: image_Collect Setcompr_eq_image [symmetric]) blast
qed

text \<open>C23. A tag query answers exactly from the notes: the paths of the notes that have a tag with a
  prefix segment equal to the query, compared in lower case and with the number sign added when it is
  missing, each once and in path order.\<close>

theorem paths_with_tag_exact:
  assumes "backend_ok db rows pairs" "holds_index db rows pairs cls st parse cur" "parse_notes parse cur = Ok ns"
    "paths_with_tag db st tag = Ok ps"
  shows "sorted_wrt (<) ps
    \<and> set ps = {note_path n | n. n \<in> set ns \<and> (\<exists>t\<in>set (note_tags n). \<exists>seg\<in>set (tag_segments t).
      with_lowercased db seg = (if prefix ''#'' tag then with_lowercased db tag else CHR ''#'' # with_lowercased db tag))}"
  by (rule tag_paths [OF assms])

theorem paths_with_tag_exact_witness:
  "paths_with_tag sample_db sample_store ''x'' = Ok []
    \<and> {note_path n | n. n \<in> set [sample_note ''a.md'', linking_note ''b.md'' ''a''] \<and> (\<exists>t\<in>set (note_tags n).
        \<exists>seg\<in>set (tag_segments t). with_lowercased sample_db seg
          = (if prefix ''#'' ''x'' then with_lowercased sample_db ''x'' else CHR ''#'' # with_lowercased sample_db ''x''))} = {}"
proof -
  have ns: "parse_notes sample_parse sample_vault = Ok [sample_note ''a.md'', linking_note ''b.md'' ''a'']" by code_simp
  have run: "paths_with_tag sample_db sample_store ''x'' = Ok []" by code_simp
  from paths_with_tag_exact [OF sample_db_ok sample_store_holds ns run] run show ?thesis by simp
qed

lemma collected_keys:
  assumes plain: "\<forall>p\<in>P. plain_path p" and keys: "distinct (map fst es)" "fst ` set es = path_key ` P"
  shows "set (collect_sorted_path_keys es) = P \<and> sorted_wrt (<) (collect_sorted_path_keys es)"
proof -
  have inv: "path_from_bytes (path_key p) = p" if "p \<in> P" for p
    using plain that by (simp add: path_from_bytes_def components_key)
  have eq: "map (\<lambda>(k, v). path_from_bytes k) es = map path_from_bytes (map fst es)" by (simp add: case_prod_beta)
  have "inj_on path_from_bytes (path_key ` P)" using inv by (intro inj_on_inverseI [of _ path_key]) auto
  then have "distinct (map (\<lambda>(k, v). path_from_bytes k) es)"
    unfolding eq distinct_map [of path_from_bytes] using keys by simp
  moreover have "set (map (\<lambda>(k, v). path_from_bytes k) es) = P"
    unfolding eq set_map keys(2) using inv by force
  ultimately show ?thesis by (simp add: collect_sorted_path_keys_def strict_sorted_iff)
qed

lemma plain_key_last: "plain_path d \<Longrightarrow> path_key d \<noteq> [] \<and> last (path_key d) \<noteq> CHR ''/''"
proof (induction d)
  case (Cons c d)
  have c: "plain_component c" using Cons.prems by (simp add: plain_path_def)
  show ?case
  proof (cases "d = []")
    case True
    have "component_text c \<noteq> []" using c by (auto simp: plain_component_def)
    from last_in_set [OF this] have "last (component_text c) \<noteq> CHR ''/''" using component_no_slash [OF c] by metis
    then show ?thesis using True \<open>component_text c \<noteq> []\<close> by (simp add: path_key_def)
  next
    case False
    then have "plain_path d" using Cons.prems by (simp add: plain_path_def)
    with Cons.IH False show ?thesis by (simp add: path_key_def join_with_Cons)
  qed
qed (simp add: plain_path_def)

lemma plain_key_text:
  assumes "plain_path d"
  shows "path_key d \<noteq> []" "path_key d \<noteq> ''.''" "\<not> suffix ''/'' (path_key d)"
proof -
  show "path_key d \<noteq> []" "\<not> suffix ''/'' (path_key d)" using plain_key_last [OF assms] by (auto simp: suffix_def)
  have "components ''.'' = [CurDir]" by code_simp
  moreover have "d \<noteq> [CurDir]" using assms by (auto simp: plain_path_def plain_component_def)
  ultimately show "path_key d \<noteq> ''.''" using components_key [OF assms] by metis
qed

lemma folder_paths:
  assumes "backend_ok db rows pairs" "holds_index db rows pairs cls st parse cur"
    "d = [] \<or> plain_path d" "paths_in_folder db st (path_key d) = Ok ps"
  shows "sorted_wrt (<) ps \<and> set ps = {p \<in> file_path ` set cur. strict_prefix d p}"
proof -
  obtain ns where ns: "parse_notes parse cur = Ok ns" using assms(2) by (auto simp: holds_index_def)
  note H = held_tables [OF assms(2) ns]
  let ?P = "{p \<in> file_path ` set cur. strict_prefix d p}"
  have plain: "\<forall>p\<in>file_path ` set cur. plain_path p" using H(2) by (auto simp: plain_rows_def)
  have stored: "opt_rows rows (files_table (store_tables st)) k \<noteq> None
      \<longleftrightarrow> k \<in> path_key ` file_path ` set cur" for k
  proof -
    have "opt_rows rows (files_table (store_tables st)) k = row_image file_path (enc_file db) cur k"
      "\<forall>f\<in>set cur. enc_file db f \<noteq> None"
      using H(1) by (simp_all add: rows_in_sync_def)
    then show ?thesis
      by (auto simp: row_image_def find_Some_iff2 find_None_iff image_iff
          split: bind_splits dest!: find_Some_iff [THEN iffD1])
  qed
  show ?thesis
  proof (cases "files_table (store_tables st)")
    case None
    then have "cur = []" using stored by (cases cur) auto
    then show ?thesis using assms(4) None by (auto simp: paths_in_folder_def and_then_eq_Ok)
  next
    case (Some t0)
    then obtain t where t: "row_open db (Some t0) = Ok t" "collect_folder_paths db st t (path_key d) = Ok ps"
      using assms(4) by (auto simp: paths_in_folder_def and_then_eq_Ok)
    have rows_t: "rows t = opt_rows rows (files_table (store_tables st))"
      using backend_rows(1) [OF assms(1) t(1)] Some by simp
    show ?thesis
    proof (cases "d = []")
      case True
      then obtain es where es: "row_iter db t = Ok es" "ps = collect_sorted_path_keys es"
        using t(2) by (auto simp: collect_folder_paths_def path_key_def and_then_eq_Ok)
      have E: "distinct (map fst es)" "map_of es = rows t" using backend_rows(5) [OF assms(1) es(1)] by simp_all
      have "fst ` set es = path_key ` file_path ` set cur"
        using stored unfolding rows_t [symmetric] E(2) [symmetric] by (auto simp: map_of_eq_None_iff)
      moreover have "?P = file_path ` set cur" using True plain by (auto simp: plain_path_def strict_prefix_def)
      ultimately show ?thesis unfolding es(2) using collected_keys [OF _ E(1), of ?P] plain by simp
    next
      case False
      then have d: "plain_path d" using assms(3) by simp
      note not_root = plain_key_text [OF d]
      then obtain es where es: "row_range db t (path_key d @ ''/'') (end_of_prefix (path_key d @ ''/'')) = Ok es"
        "ps = collect_sorted_path_keys es"
        using t(2) by (auto simp: collect_folder_paths_def and_then_eq_Ok Let_def)
      have E: "distinct (map fst es)"
        "map_of es = (\<lambda>k. if prefix (path_key d @ ''/'') k then rows t k else None)"
        using backend_rows(6) [OF assms(1) es(1)] by (simp_all add: folder_range)
      have "fst ` set es = {k. map_of es k \<noteq> None}" by (auto simp: map_of_eq_None_iff)
      also have "\<dots> = {k \<in> path_key ` file_path ` set cur. prefix (path_key d @ ''/'') k}"
        unfolding E(2) rows_t using stored by auto
      also have "\<dots> = path_key ` ?P" using prefix_key [OF d] plain by auto
      finally show ?thesis unfolding es(2) using collected_keys [OF _ E(1), of ?P] plain by simp
    qed
  qed
qed

text \<open>C21. A folder query answers exactly from the files: all files strictly below the folder, at any
  depth, each once and in path order; the empty folder is the root.  (The range scan from \<open>folder/\<close>
  to the next key after that prefix takes neither \<open>folder.md\<close> nor \<open>folder-old/x\<close>.)\<close>

theorem paths_in_folder_exact:
  assumes "backend_ok db rows pairs" "holds_index db rows pairs cls st parse cur"
    "d = [] \<or> plain_path d" "paths_in_folder db st (path_key d) = Ok ps"
  shows "sorted_wrt (<) ps \<and> set ps = {p \<in> file_path ` set cur. strict_prefix d p}"
  by (rule folder_paths [OF assms])

text \<open>A vault with folders: \<open>a/x.md\<close> and \<open>a-b/x.md\<close> both link to \<open>t.md\<close>.\<close>

definition foldered :: "string \<Rightarrow> string \<Rightarrow> file_meta" where
  "foldered folder name = sample_file name 1 \<lparr> file_path := [Normal folder, Normal name] \<rparr>"

definition foldered_note :: "string \<Rightarrow> string \<Rightarrow> md_note" where
  "foldered_note folder name = linking_note name ''t'' \<lparr> note_path := [Normal folder, Normal name] \<rparr>"

definition folder_vault :: "file_meta list" where
  "folder_vault = [foldered ''a'' ''x.md'', foldered ''a-b'' ''x.md'', sample_file ''t.md'' 1]"

definition folder_parse :: "file_meta \<Rightarrow> (index_error, md_note) result" where
  "folder_parse f = (if f = foldered ''a'' ''x.md'' then Ok (foldered_note ''a'' ''x.md'')
     else if f = foldered ''a-b'' ''x.md'' then Ok (foldered_note ''a-b'' ''x.md'')
     else if f = sample_file ''t.md'' 1 then Ok (sample_note ''t.md'')
     else Err (NoteParseFailed (file_path f) ''unexpected''))"

definition folder_db :: "(memory_table, memory_table) backend" where
  "folder_db = memory_db folder_vault
     [foldered_note ''a'' ''x.md'', foldered_note ''a-b'' ''x.md'', sample_note ''t.md'']"

definition folder_index :: workspace_index where
  "folder_index =
     [file_entry_new (foldered ''a'' ''x.md'') (Some (foldered_note ''a'' ''x.md'')),
      file_entry_new (foldered ''a-b'' ''x.md'') (Some (foldered_note ''a-b'' ''x.md'')),
      file_entry_new (sample_file ''t.md'' 1) (Some (sample_note ''t.md''))
        \<lparr> entry_inlinks := [[Normal ''a'', Normal ''x.md''], [Normal ''a-b'', Normal ''x.md'']] \<rparr>]"

definition folder_store :: "(memory_table, memory_table) index_store" where
  "folder_store = snd (persist_index folder_db ''class'' empty_store folder_index)"

lemma folder_db_ok: "backend_ok folder_db map_of set"
  unfolding folder_db_def by (rule memory_db_ok)

lemma folder_vault_ok: "vault folder_parse folder_vault"
proof -
  have "ascending file_path folder_vault" by code_simp
  moreover have "list_all (\<lambda>f. file_format_of f = format_from_path (file_path f)) folder_vault" by code_simp
  moreover have "list_all (\<lambda>f. case folder_parse f of Inr n \<Rightarrow> note_path n = file_path f | Inl _ \<Rightarrow> True) folder_vault"
    by code_simp
  moreover have "list_all (\<lambda>f. plain_path (file_path f) \<and> well_placed (map file_path folder_vault) (file_path f)) folder_vault"
    by (simp add: folder_vault_def foldered_def sample_file_def plain_path_def plain_component_def
        well_placed_def usize_max_def)
  ultimately show ?thesis unfolding vault_def plain_rows_def list_all_iff by fastforce
qed

lemma folder_index_built: "build (Ok folder_vault) folder_parse = Some (Ok folder_index)"
  by code_simp

lemma folder_persisted: "persist_index folder_db ''class'' empty_store folder_index = (Ok (), folder_store)"
proof -
  have "fst (persist_index folder_db ''class'' empty_store folder_index) = Ok ()" by code_simp
  then show ?thesis by (simp add: folder_store_def prod_eq_iff)
qed

lemma folder_store_holds: "holds_index folder_db map_of set ''class'' folder_store folder_parse folder_vault"
  using persist_index_rows [OF folder_db_ok folder_vault_ok folder_index_built folder_persisted] by simp

theorem paths_in_folder_exact_witness:
  "paths_in_folder folder_db folder_store (path_key [Normal ''a'']) = Ok [[Normal ''a'', Normal ''x.md'']]
    \<and> {p \<in> file_path ` set folder_vault. strict_prefix [Normal ''a''] p} = {[Normal ''a'', Normal ''x.md'']}"
proof -
  have run: "paths_in_folder folder_db folder_store (path_key [Normal ''a'']) = Ok [[Normal ''a'', Normal ''x.md'']]"
    by code_simp
  have "[Normal ''a''] = [] \<or> plain_path [Normal ''a'']" by (simp add: plain_path_def plain_component_def)
  from paths_in_folder_exact [OF folder_db_ok folder_store_holds this run] run show ?thesis by simp
qed

section \<open>Point reads\<close>

lemma batch_rows:
  assumes ok: "backend_ok db rows pairs" and items: "plain_rows path_of items"
    and stored: "\<And>k. opt_rows rows tab k = row_image path_of enc items k" "\<forall>x\<in>set items. enc x \<noteq> None"
    and codec: "\<And>x bytes. enc x = Some bytes \<Longrightarrow> dec bytes = Some x"
    and paths: "\<forall>p\<in>set paths. plain_path p" and run: "read_batch db st dec tab paths = Ok xs"
  shows "xs = List.map_filter (row_of path_of items) paths"
proof -
  have at: "Option.bind (opt_rows rows tab (path_key p)) dec = row_of path_of items p" if "p \<in> set paths" for p
  proof -
    have "opt_rows rows tab (path_key p) = Option.bind (row_of path_of items p) enc"
      using stored(1) row_image_at [OF items] paths that by simp
    moreover have "Option.bind (enc x) dec = Some x" if "row_of path_of items p = Some x" for x
      using stored(2) row_of_SomeD [OF that] codec by (cases "enc x") auto
    ultimately show ?thesis by (cases "row_of path_of items p") simp_all
  qed
  show ?thesis
  proof (cases tab)
    case None
    then have "List.map_filter (row_of path_of items) paths = []"
      using at by (induction paths) (simp_all add: List.map_filter_simps)
    then show ?thesis using run None by (auto simp: read_batch_def and_then_eq_Ok)
  next
    case (Some t0)
    then obtain t ys where t: "row_open db (Some t0) = Ok t" "xs = List.map_filter id ys"
      "list_all2 (\<lambda>p y. and_then (redb_try st (row_get db t (path_key p)))
         (\<lambda>bytes. Ok (Option.bind bytes dec)) = Ok y) paths ys"
      using run by (auto simp: read_batch_def and_then_eq_Ok try_map_Ok)
    have "rows t = opt_rows rows tab" using backend_rows(1) [OF ok t(1)] Some by simp
    then have "y = row_of path_of items p" if "p \<in> set paths" "and_then (redb_try st (row_get db t (path_key p)))
        (\<lambda>bytes. Ok (Option.bind bytes dec)) = Ok y" for p y
      using that(2) at [OF that(1)] backend_rows(4) [OF ok, of t "path_key p"]
      by (auto simp: and_then_eq_Ok)
    then have "list_all2 (\<lambda>p y. y = row_of path_of items p) paths ys"
      using t(3) by (elim list.rel_mono_strong) blast
    then have "ys = map (row_of path_of items) paths"
      by (induction rule: list_all2_induct) simp_all
    then show ?thesis by (simp add: t(2) List.map_filter_def comp_def filter_map)
  qed
qed

lemma batch_notes:
  assumes "backend_ok db rows pairs" "holds_index db rows pairs cls st parse cur" "parse_notes parse cur = Ok ns"
    "\<forall>p\<in>set paths. plain_path p" "read_notes_batch db st paths = Ok xs"
  shows "xs = List.map_filter (row_of note_path ns) paths"
  using held_tables(1,3) [OF assms(2,3)] backend_codec(2) [OF assms(1)] assms(4,5)
  by (intro batch_rows [OF assms(1), where enc = "enc_note db" and dec = "dec_note db"])
    (auto simp: rows_in_sync_def read_notes_batch_def)

lemma batch_files:
  assumes "backend_ok db rows pairs" "holds_index db rows pairs cls st parse cur"
    "\<forall>p\<in>set paths. plain_path p" "read_files_batch db st paths = Ok xs"
  shows "xs = List.map_filter (row_of file_path cur) paths"
proof -
  obtain ns where ns: "parse_notes parse cur = Ok ns" using assms(2) by (auto simp: holds_index_def)
  show ?thesis
    using held_tables(1,2) [OF assms(2) ns] backend_codec(1) [OF assms(1)] assms(3,4)
    by (intro batch_rows [OF assms(1), where enc = "enc_file db" and dec = "dec_file db"])
      (auto simp: rows_in_sync_def read_files_batch_def)
qed

text \<open>A batch read returns the stored notes of the requested paths in the order of the request,
  and skips the paths that have none.\<close>

theorem read_notes_batch_exact:
  assumes "backend_ok db rows pairs" "holds_index db rows pairs cls st parse cur" "parse_notes parse cur = Ok ns"
    "\<forall>p\<in>set paths. plain_path p" "read_notes_batch db st paths = Ok xs"
  shows "xs = List.map_filter (row_of note_path ns) paths"
  by (rule batch_notes [OF assms])

theorem read_notes_batch_exact_witness:
  "read_notes_batch sample_db sample_store [[Normal ''b.md''], [Normal ''z.md'']]
    = Ok (List.map_filter (row_of note_path [sample_note ''a.md'', linking_note ''b.md'' ''a''])
        [[Normal ''b.md''], [Normal ''z.md'']])"
proof -
  have ns: "parse_notes sample_parse sample_vault = Ok [sample_note ''a.md'', linking_note ''b.md'' ''a'']" by code_simp
  have run: "read_notes_batch sample_db sample_store [[Normal ''b.md''], [Normal ''z.md'']]
    = Ok [linking_note ''b.md'' ''a'']" by code_simp
  have "\<forall>p\<in>set [[Normal ''b.md''], [Normal ''z.md'']]. plain_path p"
    by (simp add: plain_path_def plain_component_def)
  from read_notes_batch_exact [OF sample_db_ok sample_store_holds ns this run] run show ?thesis by simp
qed

lemma fold_link_updates:
  assumes "distinct (map fst es)" "distinct (map fst acc)" "fst ` set es \<inter> fst ` set acc = {}"
  shows "distinct (map fst (fold (\<lambda>(t, ss) links. if ss = [] then links else AList.update t ss links) es acc))
    \<and> set (fold (\<lambda>(t, ss) links. if ss = [] then links else AList.update t ss links) es acc)
      = set acc \<union> {(t, ss) \<in> set es. ss \<noteq> []}"
  using assms
proof (induction es arbitrary: acc)
  case (Cons e es)
  obtain t ss where e: "e = (t, ss)" by (cases e)
  have new: "t \<notin> fst ` set acc" "t \<notin> fst ` set es" using Cons.prems by (auto simp: e)
  then have upd: "AList.update t ss acc = acc @ [(t, ss)]" for ss by (induction acc) auto
  show ?case
  proof (cases "ss = []")
    case True
    then show ?thesis using Cons.IH [of acc] Cons.prems by (auto simp: e)
  next
    case False
    then show ?thesis using Cons.IH [of "acc @ [(t, ss)]"] Cons.prems new by (auto simp: e upd)
  qed
qed auto

lemma linked_targets:
  assumes "backend_ok db rows pairs" "holds_index db rows pairs cls st parse cur" "parse_notes parse cur = Ok ns"
    "\<forall>t\<in>set targets. plain_path t" "distinct targets" "read_links_for_targets db st targets = Ok m"
  shows "listed key_order m
    \<and> edges_of m = {e \<in> note_links (map file_path cur) (set ns). fst e \<in> set targets}"
proof -
  let ?E = "note_links (map file_path cur) (set ns)"
  note H = held_tables [OF assms(2,3)]
  have plainE: "plain_edges ?E" by (rule links_within_plain [OF H(2,6)])
  show ?thesis
  proof (cases "links_table (store_tables st)")
    case None
    then have "link_image ?E = {}" using H(4) by simp
    then have "?E = {}" by (simp add: link_image_def)
    moreover have "m = []" using assms(6) None by (auto simp: read_links_for_targets_def and_then_eq_Ok)
    ultimately show ?thesis by (simp add: listed_def edges_of_def)
  next
    case (Some m0)
    then obtain m1 es where r: "multi_open db (Some m0) = Ok m1"
      "list_all2 (\<lambda>t y. and_then (collect_stored_paths db st m1 (path_key t)) (\<lambda>sources. Ok (t, sources)) = Ok y) targets es"
      "m = fold (\<lambda>(t, sources) links. if sources = [] then links else AList.update t sources links) es []"
      using assms(6) by (auto simp: read_links_for_targets_def and_then_eq_Ok try_map_Ok)
    have pairs: "pairs m1 = link_image ?E" using backend_pairs(1) [OF assms(1) r(1)] H(4) Some by simp
    have sources: "set ss = {s. (t, s) \<in> ?E} \<and> sorted_wrt key_order ss \<and> distinct ss"
      if t: "plain_path t" and run: "collect_stored_paths db st m1 (path_key t) = Ok ss" for t ss
    proof -
      have "{v. (path_key t, v) \<in> pairs m1} = path_key ` {s. (t, s) \<in> ?E}"
        using plainE path_key_inj [OF t] by (fastforce simp: pairs link_image_def plain_edges_def)
      moreover have "\<forall>s\<in>{s. (t, s) \<in> ?E}. plain_path s" using plainE by (auto simp: plain_edges_def)
      ultimately have S: "set ss = {s. (t, s) \<in> ?E}" "sorted_wrt key_order ss"
        using stored_paths [OF assms(1) _ _ run] by blast+
      moreover have "distinct ss" using S(2)
        by (metis (mono_tags, lifting) distinct_conv_nth key_order_def less_irrefl linorder_neqE_nat sorted_wrt_iff_nth_less)
      ultimately show ?thesis by blast
    qed
    have es: "list_all2 (\<lambda>t y. fst y = t \<and> set (snd y) = {s. (t, s) \<in> ?E} \<and> sorted_wrt key_order (snd y)
        \<and> distinct (snd y)) targets es"
      using r(2) assms(4) sources by (elim list.rel_mono_strong) (auto simp: and_then_eq_Ok)
    have keys: "map fst es = targets" using es by (induction rule: list_all2_induct) simp_all
    have each: "set (snd y) = {s. (fst y, s) \<in> ?E} \<and> sorted_wrt key_order (snd y) \<and> distinct (snd y)"
      if "y \<in> set es" for y
      using es that by (induction rule: list_all2_induct) auto
    have M: "distinct (map fst m)" "set m = {(t, ss) \<in> set es. ss \<noteq> []}"
      using fold_link_updates [of es "[]"] assms(5) by (simp_all add: r(3) keys)
    have "listed key_order m" using M each by (fastforce simp: listed_def list_all_iff)
    moreover have "edges_of m = {e \<in> ?E. fst e \<in> set targets}"
    proof (rule set_eqI, unfold split_paired_all)
      fix t s
      have "(t, s) \<in> edges_of m \<longleftrightarrow> (\<exists>ss. (t, ss) \<in> set es \<and> s \<in> set ss)"
        by (auto simp: listed_edges [OF M(1)] M(2))
      also have "\<dots> \<longleftrightarrow> t \<in> fst ` set es \<and> (t, s) \<in> ?E"
      proof
        assume "\<exists>ss. (t, ss) \<in> set es \<and> s \<in> set ss"
        then obtain ss where "(t, ss) \<in> set es" "s \<in> set ss" by blast
        with each [OF this(1)] show "t \<in> fst ` set es \<and> (t, s) \<in> ?E" by force
      next
        assume "t \<in> fst ` set es \<and> (t, s) \<in> ?E"
        then obtain ss where "(t, ss) \<in> set es" "(t, s) \<in> ?E" by force
        with each [OF this(1)] show "\<exists>ss. (t, ss) \<in> set es \<and> s \<in> set ss" by auto
      qed
      also have "fst ` set es = set targets" by (simp only: keys [symmetric] set_map)
      finally show "(t, s) \<in> edges_of m \<longleftrightarrow> (t, s) \<in> {e \<in> ?E. fst e \<in> set targets}" by auto
    qed
    ultimately show ?thesis by blast
  qed
qed

text \<open>Reading the links of some targets returns exactly their stored inbound links: each target that
  has any, once, with each of its sources once, in the order of the stored keys.\<close>

theorem read_links_for_targets_exact:
  assumes "backend_ok db rows pairs" "holds_index db rows pairs cls st parse cur" "parse_notes parse cur = Ok ns"
    "\<forall>t\<in>set targets. plain_path t" "distinct targets" "read_links_for_targets db st targets = Ok m"
  shows "listed key_order m
    \<and> edges_of m = {e \<in> note_links (map file_path cur) (set ns). fst e \<in> set targets}"
  by (rule linked_targets [OF assms])

definition folder_notes :: "md_note list" where
  "folder_notes = [foldered_note ''a'' ''x.md'', foldered_note ''a-b'' ''x.md'', sample_note ''t.md'']"

theorem read_links_for_targets_exact_witness:
  "read_links_for_targets folder_db folder_store [[Normal ''t.md'']]
      = Ok [([Normal ''t.md''], [[Normal ''a-b'', Normal ''x.md''], [Normal ''a'', Normal ''x.md'']])]
    \<and> listed key_order [([Normal ''t.md''], [[Normal ''a-b'', Normal ''x.md''], [Normal ''a'', Normal ''x.md'']])]"
proof -
  have ns: "parse_notes folder_parse folder_vault = Ok folder_notes" by code_simp
  have run: "read_links_for_targets folder_db folder_store [[Normal ''t.md'']]
      = Ok [([Normal ''t.md''], [[Normal ''a-b'', Normal ''x.md''], [Normal ''a'', Normal ''x.md'']])]"
    by code_simp
  have "\<forall>t\<in>set [[Normal ''t.md'']]. plain_path t" "distinct [[Normal ''t.md'']]"
    by (simp_all add: plain_path_def plain_component_def)
  from read_links_for_targets_exact [OF folder_db_ok folder_store_holds ns this run] run show ?thesis by blast
qed

section \<open>Key order is not path order\<close>

definition link_list :: "path list \<Rightarrow> md_note list \<Rightarrow> (path \<times> path) list" where
  "link_list paths ns = concat (map (\<lambda>n. map (\<lambda>t. (t, note_path n))
     (List.map_filter (\<lambda>l. resolution paths (note_path n) (target_parts l)) (note_outlinks n))) ns)"

lemma note_links_list: "note_links paths (set ns) = set (link_list paths ns)"
proof -
  have "outlink_targets paths n
      = set (List.map_filter (\<lambda>l. resolution paths (note_path n) (target_parts l)) (note_outlinks n))" for n
    by (force simp: outlink_targets_def List.map_filter_def)
  then show ?thesis by (auto simp: note_links_def link_list_def)
qed

lemma report_count:
  assumes "links_reported per cur E E' (update_link_delta u)"
  shows "map file_path per = map file_path cur \<or> orders_agree E
      \<Longrightarrow> links_modified_count (update_report u) = sat_add (card (E' - E)) (card (E - E'))"
    and "E' = E \<Longrightarrow> links_modified_count (update_report u) = 0 \<longleftrightarrow> map file_path per = map file_path cur \<or> orders_agree E"
proof -
  note delta = links_reported_delta [OF assms]
  show "map file_path per = map file_path cur \<or> orders_agree E
      \<Longrightarrow> links_modified_count (update_report u) = sat_add (card (E' - E)) (card (E - E'))"
    using delta(1) by (auto simp: delta_exact_def update_report_def dest!: distinct_card)
  show "E' = E \<Longrightarrow> links_modified_count (update_report u) = 0 \<longleftrightarrow> map file_path per = map file_path cur \<or> orders_agree E"
    using delta(2) by (auto simp: update_report_def sat_add_def usize_max_def min_def split: if_splits)
qed

text \<open>C34. What a refresh reports about links.  When the paths stay the same, or the byte order of the keys
  and the order of the paths agree on the linking notes of every target, the report counts the links that
  came and the links that went.  Otherwise the two lists that the report merges are sorted differently, and
  a refresh that changes no link reports modified links.\<close>

theorem refresh_reports_unchanged_links:
  assumes "backend_ok db rows pairs" "vault parse cur" "holds_index db rows pairs cls st parse0 per"
    "\<forall>f\<in>set cur \<inter> set per. parse f = parse0 f"
    "parse_notes parse0 per = Ok old" "parse_notes parse cur = Ok new"
    "refresh_with_report db cls (Ok st) (Ok cur) parse = Some (Ok (index, report), after)"
  shows "let E = note_links (map file_path per) (set old); E' = note_links (map file_path cur) (set new);
      comparable = (map file_path per = map file_path cur \<or> orders_agree E)
    in (comparable \<longrightarrow> links_modified_count report = sat_add (card (E' - E)) (card (E - E')))
      \<and> (E' = E \<longrightarrow> (links_modified_count report = 0 \<longleftrightarrow> comparable))"
  using assms(1-4)
proof (cases rule: prepare_pass_cases)
  case (failed e)
  then show ?thesis using assms(7) by (simp add: refresh_with_report_def)
next
  case (fresh ns)
  have "links_modified_count report = 0"
    using fresh(1) assms(7) by (auto simp: refresh_with_report_def assemble_unchanged_def and_then_eq_Ok)
  moreover have "old = ns" "new = ns" using fresh(2,5) assms(5,6) by simp_all
  ultimately show ?thesis using fresh(4) by (simp add: sat_add_def)
next
  case (stale ns modified ns' edges u)
  obtain persisted st' where p: "apply_pending db st u cls = (persisted, st')" by fastforce
  have "report = update_report u"
    using stale(1) assms(7) p by (auto simp: refresh_with_report_def and_then_eq_Ok)
  moreover have "ns = old" "ns' = new" using stale(2,10) assms(5,6) by simp_all
  moreover have "links_reported per cur edges (note_links (map file_path cur) (set ns')) (update_link_delta u)"
    using stale(9) by (simp add: reconciled_def)
  note count = report_count [OF this [unfolded stale(11)]]
  ultimately show ?thesis using count unfolding Let_def by simp
qed

text \<open>\<open>a-b/x.md\<close> comes before \<open>a/x.md\<close> as a key and after it as a path: with both linking to one
  note, adding a note without any link is reported as two modified links.\<close>

definition wider_vault :: "file_meta list" where
  "wider_vault = folder_vault @ [sample_file ''z.md'' 1]"

definition wider_parse :: "file_meta \<Rightarrow> (index_error, md_note) result" where
  "wider_parse f = (if f = sample_file ''z.md'' 1 then Ok (sample_note ''z.md'') else folder_parse f)"

definition wider_notes :: "md_note list" where
  "wider_notes = folder_notes @ [sample_note ''z.md'']"

definition wider_db :: "(memory_table, memory_table) backend" where
  "wider_db = memory_db wider_vault wider_notes"

definition narrow_store :: "(memory_table, memory_table) index_store" where
  "narrow_store = snd (persist_index wider_db ''class'' empty_store folder_index)"

lemma wider_db_ok: "backend_ok wider_db map_of set"
  unfolding wider_db_def by (rule memory_db_ok)

lemma wider_vault_ok: "vault wider_parse wider_vault"
proof -
  have "ascending file_path wider_vault" by code_simp
  moreover have "list_all (\<lambda>f. file_format_of f = format_from_path (file_path f)) wider_vault" by code_simp
  moreover have "list_all (\<lambda>f. case wider_parse f of Inr n \<Rightarrow> note_path n = file_path f | Inl _ \<Rightarrow> True) wider_vault"
    by code_simp
  moreover have "list_all (\<lambda>f. plain_path (file_path f) \<and> well_placed (map file_path wider_vault) (file_path f)) wider_vault"
    by (simp add: wider_vault_def folder_vault_def foldered_def sample_file_def plain_path_def plain_component_def
        well_placed_def usize_max_def)
  ultimately show ?thesis unfolding vault_def plain_rows_def list_all_iff by fastforce
qed

lemma narrow_store_holds: "holds_index wider_db map_of set ''class'' narrow_store folder_parse folder_vault"
proof -
  have "fst (persist_index wider_db ''class'' empty_store folder_index) = Ok ()" by code_simp
  then have "persist_index wider_db ''class'' empty_store folder_index = (Ok (), narrow_store)"
    by (simp add: narrow_store_def prod_eq_iff)
  from persist_index_rows [OF wider_db_ok folder_vault_ok folder_index_built this] show ?thesis by simp
qed

lemma wider_links:
  "note_links (map file_path wider_vault) (set wider_notes) = note_links (map file_path folder_vault) (set folder_notes)"
proof -
  have "link_list (map file_path wider_vault) wider_notes = link_list (map file_path folder_vault) folder_notes"
    by code_simp
  then show ?thesis by (simp only: note_links_list)
qed

lemma wider_refresh:
  "\<exists>index report after. refresh_with_report wider_db ''class'' (Ok narrow_store) (Ok wider_vault) wider_parse
    = Some (Ok (index, report), after) \<and> links_modified_count report = 2"
proof -
  have "map_option (\<lambda>(result, after). case result of Inl e \<Rightarrow> 0 | Inr (index, report) \<Rightarrow> links_modified_count report)
      (refresh_with_report wider_db ''class'' (Ok narrow_store) (Ok wider_vault) wider_parse) = Some 2"
    by code_simp
  then obtain result after where run: "refresh_with_report wider_db ''class'' (Ok narrow_store) (Ok wider_vault) wider_parse
      = Some (result, after)" "(case result of Inl e \<Rightarrow> 0 | Inr (index, report) \<Rightarrow> links_modified_count report) = 2"
    by (auto simp del: map_option_eq_Some split: prod.splits)
  then obtain index report where "result = Ok (index, report)" by (cases result) auto
  with run show ?thesis by simp
qed

theorem refresh_reports_unchanged_links_witness:
  "let E = note_links (map file_path folder_vault) (set folder_notes);
      E' = note_links (map file_path wider_vault) (set wider_notes)
   in \<exists>index report after. refresh_with_report wider_db ''class'' (Ok narrow_store) (Ok wider_vault) wider_parse
        = Some (Ok (index, report), after)
      \<and> links_modified_count report = 2 \<and> E' = E \<and> \<not> orders_agree E"
proof -
  obtain index report after where run: "refresh_with_report wider_db ''class'' (Ok narrow_store) (Ok wider_vault) wider_parse
      = Some (Ok (index, report), after)" "links_modified_count report = 2"
    using wider_refresh by blast
  have same: "\<forall>f\<in>set wider_vault \<inter> set folder_vault. wider_parse f = folder_parse f"
    by (auto simp: wider_parse_def folder_vault_def foldered_def sample_file_def)
  have parsed: "parse_notes folder_parse folder_vault = Ok folder_notes" "parse_notes wider_parse wider_vault = Ok wider_notes"
    by code_simp+
  from refresh_reports_unchanged_links [OF wider_db_ok wider_vault_ok narrow_store_holds same parsed run(1)] run
  show ?thesis unfolding Let_def wider_links by auto
qed

end
