(* ===== verification/Lexing.thy ===== *)
theory Lexing
  imports Rust_Sort Field_Paths
begin

text \<open>
  Lexer primitives (\<open>src/lexer.rs\<close>), byte spans and line lookup (\<open>src/position.rs\<close>) and the
  errors of the query languages (\<open>src/query/error.rs\<close>).  A token stream is the list of the tokens
  that are left.  The token types' lexers are generated by the \<open>logos\<close> crate, so a lexer is a
  parameter: the list of its results with their byte ranges.  Debug output of a token is a
  parameter as well.
\<close>

section \<open>Byte spans\<close>

definition byte_pos_max :: nat where "byte_pos_max = 2 ^ 32 - 1"

definition byte_pos :: "nat \<Rightarrow> nat" where
  "byte_pos pos = (if pos \<le> byte_pos_max then pos else byte_pos_max)"

type_synonym span = "nat \<times> nat"

definition byte_span_new :: "nat \<Rightarrow> nat \<Rightarrow> span" where
  "byte_span_new start end_pos = (start, max end_pos start)"

text \<open>\<open>ByteSpan::from\<close> a range of \<open>usize\<close>.\<close>

definition byte_span :: "span \<Rightarrow> span" where
  "byte_span r = byte_span_new (byte_pos (fst r)) (byte_pos (snd r))"

type_synonym 't spanned = "'t \<times> span"

text \<open>\<open>LineIndex\<close>: the starts of the lines, and the line of a position by binary search.\<close>

definition line_index :: "string \<Rightarrow> nat list" where
  "line_index source = byte_pos 0 # map (\<lambda>p. byte_pos (sat_add p 1)) (match_indices (CHR 0x0A) source)"

definition line_at :: "nat list \<Rightarrow> nat \<Rightarrow> nat" where
  "line_at starts pos = (let line = partition_point (\<lambda>start. start \<le> pos) starts in
     if line \<le> byte_pos_max then line else byte_pos_max)"

section \<open>Lexer errors\<close>

datatype lex_error =
  UnexpectedToken span string string
| UnexpectedEndOfInput span string

fun lex_error_span :: "lex_error \<Rightarrow> span" where
  "lex_error_span (UnexpectedToken s found_text expected) = s"
| "lex_error_span (UnexpectedEndOfInput s expected) = s"

section \<open>Token streams\<close>

fun tokenize_with ::
  "('t spanned \<Rightarrow> (lex_error, 't spanned) result) \<Rightarrow> ((string, 't) result \<times> span) list
    \<Rightarrow> (lex_error, 't spanned list) result"
where
  "tokenize_with post [] = Ok []"
| "tokenize_with post ((Inl e, s) # results) = Err (UnexpectedToken s e ''a valid token'')"
| "tokenize_with post ((Inr v, s) # results) =
     and_then (post (v, byte_span s)) (\<lambda>t. and_then (tokenize_with post results) (\<lambda>ts. Ok (t # ts)))"

definition tokenize :: "((string, 't) result \<times> span) list \<Rightarrow> (lex_error, 't spanned list) result" where
  "tokenize results = tokenize_with Ok results"

definition next_span :: "string \<Rightarrow> 't spanned list \<Rightarrow> span" where
  "next_span input ts = (case ts of [] \<Rightarrow> (length input, length input) | t # _ \<Rightarrow> snd t)"

definition peek_is_value :: "'t \<Rightarrow> 't spanned list \<Rightarrow> bool" where
  "peek_is_value v ts \<longleftrightarrow> (case ts of [] \<Rightarrow> False | t # _ \<Rightarrow> fst t = v)"

definition expect_token ::
  "('t \<Rightarrow> string) \<Rightarrow> string \<Rightarrow> 't \<Rightarrow> string \<Rightarrow> 't spanned list \<Rightarrow> (lex_error, span \<times> 't spanned list) result"
where
  "expect_token dbg input v desc ts = (case ts of
       t # rest \<Rightarrow> if fst t = v then Ok (snd t, rest) else Err (UnexpectedToken (snd t) (dbg (fst t)) desc)
     | [] \<Rightarrow> Err (UnexpectedEndOfInput (length input, length input) desc))"

definition expect_map ::
  "('t \<Rightarrow> string) \<Rightarrow> string \<Rightarrow> string \<Rightarrow> ('t \<Rightarrow> 'r option) \<Rightarrow> 't spanned list
    \<Rightarrow> (lex_error, 'r spanned \<times> 't spanned list) result"
where
  "expect_map dbg input desc f ts = (case ts of
       t # rest \<Rightarrow> (case f (fst t) of
           Some v \<Rightarrow> Ok ((v, snd t), rest)
         | None \<Rightarrow> Err (UnexpectedToken (snd t) (dbg (fst t)) desc))
     | [] \<Rightarrow> Err (UnexpectedEndOfInput (length input, length input) desc))"

lemma expect_token_length: "expect_token dbg input v desc ts = Ok (s, rest) \<Longrightarrow> length ts = Suc (length rest)"
  by (auto simp: expect_token_def split: list.splits if_splits)

lemma expect_map_length: "expect_map dbg input desc f ts = Ok (v, rest) \<Longrightarrow> length ts = Suc (length rest)"
  by (auto simp: expect_map_def split: list.splits option.splits)

section \<open>Quotes and escapes\<close>

fun backslash_unescape :: "string list \<Rightarrow> string" where
  "backslash_unescape [] = []"
| "backslash_unescape [ch] = ch"
| "backslash_unescape (ch # escaped # rest) =
     (if ch = [CHR 0x5C] then escaped @ backslash_unescape rest
      else ch @ backslash_unescape (escaped # rest))"

definition lexical_backslash_unescape :: "string \<Rightarrow> string" where
  "lexical_backslash_unescape input = backslash_unescape (chars input)"

definition is_quoted_by :: "char \<Rightarrow> string \<Rightarrow> bool" where
  "is_quoted_by q raw \<longleftrightarrow> prefix [q] raw \<and> suffix [q] raw \<and> 2 \<le> length raw"

definition lexical_unquote :: "string \<Rightarrow> string" where
  "lexical_unquote raw =
     (if is_quoted_by (CHR 0x22) raw \<or> is_quoted_by (CHR 0x27) raw
      then lexical_backslash_unescape (drop 1 (take (length raw - 1) raw))
      else lexical_backslash_unescape raw)"

section \<open>Query errors\<close>

datatype query_dialect = SourceDialect | FilterDialect

record query_syntax_error =
  dialect :: query_dialect
  syntax_input :: string
  label_start :: nat
  label_length :: nat
  syntax_lex_error :: lex_error

definition unexpected_end :: "query_dialect \<Rightarrow> string \<Rightarrow> span \<Rightarrow> string \<Rightarrow> query_syntax_error" where
  "unexpected_end d input s expected = \<lparr> dialect = d, syntax_input = input, label_start = fst s,
     label_length = snd s - fst s, syntax_lex_error = UnexpectedEndOfInput s expected \<rparr>"

definition from_lex :: "query_dialect \<Rightarrow> string \<Rightarrow> lex_error \<Rightarrow> query_syntax_error" where
  "from_lex d input e = (let s = lex_error_span e in \<lparr> dialect = d, syntax_input = input, label_start = fst s,
     label_length = snd s - fst s, syntax_lex_error = e \<rparr>)"

datatype query_builder_error =
  SyntaxFailed query_syntax_error
| FieldPathFailed field_path_error
| LimitOutOfRange int

datatype query_error =
  BuilderFailed query_builder_error
| QuerySyntaxFailed query_syntax_error
| QueryFieldPathFailed field_path_error
| TaskListRequiresTaskRows
| TableColumnCountMismatch nat nat

end
