(* ===== verification/Bool_Expr.thy ===== *)
theory Bool_Expr
  imports Lexing
begin

text \<open>
  The boolean expressions shared by the source and the filter language
  (\<open>src/query/grammar/expr.rs\<close>): the tree, its evaluation, and the precedence-climbing parser over
  a grammar that classifies tokens and parses atoms.  Parsers return \<open>None\<close> when their fuel runs
  out; \<open>parse_boolean_expr\<close> gives one unit per token, which \<open>parse_total\<close> shows to be enough.
\<close>

section \<open>Expressions\<close>

datatype logical_op = OpAnd | OpOr

definition logical_op_parse :: "string \<Rightarrow> logical_op option" where
  "logical_op_parse spelling =
     (if spelling = ''&&'' \<or> eq_ignore_ascii_case spelling ''and'' then Some OpAnd
      else if spelling = ''||'' \<or> eq_ignore_ascii_case spelling ''or'' then Some OpOr
      else None)"

datatype logical_control = Operator logical_op | ControlNot | LeftParen | RightParen

datatype 'a boolean_expr =
  BAtom 'a
| BAnd "'a boolean_expr list"
| BOr "'a boolean_expr list"
| BNot "'a boolean_expr"

fun satisfied_by :: "('a \<Rightarrow> bool) \<Rightarrow> 'a boolean_expr \<Rightarrow> bool" where
  "satisfied_by atom_matches (BAtom a) = atom_matches a"
| "satisfied_by atom_matches (BAnd es) = list_all (satisfied_by atom_matches) es"
| "satisfied_by atom_matches (BOr es) = list_ex (satisfied_by atom_matches) es"
| "satisfied_by atom_matches (BNot e) = (\<not> satisfied_by atom_matches e)"

fun has_any_atom :: "('a \<Rightarrow> bool) \<Rightarrow> 'a boolean_expr \<Rightarrow> bool" where
  "has_any_atom p (BAtom a) = p a"
| "has_any_atom p (BAnd es) = list_ex (has_any_atom p) es"
| "has_any_atom p (BOr es) = list_ex (has_any_atom p) es"
| "has_any_atom p (BNot e) = has_any_atom p e"

text \<open>\<open>visit_atoms_mut\<close> with the visitor's new atoms.\<close>

fun visit_atoms :: "('a \<Rightarrow> 'b) \<Rightarrow> 'a boolean_expr \<Rightarrow> 'b boolean_expr" where
  "visit_atoms f (BAtom a) = BAtom (f a)"
| "visit_atoms f (BAnd es) = BAnd (map (visit_atoms f) es)"
| "visit_atoms f (BOr es) = BOr (map (visit_atoms f) es)"
| "visit_atoms f (BNot e) = BNot (visit_atoms f e)"

section \<open>The parser\<close>

record ('t, 'a) grammar =
  control :: "'t \<Rightarrow> logical_control option"
  atom_parser :: "string \<Rightarrow> 't spanned list \<Rightarrow> (query_builder_error, 'a \<times> 't spanned list) result"
  syntax_error :: "string \<Rightarrow> span \<Rightarrow> string \<Rightarrow> query_syntax_error"

type_synonym ('t, 'x) parse_result = "(query_builder_error, 'x \<times> 't spanned list) result option"

definition accept_control :: "('t, 'a) grammar \<Rightarrow> logical_control \<Rightarrow> 't spanned list \<Rightarrow> 't spanned list option" where
  "accept_control g c ts = (case ts of
       t # rest \<Rightarrow> if control g (fst t) = Some c then Some rest else None
     | [] \<Rightarrow> None)"

text \<open>The loop of \<open>parse_logical_chain\<close>.\<close>

fun chain_rest ::
  "nat \<Rightarrow> ('t, 'a) grammar \<Rightarrow> logical_op \<Rightarrow> ('t spanned list \<Rightarrow> ('t, 'a boolean_expr) parse_result)
    \<Rightarrow> 'a boolean_expr list \<Rightarrow> 't spanned list \<Rightarrow> ('t, 'a boolean_expr list) parse_result"
where
  "chain_rest 0 g op parse_term acc ts = None"
| "chain_rest (Suc n) g op parse_term acc ts = (case parse_term ts of
       None \<Rightarrow> None
     | Some (Inl e) \<Rightarrow> Some (Err e)
     | Some (Inr (x, ts1)) \<Rightarrow> (case accept_control g (Operator op) ts1 of
           None \<Rightarrow> Some (Ok (acc @ [x], ts1))
         | Some ts2 \<Rightarrow> chain_rest n g op parse_term (acc @ [x]) ts2))"

fun chain_expr :: "logical_op \<Rightarrow> 'a boolean_expr list \<Rightarrow> 'a boolean_expr" where
  "chain_expr OpAnd es = BAnd es"
| "chain_expr OpOr es = BOr es"

definition parse_logical_chain ::
  "nat \<Rightarrow> ('t, 'a) grammar \<Rightarrow> logical_op \<Rightarrow> ('t spanned list \<Rightarrow> ('t, 'a boolean_expr) parse_result)
    \<Rightarrow> 't spanned list \<Rightarrow> ('t, 'a boolean_expr) parse_result"
where
  "parse_logical_chain n g op parse_term ts = (case parse_term ts of
       None \<Rightarrow> None
     | Some (Inl e) \<Rightarrow> Some (Err e)
     | Some (Inr (first, ts1)) \<Rightarrow> (case accept_control g (Operator op) ts1 of
           None \<Rightarrow> Some (Ok (first, ts1))
         | Some ts2 \<Rightarrow> (case chain_rest n g op parse_term [first] ts2 of
               None \<Rightarrow> None
             | Some r \<Rightarrow> Some (and_then r (\<lambda>(es, ts3). Ok (chain_expr op es, ts3))))))"

fun accept_nots :: "('t, 'a) grammar \<Rightarrow> 't spanned list \<Rightarrow> nat \<Rightarrow> nat \<times> 't spanned list" where
  "accept_nots g [] n = (n, [])"
| "accept_nots g (t # ts) n = (if control g (fst t) = Some ControlNot
     then accept_nots g ts (sat_add n 1) else (n, t # ts))"

definition parse_not ::
  "('t, 'a) grammar \<Rightarrow> ('t spanned list \<Rightarrow> ('t, 'a boolean_expr) parse_result)
    \<Rightarrow> 't spanned list \<Rightarrow> ('t, 'a boolean_expr) parse_result"
where
  "parse_not g parse_primary ts = (let (n, ts1) = accept_nots g ts 0 in
     map_option (\<lambda>r. and_then r (\<lambda>(e, ts2). Ok ((BNot ^^ n) e, ts2))) (parse_primary ts1))"

definition bool_primary ::
  "('t, 'a) grammar \<Rightarrow> string \<Rightarrow> ('t spanned list \<Rightarrow> ('t, 'a boolean_expr) parse_result)
    \<Rightarrow> 't spanned list \<Rightarrow> ('t, 'a boolean_expr) parse_result"
where
  "bool_primary g input parse_or ts = (case accept_control g LeftParen ts of
       Some ts1 \<Rightarrow> (case parse_or ts1 of
           None \<Rightarrow> None
         | Some (Inl e) \<Rightarrow> Some (Err e)
         | Some (Inr (e, ts2)) \<Rightarrow> (case accept_control g RightParen ts2 of
               Some ts3 \<Rightarrow> Some (Ok (e, ts3))
             | None \<Rightarrow> Some (Err (SyntaxFailed (syntax_error g input (next_span input ts2) ''`)` to close `(`'')))))
     | None \<Rightarrow> Some (and_then (atom_parser g input ts) (\<lambda>(a, ts1). Ok (BAtom a, ts1))))"

fun bool_or :: "nat \<Rightarrow> ('t, 'a) grammar \<Rightarrow> string \<Rightarrow> 't spanned list \<Rightarrow> ('t, 'a boolean_expr) parse_result" where
  "bool_or 0 g input ts = None"
| "bool_or (Suc n) g input ts =
     parse_logical_chain n g OpOr
       (parse_logical_chain n g OpAnd (parse_not g (bool_primary g input (bool_or n g input)))) ts"

definition parse_boolean_expr ::
  "('t, 'a) grammar \<Rightarrow> string \<Rightarrow> 't spanned list \<Rightarrow> (query_builder_error, 'a boolean_expr) result option"
where
  "parse_boolean_expr g input ts = map_option (\<lambda>r. and_then r (\<lambda>(e, rest). case rest of
       [] \<Rightarrow> Ok e
     | t # _ \<Rightarrow> Err (SyntaxFailed (syntax_error g input (snd t)
         ''a logical operator or the end of the expression'')))) (bool_or (Suc (length ts)) g input ts)"

section \<open>The parser returns\<close>

text \<open>A parser that returns on every stream of at most \<open>L\<close> tokens and leaves no more than it got.\<close>

definition returns :: "nat \<Rightarrow> ('t spanned list \<Rightarrow> ('t, 'x) parse_result) \<Rightarrow> bool" where
  "returns L p \<longleftrightarrow> (\<forall>ts. length ts \<le> L \<longrightarrow>
     (\<exists>r. p ts = Some r \<and> (\<forall>x rest. r = Ok (x, rest) \<longrightarrow> length rest \<le> length ts)))"

definition consuming :: "('t, 'a) grammar \<Rightarrow> string \<Rightarrow> bool" where
  "consuming g input \<longleftrightarrow> (\<forall>ts a rest. atom_parser g input ts = Ok (a, rest) \<longrightarrow> length rest \<le> length ts)"

lemma returnsD: "returns L p \<Longrightarrow> length ts \<le> L
  \<Longrightarrow> \<exists>r. p ts = Some r \<and> (\<forall>x rest. r = Ok (x, rest) \<longrightarrow> length rest \<le> length ts)"
  by (simp add: returns_def)

lemma accept_control_length: "accept_control g c ts = Some rest \<Longrightarrow> length ts = Suc (length rest)"
  by (auto simp: accept_control_def split: list.splits if_splits)

lemma chain_rest_returns:
  assumes "returns L p"
  shows "length ts \<le> L \<Longrightarrow> length ts < n \<Longrightarrow>
    \<exists>r. chain_rest n g op p acc ts = Some r \<and> (\<forall>es rest. r = Ok (es, rest) \<longrightarrow> length rest \<le> length ts)"
proof (induction n arbitrary: acc ts)
  case (Suc n)
  obtain r where r: "p ts = Some r" "\<And>x rest. r = Ok (x, rest) \<Longrightarrow> length rest \<le> length ts"
    using returnsD [OF assms Suc.prems(1)] by blast
  show ?case
  proof (cases r)
    case (Inl e)
    then show ?thesis using r(1) by simp
  next
    case (Inr y)
    obtain x ts1 where y: "y = (x, ts1)" by (cases y)
    have le: "length ts1 \<le> length ts" using r(2) Inr y by simp
    show ?thesis
    proof (cases "accept_control g (Operator op) ts1")
      case None
      then show ?thesis using r(1) Inr y le by simp
    next
      case (Some ts2)
      then have "length ts1 = Suc (length ts2)" by (rule accept_control_length)
      with Suc.IH [of ts2 "acc @ [x]"] Suc.prems le show ?thesis using r(1) Inr y Some by fastforce
    qed
  qed
qed simp

lemma parse_logical_chain_returns:
  assumes "returns L p" "L \<le> n"
  shows "returns L (parse_logical_chain n g op p)"
  unfolding returns_def
proof (intro allI impI)
  fix ts :: "'a spanned list" assume len: "length ts \<le> L"
  obtain r where r: "p ts = Some r" "\<And>x rest. r = Ok (x, rest) \<Longrightarrow> length rest \<le> length ts"
    using returnsD [OF assms(1) len] by blast
  show "\<exists>r. parse_logical_chain n g op p ts = Some r
      \<and> (\<forall>x rest. r = Ok (x, rest) \<longrightarrow> length rest \<le> length ts)"
  proof (cases r)
    case (Inl e)
    then show ?thesis using r(1) by (simp add: parse_logical_chain_def)
  next
    case (Inr y)
    obtain x ts1 where y: "y = (x, ts1)" by (cases y)
    have le: "length ts1 \<le> length ts" using r(2) Inr y by simp
    show ?thesis
    proof (cases "accept_control g (Operator op) ts1")
      case None
      then show ?thesis using r(1) Inr y le by (simp add: parse_logical_chain_def)
    next
      case (Some ts2)
      then have "length ts1 = Suc (length ts2)" by (rule accept_control_length)
      then have ts2: "length ts2 \<le> L" "length ts2 < n" "length ts2 \<le> length ts" using len le assms(2) by simp_all
      obtain q where q: "chain_rest n g op p [x] ts2 = Some q"
        "\<And>es rest. q = Ok (es, rest) \<Longrightarrow> length rest \<le> length ts2"
        using chain_rest_returns [OF assms(1) ts2(1,2), of g op "[x]"] by blast
      show ?thesis
        using r(1) Inr y Some q ts2(3) by (cases q) (fastforce simp: parse_logical_chain_def)+
    qed
  qed
qed

text \<open>The saturating counter is exact on a stream that fits into memory.\<close>

lemma accept_nots_spec:
  "n + length ts \<le> usize_max \<Longrightarrow> accept_nots g ts n
    = (n + length (takeWhile (\<lambda>t. control g (fst t) = Some ControlNot) ts),
       dropWhile (\<lambda>t. control g (fst t) = Some ControlNot) ts)"
  by (induction ts arbitrary: n) (simp_all add: sat_add_def)

lemma accept_nots_length: "length (snd (accept_nots g ts n)) \<le> length ts"
  by (induction ts arbitrary: n) (simp_all add: le_SucI)

lemma parse_not_returns:
  assumes "returns L p"
  shows "returns L (parse_not g p)"
  unfolding returns_def
proof (intro allI impI)
  fix ts :: "'a spanned list" assume len: "length ts \<le> L"
  obtain n ts1 where n: "accept_nots g ts 0 = (n, ts1)" by fastforce
  then have le: "length ts1 \<le> length ts" using accept_nots_length [of g ts 0] by simp
  obtain r where r: "p ts1 = Some r" "\<And>x rest. r = Ok (x, rest) \<Longrightarrow> length rest \<le> length ts1"
    using returnsD [OF assms, of ts1] le len by auto
  show "\<exists>r. parse_not g p ts = Some r \<and> (\<forall>x rest. r = Ok (x, rest) \<longrightarrow> length rest \<le> length ts)"
    using n r le by (cases r) (fastforce simp: parse_not_def)+
qed

lemma bool_primary_returns:
  assumes "\<forall>L'<L. returns L' p" "consuming g input"
  shows "returns L (bool_primary g input p)"
  unfolding returns_def
proof (intro allI impI)
  fix ts :: "'a spanned list" assume len: "length ts \<le> L"
  show "\<exists>r. bool_primary g input p ts = Some r \<and> (\<forall>x rest. r = Ok (x, rest) \<longrightarrow> length rest \<le> length ts)"
  proof (cases "accept_control g LeftParen ts")
    case None
    then show ?thesis using assms(2) by (auto simp: bool_primary_def consuming_def and_then_eq_Ok)
  next
    case (Some ts1)
    then have ts1: "length ts = Suc (length ts1)" by (rule accept_control_length)
    then obtain r where r: "p ts1 = Some r" "\<And>x rest. r = Ok (x, rest) \<Longrightarrow> length rest \<le> length ts1"
      using assms(1) len returnsD [of "length ts1" p ts1] by fastforce
    show ?thesis
      using Some r ts1 by (cases r) (fastforce simp: bool_primary_def split: option.split dest: accept_control_length)+
  qed
qed

lemma bool_or_returns: "consuming g input \<Longrightarrow> L < n \<Longrightarrow> returns L (bool_or n g input)"
proof (induction n arbitrary: L)
  case (Suc n)
  have "\<forall>L'<L. returns L' (bool_or n g input)" using Suc by simp
  from bool_primary_returns [OF this Suc.prems(1)]
  have "returns L (parse_logical_chain n g OpOr
      (parse_logical_chain n g OpAnd (parse_not g (bool_primary g input (bool_or n g input)))))"
    using Suc.prems(2) by (intro parse_logical_chain_returns parse_not_returns) simp_all
  moreover have "bool_or (Suc n) g input = parse_logical_chain n g OpOr
      (parse_logical_chain n g OpAnd (parse_not g (bool_primary g input (bool_or n g input))))"
    by (rule ext) simp
  ultimately show ?case by simp
qed simp

lemma parse_total:
  assumes "consuming g input"
  shows "parse_boolean_expr g input ts \<noteq> None"
  using returnsD [OF bool_or_returns [OF assms, of "length ts" "Suc (length ts)"], of ts]
  by (auto simp: parse_boolean_expr_def)

section \<open>Printing\<close>

text \<open>The tokens of an expression, with the parentheses that its position needs: level 0 is an \<open>or\<close>
  term, level 1 an \<open>and\<close> term and level 2 a \<open>not\<close> term.\<close>

definition enclose :: "(logical_control \<Rightarrow> 't) \<Rightarrow> bool \<Rightarrow> 't list \<Rightarrow> 't list" where
  "enclose tok paren ts = (if paren then tok LeftParen # ts @ [tok RightParen] else ts)"

fun expr_tokens :: "(logical_control \<Rightarrow> 't) \<Rightarrow> ('a \<Rightarrow> 't list) \<Rightarrow> nat \<Rightarrow> 'a boolean_expr \<Rightarrow> 't list" where
  "expr_tokens tok atoms level (BAtom a) = atoms a"
| "expr_tokens tok atoms level (BNot e) = tok ControlNot # expr_tokens tok atoms 2 e"
| "expr_tokens tok atoms level (BAnd es) =
     enclose tok (1 < level) (join_with [tok (Operator OpAnd)] (map (expr_tokens tok atoms 2) es))"
| "expr_tokens tok atoms level (BOr es) =
     enclose tok (0 < level) (join_with [tok (Operator OpOr)] (map (expr_tokens tok atoms 1) es))"

text \<open>The shape of a parsed expression: chains have two terms or more.\<close>

fun well_chained :: "('a \<Rightarrow> bool) \<Rightarrow> 'a boolean_expr \<Rightarrow> bool" where
  "well_chained ok (BAtom a) = ok a"
| "well_chained ok (BNot e) = well_chained ok e"
| "well_chained ok (BAnd es) = (2 \<le> length es \<and> list_all (well_chained ok) es)"
| "well_chained ok (BOr es) = (2 \<le> length es \<and> list_all (well_chained ok) es)"

definition next_control :: "('t, 'a) grammar \<Rightarrow> 't spanned list \<Rightarrow> logical_control option" where
  "next_control g ts = (case ts of [] \<Rightarrow> None | t # _ \<Rightarrow> control g (fst t))"

text \<open>What may follow a complete term.\<close>

definition closing :: "('t, 'a) grammar \<Rightarrow> 't spanned list \<Rightarrow> bool" where
  "closing g ts \<longleftrightarrow> ts = [] \<or> next_control g ts \<in> {Some (Operator OpAnd), Some (Operator OpOr), Some RightParen}"

lemma accept_control_next: "accept_control g c ts = (if next_control g ts = Some c then Some (tl ts) else None)"
  by (cases ts) (simp_all add: accept_control_def next_control_def)

lemma length_join: "length ws \<le> Suc (length (join_with [c] ws))"
proof (induction ws)
  case (Cons w ws)
  then show ?case by (cases "ws = []") (simp_all add: join_with_Cons)
qed simp

locale expression_grammar =
  fixes g :: "('t, 'a) grammar" and input :: string and tok :: "logical_control \<Rightarrow> 't"
    and atoms :: "'a \<Rightarrow> 't list" and ok :: "'a \<Rightarrow> bool"
  assumes control_tok: "control g (tok c) = Some c"
    and atoms_consume: "atom_parser g input ts = Ok (a, rest) \<Longrightarrow> length rest \<le> length ts"
    and atoms_start: "ok a \<Longrightarrow> \<exists>t ts. atoms a = t # ts \<and> control g t \<notin> {Some ControlNot, Some LeftParen}"
    and atoms_parse: "ok a \<Longrightarrow> map fst ts = atoms a \<Longrightarrow> closing g rest
      \<Longrightarrow> atom_parser g input (ts @ rest) = Ok (a, rest)"
begin

lemma total: "parse_boolean_expr g input ts \<noteq> None"
  by (rule parse_total) (simp add: consuming_def atoms_consume)

abbreviation not_parser :: "nat \<Rightarrow> 't spanned list \<Rightarrow> ('t, 'a boolean_expr) parse_result" where
  "not_parser n \<equiv> parse_not g (bool_primary g input (bool_or n g input))"

abbreviation and_parser :: "nat \<Rightarrow> 't spanned list \<Rightarrow> ('t, 'a boolean_expr) parse_result" where
  "and_parser n \<equiv> parse_logical_chain n g OpAnd (not_parser n)"

lemma next_control_tok: "next_control g ((tok c, s) # ts) = Some c"
  by (simp add: next_control_def control_tok)

text \<open>A chain of printed terms, each followed by what may follow it.\<close>

lemma chain_rest_printed:
  assumes "\<And>e ps rest. e \<in> set es \<Longrightarrow> map fst ps = pr e \<Longrightarrow> length ps \<le> N \<Longrightarrow> length (ps @ rest) \<le> L
      \<Longrightarrow> closing g rest \<Longrightarrow> next_control g rest \<noteq> Some (Operator OpAnd) \<or> op = OpAnd \<Longrightarrow> p (ps @ rest) = Some (Ok (e, rest))"
    and "es \<noteq> []" "map fst ps = join_with [tok (Operator op)] (map pr es)" "length ps \<le> N" "length (ps @ rest) \<le> L"
    and "length es \<le> n"
    and "closing g rest" "next_control g rest \<noteq> Some (Operator op)"
    and "next_control g rest \<noteq> Some (Operator OpAnd) \<or> op = OpAnd"
  shows "chain_rest n g op p acc (ps @ rest) = Some (Ok (acc @ es, rest))"
  using assms
proof (induction es arbitrary: ps n acc)
  case (Cons e es)
  obtain m where n: "n = Suc m" using Cons.prems(6) by (cases n) auto
  show ?case
  proof (cases "es = []")
    case True
    then have "p (ps @ rest) = Some (Ok (e, rest))" using Cons.prems by simp
    then show ?thesis using Cons.prems(8) by (simp add: n accept_control_next True)
  next
    case False
    then obtain ps1 t ps2 where ps: "ps = ps1 @ t # ps2" "map fst ps1 = pr e" "fst t = tok (Operator op)"
      "map fst ps2 = join_with [tok (Operator op)] (map pr es)"
      using Cons.prems(3) by (auto simp: join_with_Cons map_eq_append_conv map_eq_Cons_conv)
    have t: "next_control g (t # ps2 @ rest) = Some (Operator op)"
      using ps(3) by (cases t) (simp add: next_control_tok)
    then have "closing g (t # ps2 @ rest)" by (cases op) (simp_all add: closing_def)
    moreover have "next_control g (t # ps2 @ rest) \<noteq> Some (Operator OpAnd) \<or> op = OpAnd" using t by (cases op) simp_all
    ultimately have "p (ps1 @ t # ps2 @ rest) = Some (Ok (e, t # ps2 @ rest))"
      using Cons.prems(1) [of e ps1 "t # ps2 @ rest"] Cons.prems(4,5) ps(1,2) by simp
    moreover have "chain_rest m g op p (acc @ [e]) (ps2 @ rest) = Some (Ok ((acc @ [e]) @ es, rest))"
      using Cons.prems ps(1,4) False by (intro Cons.IH) (simp_all add: n)
    ultimately show ?thesis using t by (simp add: n ps(1) accept_control_next)
  qed
qed simp

lemma chain_printed:
  assumes p: "\<And>e ps rest. e \<in> set es \<Longrightarrow> map fst ps = pr e \<Longrightarrow> length ps \<le> n \<Longrightarrow> length (ps @ rest) \<le> L
      \<Longrightarrow> closing g rest \<Longrightarrow> next_control g rest \<noteq> Some (Operator OpAnd) \<or> op = OpAnd
      \<Longrightarrow> p (ps @ rest) = Some (Ok (e, rest))"
    and es: "2 \<le> length es" and ps: "map fst ps = join_with [tok (Operator op)] (map pr es)"
    and len: "length ps \<le> n" "length (ps @ rest) \<le> L"
    and rest: "closing g rest" "next_control g rest \<noteq> Some (Operator op)"
      "next_control g rest \<noteq> Some (Operator OpAnd) \<or> op = OpAnd"
  shows "parse_logical_chain n g op p (ps @ rest) = Some (Ok (chain_expr op es, rest))"
proof -
  obtain e es' where e: "es = e # es'" "es' \<noteq> []" using es by (cases es) (auto simp: Suc_le_length_iff)
  obtain ps1 t ps2 where q: "ps = ps1 @ t # ps2" "map fst ps1 = pr e" "fst t = tok (Operator op)"
    "map fst ps2 = join_with [tok (Operator op)] (map pr es')"
    using ps e by (auto simp: join_with_Cons map_eq_append_conv map_eq_Cons_conv)
  have t: "next_control g (t # ps2 @ rest) = Some (Operator op)"
    using q(3) by (cases t) (simp add: next_control_tok)
  then have "closing g (t # ps2 @ rest)" "next_control g (t # ps2 @ rest) \<noteq> Some (Operator OpAnd) \<or> op = OpAnd"
    by (cases op; simp add: closing_def)+
  then have first: "p (ps1 @ t # ps2 @ rest) = Some (Ok (e, t # ps2 @ rest))"
    using p [of e ps1 "t # ps2 @ rest"] len q(1,2) e(1) by simp
  have "length es' \<le> Suc (length ps2)" using length_join [of "map pr es'" "tok (Operator op)"] q(4)
    by (metis length_map)
  then have enough: "length es' \<le> n" "length ps2 \<le> n" using len(1) q(1) by simp_all
  have "chain_rest n g op p [e] (ps2 @ rest) = Some (Ok ([e] @ es', rest))"
  proof (rule chain_rest_printed [where N = n and L = L, OF _ e(2) q(4) enough(2) _ enough(1) rest])
    fix e' qs rest' assume "e' \<in> set es'" "map fst qs = pr e'" "length qs \<le> n" "length (qs @ rest') \<le> L"
      "closing g rest'" "next_control g rest' \<noteq> Some (Operator OpAnd) \<or> op = OpAnd"
    then show "p (qs @ rest') = Some (Ok (e', rest'))" using p [of e' qs rest'] e(1) by simp
  next
    show "length (ps2 @ rest) \<le> L" using len(2) q(1) by simp
  qed
  then show ?thesis using first t by (simp add: parse_logical_chain_def q(1) accept_control_next e(1))
qed

text \<open>The three levels of the parser on the printed tokens.\<close>

definition reads_not :: "'a boolean_expr \<Rightarrow> bool" where
  "reads_not e \<longleftrightarrow> (\<forall>n ps rest. map fst ps = expr_tokens tok atoms 2 e \<longrightarrow> length ps \<le> n
     \<longrightarrow> length (ps @ rest) \<le> usize_max \<longrightarrow> closing g rest
     \<longrightarrow> not_parser n (ps @ rest) = Some (Ok (e, rest)))"

definition reads_and :: "'a boolean_expr \<Rightarrow> bool" where
  "reads_and e \<longleftrightarrow> (\<forall>n ps rest. map fst ps = expr_tokens tok atoms 1 e \<longrightarrow> length ps \<le> n
     \<longrightarrow> length (ps @ rest) \<le> usize_max \<longrightarrow> closing g rest \<longrightarrow> next_control g rest \<noteq> Some (Operator OpAnd)
     \<longrightarrow> and_parser n (ps @ rest) = Some (Ok (e, rest)))"

definition reads_or :: "'a boolean_expr \<Rightarrow> bool" where
  "reads_or e \<longleftrightarrow> (\<forall>n ps rest. map fst ps = expr_tokens tok atoms 0 e \<longrightarrow> length ps \<le> n
     \<longrightarrow> length (ps @ rest) \<le> usize_max \<longrightarrow> closing g rest
     \<longrightarrow> next_control g rest \<notin> {Some (Operator OpAnd), Some (Operator OpOr)}
     \<longrightarrow> bool_or (Suc n) g input (ps @ rest) = Some (Ok (e, rest)))"

lemma reads_and_single:
  assumes "reads_not e" "expr_tokens tok atoms 1 e = expr_tokens tok atoms 2 e"
  shows "reads_and e"
  using assms by (simp add: reads_and_def reads_not_def parse_logical_chain_def accept_control_next)

lemma reads_or_single:
  assumes "reads_and e" "expr_tokens tok atoms 0 e = expr_tokens tok atoms 1 e"
  shows "reads_or e"
  using assms by (simp add: reads_or_def reads_and_def parse_logical_chain_def accept_control_next)

lemma not_parser_primary:
  "next_control g ts \<noteq> Some ControlNot
    \<Longrightarrow> not_parser n ts = bool_primary g input (bool_or n g input) ts"
proof -
  assume "next_control g ts \<noteq> Some ControlNot"
  then have "accept_nots g ts 0 = (0, ts)" by (cases ts) (simp_all add: next_control_def)
  moreover have "map_option (\<lambda>r. and_then r (\<lambda>(e, ts2). Ok (e, ts2))) q = q" for q :: "('t, 'a boolean_expr) parse_result"
    by (cases q; cases "the q") (auto simp: and_then_def split: sum.split)
  ultimately show ?thesis by (simp add: parse_not_def)
qed

lemma reads_not_paren:
  assumes "reads_or e" "expr_tokens tok atoms 2 e = tok LeftParen # expr_tokens tok atoms 0 e @ [tok RightParen]"
  shows "reads_not e"
  unfolding reads_not_def
proof (intro allI impI)
  fix n and ps rest :: "'t spanned list"
  assume ps: "map fst ps = expr_tokens tok atoms 2 e" "length ps \<le> n" "length (ps @ rest) \<le> usize_max" "closing g rest"
  obtain l qs r where q: "ps = l # qs @ [r]" "fst l = tok LeftParen" "map fst qs = expr_tokens tok atoms 0 e"
    "fst r = tok RightParen"
    using ps(1) assms(2) by (auto simp: map_eq_Cons_conv map_eq_append_conv)
  obtain m where m: "n = Suc m" "length qs \<le> m" using ps(2) q(1) by (cases n) auto
  have r: "next_control g (r # rest) = Some RightParen" using q(4) by (cases r) (simp add: next_control_tok)
  then have "bool_or n g input (qs @ r # rest) = Some (Ok (e, r # rest))"
    using assms(1) q(1,3) m ps(3) unfolding reads_or_def m(1) by (simp add: closing_def)
  moreover have l: "next_control g (l # qs @ r # rest) = Some LeftParen"
    using q(2) by (cases l) (simp add: next_control_tok)
  ultimately show "not_parser n (ps @ rest) = Some (Ok (e, rest))"
    using r by (simp add: q(1) not_parser_primary bool_primary_def accept_control_next)
qed

lemma reads_not_BNot:
  assumes "reads_not e"
  shows "reads_not (BNot e)"
  unfolding reads_not_def
proof (intro allI impI)
  fix n and ps rest :: "'t spanned list"
  assume ps: "map fst ps = expr_tokens tok atoms 2 (BNot e)" "length ps \<le> n" "length (ps @ rest) \<le> usize_max" "closing g rest"
  obtain t qs where q: "ps = t # qs" "fst t = tok ControlNot" "map fst qs = expr_tokens tok atoms 2 e"
    using ps(1) by auto
  have "not_parser n (qs @ rest) = Some (Ok (e, rest))"
    using assms q(1,3) ps(2-4) by (simp add: reads_not_def)
  moreover have "control g (fst t) = Some ControlNot" by (simp add: q(2) control_tok)
  ultimately show "not_parser n (ps @ rest) = Some (Ok (BNot e, rest))"
    using ps(3) accept_nots_spec [of 0 "qs @ rest" g] accept_nots_spec [of 0 "ps @ rest" g]
    by (auto simp: q(1) parse_not_def and_then_eq_Ok)
qed

lemma reads_atom:
  assumes "ok a"
  shows "reads_not (BAtom a)"
  unfolding reads_not_def
proof (intro allI impI)
  fix n and ps rest :: "'t spanned list"
  assume ps: "map fst ps = expr_tokens tok atoms 2 (BAtom a)" "closing g rest"
  obtain t ts where t: "atoms a = t # ts" "control g t \<notin> {Some ControlNot, Some LeftParen}"
    using atoms_start [OF assms] by blast
  then have "next_control g (ps @ rest) = control g t" using ps(1) by (cases ps) (auto simp: next_control_def)
  then show "not_parser n (ps @ rest) = Some (Ok (BAtom a, rest))"
    using t(2) atoms_parse [OF assms _ ps(2), of ps] ps(1)
    by (simp add: not_parser_primary bool_primary_def accept_control_next)
qed

lemma reads_all: "well_chained ok e \<Longrightarrow> reads_not e \<and> reads_and e \<and> reads_or e"
proof (induction e)
  case (BAtom a)
  then have "reads_not (BAtom a)" by (simp add: reads_atom)
  moreover from this have "reads_and (BAtom a)" by (rule reads_and_single) simp
  moreover from this have "reads_or (BAtom a)" by (rule reads_or_single) simp
  ultimately show ?case by blast
next
  case (BNot e)
  then have "reads_not (BNot e)" by (simp add: reads_not_BNot)
  moreover from this have "reads_and (BNot e)" by (rule reads_and_single) simp
  moreover from this have "reads_or (BNot e)" by (rule reads_or_single) simp
  ultimately show ?case by blast
next
  case (BAnd es)
  then have es: "2 \<le> length es" "\<forall>e\<in>set es. reads_not e" by (auto simp: list_all_iff)
  have "reads_and (BAnd es)"
    unfolding reads_and_def
  proof (intro allI impI)
    fix n and ps rest :: "'t spanned list"
    assume "map fst ps = expr_tokens tok atoms 1 (BAnd es)" "length ps \<le> n" "length (ps @ rest) \<le> usize_max"
      "closing g rest" "next_control g rest \<noteq> Some (Operator OpAnd)"
    then have "parse_logical_chain n g OpAnd (not_parser n) (ps @ rest) = Some (Ok (chain_expr OpAnd es, rest))"
      using es by (intro chain_printed [where L = usize_max and pr = "expr_tokens tok atoms 2"])
        (simp_all add: enclose_def reads_not_def)
    then show "and_parser n (ps @ rest) = Some (Ok (BAnd es, rest))" by simp
  qed
  moreover from this have "reads_or (BAnd es)" by (rule reads_or_single) (simp add: enclose_def)
  moreover from this have "reads_not (BAnd es)" by (rule reads_not_paren) (simp add: enclose_def)
  ultimately show ?case by blast
next
  case (BOr es)
  then have es: "2 \<le> length es" "\<forall>e\<in>set es. reads_and e" by (auto simp: list_all_iff)
  have "reads_or (BOr es)"
    unfolding reads_or_def
  proof (intro allI impI)
    fix n and ps rest :: "'t spanned list"
    assume "map fst ps = expr_tokens tok atoms 0 (BOr es)" "length ps \<le> n" "length (ps @ rest) \<le> usize_max"
      "closing g rest" "next_control g rest \<notin> {Some (Operator OpAnd), Some (Operator OpOr)}"
    then have "parse_logical_chain n g OpOr (and_parser n) (ps @ rest) = Some (Ok (chain_expr OpOr es, rest))"
      using es by (intro chain_printed [where L = usize_max and pr = "expr_tokens tok atoms 1"])
        (simp_all add: enclose_def reads_and_def)
    then show "bool_or (Suc n) g input (ps @ rest) = Some (Ok (BOr es, rest))" by simp
  qed
  moreover from this have "reads_not (BOr es)" by (rule reads_not_paren) (simp add: enclose_def)
  moreover from this have "reads_and (BOr es)" by (rule reads_and_single) (simp add: enclose_def)
  ultimately show ?case by blast
qed

lemma parse_printed:
  assumes "well_chained ok e" "map fst ts = expr_tokens tok atoms 0 e" "length ts \<le> usize_max"
  shows "parse_boolean_expr g input ts = Some (Ok e)"
proof -
  have "bool_or (Suc (length ts)) g input (ts @ []) = Some (Ok (e, []))"
    using conjunct2 [OF conjunct2 [OF reads_all [OF assms(1)]]] assms(2,3) unfolding reads_or_def
    by (elim allE [of _ "length ts"] allE [of _ ts] allE [of _ "[]"])
      (simp del: bool_or.simps add: closing_def next_control_def)
  then show ?thesis by (simp del: bool_or.simps add: parse_boolean_expr_def)
qed

end

end
