(* ===== verification/Sources.thy ===== *)
theory Sources
  imports Bool_Expr Store
begin

text \<open>
  Source expressions (\<open>src/query/grammar/source.rs\<close>): tags, path globs and File Classes under the
  boolean grammar.  The \<open>regex\<close> crate and the schema's class expansion are parameters.
\<close>

section \<open>Globs\<close>

record regex_crate =
  regex_escape :: "string \<Rightarrow> string"
  regex_compiles :: "string \<Rightarrow> bool"
  regex_is_match :: "string \<Rightarrow> string \<Rightarrow> bool"

text \<open>\<open>display_portable\<close> of a relative path, on Unix.\<close>

definition display_portable :: "path \<Rightarrow> string" where
  "display_portable p = path_key p"

record glob_pattern =
  glob_regex :: string
  glob_text :: string

lemma find_byte_less: "find_byte c xs = Some i \<Longrightarrow> i < length xs"
proof -
  have "length (takeWhile (\<lambda>x. x \<noteq> c) xs) < length xs" if "c \<in> set xs" using that by (induction xs) auto
  then show "find_byte c xs = Some i \<Longrightarrow> i < length xs" by (auto simp: find_byte_def split: if_splits)
qed

function glob_regex_body :: "regex_crate \<Rightarrow> string \<Rightarrow> string" where
  "glob_regex_body rx rest = (case find_byte (CHR ''*'') rest of
       None \<Rightarrow> regex_escape rx rest
     | Some index \<Rightarrow> (case strip_prefix ''*'' (drop (Suc index) rest) of
           Some stripped \<Rightarrow> regex_escape rx (take index rest) @ ''.*'' @ glob_regex_body rx stripped
         | None \<Rightarrow> regex_escape rx (take index rest) @ ''[^/]*'' @ glob_regex_body rx (drop (Suc index) rest)))"
  by pat_completeness auto

termination
  by (relation "measure (\<lambda>(rx, rest). length rest)") (auto simp: strip_prefix_Some dest!: find_byte_less arg_cong [of "drop _ _" _ length])

declare glob_regex_body.simps [simp del]

definition glob_compile :: "regex_crate \<Rightarrow> string \<Rightarrow> glob_pattern option" where
  "glob_compile rx pattern = (let source = ''^'' @ glob_regex_body rx pattern @ ''$'' in
     if regex_compiles rx source then Some \<lparr> glob_regex = source, glob_text = pattern \<rparr> else None)"

definition glob_is_match :: "regex_crate \<Rightarrow> glob_pattern \<Rightarrow> path \<Rightarrow> bool" where
  "glob_is_match rx g p = regex_is_match rx (glob_regex g) (display_portable p)"

section \<open>Atoms\<close>

text \<open>The resolved classes of a mode are a \<open>BTreeSet\<close>: an ascending list.\<close>

datatype class_expansion_mode = ExactClasses "string list" | ChildClasses "string list" | DescendantClasses "string list"

fun mode_classes :: "class_expansion_mode \<Rightarrow> string list" where
  "mode_classes (ExactClasses cs) = cs"
| "mode_classes (ChildClasses cs) = cs"
| "mode_classes (DescendantClasses cs) = cs"

fun set_classes :: "string list \<Rightarrow> class_expansion_mode \<Rightarrow> class_expansion_mode" where
  "set_classes resolved (ExactClasses cs) = ExactClasses resolved"
| "set_classes resolved (ChildClasses cs) = ChildClasses resolved"
| "set_classes resolved (DescendantClasses cs) = DescendantClasses resolved"

datatype source_atom =
  TagSource string
| PathSource glob_pattern
| ClassSource "string list" class_expansion_mode

definition class_values :: "unicode \<Rightarrow> md_note \<Rightarrow> string \<Rightarrow> string list" where
  "class_values u n field = List.map_filter value_as_str
     (case note_frontmatter n of Some fm \<Rightarrow> get_values u fm field | None \<Rightarrow> [])"

fun source_atom_matches :: "regex_crate \<Rightarrow> unicode \<Rightarrow> string \<Rightarrow> file_entry \<Rightarrow> source_atom \<Rightarrow> bool" where
  "source_atom_matches rx u field e (TagSource t) \<longleftrightarrow> (case entry_note e of
     Some n \<Rightarrow> list_ex (\<lambda>value. is_contained_in value t) (note_tags n) | None \<Rightarrow> False)"
| "source_atom_matches rx u field e (PathSource g) \<longleftrightarrow> glob_is_match rx g (file_path (entry_file e))"
| "source_atom_matches rx u field e (ClassSource cls_names mode) \<longleftrightarrow> (case entry_note e of
     Some n \<Rightarrow> list_ex (\<lambda>value. value \<in> set (mode_classes mode)) (class_values u n field) | None \<Rightarrow> False)"

section \<open>Selectors\<close>

datatype source_selector = AllSources | SourceExpr "source_atom boolean_expr"

fun is_class_source :: "source_atom \<Rightarrow> bool" where
  "is_class_source (ClassSource cls_names mode) = True"
| "is_class_source _ = False"

fun source_matches :: "regex_crate \<Rightarrow> unicode \<Rightarrow> string \<Rightarrow> source_selector \<Rightarrow> file_entry \<Rightarrow> bool" where
  "source_matches rx u field AllSources e = True"
| "source_matches rx u field (SourceExpr expr) e = satisfied_by (source_atom_matches rx u field e) expr"

fun has_classes :: "source_selector \<Rightarrow> bool" where
  "has_classes AllSources = False"
| "has_classes (SourceExpr expr) = has_any_atom is_class_source expr"

text \<open>An expander gives the resolved classes of some cls_names in a mode.\<close>

type_synonym class_expander = "string list \<Rightarrow> class_expansion_mode \<Rightarrow> class_expansion_mode"

fun expand_atom :: "class_expander \<Rightarrow> source_atom \<Rightarrow> source_atom" where
  "expand_atom expand (ClassSource cls_names mode) = ClassSource cls_names (expand cls_names mode)"
| "expand_atom expand a = a"

fun resolve_classes :: "class_expander \<Rightarrow> source_selector \<Rightarrow> source_selector" where
  "resolve_classes expand AllSources = AllSources"
| "resolve_classes expand (SourceExpr expr) = SourceExpr (visit_atoms (expand_atom expand) expr)"

definition source_or :: "source_atom \<Rightarrow> source_atom list \<Rightarrow> source_atom boolean_expr" where
  "source_or first rest = (if rest = [] then BAtom first else BOr (BAtom first # map BAtom rest))"

definition source_and ::
  "source_atom boolean_expr \<Rightarrow> source_atom boolean_expr list \<Rightarrow> source_atom boolean_expr"
where
  "source_and first rest = (if rest = [] then first else BAnd (first # rest))"

section \<open>Tokens and atoms of the grammar\<close>

datatype source_token =
  SrcLParen | SrcRParen | SrcComma | SrcLogical logical_op | SrcNot | SrcClass | SrcWithChildren
| SrcWithDescendants | SrcTag string | SrcClassSigil string | SrcQuoted string | SrcBare string

abbreviation source_error :: "string \<Rightarrow> span \<Rightarrow> string \<Rightarrow> query_builder_error" where
  "source_error input s expected \<equiv> SyntaxFailed (unexpected_end SourceDialect input s expected)"

abbreviation source_lex :: "string \<Rightarrow> lex_error \<Rightarrow> query_builder_error" where
  "source_lex input e \<equiv> SyntaxFailed (from_lex SourceDialect input e)"

fun source_control :: "source_token \<Rightarrow> logical_control option" where
  "source_control (SrcLogical op) = Some (Operator op)"
| "source_control SrcNot = Some ControlNot"
| "source_control SrcLParen = Some LeftParen"
| "source_control SrcRParen = Some RightParen"
| "source_control _ = None"

definition parse_sigil :: "string \<Rightarrow> string \<Rightarrow> span \<Rightarrow> (query_builder_error, source_atom) result" where
  "parse_sigil input sigil s = (case strip_prefix ''@'' sigil of
       None \<Rightarrow> Err (source_error input s ''a File Class name'')
     | Some raw \<Rightarrow>
         let (name, mode) = (case strip_suffix ''+'' raw of
                 Some name \<Rightarrow> (name, ChildClasses [])
               | None \<Rightarrow> (case strip_suffix ''*'' raw of
                     Some name \<Rightarrow> (name, DescendantClasses [])
                   | None \<Rightarrow> (raw, ExactClasses [])))
         in if name = [] then Err (source_error input s ''a File Class name'')
            else Ok (ClassSource [name] mode))"

fun class_name_token :: "source_token \<Rightarrow> string option" where
  "class_name_token (SrcQuoted name) = Some name"
| "class_name_token (SrcBare name) = Some name"
| "class_name_token _ = None"

fun class_mode_token :: "source_token \<Rightarrow> class_expansion_mode option" where
  "class_mode_token (SrcBare value) =
     (if value = ''children'' then Some (ChildClasses [])
      else if value = ''descendants'' then Some (DescendantClasses []) else None)"
| "class_mode_token _ = None"

definition class_modifier :: "source_token spanned list \<Rightarrow> class_expansion_mode option \<times> source_token spanned list" where
  "class_modifier ts =
     (if peek_is_value SrcWithChildren ts then (Some (ChildClasses []), tl ts)
      else if peek_is_value SrcWithDescendants ts then (Some (DescendantClasses []), tl ts)
      else (None, ts))"

definition parse_class_function ::
  "(source_token \<Rightarrow> string) \<Rightarrow> string \<Rightarrow> source_token spanned list \<Rightarrow> span
    \<Rightarrow> (query_builder_error, source_atom \<times> source_token spanned list) result"
where
  "parse_class_function dbg input ts class_span =
     and_then (map_err (source_lex input) (expect_token dbg input SrcLParen ''`(` after `class`'' ts)) (\<lambda>(_, ts1).
     and_then (map_err (source_lex input) (expect_map dbg input ''a File Class name'' class_name_token ts1)) (\<lambda>(name, ts2).
       if fst name = [] then Err (source_error input class_span ''a File Class name'')
       else and_then
         (if peek_is_value SrcComma ts2
          then and_then (map_err (source_lex input)
              (expect_map dbg input ''`children` or `descendants`'' class_mode_token (tl ts2)))
              (\<lambda>(mode, ts3). Ok (Some (fst mode), ts3))
          else Ok (None, ts2)) (\<lambda>(mode_arg, ts3).
       and_then (map_err (source_lex input) (expect_token dbg input SrcRParen ''`)` after `class(...)`'' ts3)) (\<lambda>(_, ts4).
         let (modifier, ts5) = class_modifier ts4 in
         if mode_arg \<noteq> None \<and> modifier \<noteq> None
         then Err (source_error input (next_span input ts5) ''one File Class expansion mode'')
         else Ok (ClassSource [fst name] (case modifier of Some m \<Rightarrow> m | None \<Rightarrow>
                (case mode_arg of Some m \<Rightarrow> m | None \<Rightarrow> ExactClasses [])), ts5)))))"

function normalize_path_prefix :: "string \<Rightarrow> string" where
  "normalize_path_prefix p = (case strip_prefix ''./'' p of
       Some stripped \<Rightarrow> normalize_path_prefix stripped
     | None \<Rightarrow> (case strip_prefix [CHR ''.'', CHR 0x5C] p of
           Some stripped \<Rightarrow> normalize_path_prefix stripped
         | None \<Rightarrow> p))"
  by pat_completeness auto

termination by (relation "measure length") (auto simp: strip_prefix_Some)

declare normalize_path_prefix.simps [simp del]

definition parse_path_atom ::
  "regex_crate \<Rightarrow> string \<Rightarrow> string \<Rightarrow> span \<Rightarrow> (query_builder_error, source_atom) result"
where
  "parse_path_atom rx input p s =
     (let normalized = normalize_path_prefix p;
          glob = (if suffix ''/'' normalized then normalized @ ''**'' else normalized)
      in case glob_compile rx glob of
           Some g \<Rightarrow> Ok (PathSource g)
         | None \<Rightarrow> Err (source_error input s ''a valid path glob''))"

definition parse_source_atom ::
  "regex_crate \<Rightarrow> (source_token \<Rightarrow> string) \<Rightarrow> string \<Rightarrow> source_token spanned list
    \<Rightarrow> (query_builder_error, source_atom \<times> source_token spanned list) result"
where
  "parse_source_atom rx dbg input ts = (case ts of
       [] \<Rightarrow> Err (source_error input (next_span input ts) ''a source term'')
     | (value, s) # rest \<Rightarrow> (case value of
           SrcTag t \<Rightarrow> Ok (TagSource t, rest)
         | SrcClassSigil sigil \<Rightarrow> and_then (parse_sigil input sigil s) (\<lambda>a. Ok (a, rest))
         | SrcQuoted p \<Rightarrow> and_then (parse_path_atom rx input p s) (\<lambda>a. Ok (a, rest))
         | SrcBare p \<Rightarrow> and_then (parse_path_atom rx input p s) (\<lambda>a. Ok (a, rest))
         | SrcClass \<Rightarrow> parse_class_function dbg input rest s
         | _ \<Rightarrow> Err (source_error input s ''a source term'')))"

definition source_grammar ::
  "regex_crate \<Rightarrow> (source_token \<Rightarrow> string) \<Rightarrow> (source_token, source_atom) grammar"
where
  "source_grammar rx dbg = \<lparr> control = source_control, atom_parser = parse_source_atom rx dbg,
     syntax_error = unexpected_end SourceDialect \<rparr>"

definition source_expr_parse ::
  "regex_crate \<Rightarrow> (source_token \<Rightarrow> string) \<Rightarrow> (string \<Rightarrow> ((string, source_token) result \<times> span) list) \<Rightarrow> string
    \<Rightarrow> (query_builder_error, source_atom boolean_expr) result option"
where
  "source_expr_parse rx dbg lexer input = (case tokenize (lexer input) of
       Inl e \<Rightarrow> Some (Err (source_lex input e))
     | Inr ts \<Rightarrow> parse_boolean_expr (source_grammar rx dbg) input ts)"

definition source_selector_parse ::
  "regex_crate \<Rightarrow> (source_token \<Rightarrow> string) \<Rightarrow> (string \<Rightarrow> ((string, source_token) result \<times> span) list) \<Rightarrow> string
    \<Rightarrow> (query_error, source_selector) result option"
where
  "source_selector_parse rx dbg lexer input =
     (if trim input = [] then Some (Ok AllSources)
      else map_option (\<lambda>r. map_err BuilderFailed (and_then r (\<lambda>e. Ok (SourceExpr e))))
        (source_expr_parse rx dbg lexer input))"

text \<open>The token callbacks: the tag scanner of notes, and quotes.\<close>

definition tag_callback :: "unicode \<Rightarrow> string \<Rightarrow> (unit, string \<times> nat) result" where
  "tag_callback u tail_text = (case tag_prefix_len u tail_text of
       None \<Rightarrow> Err ()
     | Some n \<Rightarrow> Ok (take n tail_text, n - 1))"

section \<open>The source grammar is an expression grammar\<close>

fun source_control_token :: "logical_control \<Rightarrow> source_token" where
  "source_control_token (Operator op) = SrcLogical op"
| "source_control_token ControlNot = SrcNot"
| "source_control_token LeftParen = SrcLParen"
| "source_control_token RightParen = SrcRParen"

fun mode_tokens :: "class_expansion_mode \<Rightarrow> source_token list" where
  "mode_tokens (ExactClasses cs) = []"
| "mode_tokens (ChildClasses cs) = [SrcComma, SrcBare ''children'']"
| "mode_tokens (DescendantClasses cs) = [SrcComma, SrcBare ''descendants'']"

fun source_atom_tokens :: "source_atom \<Rightarrow> source_token list" where
  "source_atom_tokens (TagSource t) = [SrcTag t]"
| "source_atom_tokens (PathSource g) = [SrcQuoted (glob_text g)]"
| "source_atom_tokens (ClassSource cls_names mode) =
     [SrcClass, SrcLParen, SrcQuoted (hd cls_names)] @ mode_tokens mode @ [SrcRParen]"

text \<open>Atoms as the parser builds them.\<close>

fun source_printable :: "regex_crate \<Rightarrow> source_atom \<Rightarrow> bool" where
  "source_printable rx (TagSource t) = True"
| "source_printable rx (PathSource g) \<longleftrightarrow> glob_compile rx (glob_text g) = Some g
     \<and> normalize_path_prefix (glob_text g) = glob_text g \<and> \<not> suffix ''/'' (glob_text g)"
| "source_printable rx (ClassSource cls_names mode) \<longleftrightarrow>
     length cls_names = 1 \<and> hd cls_names \<noteq> [] \<and> mode_classes mode = []"

lemma closing_source:
  "closing (source_grammar rx dbg) rest \<Longrightarrow> class_modifier rest = (None, rest)"
  by (cases rest; cases "fst (hd rest)")
    (auto simp: closing_def next_control_def source_grammar_def class_modifier_def peek_is_value_def)

lemma class_function_consumes:
  "parse_class_function dbg input ts s = Ok (a, rest) \<Longrightarrow> length rest \<le> length ts"
  by (auto simp: parse_class_function_def and_then_eq_Ok class_modifier_def peek_is_value_def
      split: if_splits list.splits dest!: expect_token_length expect_map_length)

interpretation source_language:
  expression_grammar "source_grammar rx dbg" input source_control_token source_atom_tokens "source_printable rx"
  for rx dbg input
proof
  show "control (source_grammar rx dbg) (source_control_token c) = Some c" for c
    by (cases c) (simp_all add: source_grammar_def)
  show "length rest \<le> length ts" if "atom_parser (source_grammar rx dbg) input ts = Ok (a, rest)" for ts a rest
    using that by (auto simp: source_grammar_def parse_source_atom_def and_then_eq_Ok
        split: list.splits source_token.splits dest: class_function_consumes [THEN le_SucI])
  show "\<exists>t ts. source_atom_tokens a = t # ts
      \<and> control (source_grammar rx dbg) t \<notin> {Some ControlNot, Some LeftParen}" for a
    by (cases a) (simp_all add: source_grammar_def)
  fix a and ts rest :: "source_token spanned list"
  assume a: "source_printable rx a" and ts: "map fst ts = source_atom_tokens a"
    and rest: "closing (source_grammar rx dbg) rest"
  show "atom_parser (source_grammar rx dbg) input (ts @ rest) = Ok (a, rest)"
  proof (cases a)
    case (TagSource t)
    then show ?thesis using ts by (auto simp: source_grammar_def parse_source_atom_def)
  next
    case (PathSource p)
    then obtain sp where sp: "ts = [(SrcQuoted (glob_text p), sp)]" using ts by auto
    have p: "glob_compile rx (glob_text p) = Some p" "normalize_path_prefix (glob_text p) = glob_text p"
      "\<not> suffix ''/'' (glob_text p)"
      using a PathSource by simp_all
    have "parse_path_atom rx input (glob_text p) sp = Ok (PathSource p)"
      by (simp only: parse_path_atom_def p Let_def if_False option.case)
    then show ?thesis
      by (simp add: source_grammar_def parse_source_atom_def sp PathSource)
  next
    case (ClassSource cls_names mode)
    then obtain name where name: "cls_names = [name]" "name \<noteq> []" "mode_classes mode = []"
      using a by (cases cls_names; cases "tl cls_names") simp_all
    obtain s1 s2 s3 ts' where ts': "ts = (SrcClass, s1) # (SrcLParen, s2) # (SrcQuoted name, s3) # ts'"
      "map fst ts' = mode_tokens mode @ [SrcRParen]"
      using ts name(1) unfolding ClassSource by (auto simp: map_eq_Cons_conv)
    show ?thesis
    proof (cases mode)
      case (ExactClasses cs)
      then obtain s4 where "ts' = [(SrcRParen, s4)]" using ts'(2) by auto
      then show ?thesis using ts'(1) name closing_source [OF rest] ClassSource ExactClasses
        by (simp add: source_grammar_def parse_source_atom_def parse_class_function_def
            expect_token_def expect_map_def peek_is_value_def)
    next
      case (ChildClasses cs)
      then obtain s4 s5 s6 where "ts' = [(SrcComma, s4), (SrcBare ''children'', s5), (SrcRParen, s6)]"
        using ts'(2) by auto
      then show ?thesis using ts'(1) name closing_source [OF rest] ClassSource ChildClasses
        by (simp add: source_grammar_def parse_source_atom_def parse_class_function_def
            expect_token_def expect_map_def peek_is_value_def)
    next
      case (DescendantClasses cs)
      then obtain s4 s5 s6 where "ts' = [(SrcComma, s4), (SrcBare ''descendants'', s5), (SrcRParen, s6)]"
        using ts'(2) by auto
      then show ?thesis using ts'(1) name closing_source [OF rest] ClassSource DescendantClasses
        by (simp add: source_grammar_def parse_source_atom_def parse_class_function_def
            expect_token_def expect_map_def peek_is_value_def)
    qed
  qed
qed

section \<open>Properties\<close>

lemma tokenize_values:
  "tokenize (map (\<lambda>t. (Inr (fst t), snd t)) ts) = Ok (map (\<lambda>(v, s). (v, byte_span s)) ts)"
  unfolding tokenize_def by (induction ts) auto

text \<open>C29. Parsing a source expression always ends: the fuel of the model, one unit per token, is never
  used up, whatever the lexer returns.\<close>

theorem source_parse_terminates:
  "\<exists>r. source_expr_parse rx dbg lexer input = Some r"
  using source_language.total by (auto simp: source_expr_parse_def split: sum.split)

text \<open>C18. Source expressions round-trip: an expression whose chains have two terms or more, printed with
  parentheses only where precedence needs them (\<open>not\<close> over \<open>and\<close> over \<open>or\<close>), is parsed
  back as it was.\<close>

theorem source_expr_roundtrip:
  assumes "well_chained (source_printable rx) e"
    "map fst ts = expr_tokens source_control_token source_atom_tokens 0 e" "length ts \<le> usize_max"
    "lexer input = map (\<lambda>t. (Inr (fst t), snd t)) ts"
  shows "source_expr_parse rx dbg lexer input = Some (Ok e)"
proof -
  have "map fst (map (\<lambda>(v, s). (v, byte_span s)) ts) = expr_tokens source_control_token source_atom_tokens 0 e"
    using assms(2) by (simp add: comp_def case_prod_beta)
  from source_language.parse_printed [OF assms(1) this] assms(3)
  show ?thesis by (simp add: source_expr_parse_def assms(4) tokenize_values)
qed

theorem source_expr_roundtrip_witness:
  "let rx = \<lparr> regex_escape = (\<lambda>s. s), regex_compiles = (\<lambda>_. True), regex_is_match = (\<lambda>_ _. False) \<rparr>;
       e = BOr [BAnd [BAtom (TagSource ''#a''), BNot (BAtom (TagSource ''#b''))],
             BAtom (ClassSource [''Book''] (ChildClasses []))];
       ts = map (\<lambda>t. (t, (0, 1))) (expr_tokens source_control_token source_atom_tokens 0 e)
   in source_expr_parse rx (\<lambda>_. []) (\<lambda>_. map (\<lambda>t. (Inr (fst t), snd t)) ts) ''input'' = Some (Ok e)"
  unfolding Let_def
  by (rule source_expr_roundtrip [OF _ _ _ refl]) (simp_all add: enclose_def usize_max_def)

end
