(* ===== verification/Rust_Float.thy ===== *)
theory Rust_Float
  imports Field_Values "HOL-Library.Log_Nat"
begin

text \<open>
  The \<open>f64\<close> operations the program uses, on the 64 bits of IEEE 754 doubles: conversion of an exact
  value with rounding to nearest, ties to even, the arithmetic that rounds the exact result, rounding
  to an integer, and reading a decimal literal.  A NaN result is the quiet NaN with a clear sign; Rust
  leaves its payload open, and the program only tests for NaN.
\<close>

section \<open>Representation\<close>

definition f64_negative :: "f64 \<Rightarrow> bool" where "f64_negative x \<longleftrightarrow> 2 ^ 63 \<le> unat x"

definition f64_exponent :: "f64 \<Rightarrow> nat" where "f64_exponent x = unat x div 2 ^ 52 mod 2 ^ 11"

definition f64_fraction :: "f64 \<Rightarrow> nat" where "f64_fraction x = unat x mod 2 ^ 52"

definition f64_is_finite :: "f64 \<Rightarrow> bool" where "f64_is_finite x \<longleftrightarrow> f64_exponent x < 2047"

definition f64_nan :: f64 where "f64_nan = 0x7FF8000000000000"

text \<open>The bits of a sign and a magnitude below \<open>2 ^ 63\<close>.\<close>

definition f64_bits :: "bool \<Rightarrow> nat \<Rightarrow> f64" where
  "f64_bits neg m = word_of_nat (if neg then 2 ^ 63 + m else m)"

definition f64_infinity :: "bool \<Rightarrow> f64" where "f64_infinity neg = f64_bits neg (2047 * 2 ^ 52)"

text \<open>The magnitude of a finite double is \<open>f64_significand x * 2 ^ f64_scale x\<close>.\<close>

definition f64_significand :: "f64 \<Rightarrow> nat" where
  "f64_significand x = (if f64_exponent x = 0 then f64_fraction x else 2 ^ 52 + f64_fraction x)"

definition f64_scale :: "f64 \<Rightarrow> int" where
  "f64_scale x = int (max 1 (f64_exponent x)) - 1075"

section \<open>Rounding\<close>

text \<open>Division rounded to the nearest natural number, ties to even.\<close>

definition div_round :: "nat \<Rightarrow> nat \<Rightarrow> nat" where
  "div_round n d = (let q = n div d; r = n mod d in
     if d < 2 * r \<or> 2 * r = d \<and> odd q then Suc q else q)"

text \<open>\<open>k\<close> with \<open>2 ^ (k - 1) \<le> n / d < 2 ^ k\<close>.\<close>

definition ratio_bits :: "nat \<Rightarrow> nat \<Rightarrow> int" where
  "ratio_bits n d = (let k = int (floorlog 2 n) - int (floorlog 2 d) in
     if d * 2 ^ nat k \<le> n * 2 ^ nat (- k) then k + 1 else k)"

text \<open>The double nearest to \<open>n / d * 2 ^ e\<close>.  The last bit of its significand has the weight \<open>2 ^ w\<close>
  that leaves 53 bits, or \<open>2 ^ -1074\<close> for a subnormal number; a significand rounded up to \<open>2 ^ 53\<close>
  carries into the exponent, and an exponent of 2047 is infinity.\<close>

definition f64_round :: "bool \<Rightarrow> nat \<Rightarrow> nat \<Rightarrow> int \<Rightarrow> f64" where
  "f64_round neg n d e = (if n = 0 then f64_bits neg 0 else
     let w = max (e + ratio_bits n d - 53) (- 1074) in
     f64_bits neg (min (2047 * 2 ^ 52)
       (nat (w + 1074) * 2 ^ 52 + div_round (n * 2 ^ nat (e - w)) (d * 2 ^ nat (w - e)))))"

definition f64_of_nat :: "nat \<Rightarrow> f64" where "f64_of_nat n = f64_round False n 1 0"

section \<open>Arithmetic\<close>

definition f64_neg :: "f64 \<Rightarrow> f64" where "f64_neg x = x XOR 0x8000000000000000"

definition f64_abs :: "f64 \<Rightarrow> f64" where "f64_abs x = x AND 0x7FFFFFFFFFFFFFFF"

definition f64_mul :: "f64 \<Rightarrow> f64 \<Rightarrow> f64" where
  "f64_mul x y = (let neg = (f64_negative x \<noteq> f64_negative y) in
     if f64_is_nan x \<or> f64_is_nan y then f64_nan
     else if \<not> f64_is_finite x \<or> \<not> f64_is_finite y
     then (if f64_significand x = 0 \<or> f64_significand y = 0 then f64_nan else f64_infinity neg)
     else f64_round neg (f64_significand x * f64_significand y) 1 (f64_scale x + f64_scale y))"

text \<open>A finite double as an integer multiple of \<open>2 ^ e\<close>.\<close>

definition f64_int :: "f64 \<Rightarrow> int \<Rightarrow> int" where
  "f64_int x e = (let m = int (f64_significand x * 2 ^ nat (f64_scale x - e)) in
     if f64_negative x then - m else m)"

definition f64_add :: "f64 \<Rightarrow> f64 \<Rightarrow> f64" where
  "f64_add x y =
     (if f64_is_nan x \<or> f64_is_nan y then f64_nan
      else if \<not> f64_is_finite x
      then (if \<not> f64_is_finite y \<and> f64_negative x \<noteq> f64_negative y then f64_nan else x)
      else if \<not> f64_is_finite y then y
      else let e = min (f64_scale x) (f64_scale y); s = f64_int x e + f64_int y e in
        if s = 0 then f64_bits (f64_negative x \<and> f64_negative y) 0
        else f64_round (s < 0) (nat \<bar>s\<bar>) 1 e)"

definition f64_sub :: "f64 \<Rightarrow> f64 \<Rightarrow> f64" where "f64_sub x y = f64_add x (f64_neg y)"

text \<open>\<open>x < y\<close> of IEEE 754: no NaN is less than anything, the zeros are equal.\<close>

definition f64_less :: "f64 \<Rightarrow> f64 \<Rightarrow> bool" where
  "f64_less x y \<longleftrightarrow> \<not> f64_is_nan x \<and> \<not> f64_is_nan y \<and> \<not> f64_eq x y \<and> f64_key x < f64_key y"

text \<open>\<open>round()\<close>, half away from zero, of the magnitude of a finite double, and \<open>to_u64\<close> of a
  rounded double.\<close>

definition f64_nearest :: "f64 \<Rightarrow> nat" where
  "f64_nearest x = (if 0 \<le> f64_scale x then f64_significand x * 2 ^ nat (f64_scale x)
     else (f64_significand x + 2 ^ nat (- f64_scale x - 1)) div 2 ^ nat (- f64_scale x))"

definition f64_round_to_u64 :: "f64 \<Rightarrow> nat option" where
  "f64_round_to_u64 x = (if f64_is_finite x \<and> (\<not> f64_negative x \<or> f64_nearest x = 0) \<and> f64_nearest x < 2 ^ 64
     then Some (f64_nearest x) else None)"

text \<open>\<open>fract() == 0.0\<close>, \<open>to_i64\<close>, and the conversion of an \<open>i64\<close>.\<close>

definition f64_is_whole :: "f64 \<Rightarrow> bool" where
  "f64_is_whole x \<longleftrightarrow> f64_is_finite x \<and> (0 \<le> f64_scale x \<or> f64_significand x mod 2 ^ nat (- f64_scale x) = 0)"

definition f64_trunc :: "f64 \<Rightarrow> int" where
  "f64_trunc x = (let m = (if 0 \<le> f64_scale x then f64_significand x * 2 ^ nat (f64_scale x)
       else f64_significand x div 2 ^ nat (- f64_scale x)) in if f64_negative x then - int m else int m)"

definition f64_to_i64 :: "f64 \<Rightarrow> int option" where
  "f64_to_i64 x = (if f64_is_finite x \<and> - (2 ^ 63) \<le> f64_trunc x \<and> f64_trunc x < 2 ^ 63 then Some (f64_trunc x) else None)"

definition f64_of_int :: "int \<Rightarrow> f64" where "f64_of_int n = f64_round (n < 0) (nat \<bar>n\<bar>) 1 0"

section \<open>Decimal literals\<close>

definition digit_value :: "char \<Rightarrow> nat" where "digit_value c = of_char c - 48"

definition digits_value :: "string \<Rightarrow> nat" where
  "digits_value ds = foldl (\<lambda>n c. 10 * n + digit_value c) 0 ds"

text \<open>\<open>str::parse::<f64>\<close>: an optional sign, then a name of a special value or digits with an optional
  point and an optional exponent; the value is rounded once.\<close>

definition decimal_exponent :: "string \<Rightarrow> int option" where
  "decimal_exponent s = (case s of
       [] \<Rightarrow> Some 0
     | c # rest \<Rightarrow>
         if c \<noteq> CHR ''e'' \<and> c \<noteq> CHR ''E'' then None
         else let (neg, ds) = (case rest of
                  d # ds \<Rightarrow> if d = CHR ''-'' then (True, ds) else if d = CHR ''+'' then (False, ds) else (False, rest)
                | [] \<Rightarrow> (False, []))
           in if ds \<noteq> [] \<and> list_all ascii_digit ds
              then Some (if neg then - int (digits_value ds) else int (digits_value ds)) else None)"

definition f64_of_decimal :: "bool \<Rightarrow> nat \<Rightarrow> int \<Rightarrow> f64" where
  "f64_of_decimal neg n k = f64_round neg (n * 10 ^ nat k) (10 ^ nat (- k)) 0"

definition f64_parse_magnitude :: "bool \<Rightarrow> string \<Rightarrow> f64 option" where
  "f64_parse_magnitude neg s =
     (if eq_ignore_ascii_case s ''inf'' \<or> eq_ignore_ascii_case s ''infinity'' then Some (f64_infinity neg)
      else if eq_ignore_ascii_case s ''nan'' then Some f64_nan
      else let whole = takeWhile ascii_digit s; rest = dropWhile ascii_digit s;
          (frac, rest') = (case rest of
              c # cs \<Rightarrow> if c = CHR ''.'' then (takeWhile ascii_digit cs, dropWhile ascii_digit cs) else ([], rest)
            | [] \<Rightarrow> ([], []))
      in if whole @ frac = [] then None
         else map_option (\<lambda>k. f64_of_decimal neg (digits_value (whole @ frac)) (k - int (length frac)))
           (decimal_exponent rest'))"

definition f64_parse :: "string \<Rightarrow> f64 option" where
  "f64_parse s = (case s of
       [] \<Rightarrow> None
     | c # rest \<Rightarrow>
         if c = CHR ''-'' then f64_parse_magnitude True rest
         else if c = CHR ''+'' then f64_parse_magnitude False rest
         else f64_parse_magnitude False s)"

section \<open>Whole numbers are exact\<close>

lemma floorlog_le_53: "n < 2 ^ 53 \<Longrightarrow> floorlog 2 n \<le> 53"
  by (rule floorlog_leI) simp_all

lemma div_round_exact: "0 < d \<Longrightarrow> div_round (n * d) d = n"
  by (simp add: div_round_def)

lemma ratio_bits_1: "0 < n \<Longrightarrow> ratio_bits n (Suc 0) = int (floorlog 2 n)"
proof -
  assume n: "0 < n"
  have one: "floorlog 2 (Suc 0) = Suc 0" by (simp add: floorlog_def)
  have pos: "0 < floorlog 2 n" using n by (simp add: floorlog_def)
  then have "nat (int (floorlog 2 n) - 1) = floorlog 2 n - 1" "nat (1 - int (floorlog 2 n)) = 0" by simp_all
  moreover have "2 ^ (floorlog 2 n - 1) \<le> n" using floorlog_bounds [of n 2] n by simp
  ultimately show ?thesis by (simp add: ratio_bits_def Let_def one)
qed

text \<open>Multiplying by a power of two moves it into the exponent.\<close>

lemma div_round_shift: "div_round (n * 2 ^ k) (d * 2 ^ k) = div_round n d"
proof -
  have "(n * 2 ^ k) mod (d * 2 ^ k) = (n mod d) * 2 ^ k" by (simp add: mult_mod_left)
  then show ?thesis by (simp add: div_round_def Let_def mult.assoc [symmetric])
qed

lemma f64_round_shift: "f64_round neg (n * 2 ^ k) 1 e = f64_round neg n 1 (e + int k)"
proof (cases "n = 0")
  case False
  then have bits: "ratio_bits (n * 2 ^ k) (Suc 0) = ratio_bits n (Suc 0) + int k" by (simp add: ratio_bits_1)
  define w where "w = max (e + int k + ratio_bits n (Suc 0) - 53) (- 1074)"
  have w': "max (e + ratio_bits (n * 2 ^ k) (Suc 0) - 53) (- 1074) = w" by (simp add: bits w_def add_ac)
  have "div_round (n * 2 ^ k * 2 ^ nat (e - w)) (2 ^ nat (w - e))
      = div_round (n * 2 ^ nat (e + int k - w)) (2 ^ nat (w - (e + int k)))"
  proof (cases "w \<le> e")
    case True
    then have "nat (e + int k - w) = k + nat (e - w)" by simp
    then show ?thesis using True by (simp add: power_add mult_ac)
  next
    case False
    show ?thesis
    proof (cases "w \<le> e + int k")
      case True
      then have "k = nat (e + int k - w) + nat (w - e)" using False by simp
      then have split: "n * 2 ^ k = n * 2 ^ nat (e + int k - w) * 2 ^ nat (w - e)"
        by (metis power_add mult.assoc)
      have "nat (e - w) = 0" "nat (w - (e + int k)) = 0" using True False by simp_all
      then show ?thesis
        using div_round_shift [of "n * 2 ^ nat (e + int k - w)" "nat (w - e)" 1] by (simp add: split)
    next
      case gt: False
      then have "nat (w - e) = nat (w - (e + int k)) + k" by simp
      then have "(2::nat) ^ nat (w - e) = 2 ^ nat (w - (e + int k)) * 2 ^ k" by (simp add: power_add)
      then show ?thesis using gt False div_round_shift [of n k "2 ^ nat (w - (e + int k))"] by simp
    qed
  qed
  then show ?thesis using False by (simp add: f64_round_def Let_def w' w_def [symmetric])
qed (simp add: f64_round_def)

text \<open>The bits of a whole number below \<open>2 ^ 53\<close>.\<close>

definition whole_bits :: "nat \<Rightarrow> nat" where
  "whole_bits n = (floorlog 2 n + 1021) * 2 ^ 52 + n * 2 ^ (53 - floorlog 2 n)"

lemma whole_significand:
  assumes "0 < n" "n < 2 ^ 53"
  shows "floorlog 2 n \<le> 53" "2 ^ 52 \<le> n * 2 ^ (53 - floorlog 2 n)" "n * 2 ^ (53 - floorlog 2 n) < 2 ^ 53"
proof -
  show le: "floorlog 2 n \<le> 53" using floorlog_le_53 [OF assms(2)] .
  have pos: "0 < floorlog 2 n" using assms(1) by (simp add: floorlog_def)
  have bounds: "2 ^ (floorlog 2 n - 1) \<le> n" "n < 2 ^ floorlog 2 n"
    using floorlog_bounds [of n 2] assms(1) by simp_all
  have "2 ^ (floorlog 2 n - 1) * 2 ^ (53 - floorlog 2 n) = (2 :: nat) ^ 52"
    unfolding power_add [symmetric] using pos le by simp
  then show "2 ^ 52 \<le> n * 2 ^ (53 - floorlog 2 n)" using bounds(1) by (metis mult_le_mono1)
  have "2 ^ floorlog 2 n * 2 ^ (53 - floorlog 2 n) = (2 :: nat) ^ 53"
    unfolding power_add [symmetric] using le by simp
  then show "n * 2 ^ (53 - floorlog 2 n) < 2 ^ 53" using bounds(2) by (metis mult_less_mono1 zero_less_power pos2)
qed

lemma whole_bits_less:
  assumes "0 < n" "n < 2 ^ 53"
  shows "whole_bits n < 2 ^ 63 - 2 ^ 52"
proof -
  have "whole_bits n < (53 + 1021) * 2 ^ 52 + 2 ^ 53"
    unfolding whole_bits_def using whole_significand [OF assms] by (intro add_le_less_mono mult_le_mono1) auto
  then show ?thesis by simp
qed

lemma f64_of_nat_bits:
  assumes "0 < n" "n < 2 ^ 53"
  shows "f64_round neg n 1 0 = f64_bits neg (whole_bits n)"
proof -
  have le: "floorlog 2 n \<le> 53" by (rule whole_significand [OF assms])
  have w: "max (0 + ratio_bits n 1 - 53) (- 1074) = int (floorlog 2 n) - 53"
    using assms(1) by (simp add: ratio_bits_1)
  have eqs: "nat (int (floorlog 2 n) - 53 + 1074) = floorlog 2 n + 1021"
    "nat (0 - (int (floorlog 2 n) - 53)) = 53 - floorlog 2 n" "nat (int (floorlog 2 n) - 53 - 0) = 0"
    using le by simp_all
  have "f64_round neg n 1 0 = f64_bits neg (min (2047 * 2 ^ 52)
      ((floorlog 2 n + 1021) * 2 ^ 52 + div_round (n * 2 ^ (53 - floorlog 2 n)) (1 * 2 ^ 0)))"
    using assms(1) unfolding f64_round_def Let_def w eqs by simp
  also have "div_round (n * 2 ^ (53 - floorlog 2 n)) (1 * 2 ^ 0) = n * 2 ^ (53 - floorlog 2 n)"
    using div_round_exact [of 1] by simp
  also have "min (2047 * 2 ^ 52) ((floorlog 2 n + 1021) * 2 ^ 52 + n * 2 ^ (53 - floorlog 2 n)) = whole_bits n"
    using whole_bits_less [OF assms] unfolding whole_bits_def by (intro min_absorb2) simp
  finally show ?thesis .
qed

lemma unat_f64_bits: "m < 2 ^ 63 \<Longrightarrow> unat (f64_bits neg m) = (if neg then 2 ^ 63 + m else m)"
  by (simp add: f64_bits_def unat_of_nat take_bit_eq_mod)

lemma f64_bits_decode:
  assumes "k < 2047" "m < 2 ^ 52"
  shows "f64_exponent (f64_bits neg (k * 2 ^ 52 + m)) = k" "f64_fraction (f64_bits neg (k * 2 ^ 52 + m)) = m"
    "f64_negative (f64_bits neg (k * 2 ^ 52 + m)) = neg"
proof -
  have less: "k * 2 ^ 52 + m < 2 ^ 63" using assms by simp
  have bits: "unat (f64_bits neg (k * 2 ^ 52 + m)) = ((if neg then 2 ^ 11 else 0) + k) * 2 ^ 52 + m"
    unfolding unat_f64_bits [OF less] by simp
  have quotient: "(c * 2 ^ 52 + m) div 2 ^ 52 = c" for c using assms(2) by simp
  have remainder: "(c * 2 ^ 52 + m) mod 2 ^ 52 = m" for c using assms(2) by simp
  show "f64_exponent (f64_bits neg (k * 2 ^ 52 + m)) = k"
    unfolding f64_exponent_def bits quotient using assms(1) by simp
  show "f64_fraction (f64_bits neg (k * 2 ^ 52 + m)) = m"
    unfolding f64_fraction_def bits remainder by (rule refl)
  show "f64_negative (f64_bits neg (k * 2 ^ 52 + m)) = neg"
    unfolding f64_negative_def bits using less by simp
qed

text \<open>A signed whole number as a double, and what its bits say.\<close>

definition f64_whole :: "bool \<Rightarrow> nat \<Rightarrow> f64" where
  "f64_whole neg n = (if n = 0 then 0 else f64_bits neg (whole_bits n))"

lemma whole_bits_split:
  assumes "0 < n" "n < 2 ^ 53"
  shows "whole_bits n = (floorlog 2 n + 1022) * 2 ^ 52 + (n * 2 ^ (53 - floorlog 2 n) - 2 ^ 52)"
  using whole_significand(2) [OF assms] by (simp add: whole_bits_def)

lemma f64_whole_decode:
  assumes "0 < n" "n < 2 ^ 53"
  shows "f64_exponent (f64_whole neg n) = floorlog 2 n + 1022"
    "f64_significand (f64_whole neg n) = n * 2 ^ (53 - floorlog 2 n)"
    "f64_scale (f64_whole neg n) = - int (53 - floorlog 2 n)"
    "f64_negative (f64_whole neg n) = neg"
proof -
  have sig: "n * 2 ^ (53 - floorlog 2 n) - 2 ^ 52 < 2 ^ 52" "floorlog 2 n + 1022 < 2047" "floorlog 2 n \<le> 53"
    using whole_significand [OF assms] by simp_all
  note decode = f64_bits_decode [OF sig(2,1)]
  show exp: "f64_exponent (f64_whole neg n) = floorlog 2 n + 1022"
    using decode(1) assms by (simp add: f64_whole_def whole_bits_split)
  show "f64_significand (f64_whole neg n) = n * 2 ^ (53 - floorlog 2 n)"
    using decode(2) exp assms whole_significand(2) [OF assms]
    by (simp add: f64_significand_def) (simp add: f64_whole_def whole_bits_split)
  show "f64_scale (f64_whole neg n) = - int (53 - floorlog 2 n)" using sig(3) by (simp add: f64_scale_def exp)
  show "f64_negative (f64_whole neg n) = neg"
    using decode(3) assms by (simp add: f64_whole_def whole_bits_split)
qed

lemma f64_is_nan_exponent: "f64_is_nan x \<Longrightarrow> f64_exponent x = 2047"
proof -
  assume "f64_is_nan x"
  then have nan: "x AND push_bit 52 (mask 11) = push_bit 52 (mask 11)"
    by (simp add: f64_is_nan_def push_bit_eq_mult mask_eq_exp_minus_1)
  have "bit x (52 + n)" if "n < 11" for n
  proof -
    from that have "bit (push_bit 52 (mask 11) :: f64) (52 + n)" by (simp add: bit_push_bit_iff bit_mask_iff)
    then have "bit (x AND push_bit 52 (mask 11)) (52 + n)" by (simp only: nan)
    then show ?thesis by (simp only: bit_and_iff)
  qed
  then have "take_bit 11 (drop_bit 52 (unat x)) = mask 11"
    by (auto intro!: bit_eqI simp: bit_take_bit_iff bit_drop_bit_eq bit_unsigned_iff bit_mask_iff)
  then show ?thesis by (simp add: f64_exponent_def drop_bit_eq_div take_bit_eq_mod mask_eq_exp_minus_1)
qed


lemma f64_whole_finite:
  assumes "n < 2 ^ 53"
  shows "f64_is_finite (f64_whole neg n)" "\<not> f64_is_nan (f64_whole neg n)"
proof -
  have less: "f64_exponent (f64_whole neg n) < 2047"
  proof (cases "n = 0")
    case True
    then show ?thesis by (simp add: f64_whole_def f64_exponent_def)
  next
    case False
    then show ?thesis using f64_whole_decode(1) [of n neg] floorlog_le_53 [OF assms] assms by simp
  qed
  then show "f64_is_finite (f64_whole neg n)" "\<not> f64_is_nan (f64_whole neg n)"
    by (auto simp: f64_is_finite_def dest: f64_is_nan_exponent)
qed

lemma f64_of_nat_whole: "n < 2 ^ 53 \<Longrightarrow> f64_of_nat n = f64_whole False n"
  using f64_of_nat_bits [of n False]
  by (cases "n = 0") (simp_all add: f64_of_nat_def f64_whole_def, simp add: f64_round_def f64_bits_def)

text \<open>A rounded dyadic that is a whole number below \<open>2 ^ 53\<close>.\<close>

lemma f64_round_whole:
  assumes "0 < n" "n < 2 ^ 53"
  shows "f64_round neg (n * 2 ^ k) 1 (- int k) = f64_whole neg n"
  using f64_round_shift [of neg n k "- int k"] f64_of_nat_bits [OF assms, of neg] assms(1) by (simp add: f64_whole_def)

lemma f64_mul_whole:
  assumes "a < 2 ^ 53" "b < 2 ^ 53" "a * b < 2 ^ 53" "a \<noteq> 0" "b \<noteq> 0"
  shows "f64_mul (f64_whole s a) (f64_whole t b) = f64_whole (s \<noteq> t) (a * b)"
proof -
  note [simp] = f64_whole_decode [of a s] f64_whole_decode [of b t] f64_whole_finite
  have "f64_mul (f64_whole s a) (f64_whole t b) = f64_round (s \<noteq> t)
      (a * 2 ^ (53 - floorlog 2 a) * (b * 2 ^ (53 - floorlog 2 b))) 1
      (- int (53 - floorlog 2 a) + - int (53 - floorlog 2 b))"
    using assms by (simp add: f64_mul_def)
  also have "a * 2 ^ (53 - floorlog 2 a) * (b * 2 ^ (53 - floorlog 2 b))
      = a * b * 2 ^ (53 - floorlog 2 a + (53 - floorlog 2 b))" by (simp add: power_add)
  also have "- int (53 - floorlog 2 a) + - int (53 - floorlog 2 b) = - int (53 - floorlog 2 a + (53 - floorlog 2 b))"
    by simp
  also have "f64_round (s \<noteq> t) (a * b * 2 ^ (53 - floorlog 2 a + (53 - floorlog 2 b))) 1 \<dots> = f64_whole (s \<noteq> t) (a * b)"
    using assms by (intro f64_round_whole) simp_all
  finally show ?thesis .
qed

lemma f64_zero [simp]: "f64_negative 0 = False" "f64_exponent 0 = 0" "f64_significand 0 = 0" "f64_scale 0 = - 1074"
  by (simp_all add: f64_negative_def f64_exponent_def f64_significand_def f64_fraction_def f64_scale_def)

lemma f64_whole_0 [simp]: "f64_whole neg 0 = 0"
  by (simp add: f64_whole_def)

lemma f64_scale_whole_neg: "n < 2 ^ 53 \<Longrightarrow> f64_scale (f64_whole s n) \<le> 0"
  using f64_whole_decode(3) [of n s] by (cases "n = 0") simp_all

lemma f64_int_whole:
  assumes "n < 2 ^ 53" "e \<le> f64_scale (f64_whole s n)"
  shows "f64_int (f64_whole s n) e = (if s then - int (n * 2 ^ nat (- e)) else int (n * 2 ^ nat (- e)))"
proof (cases "n = 0")
  case False
  define j where "j = 53 - floorlog 2 n"
  have scale: "f64_scale (f64_whole s n) = - int j" "f64_significand (f64_whole s n) = n * 2 ^ j"
    using f64_whole_decode [of n s] False assms(1) by (simp_all add: j_def)
  then have "e \<le> - int j" using assms(2) by simp
  then have "nat (- e) = j + nat (- int j - e)" by simp
  then have "f64_significand (f64_whole s n) * 2 ^ nat (f64_scale (f64_whole s n) - e) = n * 2 ^ nat (- e)"
    by (simp add: scale power_add)
  then show ?thesis
    using f64_whole_decode(4) [of n s] False assms(1) by (simp only: f64_int_def Let_def neq0_conv if_True if_False)
qed (simp add: f64_int_def)

lemma f64_add_whole:
  assumes "a + b < 2 ^ 53"
  shows "f64_add (f64_whole s a) (f64_whole s b) = f64_whole s (a + b)"
proof -
  have less: "a < 2 ^ 53" "b < 2 ^ 53" using assms by simp_all
  define e where "e = min (f64_scale (f64_whole s a)) (f64_scale (f64_whole s b))"
  have e: "e \<le> f64_scale (f64_whole s a)" "e \<le> f64_scale (f64_whole s b)" "e = - int (nat (- e))"
    using f64_scale_whole_neg [OF less(1), of s] unfolding e_def by linarith+
  have sum: "f64_int (f64_whole s a) e + f64_int (f64_whole s b) e
      = (if s then - int ((a + b) * 2 ^ nat (- e)) else int ((a + b) * 2 ^ nat (- e)))"
    using less e by (simp add: f64_int_whole distrib_right)
  have add: "f64_add (f64_whole s a) (f64_whole s b) = (let z = f64_int (f64_whole s a) e + f64_int (f64_whole s b) e in
      if z = 0 then f64_bits (f64_negative (f64_whole s a) \<and> f64_negative (f64_whole s b)) 0
      else f64_round (z < 0) (nat \<bar>z\<bar>) 1 e)"
    using f64_whole_finite [OF less(1), of s] f64_whole_finite [OF less(2), of s]
    by (simp add: f64_add_def e_def [symmetric] Let_def)
  show ?thesis
  proof (cases "a + b = 0")
    case True
    then have "a = 0" "b = 0" by simp_all
    then show ?thesis using add by (simp add: f64_bits_def f64_int_def)
  next
    case False
    have "f64_add (f64_whole s a) (f64_whole s b) = f64_round s ((a + b) * 2 ^ nat (- e)) 1 e"
    proof -
      define m where "m = (a + b) * 2 ^ nat (- e)"
      have "m \<noteq> 0" using False by (simp add: m_def)
      then show ?thesis unfolding add Let_def sum m_def [symmetric] by (cases s) simp_all
    qed
    also have "\<dots> = f64_round s ((a + b) * 2 ^ nat (- e)) 1 (- int (nat (- e)))" using e(3) by simp
    also have "\<dots> = f64_whole s (a + b)" using False assms by (intro f64_round_whole) simp_all
    finally show ?thesis .
  qed
qed

text \<open>Whole numbers are ordered as their doubles.\<close>

lemma whole_bits_strict_mono:
  assumes "0 < a" "a < b" "b < 2 ^ 53"
  shows "whole_bits a < whole_bits b"
proof -
  have a: "a < 2 ^ 53" using assms by simp
  have "floorlog 2 a \<le> floorlog 2 b" using assms by (intro floorlog_mono) simp
  then consider "floorlog 2 a = floorlog 2 b" | "floorlog 2 a + 1 \<le> floorlog 2 b" by linarith
  then show ?thesis
  proof cases
    case 1
    then show ?thesis using assms by (simp add: whole_bits_def)
  next
    case 2
    have "whole_bits a < (floorlog 2 a + 1021) * 2 ^ 52 + 2 ^ 53"
      using whole_significand(3) [OF assms(1) a] by (simp add: whole_bits_def)
    also have "\<dots> = (floorlog 2 a + 1 + 1021) * 2 ^ 52 + 2 ^ 52" by simp
    also have "\<dots> \<le> (floorlog 2 b + 1021) * 2 ^ 52 + 2 ^ 52" using 2 by simp
    also have "\<dots> \<le> whole_bits b"
      using whole_significand(2) [of b] assms by (simp add: whole_bits_def)
    finally show ?thesis .
  qed
qed

lemma f64_key_nonneg: "unat x < 2 ^ 63 \<Longrightarrow> f64_key x = int (unat x)"
proof -
  assume x: "unat x < 2 ^ 63"
  have "\<not> bit (unat x) 63" by (simp add: bit_iff_odd) (use x in simp)
  then have "\<not> bit x 63" by (simp add: bit_unsigned_iff)
  then have "signed_drop_bit 63 x = 0"
    by (auto intro!: bit_word_eqI simp: bit_signed_drop_bit_iff not_le less_Suc_eq_0_disj split: if_splits)
  moreover have "sint x = uint x"
  proof -
    have "int (unat x) < int (2 ^ 63)" using x by (simp only: of_nat_less_iff)
    then have "uint x < 2 ^ 63" by simp
    moreover have "- (2 ^ 63) \<le> uint x" by (rule order_trans [of _ 0]) simp_all
    ultimately show ?thesis by (simp add: sint_uint signed_take_bit_int_eq_self)
  qed
  ultimately show ?thesis by (simp add: f64_key_def)
qed

lemma f64_cmp_whole:
  assumes "a < 2 ^ 53" "b < 2 ^ 53"
  shows "f64_total_cmp (normalize_zero (f64_of_nat a)) (normalize_zero (f64_of_nat b)) = compare a b"
proof -
  define bits where "bits n = (if n = 0 then 0 else whole_bits n)" for n
  have less: "bits n < 2 ^ 63" if "n < 2 ^ 53" for n
    using whole_bits_less [of n] that by (cases "n = 0") (simp_all add: bits_def)
  have of_nat: "f64_of_nat n = f64_bits False (bits n)" if "n < 2 ^ 53" for n
    using f64_of_nat_whole [OF that] by (simp add: f64_whole_def bits_def f64_bits_def)
  have unat: "unat (f64_of_nat n) = bits n" if "n < 2 ^ 53" for n
    using unat_f64_bits [OF less [OF that], of False] of_nat [OF that] by simp
  have norm: "normalize_zero (f64_of_nat n) = f64_of_nat n" if "n < 2 ^ 53" for n
  proof -
    have "f64_of_nat n \<noteq> 0x8000000000000000" using unat [OF that] less [OF that] by auto
    then show ?thesis using f64_whole_finite(2) [OF that, of False] f64_of_nat_whole [OF that]
      by (simp add: normalize_zero_def)
  qed
  have key: "f64_key (f64_of_nat n) = int (bits n)" if "n < 2 ^ 53" for n
    using f64_key_nonneg [of "f64_of_nat n"] unat [OF that] less [OF that] by simp
  have mono: "bits m < bits n" if "m < n" "n < 2 ^ 53" for m n
    using that whole_bits_strict_mono [of m n] by (auto simp: bits_def whole_bits_def)
  have "compare (int (bits a)) (int (bits b)) = compare a b"
    using mono [of a b] mono [of b a] assms by (cases a b rule: linorder_cases) (auto simp: compare_def)
  then show ?thesis using assms by (simp add: f64_total_cmp_def norm key)
qed

end
