(* ===== verification/Durations.thy ===== *)
theory Durations
  imports Rust_Float Field_Keys
begin

text \<open>
  Duration expressions (\<open>src/duration.rs\<close>): the unit registry, the scanner of whole inputs and of
  prefixes, the fold to seconds, arithmetic, and the canonical spelling of a number of seconds.  A byte
  offset into the input is represented by the bytes that are left.  The shortest decimal spelling of a
  double (\<open>Display\<close> and \<open>LowerExp\<close> of \<open>f64\<close>) is a parameter, needed only where the
  decomposition into units fails.
\<close>

section \<open>Units\<close>

definition unit_map :: "(string \<times> duration_unit) list" where
  "unit_map = [(''ms'', Millisecond), (''millisecond'', Millisecond), (''milliseconds'', Millisecond),
     (''s'', Second), (''sec'', Second), (''secs'', Second), (''second'', Second), (''seconds'', Second),
     (''m'', Minute), (''min'', Minute), (''mins'', Minute), (''minute'', Minute), (''minutes'', Minute),
     (''h'', Hour), (''hr'', Hour), (''hrs'', Hour), (''hour'', Hour), (''hours'', Hour),
     (''d'', Day), (''day'', Day), (''days'', Day),
     (''w'', Week), (''wk'', Week), (''wks'', Week), (''week'', Week), (''weeks'', Week),
     (''mo'', Month), (''mos'', Month), (''month'', Month), (''months'', Month),
     (''y'', Year), (''yr'', Year), (''yrs'', Year), (''year'', Year), (''years'', Year)]"

definition duration_unit_parse :: "string \<Rightarrow> duration_unit option" where
  "duration_unit_parse unit =
     (if 16 < length unit then None else map_of unit_map (map to_ascii_lower unit))"

fun fixed_seconds :: "duration_unit \<Rightarrow> f64" where
  "fixed_seconds Millisecond = f64_of_decimal False 1 (- 3)"
| "fixed_seconds Second = f64_of_nat 1"
| "fixed_seconds Minute = f64_of_nat 60"
| "fixed_seconds Hour = f64_of_nat 3600"
| "fixed_seconds Day = f64_of_nat 86400"
| "fixed_seconds Week = f64_of_nat 604800"
| "fixed_seconds Month = f64_of_nat 2592000"
| "fixed_seconds Year = f64_of_nat 31536000"

section \<open>Seconds\<close>

datatype duration_error =
  EmptyDuration
| MissingNumber string
| InvalidNumber string
| MalformedNumber string
| MissingUnit string
| UnknownUnit string
| NonFiniteNumber string
| NonFiniteSeconds

definition seconds_normalized :: "f64 \<Rightarrow> f64" where
  "seconds_normalized value = (if f64_eq value 0 then 0 else value)"

definition seconds_try_from :: "f64 \<Rightarrow> (duration_error, f64) result" where
  "seconds_try_from secs = (if f64_is_finite secs then Ok (seconds_normalized secs) else Err NonFiniteSeconds)"

definition seconds_add :: "f64 \<Rightarrow> f64 \<Rightarrow> f64" where "seconds_add a b = seconds_normalized (f64_add a b)"
definition seconds_sub :: "f64 \<Rightarrow> f64 \<Rightarrow> f64" where "seconds_sub a b = seconds_normalized (f64_sub a b)"
definition seconds_mul :: "f64 \<Rightarrow> f64 \<Rightarrow> f64" where "seconds_mul a k = seconds_normalized (f64_mul a k)"

record f64_text =
  text_plain :: "f64 \<Rightarrow> string"
  text_scientific :: "f64 \<Rightarrow> string"

definition seconds_display :: "f64_text \<Rightarrow> f64 \<Rightarrow> string" where
  "seconds_display ft value = (let magnitude = f64_abs value in
     if \<not> f64_eq magnitude 0
        \<and> \<not> (\<not> f64_less magnitude (f64_of_decimal False 1 (- 6)) \<and> \<not> f64_is_nan magnitude
             \<and> f64_less magnitude (f64_of_decimal False 1 15))
     then text_scientific ft value else text_plain ft value)"

section \<open>The scanner\<close>

datatype scan_mode = WholeInput | PrefixInput

definition byte_whitespace :: "char \<Rightarrow> bool" where "byte_whitespace b \<longleftrightarrow> ascii_whitespace [b]"

definition starts_digit :: "string \<Rightarrow> bool" where
  "starts_digit bytes \<longleftrightarrow> bytes \<noteq> [] \<and> ascii_digit (hd bytes)"

definition has_digits_after_sign :: "string \<Rightarrow> bool" where
  "has_digits_after_sign bytes \<longleftrightarrow> starts_digit bytes
     \<or> (bytes \<noteq> [] \<and> hd bytes = CHR ''.'' \<and> starts_digit (tl bytes))"

definition can_start_duration_segment :: "string \<Rightarrow> bool" where
  "can_start_duration_segment bytes \<longleftrightarrow> bytes \<noteq> []
     \<and> (ascii_digit (hd bytes)
        \<or> hd bytes = CHR ''.'' \<and> starts_digit (tl bytes)
        \<or> hd bytes \<in> {CHR ''+'', CHR ''-''} \<and> has_digits_after_sign (tl bytes))"

definition skip_separators :: "string \<Rightarrow> string" where
  "skip_separators bytes = dropWhile (\<lambda>b. byte_whitespace b \<or> b = CHR '','') bytes"

definition skip_whitespace :: "string \<Rightarrow> string" where
  "skip_whitespace bytes = dropWhile byte_whitespace bytes"

text \<open>The mantissa: digits and at most one point; whether there was a digit, and what is left.\<close>

fun scan_mantissa :: "bool \<Rightarrow> bool \<Rightarrow> string \<Rightarrow> bool \<times> string" where
  "scan_mantissa has_decimal has_digit [] = (has_digit, [])"
| "scan_mantissa has_decimal has_digit (b # bytes) =
     (if ascii_digit b then scan_mantissa has_decimal True bytes
      else if b = CHR ''.'' \<and> \<not> has_decimal then scan_mantissa True has_digit bytes
      else (has_digit, b # bytes))"

definition scan_exponent :: "string \<Rightarrow> string" where
  "scan_exponent bytes =
     (if bytes \<noteq> [] \<and> hd bytes \<in> {CHR ''e'', CHR ''E''}
      then let digits = (if tl bytes \<noteq> [] \<and> hd (tl bytes) \<in> {CHR ''+'', CHR ''-''} then tl (tl bytes) else tl bytes)
        in if starts_digit digits then dropWhile ascii_digit digits else bytes
      else bytes)"

text \<open>What is left after the digits: an exponent counts only after a digit.\<close>

definition after_digits :: "string \<Rightarrow> string" where
  "after_digits bytes = (case scan_mantissa False False bytes of
     (has_digit, rest) \<Rightarrow> if has_digit then scan_exponent rest else rest)"

definition parsed_number :: "string \<Rightarrow> string \<Rightarrow> string \<Rightarrow> (duration_error, f64 \<times> string) result" where
  "parsed_number input number_text rest =
     (if number_text = [] then Err (MissingNumber input)
      else case f64_parse number_text of
          None \<Rightarrow> Err (MalformedNumber input)
        | Some number \<Rightarrow> if f64_is_finite number then Ok (number, rest) else Err (NonFiniteNumber input))"

definition parse_number :: "string \<Rightarrow> string \<Rightarrow> (duration_error, f64 \<times> string) result" where
  "parse_number input bytes =
     (let signed = (bytes \<noteq> [] \<and> hd bytes \<in> {CHR ''+'', CHR ''-''}) in
      if signed \<and> \<not> has_digits_after_sign (tl bytes) then Err (InvalidNumber input)
      else let rest = after_digits (if signed then tl bytes else bytes)
        in parsed_number input (take (length bytes - length rest) bytes) rest)"

definition parse_unit :: "string \<Rightarrow> string \<Rightarrow> (duration_error, duration_unit \<times> string) result" where
  "parse_unit input bytes = (let unit = takeWhile ascii_alpha bytes in
     if unit = [] then Err (MissingUnit input)
     else case duration_unit_parse unit of
         None \<Rightarrow> Err (UnknownUnit input)
       | Some kind \<Rightarrow> Ok (kind, dropWhile ascii_alpha bytes))"

definition scan_part :: "string \<Rightarrow> string \<Rightarrow> (duration_error, f64 \<times> duration_unit \<times> string) result" where
  "scan_part input bytes = and_then (parse_number input bytes) (\<lambda>(number, after_number).
     and_then (parse_unit input (skip_whitespace after_number)) (\<lambda>(unit, rest). Ok (number, unit, rest)))"

lemma scan_mantissa_suffix: "scan_mantissa dec dig bytes = (h, rest) \<Longrightarrow> suffix rest bytes"
  by (induction dec dig bytes rule: scan_mantissa.induct) (auto split: if_splits intro: suffix_ConsI)

lemma scan_exponent_suffix: "suffix (scan_exponent bytes) bytes"
proof -
  have "suffix (dropWhile p (tl bytes)) bytes" "suffix (dropWhile p (tl (tl bytes))) bytes" for p
    using suffix_order.trans [OF suffix_dropWhile suffix_tl, of p bytes]
      suffix_order.trans [OF suffix_dropWhile suffix_order.trans [OF suffix_tl suffix_tl], of p bytes] by simp_all
  then show ?thesis by (simp add: scan_exponent_def Let_def)
qed

lemma after_digits_suffix: "suffix (after_digits bytes) bytes"
  unfolding after_digits_def
  using scan_mantissa_suffix [of False False bytes] suffix_order.trans [OF scan_exponent_suffix]
  by (auto split: prod.split)

lemma parse_number_suffix: "parse_number input bytes = Ok (number, rest) \<Longrightarrow> suffix rest bytes"
proof -
  assume "parse_number input bytes = Ok (number, rest)"
  then have "rest = after_digits bytes \<or> rest = after_digits (tl bytes)"
    unfolding parse_number_def Let_def parsed_number_def by (auto split: if_splits option.splits)
  then show ?thesis using after_digits_suffix suffix_order.trans [OF after_digits_suffix suffix_tl] by auto
qed

lemma parse_unit_less: "parse_unit input bytes = Ok (unit, rest) \<Longrightarrow> length rest < length bytes"
proof -
  assume "parse_unit input bytes = Ok (unit, rest)"
  then have "takeWhile ascii_alpha bytes \<noteq> []" "rest = dropWhile ascii_alpha bytes"
    by (auto simp: parse_unit_def Let_def split: if_splits option.splits)
  then show ?thesis
    using arg_cong [OF takeWhile_dropWhile_id [of ascii_alpha bytes], of length]
    by (cases "takeWhile ascii_alpha bytes") (simp_all del: takeWhile_dropWhile_id)
qed

lemma scan_part_less: "scan_part input bytes = Ok (number, unit, rest) \<Longrightarrow> length rest < length bytes"
proof -
  assume "scan_part input bytes = Ok (number, unit, rest)"
  then obtain mid where mid: "parse_number input bytes = Ok (number, mid)"
    "parse_unit input (skip_whitespace mid) = Ok (unit, rest)"
    by (auto simp: scan_part_def and_then_eq_Ok)
  have "length mid \<le> length bytes" using parse_number_suffix [OF mid(1)] by (rule suffix_length_le)
  moreover have "length (skip_whitespace mid) \<le> length mid" by (simp add: skip_whitespace_def length_dropWhile_le)
  ultimately show ?thesis using parse_unit_less [OF mid(2)] by simp
qed

type_synonym duration_parts = "(f64 \<times> duration_unit) list"

text \<open>The loop of \<open>scan_duration\<close>: whether a part was negative, the magnitudes, and what is left
  after the last part.\<close>

function scan_parts ::
  "scan_mode \<Rightarrow> string \<Rightarrow> bool \<Rightarrow> duration_parts \<Rightarrow> string \<Rightarrow> string
    \<Rightarrow> (duration_error, bool \<times> duration_parts \<times> string) result"
where
  "scan_parts mode input is_negative parts last_end bytes =
     (if bytes = [] then Ok (is_negative, parts, last_end)
      else case scan_part input bytes of
          Inl e \<Rightarrow> Err e
        | Inr (number, kind, rest) \<Rightarrow>
            if f64_negative number \<and> parts \<noteq> [] then Err (InvalidNumber input)
            else let is_negative' = (is_negative \<or> f64_negative number);
                parts' = parts @ [(f64_abs number, kind)] in
              (case mode of
                 WholeInput \<Rightarrow> scan_parts mode input is_negative' parts' rest (skip_separators rest)
               | PrefixInput \<Rightarrow>
                   if can_start_duration_segment (skip_whitespace rest)
                   then scan_parts mode input is_negative' parts' rest (skip_whitespace rest)
                   else Ok (is_negative', parts', rest)))"
  by pat_completeness auto

termination
  by (relation "measure (\<lambda>(_, _, _, _, _, bytes). length bytes)")
    (auto simp: skip_separators_def skip_whitespace_def dest!: scan_part_less
      intro: le_less_trans [OF length_dropWhile_le])

declare scan_parts.simps [simp del]

definition apply_sign :: "bool \<Rightarrow> duration_parts \<Rightarrow> duration_parts" where
  "apply_sign is_negative parts =
     (let s = (if is_negative then f64_neg (f64_of_nat 1) else f64_of_nat 1) in
      map (\<lambda>(m, unit). (f64_mul m s, unit)) parts)"

definition fold_parts :: "duration_parts \<Rightarrow> f64" where
  "fold_parts parts = foldl (\<lambda>acc (magnitude, unit). f64_add acc (f64_mul magnitude (fixed_seconds unit))) 0 parts"

text \<open>The value, and the length of what was read.\<close>

definition scan_duration :: "scan_mode \<Rightarrow> string \<Rightarrow> (duration_error, duration \<times> nat) result" where
  "scan_duration mode input =
     (let start = (case mode of WholeInput \<Rightarrow> skip_separators input | PrefixInput \<Rightarrow> input) in
      if start = [] \<or> mode = PrefixInput \<and> \<not> can_start_duration_segment start then Err EmptyDuration
      else and_then (scan_parts mode input False [] input start) (\<lambda>(is_negative, parts, rest).
        if parts = [] then Err EmptyDuration
        else let signed = apply_sign is_negative parts; last_end = length input - length rest in
          and_then (seconds_try_from (fold_parts signed)) (\<lambda>seconds.
            Ok (\<lparr> duration_raw = (case mode of WholeInput \<Rightarrow> trim input | PrefixInput \<Rightarrow> trim (take last_end input)),
                 duration_seconds = seconds, duration_parts = Some signed \<rparr>, last_end))))"

definition duration_parse :: "string \<Rightarrow> (duration_error, duration) result" where
  "duration_parse input = (let trimmed = trim input in
     if trimmed = [] then Err EmptyDuration
     else and_then (scan_duration WholeInput trimmed) (\<lambda>(d, _). Ok d))"

definition duration_classify :: "string \<Rightarrow> (duration_error, duration) result option" where
  "duration_classify s = (let trimmed = trim s in
     if trimmed = [] \<or> \<not> can_start_duration_segment trimmed then None
     else Some (duration_parse trimmed))"

definition duration_parse_prefix :: "string \<Rightarrow> (duration \<times> nat) option" where
  "duration_parse_prefix input = (case scan_duration PrefixInput input of Inr r \<Rightarrow> Some r | Inl _ \<Rightarrow> None)"

section \<open>The canonical spelling\<close>

text \<open>\<open>Display\<close> of a \<open>u64\<close>.\<close>

fun nat_text :: "nat \<Rightarrow> string" where
  "nat_text n = (if n < 10 then [char_of (48 + n)] else nat_text (n div 10) @ [char_of (48 + n mod 10)])"

declare nat_text.simps [simp del]

definition decomposition_units :: "(duration_unit \<times> string) list" where
  "decomposition_units = [(Week, ''w''), (Day, ''d''), (Hour, ''h''), (Minute, ''m''), (Second, ''s''),
     (Millisecond, ''ms'')]"

definition to_ms :: "f64 \<Rightarrow> nat" where
  "to_ms secs = (case f64_round_to_u64 (f64_mul secs (f64_of_nat 1000)) of Some n \<Rightarrow> n | None \<Rightarrow> 0)"

fun decompose :: "(duration_unit \<times> string) list \<Rightarrow> nat \<Rightarrow> string \<Rightarrow> bool \<Rightarrow> string \<times> bool" where
  "decompose [] total_ms raw decomposed = (raw, decomposed)"
| "decompose ((unit, unit_suffix) # units) total_ms raw decomposed =
     (let unit_ms = to_ms (fixed_seconds unit) in
      if unit_ms \<le> total_ms
      then decompose units (total_ms mod unit_ms)
        (raw @ (if decomposed then '' '' else []) @ nat_text (total_ms div unit_ms) @ unit_suffix) True
      else decompose units total_ms raw decomposed)"

definition canonical_raw :: "f64_text \<Rightarrow> f64 \<Rightarrow> string" where
  "canonical_raw ft seconds =
     (if f64_eq seconds 0 then ''0s''
      else let (raw, decomposed) = decompose decomposition_units (to_ms (f64_abs seconds))
            (if f64_less seconds 0 then ''-'' else []) False
        in if decomposed then raw else seconds_display ft seconds @ ''s'')"

definition duration_from_seconds :: "f64_text \<Rightarrow> f64 \<Rightarrow> duration" where
  "duration_from_seconds ft seconds =
     \<lparr> duration_raw = canonical_raw ft seconds, duration_seconds = seconds, duration_parts = None \<rparr>"

section \<open>Arithmetic\<close>

definition duration_combine :: "f64_text \<Rightarrow> duration \<Rightarrow> duration \<Rightarrow> bool \<Rightarrow> duration" where
  "duration_combine ft a b negate = (case (duration_parts a, duration_parts b) of
       (Some lhs, Some rhs) \<Rightarrow>
         let combined = lhs @ (if negate then map (\<lambda>(m, unit). (f64_neg m, unit)) rhs else rhs);
           seconds = seconds_normalized (fold_parts combined)
         in \<lparr> duration_raw = canonical_raw ft seconds, duration_seconds = seconds, duration_parts = Some combined \<rparr>
     | _ \<Rightarrow>
         let seconds = (if negate then seconds_sub (duration_seconds a) (duration_seconds b)
             else seconds_add (duration_seconds a) (duration_seconds b))
         in \<lparr> duration_raw = canonical_raw ft seconds, duration_seconds = seconds, duration_parts = None \<rparr>)"

definition duration_add :: "f64_text \<Rightarrow> duration \<Rightarrow> duration \<Rightarrow> duration" where
  "duration_add ft a b = duration_combine ft a b False"

definition duration_sub :: "f64_text \<Rightarrow> duration \<Rightarrow> duration \<Rightarrow> duration" where
  "duration_sub ft a b = duration_combine ft a b True"

definition duration_mul :: "f64_text \<Rightarrow> duration \<Rightarrow> f64 \<Rightarrow> duration" where
  "duration_mul ft d k = (case duration_parts d of
       Some parts \<Rightarrow>
         let scaled = map (\<lambda>(m, unit). (f64_mul m k, unit)) parts;
           seconds = seconds_normalized (fold_parts scaled)
         in \<lparr> duration_raw = canonical_raw ft seconds, duration_seconds = seconds, duration_parts = Some scaled \<rparr>
     | None \<Rightarrow>
         let seconds = seconds_mul (duration_seconds d) k
         in \<lparr> duration_raw = canonical_raw ft seconds, duration_seconds = seconds, duration_parts = None \<rparr>)"

section \<open>Whole seconds round-trip\<close>

subsection \<open>Printed numbers\<close>

lemma ascii_digit_iff: "ascii_digit c \<longleftrightarrow> (48 :: nat) \<le> of_char c \<and> of_char c \<le> (57 :: nat)"
  by (simp add: ascii_digit_def less_eq_char_def)

lemma nat_text_digits: "nat_text n \<noteq> [] \<and> list_all ascii_digit (nat_text n)"
proof (induction n rule: nat_text.induct)
  case (1 n)
  have digit: "ascii_digit (char_of (48 + d))" if "d < 10" for d :: nat
    using that by (simp add: ascii_digit_iff)
  show ?case
  proof (cases "n < 10")
    case True
    then show ?thesis using digit [of n] by (simp add: nat_text.simps [of n])
  next
    case False
    then show ?thesis using 1 digit [of "n mod 10"] by (simp add: nat_text.simps [of n])
  qed
qed

lemma digits_value_nat_text: "digits_value (nat_text n) = n"
proof (induction n rule: nat_text.induct)
  case (1 n)
  have digit: "digit_value (char_of (48 + d)) = d" if "d < 10" for d
    using that by (simp add: digit_value_def)
  show ?case
  proof (cases "n < 10")
    case True
    then show ?thesis using digit [of n] by (simp add: nat_text.simps [of n] digits_value_def)
  next
    case False
    then show ?thesis using 1 digit [of "n mod 10"] by (simp add: nat_text.simps [of n] digits_value_def)
  qed
qed

lemma digit_char_facts:
  assumes "ascii_digit c"
  shows "ascii c" "c \<notin> {CHR ''.'', CHR ''+'', CHR ''-'', CHR '' '', CHR '',''}" "\<not> ascii_alpha c"
    "\<not> ascii_upper c" "\<not> is_whitespace [c]"
  using assms by (auto simp: ascii_digit_iff ascii_def ascii_alpha_def ascii_upper_def ascii_lower_def
      less_eq_char_def is_whitespace_def)

definition num_text :: "bool \<Rightarrow> nat \<Rightarrow> string" where
  "num_text s n = (if s then ''-'' else []) @ nat_text n"

lemma nat_text_shape: "\<exists>d ds. nat_text n = d # ds \<and> ascii_digit d \<and> list_all ascii_digit ds"
  using nat_text_digits [of n] by (cases "nat_text n") auto

lemma f64_of_decimal_0: "f64_of_decimal s n 0 = f64_round s n 1 0"
  by (simp add: f64_of_decimal_def)

lemma f64_parse_digits:
  assumes "ds \<noteq> []" "list_all ascii_digit ds"
  shows "f64_parse_magnitude s ds = Some (f64_of_decimal s (digits_value ds) 0)"
proof -
  obtain d ds' where d: "ds = d # ds'" "ascii_digit d" using assms by (cases ds) auto
  have "to_ascii_lower d = d" using digit_char_facts(4) [OF d(2)] by (simp add: to_ascii_lower_def)
  moreover have "d \<noteq> CHR ''i''" "d \<noteq> CHR ''n''" using d(2) by (auto simp: ascii_digit_iff)
  ultimately have no_name: "\<not> eq_ignore_ascii_case ds ''inf''" "\<not> eq_ignore_ascii_case ds ''infinity''"
    "\<not> eq_ignore_ascii_case ds ''nan''"
    by (simp_all add: eq_ignore_ascii_case_def d(1) to_ascii_lower_def ascii_upper_def less_eq_char_def)
  have all: "takeWhile ascii_digit ds = ds" "dropWhile ascii_digit ds = []"
    using assms(2) by (simp_all add: list_all_iff)
  show ?thesis
    using assms(1) unfolding f64_parse_magnitude_def Let_def all
    by (simp add: no_name decimal_exponent_def)
qed

lemma f64_parse_num_text:
  assumes "n < 2 ^ 53" "s \<Longrightarrow> 0 < n"
  shows "f64_parse (num_text s n) = Some (f64_whole s n)"
proof -
  have digits: "nat_text n \<noteq> []" "list_all ascii_digit (nat_text n)" using nat_text_digits by simp_all
  have round: "f64_round s n 1 0 = f64_whole s n"
  proof (cases "n = 0")
    case True
    then show ?thesis using assms(2) by (auto simp: f64_round_def f64_bits_def)
  next
    case False
    then show ?thesis using f64_of_nat_bits [of n s] assms(1) by (simp add: f64_whole_def)
  qed
  have "f64_parse (num_text s n) = f64_parse_magnitude s (nat_text n)"
  proof (cases s)
    case False
    obtain d ds where "nat_text n = d # ds" "ascii_digit d" using nat_text_shape by blast
    then show ?thesis using digit_char_facts(2) [of d] False by (simp add: f64_parse_def num_text_def)
  qed (simp add: f64_parse_def num_text_def)
  then show ?thesis
    using f64_parse_digits [OF digits] round by (simp add: digits_value_nat_text f64_of_decimal_0)
qed

definition ends_number :: "string \<Rightarrow> bool" where
  "ends_number rest \<longleftrightarrow> (case rest of [] \<Rightarrow> True
     | c # _ \<Rightarrow> \<not> ascii_digit c \<and> c \<noteq> CHR ''.'' \<and> c \<noteq> CHR ''e'' \<and> c \<noteq> CHR ''E'')"

lemma scan_mantissa_digits:
  "list_all ascii_digit ds \<Longrightarrow> ends_number rest
    \<Longrightarrow> scan_mantissa False dig (ds @ rest) = (dig \<or> ds \<noteq> [], rest)"
  by (induction ds arbitrary: dig) (auto simp: ends_number_def split: list.splits)

lemma after_digits_number:
  "ends_number rest \<Longrightarrow> after_digits (nat_text n @ rest) = rest"
  using nat_text_digits [of n] scan_mantissa_digits [of "nat_text n" rest False]
  by (auto simp: after_digits_def scan_exponent_def ends_number_def split: list.splits)

lemma parse_number_num_text:
  assumes "n < 2 ^ 53" "s \<Longrightarrow> 0 < n" "ends_number rest"
  shows "parse_number input (num_text s n @ rest) = Ok (f64_whole s n, rest)"
proof -
  obtain d ds where d: "nat_text n = d # ds" "ascii_digit d" using nat_text_shape by blast
  have "parsed_number input (num_text s n) rest = Ok (f64_whole s n, rest)"
    using f64_parse_num_text [OF assms(1,2)] f64_whole_finite(1) [OF assms(1)] d(1)
    by (auto simp: parsed_number_def num_text_def)
  moreover have "parse_number input (num_text s n @ rest) = parsed_number input (num_text s n) rest"
    using after_digits_number [OF assms(3), of n] digit_char_facts(2) [OF d(2)] d
    by (cases s) (simp_all add: parse_number_def num_text_def has_digits_after_sign_def starts_digit_def Let_def)
  ultimately show ?thesis by simp
qed

text \<open>The units the canonical spelling uses for whole seconds, with their seconds.\<close>

definition whole_units :: "(duration_unit \<times> string \<times> nat) list" where
  "whole_units = [(Week, ''w'', 604800), (Day, ''d'', 86400), (Hour, ''h'', 3600), (Minute, ''m'', 60), (Second, ''s'', 1)]"

lemma whole_units_cases:
  assumes "(u, w, k) \<in> set whole_units"
  obtains "u = Week" "w = ''w''" "k = 604800" | "u = Day" "w = ''d''" "k = 86400"
    | "u = Hour" "w = ''h''" "k = 3600" | "u = Minute" "w = ''m''" "k = 60" | "u = Second" "w = ''s''" "k = 1"
  using assms by (auto simp: whole_units_def)

lemma whole_unit_parse:
  assumes "(u, w, k) \<in> set whole_units"
  shows "duration_unit_parse w = Some u" "w \<noteq> []" "list_all ascii_alpha w" "ends_number (w @ rest)"
    "\<not> is_whitespace [last w]" "list_all ascii w" "\<not> byte_whitespace (hd w)" "fixed_seconds u = f64_whole False k"
    "0 < k" "k \<le> 604800"
proof -
  show "duration_unit_parse w = Some u"
    using assms by (rule whole_units_cases) (simp only:, code_simp)+
  show "w \<noteq> []" "list_all ascii_alpha w" "ends_number (w @ rest)" "\<not> is_whitespace [last w]" "list_all ascii w"
    "\<not> byte_whitespace (hd w)" "0 < k" "k \<le> 604800"
    using assms by (auto elim!: whole_units_cases simp: ends_number_def ascii_alpha_def ascii_lower_def ascii_upper_def
        less_eq_char_def ascii_digit_iff is_whitespace_def ascii_def byte_whitespace_def ascii_whitespace_def)
  show "fixed_seconds u = f64_whole False k"
    using assms by (auto elim!: whole_units_cases simp: f64_of_nat_whole)
qed

lemma scan_part_text:
  assumes "(u, w, k) \<in> set whole_units" "n < 2 ^ 53" "s \<Longrightarrow> 0 < n" "rest = [] \<or> hd rest = CHR '' ''"
  shows "scan_part input (num_text s n @ w @ rest) = Ok (f64_whole s n, u, rest)"
proof -
  note w = whole_unit_parse [OF assms(1)]
  have "\<not> ascii_alpha (CHR '' '')" by (simp add: ascii_alpha_def ascii_lower_def ascii_upper_def less_eq_char_def)
  then have letters: "takeWhile ascii_alpha (w @ rest) = w" "dropWhile ascii_alpha (w @ rest) = rest"
    using w(3) assms(4) by (cases rest; auto simp: list_all_iff)+
  have "skip_whitespace (w @ rest) = w @ rest"
    using w(2,7) by (cases w) (simp_all add: skip_whitespace_def)
  then show ?thesis
    using parse_number_num_text [OF assms(2,3) w(4), where input = input] w(1,2) letters
    by (simp add: scan_part_def parse_unit_def Let_def)
qed

subsection \<open>Printed parts\<close>

text \<open>A part with its unit, spelling, weight and count, and the text of some parts.\<close>

type_synonym printed_part = "duration_unit \<times> string \<times> nat \<times> nat"

fun part_ok :: "printed_part \<Rightarrow> bool" where
  "part_ok (u, w, k, n) \<longleftrightarrow> (u, w, k) \<in> set whole_units \<and> 0 < n"

fun part_text :: "printed_part \<Rightarrow> string" where "part_text (u, w, k, n) = nat_text n @ w"

fun more_text :: "printed_part list \<Rightarrow> string" where
  "more_text [] = []"
| "more_text (p # ps) = '' '' @ part_text p @ more_text ps"

fun parts_text :: "bool \<Rightarrow> printed_part list \<Rightarrow> string" where
  "parts_text s [] = []"
| "parts_text s (p # ps) = (if s then ''-'' else []) @ part_text p @ more_text ps"

fun parts_total :: "printed_part list \<Rightarrow> nat" where
  "parts_total [] = 0"
| "parts_total ((u, w, k, n) # ps) = n * k + parts_total ps"

definition part_magnitude :: "bool \<Rightarrow> printed_part \<Rightarrow> f64 \<times> duration_unit" where
  "part_magnitude s p = (case p of (u, w, k, n) \<Rightarrow> (f64_whole s n, u))"

lemma more_text_start: "more_text ps = [] \<or> hd (more_text ps) = CHR '' ''"
  by (cases ps) simp_all

lemma parts_total_part:
  "p \<in> set ps \<Longrightarrow> part_ok p \<Longrightarrow> (case p of (u, w, k, n) \<Rightarrow> n \<le> parts_total ps)"
proof (induction ps)
  case (Cons q ps)
  obtain u w k n where q: "q = (u, w, k, n)" by (cases q)
  show ?case
  proof (cases "p = q")
    case True
    then have "0 < k" using Cons.prems(2) q whole_unit_parse(9) by auto
    then show ?thesis using True q by (simp add: trans_le_add1)
  next
    case False
    then show ?thesis using Cons q by (auto intro: trans_le_add2)
  qed
qed simp

lemma f64_abs_whole: "n < 2 ^ 53 \<Longrightarrow> f64_abs (f64_whole s n) = f64_whole False n"
proof -
  assume n: "n < 2 ^ 53"
  have mask: "(0x7FFFFFFFFFFFFFFF :: f64) = mask 63" by (simp add: mask_eq_exp_minus_1)
  show ?thesis
  proof (cases "n = 0")
    case False
    then have less: "whole_bits n < 2 ^ 63" using whole_bits_less [of n] n by simp
    have "unat (f64_abs (f64_whole s n)) = unat (f64_whole s n) mod 2 ^ 63"
      by (simp only: f64_abs_def mask take_bit_eq_mask [symmetric] unsigned_take_bit_eq) (simp only: take_bit_eq_mod)
    also have "\<dots> = unat (f64_whole False n)"
      using False less by (simp add: f64_whole_def unat_f64_bits)
    finally show ?thesis by (simp add: word_unat_eq_iff)
  qed (simp add: f64_abs_def)
qed

text \<open>Scanning the text after the first part.\<close>

lemma scan_more_text:
  assumes "list_all part_ok ps" "parts_total ps < 2 ^ 53" "acc \<noteq> []"
  shows "scan_parts WholeInput input neg acc (more_text ps) (skip_separators (more_text ps))
    = Ok (neg, acc @ map (part_magnitude False) ps, [])"
  using assms
proof (induction ps arbitrary: acc)
  case Nil
  then show ?case by (simp add: scan_parts.simps skip_separators_def)
next
  case (Cons p ps)
  obtain u w k n where p: "p = (u, w, k, n)" by (cases p)
  have ok: "(u, w, k) \<in> set whole_units" "0 < n" "list_all part_ok ps" using Cons.prems(1) p by simp_all
  have n: "n < 2 ^ 53" "parts_total ps < 2 ^ 53"
    using parts_total_part [of p "p # ps"] Cons.prems(1,2) p by simp_all
  obtain d ds where d: "nat_text n = d # ds" "ascii_digit d" using nat_text_shape by blast
  have "\<not> byte_whitespace d" "d \<noteq> CHR '',''" "byte_whitespace (CHR '' '')"
    using d(2) by (auto simp: byte_whitespace_def ascii_whitespace_def ascii_digit_iff)
  then have skip: "skip_separators (more_text (p # ps)) = num_text False n @ w @ more_text ps"
    by (simp add: p skip_separators_def num_text_def d(1))
  have "scan_part input (num_text False n @ w @ more_text ps) = Ok (f64_whole False n, u, more_text ps)"
    using scan_part_text [OF ok(1) n(1) _ more_text_start, where s = False] by simp
  then have "scan_parts WholeInput input neg acc (more_text (p # ps)) (skip_separators (more_text (p # ps)))
      = scan_parts WholeInput input neg (acc @ [(f64_whole False n, u)]) (more_text ps) (skip_separators (more_text ps))"
    unfolding skip using f64_whole_decode(4) [OF ok(2) n(1), of False] f64_abs_whole [OF n(1), of False] d(1)
    by (subst scan_parts.simps) (simp add: num_text_def)
  then show ?case using Cons.IH [of "acc @ [(f64_whole False n, u)]"] ok(3) n(2) by (simp add: p part_magnitude_def)
qed

lemma scan_parts_text:
  assumes "list_all part_ok ps" "parts_total ps < 2 ^ 53" "ps \<noteq> []"
  shows "scan_parts WholeInput input False [] last_end (parts_text s ps)
    = Ok (s, map (part_magnitude False) ps, [])"
proof -
  obtain u w k n qs where ps: "ps = (u, w, k, n) # qs" using assms(3) by (cases ps) auto
  have ok: "(u, w, k) \<in> set whole_units" "0 < n" "list_all part_ok qs"
    using assms(1) ps by simp_all
  have n: "n < 2 ^ 53" "parts_total qs < 2 ^ 53"
    using parts_total_part [of "(u, w, k, n)" ps] assms(1,2) ps by simp_all
  have spelled: "parts_text s ps = num_text s n @ w @ more_text qs" by (simp add: ps num_text_def)
  have "scan_part input (num_text s n @ w @ more_text qs) = Ok (f64_whole s n, u, more_text qs)"
    using scan_part_text [OF ok(1) n(1) _ more_text_start, where s = s] ok(2) by simp
  moreover have "num_text s n @ w @ more_text qs \<noteq> []" using whole_unit_parse(2) [OF ok(1)] by simp
  ultimately show ?thesis
    unfolding spelled using f64_whole_decode(4) [OF ok(2) n(1), of s] f64_abs_whole [OF n(1), of s]
      scan_more_text [OF ok(3) n(2), where acc = "[(f64_whole False n, u)]" and input = input and neg = s]
    by (subst scan_parts.simps) (simp add: ps part_magnitude_def)
qed

subsection \<open>The total of the parts\<close>

lemma f64_mul_count:
  assumes "n < 2 ^ 53" "k < 2 ^ 53" "n * k < 2 ^ 53" "0 < n" "0 < k"
  shows "f64_mul (f64_whole s n) (f64_whole False k) = f64_whole s (n * k)"
  using f64_mul_whole [of n k s False] assms by simp

lemma f64_neg_1: "f64_neg (f64_of_nat 1) = f64_whole True 1"
  by code_simp

lemma f64_1: "f64_of_nat 1 = f64_whole False 1"
  by (rule f64_of_nat_whole) simp

lemma apply_sign_whole:
  assumes "list_all part_ok ps" "parts_total ps < 2 ^ 53"
  shows "apply_sign s (map (part_magnitude False) ps) = map (part_magnitude s) ps"
proof -
  have "f64_mul (f64_whole False n) (if s then f64_neg (f64_of_nat 1) else f64_of_nat 1) = f64_whole s n"
    if "(u, w, k, n) \<in> set ps" for u w k n
  proof -
    have "part_ok (u, w, k, n)" using assms(1) that unfolding list_all_iff by (rule bspec)
    then have "0 < n" "n < 2 ^ 53" using parts_total_part [OF that] assms(2) by simp_all
    then show ?thesis
      using f64_mul_whole [of n 1 False True] f64_mul_whole [of n 1 False False] f64_neg_1 f64_1 by (cases s) simp_all
  qed
  then show ?thesis unfolding apply_sign_def Let_def part_magnitude_def by (auto split: prod.splits)
qed

lemma fold_parts_whole:
  assumes "list_all part_ok ps" "a + parts_total ps < 2 ^ 53"
  shows "foldl (\<lambda>acc (magnitude, unit). f64_add acc (f64_mul magnitude (fixed_seconds unit))) (f64_whole s a)
      (map (part_magnitude s) ps) = f64_whole s (a + parts_total ps)"
  using assms
proof (induction ps arbitrary: a)
  case (Cons p ps)
  obtain u w k n where p: "p = (u, w, k, n)" by (cases p)
  have ok: "(u, w, k) \<in> set whole_units" "0 < n" using Cons.prems(1) p by simp_all
  have k: "0 < k" "k < 2 ^ 53" using whole_unit_parse(9,10) [OF ok(1)] by simp_all
  have total: "a + n * k + parts_total ps < 2 ^ 53" using Cons.prems(2) p by simp
  have n: "n < 2 ^ 53" using parts_total_part [of p "p # ps"] Cons.prems p by simp
  have "f64_mul (f64_whole s n) (fixed_seconds u) = f64_whole s (n * k)"
    using f64_mul_count [OF n k(2) _ ok(2) k(1)] total whole_unit_parse(8) [OF ok(1)] by simp
  then show ?case
    using f64_add_whole [of a "n * k" s] Cons.IH [of "a + n * k"] Cons.prems(1) total
    by (simp add: p part_magnitude_def add.assoc)
qed simp

lemma f64_eq_0_whole: "n < 2 ^ 53 \<Longrightarrow> f64_eq (f64_whole s n) 0 \<longleftrightarrow> n = 0"
proof -
  assume n: "n < 2 ^ 53"
  have abs_0: "f64_abs (f64_whole s n) = 0 \<longleftrightarrow> n = 0"
  proof (cases "n = 0")
    case False
    have "f64_whole False n \<noteq> 0" using f64_whole_decode(1) [of n False] False n by auto
    then show ?thesis using f64_abs_whole [OF n, of s] False by simp
  qed (simp add: f64_abs_def)
  have "\<not> f64_is_nan 0" by (simp add: f64_is_nan_def)
  then have "f64_eq (f64_whole s n) 0 \<longleftrightarrow> f64_whole s n = 0 \<or> f64_abs (f64_whole s n) = 0"
    using f64_whole_finite(2) [OF n, of s] by (simp add: f64_eq_def f64_abs_def)
  moreover have "f64_whole s n = 0 \<Longrightarrow> f64_abs (f64_whole s n) = 0" by (simp add: f64_abs_def)
  ultimately show ?thesis using abs_0 by blast
qed

lemma trim_ascii:
  assumes "s \<noteq> []" "list_all ascii s" "\<not> is_whitespace [hd s]" "\<not> is_whitespace [last s]"
  shows "trim s = s"
proof -
  have chars: "chars s = map (\<lambda>c. [c]) s"
    using assms(2) by (induction s) (simp_all add: char_width_def ascii_def)
  obtain c cs where s: "s = c # cs" using assms(1) by (cases s) auto
  obtain ds d where rev: "s = ds @ [d]" using assms(1) by (cases s rule: rev_cases) auto
  have "dropWhile is_whitespace (chars s) = chars s" using assms(3) unfolding chars by (simp add: s)
  moreover have "dropWhile is_whitespace (rev (chars s)) = rev (chars s)" using assms(4) unfolding chars by (simp add: rev)
  ultimately show ?thesis by (simp add: trim_def)
qed

lemma more_text_ascii:
  "list_all part_ok ps \<Longrightarrow> list_all ascii (more_text ps)
    \<and> (ps \<noteq> [] \<longrightarrow> more_text ps \<noteq> [] \<and> \<not> is_whitespace [last (more_text ps)])"
proof (induction ps)
  case (Cons p ps)
  obtain u w k n where p: "p = (u, w, k, n)" by (cases p)
  then have ok: "(u, w, k) \<in> set whole_units" using Cons.prems by simp
  have "list_all ascii (nat_text n)" using nat_text_digits [of n] digit_char_facts(1) by (auto simp: list_all_iff)
  moreover have "ascii (CHR '' '')" by (simp add: ascii_def)
  ultimately show ?case
    using Cons whole_unit_parse(2,5,6) [OF ok] by (cases ps) (auto simp: p)
qed simp

lemma parts_text_trim:
  assumes "list_all part_ok ps" "ps \<noteq> []"
  shows "trim (parts_text s ps) = parts_text s ps" "skip_separators (parts_text s ps) = parts_text s ps"
    "parts_text s ps \<noteq> []"
proof -
  obtain p qs where ps: "ps = p # qs" using assms(2) by (cases ps) auto
  have more: "more_text ps = '' '' @ part_text p @ more_text qs" by (simp add: ps)
  obtain u w k n where p: "p = (u, w, k, n)" by (cases p)
  obtain d ds where d: "nat_text n = d # ds" "ascii_digit d" using nat_text_shape by blast
  have body: "part_text p @ more_text qs = d # ds @ w @ more_text qs" by (simp add: p d(1))
  have hyphen: "ascii (CHR ''-'')" "\<not> is_whitespace [CHR ''-'']" "\<not> byte_whitespace (CHR ''-'')" "\<not> byte_whitespace d"
    "d \<noteq> CHR '',''"
    using d(2) by (auto simp: ascii_def is_whitespace_def byte_whitespace_def ascii_whitespace_def ascii_digit_iff)
  have ascii: "list_all ascii (part_text p @ more_text qs)" "\<not> is_whitespace [last (part_text p @ more_text qs)]"
    using more_text_ascii [OF assms(1)] assms(2) more body by simp_all
  show "parts_text s ps \<noteq> []" by (simp add: ps body)
  show "trim (parts_text s ps) = parts_text s ps"
    using ascii body hyphen digit_char_facts(5) [OF d(2)]
    by (intro trim_ascii) (simp_all add: ps)
  show "skip_separators (parts_text s ps) = parts_text s ps"
    using hyphen by (simp add: ps body skip_separators_def)
qed

lemma duration_parse_text:
  assumes "list_all part_ok ps" "parts_total ps < 2 ^ 53" "ps \<noteq> []" "0 < parts_total ps"
  shows "duration_parse (parts_text s ps) = Ok \<lparr> duration_raw = parts_text s ps,
     duration_seconds = f64_whole s (parts_total ps), duration_parts = Some (map (part_magnitude s) ps) \<rparr>"
proof -
  note spelled = parts_text_trim [OF assms(1,3), of s]
  have "fold_parts (map (part_magnitude s) ps) = f64_whole s (parts_total ps)"
    using fold_parts_whole [of ps 0 s] assms(1,2) by (simp add: fold_parts_def)
  moreover have "seconds_try_from (f64_whole s (parts_total ps)) = Ok (f64_whole s (parts_total ps))"
    using f64_whole_finite(1) [OF assms(2)] f64_eq_0_whole [OF assms(2)] assms(4)
    by (simp add: seconds_try_from_def seconds_normalized_def)
  ultimately show ?thesis
    using scan_parts_text [OF assms(1-3)] apply_sign_whole [OF assms(1,2)] assms(3)
    by (simp add: duration_parse_def scan_duration_def spelled Let_def)
qed

subsection \<open>The decomposition\<close>

fun greedy :: "(duration_unit \<times> string \<times> nat) list \<Rightarrow> nat \<Rightarrow> printed_part list" where
  "greedy [] t = []"
| "greedy ((u, w, k) # us) t = (if k \<le> t then (u, w, k, t div k) # greedy us (t mod k) else greedy us t)"

fun leftover :: "(duration_unit \<times> string \<times> nat) list \<Rightarrow> nat \<Rightarrow> nat" where
  "leftover [] t = t"
| "leftover ((u, w, k) # us) t = leftover us (t mod k)"

lemma greedy_total: "parts_total (greedy us t) + leftover us t = t"
proof (induction us t rule: greedy.induct)
  case (2 u w k us t)
  then show ?case by (cases "k \<le> t") (simp_all add: add.assoc)
qed simp

lemma greedy_ok: "set us \<subseteq> set whole_units \<Longrightarrow> list_all part_ok (greedy us t)"
proof (induction us t rule: greedy.induct)
  case (2 u w k us t)
  then have "0 < k" using whole_unit_parse(9) [of u w k] by auto
  then show ?case using 2 by (auto simp: div_greater_zero_iff)
qed simp

lemma f64_nearest_whole: "m < 2 ^ 53 \<Longrightarrow> f64_nearest (f64_whole s m) = m"
proof (cases "m = 0")
  case False
  assume m: "m < 2 ^ 53"
  define j where "j = 53 - floorlog 2 m"
  have parts: "f64_scale (f64_whole s m) = - int j" "f64_significand (f64_whole s m) = m * 2 ^ j"
    using f64_whole_decode(2,3) [of m s] False m by (simp_all add: j_def)
  show ?thesis
  proof (cases j)
    case (Suc i)
    have "(m * 2 ^ Suc i + 2 ^ i) div 2 ^ Suc i = m" by simp
    moreover have "nat (- f64_scale (f64_whole s m) - 1) = i" "nat (- f64_scale (f64_whole s m)) = Suc i"
      "\<not> 0 \<le> f64_scale (f64_whole s m)" by (simp_all add: parts Suc)
    ultimately show ?thesis by (simp only: f64_nearest_def parts(2) Suc if_False)
  qed (simp add: f64_nearest_def parts)
qed (simp add: f64_nearest_def)

lemma to_ms_whole: "n * 1000 < 2 ^ 53 \<Longrightarrow> to_ms (f64_whole False n) = 1000 * n"
proof -
  assume n: "n * 1000 < 2 ^ 53"
  have "f64_mul (f64_whole False n) (f64_of_nat 1000) = f64_whole False (n * 1000)"
  proof (cases "n = 0")
    case True
    then show ?thesis using f64_whole_finite [of 1000 False] f64_whole_finite [of 0 False]
      by (simp add: f64_of_nat_whole f64_mul_def f64_round_def f64_bits_def f64_whole_decode(4))
  next
    case False
    then show ?thesis using f64_mul_whole [of n 1000 False False] n by (simp add: f64_of_nat_whole)
  qed
  moreover have "\<not> f64_negative (f64_whole False (n * 1000))"
    using f64_whole_decode(4) [of "n * 1000" False] n by (cases "n = 0") simp_all
  ultimately show ?thesis
    using f64_whole_finite(1) [OF n, of False] f64_nearest_whole [OF n, of False] n
    by (simp add: to_ms_def f64_round_to_u64_def)
qed

lemma to_ms_millisecond: "to_ms (fixed_seconds Millisecond) = 1"
proof -
  have ms: "fixed_seconds Millisecond = 0x3F50624DD2F1A9FC" "f64_of_nat 1000 = f64_whole False 1000"
    "f64_round False (4611686018427388 * 1000) 1 (- 62) = f64_whole False 1"
    by code_simp+
  have bits: "f64_negative 0x3F50624DD2F1A9FC = False" "f64_exponent 0x3F50624DD2F1A9FC = 1013"
    "\<not> f64_is_nan 0x3F50624DD2F1A9FC"
    by (simp_all add: f64_negative_def f64_exponent_def f64_is_nan_def)
  then have parts: "f64_significand 0x3F50624DD2F1A9FC = 4611686018427388" "f64_scale 0x3F50624DD2F1A9FC = - 62"
    "f64_is_finite 0x3F50624DD2F1A9FC"
    by (simp_all add: f64_significand_def f64_fraction_def f64_scale_def f64_is_finite_def)
  have "floorlog 2 (1000 :: nat) = 10" by code_simp
  then have "f64_mul 0x3F50624DD2F1A9FC (f64_whole False 1000)
      = f64_round False (4611686018427388 * 1000 * 2 ^ 43) 1 (- 62 - int 43)"
    using f64_whole_finite [of 1000 False] by (simp add: f64_mul_def bits parts f64_whole_decode)
  also have "\<dots> = f64_whole False 1" using f64_round_shift [of False "4611686018427388 * 1000" 43] ms(3) by simp
  finally show ?thesis
    using f64_whole_finite(1) [of 1 False] f64_nearest_whole [of 1 False] f64_whole_decode(4) [of 1 False]
    by (simp add: to_ms_def ms f64_round_to_u64_def del: fixed_seconds.simps)
qed

definition text_after :: "bool \<Rightarrow> printed_part list \<Rightarrow> string" where
  "text_after d ps = (if d then more_text ps else parts_text False ps)"

lemma text_after_Cons: "text_after d (p # ps) = (if d then '' '' else []) @ part_text p @ text_after True ps"
  by (simp add: text_after_def)

lemma decompose_whole:
  assumes "set us \<subseteq> set whole_units"
  shows "decompose (map (\<lambda>(u, w, k). (u, w)) us @ rest) (1000 * t) raw d
    = decompose rest (1000 * leftover us t) (raw @ text_after d (greedy us t)) (d \<or> greedy us t \<noteq> [])"
  using assms
proof (induction us t arbitrary: raw d rule: greedy.induct)
  case (1 t)
  then show ?case by (simp add: text_after_def)
next
  case (2 u w k us t)
  have unit: "(u, w, k) \<in> set whole_units" using 2 by simp
  have ms: "to_ms (fixed_seconds u) = 1000 * k"
    using to_ms_whole [of k] whole_unit_parse(8,10) [OF unit] by simp
  show ?case
  proof (cases "k \<le> t")
    case True
    then show ?thesis using 2 ms whole_unit_parse(9) [OF unit]
      by (simp add: text_after_Cons mult_mod_right [symmetric] del: fixed_seconds.simps)
  next
    case False
    then show ?thesis using 2 ms whole_unit_parse(9) [OF unit] by simp
  qed
qed

lemma decomposition_units_whole:
  "decomposition_units = map (\<lambda>(u, w, k). (u, w)) whole_units @ [(Millisecond, ''ms'')]"
  by (simp add: decomposition_units_def whole_units_def)

lemma leftover_whole: "leftover whole_units t = 0"
  by (simp add: whole_units_def)

lemma f64_key_sign: "f64_key x < 0 \<longleftrightarrow> f64_negative x"
proof -
  have "f64_key x < 0 \<longleftrightarrow> bit (x XOR drop_bit 1 (signed_drop_bit 63 x)) 63"
    unfolding f64_key_def using bit_last_iff [of "x XOR drop_bit 1 (signed_drop_bit 63 x)"] by simp
  also have "\<dots> \<longleftrightarrow> bit x 63" by (auto simp: bit_xor_iff bit_drop_bit_eq dest: bit_imp_le_length)
  also have "\<dots> \<longleftrightarrow> bit (unat x) 63" by (simp add: bit_unsigned_iff)
  also have "\<dots> \<longleftrightarrow> f64_negative x"
  proof -
    have "unat x < 2 ^ 64" using unsigned_less [of x] by simp
    then have "unat x div 2 ^ 63 < 2" by (simp add: less_mult_imp_div_less)
    then show ?thesis by (auto simp: bit_iff_odd f64_negative_def less_2_cases_iff div_eq_0_iff)
  qed
  finally show ?thesis .
qed

lemma canonical_raw_whole:
  assumes "0 < n" "n * 1000 < 2 ^ 53"
  shows "canonical_raw ft (f64_whole s n) = parts_text s (greedy whole_units n)" "greedy whole_units n \<noteq> []"
    "parts_total (greedy whole_units n) = n"
proof -
  have n: "n < 2 ^ 53" using assms(2) by simp
  show total: "parts_total (greedy whole_units n) = n"
    using greedy_total [of whole_units n] leftover_whole by simp
  then show ne: "greedy whole_units n \<noteq> []" using assms(1) by auto
  have "\<not> f64_eq (f64_whole s n) 0" "\<not> f64_is_nan 0" using f64_eq_0_whole [OF n] assms(1) by (simp_all add: f64_is_nan_def)
  then have less: "f64_less (f64_whole s n) 0 \<longleftrightarrow> s"
    using f64_whole_finite(2) [OF n] f64_key_sign [of "f64_whole s n"] f64_whole_decode(4) [OF assms(1) n, of s]
    by (simp add: f64_less_def f64_key_nonneg)
  have "decompose decomposition_units (1000 * n) raw False
      = decompose [(Millisecond, ''ms'')] 0 (raw @ text_after False (greedy whole_units n)) True" for raw
    unfolding decomposition_units_whole using decompose_whole [of whole_units "[(Millisecond, ''ms'')]" n raw False]
      ne leftover_whole by simp
  then have "decompose decomposition_units (1000 * n) raw False = (raw @ text_after False (greedy whole_units n), True)"
    for raw using to_ms_millisecond by (simp del: fixed_seconds.simps)
  moreover have "(if s then ''-'' else []) @ text_after False (greedy whole_units n) = parts_text s (greedy whole_units n)"
    using ne by (cases "greedy whole_units n") (simp_all add: text_after_def)
  ultimately show "canonical_raw ft (f64_whole s n) = parts_text s (greedy whole_units n)"
    using to_ms_whole [OF assms(2)] f64_abs_whole [OF n, of s] f64_eq_0_whole [OF n, of s] assms(1) less
    by (cases s) (simp_all add: canonical_raw_def)
qed

text \<open>One round of the loop.\<close>

lemma scan_parts_step:
  assumes "scan_parts mode input flag acc last_end bytes = Ok r" "bytes \<noteq> []"
  obtains number kind rest where "scan_part input bytes = Ok (number, kind, rest)"
    "r = (flag \<or> f64_negative number, acc @ [(f64_abs number, kind)], rest)
     \<or> (\<exists>next_bytes. length next_bytes < length bytes
       \<and> scan_parts mode input (flag \<or> f64_negative number) (acc @ [(f64_abs number, kind)]) rest next_bytes = Ok r)"
proof (cases "scan_part input bytes")
  case (Inr x)
  obtain number kind rest where x: "x = (number, kind, rest)" by (cases x)
  have less: "length (dropWhile p rest) < length bytes" for p
    using scan_part_less [of input bytes number kind rest] Inr x length_dropWhile_le [of p rest] by simp
  have "\<not> (f64_negative number \<and> acc \<noteq> [])"
    using assms Inr x by (subst (asm) scan_parts.simps) (auto split: if_splits)
  then have "(case mode of
      WholeInput \<Rightarrow> scan_parts mode input (flag \<or> f64_negative number) (acc @ [(f64_abs number, kind)]) rest (skip_separators rest)
    | PrefixInput \<Rightarrow> if can_start_duration_segment (skip_whitespace rest)
        then scan_parts mode input (flag \<or> f64_negative number) (acc @ [(f64_abs number, kind)]) rest (skip_whitespace rest)
        else Ok (flag \<or> f64_negative number, acc @ [(f64_abs number, kind)], rest)) = Ok r"
    using assms Inr x by (subst (asm) scan_parts.simps) (simp only: sum.case prod.case Let_def if_False)
  then show ?thesis
    using that [of number kind rest] Inr x less
    by (cases mode) (auto simp: skip_separators_def skip_whitespace_def split: if_splits)
qed (use assms in \<open>simp add: scan_parts.simps\<close>)

lemma scan_part_finite: "scan_part input bytes = Ok (number, unit, rest) \<Longrightarrow> f64_is_finite number"
  by (auto simp: scan_part_def parse_number_def parsed_number_def and_then_eq_Ok Let_def split: if_splits option.splits)

lemma scan_parts_magnitudes:
  assumes "scan_parts mode input flag acc last_end bytes = Ok (neg, parts, rest)"
    "list_all (\<lambda>(m, unit). \<exists>x. f64_is_finite x \<and> m = f64_abs x) acc"
  shows "list_all (\<lambda>(m, unit). \<exists>x. f64_is_finite x \<and> m = f64_abs x) parts"
  using assms
proof (induction "length bytes" arbitrary: flag acc last_end bytes rule: less_induct)
  case less
  show ?case
  proof (cases "bytes = []")
    case True
    then show ?thesis using less.prems by (simp add: scan_parts.simps)
  next
    case False
    from less.prems(1) False show ?thesis
    proof (rule scan_parts_step)
      fix number kind mid
      assume part: "scan_part input bytes = Ok (number, kind, mid)"
        and or: "(neg, parts, rest) = (flag \<or> f64_negative number, acc @ [(f64_abs number, kind)], mid)
          \<or> (\<exists>next_bytes. length next_bytes < length bytes
            \<and> scan_parts mode input (flag \<or> f64_negative number) (acc @ [(f64_abs number, kind)]) mid next_bytes
              = Ok (neg, parts, rest))"
      have acc: "list_all (\<lambda>(m, unit). \<exists>x. f64_is_finite x \<and> m = f64_abs x) (acc @ [(f64_abs number, kind)])"
        using less.prems(2) scan_part_finite [OF part] by auto
      from or show ?thesis
      proof
        assume "(neg, parts, rest) = (flag \<or> f64_negative number, acc @ [(f64_abs number, kind)], mid)"
        then show ?thesis using acc by simp
      next
        assume "\<exists>next_bytes. length next_bytes < length bytes
            \<and> scan_parts mode input (flag \<or> f64_negative number) (acc @ [(f64_abs number, kind)]) mid next_bytes
              = Ok (neg, parts, rest)"
        then show ?thesis using less.hyps acc by blast
      qed
    qed
  qed
qed

section \<open>Properties\<close>

text \<open>C25. The canonical spelling of a whole number of seconds is a duration expression that parses back to
  the same number of seconds, for either sign and every magnitude whose milliseconds a double counts
  exactly.\<close>

theorem duration_whole_seconds_roundtrip:
  assumes "0 < n" "n * 1000 < 2 ^ 53"
  shows "\<exists>d. duration_parse (duration_raw (duration_from_seconds ft (f64_whole negative n))) = Ok d
    \<and> duration_seconds d = f64_whole negative n"
proof -
  note canonical = canonical_raw_whole(1) [OF assms, where ft = ft and s = negative] canonical_raw_whole(2,3) [OF assms]
  have "list_all part_ok (greedy whole_units n)" by (rule greedy_ok) simp
  then show ?thesis
    using duration_parse_text [of "greedy whole_units n" negative] canonical assms
    by (simp add: duration_from_seconds_def)
qed

theorem duration_whole_seconds_roundtrip_witness:
  "\<forall>ft. \<exists>d. duration_parse (duration_raw (duration_from_seconds ft (f64_whole True 694861))) = Ok d
    \<and> duration_seconds d = f64_whole True 694861"
  by (rule allI, rule duration_whole_seconds_roundtrip) simp_all

text \<open>C27. A duration that was parsed has at least one part, parts of one sign only, and as seconds the
  finite sum of its parts, with a positive zero.\<close>

theorem duration_parse_sound:
  assumes "duration_parse input = Ok d"
  shows "\<exists>negative magnitudes. magnitudes \<noteq> []
    \<and> (\<forall>(m, unit) \<in> set magnitudes. \<exists>x. f64_is_finite x \<and> m = f64_abs x)
    \<and> duration_parts d = Some (apply_sign negative magnitudes)
    \<and> f64_is_finite (duration_seconds d)
    \<and> duration_seconds d = seconds_normalized (fold_parts (apply_sign negative magnitudes))"
proof -
  obtain n where scan: "scan_duration WholeInput (trim input) = Ok (d, n)"
    using assms by (auto simp: duration_parse_def Let_def and_then_eq_Ok split: if_splits)
  then obtain neg parts rest where loop:
    "scan_parts WholeInput (trim input) False [] (trim input) (skip_separators (trim input)) = Ok (neg, parts, rest)"
    "parts \<noteq> []" "duration_parts d = Some (apply_sign neg parts)"
    "seconds_try_from (fold_parts (apply_sign neg parts)) = Ok (duration_seconds d)"
    by (auto simp: scan_duration_def Let_def and_then_eq_Ok split: if_splits)
  have "list_all (\<lambda>(m, unit). \<exists>x. f64_is_finite x \<and> m = f64_abs x) parts"
    using scan_parts_magnitudes [OF loop(1)] by simp
  moreover have "f64_is_finite (duration_seconds d)"
    "duration_seconds d = seconds_normalized (fold_parts (apply_sign neg parts))"
  proof -
    have "f64_is_finite 0" by (simp add: f64_is_finite_def)
    then show "f64_is_finite (duration_seconds d)"
      "duration_seconds d = seconds_normalized (fold_parts (apply_sign neg parts))"
      using loop(4) by (auto simp: seconds_try_from_def seconds_normalized_def split: if_splits)
  qed
  ultimately show ?thesis using loop(2,3) by (auto simp: list_all_iff)
qed

theorem duration_parse_sound_witness:
  "\<exists>d. duration_parse (parts_text True [(Hour, ''h'', 3600, 2)]) = Ok d \<and> f64_is_finite (duration_seconds d)"
proof -
  have "\<exists>d. duration_parse (parts_text True [(Hour, ''h'', 3600, 2)]) = Ok d"
    using duration_parse_text [of "[(Hour, ''h'', 3600, 2)]" True] by (simp add: whole_units_def del: parts_text.simps)
  then obtain d where "duration_parse (parts_text True [(Hour, ''h'', 3600, 2)]) = Ok d" by blast
  with duration_parse_sound [OF this] show ?thesis by blast
qed

end
