(* ===== verification/Dates.thy ===== *)
theory Dates
  imports Durations Local_Zone
begin

text \<open>
  Dates and instants as the queries use them (\<open>src/date.rs\<close>).  A date is its day number, an instant
  and a local wall clock time are nanoseconds since the epoch; the local zone is that of \<open>Local_Zone\<close>.
  The calendar and the parser of date texts of the \<open>chrono\<close> crate, and the arithmetic and the
  recognition \<open>src/date.rs\<close> builds on them, are the other parameters in \<open>date_ops\<close>: no property
  assumes anything of them.
\<close>

datatype precision = YearMonthPrecision | DatePrecision | DateTimePrecision

definition has_time :: "precision \<Rightarrow> bool" where "has_time p \<longleftrightarrow> p = DateTimePrecision"

datatype recognized_value = RecognizedDate int | RecognizedDateTime int

record recognized_date =
  recognized :: recognized_value
  recognized_precision :: precision

record date_point =
  point_wall :: int
  point_instant :: int
  point_precision :: precision

datatype date_diff = WholeDiff int | ExactDiff f64

record date_ops =
  zone :: local_zone
  date_classify :: "string \<Rightarrow> recognized_date option"
  date_parse_with :: "string \<Rightarrow> string \<Rightarrow> recognized_date option"
  date_apply :: "int \<Rightarrow> duration \<Rightarrow> int option"
  datetime_apply :: "int \<Rightarrow> duration \<Rightarrow> int option"
  point_shift :: "date_point \<Rightarrow> int \<Rightarrow> duration_unit \<Rightarrow> date_point option"
  point_diff :: "date_point \<Rightarrow> date_point \<Rightarrow> duration_unit \<Rightarrow> date_diff option"
  month_boundary :: "bool \<Rightarrow> date_point \<Rightarrow> date_point option"
  week_boundary :: "bool \<Rightarrow> date_point \<Rightarrow> date_point option"
  year_boundary :: "bool \<Rightarrow> date_point \<Rightarrow> date_point option"
  wall_part :: "string \<Rightarrow> int \<Rightarrow> int"

definition recognized_day :: "date_ops \<Rightarrow> recognized_date \<Rightarrow> int" where
  "recognized_day ops r = (case recognized r of RecognizedDate d \<Rightarrow> d | RecognizedDateTime t \<Rightarrow> datetime_date (zone ops) t)"

definition recognized_instant :: "date_ops \<Rightarrow> recognized_date \<Rightarrow> int" where
  "recognized_instant ops r = (case recognized r of RecognizedDate d \<Rightarrow> midnight (zone ops) d | RecognizedDateTime t \<Rightarrow> t)"

end
