(* ===== verification/Query_Rows.thy ===== *)
theory Query_Rows
  imports Sources Dates
begin

text \<open>
  Query rows and the values they resolve to (\<open>src/query/results.rs\<close>, \<open>src/query/value.rs\<close>).  A row
  holds the index it was made from, its position in it, the kind of row and the overrides left by
  \<open>flatten\<close>; the borrowed and the owned forms of a value are the same value here.
\<close>

section \<open>Resolved values\<close>

datatype value_ref =
  NoteRef field_value
| OwnedRef field_value
| TagsRef "string list"
| InlinksRef "path list"

fun to_owned_value :: "value_ref \<Rightarrow> field_value" where
  "to_owned_value (NoteRef v) = v"
| "to_owned_value (OwnedRef v) = v"
| "to_owned_value (TagsRef tags) = VList (map VString tags)"
| "to_owned_value (InlinksRef paths) = VList (map (\<lambda>p. VString (display_portable p)) paths)"

fun as_note_ref :: "value_ref \<Rightarrow> field_value option" where
  "as_note_ref (NoteRef v) = Some v"
| "as_note_ref (OwnedRef v) = Some v"
| "as_note_ref (TagsRef tags) = None"
| "as_note_ref (InlinksRef paths) = None"

text \<open>The items of a literal are the given texts, one by one.\<close>

definition texts_equal :: "string list \<Rightarrow> field_value \<Rightarrow> bool" where
  "texts_equal texts literal = (case literal of
       VList items \<Rightarrow> length texts = length items
         \<and> list_all (\<lambda>(t, item). value_as_str item = Some t) (zip texts items)
     | _ \<Rightarrow> False)"

fun ref_equal_to_literal :: "date_ops \<Rightarrow> value_ref \<Rightarrow> field_value \<Rightarrow> bool" where
  "ref_equal_to_literal ops (NoteRef v) literal = is_equal_to_literal (zone ops) v literal"
| "ref_equal_to_literal ops (OwnedRef v) literal = is_equal_to_literal (zone ops) v literal"
| "ref_equal_to_literal ops (TagsRef tags) literal = texts_equal tags literal"
| "ref_equal_to_literal ops (InlinksRef paths) literal = texts_equal (map display_portable paths) literal"

fun ref_is_containing :: "unicode \<Rightarrow> value_ref \<Rightarrow> field_value \<Rightarrow> bool" where
  "ref_is_containing u (NoteRef v) target = is_containing u v target"
| "ref_is_containing u (OwnedRef v) target = is_containing u v target"
| "ref_is_containing u (TagsRef tags) target = (case value_as_str target of
       None \<Rightarrow> False | Some t \<Rightarrow> list_ex (\<lambda>tag. is_contained_in tag t) tags)"
| "ref_is_containing u (InlinksRef paths) target = (case value_as_str target of
       None \<Rightarrow> False | Some t \<Rightarrow> list_ex (\<lambda>p. display_portable p = t) paths)"

section \<open>Rows\<close>

datatype row_type = PageRow | ListRow nat

record query_row =
  row_index :: workspace_index
  row_position :: nat
  row_flattened :: "(field_path \<times> field_value) list"
  row_kind :: row_type

definition query_row_new :: "workspace_index \<Rightarrow> nat \<Rightarrow> query_row" where
  "query_row_new index position =
     \<lparr> row_index = index, row_position = position, row_flattened = [], row_kind = PageRow \<rparr>"

text \<open>A position is made from the range of the entries, so there is an entry.\<close>

definition row_entry :: "query_row \<Rightarrow> file_entry" where
  "row_entry r = the (entry_at (row_index r) (row_position r))"

definition with_list_item :: "nat \<Rightarrow> query_row \<Rightarrow> query_row" where
  "with_list_item item_idx r = r \<lparr> row_kind := ListRow item_idx \<rparr>"

definition row_note :: "query_row \<Rightarrow> md_note option" where "row_note r = entry_note (row_entry r)"

definition row_file :: "query_row \<Rightarrow> file_meta" where "row_file r = entry_file (row_entry r)"

definition row_inlinks :: "query_row \<Rightarrow> path list" where "row_inlinks r = entry_inlinks (row_entry r)"

definition row_list_item :: "query_row \<Rightarrow> list_item option" where
  "row_list_item r = (case row_kind r of
       PageRow \<Rightarrow> None
     | ListRow item_idx \<Rightarrow> Option.bind (row_note r) (\<lambda>n. slice_get (note_lists n) item_idx))"

definition row_task :: "query_row \<Rightarrow> task_list_item option" where
  "row_task r = Option.bind (row_list_item r) (\<lambda>item. as_task (item_kind item))"

definition task_completed :: "query_row \<Rightarrow> bool option" where
  "task_completed r = Option.bind (row_task r) (\<lambda>task. status_completed (status_kind (task_status_of task)))"

definition task_text :: "query_row \<Rightarrow> string option" where
  "task_text r = (case row_list_item r of
       Some item \<Rightarrow> if is_task (item_kind item) then Some (list_text_clean (item_text item)) else None
     | None \<Rightarrow> None)"

definition task_priority_rank :: "query_row \<Rightarrow> nat option" where
  "task_priority_rank r = Option.bind (row_task r) (\<lambda>task. map_option priority_rank (task_priority_of task))"

definition row_status_symbol :: "query_row \<Rightarrow> string option" where
  "row_status_symbol r = map_option (\<lambda>task. status_symbol (task_status_of task)) (row_task r)"

definition row_depth :: "query_row \<Rightarrow> 8 word" where
  "row_depth r = (case row_list_item r of Some item \<Rightarrow> item_depth item | None \<Rightarrow> 0)"

definition row_line :: "query_row \<Rightarrow> 32 word option" where
  "row_line r = map_option item_line (row_list_item r)"

definition row_parent :: "query_row \<Rightarrow> 32 word option" where
  "row_parent r = Option.bind (row_list_item r) item_parent"

section \<open>Resolving a field path\<close>

fun resolve_task_ref :: "list_item \<Rightarrow> task_field \<Rightarrow> value_ref" where
  "resolve_task_ref item field = (case as_task (item_kind item) of
       None \<Rightarrow> NoteRef Null
     | Some task \<Rightarrow> (case field of
           TaskStatusField \<Rightarrow> NoteRef (VString (status_name (task_status_of task)))
         | TaskStatusType \<Rightarrow> NoteRef (VString (status_type_name (status_kind (task_status_of task))))
         | TaskStatusSymbol \<Rightarrow> OwnedRef (VString (status_symbol (task_status_of task)))
         | TaskCompleted \<Rightarrow> (case status_completed (status_kind (task_status_of task)) of
               None \<Rightarrow> NoteRef Null | Some completed \<Rightarrow> NoteRef (VBool completed))
         | TaskPriority \<Rightarrow> (case task_priority_of task of
               None \<Rightarrow> NoteRef Null | Some p \<Rightarrow> NoteRef (VString (priority_name p)))
         | TaskDate kind \<Rightarrow> (case date_get (task_dates task) kind of
               None \<Rightarrow> NoteRef Null | Some d \<Rightarrow> NoteRef (VDate d))
         | TaskFullyComplete \<Rightarrow> NoteRef (VBool (task_fully_complete task))))"

fun list_kind_name :: "list_item_type \<Rightarrow> string" where
  "list_kind_name Plain = ''plain''"
| "list_kind_name Checkbox = ''checkbox''"
| "list_kind_name (Task t) = ''task''"

definition resolve_list_ref :: "query_row \<Rightarrow> list_field \<Rightarrow> value_ref" where
  "resolve_list_ref r field = (case row_list_item r of
       None \<Rightarrow> NoteRef Null
     | Some item \<Rightarrow> (case field of
           ListText \<Rightarrow> NoteRef (VString (list_text_clean (item_text item)))
         | ListRawText \<Rightarrow> NoteRef (VString (raw_text (item_text item)))
         | ListLine \<Rightarrow> NoteRef (VNumber (f64_of_nat (unat (item_line item))))
         | ListParent \<Rightarrow> (case item_parent item of
               None \<Rightarrow> NoteRef Null | Some line \<Rightarrow> NoteRef (VNumber (f64_of_nat (unat line))))
         | ListDepth \<Rightarrow> NoteRef (VNumber (f64_of_nat (unat (item_depth item))))
         | ListTags \<Rightarrow> TagsRef (item_tags item)
         | ListIsTask \<Rightarrow> NoteRef (VBool (is_task (item_kind item)))
         | ListKind \<Rightarrow> NoteRef (VString (list_kind_name (item_kind item)))
         | ListIsOrdered \<Rightarrow> NoteRef (VBool (item_ordered item))
         | ListTask task_field \<Rightarrow> resolve_task_ref item task_field))"

definition resolve_file_ref :: "date_ops \<Rightarrow> query_row \<Rightarrow> file_field \<Rightarrow> value_ref" where
  "resolve_file_ref ops r field = (let f = row_file r;
       created = (case file_created f of Some t \<Rightarrow> t | None \<Rightarrow> file_modified f) in
     case field of
       FilePath \<Rightarrow> NoteRef (VString (display_portable (file_path f)))
     | FileName \<Rightarrow> NoteRef (VString (file_base_name f))
     | FileFolder \<Rightarrow> NoteRef (VString (display_portable (file_folder f)))
     | FileSize \<Rightarrow> NoteRef (VNumber (f64_of_nat (unat (file_size f))))
     | FileCreatedDateTime \<Rightarrow> NoteRef (VDateTime created)
     | FileCreatedDate \<Rightarrow> NoteRef (VDate (datetime_date (zone ops) created))
     | FileModifiedDateTime \<Rightarrow> NoteRef (VDateTime (file_modified f))
     | FileModifiedDate \<Rightarrow> NoteRef (VDate (datetime_date (zone ops) (file_modified f)))
     | FileDay \<Rightarrow> (case file_day f of Some day \<Rightarrow> NoteRef (VDate day) | None \<Rightarrow> NoteRef Null)
     | FileTags \<Rightarrow> TagsRef (case row_note r of Some n \<Rightarrow> note_tags n | None \<Rightarrow> []))"

definition resolve_metadata_ref :: "unicode \<Rightarrow> query_row \<Rightarrow> string \<Rightarrow> value_ref option" where
  "resolve_metadata_ref u r key =
     (case Option.bind (row_list_item r) (\<lambda>item. Option.bind (item_fields item) (\<lambda>m.
          Option.bind (index_get u m key) (\<lambda>values. slice_get values 0))) of
        Some value \<Rightarrow> Some (NoteRef value)
      | None \<Rightarrow> map_option NoteRef (Option.bind (row_note r) (\<lambda>n. note_get u n key)))"

definition resolve_ref :: "unicode \<Rightarrow> date_ops \<Rightarrow> query_row \<Rightarrow> field_path \<Rightarrow> value_ref" where
  "resolve_ref u ops r p = (case List.find (\<lambda>(p', v). p' = p) (row_flattened r) of
       Some (_, value) \<Rightarrow> NoteRef value
     | None \<Rightarrow> (case p of
           FileFieldPath field \<Rightarrow> resolve_file_ref ops r field
         | ListFieldPath field \<Rightarrow> resolve_list_ref r field
         | TagsPath \<Rightarrow> TagsRef (case row_list_item r of
               Some item \<Rightarrow> item_tags item
             | None \<Rightarrow> (case row_note r of Some n \<Rightarrow> note_tags n | None \<Rightarrow> []))
         | InlinksPath \<Rightarrow> InlinksRef (row_inlinks r)
         | MetadataPath key \<Rightarrow> (case resolve_metadata_ref u r key of
               Some v \<Rightarrow> v | None \<Rightarrow> NoteRef Null)))"

definition resolve_owned :: "unicode \<Rightarrow> date_ops \<Rightarrow> query_row \<Rightarrow> field_path \<Rightarrow> field_value" where
  "resolve_owned u ops r p = to_owned_value (resolve_ref u ops r p)"

definition row_field ::
  "unicode \<Rightarrow> (string \<Rightarrow> string \<Rightarrow> nat) \<Rightarrow> date_ops \<Rightarrow> query_row \<Rightarrow> string \<Rightarrow> (query_error, field_value) result"
where
  "row_field u lev ops r raw =
     and_then (map_err QueryFieldPathFailed (field_path_parse u lev raw)) (\<lambda>p. Ok (resolve_owned u ops r p))"

text \<open>An override replaces an earlier one of the same path.\<close>

fun set_override :: "field_path \<Rightarrow> field_value \<Rightarrow> (field_path \<times> field_value) list \<Rightarrow> (field_path \<times> field_value) list"
where
  "set_override p value [] = [(p, value)]"
| "set_override p value ((p', v) # rest) =
     (if p' = p then (p', value) # rest else (p', v) # set_override p value rest)"

definition with_flattened :: "field_path \<Rightarrow> field_value \<Rightarrow> query_row \<Rightarrow> query_row" where
  "with_flattened p value r = r \<lparr> row_flattened := set_override p value (row_flattened r) \<rparr>"

definition cmp_document_order :: "query_row \<Rightarrow> query_row \<Rightarrow> ordering" where
  "cmp_document_order a b = compare (row_position a) (row_position b)"

section \<open>What a row depends on\<close>

text \<open>The parts of a row that its equality compares; every value it resolves to depends on them only.\<close>

definition row_view :: "query_row \<Rightarrow> file_entry \<times> (field_path \<times> field_value) list \<times> row_type" where
  "row_view r = (row_entry r, row_flattened r, row_kind r)"

lemma row_view_parts:
  assumes "row_view a = row_view b"
  shows "row_entry a = row_entry b" "row_flattened a = row_flattened b" "row_kind a = row_kind b"
    "row_note a = row_note b" "row_file a = row_file b" "row_inlinks a = row_inlinks b"
    "row_list_item a = row_list_item b" "row_task a = row_task b"
proof -
  show *: "row_entry a = row_entry b" "row_flattened a = row_flattened b" "row_kind a = row_kind b"
    using assms by (simp_all add: row_view_def)
  show nt: "row_note a = row_note b" and "row_file a = row_file b" "row_inlinks a = row_inlinks b"
    by (simp_all only: row_note_def row_file_def row_inlinks_def *)
  show item: "row_list_item a = row_list_item b" by (simp only: row_list_item_def * nt)
  show "row_task a = row_task b" by (simp only: row_task_def item)
qed

lemma resolve_ref_view:
  assumes "row_view a = row_view b"
  shows "resolve_ref u ops a p = resolve_ref u ops b p"
  by (simp only: resolve_ref_def resolve_file_ref_def resolve_list_ref_def resolve_metadata_ref_def
      row_view_parts [OF assms])

lemma task_priority_rank_view:
  assumes "row_view a = row_view b"
  shows "task_priority_rank a = task_priority_rank b"
  by (simp only: task_priority_rank_def row_view_parts [OF assms])

lemma row_view_with_flattened:
  "row_view (with_flattened p v r) = (row_entry r, set_override p v (row_flattened r), row_kind r)"
  by (simp add: row_view_def with_flattened_def row_entry_def)

text \<open>An override is what the path resolves to, and no other path sees it.\<close>

lemma find_set_override:
  "List.find (\<lambda>(p', v). p' = q) (set_override p value ovs)
    = (if q = p then Some (p, value) else List.find (\<lambda>(p', v). p' = q) ovs)"
  by (induction ovs) auto

lemma resolve_ref_with_flattened:
  "resolve_ref u ops (with_flattened p v r) q = (if q = p then NoteRef v else resolve_ref u ops r q)"
proof -
  have "row_entry (with_flattened p v r) = row_entry r" "row_kind (with_flattened p v r) = row_kind r"
    by (simp_all add: with_flattened_def row_entry_def)
  then have same: "resolve_file_ref ops (with_flattened p v r) f = resolve_file_ref ops r f"
    "resolve_list_ref (with_flattened p v r) l = resolve_list_ref r l"
    "resolve_metadata_ref u (with_flattened p v r) k = resolve_metadata_ref u r k"
    "row_list_item (with_flattened p v r) = row_list_item r" "row_note (with_flattened p v r) = row_note r"
    "row_inlinks (with_flattened p v r) = row_inlinks r" for f l k
    by (simp_all only: resolve_file_ref_def resolve_list_ref_def resolve_metadata_ref_def row_note_def row_file_def
        row_inlinks_def row_list_item_def)
  have flattened: "row_flattened (with_flattened p v r) = set_override p v (row_flattened r)"
    by (simp add: with_flattened_def)
  show ?thesis
    unfolding resolve_ref_def flattened find_set_override same by simp
qed

end
