(* ===== verification/Sort_Orders.thy ===== *)
theory Sort_Orders
  imports Query_Rows
begin

text \<open>
  Sorting rows (\<open>src/query/sort.rs\<close>): sort keys and their order, composite orders with a direction
  and a null placement per term, the row-major key buffer, the stable sort over indexes, and the
  parser of a sort clause.
\<close>

section \<open>Sort keys\<close>

datatype text_shape = ShapeDateTime int | ShapeDate int | ShapeDuration duration | ShapePlain

definition text_shape_classify :: "date_ops \<Rightarrow> string \<Rightarrow> text_shape" where
  "text_shape_classify ops s = (let trimmed = trim s in
     case date_classify ops trimmed of
       Some r \<Rightarrow> (case recognized r of RecognizedDateTime t \<Rightarrow> ShapeDateTime t | RecognizedDate d \<Rightarrow> ShapeDate d)
     | None \<Rightarrow> (case duration_classify trimmed of
           Some (Inr d) \<Rightarrow> ShapeDuration d
         | _ \<Rightarrow> ShapePlain))"

datatype sort_key =
  NullKey | BoolKey bool | NumberKey f64 | DateTimeKey int | DurationKey f64 | TextKey string

definition key_from_text :: "date_ops \<Rightarrow> string \<Rightarrow> sort_key" where
  "key_from_text ops s = (case text_shape_classify ops s of
       ShapeDateTime t \<Rightarrow> DateTimeKey t
     | ShapeDate d \<Rightarrow> DateTimeKey (midnight (zone ops) d)
     | ShapeDuration d \<Rightarrow> DurationKey (duration_seconds d)
     | ShapePlain \<Rightarrow> TextKey s)"

fun key_from_note_ref :: "date_ops \<Rightarrow> field_value \<Rightarrow> sort_key" where
  "key_from_note_ref ops Null = NullKey"
| "key_from_note_ref ops (VBool b) = BoolKey b"
| "key_from_note_ref ops (VNumber n) = NumberKey (normalize_zero n)"
| "key_from_note_ref ops (VDateTime t) = DateTimeKey t"
| "key_from_note_ref ops (VDate d) = DateTimeKey (midnight (zone ops) d)"
| "key_from_note_ref ops (VDuration d) = DurationKey (duration_seconds d)"
| "key_from_note_ref ops (VString s) = key_from_text ops s"
| "key_from_note_ref ops (VLink l) = TextKey (link_target l)"
| "key_from_note_ref ops (VObject fs) = NullKey"
| "key_from_note_ref ops (VList vs) = NullKey"

fun key_from_value_ref :: "date_ops \<Rightarrow> value_ref \<Rightarrow> sort_key" where
  "key_from_value_ref ops (NoteRef v) = key_from_note_ref ops v"
| "key_from_value_ref ops (OwnedRef v) = (case v of VString s \<Rightarrow> key_from_text ops s | _ \<Rightarrow> NullKey)"
| "key_from_value_ref ops (TagsRef tags) = NullKey"
| "key_from_value_ref ops (InlinksRef paths) = NullKey"

fun sort_key_kind :: "sort_key \<Rightarrow> field_type" where
  "sort_key_kind NullKey = NullType"
| "sort_key_kind (BoolKey b) = BoolType"
| "sort_key_kind (NumberKey n) = NumberType"
| "sort_key_kind (DurationKey s) = DurationType"
| "sort_key_kind (DateTimeKey t) = TemporalType"
| "sort_key_kind (TextKey s) = TextType"

definition sort_key_rank :: "sort_key \<Rightarrow> nat" where "sort_key_rank k = field_rank (sort_key_kind k)"

fun sort_key_cmp :: "sort_key \<Rightarrow> sort_key \<Rightarrow> ordering" where
  "sort_key_cmp NullKey NullKey = Equal"
| "sort_key_cmp NullKey b = Less"
| "sort_key_cmp a NullKey = Greater"
| "sort_key_cmp (BoolKey a) (BoolKey b) = compare a b"
| "sort_key_cmp (NumberKey a) (NumberKey b) = f64_total_cmp (normalize_zero a) (normalize_zero b)"
| "sort_key_cmp (DurationKey a) (DurationKey b) = f64_total_cmp a b"
| "sort_key_cmp (DateTimeKey a) (DateTimeKey b) = compare a b"
| "sort_key_cmp (TextKey a) (TextKey b) = compare a b"
| "sort_key_cmp a b = compare (sort_key_rank a) (sort_key_rank b)"

section \<open>Orders\<close>

datatype sort_direction = Ascending | Descending

datatype null_placement = NullAuto | NullFirst | NullLast

record sort_term =
  term_path :: field_path
  term_direction :: sort_direction
  term_nulls :: null_placement

definition sort_term_new :: "field_path \<Rightarrow> sort_direction \<Rightarrow> sort_term" where
  "sort_term_new p d = \<lparr> term_path = p, term_direction = d, term_nulls = NullAuto \<rparr>"

type_synonym sort_order = "sort_term list"

definition order_single :: "field_path \<Rightarrow> sort_direction \<Rightarrow> sort_order" where
  "order_single p d = [sort_term_new p d]"

definition order_concat :: "sort_order \<Rightarrow> sort_order \<Rightarrow> sort_order" where
  "order_concat order other = order @ other"

definition term_compare :: "sort_term \<Rightarrow> sort_key \<Rightarrow> sort_key \<Rightarrow> ordering" where
  "term_compare t a b =
     (if a = NullKey \<and> b = NullKey then Equal
      else if a = NullKey \<and> term_nulls t = NullFirst then Less
      else if a = NullKey \<and> term_nulls t = NullLast \<or> b = NullKey \<and> term_nulls t = NullFirst then Greater
      else if b = NullKey \<and> term_nulls t = NullLast then Less
      else if term_direction t = Descending then reverse_ord (sort_key_cmp a b) else sort_key_cmp a b)"

fun compare_keys :: "sort_order \<Rightarrow> sort_key list \<Rightarrow> sort_key list \<Rightarrow> ordering" where
  "compare_keys [] as bs = Equal"
| "compare_keys (t # ts) (a # as) (b # bs) =
     (let ord = term_compare t a b in if ord \<noteq> Equal then ord else compare_keys ts as bs)"
| "compare_keys (t # ts) as bs = compare_keys ts (tl as) (tl bs)"

definition key_for_term :: "unicode \<Rightarrow> date_ops \<Rightarrow> query_row \<Rightarrow> sort_term \<Rightarrow> sort_key" where
  "key_for_term u ops r t =
     (if term_path t = ListFieldPath (ListTask TaskPriority)
      then (case task_priority_rank r of None \<Rightarrow> NullKey | Some rank \<Rightarrow> NumberKey (f64_of_nat rank))
      else key_from_value_ref ops (resolve_ref u ops r (term_path t)))"

section \<open>The key buffer and the sort\<close>

record sort_keys =
  keys_flat :: "sort_key list"
  keys_stride :: nat

text \<open>The code panics when there is no term.  An order has at least one: the terms are private, and a single
  term, the concatenation of two orders and the parser (\<open>parsed_order_nonempty\<close>) are the ways to get
  one.  So the panic is left out.\<close>

definition keys_for :: "unicode \<Rightarrow> date_ops \<Rightarrow> sort_order \<Rightarrow> query_row list \<Rightarrow> sort_keys" where
  "keys_for u ops order rows =
     \<lparr> keys_flat = concat (map (\<lambda>r. map (key_for_term u ops r) order) rows), keys_stride = length order \<rparr>"

definition keys_get :: "sort_keys \<Rightarrow> nat \<Rightarrow> sort_key list" where
  "keys_get keys row_idx =
     (let start = row_idx * keys_stride keys; end_idx = start + keys_stride keys in
      if end_idx \<le> length (keys_flat keys) then take (keys_stride keys) (drop start (keys_flat keys)) else [])"

text \<open>\<open>filter_map\<close> with \<open>Option::take\<close>: every index gives its row at most once.\<close>

fun take_rows :: "'a option list \<Rightarrow> nat list \<Rightarrow> 'a list" where
  "take_rows rows [] = []"
| "take_rows rows (i # idx) = (case slice_get rows i of
       Some (Some r) \<Rightarrow> r # take_rows (rows[i := None]) idx
     | _ \<Rightarrow> take_rows rows idx)"

definition sort_rows :: "unicode \<Rightarrow> date_ops \<Rightarrow> sort_order \<Rightarrow> query_row list \<Rightarrow> query_row list" where
  "sort_rows u ops order rows =
     (if length rows \<le> 1 \<or> order = [] then rows
      else let keys = keys_for u ops order rows;
          idx = sort_by (\<lambda>a b. compare_keys order (keys_get keys a) (keys_get keys b)) [0..<length rows]
        in take_rows (map Some rows) idx)"

section \<open>Parsing a sort clause\<close>

definition sort_segment :: "sort_direction \<Rightarrow> string \<Rightarrow> string \<times> sort_direction" where
  "sort_segment default_direction part = (case strip_prefix ''+'' part of
       Some stripped \<Rightarrow> (stripped, Ascending)
     | None \<Rightarrow> (case strip_prefix ''-'' part of
           Some stripped \<Rightarrow> (stripped, Descending)
         | None \<Rightarrow> (part, default_direction)))"

definition sort_order_parse ::
  "unicode \<Rightarrow> (string \<Rightarrow> string \<Rightarrow> nat) \<Rightarrow> string \<Rightarrow> sort_direction \<Rightarrow> (query_builder_error, sort_order option) result"
where
  "sort_order_parse u lev input default_direction =
     and_then (try_map (\<lambda>part. let (path_str, direction) = sort_segment default_direction part in
         and_then (map_err FieldPathFailed (field_path_parse u lev path_str)) (\<lambda>p. Ok (sort_term_new p direction)))
       (filter (\<lambda>part. part \<noteq> []) (map trim (split_on CHR '','' input)))) (\<lambda>terms.
     Ok (if terms = [] then None else Some terms))"

lemma parsed_order_nonempty: "sort_order_parse u lev input d = Ok (Some order) \<Longrightarrow> order \<noteq> []"
  by (auto simp: sort_order_parse_def and_then_eq_Ok split: if_splits)

section \<open>The order is total\<close>

fun key_float :: "sort_key \<Rightarrow> f64" where
  "key_float (NumberKey n) = normalize_zero n" | "key_float (DurationKey s) = s" | "key_float _ = 0"

fun key_bool :: "sort_key \<Rightarrow> bool" where "key_bool (BoolKey b) = b" | "key_bool _ = False"

fun key_instant :: "sort_key \<Rightarrow> int" where "key_instant (DateTimeKey t) = t" | "key_instant _ = 0"

fun key_text :: "sort_key \<Rightarrow> string" where "key_text (TextKey s) = s" | "key_text _ = []"

definition key_class_cmp :: "nat \<Rightarrow> sort_key \<Rightarrow> sort_key \<Rightarrow> ordering" where
  "key_class_cmp r =
     (if r = 1 then (\<lambda>a b. compare (key_bool a) (key_bool b))
      else if r = 2 \<or> r = 3 then (\<lambda>a b. compare (f64_key (key_float a)) (f64_key (key_float b)))
      else if r = 4 then (\<lambda>a b. compare (key_instant a) (key_instant b))
      else if r = 5 then (\<lambda>a b. compare (key_text a) (key_text b))
      else (\<lambda>a b. Equal))"

lemma sort_key_cmp_classes:
  "sort_key_cmp a b = (if sort_key_rank a = sort_key_rank b then key_class_cmp (sort_key_rank a) a b
     else compare (sort_key_rank a) (sort_key_rank b))"
  by (cases a; cases b) (simp_all add: sort_key_rank_def key_class_cmp_def f64_total_cmp_def compare_def)

lemma total_cmp_sort_key: "total_cmp sort_key_cmp"
proof -
  have "total_cmp (key_class_cmp r)" for r
    unfolding key_class_cmp_def
    by (auto intro: total_cmp_const total_cmp_key [OF total_cmp_compare])
  from total_cmp_classes [where key = sort_key_rank, OF this] show ?thesis
    by (simp add: sort_key_cmp_classes [abs_def])
qed

lemma total_cmp_term: "total_cmp (term_compare t)"
proof -
  define base where "base = (if term_direction t = Descending then (\<lambda>a b. reverse_ord (sort_key_cmp a b)) else sort_key_cmp)"
  have base: "total_cmp base" using total_cmp_sort_key total_cmp_reverse [OF total_cmp_sort_key] by (simp add: base_def)
  show ?thesis
  proof (cases "term_nulls t")
    case NullAuto
    then have "term_compare t = base"
      by (auto simp: term_compare_def base_def fun_eq_iff)
    then show ?thesis using base by simp
  next
    case NullFirst
    then have "term_compare t = (\<lambda>a b. if (a \<noteq> NullKey) = (b \<noteq> NullKey)
        then (if a \<noteq> NullKey then base else (\<lambda>a b. Equal)) a b else compare (a \<noteq> NullKey) (b \<noteq> NullKey))"
      by (auto simp: term_compare_def base_def fun_eq_iff compare_def)
    moreover have "total_cmp (if k then base else (\<lambda>a b. Equal))" for k using base by (simp add: total_cmp_const)
    ultimately show ?thesis
      using total_cmp_classes [where key = "\<lambda>a. a \<noteq> NullKey" and c = "\<lambda>k. if k then base else (\<lambda>a b. Equal)"]
      by simp
  next
    case NullLast
    then have "term_compare t = (\<lambda>a b. if (a = NullKey) = (b = NullKey)
        then (if a = NullKey then (\<lambda>a b. Equal) else base) a b else compare (a = NullKey) (b = NullKey))"
      by (auto simp: term_compare_def base_def fun_eq_iff compare_def)
    moreover have "total_cmp (if k then (\<lambda>a b. Equal) else base)" for k using base by (simp add: total_cmp_const)
    ultimately show ?thesis
      using total_cmp_classes [where key = "\<lambda>a. a = NullKey" and c = "\<lambda>k. if k then (\<lambda>a b. Equal) else base"]
      by simp
  qed
qed

text \<open>The comparison of two rows by an order.\<close>

definition row_cmp :: "unicode \<Rightarrow> date_ops \<Rightarrow> sort_order \<Rightarrow> query_row \<Rightarrow> query_row \<Rightarrow> ordering" where
  "row_cmp u ops order a b =
     compare_keys order (map (key_for_term u ops a) order) (map (key_for_term u ops b) order)"

lemma compare_keys_Cons:
  "compare_keys (t # ts) (a # as) (b # bs) = then_with (term_compare t a b) (compare_keys ts as bs)"
  by (cases "term_compare t a b") simp_all

lemma compare_keys_append:
  "length as = length ts \<Longrightarrow> length bs = length ts
    \<Longrightarrow> compare_keys (ts @ ts') (as @ as') (bs @ bs') = then_with (compare_keys ts as bs) (compare_keys ts' as' bs')"
proof (induction ts as bs rule: compare_keys.induct)
  case (2 t ts a as b bs)
  then show ?case by (cases "term_compare t a b") simp_all
qed simp_all

lemma total_cmp_row: "total_cmp (row_cmp u ops order)"
proof (induction order)
  case Nil
  then show ?case by (simp add: row_cmp_def [abs_def] total_cmp_const)
next
  case (Cons t ts)
  have "row_cmp u ops (t # ts) = (\<lambda>a b. then_with (term_compare t (key_for_term u ops a t) (key_for_term u ops b t))
      (row_cmp u ops ts a b))"
    by (simp add: row_cmp_def [abs_def] compare_keys_Cons del: compare_keys.simps)
  then show ?case
    using total_cmp_then_with [OF total_cmp_key [OF total_cmp_term] Cons] by simp
qed

lemma row_cmp_concat:
  "row_cmp u ops (order_concat order other) = (\<lambda>a b. then_with (row_cmp u ops order a b) (row_cmp u ops other a b))"
  by (simp add: row_cmp_def [abs_def] order_concat_def compare_keys_append)

section \<open>The sort is the stable sort by the row comparison\<close>

lemma keys_get_row:
  "i < length rows \<Longrightarrow> keys_get (keys_for u ops order rows) i = map (key_for_term u ops (rows ! i)) order"
proof -
  assume i: "i < length rows"
  define f where "f r = map (key_for_term u ops r) order" for r
  have len: "length (f r) = length order" for r by (simp add: f_def)
  have sum: "length (concat (map f rs)) = length rs * length order" for rs
    by (induction rs) (simp_all add: len)
  have "concat (map f rows) = concat (map f (take i rows)) @ f (rows ! i) @ concat (map f (drop (Suc i) rows))"
    using i by (metis concat.simps(2) concat_append id_take_nth_drop list.simps(9) map_append)
  then have "take (length order) (drop (i * length order) (concat (map f rows))) = f (rows ! i)"
    using i sum [of "take i rows"] len by simp
  moreover have "Suc i * length order \<le> length rows * length order" using i by (intro mult_le_mono1) simp
  ultimately show ?thesis using i sum [of rows] by (simp add: keys_get_def keys_for_def f_def [symmetric] Let_def)
qed

lemma take_rows_nth:
  "distinct idx \<Longrightarrow> (\<forall>i\<in>set idx. i < length rows \<and> rows ! i \<noteq> None)
    \<Longrightarrow> take_rows rows idx = map (\<lambda>i. the (rows ! i)) idx"
proof (induction idx arbitrary: rows)
  case (Cons i idx)
  then obtain r where r: "slice_get rows i = Some (Some r)" "rows ! i = Some r" by (auto simp: slice_get_def)
  have other: "rows[i := None] ! j = rows ! j" if "j \<in> set idx" for j
    using that Cons.prems(1) by (metis distinct.simps(2) nth_list_update_neq)
  then have "take_rows (rows[i := None]) idx = map (\<lambda>j. the (rows ! j)) idx"
    using Cons.IH [of "rows[i := None]"] Cons.prems by simp
  then show ?case by (simp add: r)
qed simp

lemma sort_indexed:
  assumes "\<And>i j. i < length rows \<Longrightarrow> j < length rows \<Longrightarrow> c i j = cmp (rows ! i) (rows ! j)"
  shows "take_rows (map Some rows) (sort_by c [0..<length rows]) = sort_by cmp rows"
proof -
  have "sort_by c [0..<length rows] = sort_by (\<lambda>i j. cmp (rows ! i) (rows ! j)) [0..<length rows]"
    using assms by (intro sort_by_cong) simp
  then have "map (\<lambda>i. rows ! i) (sort_by c [0..<length rows]) = sort_by cmp (map (\<lambda>i. rows ! i) [0..<length rows])"
    by (simp add: map_sort_by)
  moreover have "map (\<lambda>i. the (map Some rows ! i)) (sort_by c [0..<length rows])
      = map (\<lambda>i. rows ! i) (sort_by c [0..<length rows])"
    by (rule map_cong) simp_all
  ultimately show ?thesis by (subst take_rows_nth) (auto simp: map_nth)
qed

lemma sort_rows_sort_by: "sort_rows u ops order rows = sort_by (row_cmp u ops order) rows"
proof (cases "length rows \<le> 1 \<or> order = []")
  case True
  then show ?thesis
  proof
    assume "length rows \<le> 1"
    then show ?thesis by (cases rows; cases "tl rows") (simp_all add: sort_rows_def)
  next
    assume order: "order = []"
    have "sorted_by (row_cmp u ops []) rows" by (simp add: row_cmp_def sorted_wrt_iff_nth_less)
    then show ?thesis by (simp add: order sort_rows_def sort_by_sorted)
  qed
next
  case False
  then show ?thesis
    unfolding sort_rows_def Let_def
    by (simp del: One_nat_def) (rule sort_indexed, simp add: keys_get_row row_cmp_def)
qed

end
