(* ===== verification/Filters.thy ===== *)
theory Filters
  imports Sort_Orders
begin

text \<open>
  Filter expressions (\<open>src/query/grammar/filter.rs\<close>): value expressions with arithmetic and date
  functions, comparisons, the \<open>contains\<close> predicate, and their evaluation on a row.  Their grammar is in
  \<open>Filter_Grammar\<close>.
\<close>

section \<open>Expressions\<close>

datatype compare_op = CmpEq | CmpNe | CmpLt | CmpLe | CmpGt | CmpGe

datatype arith_op = ArithAdd | ArithSub | ArithMul

datatype value_expr =
  FieldExpr field_path
| LiteralExpr field_value
| CallExpr string "value_expr list"
| BinaryExpr value_expr arith_op value_expr

datatype filter_atom =
  Comparison value_expr compare_op value_expr
| Contains field_path field_value

type_synonym filter_expr = "filter_atom boolean_expr"

definition compare_op_parse :: "string \<Rightarrow> compare_op option" where
  "compare_op_parse spelling =
     (if spelling = ''=='' then Some CmpEq
      else if spelling = ''!='' then Some CmpNe
      else if spelling = ''>='' then Some CmpGe
      else if spelling = ''<='' then Some CmpLe
      else if spelling = ''>'' then Some CmpGt
      else if spelling = ''<'' then Some CmpLt
      else None)"

definition contains_build :: "string \<Rightarrow> field_path \<Rightarrow> field_value \<Rightarrow> filter_atom option" where
  "contains_build name field target =
     (if eq_ignore_ascii_case name ''contains'' then Some (Contains field target) else None)"

definition classify_literal :: "date_ops \<Rightarrow> field_value \<Rightarrow> field_value" where
  "classify_literal ops literal = (case literal of
       VString s \<Rightarrow> (case text_shape_classify ops s of
           ShapeDateTime t \<Rightarrow> VDateTime t
         | ShapeDate d \<Rightarrow> VDate d
         | ShapeDuration d \<Rightarrow> VDuration d
         | ShapePlain \<Rightarrow> literal)
     | _ \<Rightarrow> literal)"

text \<open>\<open>FilterExpr::and\<close>: nested conjunctions are flattened.\<close>

fun and_children :: "'a boolean_expr \<Rightarrow> 'a boolean_expr list" where
  "and_children (BAnd children) = children"
| "and_children (BAtom a) = [BAtom a]"
| "and_children (BOr es) = [BOr es]"
| "and_children (BNot e) = [BNot e]"

definition filter_and :: "'a boolean_expr \<Rightarrow> 'a boolean_expr \<Rightarrow> 'a boolean_expr" where
  "filter_and a b = BAnd (and_children a @ and_children b)"

section \<open>Comparing\<close>

fun ordering_satisfies :: "compare_op \<Rightarrow> ordering \<Rightarrow> bool" where
  "ordering_satisfies op Less \<longleftrightarrow> op \<in> {CmpLt, CmpLe}"
| "ordering_satisfies op Equal \<longleftrightarrow> op \<in> {CmpLe, CmpGe}"
| "ordering_satisfies op Greater \<longleftrightarrow> op \<in> {CmpGt, CmpGe}"

definition op_satisfied_by :: "date_ops \<Rightarrow> compare_op \<Rightarrow> value_ref \<Rightarrow> field_value \<Rightarrow> bool" where
  "op_satisfied_by ops op field literal =
     (if op = CmpEq then ref_equal_to_literal ops field literal
      else if op = CmpNe then \<not> ref_equal_to_literal ops field literal
      else case as_note_ref field of
          None \<Rightarrow> False
        | Some v \<Rightarrow> v \<noteq> Null \<and> literal \<noteq> Null
            \<and> ordering_satisfies op (compare_value (zone ops) v literal))"

definition op_satisfied_by_values :: "date_ops \<Rightarrow> compare_op \<Rightarrow> field_value \<Rightarrow> field_value \<Rightarrow> bool" where
  "op_satisfied_by_values ops op lhs rhs =
     (if op = CmpEq then is_equal_to_literal (zone ops) lhs rhs
      else if op = CmpNe then \<not> is_equal_to_literal (zone ops) lhs rhs
      else lhs \<noteq> Null \<and> rhs \<noteq> Null \<and> ordering_satisfies op (compare_value (zone ops) lhs rhs))"

section \<open>Evaluating value expressions\<close>

fun date_point_of :: "date_ops \<Rightarrow> field_value \<Rightarrow> date_point option" where
  "date_point_of ops (VDate d) = Some \<lparr> point_wall = d * nanos_per_day, point_instant = midnight (zone ops) d,
     point_precision = DatePrecision \<rparr>"
| "date_point_of ops (VDateTime t) = Some \<lparr> point_wall = wall_or_utc (zone ops) t, point_instant = t,
     point_precision = DateTimePrecision \<rparr>"
| "date_point_of ops _ = None"

text \<open>The value at a shifted point, as a date or a date-time like the value it came from.\<close>

fun value_at_point :: "field_value \<Rightarrow> date_point \<Rightarrow> field_value" where
  "value_at_point (VDate d) p = VDate (wall_date (point_wall p))"
| "value_at_point (VDateTime t) p = VDateTime (point_instant p)"
| "value_at_point _ p = Null"

definition diff_to_f64 :: "date_diff \<Rightarrow> f64" where
  "diff_to_f64 d = (case d of WholeDiff n \<Rightarrow> f64_of_int n | ExactDiff x \<Rightarrow> x)"

definition evaluate_dates_diff :: "f64_text \<Rightarrow> date_ops \<Rightarrow> field_value \<Rightarrow> field_value \<Rightarrow> field_value option" where
  "evaluate_dates_diff ft ops date1 date2 =
     Option.bind (date_point_of ops date2) (\<lambda>from_point.
     Option.bind (date_point_of ops date1) (\<lambda>to_point.
     Option.bind (point_diff ops from_point to_point Second) (\<lambda>diff.
       case seconds_try_from (diff_to_f64 diff) of
         Inr seconds \<Rightarrow> Some (VDuration (duration_from_seconds ft seconds))
       | Inl e \<Rightarrow> None)))"

definition minus_one :: f64 where "minus_one = f64_neg (f64_of_nat 1)"

definition evaluate_binary ::
  "f64_text \<Rightarrow> date_ops \<Rightarrow> field_value \<Rightarrow> arith_op \<Rightarrow> field_value \<Rightarrow> field_value option"
where
  "evaluate_binary ft ops left op right =
     (if left = Null \<or> right = Null then Some Null
      else case (left, op, right) of
        (VDate date, ArithAdd, VDuration d) \<Rightarrow> map_option VDate (date_apply ops date d)
      | (VDuration d, ArithAdd, VDate date) \<Rightarrow> map_option VDate (date_apply ops date d)
      | (VDateTime t, ArithAdd, VDuration d) \<Rightarrow> map_option VDateTime (datetime_apply ops t d)
      | (VDuration d, ArithAdd, VDateTime t) \<Rightarrow> map_option VDateTime (datetime_apply ops t d)
      | (VDate date, ArithSub, VDuration d) \<Rightarrow> map_option VDate (date_apply ops date (duration_mul ft d minus_one))
      | (VDateTime t, ArithSub, VDuration d) \<Rightarrow>
          map_option VDateTime (datetime_apply ops t (duration_mul ft d minus_one))
      | (VDate a, ArithSub, VDate b) \<Rightarrow> evaluate_dates_diff ft ops (VDate a) (VDate b)
      | (VDate a, ArithSub, VDateTime b) \<Rightarrow> evaluate_dates_diff ft ops (VDate a) (VDateTime b)
      | (VDateTime a, ArithSub, VDate b) \<Rightarrow> evaluate_dates_diff ft ops (VDateTime a) (VDate b)
      | (VDateTime a, ArithSub, VDateTime b) \<Rightarrow> evaluate_dates_diff ft ops (VDateTime a) (VDateTime b)
      | (VDuration a, ArithAdd, VDuration b) \<Rightarrow> Some (VDuration (duration_add ft a b))
      | (VDuration a, ArithSub, VDuration b) \<Rightarrow> Some (VDuration (duration_sub ft a b))
      | (VDuration d, ArithMul, VNumber n) \<Rightarrow> Some (VDuration (duration_mul ft d n))
      | (VNumber n, ArithMul, VDuration d) \<Rightarrow> Some (VDuration (duration_mul ft d n))
      | _ \<Rightarrow> Some Null)"

definition date_boundary ::
  "date_ops \<Rightarrow> (date_point \<Rightarrow> date_point option) \<Rightarrow> field_value list \<Rightarrow> field_value option"
where
  "date_boundary ops move_point args = (case args of
       [] \<Rightarrow> None
     | date # _ \<Rightarrow>
         if date = Null then Some Null
         else Option.bind (date_point_of ops date) (\<lambda>pt. map_option (value_at_point date) (move_point pt)))"

definition component_names :: "string list" where
  "component_names = [''year'', ''month'', ''day'', ''hour'', ''minute'', ''second'', ''weekday'', ''week'']"

definition evaluate_date_component :: "date_ops \<Rightarrow> field_value list \<Rightarrow> field_value option" where
  "evaluate_date_component ops args = (case args of
       [date, VString part] \<Rightarrow>
         if date = Null then Some Null
         else Option.bind (date_point_of ops date) (\<lambda>pt.
           case List.find (eq_ignore_ascii_case part) component_names of
             Some name \<Rightarrow> Some (VNumber (f64_of_int (wall_part ops name (point_wall pt))))
           | None \<Rightarrow> Some Null)
     | _ \<Rightarrow> Some Null)"

definition parsed_duration :: "string \<Rightarrow> duration option" where
  "parsed_duration s = (case duration_parse s of Inr d \<Rightarrow> Some d | Inl _ \<Rightarrow> None)"

definition call_dur :: "field_value list \<Rightarrow> field_value option" where
  "call_dur args = (case args of
       [VDuration d] \<Rightarrow> Some (VDuration d)
     | [VString s] \<Rightarrow> map_option VDuration (parsed_duration s)
     | [_] \<Rightarrow> Some Null
     | _ \<Rightarrow> None)"

definition call_date_add :: "f64_text \<Rightarrow> date_ops \<Rightarrow> field_value list \<Rightarrow> field_value option" where
  "call_date_add ft ops args = (case args of
       [date, VDuration d] \<Rightarrow> evaluate_binary ft ops date ArithAdd (VDuration d)
     | [date, VString s] \<Rightarrow> Option.bind (parsed_duration s) (\<lambda>d. evaluate_binary ft ops date ArithAdd (VDuration d))
     | [date, VNumber n, VString unit_text] \<Rightarrow>
         if date = Null then Some Null
         else Option.bind (duration_unit_parse unit_text) (\<lambda>unit.
           Option.bind (if f64_is_whole n then f64_to_i64 n else None) (\<lambda>k.
           Option.bind (date_point_of ops date) (\<lambda>pt.
             map_option (value_at_point date) (point_shift ops pt k unit))))
     | _ \<Rightarrow> None)"

definition call_date_diff :: "date_ops \<Rightarrow> field_value list \<Rightarrow> field_value option" where
  "call_date_diff ops args =
     Option.bind (case args of
         [date1, date2] \<Rightarrow> Some (date1, date2, Day)
       | [date1, date2, VString unit_text] \<Rightarrow> map_option (\<lambda>unit. (date1, date2, unit)) (duration_unit_parse unit_text)
       | _ \<Rightarrow> None) (\<lambda>(date1, date2, unit).
     if date1 = Null \<or> date2 = Null then Some Null
     else Option.bind (date_point_of ops date1) (\<lambda>p1. Option.bind (date_point_of ops date2) (\<lambda>p2.
       map_option (\<lambda>diff. VNumber (diff_to_f64 diff)) (point_diff ops p1 p2 unit))))"

definition recognized_to_value :: "date_ops \<Rightarrow> recognized_date \<Rightarrow> field_value" where
  "recognized_to_value ops r = (if has_time (recognized_precision r) then VDateTime (recognized_instant ops r)
     else VDate (recognized_day ops r))"

definition call_date :: "date_ops \<Rightarrow> field_value list \<Rightarrow> field_value option" where
  "call_date ops args = (case args of
       [VDate d] \<Rightarrow> Some (VDate d)
     | [VDate d, VString _] \<Rightarrow> Some (VDate d)
     | [VDateTime t] \<Rightarrow> Some (VDateTime t)
     | [VDateTime t, VString _] \<Rightarrow> Some (VDateTime t)
     | [VString s] \<Rightarrow> map_option (recognized_to_value ops) (date_classify ops s)
     | [VString s, VString fmt] \<Rightarrow> map_option (recognized_to_value ops) (date_parse_with ops s fmt)
     | [Null] \<Rightarrow> Some Null
     | [Null, _] \<Rightarrow> Some Null
     | _ \<Rightarrow> None)"

definition evaluate_registry_call ::
  "f64_text \<Rightarrow> date_ops \<Rightarrow> string \<Rightarrow> field_value list \<Rightarrow> field_value option"
where
  "evaluate_registry_call ft ops name args =
     (let is_name = eq_ignore_ascii_case name in
      if is_name ''dur'' then call_dur args
      else if is_name ''date_add'' then call_date_add ft ops args
      else if is_name ''date_diff'' then call_date_diff ops args
      else if is_name ''date_component'' then evaluate_date_component ops args
      else if is_name ''sow'' then date_boundary ops (week_boundary ops False) args
      else if is_name ''eow'' then date_boundary ops (week_boundary ops True) args
      else if is_name ''som'' \<or> is_name ''start_of_month'' then date_boundary ops (month_boundary ops False) args
      else if is_name ''eom'' \<or> is_name ''end_of_month'' then date_boundary ops (month_boundary ops True) args
      else if is_name ''soy'' then date_boundary ops (year_boundary ops False) args
      else if is_name ''eoy'' then date_boundary ops (year_boundary ops True) args
      else if is_name ''date'' then call_date ops args
      else None)"

fun value_evaluate :: "unicode \<Rightarrow> f64_text \<Rightarrow> date_ops \<Rightarrow> query_row \<Rightarrow> value_expr \<Rightarrow> field_value option" where
  "value_evaluate u ft ops r (FieldExpr p) = Some (to_owned_value (resolve_ref u ops r p))"
| "value_evaluate u ft ops r (LiteralExpr v) = Some v"
| "value_evaluate u ft ops r (CallExpr name args) =
     Option.bind (those (map (value_evaluate u ft ops r) args)) (evaluate_registry_call ft ops name)"
| "value_evaluate u ft ops r (BinaryExpr lhs op rhs) =
     Option.bind (value_evaluate u ft ops r lhs) (\<lambda>l.
     Option.bind (value_evaluate u ft ops r rhs) (\<lambda>v. evaluate_binary ft ops l op v))"

fun filter_atom_matches :: "unicode \<Rightarrow> f64_text \<Rightarrow> date_ops \<Rightarrow> query_row \<Rightarrow> filter_atom \<Rightarrow> bool" where
  "filter_atom_matches u ft ops r (Contains field target) = ref_is_containing u (resolve_ref u ops r field) target"
| "filter_atom_matches u ft ops r (Comparison (FieldExpr p) op (LiteralExpr literal)) =
     op_satisfied_by ops op (resolve_ref u ops r p) literal"
| "filter_atom_matches u ft ops r (Comparison lhs op rhs) =
     (case value_evaluate u ft ops r lhs of
        None \<Rightarrow> False
      | Some l \<Rightarrow> (case value_evaluate u ft ops r rhs of
            None \<Rightarrow> False
          | Some v \<Rightarrow> op_satisfied_by_values ops op l v))"

definition filter_matches :: "unicode \<Rightarrow> f64_text \<Rightarrow> date_ops \<Rightarrow> filter_expr \<Rightarrow> query_row \<Rightarrow> bool" where
  "filter_matches u ft ops e r = satisfied_by (filter_atom_matches u ft ops r) e"

end
