(* ===== verification/Filter_Grammar.thy ===== *)
theory Filter_Grammar
  imports Filters Bool_Expr
begin

text \<open>
  The grammar of filter expressions (\<open>src/query/grammar/filter.rs\<close>) over the boolean grammar:
  classification of lexed words, value expressions with arithmetic and registered functions,
  comparisons and \<open>contains\<close>.  The token lexer (\<open>logos\<close>), the edit distance and Debug output are
  parameters.  Value parsers return \<open>None\<close> when their fuel runs out; one unit per token is shown to
  be enough.
\<close>

section \<open>Tokens\<close>

datatype filter_token =
  FLParen | FRParen | FComma | FPlus | FMinus | FStar
| FLogical logical_op
| FNot
| FOp compare_op
| FLiteral field_value
| FIdent string

record filter_env =
  filter_unicode :: unicode
  filter_distance :: "string \<Rightarrow> string \<Rightarrow> nat"
  filter_f64_text :: f64_text
  filter_dates :: date_ops
  filter_debug :: "filter_token \<Rightarrow> string"

definition string_callback :: "string \<Rightarrow> field_value" where
  "string_callback raw = VString (lexical_unquote raw)"

text \<open>The conversion of a lexed word: a finite number, a duration, or an identifier.\<close>

definition classify_word :: "filter_token spanned \<Rightarrow> (lex_error, filter_token spanned) result" where
  "classify_word t = (case fst t of
       FIdent word \<Rightarrow> (case f64_parse word of
           Some number \<Rightarrow>
             if f64_is_finite number then Ok (FLiteral (VNumber number), snd t)
             else Err (UnexpectedToken (snd t) ''NaN or infinity'' ''a finite numeric literal'')
         | None \<Rightarrow> (case duration_classify word of
               Some (Inr d) \<Rightarrow> Ok (FLiteral (VDuration d), snd t)
             | _ \<Rightarrow> Ok (FIdent word, snd t)))
     | _ \<Rightarrow> Ok t)"

abbreviation filter_error :: "string \<Rightarrow> span \<Rightarrow> string \<Rightarrow> query_builder_error" where
  "filter_error input s expected \<equiv> SyntaxFailed (unexpected_end FilterDialect input s expected)"

abbreviation filter_lex :: "string \<Rightarrow> lex_error \<Rightarrow> query_builder_error" where
  "filter_lex input e \<equiv> SyntaxFailed (from_lex FilterDialect input e)"

fun filter_control :: "filter_token \<Rightarrow> logical_control option" where
  "filter_control (FLogical op) = Some (Operator op)"
| "filter_control FNot = Some ControlNot"
| "filter_control FLParen = Some LeftParen"
| "filter_control FRParen = Some RightParen"
| "filter_control _ = None"

fun literal_token :: "filter_token \<Rightarrow> field_value option" where
  "literal_token (FLiteral v) = Some v"
| "literal_token _ = None"

fun ident_token :: "filter_token \<Rightarrow> string option" where
  "ident_token (FIdent name) = Some name"
| "ident_token _ = None"

fun op_token :: "filter_token \<Rightarrow> compare_op option" where
  "op_token (FOp op) = Some op"
| "op_token _ = None"

section \<open>The contains function\<close>

definition parse_literal_arg ::
  "filter_env \<Rightarrow> string \<Rightarrow> filter_token spanned list
    \<Rightarrow> (query_builder_error, field_value \<times> filter_token spanned list) result"
where
  "parse_literal_arg env input ts =
     and_then (map_err (filter_lex input) (expect_map (filter_debug env) input ''a literal value'' literal_token ts))
       (\<lambda>(v, ts1). Ok (fst v, ts1))"

definition filter_path ::
  "filter_env \<Rightarrow> string \<Rightarrow> (query_builder_error, field_path) result"
where
  "filter_path env name = map_err FieldPathFailed (field_path_parse (filter_unicode env) (filter_distance env) name)"

definition parse_function_call ::
  "filter_env \<Rightarrow> string \<Rightarrow> string \<Rightarrow> filter_token spanned list
    \<Rightarrow> (query_builder_error, filter_atom \<times> filter_token spanned list) result"
where
  "parse_function_call env input name ts =
     and_then (map_err (filter_lex input)
         (expect_token (filter_debug env) input FLParen ''`(` after a function name'' ts)) (\<lambda>(_, ts1).
     and_then (map_err (filter_lex input)
         (expect_map (filter_debug env) input ''a field path'' ident_token ts1)) (\<lambda>(ident, ts2).
     and_then (filter_path env (fst ident)) (\<lambda>field.
     and_then (map_err (filter_lex input)
         (expect_token (filter_debug env) input FComma ''`,` after the field path'' ts2)) (\<lambda>(_, ts3).
     and_then (parse_literal_arg env input ts3) (\<lambda>(target, ts4).
     and_then (map_err (filter_lex input)
         (expect_token (filter_debug env) input FRParen ''`)` after the function arguments'' ts4)) (\<lambda>(_, ts5).
       case contains_build name field target of
         Some a \<Rightarrow> Ok (a, ts5)
       | None \<Rightarrow> Err (filter_error input (0, length name) ''`contains`''))))))) "

section \<open>Registered functions\<close>

definition registry_functions :: "string list" where
  "registry_functions = [''dur'', ''date_add'', ''date_diff'', ''date_component'', ''sow'', ''eow'', ''som'',
     ''start_of_month'', ''eom'', ''end_of_month'', ''soy'', ''eoy'', ''date'']"

definition validate_registry_function_name :: "string \<Rightarrow> bool" where
  "validate_registry_function_name name = list_ex (eq_ignore_ascii_case name) registry_functions"

definition bucketing_functions :: "string list" where
  "bucketing_functions = [''sow'', ''eow'', ''som'', ''start_of_month'', ''eom'', ''end_of_month'', ''soy'', ''eoy'']"

text \<open>The string literal at an argument position.\<close>

definition string_arg :: "value_expr list \<Rightarrow> nat \<Rightarrow> string option" where
  "string_arg args i = (if i < length args then (case args ! i of LiteralExpr (VString s) \<Rightarrow> Some s | _ \<Rightarrow> None) else None)"

definition invalid_arg :: "value_expr list \<Rightarrow> nat \<Rightarrow> (string \<Rightarrow> bool) \<Rightarrow> bool" where
  "invalid_arg args i valid = (case string_arg args i of Some s \<Rightarrow> \<not> valid s | None \<Rightarrow> False)"

definition is_duration :: "string \<Rightarrow> bool" where "is_duration s \<longleftrightarrow> parsed_duration s \<noteq> None"

definition is_duration_unit :: "string \<Rightarrow> bool" where "is_duration_unit s \<longleftrightarrow> duration_unit_parse s \<noteq> None"

text \<open>\<open>validate_call_args\<close>: what was expected instead of the arguments, if they are refused.\<close>

definition validate_call_args :: "string \<Rightarrow> value_expr list \<Rightarrow> string option" where
  "validate_call_args name args =
     (let is_name = eq_ignore_ascii_case name; n = length args in
      if is_name ''dur'' then
        (if n \<noteq> 1 then Some ''1 argument for dur()''
         else if invalid_arg args 0 is_duration then Some ''valid duration'' else None)
      else if is_name ''date_add'' then
        (if n \<noteq> 2 \<and> n \<noteq> 3 then Some ''2 or 3 arguments for date_add()''
         else if invalid_arg args 1 is_duration \<and> n = 2 then Some ''valid duration''
         else if n = 3 \<and> invalid_arg args 2 is_duration_unit then Some ''recognized duration unit'' else None)
      else if is_name ''date_diff'' then
        (if n \<noteq> 2 \<and> n \<noteq> 3 then Some ''2 or 3 arguments for date_diff()''
         else if invalid_arg args 2 is_duration_unit then Some ''recognized duration unit'' else None)
      else if is_name ''date_component'' then
        (if n \<noteq> 2 then Some ''2 arguments for date_component()''
         else if invalid_arg args 1 (\<lambda>c. list_ex (eq_ignore_ascii_case c) component_names)
         then Some ''valid component: year, month, day, hour, minute, second, weekday, week'' else None)
      else if map to_ascii_lower name \<in> set bucketing_functions then
        (if n = 1 then None else Some ''1 argument for bucketing function'')
      else if is_name ''date'' then
        (if n = 1 \<or> n = 2 then None else Some ''1 or 2 arguments for date()'')
      else None)"

section \<open>Value expressions\<close>

fun call_args ::
  "nat \<Rightarrow> (filter_token spanned list \<Rightarrow> (filter_token, value_expr) parse_result) \<Rightarrow> value_expr list
    \<Rightarrow> filter_token spanned list \<Rightarrow> (filter_token, value_expr list) parse_result"
where
  "call_args 0 parse_value acc ts = None"
| "call_args (Suc n) parse_value acc ts = (case parse_value ts of
       None \<Rightarrow> None
     | Some (Inl e) \<Rightarrow> Some (Err e)
     | Some (Inr (x, ts1)) \<Rightarrow>
         if peek_is_value FComma ts1 then call_args n parse_value (acc @ [x]) (tl ts1)
         else Some (Ok (acc @ [x], ts1)))"

definition parse_registry_call ::
  "filter_env \<Rightarrow> string \<Rightarrow> (filter_token spanned list \<Rightarrow> (filter_token, value_expr) parse_result) \<Rightarrow> nat
    \<Rightarrow> string \<Rightarrow> span \<Rightarrow> filter_token spanned list \<Rightarrow> (filter_token, value_expr) parse_result"
where
  "parse_registry_call env input parse_value n name s ts =
     (if \<not> validate_registry_function_name name
      then Some (Err (filter_error input s ''recognized filter function''))
      else let ts1 = tl ts in
        map_option (\<lambda>r. and_then r (\<lambda>(args, ts2).
          and_then (map_err (filter_lex input)
              (expect_token (filter_debug env) input FRParen ''`)` after function arguments'' ts2)) (\<lambda>(_, ts3).
            case validate_call_args name args of
              Some expected \<Rightarrow> Err (filter_error input s expected)
            | None \<Rightarrow> Ok (CallExpr name args, ts3))))
        (if peek_is_value FRParen ts1 then Some (Ok ([], ts1)) else call_args n parse_value [] ts1))"

text \<open>The sign in front of a primary.\<close>

definition negate_primary :: "filter_env \<Rightarrow> string \<Rightarrow> span \<Rightarrow> value_expr \<Rightarrow> (query_builder_error, value_expr) result" where
  "negate_primary env input s e = (case e of
       LiteralExpr (VNumber x) \<Rightarrow> Ok (LiteralExpr (VNumber (f64_neg x)))
     | LiteralExpr (VDuration d) \<Rightarrow> Ok (LiteralExpr (VDuration (duration_mul (filter_f64_text env) d minus_one)))
     | _ \<Rightarrow> Err (filter_error input s ''a number or duration after `-`''))"

definition unsigned_primary ::
  "filter_env \<Rightarrow> string \<Rightarrow> (filter_token spanned list \<Rightarrow> (filter_token, value_expr) parse_result) \<Rightarrow> nat
    \<Rightarrow> filter_token spanned list \<Rightarrow> (filter_token, value_expr) parse_result"
where
  "unsigned_primary env input parse_value n ts = (case ts of
       [] \<Rightarrow> Some (Err (filter_error input (next_span input ts) ''a field, literal, or function call''))
     | (value, s) # rest \<Rightarrow> (case value of
           FLiteral v \<Rightarrow> Some (Ok (LiteralExpr (classify_literal (filter_dates env) v), rest))
         | FIdent name \<Rightarrow>
             if peek_is_value FLParen rest then parse_registry_call env input parse_value n name s rest
             else Some (and_then (filter_path env name) (\<lambda>p. Ok (FieldExpr p, rest)))
         | _ \<Rightarrow> Some (Err (filter_error input s ''a field, literal, or function call''))))"

definition filter_primary ::
  "filter_env \<Rightarrow> string \<Rightarrow> (filter_token spanned list \<Rightarrow> (filter_token, value_expr) parse_result) \<Rightarrow> nat
    \<Rightarrow> filter_token spanned list \<Rightarrow> (filter_token, value_expr) parse_result"
where
  "filter_primary env input parse_value n ts =
     (if peek_is_value FMinus ts
      then map_option (\<lambda>r. and_then r (\<lambda>(e, rest).
          and_then (negate_primary env input (next_span input (tl ts)) e) (\<lambda>e'. Ok (e', rest))))
        (unsigned_primary env input parse_value n (tl ts))
      else unsigned_primary env input parse_value n ts)"

definition arith_token :: "filter_token spanned list \<Rightarrow> arith_op option" where
  "arith_token ts =
     (if peek_is_value FPlus ts then Some ArithAdd
      else if peek_is_value FMinus ts then Some ArithSub
      else if peek_is_value FStar ts then Some ArithMul else None)"

fun value_rest ::
  "nat \<Rightarrow> (filter_token spanned list \<Rightarrow> (filter_token, value_expr) parse_result) \<Rightarrow> value_expr
    \<Rightarrow> filter_token spanned list \<Rightarrow> (filter_token, value_expr) parse_result"
where
  "value_rest 0 primary lhs ts = None"
| "value_rest (Suc n) primary lhs ts = (case arith_token ts of
       None \<Rightarrow> Some (Ok (lhs, ts))
     | Some op \<Rightarrow> (case primary (tl ts) of
           None \<Rightarrow> None
         | Some (Inl e) \<Rightarrow> Some (Err e)
         | Some (Inr (rhs, ts1)) \<Rightarrow> value_rest n primary (BinaryExpr lhs op rhs) ts1))"

fun parse_value_expr ::
  "nat \<Rightarrow> filter_env \<Rightarrow> string \<Rightarrow> filter_token spanned list \<Rightarrow> (filter_token, value_expr) parse_result"
where
  "parse_value_expr 0 env input ts = None"
| "parse_value_expr (Suc n) env input ts = (case filter_primary env input (parse_value_expr n env input) n ts of
       None \<Rightarrow> None
     | Some (Inl e) \<Rightarrow> Some (Err e)
     | Some (Inr (lhs, ts1)) \<Rightarrow>
         value_rest (Suc n) (filter_primary env input (parse_value_expr n env input) n) lhs ts1)"

section \<open>Atoms\<close>

definition starts_contains :: "filter_token spanned list \<Rightarrow> bool" where
  "starts_contains ts = (case ts of (FIdent name, s) # rest \<Rightarrow> eq_ignore_ascii_case name ''contains'' | _ \<Rightarrow> False)"

definition value_of ::
  "filter_env \<Rightarrow> string \<Rightarrow> filter_token spanned list
    \<Rightarrow> (query_builder_error, value_expr \<times> filter_token spanned list) result"
where
  "value_of env input ts = the (parse_value_expr (Suc (length ts)) env input ts)"

definition parse_filter_atom ::
  "filter_env \<Rightarrow> string \<Rightarrow> filter_token spanned list
    \<Rightarrow> (query_builder_error, filter_atom \<times> filter_token spanned list) result"
where
  "parse_filter_atom env input ts =
     (if starts_contains ts
      then and_then (map_err (filter_lex input)
          (expect_map (filter_debug env) input ''`contains`'' ident_token ts)) (\<lambda>(name, ts1).
        parse_function_call env input (fst name) ts1)
      else and_then (value_of env input ts) (\<lambda>(lhs, ts1).
        and_then (map_err (filter_lex input)
          (expect_map (filter_debug env) input ''a comparison operator'' op_token ts1)) (\<lambda>(op, ts2).
        and_then (value_of env input ts2) (\<lambda>(rhs, ts3). Ok (Comparison lhs (fst op) rhs, ts3)))))"

definition filter_grammar :: "filter_env \<Rightarrow> (filter_token, filter_atom) grammar" where
  "filter_grammar env = \<lparr> control = filter_control, atom_parser = parse_filter_atom env,
     syntax_error = unexpected_end FilterDialect \<rparr>"

definition filter_expr_parse ::
  "filter_env \<Rightarrow> (string \<Rightarrow> ((string, filter_token) result \<times> span) list) \<Rightarrow> string
    \<Rightarrow> (query_builder_error, filter_expr) result option"
where
  "filter_expr_parse env lexer input = (case tokenize_with classify_word (lexer input) of
       Inl e \<Rightarrow> Some (Err (filter_lex input e))
     | Inr ts \<Rightarrow> parse_boolean_expr (filter_grammar env) input ts)"

section \<open>Value parsers return\<close>

definition advances :: "nat \<Rightarrow> ('t spanned list \<Rightarrow> ('t, 'x) parse_result) \<Rightarrow> bool" where
  "advances L p \<longleftrightarrow> (\<forall>ts. length ts \<le> L \<longrightarrow>
     (\<exists>r. p ts = Some r \<and> (\<forall>x rest. r = Ok (x, rest) \<longrightarrow> length rest < length ts)))"

lemma advancesE:
  assumes "advances L p" "length ts \<le> L"
  obtains (failed) e where "p ts = Some (Err e)"
  | (parsed) x rest where "p ts = Some (Ok (x, rest))" "length rest < length ts"
proof -
  obtain r where r: "p ts = Some r" "\<And>x rest. r = Ok (x, rest) \<Longrightarrow> length rest < length ts"
    using assms unfolding advances_def by blast
  show thesis
  proof (cases r)
    case (Inl e)
    then show ?thesis using r(1) failed by simp
  next
    case (Inr y)
    then show ?thesis using r parsed by (cases y) simp
  qed
qed

lemma peek_is_valueE:
  assumes "peek_is_value v ts"
  obtains s rest where "ts = (v, s) # rest"
  using assms by (cases ts) (auto simp: peek_is_value_def)

lemma arith_tokenE:
  assumes "arith_token ts = Some op"
  obtains t rest where "ts = t # rest"
  using assms by (cases ts) (auto simp: arith_token_def peek_is_value_def)

lemma call_args_returns:
  assumes "advances L p"
  shows "length ts \<le> L \<Longrightarrow> length ts < n \<Longrightarrow>
    \<exists>r. call_args n p acc ts = Some r \<and> (\<forall>xs rest. r = Ok (xs, rest) \<longrightarrow> length rest \<le> length ts)"
proof (induction n arbitrary: acc ts)
  case (Suc n)
  from assms Suc.prems(1) show ?case
  proof (cases rule: advancesE)
    case (parsed x rest)
    show ?thesis
    proof (cases "peek_is_value FComma rest")
      case True
      then obtain s rest' where rest: "rest = (FComma, s) # rest'" by (rule peek_is_valueE)
      then have "length rest' \<le> L" "length rest' < n" "length rest' \<le> length ts" using Suc.prems parsed(2) by simp_all
      with Suc.IH [of rest' "acc @ [x]"]
      obtain r where "call_args n p (acc @ [x]) rest' = Some r"
        "\<forall>xs rest'. r = Ok (xs, rest') \<longrightarrow> length rest' \<le> length ts" by (meson order_trans)
      then show ?thesis using parsed rest True by simp
    qed (use parsed in simp)
  qed simp
qed simp

lemma value_rest_returns:
  assumes "advances L p"
  shows "length ts \<le> L \<Longrightarrow> length ts < n \<Longrightarrow>
    \<exists>r. value_rest n p lhs ts = Some r \<and> (\<forall>x rest. r = Ok (x, rest) \<longrightarrow> length rest \<le> length ts)"
proof (induction n arbitrary: lhs ts)
  case (Suc n)
  show ?case
  proof (cases "arith_token ts")
    case (Some op)
    then obtain t ts' where ts: "ts = t # ts'" by (rule arith_tokenE)
    then have "length ts' \<le> L" using Suc.prems(1) by simp
    with assms show ?thesis
    proof (cases rule: advancesE)
      case (parsed x rest)
      then have "length rest \<le> L" "length rest < n" "length rest \<le> length ts" using Suc.prems ts by simp_all
      with Suc.IH [of rest "BinaryExpr lhs op x"]
      obtain r where "value_rest n p (BinaryExpr lhs op x) rest = Some r"
        "\<forall>y rest'. r = Ok (y, rest') \<longrightarrow> length rest' \<le> length ts" by (meson order_trans)
      then show ?thesis using parsed Some ts by simp
    qed (use Some ts in simp)
  qed simp
qed simp

lemma registry_call_returns:
  assumes p: "\<forall>L'<L. advances L' p" and ts: "length ts < L" and n: "L \<le> n"
  shows "\<exists>r. parse_registry_call env input p n name s (t # ts) = Some r
    \<and> (\<forall>x rest. r = Ok (x, rest) \<longrightarrow> length rest < Suc (length ts))"
proof -
  define args where "args = (if peek_is_value FRParen ts then Some (Ok ([], ts)) else call_args n p [] ts)"
  obtain r where r: "args = Some r" "\<forall>xs rest. r = Ok (xs, rest) \<longrightarrow> length rest \<le> length ts"
  proof (cases "peek_is_value FRParen ts")
    case False
    have "advances (length ts) p" using p ts by simp
    from call_args_returns [OF this order_refl, of n "[]"] ts n
    obtain r where "call_args n p [] ts = Some r" "\<forall>xs rest. r = Ok (xs, rest) \<longrightarrow> length rest \<le> length ts"
      by (meson less_le_trans)
    then show thesis using that False by (simp add: args_def)
  qed (simp add: args_def that)
  show ?thesis
  proof (cases "validate_registry_function_name name")
    case True
    show ?thesis
      unfolding parse_registry_call_def Let_def list.sel args_def [symmetric]
    proof (simp only: r True simp_thms if_False option.map option.inject, intro exI conjI allI impI)
      fix x rest
      assume "and_then r (\<lambda>(args, ts2).
          and_then (map_err (filter_lex input)
              (expect_token (filter_debug env) input FRParen ''`)` after function arguments'' ts2)) (\<lambda>(_, ts3).
            case validate_call_args name args of
              Some expected \<Rightarrow> Err (filter_error input s expected)
            | None \<Rightarrow> Ok (CallExpr name args, ts3))) = Ok (x, rest)"
      then obtain xs ts2 where "r = Ok (xs, ts2)" "length ts2 = Suc (length rest)"
        by (auto simp: and_then_eq_Ok split: option.splits dest!: expect_token_length)
      then show "length rest < Suc (length ts)" using r(2) by fastforce
    qed
  qed (simp add: parse_registry_call_def)
qed

lemma unsigned_primary_advances:
  assumes p: "\<forall>L'<L. advances L' p" and n: "L \<le> n"
  shows "advances L (unsigned_primary env input p n)"
  unfolding advances_def
proof (intro allI impI)
  fix ts :: "filter_token spanned list" assume len: "length ts \<le> L"
  show "\<exists>r. unsigned_primary env input p n ts = Some r \<and> (\<forall>x rest. r = Ok (x, rest) \<longrightarrow> length rest < length ts)"
  proof (cases "\<exists>name s t rest. ts = (FIdent name, s) # t # rest \<and> peek_is_value FLParen (t # rest)")
    case True
    then obtain name s t rest where ts: "ts = (FIdent name, s) # t # rest" "peek_is_value FLParen (t # rest)" by blast
    from registry_call_returns [OF p _ n, of rest env input name s t] ts(1) len
    obtain r where "parse_registry_call env input p n name s (t # rest) = Some r"
      "\<forall>x rest'. r = Ok (x, rest') \<longrightarrow> length rest' < Suc (length rest)" by auto
    then show ?thesis using ts by (auto simp: unsigned_primary_def less_SucI)
  next
    case False
    show ?thesis
    proof (cases ts)
      case (Cons t rest)
      obtain v s where t: "t = (v, s)" by (cases t)
      show ?thesis
      proof (cases v)
        case (FIdent name)
        then have "\<not> peek_is_value FLParen rest" using False Cons t by (cases rest) (auto simp: peek_is_value_def)
        then show ?thesis by (cases "filter_path env name") (simp_all add: unsigned_primary_def Cons t FIdent)
      qed (simp_all add: unsigned_primary_def Cons t)
    qed (simp add: unsigned_primary_def)
  qed
qed

lemma filter_primary_advances:
  assumes "\<forall>L'<L. advances L' p" "L \<le> n"
  shows "advances L (filter_primary env input p n)"
  unfolding advances_def
proof (intro allI impI)
  fix ts :: "filter_token spanned list" assume len: "length ts \<le> L"
  note unsigned = unsigned_primary_advances [OF assms, of env input]
  show "\<exists>r. filter_primary env input p n ts = Some r \<and> (\<forall>x rest. r = Ok (x, rest) \<longrightarrow> length rest < length ts)"
  proof (cases "peek_is_value FMinus ts")
    case True
    then obtain s ts' where ts: "ts = (FMinus, s) # ts'" by (rule peek_is_valueE)
    then have "length ts' \<le> L" using len by simp
    with unsigned show ?thesis
    proof (cases rule: advancesE)
      case (parsed x rest)
      then show ?thesis
        using True ts by (cases "negate_primary env input (next_span input ts') x") (simp_all add: filter_primary_def)
    qed (use True ts in \<open>simp add: filter_primary_def\<close>)
  next
    case False
    from unsigned len show ?thesis
      by (cases rule: advancesE) (simp_all add: filter_primary_def False)
  qed
qed

lemma parse_value_expr_advances: "L < n \<Longrightarrow> advances L (parse_value_expr n env input)"
proof (induction n arbitrary: L)
  case (Suc n)
  have primary: "advances L (filter_primary env input (parse_value_expr n env input) n)"
    using Suc by (intro filter_primary_advances) simp_all
  show ?case
    unfolding advances_def
  proof (intro allI impI)
    fix ts :: "filter_token spanned list" assume len: "length ts \<le> L"
    from primary len
    show "\<exists>r. parse_value_expr (Suc n) env input ts = Some r \<and> (\<forall>x rest. r = Ok (x, rest) \<longrightarrow> length rest < length ts)"
    proof (cases rule: advancesE)
      case (parsed x rest)
      then have "length rest \<le> L" "length rest < Suc n" using len Suc.prems by simp_all
      from value_rest_returns [OF primary this, of x] parsed(2)
      obtain r where "value_rest (Suc n) (filter_primary env input (parse_value_expr n env input) n) x rest = Some r"
        "\<forall>y rest'. r = Ok (y, rest') \<longrightarrow> length rest' < length ts" by (meson le_less_trans)
      then show ?thesis using parsed by simp
    qed simp
  qed
qed simp

lemma value_of_parse:
  obtains r where "parse_value_expr (Suc (length ts)) env input ts = Some r" "value_of env input ts = r"
    "\<And>x rest. r = Ok (x, rest) \<Longrightarrow> length rest < length ts"
  using parse_value_expr_advances [of "length ts" "Suc (length ts)" env input]
  unfolding advances_def value_of_def by (metis lessI option.sel order_refl)

lemma value_of_consumes: "value_of env input ts = Ok (e, rest) \<Longrightarrow> length rest < length ts"
  by (rule value_of_parse [of ts env input]) simp

lemma function_call_consumes: "parse_function_call env input name ts = Ok (a, rest) \<Longrightarrow> length rest \<le> length ts"
  unfolding parse_function_call_def parse_literal_arg_def
  by (clarsimp simp: and_then_eq_Ok split: option.splits) ((drule expect_token_length expect_map_length)+, linarith)

lemma filter_atom_consumes:
  assumes "parse_filter_atom env input ts = Ok (a, rest)"
  shows "length rest \<le> length ts"
proof (cases "starts_contains ts")
  case True
  with assms obtain name ts1 where "expect_map (filter_debug env) input ''`contains`'' ident_token ts = Ok (name, ts1)"
    "parse_function_call env input (fst name) ts1 = Ok (a, rest)"
    by (auto simp: parse_filter_atom_def and_then_eq_Ok)
  from expect_map_length [OF this(1)] function_call_consumes [OF this(2)] show ?thesis by simp
next
  case False
  with assms obtain lhs ts1 op ts2 rhs ts3 where *: "value_of env input ts = Ok (lhs, ts1)"
    "expect_map (filter_debug env) input ''a comparison operator'' op_token ts1 = Ok (op, ts2)"
    "value_of env input ts2 = Ok (rhs, ts3)" "rest = ts3"
    by (auto simp: parse_filter_atom_def and_then_eq_Ok)
  show ?thesis
    using value_of_consumes [OF *(1)] expect_map_length [OF *(2)] value_of_consumes [OF *(3)] *(4) by simp
qed

end
