(* ===== verification/Filter_Printing.thy ===== *)
theory Filter_Printing
  imports Filter_Grammar
begin

text \<open>
  Printing filter expressions (\<open>src/query/grammar/filter.rs\<close>) and reading them back: the filter
  language as an instance of the boolean grammar, with termination and round trip of its parser.
\<close>

section \<open>Printing\<close>

text \<open>How the printer spells a path and a literal whose value is read from a string.\<close>

record filter_spelling =
  path_name :: "field_path \<Rightarrow> string"
  literal_spelling :: "field_value \<Rightarrow> field_value"

fun filter_control_token :: "logical_control \<Rightarrow> filter_token" where
  "filter_control_token (Operator op) = FLogical op"
| "filter_control_token ControlNot = FNot"
| "filter_control_token LeftParen = FLParen"
| "filter_control_token RightParen = FRParen"

fun arith_op_token :: "arith_op \<Rightarrow> filter_token" where
  "arith_op_token ArithAdd = FPlus"
| "arith_op_token ArithSub = FMinus"
| "arith_op_token ArithMul = FStar"

fun literal_tokens :: "filter_spelling \<Rightarrow> field_value \<Rightarrow> filter_token list" where
  "literal_tokens sp (VNumber x) =
     (if f64_negative x then [FMinus, FLiteral (VNumber (f64_neg x))] else [FLiteral (VNumber x)])"
| "literal_tokens sp v = [FLiteral (literal_spelling sp v)]"

fun value_tokens :: "filter_spelling \<Rightarrow> value_expr \<Rightarrow> filter_token list" where
  "value_tokens sp (FieldExpr p) = [FIdent (path_name sp p)]"
| "value_tokens sp (LiteralExpr v) = literal_tokens sp v"
| "value_tokens sp (CallExpr name args) =
     FIdent name # FLParen # join_with [FComma] (map (value_tokens sp) args) @ [FRParen]"
| "value_tokens sp (BinaryExpr lhs op rhs) = value_tokens sp lhs @ arith_op_token op # value_tokens sp rhs"

fun is_number :: "field_value \<Rightarrow> bool" where
  "is_number (VNumber x) \<longleftrightarrow> True"
| "is_number _ \<longleftrightarrow> False"

fun is_binary :: "value_expr \<Rightarrow> bool" where
  "is_binary (BinaryExpr lhs op rhs) \<longleftrightarrow> True"
| "is_binary _ \<longleftrightarrow> False"

text \<open>Values as the parser builds them: operators group to the left.\<close>

fun value_printable :: "filter_env \<Rightarrow> filter_spelling \<Rightarrow> value_expr \<Rightarrow> bool" where
  "value_printable env sp (FieldExpr p) \<longleftrightarrow> filter_path env (path_name sp p) = Ok p"
| "value_printable env sp (LiteralExpr v) \<longleftrightarrow>
     is_number v \<or> classify_literal (filter_dates env) (literal_spelling sp v) = v"
| "value_printable env sp (CallExpr name args) \<longleftrightarrow>
     validate_registry_function_name name \<and> validate_call_args name args = None
     \<and> list_all (value_printable env sp) args"
| "value_printable env sp (BinaryExpr lhs op rhs) \<longleftrightarrow>
     value_printable env sp lhs \<and> value_printable env sp rhs \<and> \<not> is_binary rhs"

fun filter_atom_tokens :: "filter_spelling \<Rightarrow> filter_atom \<Rightarrow> filter_token list" where
  "filter_atom_tokens sp (Contains field target) =
     [FIdent ''contains'', FLParen, FIdent (path_name sp field), FComma, FLiteral target, FRParen]"
| "filter_atom_tokens sp (Comparison lhs op rhs) = value_tokens sp lhs @ FOp op # value_tokens sp rhs"

fun contains_first :: "filter_token list \<Rightarrow> bool" where
  "contains_first (FIdent name # rest) \<longleftrightarrow> eq_ignore_ascii_case name ''contains''"
| "contains_first _ \<longleftrightarrow> False"

fun filter_printable :: "filter_env \<Rightarrow> filter_spelling \<Rightarrow> filter_atom \<Rightarrow> bool" where
  "filter_printable env sp (Contains field target) \<longleftrightarrow> filter_path env (path_name sp field) = Ok field"
| "filter_printable env sp (Comparison lhs op rhs) \<longleftrightarrow> value_printable env sp lhs \<and> value_printable env sp rhs
     \<and> \<not> contains_first (value_tokens sp lhs)"

section \<open>Reading a printed value\<close>

lemma f64_neg_neg [simp]: "f64_neg (f64_neg x) = x"
  by (simp add: f64_neg_def xor.assoc)

fun spine :: "value_expr \<Rightarrow> nat" where
  "spine (BinaryExpr lhs op rhs) = Suc (spine lhs)"
| "spine _ = 0"

abbreviation primary_at :: "nat \<Rightarrow> filter_env \<Rightarrow> string \<Rightarrow> filter_token spanned list \<Rightarrow> (filter_token, value_expr) parse_result"
  where "primary_at n env input \<equiv> filter_primary env input (parse_value_expr n env input) n"

definition starts :: "filter_token set \<Rightarrow> filter_token spanned list \<Rightarrow> bool" where
  "starts ks ts \<longleftrightarrow> (case ts of [] \<Rightarrow> False | t # _ \<Rightarrow> fst t \<in> ks)"

lemma starts_simps [simp]: "starts ks [] = False" "starts ks ((v, s) # ts) = (v \<in> ks)"
  by (simp_all add: starts_def)

lemma peek_starts: "peek_is_value v ts = starts {v} ts"
  by (simp add: peek_is_value_def starts_def split: list.splits)

lemma arith_token_none: "\<not> starts {FPlus, FMinus, FStar} ts \<Longrightarrow> arith_token ts = None"
  by (auto simp: arith_token_def peek_is_value_def starts_def split: list.splits)

lemma arith_token_op: "arith_token ((arith_op_token op, s) # ts) = Some op"
  by (cases op) (simp_all add: arith_token_def peek_is_value_def)

text \<open>A printed primary is read back, and a printed value is read up to the loop over its operators.\<close>

definition reads_primary :: "filter_env \<Rightarrow> string \<Rightarrow> filter_spelling \<Rightarrow> value_expr \<Rightarrow> bool" where
  "reads_primary env input sp e \<longleftrightarrow> (\<forall>n ts rest. map fst ts = value_tokens sp e \<longrightarrow> length ts \<le> n
     \<longrightarrow> \<not> starts {FLParen} rest \<longrightarrow> primary_at n env input (ts @ rest) = Some (Ok (e, rest)))"

definition reads_value :: "filter_env \<Rightarrow> string \<Rightarrow> filter_spelling \<Rightarrow> value_expr \<Rightarrow> bool" where
  "reads_value env input sp e \<longleftrightarrow> (\<forall>n ts rest. map fst ts = value_tokens sp e \<longrightarrow> length ts \<le> n
     \<longrightarrow> \<not> starts {FLParen} rest \<longrightarrow> parse_value_expr (Suc n) env input (ts @ rest)
       = value_rest (Suc n - spine e) (primary_at n env input) e rest)"

lemma spine_tokens: "2 * spine e + 1 \<le> length (value_tokens sp e)"
proof (induction e)
  case (LiteralExpr v)
  then show ?case by (cases v) simp_all
next
  case (BinaryExpr lhs op rhs)
  then show ?case by simp
qed simp_all

lemma primary_reads_value:
  assumes "reads_primary env input sp e" "spine e = 0"
  shows "reads_value env input sp e"
  using assms by (simp add: reads_primary_def reads_value_def)

lemma reads_value_parses:
  assumes "reads_value env input sp e" "map fst ts = value_tokens sp e" "length ts \<le> n"
    "\<not> starts {FLParen, FPlus, FMinus, FStar} rest"
  shows "parse_value_expr (Suc n) env input (ts @ rest) = Some (Ok (e, rest))"
proof -
  have "length ts = length (value_tokens sp e)" using assms(2) by (metis length_map)
  then obtain m where m: "Suc n - spine e = Suc m"
    using spine_tokens [of e sp] assms(3) by (cases "Suc n - spine e") simp_all
  have rest: "\<not> starts {FLParen} rest" "\<not> starts {FPlus, FMinus, FStar} rest"
    using assms(4) by (auto simp: starts_def split: list.splits)
  then have "parse_value_expr (Suc n) env input (ts @ rest)
      = value_rest (Suc n - spine e) (primary_at n env input) e rest"
    using assms(1-3) unfolding reads_value_def by blast
  then show ?thesis by (simp add: m arith_token_none [OF rest(2)] del: parse_value_expr.simps)
qed

lemma reads_binary:
  assumes "reads_value env input sp lhs" "reads_primary env input sp rhs"
  shows "reads_value env input sp (BinaryExpr lhs op rhs)"
  unfolding reads_value_def
proof (intro allI impI)
  fix n and ts rest :: "filter_token spanned list"
  assume ts: "map fst ts = value_tokens sp (BinaryExpr lhs op rhs)" "length ts \<le> n" and rest: "\<not> starts {FLParen} rest"
  from ts(1) obtain ts1 s ts2 where p: "ts = ts1 @ (arith_op_token op, s) # ts2"
    "map fst ts1 = value_tokens sp lhs" "map fst ts2 = value_tokens sp rhs"
    by (auto simp: map_eq_append_conv map_eq_Cons_conv)
  have len: "length ts1 = length (value_tokens sp lhs)" using p(2) by (metis length_map)
  have "\<not> starts {FLParen} ((arith_op_token op, s) # ts2 @ rest)" by (cases op) simp_all
  then have lhs: "parse_value_expr (Suc n) env input (ts1 @ (arith_op_token op, s) # ts2 @ rest)
      = value_rest (Suc n - spine lhs) (primary_at n env input) lhs ((arith_op_token op, s) # ts2 @ rest)"
    using assms(1) p ts(2) unfolding reads_value_def by simp
  have rhs: "primary_at n env input (ts2 @ rest) = Some (Ok (rhs, rest))"
    using assms(2) p ts(2) rest unfolding reads_primary_def by simp
  obtain m where m: "Suc n - spine lhs = Suc m" "Suc n - spine (BinaryExpr lhs op rhs) = m"
    using spine_tokens [of lhs sp] len p(1) ts(2) by (cases "Suc n - spine lhs") simp_all
  show "parse_value_expr (Suc n) env input (ts @ rest)
      = value_rest (Suc n - spine (BinaryExpr lhs op rhs)) (primary_at n env input) (BinaryExpr lhs op rhs) rest"
    using lhs rhs m by (simp add: p(1) arith_token_op del: parse_value_expr.simps)
qed

lemma call_args_printed:
  assumes "\<And>e. e \<in> set es \<Longrightarrow> reads_value env input sp e"
    and "es \<noteq> []" "map fst ts = join_with [FComma] (map (value_tokens sp) es)" "length ts \<le> n" "length es \<le> k"
    and "starts {FRParen} rest"
  shows "call_args k (parse_value_expr (Suc n) env input) acc (ts @ rest) = Some (Ok (acc @ es, rest))"
  using assms
proof (induction es arbitrary: ts k acc)
  case (Cons e es)
  obtain m where k: "k = Suc m" using Cons.prems(5) by (cases k) auto
  have e: "reads_value env input sp e" using Cons.prems(1) by simp
  show ?case
  proof (cases "es = []")
    case True
    have "\<not> starts {FLParen, FPlus, FMinus, FStar} rest" "\<not> peek_is_value FComma rest"
      using Cons.prems(6) by (auto simp: starts_def peek_is_value_def split: list.splits)
    moreover from this(1) have "parse_value_expr (Suc n) env input (ts @ rest) = Some (Ok (e, rest))"
      using Cons.prems(3,4) True by (intro reads_value_parses [OF e]) simp_all
    ultimately show ?thesis by (simp add: k True del: parse_value_expr.simps)
  next
    case False
    then obtain ts1 s ts2 where ts: "ts = ts1 @ (FComma, s) # ts2" "map fst ts1 = value_tokens sp e"
      "map fst ts2 = join_with [FComma] (map (value_tokens sp) es)"
      using Cons.prems(3) by (auto simp: join_with_Cons map_eq_append_conv map_eq_Cons_conv)
    have "parse_value_expr (Suc n) env input (ts1 @ (FComma, s) # ts2 @ rest)
        = Some (Ok (e, (FComma, s) # ts2 @ rest))"
      using ts Cons.prems(4) by (intro reads_value_parses [OF e]) simp_all
    moreover have "call_args m (parse_value_expr (Suc n) env input) (acc @ [e]) (ts2 @ rest)
        = Some (Ok ((acc @ [e]) @ es, rest))"
      using Cons.prems ts False by (intro Cons.IH) (simp_all add: k)
    ultimately show ?thesis by (simp add: k ts(1) peek_is_value_def del: parse_value_expr.simps)
  qed
qed simp

lemma reads_call:
  assumes args: "\<And>e. e \<in> set es \<Longrightarrow> reads_value env input sp e"
    and ok: "validate_registry_function_name name" "validate_call_args name es = None"
  shows "reads_primary env input sp (CallExpr name es)"
  unfolding reads_primary_def
proof (intro allI impI)
  fix n and ts rest :: "filter_token spanned list"
  assume ts: "map fst ts = value_tokens sp (CallExpr name es)" "length ts \<le> n" and rest: "\<not> starts {FLParen} rest"
  from ts(1) obtain s1 s2 ts1 s3 where p: "ts = (FIdent name, s1) # (FLParen, s2) # ts1 @ [(FRParen, s3)]"
    "map fst ts1 = join_with [FComma] (map (value_tokens sp) es)"
    by (auto simp: map_eq_append_conv map_eq_Cons_conv)
  let ?rest = "(FRParen, s3) # rest"
  have args: "(if peek_is_value FRParen (ts1 @ ?rest) then Some (Ok ([], ts1 @ ?rest))
      else call_args n (parse_value_expr n env input) [] (ts1 @ ?rest)) = Some (Ok (es, ?rest))"
  proof (cases "es = []")
    case True
    then show ?thesis using p(2) by (simp add: peek_is_value_def)
  next
    case False
    obtain m where n: "n = Suc m" using ts(2) p(1) by (cases n) auto
    obtain e es' where e: "es = e # es'" using False by (cases es) auto
    have "value_tokens sp e \<noteq> []" using spine_tokens [of e sp] by auto
    moreover have "hd (value_tokens sp e) \<noteq> FRParen"
    proof (induction e)
      case (LiteralExpr v)
      then show ?case by (cases v) simp_all
    next
      case (BinaryExpr lhs op rhs)
      then show ?case using spine_tokens [of lhs sp] by (cases "value_tokens sp lhs") simp_all
    qed simp_all
    ultimately have first: "\<not> peek_is_value FRParen (ts1 @ ?rest)"
      using p(2) e by (cases ts1; cases "value_tokens sp e"; cases es')
        (auto simp: join_with_Cons peek_is_value_def)
    have "length es \<le> Suc (length ts1)"
      using length_join [of "map (value_tokens sp) es" FComma] p(2) by (metis length_map)
    then have "call_args n (parse_value_expr (Suc m) env input) [] (ts1 @ ?rest) = Some (Ok ([] @ es, ?rest))"
      using ts(2) p n False by (intro call_args_printed [OF assms(1)]) simp_all
    then show ?thesis using first n by simp
  qed
  show "primary_at n env input (ts @ rest) = Some (Ok (CallExpr name es, rest))"
    using args ok by (simp add: p(1) filter_primary_def unsigned_primary_def parse_registry_call_def
        peek_starts expect_token_def Let_def)
qed

lemma reads_printable:
  "value_printable env sp e \<Longrightarrow> reads_value env input sp e \<and> (\<not> is_binary e \<longrightarrow> reads_primary env input sp e)"
proof (induction e)
  case (FieldExpr p)
  have "reads_primary env input sp (FieldExpr p)"
    using FieldExpr by (auto simp: reads_primary_def filter_primary_def unsigned_primary_def peek_starts map_eq_Cons_conv)
  then show ?case by (simp add: primary_reads_value)
next
  case (LiteralExpr v)
  have "reads_primary env input sp (LiteralExpr v)"
    using LiteralExpr
    by (cases v) (auto simp: reads_primary_def filter_primary_def unsigned_primary_def peek_starts map_eq_Cons_conv
        negate_primary_def classify_literal_def)
  then show ?case by (simp add: primary_reads_value)
next
  case (CallExpr name args)
  then have "reads_primary env input sp (CallExpr name args)" by (intro reads_call) (auto simp: list_all_iff)
  then show ?case by (simp add: primary_reads_value)
next
  case (BinaryExpr lhs op rhs)
  then show ?case by (simp add: reads_binary)
qed

section \<open>The filter grammar is an expression grammar\<close>

lemma value_tokens_start:
  "\<exists>t ts. value_tokens sp e = t # ts \<and> (t = FMinus \<or> (\<exists>v. t = FLiteral v) \<or> (\<exists>name. t = FIdent name))"
proof (induction e)
  case (LiteralExpr v)
  then show ?case by (cases v) (simp_all split: if_splits)
next
  case (BinaryExpr lhs op rhs)
  then show ?case by auto
qed simp_all

lemma closing_filter:
  "closing (filter_grammar env) rest \<Longrightarrow> \<not> starts {FLParen, FPlus, FMinus, FStar} rest"
  by (cases rest) (auto simp: closing_def next_control_def filter_grammar_def starts_def)

lemma value_of_printed:
  assumes "value_printable env sp e" "map fst ts = value_tokens sp e" "\<not> starts {FLParen, FPlus, FMinus, FStar} rest"
  shows "value_of env input (ts @ rest) = Ok (e, rest)"
proof -
  have "parse_value_expr (Suc (length (ts @ rest))) env input (ts @ rest) = Some (Ok (e, rest))"
    using reads_printable [OF assms(1), of input] assms(2,3) by (intro reads_value_parses) simp_all
  then show ?thesis by (simp add: value_of_def del: parse_value_expr.simps)
qed

lemma contains_printed:
  assumes "filter_path env (path_name sp field) = Ok field"
    "map fst ts = filter_atom_tokens sp (Contains field target)"
  shows "parse_filter_atom env input (ts @ rest) = Ok (Contains field target, rest)"
proof -
  obtain s1 s2 s3 s4 s5 s6 where "ts = [(FIdent ''contains'', s1), (FLParen, s2), (FIdent (path_name sp field), s3),
      (FComma, s4), (FLiteral target, s5), (FRParen, s6)]"
    using assms(2) by (auto simp: map_eq_Cons_conv)
  moreover have "contains_build ''contains'' field target = Some (Contains field target)"
    by (simp add: contains_build_def eq_ignore_ascii_case_def)
  moreover have "eq_ignore_ascii_case ''contains'' ''contains''" by (simp add: eq_ignore_ascii_case_def)
  ultimately show ?thesis
    by (simp add: parse_filter_atom_def starts_contains_def expect_map_def expect_token_def
        parse_function_call_def parse_literal_arg_def assms(1))
qed

lemma comparison_printed:
  assumes ok: "filter_printable env sp (Comparison lhs op rhs)"
    and ts: "map fst ts = filter_atom_tokens sp (Comparison lhs op rhs)"
    and rest: "\<not> starts {FLParen, FPlus, FMinus, FStar} rest"
  shows "parse_filter_atom env input (ts @ rest) = Ok (Comparison lhs op rhs, rest)"
proof -
  obtain ts1 s ts2 where p: "ts = ts1 @ (FOp op, s) # ts2" "map fst ts1 = value_tokens sp lhs"
    "map fst ts2 = value_tokens sp rhs"
    using ts by (auto simp: map_eq_append_conv map_eq_Cons_conv)
  have "\<not> starts_contains (ts1 @ (FOp op, s) # ts2 @ rest)"
    using ok unfolding filter_printable.simps p(2) [symmetric]
    by (cases ts1) (auto simp: starts_contains_def split: filter_token.splits)
  moreover have "value_of env input (ts1 @ (FOp op, s) # ts2 @ rest) = Ok (lhs, (FOp op, s) # ts2 @ rest)"
    using ok p(2) by (intro value_of_printed) simp_all
  moreover have "value_of env input (ts2 @ rest) = Ok (rhs, rest)"
    using ok p(3) rest by (intro value_of_printed) simp_all
  ultimately show ?thesis by (simp add: parse_filter_atom_def p(1) expect_map_def)
qed

interpretation filter_language:
  expression_grammar "filter_grammar env" input filter_control_token "filter_atom_tokens sp" "filter_printable env sp"
  for env input sp
proof
  show "control (filter_grammar env) (filter_control_token c) = Some c" for c
    by (cases c) (simp_all add: filter_grammar_def)
  show "length rest \<le> length ts" if "atom_parser (filter_grammar env) input ts = Ok (a, rest)" for ts a rest
    using that filter_atom_consumes by (simp add: filter_grammar_def)
  fix a assume a: "filter_printable env sp a"
  show "\<exists>t ts. filter_atom_tokens sp a = t # ts
      \<and> control (filter_grammar env) t \<notin> {Some ControlNot, Some LeftParen}"
  proof (cases a)
    case (Comparison lhs op rhs)
    obtain t ts where "value_tokens sp lhs = t # ts"
      "t = FMinus \<or> (\<exists>v. t = FLiteral v) \<or> (\<exists>name. t = FIdent name)"
      using value_tokens_start [of sp lhs] by blast
    then show ?thesis using Comparison by (auto simp: filter_grammar_def)
  qed (simp add: filter_grammar_def)
  fix ts rest :: "filter_token spanned list"
  assume ts: "map fst ts = filter_atom_tokens sp a" and rest: "closing (filter_grammar env) rest"
  have "parse_filter_atom env input (ts @ rest) = Ok (a, rest)"
  proof (cases a)
    case (Contains field target)
    then show ?thesis using a ts contains_printed by simp
  next
    case (Comparison lhs op rhs)
    then show ?thesis using comparison_printed a ts closing_filter [OF rest] by blast
  qed
  then show "atom_parser (filter_grammar env) input (ts @ rest) = Ok (a, rest)"
    by (simp add: filter_grammar_def)
qed

section \<open>Properties\<close>

text \<open>C30. Parsing a filter expression always ends, and its value expressions too: one unit of fuel per
  token is never used up, whatever the lexer returns.\<close>

theorem filter_parse_terminates:
  "(\<exists>r. filter_expr_parse env lexer input = Some r) \<and> (\<exists>r. parse_value_expr (Suc (length ts)) env input ts = Some r)"
proof
  show "\<exists>r. filter_expr_parse env lexer input = Some r"
    using filter_language.total by (auto simp: filter_expr_parse_def split: sum.split)
  show "\<exists>r. parse_value_expr (Suc (length ts)) env input ts = Some r"
    by (rule value_of_parse [of ts env input]) blast
qed

text \<open>C19. Filter expressions round-trip: an expression whose boolean chains have two terms or more and
  whose arithmetic groups to the left, printed with parentheses only where precedence needs them
  and with the sign of negative numbers as a token of its own, is parsed back as it was.\<close>

theorem filter_expr_roundtrip:
  assumes "well_chained (filter_printable env sp) e"
    "map fst ts = expr_tokens filter_control_token (filter_atom_tokens sp) 0 e" "length ts \<le> usize_max"
    "tokenize_with classify_word (lexer input) = Ok ts"
  shows "filter_expr_parse env lexer input = Some (Ok e)"
  using filter_language.parse_printed [OF assms(1-3), of input] by (simp add: filter_expr_parse_def assms(4))

theorem filter_expr_roundtrip_witness:
  "\<forall>ft ops dbg. let
     env = \<lparr> filter_unicode = \<lparr>wide_alphabetic = \<lambda>_. False, wide_alphanumeric = \<lambda>_. False, wide_lowercase = id\<rparr>,
       filter_distance = (\<lambda>a b. 0), filter_f64_text = ft, filter_dates = ops, filter_debug = dbg \<rparr>;
     lexed = [FIdent ''file.size'', FOp CmpGt, FIdent ''5'', FLogical OpAnd, FNot, FIdent ''contains'', FLParen,
       FIdent ''tags'', FComma, FLiteral (VString ''#b''), FRParen]
   in filter_expr_parse env (\<lambda>_. map (\<lambda>t. (Inr t, (0, 1))) lexed) ''input''
      = Some (Ok (BAnd [BAtom (Comparison (FieldExpr (FileFieldPath FileSize)) CmpGt (LiteralExpr (VNumber 0x4014000000000000))),
          BNot (BAtom (Contains TagsPath (VString ''#b'')))]))"
proof -
  let ?u = "\<lparr>wide_alphabetic = \<lambda>_. False, wide_alphanumeric = \<lambda>_. False, wide_lowercase = id\<rparr> :: unicode"
  let ?sp = "\<lparr> path_name = \<lambda>p. if p = TagsPath then ''tags'' else ''file.size'', literal_spelling = id \<rparr>"
  let ?n = "VNumber 0x4014000000000000"
  let ?lexed = "[FIdent ''file.size'', FOp CmpGt, FIdent ''5'', FLogical OpAnd, FNot, FIdent ''contains'', FLParen,
       FIdent ''tags'', FComma, FLiteral (VString ''#b''), FRParen]"
  let ?ts = "[FIdent ''file.size'', FOp CmpGt, FLiteral ?n, FLogical OpAnd, FNot, FIdent ''contains'', FLParen,
       FIdent ''tags'', FComma, FLiteral (VString ''#b''), FRParen]"
  have lexed: "tokenize_with classify_word (map (\<lambda>t. (Inr t, (0, 1))) ?lexed) = Ok (map (\<lambda>t. (t, (0, 1))) ?ts)"
    by code_simp
  have paths: "field_path_parse ?u (\<lambda>a b. 0) ''file.size'' = Ok (FileFieldPath FileSize)"
    "field_path_parse ?u (\<lambda>a b. 0) ''tags'' = Ok TagsPath"
    by code_simp+
  have five: "\<not> f64_negative 0x4014000000000000" "\<not> eq_ignore_ascii_case ''file.size'' ''contains''"
    by code_simp+
  show ?thesis
    unfolding Let_def
    by (intro allI, rule filter_expr_roundtrip [where sp = ?sp and ts = "map (\<lambda>t. (t, (0, 1))) ?ts"])
      (rule lexed | simp add: paths five filter_path_def enclose_def usize_max_def)+
qed

end
