(* ===== verification/Query_Plan.thy ===== *)
theory Query_Plan
  imports Filter_Grammar
begin

text \<open>
  Query plans (\<open>src/query/plan.rs\<close>), query requests (\<open>src/query/builder.rs\<close>) and lazy result sets
  (the \<open>QuerySet\<close> of \<open>src/query/results.rs\<close>).  \<open>plan_run\<close> fuses the steps and applies them; the lemmas
  say what each fusion does to the rows.  \<open>select_nth_unstable_by\<close> of the standard library leaves the
  order of the two parts open, so it is a parameter with its documented contract.
\<close>

section \<open>Steps\<close>

record query_env =
  filters :: filter_env
  filter_lexer :: "string \<Rightarrow> ((string, filter_token) result \<times> span) list"
  select_nth :: "(nat \<times> nat \<Rightarrow> nat \<times> nat \<Rightarrow> ordering) \<Rightarrow> nat \<Rightarrow> (nat \<times> nat) list \<Rightarrow> (nat \<times> nat) list"

abbreviation q_unicode :: "query_env \<Rightarrow> unicode" where "q_unicode env \<equiv> filter_unicode (filters env)"

abbreviation q_dates :: "query_env \<Rightarrow> date_ops" where "q_dates env \<equiv> filter_dates (filters env)"

datatype query_transform =
  FilterStep filter_expr
| SortStep sort_order
| LimitStep nat
| GroupByStep field_path
| FlattenStep field_path
| TopKStep sort_order nat

definition q_filter :: "query_env \<Rightarrow> string \<Rightarrow> (query_builder_error, query_transform) result option" where
  "q_filter env expr = map_option (\<lambda>r. and_then r (\<lambda>e. Ok (FilterStep e)))
     (filter_expr_parse (filters env) (filter_lexer env) expr)"

definition q_sort :: "query_env \<Rightarrow> string \<Rightarrow> bool \<Rightarrow> (query_builder_error, query_transform) result" where
  "q_sort env p descending =
     (let direction = (if descending then Descending else Ascending) in
      and_then (filter_path (filters env) p) (\<lambda>f. Ok (SortStep (order_single f direction))))"

definition q_order :: "sort_order \<Rightarrow> query_transform" where "q_order by = SortStep by"

definition q_limit :: "int \<Rightarrow> (query_builder_error, query_transform) result" where
  "q_limit n = (if 0 \<le> n then Ok (LimitStep (nat n)) else Err (LimitOutOfRange n))"

definition q_group_by :: "query_env \<Rightarrow> string \<Rightarrow> (query_builder_error, query_transform) result" where
  "q_group_by env p = and_then (filter_path (filters env) p) (\<lambda>f. Ok (GroupByStep f))"

definition q_flatten :: "query_env \<Rightarrow> string \<Rightarrow> (query_builder_error, query_transform) result" where
  "q_flatten env p = and_then (filter_path (filters env) p) (\<lambda>f. Ok (FlattenStep f))"

definition flatten_row :: "query_env \<Rightarrow> field_path \<Rightarrow> query_row \<Rightarrow> query_row list" where
  "flatten_row env p r = (case resolve_owned (q_unicode env) (q_dates env) r p of
       VList items \<Rightarrow> map (\<lambda>item. with_flattened p item r) items
     | _ \<Rightarrow> [r])"

definition top_k :: "query_env \<Rightarrow> sort_order \<Rightarrow> nat \<Rightarrow> query_row list \<Rightarrow> query_row list" where
  "top_k env order n rows =
     (if n = 0 \<or> rows = [] then []
      else if length rows \<le> n then sort_rows (q_unicode env) (q_dates env) order rows
      else let keys = keys_for (q_unicode env) (q_dates env) order rows;
          indexed = map (\<lambda>i. (i, i)) [0..<length rows];
          cmp = (\<lambda>(a_idx, a_input) (b_idx, b_input).
            then_with (compare_keys order (keys_get keys a_idx) (keys_get keys b_idx)) (compare a_input b_input));
          selected = take n (select_nth env cmp (n - 1) indexed)
        in take_rows (map Some rows) (map fst (sort_by cmp selected)))"

fun transform_apply :: "query_env \<Rightarrow> query_transform \<Rightarrow> query_row list \<Rightarrow> query_row list" where
  "transform_apply env (FilterStep e) rows =
     filter (filter_matches (q_unicode env) (filter_f64_text (filters env)) (q_dates env) e) rows"
| "transform_apply env (SortStep order) rows = sort_rows (q_unicode env) (q_dates env) order rows"
| "transform_apply env (LimitStep n) rows = take n rows"
| "transform_apply env (GroupByStep p) rows =
     sort_rows (q_unicode env) (q_dates env) (order_single p Ascending) rows"
| "transform_apply env (FlattenStep p) rows = concat (map (flatten_row env p) rows)"
| "transform_apply env (TopKStep order n) rows = top_k env order n rows"

section \<open>Plans\<close>

type_synonym execution_plan = "query_transform list"

definition plan_apply :: "query_env \<Rightarrow> execution_plan \<Rightarrow> query_row list \<Rightarrow> query_row list" where
  "plan_apply env ops rows = fold (transform_apply env) ops rows"

fun fuse_filters :: "execution_plan \<Rightarrow> execution_plan" where
  "fuse_filters [] = []"
| "fuse_filters (FilterStep e # FilterStep other # ops) = fuse_filters (FilterStep (filter_and e other) # ops)"
| "fuse_filters (op # ops) = op # fuse_filters ops"

fun fuse_sorts :: "execution_plan \<Rightarrow> execution_plan" where
  "fuse_sorts [] = []"
| "fuse_sorts (SortStep order # SortStep other # ops) = fuse_sorts (SortStep (order_concat order other) # ops)"
| "fuse_sorts (op # ops) = op # fuse_sorts ops"

fun fuse_sort_limit :: "execution_plan \<Rightarrow> execution_plan" where
  "fuse_sort_limit [] = []"
| "fuse_sort_limit (SortStep order # LimitStep n # ops) = TopKStep order n # fuse_sort_limit ops"
| "fuse_sort_limit (op # ops) = op # fuse_sort_limit ops"

definition plan_run :: "query_env \<Rightarrow> execution_plan \<Rightarrow> query_row list \<Rightarrow> query_row list" where
  "plan_run env ops rows = plan_apply env (fuse_sort_limit (fuse_sorts (fuse_filters ops))) rows"

definition plan_push :: "execution_plan \<Rightarrow> query_transform \<Rightarrow> execution_plan" where
  "plan_push ops op = ops @ [op]"

section \<open>Requests\<close>

datatype query_mode = PagesMode | ListsMode | TasksMode

record query_builder =
  builder_mode :: query_mode
  builder_source :: source_selector
  builder_plan :: execution_plan

definition builder_from_mode :: "query_mode \<Rightarrow> source_selector \<Rightarrow> query_builder" where
  "builder_from_mode m s = \<lparr> builder_mode = m, builder_source = s, builder_plan = [] \<rparr>"

definition builder_push :: "query_builder \<Rightarrow> query_transform \<Rightarrow> query_builder" where
  "builder_push b op = b \<lparr> builder_plan := plan_push (builder_plan b) op \<rparr>"

definition builder_filter :: "query_env \<Rightarrow> string \<Rightarrow> query_builder \<Rightarrow> (query_builder_error, query_builder) result option" where
  "builder_filter env expr b = map_option (\<lambda>r. and_then r (\<lambda>op. Ok (builder_push b op))) (q_filter env expr)"

definition builder_sort :: "query_env \<Rightarrow> string \<Rightarrow> bool \<Rightarrow> query_builder \<Rightarrow> (query_builder_error, query_builder) result" where
  "builder_sort env p descending b = and_then (q_sort env p descending) (\<lambda>op. Ok (builder_push b op))"

definition builder_order :: "sort_order \<Rightarrow> query_builder \<Rightarrow> query_builder" where
  "builder_order by b = builder_push b (q_order by)"

definition builder_limit :: "int \<Rightarrow> query_builder \<Rightarrow> (query_builder_error, query_builder) result" where
  "builder_limit n b = and_then (q_limit n) (\<lambda>op. Ok (builder_push b op))"

section \<open>Lazy result sets\<close>

record query_set =
  set_base :: "query_row list"
  set_plan :: execution_plan
  set_cache :: "query_row list option"

definition query_set_new :: "query_row list \<Rightarrow> query_set" where
  "query_set_new rows = \<lparr> set_base = rows, set_plan = [], set_cache = None \<rparr>"

text \<open>\<open>rows\<close> fills the cache on its first call.\<close>

definition query_set_rows :: "query_env \<Rightarrow> query_set \<Rightarrow> query_row list \<times> query_set" where
  "query_set_rows env qs = (case set_cache qs of
       Some rows \<Rightarrow> (rows, qs)
     | None \<Rightarrow> let rows = (if set_plan qs = [] then set_base qs else plan_run env (set_plan qs) (set_base qs))
         in (rows, qs \<lparr> set_cache := Some rows \<rparr>))"

definition query_set_push :: "query_set \<Rightarrow> query_transform \<Rightarrow> query_set" where
  "query_set_push qs op =
     \<lparr> set_base = set_base qs, set_plan = plan_push (set_plan qs) op, set_cache = None \<rparr>"

definition set_filter :: "query_env \<Rightarrow> string \<Rightarrow> query_set \<Rightarrow> (query_error, query_set) result option" where
  "set_filter env expr qs = map_option (\<lambda>r. map_err BuilderFailed (and_then r (\<lambda>op. Ok (query_set_push qs op))))
     (q_filter env expr)"

definition set_sort_field :: "query_env \<Rightarrow> string \<Rightarrow> sort_direction \<Rightarrow> query_set \<Rightarrow> (query_error, query_set) result" where
  "set_sort_field env p direction qs =
     and_then (map_err QueryFieldPathFailed
         (field_path_parse (filter_unicode (filters env)) (filter_distance (filters env)) p)) (\<lambda>field.
       Ok (query_set_push qs (q_order (order_single field direction))))"

definition set_limit :: "int \<Rightarrow> query_set \<Rightarrow> (query_error, query_set) result" where
  "set_limit n qs = map_err BuilderFailed (and_then (q_limit n) (\<lambda>op. Ok (query_set_push qs op)))"

definition set_group_by :: "query_env \<Rightarrow> string \<Rightarrow> query_set \<Rightarrow> (query_error, query_set) result" where
  "set_group_by env p qs = map_err BuilderFailed (and_then (q_group_by env p) (\<lambda>op. Ok (query_set_push qs op)))"

definition set_flatten :: "query_env \<Rightarrow> string \<Rightarrow> query_set \<Rightarrow> (query_error, query_set) result" where
  "set_flatten env p qs = map_err BuilderFailed (and_then (q_flatten env p) (\<lambda>op. Ok (query_set_push qs op)))"

text \<open>The cache never shows: a set is what its plan makes of its base.\<close>

definition query_set_wf :: "query_env \<Rightarrow> query_set \<Rightarrow> bool" where
  "query_set_wf env qs \<longleftrightarrow> set_cache qs \<in> {None, Some (plan_run env (set_plan qs) (set_base qs))}"

lemma plan_run_Nil [simp]: "plan_run env [] rows = rows"
  by (simp add: plan_run_def plan_apply_def)

lemma query_set_rows_wf:
  "query_set_wf env qs \<Longrightarrow> fst (query_set_rows env qs) = plan_run env (set_plan qs) (set_base qs)
    \<and> query_set_wf env (snd (query_set_rows env qs)) \<and> set_plan (snd (query_set_rows env qs)) = set_plan qs
    \<and> set_base (snd (query_set_rows env qs)) = set_base qs"
  by (auto simp: query_set_wf_def query_set_rows_def Let_def)

lemma query_set_push_wf: "query_set_wf env (query_set_push qs op)" "query_set_wf env (query_set_new rows)"
  by (simp_all add: query_set_wf_def query_set_push_def query_set_new_def)

section \<open>What selection does\<close>

definition total_cmp_on :: "'a list \<Rightarrow> ('a \<Rightarrow> 'a \<Rightarrow> ordering) \<Rightarrow> bool" where
  "total_cmp_on xs cmp \<longleftrightarrow> (\<exists>total. total_cmp total \<and> (\<forall>x\<in>set xs. \<forall>y\<in>set xs. cmp x y = total x y))"

text \<open>The contract of \<open>select_nth_unstable_by\<close>.\<close>

definition selection :: "(('a \<Rightarrow> 'a \<Rightarrow> ordering) \<Rightarrow> nat \<Rightarrow> 'a list \<Rightarrow> 'a list) \<Rightarrow> bool" where
  "selection select \<longleftrightarrow> (\<forall>cmp k xs. total_cmp_on xs cmp \<longrightarrow> k < length xs \<longrightarrow> selects cmp k xs (select cmp k xs))"

lemma selects_cong:
  assumes "\<And>x y. x \<in> set xs \<Longrightarrow> y \<in> set xs \<Longrightarrow> c1 x y = c2 x y" "selects c1 k xs ys"
  shows "selects c2 k xs ys"
proof -
  have ys: "mset ys = mset xs" "k < length ys" using assms(2) by (simp_all add: selects_def)
  then have set: "set ys = set xs" by (metis mset_eq_setD)
  have "ys ! k \<in> set xs" using ys(2) set nth_mem by metis
  moreover have "y \<in> set xs" if "y \<in> set (take k ys) \<union> set (drop (Suc k) ys)" for y
    using that set by (auto dest: in_set_takeD in_set_dropD)
  ultimately show ?thesis
    using assms by (auto simp: selects_def list_all_iff)
qed

lemma sort_by_selection: "selection (\<lambda>cmp k xs. sort_by cmp xs)"
  unfolding selection_def
proof (intro allI impI)
  fix cmp :: "'a \<Rightarrow> 'a \<Rightarrow> ordering" and k xs
  assume on: "total_cmp_on xs cmp" and k: "k < length xs"
  then obtain total where t: "total_cmp total" "\<forall>x\<in>set xs. \<forall>y\<in>set xs. cmp x y = total x y"
    by (auto simp: total_cmp_on_def)
  have same: "sort_by cmp xs = sort_by total xs" using t(2) by (intro sort_by_cong) simp
  have sorted: "sorted_by total (sort_by total xs)" by (rule total_cmp.sorted_sort_by [OF t(1)])
  let ?s = "sort_by total xs"
  have split: "?s = take k ?s @ ?s ! k # drop (Suc k) ?s" using k by (simp add: id_take_nth_drop)
  then have "sorted_by total (take k ?s @ ?s ! k # drop (Suc k) ?s)" using sorted by simp
  then have "selects total k xs ?s"
    using k by (auto simp: selects_def list_all_iff sorted_wrt_append)
  then show "selects cmp k xs (sort_by cmp xs)"
    unfolding same using t(2) by (intro selects_cong [of xs total cmp]) simp_all
qed

section \<open>A bounded selection is a sort and a limit\<close>

lemma take_rows_take:
  assumes "distinct idx" "\<forall>i\<in>set idx. i < length rows"
  shows "take_rows (map Some rows) (take n idx) = take n (take_rows (map Some rows) idx)"
proof -
  have "\<forall>i\<in>set (take n idx). i < length rows" using assms(2) by (auto dest: in_set_takeD)
  then show ?thesis using assms by (simp add: take_rows_nth take_map)
qed

lemma top_k_take:
  assumes sel: "selection (select_nth env)"
  shows "top_k env order n rows = take n (sort_rows (q_unicode env) (q_dates env) order rows)"
proof -
  consider "n = 0 \<or> rows = []" | "length rows \<le> n" "rows \<noteq> []" | "0 < n" "n < length rows" by fastforce
  then show ?thesis
  proof cases
    case 3
    define c where "c i j = row_cmp (q_unicode env) (q_dates env) order (rows ! i) (rows ! j)" for i j
    define keys where "keys = keys_for (q_unicode env) (q_dates env) order rows"
    define cmp where "cmp = (\<lambda>(a, a') (b, b' :: nat). then_with (compare_keys order (keys_get keys a) (keys_get keys b)) (compare a' b'))"
    define pc where "pc p q = then_with (c (fst p) (fst q)) (compare (snd p) (snd q))" for p q :: "nat \<times> nat"
    define indexed where "indexed = map (\<lambda>i. (i, i)) [0..<length rows]"
    have c: "total_cmp c" unfolding c_def by (rule total_cmp_key [OF total_cmp_row])
    have pc: "total_cmp pc"
      unfolding pc_def by (rule total_cmp_then_with) (rule total_cmp_key [OF c] total_cmp_key [OF total_cmp_compare])+
    have same: "cmp p q = pc p q" if "p \<in> set indexed" "q \<in> set indexed" for p q
      using that by (auto simp: indexed_def cmp_def pc_def c_def keys_def keys_get_row row_cmp_def)
    have k: "n - 1 < length indexed" "Suc (n - 1) = n" using 3 by (simp_all add: indexed_def)
    have "total_cmp_on indexed cmp" using pc same by (auto simp: total_cmp_on_def)
    with sel k have sel': "selects cmp (n - 1) indexed (select_nth env cmp (n - 1) indexed)"
      by (auto simp: selection_def)
    have chosen: "selects pc (n - 1) indexed (select_nth env cmp (n - 1) indexed)"
      by (rule selects_cong [OF same sel'])
    have strict: "p = q" if "p \<in> set indexed" "q \<in> set indexed" "pc p q = Equal" for p q
      using that by (auto simp: indexed_def pc_def compare_def then_with_eq split: if_splits)
    have in_indexed: "set (take n (select_nth env cmp (n - 1) indexed)) \<subseteq> set indexed"
      using chosen by (metis selects_def mset_eq_setD set_take_subset)
    have "sort_by cmp (take n (select_nth env cmp (n - 1) indexed))
        = sort_by pc (take n (select_nth env cmp (n - 1) indexed))"
    proof (rule sort_by_cong)
      fix p q assume "p \<in> set (take n (select_nth env cmp (n - 1) indexed))"
        "q \<in> set (take n (select_nth env cmp (n - 1) indexed))"
      then have "cmp p q = pc p q" using in_indexed by (intro same) (rule subsetD, assumption+)+
      then show "(cmp p q = Greater) = (pc p q = Greater)" by simp
    qed
    also have "\<dots> = take n (sort_by pc indexed)"
      using selects_take [OF pc chosen strict] unfolding k(2) by blast
    also have "sort_by pc indexed = sort_by (\<lambda>p q. c (fst p) (fst q)) (sort_by (\<lambda>p q. compare (snd p) (snd q)) indexed)"
      unfolding pc_def by (rule sort_by_then_with) (rule total_cmp_key [OF c] total_cmp_key [OF total_cmp_compare])+
    also have "sort_by (\<lambda>p q. compare (snd p) (snd q)) indexed = indexed"
      by (rule sort_by_sorted) (auto simp: indexed_def sorted_wrt_map compare_def sorted_wrt_iff_nth_less)
    finally have "map fst (sort_by cmp (take n (select_nth env cmp (n - 1) indexed)))
        = take n (map fst (sort_by (\<lambda>p q. c (fst p) (fst q)) indexed))" by (simp add: take_map)
    also have "map fst (sort_by (\<lambda>p q. c (fst p) (fst q)) indexed) = sort_by c [0..<length rows]"
      by (simp add: map_sort_by indexed_def comp_def)
    finally have "take_rows (map Some rows) (map fst (sort_by cmp (take n (select_nth env cmp (n - 1) indexed))))
        = take n (take_rows (map Some rows) (sort_by c [0..<length rows]))"
      by (simp add: take_rows_take)
    also have "take_rows (map Some rows) (sort_by c [0..<length rows])
        = sort_by (row_cmp (q_unicode env) (q_dates env) order) rows"
      by (rule sort_indexed) (simp add: c_def)
    finally show ?thesis
      using 3 by (simp add: top_k_def keys_def cmp_def indexed_def sort_rows_sort_by Let_def)
  qed (auto simp: top_k_def sort_rows_sort_by)
qed

section \<open>What the fusions do\<close>

text \<open>The steps in the order in which \<open>plan_run\<close> applies them: a run of adjacent sorts is applied from
  its last to its first.\<close>

fun reverse_sorts :: "execution_plan \<Rightarrow> execution_plan \<Rightarrow> execution_plan" where
  "reverse_sorts sorts (SortStep order # ops) = reverse_sorts (SortStep order # sorts) ops"
| "reverse_sorts sorts [] = sorts"
| "reverse_sorts sorts (op # ops) = sorts @ op # reverse_sorts [] ops"

fun adjacent_sorts :: "execution_plan \<Rightarrow> bool" where
  "adjacent_sorts (SortStep a # SortStep b # ops) \<longleftrightarrow> True"
| "adjacent_sorts (op # ops) \<longleftrightarrow> adjacent_sorts ops"
| "adjacent_sorts [] \<longleftrightarrow> False"

lemma plan_apply_simps [simp]:
  "plan_apply env [] rows = rows"
  "plan_apply env (op # ops) rows = plan_apply env ops (transform_apply env op rows)"
  "plan_apply env (ops @ ops') rows = plan_apply env ops' (plan_apply env ops rows)"
  by (simp_all add: plan_apply_def)

lemma satisfied_by_children:
  "list_all (satisfied_by p) (and_children e) = satisfied_by p e"
  by (cases e) simp_all

lemma filter_matches_and:
  "filter_matches u ft ops (filter_and a b) = (\<lambda>r. filter_matches u ft ops a r \<and> filter_matches u ft ops b r)"
  by (simp add: fun_eq_iff filter_matches_def filter_and_def satisfied_by_children)

lemma apply_filter_and:
  "transform_apply env (FilterStep (filter_and a b)) rows
    = transform_apply env (FilterStep b) (transform_apply env (FilterStep a) rows)"
  by (simp add: filter_matches_and)

lemma apply_order_concat:
  "transform_apply env (SortStep (order_concat a b)) rows
    = transform_apply env (SortStep a) (transform_apply env (SortStep b) rows)"
  by (simp add: sort_rows_sort_by row_cmp_concat sort_by_then_with total_cmp_row)

lemma reverse_sorts_step:
  assumes "\<And>sorts rows. plan_apply env (reverse_sorts sorts ops) rows = plan_apply env (reverse_sorts sorts ops') rows"
  shows "plan_apply env (reverse_sorts sorts (op # ops)) rows = plan_apply env (reverse_sorts sorts (op # ops')) rows"
  using assms by (cases op) (simp_all del: transform_apply.simps)

lemma fuse_filters_apply:
  "plan_apply env (reverse_sorts sorts (fuse_filters ops)) rows = plan_apply env (reverse_sorts sorts ops) rows"
proof (induction ops arbitrary: sorts rows rule: fuse_filters.induct)
  case (2 e other ops)
  then show ?case by (simp add: apply_filter_and del: transform_apply.simps)
qed (simp only: fuse_filters.simps; (rule refl | (rule reverse_sorts_step, blast)))+

lemma fuse_sorts_apply:
  "(\<forall>rows. plan_apply env (fuse_sorts ops) rows = plan_apply env (reverse_sorts [] ops) rows)
    \<and> (\<forall>sorts order. (\<forall>rows. plan_apply env sorts rows = transform_apply env (SortStep order) rows)
      \<longrightarrow> (\<forall>rows. plan_apply env (fuse_sorts (SortStep order # ops)) rows = plan_apply env (reverse_sorts sorts ops) rows))"
proof (induction ops)
  case (Cons op ops)
  have run: "plan_apply env (fuse_sorts (SortStep order # ops)) rows = plan_apply env (reverse_sorts sorts ops) rows"
    if "\<forall>rows. plan_apply env sorts rows = transform_apply env (SortStep order) rows" for sorts order rows
    using Cons that by blast
  have plain: "plan_apply env (fuse_sorts ops) rows = plan_apply env (reverse_sorts [] ops) rows" for rows
    using Cons by blast
  have "plan_apply env (fuse_sorts (op # ops)) rows = plan_apply env (reverse_sorts [] (op # ops)) rows" for rows
  proof (cases op)
    case (SortStep order)
    have "plan_apply env (fuse_sorts (SortStep order # ops)) rows = plan_apply env (reverse_sorts [SortStep order] ops) rows"
      by (rule run) simp
    then show ?thesis by (simp add: SortStep del: transform_apply.simps)
  qed (simp_all del: transform_apply.simps add: plain)
  moreover have "plan_apply env (fuse_sorts (SortStep order # op # ops)) rows = plan_apply env (reverse_sorts sorts (op # ops)) rows"
    if sorts: "\<forall>rows. plan_apply env sorts rows = transform_apply env (SortStep order) rows" for sorts order rows
  proof (cases op)
    case (SortStep order')
    have "plan_apply env (SortStep order' # sorts) rows = transform_apply env (SortStep (order_concat order order')) rows"
      for rows by (simp only: plan_apply_simps apply_order_concat sorts)
    then have "plan_apply env (fuse_sorts (SortStep (order_concat order order') # ops)) rows
        = plan_apply env (reverse_sorts (SortStep order' # sorts) ops) rows" by (intro run) blast
    then show ?thesis by (simp add: SortStep del: transform_apply.simps)
  qed (simp_all del: transform_apply.simps add: plain sorts)
  ultimately show ?case by blast
qed (simp del: transform_apply.simps)

lemma fuse_sort_limit_apply:
  assumes "selection (select_nth env)"
  shows "plan_apply env (fuse_sort_limit ops) rows = plan_apply env ops rows"
  by (induction ops arbitrary: rows rule: fuse_sort_limit.induct) (simp_all add: top_k_take [OF assms])

lemma reverse_sorts_apart:
  "\<not> adjacent_sorts ops \<Longrightarrow> reverse_sorts [] ops = ops"
  "\<not> adjacent_sorts (SortStep order # ops) \<Longrightarrow> reverse_sorts [SortStep order] ops = SortStep order # ops"
proof (induction ops arbitrary: order)
  case (Cons op ops)
  {
    case 1
    then show ?case using Cons.IH by (cases op) simp_all
  next
    case 2
    then show ?case using Cons.IH by (cases op) simp_all
  }
qed simp_all

section \<open>Properties\<close>

text \<open>C13. Running a plan, with its filters and its sorts fused and its sorts with a limit turned into
  selections of the first rows, gives the rows of applying its steps one by one, in their order,
  except that a run of adjacent sorts is applied from its last to its first; so a plan without
  adjacent sorts gives exactly the rows of its steps.\<close>

theorem plan_run_applies:
  assumes "selection (select_nth env)"
  shows "plan_run env ops rows = plan_apply env (reverse_sorts [] ops) rows
    \<and> (\<not> adjacent_sorts ops \<longrightarrow> plan_run env ops rows = plan_apply env ops rows)"
  by (simp add: plan_run_def fuse_sort_limit_apply [OF assms] fuse_sorts_apply fuse_filters_apply reverse_sorts_apart)

theorem plan_run_applies_witness:
  "\<forall>fs lx rows p q. let env = \<lparr> filters = fs, filter_lexer = lx, select_nth = \<lambda>cmp k xs. sort_by cmp xs \<rparr>;
       by_p = order_single p Ascending; by_q = order_single q Descending
     in plan_run env [SortStep by_p, SortStep by_q, LimitStep 2] rows
          = plan_apply env [SortStep by_q, SortStep by_p, LimitStep 2] rows
      \<and> plan_run env [SortStep by_p, FlattenStep q, SortStep by_q, LimitStep 2] rows
          = plan_apply env [SortStep by_p, FlattenStep q, SortStep by_q, LimitStep 2] rows"
proof -
  have run: "plan_run env [SortStep by_p, SortStep by_q, LimitStep 2] rows
        = plan_apply env (reverse_sorts [] [SortStep by_p, SortStep by_q, LimitStep 2]) rows"
    "plan_run env [SortStep by_p, FlattenStep q, SortStep by_q, LimitStep 2] rows
        = plan_apply env [SortStep by_p, FlattenStep q, SortStep by_q, LimitStep 2] rows"
    if "selection (select_nth env)" for env by_p by_q q rows
    using plan_run_applies [OF that, of "[SortStep by_p, SortStep by_q, LimitStep 2]" rows]
      plan_run_applies [OF that, of "[SortStep by_p, FlattenStep q, SortStep by_q, LimitStep 2]" rows]
    by (simp_all del: transform_apply.simps)
  show ?thesis
    unfolding Let_def
    by (intro allI conjI; subst run; simp add: sort_by_selection del: transform_apply.simps plan_apply_simps)
qed

end
