(* ===== verification/Query_Service.thy ===== *)
theory Query_Service
  imports Query_Plan Store_Queries
begin

text \<open>
  Running queries (\<open>src/query/service.rs\<close>): on a built index, by filtering its entries, and on a
  store, by resolving the source to candidate paths first and reading only their rows.  The
  lemmas show that both see the same rows, up to the order of inbound links.
\<close>

section \<open>The service\<close>

record query_service =
  service_class_field :: string
  service_expander :: "class_expander option"

definition query_service_new :: "unicode \<Rightarrow> (string \<Rightarrow> string) \<Rightarrow> string \<Rightarrow> query_service" where
  "query_service_new u lowercase class_field = \<lparr> service_class_field =
       (case field_key_try_new u class_field of Inr key \<Rightarrow> key_canonical key | Inl _ \<Rightarrow> lowercase class_field),
     service_expander = None \<rparr>"

definition with_class_expander :: "class_expander \<Rightarrow> query_service \<Rightarrow> query_service" where
  "with_class_expander expander svc = svc \<lparr> service_expander := Some expander \<rparr>"

definition resolve_source_classes :: "query_service \<Rightarrow> source_selector \<Rightarrow> source_selector" where
  "resolve_source_classes svc source = (case service_expander svc of
       Some expander \<Rightarrow> if has_classes source then resolve_classes expander source else source
     | None \<Rightarrow> source)"

section \<open>Rows of an index\<close>

definition matched_file_rows ::
  "regex_crate \<Rightarrow> unicode \<Rightarrow> query_service \<Rightarrow> workspace_index \<Rightarrow> source_selector \<Rightarrow> query_row list"
where
  "matched_file_rows rx u svc index source = map (query_row_new index)
     (filter (\<lambda>position. case entry_at index position of
          Some e \<Rightarrow> source_matches rx u (service_class_field svc) source e | None \<Rightarrow> False) [0..<length index])"

definition item_rows_of :: "(list_item \<Rightarrow> bool) \<Rightarrow> query_row \<Rightarrow> query_row list" where
  "item_rows_of is_wanted base = (case row_note base of
       None \<Rightarrow> []
     | Some n \<Rightarrow> map (\<lambda>(item_idx, item). with_list_item item_idx base)
         (filter (\<lambda>(item_idx, item). is_wanted item \<and> item_idx < 2 ^ 32) (enumerate 0 (note_lists n))))"

definition item_rows ::
  "regex_crate \<Rightarrow> unicode \<Rightarrow> query_service \<Rightarrow> workspace_index \<Rightarrow> source_selector \<Rightarrow> (list_item \<Rightarrow> bool)
    \<Rightarrow> query_row list"
where
  "item_rows rx u svc index source is_wanted =
     concat (map (item_rows_of is_wanted) (matched_file_rows rx u svc index source))"

fun rows_for ::
  "regex_crate \<Rightarrow> unicode \<Rightarrow> query_service \<Rightarrow> query_mode \<Rightarrow> workspace_index \<Rightarrow> source_selector \<Rightarrow> query_row list"
where
  "rows_for rx u svc PagesMode index source = matched_file_rows rx u svc index source"
| "rows_for rx u svc ListsMode index source = item_rows rx u svc index source (\<lambda>item. True)"
| "rows_for rx u svc TasksMode index source = item_rows rx u svc index source (\<lambda>item. is_task (item_kind item))"

definition service_run ::
  "regex_crate \<Rightarrow> query_env \<Rightarrow> query_service \<Rightarrow> workspace_index \<Rightarrow> query_builder \<Rightarrow> query_set"
where
  "service_run rx env svc index b = query_set_new (plan_run env (builder_plan b)
     (rows_for rx (q_unicode env) svc (builder_mode b) index (resolve_source_classes svc (builder_source b))))"

section \<open>Candidates of a store\<close>

fun intersect_sorted :: "'a::linorder list \<Rightarrow> 'a list \<Rightarrow> 'a list" where
  "intersect_sorted (a # as) (b # bs) =
     (if a < b then intersect_sorted as (b # bs)
      else if b < a then intersect_sorted (a # as) bs
      else a # intersect_sorted as bs)"
| "intersect_sorted as bs = []"

definition all_paths :: "('t, 'm) backend \<Rightarrow> ('t, 'm) index_store \<Rightarrow> (index_error, path list) result" where
  "all_paths db st = paths_in_folder db st (path_key [])"

definition class_paths ::
  "('t, 'm) backend \<Rightarrow> ('t, 'm) index_store \<Rightarrow> string list \<Rightarrow> (index_error, path list) result"
where
  "class_paths db st cls_names =
     and_then (try_map (paths_with_file_class db st) cls_names) (\<lambda>found. Ok (dedup (sort (concat found))))"

fun resolve_atom ::
  "regex_crate \<Rightarrow> ('t, 'm) backend \<Rightarrow> ('t, 'm) index_store \<Rightarrow> source_atom \<Rightarrow> (index_error, path list) result"
where
  "resolve_atom rx db st (TagSource t) = paths_with_tag db st t"
| "resolve_atom rx db st (ClassSource cls_names mode) =
     class_paths db st (if mode_classes mode = [] then cls_names else mode_classes mode)"
| "resolve_atom rx db st (PathSource g) =
     and_then (all_paths db st) (\<lambda>all. Ok (filter (glob_is_match rx g) all))"

fun resolve_expr ::
  "regex_crate \<Rightarrow> ('t, 'm) backend \<Rightarrow> ('t, 'm) index_store \<Rightarrow> source_atom boolean_expr
    \<Rightarrow> (index_error, path list) result"
where
  "resolve_expr rx db st (BAtom a) = resolve_atom rx db st a"
| "resolve_expr rx db st (BAnd []) = all_paths db st"
| "resolve_expr rx db st (BAnd (first # terms)) =
     fold (\<lambda>term found. and_then found (\<lambda>acc.
         and_then (resolve_expr rx db st term) (\<lambda>next_paths. Ok (intersect_sorted acc next_paths))))
       terms (resolve_expr rx db st first)"
| "resolve_expr rx db st (BOr terms) =
     and_then (fold (\<lambda>term found. and_then found (\<lambda>acc.
         and_then (resolve_expr rx db st term) (\<lambda>paths. Ok (acc @ paths)))) terms (Ok []))
       (\<lambda>acc. Ok (dedup (sort acc)))"
| "resolve_expr rx db st (BNot e) = all_paths db st"

fun resolve_source ::
  "regex_crate \<Rightarrow> ('t, 'm) backend \<Rightarrow> ('t, 'm) index_store \<Rightarrow> source_selector \<Rightarrow> (index_error, path list) result"
where
  "resolve_source rx db st AllSources = all_paths db st"
| "resolve_source rx db st (SourceExpr e) = resolve_expr rx db st e"

definition run_from_store ::
  "regex_crate \<Rightarrow> query_env \<Rightarrow> ('t, 'm) backend \<Rightarrow> query_service \<Rightarrow> ('t, 'm) index_store \<Rightarrow> query_builder
    \<Rightarrow> (index_error, query_set) result"
where
  "run_from_store rx env db svc st b = (let source = resolve_source_classes svc (builder_source b) in
     and_then (resolve_source rx db st source) (\<lambda>candidate_paths.
     and_then (read_notes_batch db st candidate_paths) (\<lambda>ns.
     and_then (read_files_batch db st candidate_paths) (\<lambda>files.
     and_then (read_links_for_targets db st candidate_paths) (\<lambda>inlinks.
       Ok (query_set_new (plan_run env (builder_plan b)
         (rows_for rx (q_unicode env) svc (builder_mode b) (assemble files ns inlinks) source))))))))"

section \<open>Intersections\<close>

lemma intersect_sorted_spec:
  "sorted_wrt (<) as \<Longrightarrow> sorted_wrt (<) bs
    \<Longrightarrow> sorted_wrt (<) (intersect_sorted as bs) \<and> set (intersect_sorted as bs) = set as \<inter> set bs"
proof (induction as bs rule: intersect_sorted.induct)
  case (1 a as b bs)
  consider "a < b" | "b < a" | "a = b" by fastforce
  then show ?case
  proof cases
    case 1
    then have "a \<notin> set (b # bs)" using "1.prems"(2) by auto
    with 1 show ?thesis using "1.IH"(1) "1.prems" by auto
  next
    case 2
    then have "b \<notin> set (a # as)" using "1.prems"(1) by auto
    with 2 show ?thesis using "1.IH"(2) "1.prems" by auto
  next
    case 3
    then show ?thesis using "1.IH"(3) "1.prems" by auto
  qed
qed simp_all

lemma foldl_intersect:
  "sorted_wrt (<) s \<Longrightarrow> (\<forall>x\<in>set xs. sorted_wrt (<) x)
    \<Longrightarrow> sorted_wrt (<) (foldl intersect_sorted s xs) \<and> set (foldl intersect_sorted s xs) = set s \<inter> (\<Inter>x\<in>set xs. set x)"
proof (induction xs arbitrary: s)
  case (Cons x xs)
  then show ?case using intersect_sorted_spec [of s x] Cons.IH [of "intersect_sorted s x"] by auto
qed simp

lemma foldl_append: "foldl (@) s xs = s @ concat xs"
  by (induction xs arbitrary: s) simp_all

text \<open>The loops over terms: all of them, and then a fold over their results.\<close>

lemma fold_results:
  "fold (\<lambda>t found. and_then found (\<lambda>acc. and_then (r t) (\<lambda>x. Ok (g acc x)))) ts start
    = and_then start (\<lambda>s. and_then (try_map r ts) (\<lambda>xs. Ok (foldl g s xs)))"
proof (induction ts arbitrary: start)
  case Nil
  then show ?case by (cases start) simp_all
next
  case (Cons t ts)
  show ?case
  proof (cases start)
    case (Inr s)
    then show ?thesis by (cases "r t"; cases "try_map r ts") (simp_all add: Cons)
  qed (simp add: Cons)
qed

section \<open>Candidates contain every match\<close>

text \<open>Tags of a source as its lexer delivers them: with the number sign.\<close>

fun hashed_atom :: "source_atom \<Rightarrow> bool" where
  "hashed_atom (TagSource t) \<longleftrightarrow> prefix ''#'' t"
| "hashed_atom _ \<longleftrightarrow> True"

fun hashed_source :: "source_selector \<Rightarrow> bool" where
  "hashed_source AllSources \<longleftrightarrow> True"
| "hashed_source (SourceExpr e) \<longleftrightarrow> \<not> has_any_atom (\<lambda>a. \<not> hashed_atom a) e"

lemma hashed_visit: "has_any_atom (\<lambda>a. \<not> hashed_atom a) (visit_atoms (expand_atom expand) e)
    = has_any_atom (\<lambda>a. \<not> hashed_atom a) e"
proof (induction e)
  case (BAtom a)
  then show ?case by (cases a) simp_all
qed (auto simp: list_ex_iff)

lemma hashed_resolved: "hashed_source source \<Longrightarrow> hashed_source (resolve_source_classes svc source)"
  by (cases source) (auto simp: resolve_source_classes_def hashed_visit split: option.splits)

definition complete_candidates ::
  "path list \<Rightarrow> file_meta list \<Rightarrow> (file_meta \<Rightarrow> bool) \<Rightarrow> bool"
where
  "complete_candidates ps files matching \<longleftrightarrow> sorted_wrt (<) ps \<and> set ps \<subseteq> file_path ` set files
     \<and> (\<forall>f\<in>set files. matching f \<longrightarrow> file_path f \<in> set ps)"

lemma all_candidates:
  assumes "backend_ok db rows pairs" "holds_index db rows pairs cls st parse cur" "all_paths db st = Ok ps"
  shows "complete_candidates ps cur matching" "set ps = file_path ` set cur"
proof -
  obtain ns where ns: "parse_notes parse cur = Ok ns" using assms(2) by (auto simp: holds_index_def)
  have "\<forall>f\<in>set cur. file_path f \<noteq> []"
    using held_tables(2) [OF assms(2) ns] by (auto simp: plain_rows_def plain_path_def)
  then show "set ps = file_path ` set cur" "complete_candidates ps cur matching"
    using folder_paths [OF assms(1,2), of "[]" ps] assms(3)
    by (auto simp: all_paths_def complete_candidates_def strict_prefix_def)
qed

lemma file_class_paths:
  assumes "backend_ok db rows pairs" "holds_index db rows pairs cls st parse cur" "parse_notes parse cur = Ok ns"
    "paths_with_file_class db st c = Ok ps"
  shows "set ps = note_path ` {n \<in> set ns. with_lowercased db c \<in> set (axis_values db (ClassAxis cls) n)}"
proof -
  note H = held_tables [OF assms(2,3)]
  have "paths_from_multimap db st (axis_forward (ClassAxis cls) (store_tables st)) (with_lowercased db c) = Ok ps"
    using assms(4) by (simp add: paths_with_file_class_def)
  from multimap_paths [OF assms(1) axis_paths [OF H(5)] _ this] H(3)
  show ?thesis by (auto simp: for_class_field_def plain_rows_def)
qed

lemma class_candidates:
  assumes "backend_ok db rows pairs" "holds_index db rows pairs cls st parse cur" "parse_notes parse cur = Ok ns"
    "class_paths db st cs = Ok ps"
  shows "sorted_wrt (<) ps
    \<and> set ps = note_path ` {n \<in> set ns. \<exists>c\<in>set cs. with_lowercased db c \<in> set (axis_values db (ClassAxis cls) n)}"
proof -
  obtain found where found: "list_all2 (\<lambda>c found. paths_with_file_class db st c = Ok found) cs found"
    "ps = dedup (sort (concat found))"
    using assms(4) by (auto simp: class_paths_def and_then_eq_Ok try_map_Ok)
  have "set (concat found)
      = note_path ` {n \<in> set ns. \<exists>c\<in>set cs. with_lowercased db c \<in> set (axis_values db (ClassAxis cls) n)}"
    using found(1)
  proof (induction rule: list_all2_induct)
    case (Cons c cs x xs)
    then show ?case using file_class_paths [OF assms(1-3), of c x] by (simp del: axis_values.simps) blast
  qed simp
  then show ?thesis using sorted_dedup_distinct [OF sorted_sort, of "concat found"] by (simp add: found(2))
qed

lemma note_files:
  assumes "vault parse cur" "parse_notes parse cur = Ok ns"
  shows "note_path ` set ns \<subseteq> file_path ` set cur"
  using assms by (fastforce simp: parse_notes_Ok parsed_def vault_def)

lemma atom_candidates:
  assumes ok: "backend_ok db rows pairs" and held: "holds_index db rows pairs cls st parse cur"
    and ns: "parse_notes parse cur = Ok ns" and run: "resolve_atom rx db st a = Ok ps" and hashed: "hashed_atom a"
  shows "complete_candidates ps cur (\<lambda>f. source_atom_matches rx (unicode_tables db) cls (joined_entry ns m f) a)"
proof -
  have sub: "note_path ` set ns \<subseteq> file_path ` set cur"
    using held ns by (intro note_files) (simp_all add: holds_index_def)
  have at: "n \<in> set ns" "note_path n = file_path f" if "entry_note (joined_entry ns m f) = Some n" for n f
    using row_of_SomeD [of note_path ns "file_path f" n] that by (simp_all add: joined_entry_def)
  show ?thesis
  proof (cases a)
    case (TagSource t)
    then have r: "paths_with_tag db st t = Ok ps" using run by simp
    have "file_path f \<in> set ps" if f: "entry_note (joined_entry ns m f) = Some n"
      and v: "v \<in> set (note_tags n)" "is_contained_in v t" for f n v
    proof -
      have "file_path f \<in> {note_path n | n. n \<in> set ns \<and> (\<exists>t'\<in>set (note_tags n). \<exists>seg\<in>set (tag_segments t').
          with_lowercased db seg = with_lowercased db t)}"
        using at [OF f] v(1) contained_segment [OF v(2)] by (metis (mono_tags, lifting) mem_Collect_eq)
      then show ?thesis using tag_paths [OF ok held ns r] hashed TagSource by simp
    qed
    then show ?thesis
      using tag_paths [OF ok held ns r] sub
      by (auto simp: complete_candidates_def TagSource list_ex_iff split: option.splits)
  next
    case (PathSource g)
    then obtain all where all: "all_paths db st = Ok all" "ps = filter (glob_is_match rx g) all"
      using run by (auto simp: and_then_eq_Ok)
    show ?thesis
      using all_candidates [OF ok held all(1)]
      by (auto simp: complete_candidates_def all(2) PathSource joined_entry_def sorted_wrt_filter)
  next
    case (ClassSource cls_names mode)
    then have r: "class_paths db st (if mode_classes mode = [] then cls_names else mode_classes mode) = Ok ps"
      using run by simp
    have "file_path f \<in> set ps" if f: "entry_note (joined_entry ns m f) = Some n"
      and v: "v \<in> set (class_values (unicode_tables db) n cls)" "v \<in> set (mode_classes mode)" for f n v
    proof -
      have "with_lowercased db v \<in> set (axis_values db (ClassAxis cls) n)"
        using v(1) by (auto simp: class_values_def)
      then have "n \<in> {n \<in> set ns. \<exists>c\<in>set (mode_classes mode).
          with_lowercased db c \<in> set (axis_values db (ClassAxis cls) n)}" using at(1) [OF f] v(2) by blast
      from imageI [OF this, of note_path] class_candidates [OF ok held ns r] at(2) [OF f] v(2)
      show ?thesis by (simp del: axis_values.simps split: if_splits)
    qed
    moreover have "sorted_wrt (<) ps" "set ps \<subseteq> file_path ` set cur"
      using class_candidates [OF ok held ns r] sub by blast+
    ultimately show ?thesis
      by (auto simp: complete_candidates_def ClassSource list_ex_iff split: option.splits)
  qed
qed

lemma expr_candidates:
  assumes ok: "backend_ok db rows pairs" and held: "holds_index db rows pairs cls st parse cur"
    and ns: "parse_notes parse cur = Ok ns"
  shows "resolve_expr rx db st e = Ok ps \<Longrightarrow> \<not> has_any_atom (\<lambda>a. \<not> hashed_atom a) e
    \<Longrightarrow> complete_candidates ps cur
      (\<lambda>f. satisfied_by (source_atom_matches rx (unicode_tables db) cls (joined_entry ns m f)) e)"
proof (induction e arbitrary: ps)
  case (BAtom a)
  then show ?case using atom_candidates [OF ok held ns, of rx a ps m] by simp
next
  case (BNot e)
  then show ?case using all_candidates(1) [OF ok held] by simp
next
  case (BAnd es)
  show ?case
  proof (cases es)
    case Nil
    then show ?thesis using BAnd.prems(1) all_candidates(1) [OF ok held] by simp
  next
    case (Cons first terms)
    then obtain s xs where r: "resolve_expr rx db st first = Ok s"
      "list_all2 (\<lambda>e x. resolve_expr rx db st e = Ok x) terms xs" "ps = foldl intersect_sorted s xs"
      using BAnd.prems(1) by (auto simp: fold_results and_then_eq_Ok try_map_Ok)
    have hashed: "\<forall>e\<in>set es. \<not> has_any_atom (\<lambda>a. \<not> hashed_atom a) e"
      using BAnd.prems(2) by (auto simp: list_ex_iff)
    have s: "complete_candidates s cur
        (\<lambda>f. satisfied_by (source_atom_matches rx (unicode_tables db) cls (joined_entry ns m f)) first)"
      using BAnd.IH [OF _ r(1)] hashed Cons by simp
    have xs: "list_all2 (\<lambda>e x. complete_candidates x cur
        (\<lambda>f. satisfied_by (source_atom_matches rx (unicode_tables db) cls (joined_entry ns m f)) e)) terms xs"
      using r(2) BAnd.IH hashed Cons by (elim list.rel_mono_strong) simp
    have "\<forall>x\<in>set xs. sorted_wrt (<) x \<and> (\<forall>f\<in>set cur.
        (\<forall>e\<in>set terms. satisfied_by (source_atom_matches rx (unicode_tables db) cls (joined_entry ns m f)) e)
          \<longrightarrow> file_path f \<in> set x)"
      using xs by (induction rule: list_all2_induct) (auto simp: complete_candidates_def)
    with s foldl_intersect [of s xs] show ?thesis
      by (auto simp: complete_candidates_def r(3) Cons list_all_iff)
  qed
next
  case (BOr es)
  then obtain xs where r: "list_all2 (\<lambda>e x. resolve_expr rx db st e = Ok x) es xs" "ps = dedup (sort (concat xs))"
    by (auto simp: fold_results and_then_eq_Ok try_map_Ok foldl_append)
  have hashed: "\<forall>e\<in>set es. \<not> has_any_atom (\<lambda>a. \<not> hashed_atom a) e" using BOr.prems(2) by (auto simp: list_ex_iff)
  have "list_all2 (\<lambda>e x. complete_candidates x cur
      (\<lambda>f. satisfied_by (source_atom_matches rx (unicode_tables db) cls (joined_entry ns m f)) e)) es xs"
    using r(1) BOr.IH hashed by (elim list.rel_mono_strong) simp
  then have "set (concat xs) \<subseteq> file_path ` set cur \<and> (\<forall>f\<in>set cur.
      (\<exists>e\<in>set es. satisfied_by (source_atom_matches rx (unicode_tables db) cls (joined_entry ns m f)) e)
        \<longrightarrow> file_path f \<in> set (concat xs))"
    by (induction rule: list_all2_induct) (auto simp: complete_candidates_def)
  then show ?case
    using sorted_dedup_distinct [OF sorted_sort, of "concat xs"]
    by (auto simp: complete_candidates_def r(2) list_ex_iff)
qed

section \<open>Rows that differ in the order of inbound links only\<close>

definition same_row :: "query_row \<Rightarrow> query_row \<Rightarrow> bool" where
  "same_row a b \<longleftrightarrow> same_entry (row_entry a) (row_entry b) \<and> row_flattened a = row_flattened b \<and> row_kind a = row_kind b"

lemma row_new_simps [simp]:
  "i < length index \<Longrightarrow> row_entry (query_row_new index i) = index ! i"
  "row_flattened (query_row_new index i) = []" "row_kind (query_row_new index i) = PageRow"
  by (simp_all add: query_row_new_def row_entry_def entry_at_def)

lemma matched_rows_entries:
  "map row_entry (matched_file_rows rx u svc index source)
    = filter (source_matches rx u (service_class_field svc) source) index"
proof -
  let ?p = "source_matches rx u (service_class_field svc) source"
  let ?sel = "filter (\<lambda>i. ?p (index ! i)) [0..<length index]"
  have "filter (\<lambda>i. case entry_at index i of Some e \<Rightarrow> ?p e | None \<Rightarrow> False) [0..<length index] = ?sel"
    by (rule filter_cong) (simp_all add: entry_at_def)
  then have "map row_entry (matched_file_rows rx u svc index source)
      = map (\<lambda>i. row_entry (query_row_new index i)) ?sel"
    by (simp add: matched_file_rows_def comp_def)
  also have "\<dots> = map (\<lambda>i. index ! i) ?sel" by (rule map_cong) auto
  also have "\<dots> = filter ?p (map (\<lambda>i. index ! i) [0..<length index])" by (simp add: filter_map comp_def)
  finally show ?thesis by (simp add: map_nth)
qed

lemma matched_rows_plain:
  "r \<in> set (matched_file_rows rx u svc index source) \<Longrightarrow> row_flattened r = [] \<and> row_kind r = PageRow"
  by (auto simp: matched_file_rows_def)

lemma matched_rows_same:
  assumes "list_all2 same_entry (filter (source_matches rx u (service_class_field svc) source) index)
      (filter (source_matches rx u (service_class_field svc) source) index')"
  shows "list_all2 same_row (matched_file_rows rx u svc index source) (matched_file_rows rx u svc index' source)"
proof -
  have "list_all2 (\<lambda>a b. same_entry (row_entry a) (row_entry b))
      (matched_file_rows rx u svc index source) (matched_file_rows rx u svc index' source)"
    using assms unfolding matched_rows_entries [symmetric] by (simp add: list.rel_map)
  then show ?thesis
    by (rule list.rel_mono_strong) (simp add: same_row_def matched_rows_plain)
qed

lemma item_rows_of_same:
  assumes "same_row a b"
  shows "list_all2 same_row (item_rows_of is_wanted a) (item_rows_of is_wanted b)"
proof -
  have "row_note a = row_note b" using assms by (simp add: same_row_def same_entry_def row_note_def)
  moreover have "same_row (with_list_item i a) (with_list_item i b)" for i
    using assms by (simp add: same_row_def with_list_item_def row_entry_def)
  ultimately show ?thesis
    by (auto simp: item_rows_of_def list.rel_map intro!: list.rel_refl_strong split: option.split)
qed

lemma rows_for_same:
  assumes "list_all2 same_entry (filter (source_matches rx u (service_class_field svc) source) index)
      (filter (source_matches rx u (service_class_field svc) source) index')"
  shows "list_all2 same_row (rows_for rx u svc mode index source) (rows_for rx u svc mode index' source)"
proof -
  note matched = matched_rows_same [OF assms]
  have "list_all2 same_row (item_rows rx u svc index source w) (item_rows rx u svc index' source w)" for w
    unfolding item_rows_def
    by (rule concat_transfer [THEN rel_funD])
      (use matched in \<open>auto simp: list.rel_map intro: item_rows_of_same elim: list.rel_mono_strong\<close>)
  with matched show ?thesis by (cases mode) simp_all
qed

text \<open>A row of either kind is a view of an entry of the index, so its inbound links are a list of the map.\<close>

lemma rows_for_entries:
  assumes "r \<in> set (rows_for rx u svc mode index source)"
  shows "row_entry r \<in> set index"
proof -
  have page: "row_entry r \<in> set index" if "r \<in> set (matched_file_rows rx u svc index source)" for r
  proof -
    have "row_entry r \<in> set (map row_entry (matched_file_rows rx u svc index source))" using that by simp
    then show ?thesis unfolding matched_rows_entries by simp
  qed
  have item: "row_entry r' = row_entry r" if "r' \<in> set (item_rows_of w r)" for w r r'
    using that by (auto simp: item_rows_of_def with_list_item_def row_entry_def split: option.splits)
  have items: "row_entry r' \<in> set index" if r': "r' \<in> set (item_rows rx u svc index source w)" for w r'
  proof -
    obtain r where "r \<in> set (matched_file_rows rx u svc index source)" "r' \<in> set (item_rows_of w r)"
      using r' by (auto simp: item_rows_def)
    with page item show ?thesis by metis
  qed
  with page show ?thesis using assms by (cases mode) auto
qed

lemma assembled_inlinks:
  "e \<in> set (assemble files ns m) \<Longrightarrow> entry_inlinks e = [] \<or> (\<exists>t. map_of m t = Some (entry_inlinks e))"
proof (induction files ns m rule: assemble.induct)
  case (2 f files ns m)
  obtain n ns2 where n: "next_note f (dropWhile (\<lambda>n. note_path n < file_path f) ns) = (n, ns2)" by fastforce
  show ?case
  proof (cases "map_of m (file_path f)")
    case None
    then consider "e = file_entry_new f n" | "e \<in> set (assemble files ns2 m)" using "2.prems" n by auto
    then show ?thesis using "2.IH"(1) [OF refl n [symmetric] refl refl None] by cases (auto simp: file_entry_new_def)
  next
    case (Some ss)
    then consider "entry_inlinks e = ss" | "e \<in> set (assemble files ns2 (AList.delete (file_path f) m))"
      using "2.prems" n by auto
    then show ?thesis
    proof cases
      case 2
      have kept: "map_of (AList.delete (file_path f) m) t = Some x \<Longrightarrow> map_of m t = Some x" for t x
        by (simp add: delete_conv' split: if_splits)
      show ?thesis using "2.IH"(2) [OF refl n [symmetric] refl refl Some 2] kept by blast
    qed (use Some in blast)
  qed
qed simp

lemma sorted_by_key_unique:
  assumes "sorted_wrt (\<lambda>a b. k a < (k b :: 'b::linorder)) xs" "sorted_wrt (\<lambda>a b. k a < k b) ys" "mset xs = mset ys"
  shows "xs = ys"
proof -
  have sorted: "sorted_wrt (<) (map k xs)" "sorted_wrt (<) (map k ys)"
    using assms(1,2) by (simp_all only: sorted_wrt_map)
  have sets: "set xs = set ys" using assms(3) by (rule mset_eq_setD)
  then have "map k xs = map k ys"
    using sorted by (intro sorted_distinct_set_unique) (simp_all add: strict_sorted_iff)
  moreover have "inj_on k (set xs \<union> set ys)"
    using sorted(1) sets by (simp add: strict_sorted_iff distinct_map)
  ultimately show ?thesis by (rule map_inj_on)
qed

lemma rows_for_inlinks:
  assumes "listed R m" "r \<in> set (rows_for rx u svc mode (assemble files ns m) source)"
  shows "sorted_wrt R (row_inlinks r)"
  using assembled_inlinks [OF rows_for_entries [OF assms(2)]] assms(1)
  by (auto simp: row_inlinks_def listed_def list_all_iff dest!: map_of_SomeD)

section \<open>Reading only the candidates\<close>

lemma source_matches_entry:
  "entry_file a = entry_file b \<Longrightarrow> entry_note a = entry_note b
    \<Longrightarrow> source_matches rx u cls source a = source_matches rx u cls source b"
proof -
  assume same: "entry_file a = entry_file b" "entry_note a = entry_note b"
  then have "source_atom_matches rx u cls a = source_atom_matches rx u cls b"
    by (intro ext) (metis source_atom.exhaust source_atom_matches.simps)
  then show ?thesis by (cases source) simp_all
qed

lemma ascending_rows_at:
  assumes "ascending key items" "sorted_wrt (<) paths"
  shows "ascending key (List.map_filter (row_of key items) paths)"
    and "set (List.map_filter (row_of key items) paths) = {x \<in> set items. key x \<in> set paths}"
    and "p \<in> set paths \<Longrightarrow> row_of key (List.map_filter (row_of key items) paths) p = row_of key items p"
proof -
  let ?rs = "List.map_filter (row_of key items) paths"
  show set: "set ?rs = {x \<in> set items. key x \<in> set paths}"
    using row_of_in [OF assms(1)] by (force simp: List.map_filter_def image_iff dest: row_of_SomeD)
  show asc: "ascending key ?rs"
    using assms(2)
  proof (induction paths)
    case (Cons p paths)
    have "key y = q \<and> q \<in> set paths" if "row_of key items q = Some y" "q \<in> set paths" for y q
      using row_of_SomeD [OF that(1)] that(2) by simp
    then have "\<forall>y\<in>set (List.map_filter (row_of key items) paths). p < key y"
      using Cons.prems by (fastforce simp: List.map_filter_def)
    then show ?case
      using Cons row_of_SomeD [of key items p]
      by (cases "row_of key items p") (auto simp: List.map_filter_simps ascending_def)
  qed (simp add: List.map_filter_simps ascending_def)
  show "row_of key ?rs p = row_of key items p" if "p \<in> set paths"
  proof -
    have "row_of key ?rs p = Some x \<longleftrightarrow> row_of key items p = Some x" for x
      using row_of_eq_Some [OF asc, of p x] row_of_eq_Some [OF assms(1), of p x] that unfolding set by blast
    then show ?thesis by (metis not_None_eq)
  qed
qed

lemma candidate_entries:
  assumes ok: "backend_ok db rows pairs" and held: "holds_index db rows pairs cls st parse cur"
    and ns: "parse_notes parse cur = Ok ns"
    and complete: "complete_candidates ps cur (\<lambda>f. matching (joined_entry ns mb f))"
    and reads: "read_notes_batch db st ps = Ok notes'" "read_files_batch db st ps = Ok files'"
      "read_links_for_targets db st ps = Ok m"
    and mb: "unordered mb" "edges_of mb = note_links (map file_path cur) (set ns)"
    and entry: "\<And>a b. entry_file a = entry_file b \<Longrightarrow> entry_note a = entry_note b \<Longrightarrow> matching a = matching b"
  shows "list_all2 same_entry (filter matching (assemble files' notes' m)) (filter matching (assemble cur ns mb))"
proof -
  note H = held_tables [OF held ns]
  have sorted: "sorted_wrt (<) ps" and sub: "set ps \<subseteq> file_path ` set cur"
    using complete by (simp_all add: complete_candidates_def)
  have plain: "\<forall>p\<in>set ps. plain_path p" using sub H(2) by (auto simp: plain_rows_def)
  have "distinct ps" using sorted by (simp add: strict_sorted_iff)
  have asc: "ascending file_path cur" "ascending note_path ns" using H(2,3) by (simp_all add: plain_rows_def)
  have files': "files' = List.map_filter (row_of file_path cur) ps" by (rule batch_files [OF ok held plain reads(2)])
  have notes': "notes' = List.map_filter (row_of note_path ns) ps" by (rule batch_notes [OF ok held ns plain reads(1)])
  note F = ascending_rows_at [OF asc(1) sorted, folded files']
  note N = ascending_rows_at [OF asc(2) sorted, folded notes']
  have M: "unordered m" "edges_of m = {e \<in> note_links (map file_path cur) (set ns). fst e \<in> set ps}"
    using linked_targets [OF ok held ns plain \<open>distinct ps\<close> reads(3)] listed_unordered by blast+
  have same: "same_entry (joined_entry notes' m f) (joined_entry ns mb f)" if "file_path f \<in> set ps" for f
  proof -
    have "set (inlinks_of m (file_path f)) = set (inlinks_of mb (file_path f))"
      using that by (auto simp: edges_of_inlinks [symmetric] M(2) mb(2))
    moreover have "distinct (inlinks_of m (file_path f))" "distinct (inlinks_of mb (file_path f))"
      using listed_sources M(1) mb(1) by blast+
    ultimately have "mset (inlinks_of m (file_path f)) = mset (inlinks_of mb (file_path f))"
      by (simp add: set_eq_iff_mset_eq_distinct)
    then show ?thesis using N(3) [OF that] by (simp add: same_entry_def joined_entry_def inlinks_of_def)
  qed
  have matching: "matching (joined_entry notes' m f) = matching (joined_entry ns mb f)" if "file_path f \<in> set ps" for f
    using same [OF that] by (intro entry) (simp_all add: same_entry_def)
  define L where "L = filter (\<lambda>f. matching (joined_entry ns mb f)) cur"
  have L: "filter (\<lambda>f. matching (joined_entry notes' m f)) files' = L"
  proof (rule ascending_eqI)
    show "ascending file_path (filter (\<lambda>f. matching (joined_entry notes' m f)) files')" "ascending file_path L"
      using F(1) asc(1) by (simp_all add: L_def ascending_filter)
    show "set (filter (\<lambda>f. matching (joined_entry notes' m f)) files') = set L"
      using F(2) matching complete by (auto simp: L_def complete_candidates_def)
  qed
  have in_ps: "file_path f \<in> set ps" if "f \<in> set L" for f
    using that complete by (auto simp: L_def complete_candidates_def)
  have "filter matching (assemble files' notes' m) = map (joined_entry notes' m) L"
    by (simp add: assemble_join [OF F(1) N(1)] filter_map comp_def L)
  moreover have "filter matching (assemble cur ns mb) = map (joined_entry ns mb) L"
    by (simp add: assemble_join [OF asc] filter_map comp_def L_def)
  ultimately show ?thesis
    using same in_ps by (auto simp: list.rel_map intro!: list.rel_refl_strong)
qed

text \<open>The base rows of the two ways to run a query, and the order of their inbound links.\<close>

lemma stored_query:
  assumes "backend_ok db rows pairs" "holds_index db rows pairs (service_class_field svc) st parse cur"
    "q_unicode env = unicode_tables db" "hashed_source (builder_source b)"
    "run_from_store rx env db svc st b = Ok qs"
  obtains index base stored where "build (Ok cur) parse = Some (Ok index)"
    "service_run rx env svc index b = query_set_new (plan_run env (builder_plan b) base)"
    "qs = query_set_new (plan_run env (builder_plan b) stored)" "list_all2 same_row stored base"
    "\<forall>r\<in>set stored. sorted_wrt key_order (row_inlinks r)" "\<forall>r\<in>set base. sorted_wrt (<) (row_inlinks r)"
proof -
  let ?source = "resolve_source_classes svc (builder_source b)"
  let ?cls = "service_class_field svc"
  obtain ps ns' files' m where r: "resolve_source rx db st ?source = Ok ps" "read_notes_batch db st ps = Ok ns'"
    "read_files_batch db st ps = Ok files'" "read_links_for_targets db st ps = Ok m"
    "qs = query_set_new (plan_run env (builder_plan b)
       (rows_for rx (q_unicode env) svc (builder_mode b) (assemble files' ns' m) ?source))"
    using assms(5) by (auto simp: run_from_store_def Let_def and_then_eq_Ok)
  obtain ns where ns: "parse_notes parse cur = Ok ns" and vault: "vault parse cur"
    using assms(2) by (auto simp: holds_index_def)
  have asc: "ascending file_path cur" using vault by (simp add: vault_def plain_rows_def)
  obtain mb where mb: "build (Ok cur) parse = Some (Ok (assemble cur ns mb))" "canonical mb"
    "edges_of mb = note_links (map file_path cur) (set ns)"
    using inlinks_with_resolver_links [OF asc vault_placed(1) [OF vault ns]] ns by (auto simp: build_def)
  have mb_unordered: "unordered mb" and mb_listed: "listed (<) mb"
    using mb(2) canonical_unordered by (simp_all add: canonical_listed)
  have complete: "complete_candidates ps cur (\<lambda>f. source_matches rx (unicode_tables db) ?cls ?source (joined_entry ns mb f))"
  proof (cases ?source)
    case AllSources
    then show ?thesis using all_candidates(1) [OF assms(1,2)] r(1) by simp
  next
    case (SourceExpr e)
    then show ?thesis
      using expr_candidates [OF assms(1,2) ns, of rx e ps mb] hashed_resolved [OF assms(4), of svc] r(1) by simp
  qed
  then have "sorted_wrt (<) ps" "set ps \<subseteq> file_path ` set cur" by (simp_all add: complete_candidates_def)
  then have "\<forall>t\<in>set ps. plain_path t" "distinct ps"
    using vault by (auto simp: vault_def plain_rows_def strict_sorted_iff)
  then have m: "listed key_order m" using linked_targets [OF assms(1,2) ns _ _ r(4)] by blast
  from candidate_entries [OF assms(1,2) ns complete r(2-4) mb_unordered mb(3) source_matches_entry]
  have "list_all2 same_entry
      (filter (source_matches rx (unicode_tables db) ?cls ?source) (assemble files' ns' m))
      (filter (source_matches rx (unicode_tables db) ?cls ?source) (assemble cur ns mb))" .
  from rows_for_same [OF this, where mode = "builder_mode b"] show ?thesis
    using that [OF mb(1) _ r(5)] assms(3) rows_for_inlinks [OF m] rows_for_inlinks [OF mb_listed]
    by (auto simp: service_run_def)
qed

section \<open>Properties\<close>

text \<open>C6. Running a query on a store that holds the index of a vault sees the rows of running it on the
  index built from that vault: both apply the plan of the request to base rows that agree one by
  one in their file, note, list item and overrides, and in their inbound links up to their order.
  (The source is resolved to candidate paths by the tables of the store first, which loses no match;
  a store whose class field is the one of the service is assumed, and tag atoms as the lexer
  delivers them, with the number sign.)\<close>

theorem run_from_store_refines_run:
  assumes "backend_ok db rows pairs" "holds_index db rows pairs (service_class_field svc) st parse cur"
    "q_unicode env = unicode_tables db" "hashed_source (builder_source b)"
    "run_from_store rx env db svc st b = Ok qs"
  shows "\<exists>index base stored. build (Ok cur) parse = Some (Ok index)
    \<and> service_run rx env svc index b = query_set_new (plan_run env (builder_plan b) base)
    \<and> qs = query_set_new (plan_run env (builder_plan b) stored)
    \<and> list_all2 same_row stored base"
  using stored_query [OF assms] by metis

text \<open>The pages of a vault whose notes sit in folders \<open>a\<close> and \<open>a-b\<close>.\<close>

definition page_service :: query_service where
  "page_service = \<lparr> service_class_field = ''class'', service_expander = None \<rparr>"

definition page_request :: query_builder where
  "page_request = builder_from_mode PagesMode AllSources"

lemma page_reads:
  "\<exists>ps. all_paths folder_db folder_store = Ok ps
    \<and> read_notes_batch folder_db folder_store ps = Ok folder_notes
    \<and> read_files_batch folder_db folder_store ps = Ok folder_vault
    \<and> read_links_for_targets folder_db folder_store ps
      = Ok [([Normal ''t.md''], [[Normal ''a-b'', Normal ''x.md''], [Normal ''a'', Normal ''x.md'']])]"
proof -
  let ?ps = "map file_path folder_vault"
  have "all_paths folder_db folder_store = Ok ?ps" by code_simp
  moreover have "read_notes_batch folder_db folder_store ?ps = Ok folder_notes" by code_simp
  moreover have "read_files_batch folder_db folder_store ?ps = Ok folder_vault" by code_simp
  moreover have "read_links_for_targets folder_db folder_store ?ps
      = Ok [([Normal ''t.md''], [[Normal ''a-b'', Normal ''x.md''], [Normal ''a'', Normal ''x.md'']])]" by code_simp
  ultimately show ?thesis by blast
qed

lemma page_run:
  "run_from_store rx env folder_db page_service folder_store page_request
    = Ok (query_set_new (matched_file_rows rx (q_unicode env) page_service (assemble folder_vault folder_notes
        [([Normal ''t.md''], [[Normal ''a-b'', Normal ''x.md''], [Normal ''a'', Normal ''x.md'']])]) AllSources))"
  using page_reads
  by (auto simp: run_from_store_def page_request_def page_service_def resolve_source_classes_def builder_from_mode_def)

theorem run_from_store_refines_run_witness:
  "\<forall>rx fs lx select. \<exists>qs index base stored. let env = \<lparr> filters = fs \<lparr> filter_unicode := unicode_tables folder_db \<rparr>,
      filter_lexer = lx, select_nth = select \<rparr>
    in run_from_store rx env folder_db page_service folder_store page_request = Ok qs
      \<and> build (Ok folder_vault) folder_parse = Some (Ok index)
      \<and> service_run rx env page_service index page_request = query_set_new (plan_run env (builder_plan page_request) base)
      \<and> qs = query_set_new (plan_run env (builder_plan page_request) stored)
      \<and> list_all2 same_row stored base"
proof -
  have held: "holds_index folder_db map_of set (service_class_field page_service) folder_store folder_parse folder_vault"
    using folder_store_holds by (simp add: page_service_def)
  have hashed: "hashed_source (builder_source page_request)" by (simp add: page_request_def builder_from_mode_def)
  show ?thesis
  proof (intro allI)
    fix rx fs lx select
    let ?env = "\<lparr> filters = fs \<lparr> filter_unicode := unicode_tables folder_db \<rparr>,
      filter_lexer = lx, select_nth = select \<rparr>"
    have u: "q_unicode ?env = unicode_tables folder_db" by simp
    obtain index base stored where
      "build (Ok folder_vault) folder_parse = Some (Ok index)"
      "service_run rx ?env page_service index page_request = query_set_new (plan_run ?env (builder_plan page_request) base)"
      "list_all2 same_row stored base"
      "query_set_new (matched_file_rows rx (q_unicode ?env) page_service (assemble folder_vault folder_notes
        [([Normal ''t.md''], [[Normal ''a-b'', Normal ''x.md''], [Normal ''a'', Normal ''x.md'']])]) AllSources)
        = query_set_new (plan_run ?env (builder_plan page_request) stored)"
      using run_from_store_refines_run [OF folder_db_ok held u hashed page_run, of rx] by blast
    with page_run [of rx ?env] show "\<exists>qs index base stored. let env = ?env
      in run_from_store rx env folder_db page_service folder_store page_request = Ok qs
        \<and> build (Ok folder_vault) folder_parse = Some (Ok index)
        \<and> service_run rx env page_service index page_request = query_set_new (plan_run env (builder_plan page_request) base)
        \<and> qs = query_set_new (plan_run env (builder_plan page_request) stored)
        \<and> list_all2 same_row stored base"
      unfolding Let_def by blast
  qed
qed

text \<open>C36. The order of inbound links on both ways to run a query.  In a base row of the built index they are in
  path order, in the matching row of the store in the byte order of their keys, so the two lists are the
  same exactly when these orders agree on them; where they do not, \<open>file.inlinks\<close> compared with a
  list, flattened or printed differs between the two ways.  A note linked from \<open>a/x.md\<close> and
  \<open>a-b/x.md\<close> is such a case.\<close>

theorem store_rows_order_inlinks_by_key:
  assumes "backend_ok db rows pairs" "holds_index db rows pairs (service_class_field svc) st parse cur"
    "q_unicode env = unicode_tables db" "hashed_source (builder_source b)"
    "run_from_store rx env db svc st b = Ok qs"
  shows "\<exists>index base stored. build (Ok cur) parse = Some (Ok index)
    \<and> service_run rx env svc index b = query_set_new (plan_run env (builder_plan b) base)
    \<and> qs = query_set_new (plan_run env (builder_plan b) stored)
    \<and> list_all2 (\<lambda>s r. mset (row_inlinks s) = mset (row_inlinks r)
        \<and> sorted_wrt (<) (row_inlinks r) \<and> sorted_wrt (\<lambda>p q. path_key p < path_key q) (row_inlinks s)
        \<and> (row_inlinks s = row_inlinks r \<longleftrightarrow> sorted_wrt (\<lambda>p q. path_key p < path_key q) (row_inlinks r))) stored base"
proof -
  obtain index base stored where Q: "build (Ok cur) parse = Some (Ok index)"
    "service_run rx env svc index b = query_set_new (plan_run env (builder_plan b) base)"
    "qs = query_set_new (plan_run env (builder_plan b) stored)" "list_all2 same_row stored base"
    "\<forall>r\<in>set stored. sorted_wrt key_order (row_inlinks r)" "\<forall>r\<in>set base. sorted_wrt (<) (row_inlinks r)"
    using stored_query [OF assms] .
  have each: "mset (row_inlinks s) = mset (row_inlinks r) \<and> sorted_wrt (<) (row_inlinks r) \<and> sorted_wrt key_order (row_inlinks s)
      \<and> (row_inlinks s = row_inlinks r \<longleftrightarrow> sorted_wrt key_order (row_inlinks r))"
    if "same_row s r" "s \<in> set stored" "r \<in> set base" for s r
  proof -
    have same: "mset (row_inlinks s) = mset (row_inlinks r)"
      using that(1) by (simp add: same_row_def same_entry_def row_inlinks_def)
    moreover have sorted: "sorted_wrt key_order (row_inlinks s)" "sorted_wrt (<) (row_inlinks r)" using Q(5,6) that by blast+
    moreover have "row_inlinks s = row_inlinks r" if "sorted_wrt key_order (row_inlinks r)"
    proof -
      have "sorted_wrt (\<lambda>p q. path_key p < path_key q) (row_inlinks s)" "sorted_wrt (\<lambda>p q. path_key p < path_key q) (row_inlinks r)"
        using sorted(1) that by (simp_all add: key_order_def [abs_def])
      then show ?thesis using same by (rule sorted_by_key_unique)
    qed
    ultimately show ?thesis by auto
  qed
  have "list_all2 (\<lambda>s r. mset (row_inlinks s) = mset (row_inlinks r)
        \<and> sorted_wrt (<) (row_inlinks r) \<and> sorted_wrt key_order (row_inlinks s)
        \<and> (row_inlinks s = row_inlinks r \<longleftrightarrow> sorted_wrt key_order (row_inlinks r))) stored base"
    by (rule list.rel_mono_strong [OF Q(4)]) (rule each)
  then show ?thesis using Q(1-3) unfolding key_order_def [abs_def] by blast
qed

theorem store_rows_order_inlinks_by_key_witness:
  "\<forall>rx fs lx select. \<exists>qs index base stored. let env = \<lparr> filters = fs \<lparr> filter_unicode := unicode_tables folder_db \<rparr>,
      filter_lexer = lx, select_nth = select \<rparr>
    in run_from_store rx env folder_db page_service folder_store page_request = Ok qs
      \<and> build (Ok folder_vault) folder_parse = Some (Ok index)
      \<and> service_run rx env page_service index page_request = query_set_new (plan_run env (builder_plan page_request) base)
      \<and> qs = query_set_new (plan_run env (builder_plan page_request) stored)
      \<and> list_all2 (\<lambda>s r. mset (row_inlinks s) = mset (row_inlinks r)
        \<and> sorted_wrt (<) (row_inlinks r) \<and> sorted_wrt (\<lambda>p q. path_key p < path_key q) (row_inlinks s)
        \<and> (row_inlinks s = row_inlinks r \<longleftrightarrow> sorted_wrt (\<lambda>p q. path_key p < path_key q) (row_inlinks r))) stored base"
proof (intro allI)
  fix rx fs lx select
  let ?env = "\<lparr> filters = fs \<lparr> filter_unicode := unicode_tables folder_db \<rparr>, filter_lexer = lx, select_nth = select \<rparr>"
  have held: "holds_index folder_db map_of set (service_class_field page_service) folder_store folder_parse folder_vault"
    using folder_store_holds by (simp add: page_service_def)
  have hashed: "hashed_source (builder_source page_request)" by (simp add: page_request_def builder_from_mode_def)
  have u: "q_unicode ?env = unicode_tables folder_db" by simp
  from store_rows_order_inlinks_by_key [OF folder_db_ok held u hashed page_run, of rx] page_run [of rx ?env]
  show "\<exists>qs index base stored. let env = ?env
    in run_from_store rx env folder_db page_service folder_store page_request = Ok qs
      \<and> build (Ok folder_vault) folder_parse = Some (Ok index)
      \<and> service_run rx env page_service index page_request = query_set_new (plan_run env (builder_plan page_request) base)
      \<and> qs = query_set_new (plan_run env (builder_plan page_request) stored)
      \<and> list_all2 (\<lambda>s r. mset (row_inlinks s) = mset (row_inlinks r)
        \<and> sorted_wrt (<) (row_inlinks r) \<and> sorted_wrt (\<lambda>p q. path_key p < path_key q) (row_inlinks s)
        \<and> (row_inlinks s = row_inlinks r \<longleftrightarrow> sorted_wrt (\<lambda>p q. path_key p < path_key q) (row_inlinks r))) stored base"
    unfolding Let_def by blast
qed

text \<open>On the sample vault the two orders differ.\<close>

lemma page_inlinks_differ:
  "\<forall>rx env. \<exists>qs. run_from_store rx env folder_db page_service folder_store page_request = Ok qs
    \<and> last (map row_inlinks (set_base qs)) = [[Normal ''a-b'', Normal ''x.md''], [Normal ''a'', Normal ''x.md'']]
    \<and> last (map row_inlinks (set_base (service_run rx env page_service folder_index page_request)))
      = [[Normal ''a'', Normal ''x.md''], [Normal ''a-b'', Normal ''x.md'']]"
proof (intro allI)
  fix rx env
  have rows: "map row_inlinks (matched_file_rows rx u svc index AllSources) = map entry_inlinks index" for u svc index
    using arg_cong [OF matched_rows_entries [of rx u svc index AllSources], of "map entry_inlinks"]
    by (simp add: row_inlinks_def [abs_def] comp_def)
  have "last (map entry_inlinks (assemble folder_vault folder_notes
      [([Normal ''t.md''], [[Normal ''a-b'', Normal ''x.md''], [Normal ''a'', Normal ''x.md'']])]))
      = [[Normal ''a-b'', Normal ''x.md''], [Normal ''a'', Normal ''x.md'']]" by code_simp
  moreover have "last (map entry_inlinks folder_index) = [[Normal ''a'', Normal ''x.md''], [Normal ''a-b'', Normal ''x.md'']]"
    by code_simp
  ultimately show "\<exists>qs. run_from_store rx env folder_db page_service folder_store page_request = Ok qs
    \<and> last (map row_inlinks (set_base qs)) = [[Normal ''a-b'', Normal ''x.md''], [Normal ''a'', Normal ''x.md'']]
    \<and> last (map row_inlinks (set_base (service_run rx env page_service folder_index page_request)))
      = [[Normal ''a'', Normal ''x.md''], [Normal ''a-b'', Normal ''x.md'']]"
    unfolding page_run
    by (simp add: query_set_new_def service_run_def page_request_def builder_from_mode_def resolve_source_classes_def
        rows page_service_def)
qed

end
