(* ===== verification/Raw_Schemas.thy ===== *)
theory Raw_Schemas
  imports Field_Keys Field_Values
begin

text \<open>
  Schema files as they are read (\<open>src/schema/raw.rs\<close>), schema names (\<open>src/schema/name.rs\<close>), field
  addresses (\<open>src/schema/fields/address.rs\<close>) and the values of \<open>src/field.rs\<close> that a TOML or JSON
  document holds.  An insertion-ordered map of the \<open>indexmap\<close> crate is the list of its entries.
\<close>

section \<open>Values\<close>

datatype doc_value =
  DocNull
| DocBool bool
| DocInt "64 word"
| DocFloat f64
| DocString string
| DocDate int
| DocDateTime int
| DocList "doc_value list"
| DocObject "(string \<times> doc_value) list"

section \<open>Names and addresses\<close>

definition global_schema_name :: string where "global_schema_name = ''global''"

datatype schema_name_error = EmptySchemaName

definition schema_name_try_from :: "string \<Rightarrow> (schema_name_error, string) result" where
  "schema_name_try_from name = (if name = [] then Err EmptySchemaName else Ok name)"

record field_address =
  address_schema :: string
  address_field :: string

datatype field_address_error = MalformedRef string | AddressFieldName field_name_error

definition field_address_try_from :: "string \<Rightarrow> (field_address_error, field_address) result" where
  "field_address_try_from raw = (case raw of
       c # stripped \<Rightarrow> if c \<noteq> CHR ''#'' then Err (MalformedRef raw)
         else (case split_once CHR ''/'' stripped of
             None \<Rightarrow> Err (MalformedRef raw)
           | Some (schema, field) \<Rightarrow> if schema = [] \<or> field = [] then Err (MalformedRef raw)
               else and_then (map_err AddressFieldName (field_name_validate field))
                 (\<lambda>_. Ok \<lparr> address_schema = schema, address_field = field \<rparr>))
     | [] \<Rightarrow> Err (MalformedRef raw))"

definition field_address_text :: "field_address \<Rightarrow> string" where
  "field_address_text a = ''#'' @ address_schema a @ ''/'' @ address_field a"

section \<open>Raw schemas\<close>

datatype raw_field_type = RawInput | RawSelect | RawBoolean | RawNumber | RawDate | RawFile

datatype raw_field_source =
  DirectSource raw_field_type
| RefSource field_address "raw_field_type option"

record raw_field_def =
  raw_source :: raw_field_source
  raw_required :: "bool option"
  raw_multi :: "bool option"
  raw_options :: "(string \<times> doc_value) list"

record raw_schema =
  raw_extends :: "string list"
  raw_excludes :: "string list"
  raw_fields :: "(string \<times> raw_field_def) list"

type_synonym raw_schemas = "(string \<times> raw_schema) list"

datatype schema_warning =
  MissingExtendsTarget string string
| DuplicateExtendsTarget string string
| ParentFailedToResolve string string
| StrayGlobalRequired string
| DegradedOverride string

section \<open>Addresses are read back\<close>

lemma field_address_roundtrip:
  assumes "address_schema a \<noteq> []" "CHR ''/'' \<notin> set (address_schema a)"
    "address_field a \<noteq> []" "field_name_validate (address_field a) = Ok ()"
  shows "field_address_try_from (field_address_text a) = Ok a"
  using assms by (simp add: field_address_try_from_def field_address_text_def split_once_append)

end
