(* ===== verification/Schema_Fields.thy ===== *)
theory Schema_Fields
  imports Raw_Schemas Paths Rust_Float
begin

text \<open>
  Resolved field definitions (\<open>src/schema/fields.rs\<close>), the errors of their construction
  (\<open>src/schema/fields/error.rs\<close>), the parser that tracks claimed option keys
  (\<open>src/schema/fields/parser.rs\<close>), and the \<open>number\<close>, \<open>date\<close> and \<open>file\<close> types with their options.
  A method of the parser takes it last and returns it updated beside its value.
\<close>

section \<open>Environment\<close>

text \<open>What construction uses of code outside the repository: the \<open>Debug\<close> and \<open>Display\<close> forms of the
  standard library and of foreign errors, the \<open>strict-path\<close> crate (a boundary is the path it was
  opened at), reading a file, and the TOML and JSON readers.\<close>

type_synonym doc_options = "(string \<times> doc_value) list"

datatype raw_select_entry = BareEntry string | StructuredEntry doc_options

record 'x field_env =
  debug_value :: "doc_value \<Rightarrow> string"
  debug_values :: "doc_value list \<Rightarrow> string"
  debug_text :: "string \<Rightarrow> string"
  number_text :: "f64 \<Rightarrow> string"
  foreign_text :: "'x \<Rightarrow> string"
  strict_text :: "'x strict_error \<Rightarrow> string"
  open_boundary :: "path \<Rightarrow> ('x strict_error, path) result"
  join_strictly :: "path \<Rightarrow> path \<Rightarrow> ('x strict_error, path) result"
  read_text :: "path \<Rightarrow> ('x, string) result"
  read_toml :: "string \<Rightarrow> ('x, raw_select_entry list option) result"
  read_json :: "string \<Rightarrow> ('x, raw_select_entry list option) result"

section \<open>Field definitions\<close>

datatype schema_tag = TagInput | TagSelect | TagBoolean | TagNumber | TagDate | TagFile

fun tag_of_raw :: "raw_field_type \<Rightarrow> schema_tag" where
  "tag_of_raw RawInput = TagInput"
| "tag_of_raw RawSelect = TagSelect"
| "tag_of_raw RawBoolean = TagBoolean"
| "tag_of_raw RawNumber = TagNumber"
| "tag_of_raw RawDate = TagDate"
| "tag_of_raw RawFile = TagFile"

fun tag_text :: "schema_tag \<Rightarrow> string" where
  "tag_text TagInput = ''input''"
| "tag_text TagSelect = ''select''"
| "tag_text TagBoolean = ''boolean''"
| "tag_text TagNumber = ''number''"
| "tag_text TagDate = ''date''"
| "tag_text TagFile = ''file''"

record number_field =
  number_min :: "f64 option"
  number_max :: "f64 option"
  number_step :: "f64 option"

record date_field =
  date_format :: "string option"

record file_attributes =
  file_folders :: "string list"
  file_ext :: "string option"
  file_class :: "string list"

record select_entry =
  entry_value :: doc_value
  entry_label :: doc_value
  entry_extra :: doc_options

record select_field =
  select_entries :: "select_entry list"

datatype schema_field_type =
  InputField
| BooleanField
| NumberField number_field
| DateField date_field
| FileField file_attributes
| SelectField select_field

fun as_select :: "schema_field_type \<Rightarrow> select_field option" where
  "as_select (SelectField s) = Some s"
| "as_select _ = None"

fun as_number :: "schema_field_type \<Rightarrow> number_field option" where
  "as_number (NumberField n) = Some n"
| "as_number _ = None"

fun as_date :: "schema_field_type \<Rightarrow> date_field option" where
  "as_date (DateField d) = Some d"
| "as_date _ = None"

fun as_file :: "schema_field_type \<Rightarrow> file_attributes option" where
  "as_file (FileField f) = Some f"
| "as_file _ = None"

fun field_tag :: "schema_field_type \<Rightarrow> schema_tag" where
  "field_tag InputField = TagInput"
| "field_tag (SelectField _) = TagSelect"
| "field_tag BooleanField = TagBoolean"
| "field_tag (NumberField _) = TagNumber"
| "field_tag (DateField _) = TagDate"
| "field_tag (FileField _) = TagFile"

record field_def =
  def_kind :: schema_field_type
  def_required :: bool
  def_multi :: bool

definition select_values :: "field_def \<Rightarrow> select_entry list option" where
  "select_values def = (case def_kind def of SelectField s \<Rightarrow> Some (select_entries s) | _ \<Rightarrow> None)"

definition file_filter :: "field_def \<Rightarrow> file_attributes option" where
  "file_filter def = (case def_kind def of FileField f \<Rightarrow> Some f | _ \<Rightarrow> None)"

section \<open>Errors\<close>

datatype entry_error =
  ShapeMismatch string string string
| SelectorOnBareEntries string
| SelectorMissingKey string string
| ReservedOutputKey string

datatype 'x values_file_error =
  Confinement "'x path_error"
| ValuesIo 'x
| ParseToml 'x
| ParseJson 'x
| BadExtension string
| MissingEntries
| MixedEntries string

datatype 'x select_value_error =
  MissingPath
| EntryError "string option" entry_error
| ValuesFileError string "'x values_file_error"

datatype 'x option_error =
  UnknownKey field_address schema_tag string
| TypeMismatch field_address schema_tag string string string
| NumberConstraint field_address string string string
| NumberRange field_address string string
| SelectValueError field_address "'x select_value_error"

datatype 'x field_build_error =
  RefOutOfBounds field_address field_address
| RefFieldNotFound field_address field_address
| OptionErrors "'x option_error list"

definition quoted :: "string \<Rightarrow> string" where "quoted s = CHR 0x22 # s @ [CHR 0x22]"

definition apostrophe_s :: string where "apostrophe_s = CHR 0x27 # ''s ''"

text \<open>\<open>Display\<close> of the errors a warning quotes.\<close>

fun path_error_text :: "('x, 'z) field_env_scheme \<Rightarrow> 'x path_error \<Rightarrow> string" where
  "path_error_text env Absolute = ''path is absolute, expected a relative path''"
| "path_error_text env OutsideRoot = ''path is outside the root directory''"
| "path_error_text env UnsafeComponent =
     ''path contains an unsafe component (such as `..`) or has no named component''"
| "path_error_text env (StrictPath e) = strict_text env e"

fun entry_error_text :: "('x, 'z) field_env_scheme \<Rightarrow> entry_error \<Rightarrow> string" where
  "entry_error_text env (ShapeMismatch ctx val expected) = ctx @ '' must be '' @ expected @ '', got '' @ val"
| "entry_error_text env (SelectorOnBareEntries selector) =
     ''configures selector '' @ debug_text env selector @ '' but entries contain bare string values''"
| "entry_error_text env (SelectorMissingKey selector key) =
     ''configures selector '' @ debug_text env selector @ '' = '' @ debug_text env key
     @ '', but an entry is missing this key''"
| "entry_error_text env (ReservedOutputKey key) =
     ''entry key '' @ debug_text env key
     @ '' is reserved for rendered select output; choose another source key or selector''"

fun values_file_error_text :: "('x, 'z) field_env_scheme \<Rightarrow> 'x values_file_error \<Rightarrow> string" where
  "values_file_error_text env (Confinement e) = path_error_text env e"
| "values_file_error_text env (ValuesIo x) = ''failed to read values file: '' @ foreign_text env x"
| "values_file_error_text env (ParseToml x) = ''failed to parse TOML values file: '' @ foreign_text env x"
| "values_file_error_text env (ParseJson x) = ''failed to parse JSON values file: '' @ foreign_text env x"
| "values_file_error_text env (BadExtension ext) =
     ''unsupported values file extension '' @ debug_text env ext @ '' (must be .toml or .json)''"
| "values_file_error_text env MissingEntries = ''values file missing top-level '' @ [CHR 0x27] @ ''entries'' @ [CHR 0x27] @ '' list''"
| "values_file_error_text env (MixedEntries shown) =
     ''entries must be a list of strings or a list of value objects, got '' @ shown"

fun select_value_error_text :: "('x, 'z) field_env_scheme \<Rightarrow> 'x select_value_error \<Rightarrow> string" where
  "select_value_error_text env MissingPath = ''values file subtable is missing required attribute '' @ quoted ''path''"
| "select_value_error_text env (EntryError None e) = entry_error_text env e"
| "select_value_error_text env (EntryError (Some p) e) =
     ''values file '' @ debug_text env p @ '': '' @ entry_error_text env e"
| "select_value_error_text env (ValuesFileError p e) =
     ''values file '' @ debug_text env p @ '' is invalid: '' @ values_file_error_text env e"

fun option_error_text :: "('x, 'z) field_env_scheme \<Rightarrow> 'x option_error \<Rightarrow> string" where
  "option_error_text env (UnknownKey a kind key) =
     ''field '' @ field_address_text a @ '' of type '' @ tag_text kind @ '' has no attribute '' @ debug_text env key"
| "option_error_text env (TypeMismatch a kind key val expected) =
     ''field '' @ field_address_text a @ '' of type '' @ tag_text kind @ apostrophe_s @ debug_text env key
     @ '' attribute must be '' @ expected @ '', got '' @ val"
| "option_error_text env (NumberConstraint a key val expected) =
     ''field '' @ field_address_text a @ '' of type number'' @ apostrophe_s @ debug_text env key
     @ '' attribute must be '' @ expected @ '', got '' @ val"
| "option_error_text env (NumberRange a low high) =
     ''field '' @ field_address_text a @ '' of type number'' @ apostrophe_s @ quoted ''min'' @ '' attribute must be <= '' @ quoted ''max'' @ '', got min ''
     @ low @ '' and max '' @ high"
| "option_error_text env (SelectValueError a e) =
     ''field '' @ field_address_text a @ '' '' @ select_value_error_text env e"

section \<open>The parser of option tables\<close>

record 'x field_parser =
  parser_address :: field_address
  parser_kind :: schema_tag
  parser_claimed :: "string list"
  parser_errors :: "'x option_error list"

definition parser_new :: "field_address \<Rightarrow> schema_tag \<Rightarrow> 'x field_parser" where
  "parser_new addr kind = \<lparr> parser_address = addr, parser_kind = kind, parser_claimed = [], parser_errors = [] \<rparr>"

definition claim :: "string \<Rightarrow> 'x field_parser \<Rightarrow> 'x field_parser" where
  "claim key p = p \<lparr> parser_claimed := List.insert key (parser_claimed p) \<rparr>"

definition push_error :: "'x option_error \<Rightarrow> 'x field_parser \<Rightarrow> 'x field_parser" where
  "push_error e p = p \<lparr> parser_errors := parser_errors p @ [e] \<rparr>"

definition raw_value :: "doc_options \<Rightarrow> string \<Rightarrow> 'x field_parser \<Rightarrow> doc_value option \<times> 'x field_parser" where
  "raw_value options key p = (map_of options key, claim key p)"

definition mark_errors :: "'x field_parser \<Rightarrow> nat" where
  "mark_errors p = length (parser_errors p)"

definition has_errors_since :: "'x field_parser \<Rightarrow> nat \<Rightarrow> bool" where
  "has_errors_since p mark \<longleftrightarrow> mark < length (parser_errors p)"

text \<open>\<open>shown\<close> is the \<open>Debug\<close> form of the value.\<close>

definition type_mismatch :: "'x field_parser \<Rightarrow> string \<Rightarrow> string \<Rightarrow> string \<Rightarrow> 'x option_error" where
  "type_mismatch p key shown expected = TypeMismatch (parser_address p) (parser_kind p) key shown expected"

definition push_type_mismatch :: "string \<Rightarrow> string \<Rightarrow> string \<Rightarrow> 'x field_parser \<Rightarrow> 'x field_parser" where
  "push_type_mismatch key shown expected p = push_error (type_mismatch p key shown expected) p"

definition push_unknown_key :: "string \<Rightarrow> 'x field_parser \<Rightarrow> 'x field_parser" where
  "push_unknown_key key p = push_error (UnknownKey (parser_address p) (parser_kind p) key) p"

definition push_select_value_error :: "'x select_value_error \<Rightarrow> 'x field_parser \<Rightarrow> 'x field_parser" where
  "push_select_value_error source p = push_error (SelectValueError (parser_address p) source) p"

definition push_number_constraint ::
  "('x, 'z) field_env_scheme \<Rightarrow> string \<Rightarrow> f64 \<Rightarrow> string \<Rightarrow> 'x field_parser \<Rightarrow> 'x field_parser"
where
  "push_number_constraint env key x expected p =
     push_error (NumberConstraint (parser_address p) key (number_text env x) expected) p"

definition push_number_range :: "('x, 'z) field_env_scheme \<Rightarrow> f64 \<Rightarrow> f64 \<Rightarrow> 'x field_parser \<Rightarrow> 'x field_parser" where
  "push_number_range env low high p =
     push_error (NumberRange (parser_address p) (number_text env low) (number_text env high)) p"

definition parser_string ::
  "('x, 'z) field_env_scheme \<Rightarrow> doc_options \<Rightarrow> string \<Rightarrow> string option \<Rightarrow> 'x field_parser
    \<Rightarrow> string option \<times> 'x field_parser"
where
  "parser_string env options key fallback p = (let p = claim key p in
     case map_of options key of
       None \<Rightarrow> (fallback, p)
     | Some v \<Rightarrow> (case v of DocString s \<Rightarrow> (Some s, p)
         | _ \<Rightarrow> (None, push_type_mismatch key (debug_value env v) ''a string'' p)))"

fun strings_of :: "doc_value list \<Rightarrow> string list option" where
  "strings_of [] = Some []"
| "strings_of (DocString s # items) = map_option ((#) s) (strings_of items)"
| "strings_of (_ # items) = None"

definition parser_string_list ::
  "('x, 'z) field_env_scheme \<Rightarrow> doc_options \<Rightarrow> string \<Rightarrow> string list \<Rightarrow> 'x field_parser
    \<Rightarrow> string list \<times> 'x field_parser"
where
  "parser_string_list env options key fallback p = (let p = claim key p in
     case map_of options key of
       None \<Rightarrow> (fallback, p)
     | Some v \<Rightarrow> (case (case v of DocList items \<Rightarrow> strings_of items | _ \<Rightarrow> None) of
           Some strings \<Rightarrow> (strings, p)
         | None \<Rightarrow> (fallback, push_type_mismatch key (debug_value env v) ''an array of strings'' p)))"

fun as_f64 :: "doc_value \<Rightarrow> f64 option" where
  "as_f64 (DocFloat f) = Some f"
| "as_f64 (DocInt i) = Some (f64_of_int (sint i))"
| "as_f64 _ = None"

definition parser_f64 ::
  "('x, 'z) field_env_scheme \<Rightarrow> doc_options \<Rightarrow> string \<Rightarrow> f64 option \<Rightarrow> 'x field_parser
    \<Rightarrow> f64 option \<times> 'x field_parser"
where
  "parser_f64 env options key fallback p = (let p = claim key p in
     case map_of options key of
       None \<Rightarrow> (fallback, p)
     | Some v \<Rightarrow> (case as_f64 v of Some number \<Rightarrow> (Some number, p)
         | None \<Rightarrow> (None, push_type_mismatch key (debug_value env v) ''a number'' p)))"

definition parser_finish :: "doc_options \<Rightarrow> 'x field_parser \<Rightarrow> 'x option_error list" where
  "parser_finish options p = parser_errors p
     @ map (UnknownKey (parser_address p) (parser_kind p))
         (filter (\<lambda>key. key \<notin> set (parser_claimed p)) (map fst options))"

section \<open>Number, date and file fields\<close>

definition require_finite ::
  "('x, 'z) field_env_scheme \<Rightarrow> string \<Rightarrow> f64 option \<Rightarrow> f64 option \<Rightarrow> 'x field_parser \<Rightarrow> f64 option \<times> 'x field_parser"
where
  "require_finite env key v fallback p = (case v of
       None \<Rightarrow> (None, p)
     | Some number \<Rightarrow> if f64_is_finite number then (v, p)
         else (fallback, push_number_constraint env key number ''a finite number'' p))"

definition require_positive_step ::
  "('x, 'z) field_env_scheme \<Rightarrow> f64 option \<Rightarrow> f64 option \<Rightarrow> 'x field_parser \<Rightarrow> f64 option \<times> 'x field_parser"
where
  "require_positive_step env v fallback p = (case v of
       None \<Rightarrow> (None, p)
     | Some step \<Rightarrow> if f64_is_finite step \<and> f64_less 0 step then (v, p)
         else (fallback, push_number_constraint env ''step'' step ''a positive finite number'' p))"

definition number_parse ::
  "('x, 'z) field_env_scheme \<Rightarrow> doc_options \<Rightarrow> number_field option \<Rightarrow> 'x field_parser \<Rightarrow> schema_field_type \<times> 'x field_parser"
where
  "number_parse env options base p =
     (let base_min = Option.bind base number_min; base_max = Option.bind base number_max;
          base_step = Option.bind base number_step;
          (low, p) = parser_f64 env options ''min'' base_min p;
          (high, p) = parser_f64 env options ''max'' base_max p;
          (step, p) = parser_f64 env options ''step'' base_step p;
          (low, p) = require_finite env ''min'' low base_min p;
          (high, p) = require_finite env ''max'' high base_max p;
          (step, p) = require_positive_step env step base_step p;
          (low, high, p) = (case (low, high) of
              (Some l, Some h) \<Rightarrow> if f64_less h l then (base_min, base_max, push_number_range env l h p)
                else (low, high, p)
            | _ \<Rightarrow> (low, high, p))
      in (NumberField \<lparr> number_min = low, number_max = high, number_step = step \<rparr>, p))"

definition date_parse ::
  "('x, 'z) field_env_scheme \<Rightarrow> doc_options \<Rightarrow> date_field option \<Rightarrow> 'x field_parser \<Rightarrow> schema_field_type \<times> 'x field_parser"
where
  "date_parse env options base p =
     (let (fmt, p) = parser_string env options ''format'' (Option.bind base date_format) p
      in (DateField \<lparr> date_format = fmt \<rparr>, p))"

definition file_parse ::
  "('x, 'z) field_env_scheme \<Rightarrow> doc_options \<Rightarrow> file_attributes option \<Rightarrow> 'x field_parser \<Rightarrow> schema_field_type \<times> 'x field_parser"
where
  "file_parse env options base p =
     (let (folders, p) = parser_string_list env options ''folders'' (case base of Some b \<Rightarrow> file_folders b | None \<Rightarrow> []) p;
          (ext, p) = parser_string env options ''ext'' (Option.bind base file_ext) p;
          (cls, p) = parser_string_list env options ''class'' (case base of Some b \<Rightarrow> file_class b | None \<Rightarrow> []) p
      in (FileField \<lparr> file_folders = folders, file_ext = ext, file_class = cls \<rparr>, p))"

section \<open>Number fields are well formed\<close>

definition number_ok :: "number_field \<Rightarrow> bool" where
  "number_ok n \<longleftrightarrow> (\<forall>x. number_min n = Some x \<longrightarrow> f64_is_finite x) \<and> (\<forall>x. number_max n = Some x \<longrightarrow> f64_is_finite x)
     \<and> (\<forall>x. number_step n = Some x \<longrightarrow> f64_is_finite x \<and> f64_less 0 x)
     \<and> (\<forall>l h. number_min n = Some l \<longrightarrow> number_max n = Some h \<longrightarrow> \<not> f64_less h l)"

lemma require_finite_ok:
  "require_finite env key v fallback p = (v', p') \<Longrightarrow> (\<And>x. fallback = Some x \<Longrightarrow> f64_is_finite x)
    \<Longrightarrow> v' = Some x \<Longrightarrow> f64_is_finite x"
  by (auto simp: require_finite_def split: option.splits if_splits)

lemma require_positive_step_ok:
  "require_positive_step env v fallback p = (v', p') \<Longrightarrow> (\<And>x. fallback = Some x \<Longrightarrow> f64_is_finite x \<and> f64_less 0 x)
    \<Longrightarrow> v' = Some x \<Longrightarrow> f64_is_finite x \<and> f64_less 0 x"
  by (auto simp: require_positive_step_def split: option.splits if_splits)

lemma number_parse_ok:
  assumes "\<And>b. base = Some b \<Longrightarrow> number_ok b" "number_parse env options base p = (kind, p')"
  shows "\<exists>n. kind = NumberField n \<and> number_ok n"
proof -
  define base_min where "base_min = Option.bind base number_min"
  define base_max where "base_max = Option.bind base number_max"
  define base_step where "base_step = Option.bind base number_step"
  have base: "base_min = Some x \<Longrightarrow> f64_is_finite x" "base_max = Some x \<Longrightarrow> f64_is_finite x"
    "base_step = Some x \<Longrightarrow> f64_is_finite x \<and> f64_less 0 x"
    "base_min = Some x \<Longrightarrow> base_max = Some y \<Longrightarrow> \<not> f64_less y x" for x y
    using assms(1) by (auto simp: base_min_def base_max_def base_step_def number_ok_def bind_eq_Some_conv)
  obtain l1 p1 where 1: "parser_f64 env options ''min'' base_min p = (l1, p1)" by fastforce
  obtain h1 p2 where 2: "parser_f64 env options ''max'' base_max p1 = (h1, p2)" by fastforce
  obtain s1 p3 where 3: "parser_f64 env options ''step'' base_step p2 = (s1, p3)" by fastforce
  obtain l2 p4 where 4: "require_finite env ''min'' l1 base_min p3 = (l2, p4)" by fastforce
  obtain h2 p5 where 5: "require_finite env ''max'' h1 base_max p4 = (h2, p5)" by fastforce
  obtain s2 p6 where 6: "require_positive_step env s1 base_step p5 = (s2, p6)" by fastforce
  note fine = require_finite_ok [OF 4 base(1)] require_finite_ok [OF 5 base(2)] require_positive_step_ok [OF 6 base(3)]
  have "kind = NumberField (case (l2, h2) of
      (Some l, Some h) \<Rightarrow> if f64_less h l then \<lparr> number_min = base_min, number_max = base_max, number_step = s2 \<rparr>
        else \<lparr> number_min = l2, number_max = h2, number_step = s2 \<rparr>
    | _ \<Rightarrow> \<lparr> number_min = l2, number_max = h2, number_step = s2 \<rparr>)"
    using assms(2) by (auto simp: number_parse_def Let_def base_min_def [symmetric] base_max_def [symmetric]
        base_step_def [symmetric] 1 2 3 4 5 6 split: option.splits if_splits)
  then show ?thesis
    using base fine by (auto simp: number_ok_def split: option.splits if_splits)
qed

section \<open>Options of the wrong type\<close>

text \<open>The parser collects errors and never drops one.\<close>

definition grows :: "'x field_parser \<Rightarrow> 'x field_parser \<Rightarrow> bool" where
  "grows p p' \<longleftrightarrow> parser_address p' = parser_address p \<and> parser_kind p' = parser_kind p
     \<and> set (parser_errors p) \<subseteq> set (parser_errors p')"

lemma grows_refl: "grows p p" and grows_trans: "grows p q \<Longrightarrow> grows q r \<Longrightarrow> grows p r"
  by (auto simp: grows_def)

lemma grows_error: "grows p q \<Longrightarrow> type_mismatch p key shown expected = type_mismatch q key shown expected
    \<and> (e \<in> set (parser_errors p) \<longrightarrow> e \<in> set (parser_errors q))"
  by (auto simp: grows_def type_mismatch_def)

lemmas parser_steps = claim_def push_error_def push_type_mismatch_def push_number_constraint_def push_number_range_def

lemma parser_option_grows:
  "parser_f64 env options key fallback p = (x, p') \<Longrightarrow> grows p p'"
  "parser_string env options key text_fallback p = (t, p') \<Longrightarrow> grows p p'"
  "parser_string_list env options key list_fallback p = (ts, p') \<Longrightarrow> grows p p'"
  "require_finite env key x fallback p = (y, p') \<Longrightarrow> grows p p'"
  "require_positive_step env x fallback p = (y, p') \<Longrightarrow> grows p p'"
  by (auto simp: parser_f64_def parser_string_def parser_string_list_def require_finite_def require_positive_step_def
      parser_steps grows_def Let_def split: option.splits doc_value.splits if_splits)

text \<open>A value of the wrong type is reported; a number or a text is then absent, a list is the fallback.\<close>

lemma parser_mismatch:
  "parser_f64 env options key fallback p = (x, p') \<Longrightarrow> map_of options key = Some v \<Longrightarrow> as_f64 v = None
    \<Longrightarrow> x = None \<and> type_mismatch p key (debug_value env v) ''a number'' \<in> set (parser_errors p')"
  "parser_string env options key text_fallback p = (t, p') \<Longrightarrow> map_of options key = Some v \<Longrightarrow> \<forall>s. v \<noteq> DocString s
    \<Longrightarrow> t = None \<and> type_mismatch p key (debug_value env v) ''a string'' \<in> set (parser_errors p')"
  by (auto simp: parser_f64_def parser_string_def parser_steps type_mismatch_def Let_def split: doc_value.splits)

definition number_lost :: "('x, 'z) field_env_scheme \<Rightarrow> doc_options \<Rightarrow> (string \<Rightarrow> string \<Rightarrow> 'x option_error) \<Rightarrow> 'x option_error set
    \<Rightarrow> string \<Rightarrow> f64 option \<Rightarrow> bool" where
  "number_lost env options mismatch errors key x \<longleftrightarrow> (\<forall>v. map_of options key = Some v \<and> as_f64 v = None
     \<longrightarrow> x = None \<and> mismatch key (debug_value env v) \<in> errors)"

lemma number_lost_later:
  assumes "parser_f64 env options key fallback q = (x, q')" "grows p q" "grows q' r" "x = None \<Longrightarrow> y = None"
  shows "number_lost env options (\<lambda>key shown. type_mismatch p key shown ''a number'') (set (parser_errors r)) key y"
  unfolding number_lost_def
proof (intro allI impI)
  fix v
  assume "map_of options key = Some v \<and> as_f64 v = None"
  with parser_mismatch(1) [OF assms(1)]
  have "x = None \<and> type_mismatch q key (debug_value env v) ''a number'' \<in> set (parser_errors q')" by simp
  then show "y = None \<and> type_mismatch p key (debug_value env v) ''a number'' \<in> set (parser_errors r)"
    using assms(4) grows_error [OF assms(2), of key "debug_value env v" "''a number''"] grows_error [OF assms(3)] by simp
qed

lemma number_parse_lost:
  assumes "number_parse env options base p = (kind, p')"
  shows "\<exists>n. kind = NumberField n \<and> grows p p'
    \<and> (let lost = number_lost env options (\<lambda>key shown. type_mismatch p key shown ''a number'') (set (parser_errors p'))
       in lost ''min'' (number_min n) \<and> lost ''max'' (number_max n) \<and> lost ''step'' (number_step n))"
proof -
  define base_min where "base_min = Option.bind base number_min"
  define base_max where "base_max = Option.bind base number_max"
  define base_step where "base_step = Option.bind base number_step"
  obtain l1 p1 where 1: "parser_f64 env options ''min'' base_min p = (l1, p1)" by fastforce
  obtain h1 p2 where 2: "parser_f64 env options ''max'' base_max p1 = (h1, p2)" by fastforce
  obtain s1 p3 where 3: "parser_f64 env options ''step'' base_step p2 = (s1, p3)" by fastforce
  obtain l2 p4 where 4: "require_finite env ''min'' l1 base_min p3 = (l2, p4)" by fastforce
  obtain h2 p5 where 5: "require_finite env ''max'' h1 base_max p4 = (h2, p5)" by fastforce
  obtain s2 p6 where 6: "require_positive_step env s1 base_step p5 = (s2, p6)" by fastforce
  note G = parser_option_grows(1) [OF 1] parser_option_grows(1) [OF 2] parser_option_grows(1) [OF 3]
    parser_option_grows(4) [OF 4] parser_option_grows(4) [OF 5] parser_option_grows(5) [OF 6]
  have out: "grows p6 p'" "\<exists>n. kind = NumberField n \<and> number_step n = s2 \<and> (l2 = None \<longrightarrow> number_min n = None)
      \<and> (h2 = None \<longrightarrow> number_max n = None)"
    using assms by (auto simp: number_parse_def Let_def base_min_def [symmetric] base_max_def [symmetric]
        base_step_def [symmetric] 1 2 3 4 5 6 grows_refl grows_def parser_steps split: option.splits if_splits)
  have absent: "l1 = None \<Longrightarrow> l2 = None" "h1 = None \<Longrightarrow> h2 = None" "s1 = None \<Longrightarrow> s2 = None"
    using 4 5 6 by (auto simp: require_finite_def require_positive_step_def)
  note later = grows_trans [OF grows_trans [OF grows_trans [OF G(4) G(5)] G(6)] out(1)]
  have G3: "grows p3 p'" by (rule later)
  have G2: "grows p2 p'" by (rule grows_trans [OF G(3) G3])
  have G1: "grows p1 p'" by (rule grows_trans [OF G(2) G2])
  have same: "grows p p1" "grows p p2" using G(1,2) grows_trans by blast+
  obtain n where n: "kind = NumberField n" "number_step n = s2" "l2 = None \<Longrightarrow> number_min n = None"
    "h2 = None \<Longrightarrow> number_max n = None" using out(2) by blast
  show ?thesis
    unfolding Let_def
  proof (intro exI [of _ n] conjI)
    show "number_lost env options (\<lambda>key shown. type_mismatch p key shown ''a number'') (set (parser_errors p')) ''min'' (number_min n)"
      by (rule number_lost_later [OF 1 grows_refl G1]) (use absent(1) n(3) in blast)
    show "number_lost env options (\<lambda>key shown. type_mismatch p key shown ''a number'') (set (parser_errors p')) ''max'' (number_max n)"
      by (rule number_lost_later [OF 2 same(1) G2]) (use absent(2) n(4) in blast)
    show "number_lost env options (\<lambda>key shown. type_mismatch p key shown ''a number'') (set (parser_errors p')) ''step'' (number_step n)"
      by (rule number_lost_later [OF 3 same(2) G3]) (use absent(3) n(2) in simp)
  qed (use n(1) grows_trans [OF G(1) G1] in simp_all)
qed

end
