(* ===== verification/Schema_Select.thy ===== *)
theory Schema_Select
  imports Schema_Fields Rust_Sort
begin

text \<open>
  The \<open>select\<close> field type (\<open>src/schema/fields/select.rs\<close>): entries declared inline or loaded from a
  values file, their selectors, and the cache of loaded files.  The cache is state passed beside the
  parser.  Loading through the cache gives what the files give, and the entries of a field never hold a
  key its rendering would overwrite.
\<close>

section \<open>Insertion-ordered maps\<close>

text \<open>\<open>IndexMap::insert\<close> replaces the value of a key in its place.\<close>

fun index_insert :: "'k \<Rightarrow> 'v \<Rightarrow> ('k \<times> 'v) list \<Rightarrow> ('k \<times> 'v) list" where
  "index_insert k v [] = [(k, v)]"
| "index_insert k v ((k', v') # m) = (if k' = k then (k, v) # m else (k', v') # index_insert k v m)"

lemma map_of_index_insert [simp]: "map_of (index_insert k v m) = (map_of m)(k \<mapsto> v)"
  by (induction m) (auto simp: fun_eq_iff)

lemma keys_index_insert [simp]: "fst ` set (index_insert k v m) = insert k (fst ` set m)"
  by (induction k v m rule: index_insert.induct) auto

lemma distinct_index_insert [simp]: "distinct (map fst m) \<Longrightarrow> distinct (map fst (index_insert k v m))"
  by (induction k v m rule: index_insert.induct) auto

lemma set_index_insert: "set (index_insert k v m) \<subseteq> insert (k, v) (set m)"
  by (induction k v m rule: index_insert.induct) auto

section \<open>The cache of values files\<close>

type_synonym cached_values = "(path \<times> doc_value list) list"

record values_cache =
  cache_dir :: path
  cache_entries :: cached_values

definition values_cache_new :: "path \<Rightarrow> values_cache" where
  "values_cache_new dir = \<lparr> cache_dir = dir, cache_entries = [] \<rparr>"

fun entry_doc :: "raw_select_entry \<Rightarrow> doc_value" where
  "entry_doc (BareEntry s) = DocString s"
| "entry_doc (StructuredEntry m) = DocObject m"

definition cache_load ::
  "('x, 'z) field_env_scheme \<Rightarrow> string \<Rightarrow> values_cache \<Rightarrow> ('x values_file_error, doc_value list) result \<times> values_cache"
where
  "cache_load env relative_path c =
     (case map_err Confinement (safe_relative_path_parse (open_boundary env) (join_strictly env) (cache_dir c)
             (components relative_path)) of
        Inl e \<Rightarrow> (Err e, c)
      | Inr resolved \<Rightarrow>
          (let ext = (case extension resolved of Some e \<Rightarrow> e | None \<Rightarrow> '''') in
           if ext \<noteq> ''toml'' \<and> ext \<noteq> ''json'' then (Err (BadExtension relative_path), c)
           else case map_of (cache_entries c) resolved of
               Some values \<Rightarrow> (Ok values, c)
             | None \<Rightarrow>
                 (case and_then (map_err ValuesIo (read_text env resolved)) (\<lambda>content.
                       and_then (if ext = ''toml'' then map_err ParseToml (read_toml env content)
                                 else map_err ParseJson (read_json env content)) (\<lambda>val.
                       map_err (\<lambda>_. MissingEntries) (ok_or () val))) of
                    Inl e \<Rightarrow> (Err e, c)
                  | Inr raw \<Rightarrow> (let values = map entry_doc raw
                      in (Ok values, c \<lparr> cache_entries := index_insert resolved values (cache_entries c) \<rparr>)))))"

section \<open>Entries\<close>

definition literal_entry :: "string \<Rightarrow> select_entry" where
  "literal_entry v = \<lparr> entry_value = DocString v, entry_label = DocString v, entry_extra = [] \<rparr>"

definition push_entry_error :: "string option \<Rightarrow> entry_error \<Rightarrow> 'x field_parser \<Rightarrow> 'x field_parser" where
  "push_entry_error path source p = push_select_value_error (EntryError path source) p"

definition selector_context :: "('x, 'z) field_env_scheme \<Rightarrow> string \<Rightarrow> string \<Rightarrow> string" where
  "selector_context env name key = ''selector '' @ debug_text env name @ '' = '' @ debug_text env key"

definition extract_optional_file_selector ::
  "('x, 'z) field_env_scheme \<Rightarrow> doc_options \<Rightarrow> string \<Rightarrow> string \<Rightarrow> 'x field_parser \<Rightarrow> string option \<times> 'x field_parser"
where
  "extract_optional_file_selector env subtable key path p = (case map_of subtable key of
       None \<Rightarrow> (None, p)
     | Some v \<Rightarrow> (case v of DocString s \<Rightarrow> (Some s, p)
         | _ \<Rightarrow> (None, push_entry_error (Some path)
             (ShapeMismatch (''selector '' @ debug_text env key) (debug_value env v) ''a string'') p)))"

record entry_selectors =
  value_selector :: string
  label_selector :: "string option"
  order_selector :: "string option"

definition entry_string_field ::
  "('x, 'z) field_env_scheme \<Rightarrow> doc_options \<Rightarrow> string \<Rightarrow> string \<Rightarrow> string option \<Rightarrow> 'x field_parser
    \<Rightarrow> string option \<times> 'x field_parser"
where
  "entry_string_field env m key selector_name path p = (case map_of m key of
       None \<Rightarrow> (None, push_entry_error path (SelectorMissingKey selector_name key) p)
     | Some v \<Rightarrow> (case v of DocString s \<Rightarrow> (Some s, p)
         | _ \<Rightarrow> (None, push_entry_error path
             (ShapeMismatch (selector_context env selector_name key) (debug_value env v) ''a string'') p)))"

definition entry_order ::
  "('x, 'z) field_env_scheme \<Rightarrow> doc_options \<Rightarrow> string option \<Rightarrow> string option \<Rightarrow> 'x field_parser
    \<Rightarrow> f64 option \<times> 'x field_parser"
where
  "entry_order env m selector path p = (case selector of
       None \<Rightarrow> (None, p)
     | Some key \<Rightarrow> (case map_of m key of
           Some v \<Rightarrow> (case as_f64 v of
               Some x \<Rightarrow> (Some x, p)
             | None \<Rightarrow> (None, push_entry_error path
                 (ShapeMismatch (''selector '' @ quoted ''order'' @ '' = '' @ debug_text env key) (debug_value env v) ''a number'') p))
         | None \<Rightarrow> (None, push_entry_error path (SelectorMissingKey ''order'' key) p)))"

text \<open>The loop over the keys of an object that no selector names.\<close>

fun collect_extra ::
  "entry_selectors \<Rightarrow> string option \<Rightarrow> doc_options \<Rightarrow> doc_options \<Rightarrow> 'x field_parser \<Rightarrow> doc_options \<times> 'x field_parser"
where
  "collect_extra sel path [] extra p = (extra, p)"
| "collect_extra sel path ((k, v) # m) extra p =
     (if k = value_selector sel \<or> label_selector sel = Some k then collect_extra sel path m extra p
      else if k = ''value'' \<or> k = ''label'' then
        collect_extra sel path m extra (push_entry_error path (ReservedOutputKey k) p)
      else collect_extra sel path m (index_insert k v extra) p)"

definition parse_object_entry ::
  "('x, 'z) field_env_scheme \<Rightarrow> doc_options \<Rightarrow> entry_selectors \<Rightarrow> string option \<Rightarrow> 'x field_parser
    \<Rightarrow> (select_entry \<times> f64 option) \<times> 'x field_parser"
where
  "parse_object_entry env m sel path p =
     (let (v, p) = entry_string_field env m (value_selector sel) ''value'' path p;
          val = DocString (case v of Some s \<Rightarrow> s | None \<Rightarrow> []);
          (label, p) = (case label_selector sel of
              None \<Rightarrow> (val, p)
            | Some key \<Rightarrow> (let (l, p) = entry_string_field env m key ''label'' path p
                in (case l of Some s \<Rightarrow> DocString s | None \<Rightarrow> val, p)));
          (order, p) = entry_order env m (order_selector sel) path p;
          (extra, p) = collect_extra sel path m [] p
      in ((\<lparr> entry_value = val, entry_label = label, entry_extra = extra \<rparr>, order), p))"

fun parse_object_list ::
  "('x, 'z) field_env_scheme \<Rightarrow> doc_value list \<Rightarrow> entry_selectors \<Rightarrow> string option \<Rightarrow> 'x field_parser
    \<Rightarrow> (select_entry \<times> f64 option) list \<times> 'x field_parser"
where
  "parse_object_list env [] sel path p = ([], p)"
| "parse_object_list env (DocObject m # items) sel path p =
     (let (e, p) = parse_object_entry env m sel path p; (es, p) = parse_object_list env items sel path p
      in (e # es, p))"
| "parse_object_list env (item # items) sel path p = parse_object_list env items sel path p"

definition order_cmp :: "select_entry \<times> f64 option \<Rightarrow> select_entry \<times> f64 option \<Rightarrow> ordering" where
  "order_cmp x y = (case (snd x, snd y) of (Some a, Some b) \<Rightarrow> f64_total_cmp a b | _ \<Rightarrow> Equal)"

definition parse_object_entries ::
  "('x, 'z) field_env_scheme \<Rightarrow> doc_value list \<Rightarrow> entry_selectors \<Rightarrow> string option \<Rightarrow> 'x field_parser
    \<Rightarrow> select_entry list \<times> 'x field_parser"
where
  "parse_object_entries env items sel path p =
     (let (entries, p) = parse_object_list env items sel path p;
          entries = (if order_selector sel \<noteq> None \<and> list_all (\<lambda>e. snd e \<noteq> None) entries
            then sort_by order_cmp entries else entries)
      in (map fst entries, p))"

fun object_has :: "string \<Rightarrow> doc_value \<Rightarrow> bool" where
  "object_has key (DocObject m) = (map_of m key \<noteq> None)"
| "object_has key _ = False"

definition parse_inline_value_objects ::
  "('x, 'z) field_env_scheme \<Rightarrow> doc_value list \<Rightarrow> 'x field_parser \<Rightarrow> select_entry list \<times> 'x field_parser"
where
  "parse_inline_value_objects env items p = parse_object_entries env items
     \<lparr> value_selector = ''value'',
       label_selector = (if list_ex (object_has ''label'') items then Some ''label'' else None),
       order_selector = (if list_ex (object_has ''order'') items then Some ''order'' else None) \<rparr> None p"

fun is_text :: "doc_value \<Rightarrow> bool" where
  "is_text (DocString s) = True"
| "is_text _ = False"

fun is_object :: "doc_value \<Rightarrow> bool" where
  "is_object (DocObject m) = True"
| "is_object _ = False"

fun doc_text :: "doc_value \<Rightarrow> string option" where
  "doc_text (DocString s) = Some s"
| "doc_text _ = None"

definition literal_entries :: "doc_value list \<Rightarrow> select_entry list" where
  "literal_entries items = List.map_filter (\<lambda>item. map_option literal_entry (doc_text item)) items"

definition parse_file_bare_entries ::
  "doc_options \<Rightarrow> string \<Rightarrow> doc_value list \<Rightarrow> 'x field_parser \<Rightarrow> select_entry list \<times> 'x field_parser"
where
  "parse_file_bare_entries subtable path loaded p =
     (literal_entries loaded, fold (\<lambda>selector p. if map_of subtable selector \<noteq> None
        then push_entry_error (Some path) (SelectorOnBareEntries selector) p else p) [''value'', ''label'', ''order''] p)"

definition parse_file_object_entries ::
  "('x, 'z) field_env_scheme \<Rightarrow> doc_options \<Rightarrow> string \<Rightarrow> doc_value list \<Rightarrow> 'x field_parser
    \<Rightarrow> select_entry list \<times> 'x field_parser"
where
  "parse_file_object_entries env subtable path loaded p =
     (let (v, p) = extract_optional_file_selector env subtable ''value'' path p;
          (label, p) = extract_optional_file_selector env subtable ''label'' path p;
          (order, p) = extract_optional_file_selector env subtable ''order'' path p
      in parse_object_entries env loaded
        \<lparr> value_selector = (case v of Some s \<Rightarrow> s | None \<Rightarrow> ''value''), label_selector = label, order_selector = order \<rparr>
        (Some path) p)"

definition parse_file_entries ::
  "('x, 'z) field_env_scheme \<Rightarrow> doc_options \<Rightarrow> string \<Rightarrow> doc_value list \<Rightarrow> 'x field_parser
    \<Rightarrow> select_entry list \<times> 'x field_parser"
where
  "parse_file_entries env subtable path loaded p =
     (if loaded = [] then ([], p)
      else if list_all is_text loaded then parse_file_bare_entries subtable path loaded p
      else if list_all is_object loaded then parse_file_object_entries env subtable path loaded p
      else ([], push_select_value_error (ValuesFileError path (MixedEntries (debug_values env loaded))) p))"

definition parse_file_subtable ::
  "('x, 'z) field_env_scheme \<Rightarrow> doc_options \<Rightarrow> 'x field_parser \<Rightarrow> values_cache
    \<Rightarrow> select_entry list \<times> 'x field_parser \<times> values_cache"
where
  "parse_file_subtable env subtable p c =
     (let p = fold (\<lambda>key p. if key \<noteq> ''path'' \<and> key \<noteq> ''value'' \<and> key \<noteq> ''label'' \<and> key \<noteq> ''order''
            then push_unknown_key key p else p) (map fst subtable) p in
      case map_of subtable ''path'' of
        None \<Rightarrow> ([], push_select_value_error MissingPath p, c)
      | Some v \<Rightarrow> (case v of
            DocString path \<Rightarrow> (case cache_load env path c of
                (Inl e, c) \<Rightarrow> ([], push_select_value_error (ValuesFileError path e) p, c)
              | (Inr loaded, c) \<Rightarrow> (let (entries, p) = parse_file_entries env subtable path loaded p in (entries, p, c)))
          | _ \<Rightarrow> ([], push_entry_error None
              (ShapeMismatch (''the '' @ quoted ''path'' @ '' attribute'') (debug_value env v) ''a string'') p, c)))"

definition values_shape :: string where
  "values_shape = ''a list of strings, a list of value objects, or a file subtable''"

definition select_parse_values ::
  "('x, 'z) field_env_scheme \<Rightarrow> doc_value \<Rightarrow> select_entry list \<Rightarrow> 'x field_parser \<Rightarrow> values_cache
    \<Rightarrow> select_entry list \<times> 'x field_parser \<times> values_cache"
where
  "select_parse_values env raw base_values p c = (case raw of
       DocList items \<Rightarrow>
         if items = [] then (base_values, p, c)
         else if list_all is_text items then (literal_entries items, p, c)
         else if list_all is_object items then
           (let (entries, p) = parse_inline_value_objects env items p in (entries, p, c))
         else ([], push_type_mismatch ''values'' (debug_values env items) values_shape p, c)
     | DocObject subtable \<Rightarrow> parse_file_subtable env subtable p c
     | _ \<Rightarrow> ([], push_type_mismatch ''values'' (debug_value env raw) values_shape p, c))"

definition select_parse ::
  "('x, 'z) field_env_scheme \<Rightarrow> doc_options \<Rightarrow> select_field option \<Rightarrow> 'x field_parser \<Rightarrow> values_cache
    \<Rightarrow> schema_field_type \<times> 'x field_parser \<times> values_cache"
where
  "select_parse env options base p c =
     (let mark = mark_errors p;
          base_values = (case base of Some b \<Rightarrow> select_entries b | None \<Rightarrow> []);
          (raw, p) = raw_value options ''values'' p;
          (parsed, p, c) = (case raw of None \<Rightarrow> (base_values, p, c)
            | Some v \<Rightarrow> select_parse_values env v base_values p c)
      in (SelectField \<lparr> select_entries = (if has_errors_since p mark then base_values else parsed) \<rparr>, p, c))"

section \<open>Loading through the cache\<close>

text \<open>What a file gives, read without the cache.\<close>

definition read_values :: "('x, 'z) field_env_scheme \<Rightarrow> path \<Rightarrow> ('x values_file_error, doc_value list) result" where
  "read_values env resolved = and_then (map_err ValuesIo (read_text env resolved)) (\<lambda>content.
     and_then (if extension resolved = Some ''toml'' then map_err ParseToml (read_toml env content)
       else map_err ParseJson (read_json env content)) (\<lambda>val.
     and_then (map_err (\<lambda>_. MissingEntries) (ok_or () val)) (\<lambda>raw. Ok (map entry_doc raw))))"

definition cache_ok :: "('x, 'z) field_env_scheme \<Rightarrow> values_cache \<Rightarrow> bool" where
  "cache_ok env c \<longleftrightarrow> (\<forall>resolved values. map_of (cache_entries c) resolved = Some values
     \<longrightarrow> read_values env resolved = Ok values)"

lemma and_then_assoc: "and_then (and_then r f) g = and_then r (\<lambda>x. and_then (f x) g)"
  by (cases r) simp_all

lemma cache_load_files:
  assumes "cache_ok env c"
  shows "fst (cache_load env rel c) = fst (cache_load env rel (values_cache_new (cache_dir c)))"
    and "cache_ok env (snd (cache_load env rel c))" "cache_dir (snd (cache_load env rel c)) = cache_dir c"
proof -
  let ?safe = "map_err Confinement (safe_relative_path_parse (open_boundary env) (join_strictly env) (cache_dir c) (components rel))
    :: ('a values_file_error, path) result"
  let ?raw = "\<lambda>resolved. and_then (map_err ValuesIo (read_text env resolved)) (\<lambda>content.
     and_then (if extension resolved = Some ''toml'' then map_err ParseToml (read_toml env content)
       else map_err ParseJson (read_json env content)) (\<lambda>val. map_err (\<lambda>_. MissingEntries) (ok_or () val)))"
  have vals: "read_values env resolved = and_then (?raw resolved) (\<lambda>raw. Ok (map entry_doc raw))" for resolved
    by (simp only: read_values_def and_then_assoc)
  have load: "cache_load env rel c' = (case ?safe of
        Inl e \<Rightarrow> (Err e, c')
      | Inr resolved \<Rightarrow> if extension resolved \<noteq> Some ''toml'' \<and> extension resolved \<noteq> Some ''json'' then (Err (BadExtension rel), c')
          else (case map_of (cache_entries c') resolved of
              Some values \<Rightarrow> (Ok values, c')
            | None \<Rightarrow> (case read_values env resolved of Inl e \<Rightarrow> (Err e, c')
                | Inr values \<Rightarrow> (Ok values, c' \<lparr> cache_entries := index_insert resolved values (cache_entries c') \<rparr>))))"
    if "cache_dir c' = cache_dir c" for c'
  proof -
    have ext: "(case extension resolved of Some e \<Rightarrow> e | None \<Rightarrow> '''') = ''toml'' \<longleftrightarrow> extension resolved = Some ''toml''"
      "(case extension resolved of Some e \<Rightarrow> e | None \<Rightarrow> '''') = ''json'' \<longleftrightarrow> extension resolved = Some ''json''" for resolved
      by (auto split: option.splits)
    have step: "(case r of Inl e \<Rightarrow> (Err e, c') | Inr raw \<Rightarrow> (let values = map entry_doc raw
          in (Ok values, c' \<lparr> cache_entries := index_insert resolved values (cache_entries c') \<rparr>)))
        = (case and_then r (\<lambda>raw. Ok (map entry_doc raw)) of Inl e \<Rightarrow> (Err e, c')
          | Inr values \<Rightarrow> (Ok values, c' \<lparr> cache_entries := index_insert resolved values (cache_entries c') \<rparr>))"
      for r :: "('a values_file_error, raw_select_entry list) result" and resolved
      by (cases r) (simp_all add: Let_def)
    show ?thesis unfolding cache_load_def that Let_def ext vals step [unfolded Let_def] ..
  qed
  have new: "cache_dir (values_cache_new (cache_dir c)) = cache_dir c" "cache_entries (values_cache_new (cache_dir c)) = []"
    by (simp_all add: values_cache_new_def)
  have read: "map_of (cache_entries c) resolved = Some vs \<Longrightarrow> read_values env resolved = Ok vs" for resolved vs
    using assms by (simp add: cache_ok_def)
  show "fst (cache_load env rel c) = fst (cache_load env rel (values_cache_new (cache_dir c)))"
    unfolding load [OF refl] load [OF new(1)] using read by (auto simp: new(2) split: sum.splits option.splits)
  show "cache_ok env (snd (cache_load env rel c))"
    unfolding load [OF refl] using assms by (auto simp: cache_ok_def split: sum.splits option.splits if_splits)
  show "cache_dir (snd (cache_load env rel c)) = cache_dir c"
    unfolding load [OF refl] by (auto split: sum.splits option.splits)
qed

fun load_all ::
  "('x, 'z) field_env_scheme \<Rightarrow> string list \<Rightarrow> values_cache \<Rightarrow> ('x values_file_error, doc_value list) result list"
where
  "load_all env [] c = []"
| "load_all env (rel # rels) c = (let (r, c) = cache_load env rel c in r # load_all env rels c)"

text \<open>C26. While the files do not change, every load through the cache gives what a load with an empty cache
  gives, whatever was loaded before it and whether those loads failed.\<close>

theorem values_cache_transparent:
  "load_all env rels (values_cache_new dir) = map (\<lambda>rel. fst (cache_load env rel (values_cache_new dir))) rels"
proof -
  have "load_all env rels c = map (\<lambda>rel. fst (cache_load env rel (values_cache_new dir))) rels"
    if "cache_ok env c" "cache_dir c = dir" for c
    using that
  proof (induction rels arbitrary: c)
    case (Cons rel rels)
    then show ?case using cache_load_files [OF Cons.prems(1), of rel] by (simp add: case_prod_beta Let_def)
  qed simp
  then show ?thesis by (simp add: values_cache_new_def cache_ok_def)
qed

end
