(* ===== verification/Field_Builder.thy ===== *)
theory Field_Builder
  imports Schema_Select Field_Paths
begin

text \<open>
  Resolved schemas (\<open>src/schema/model.rs\<close>), the hard errors of their construction
  (\<open>src/schema/error.rs\<close>), and the builder of one field (\<open>src/schema/fields/builder.rs\<close>): a field is
  built from its own options, or from a \<open>$ref\<close> base that its options are merged into.
\<close>

section \<open>Schemas\<close>

record schema =
  schema_name :: string
  schema_fields :: "(string \<times> field_def) list"
  schema_ancestors :: "string list"
  schema_children :: "string list"
  schema_descendants :: "string list"

type_synonym schemas = "(string \<times> schema) list"

definition schema_new :: "string \<Rightarrow> (string \<times> field_def) list \<Rightarrow> string list \<Rightarrow> schema" where
  "schema_new name fs ancestors = \<lparr> schema_name = name, schema_fields = fs, schema_ancestors = ancestors,
     schema_children = [], schema_descendants = [] \<rparr>"

definition set_hierarchy :: "string list \<Rightarrow> string list \<Rightarrow> schema \<Rightarrow> schema" where
  "set_hierarchy children descendants s = s \<lparr> schema_children := children, schema_descendants := descendants \<rparr>"

definition schema_field :: "schema \<Rightarrow> string \<Rightarrow> field_def option" where
  "schema_field s name = map_of (schema_fields s) name"

definition closest_field_name :: "(string \<Rightarrow> string \<Rightarrow> nat) \<Rightarrow> schema \<Rightarrow> string \<Rightarrow> string option" where
  "closest_field_name lev s field = closest_match lev (map (\<lambda>(name, _). (name, name)) (schema_fields s)) field"

definition suggest_field :: "unicode \<Rightarrow> (string \<Rightarrow> string \<Rightarrow> nat) \<Rightarrow> schema \<Rightarrow> string \<Rightarrow> string option" where
  "suggest_field u lev s field = (case field_key_try_new u field of
       Inl _ \<Rightarrow> None
     | Inr key \<Rightarrow> (case filter (is_match u key) (map fst (schema_fields s)) of
           [] \<Rightarrow> closest_field_name lev s field
         | [only] \<Rightarrow> Some only
         | _ \<Rightarrow> None))"

section \<open>Errors\<close>

datatype 'x schema_file_error = SchemaFileIo 'x | SchemaFileParse 'x

datatype 'x schema_error =
  ReadDirectory path 'x
| SchemaFileError path "'x schema_file_error"
| SchemaCycle "string list"
| AmbiguousFieldName string string string
| FieldBuildError "'x field_build_error"

section \<open>Building a field\<close>

record resolved_base =
  base_field :: "field_def option"
  base_tag :: schema_tag
  degrade_on_error :: bool

definition resolve_base_ref ::
  "string list \<Rightarrow> schemas \<Rightarrow> field_address \<Rightarrow> field_address \<Rightarrow> ('x schema_error, field_def) result"
where
  "resolve_base_ref ancestors resolved own base =
     (if address_schema base \<noteq> global_schema_name \<and> address_schema base \<notin> set ancestors
      then Err (FieldBuildError (RefOutOfBounds own base))
      else ok_or (FieldBuildError (RefFieldNotFound own base))
        (Option.bind (map_of resolved (address_schema base)) (\<lambda>s. schema_field s (address_field base))))"

definition resolve_from_raw ::
  "string list \<Rightarrow> schemas \<Rightarrow> field_address \<Rightarrow> raw_field_def \<Rightarrow> ('x schema_error, resolved_base) result"
where
  "resolve_from_raw ancestors resolved own raw = (case raw_source raw of
       DirectSource kind \<Rightarrow> Ok \<lparr> base_field = None, base_tag = tag_of_raw kind, degrade_on_error = False \<rparr>
     | RefSource base (Some kind) \<Rightarrow> and_then (resolve_base_ref ancestors resolved own base) (\<lambda>def.
         Ok \<lparr> base_field = Some def, base_tag = tag_of_raw kind, degrade_on_error = False \<rparr>)
     | RefSource base None \<Rightarrow> and_then (resolve_base_ref ancestors resolved own base) (\<lambda>def.
         Ok \<lparr> base_field = Some def, base_tag = field_tag (def_kind def), degrade_on_error = True \<rparr>))"

definition parse_options ::
  "('x, 'z) field_env_scheme \<Rightarrow> field_address \<Rightarrow> schema_tag \<Rightarrow> doc_options \<Rightarrow> schema_field_type option \<Rightarrow> values_cache
    \<Rightarrow> schema_field_type \<times> 'x option_error list \<times> values_cache"
where
  "parse_options env own kind options base c =
     (let p = parser_new own kind;
          (parsed, p, c) = (case kind of
              TagInput \<Rightarrow> (InputField, p, c)
            | TagBoolean \<Rightarrow> (BooleanField, p, c)
            | TagSelect \<Rightarrow> select_parse env options (Option.bind base as_select) p c
            | TagNumber \<Rightarrow> (let (t, p) = number_parse env options (Option.bind base as_number) p in (t, p, c))
            | TagDate \<Rightarrow> (let (t, p) = date_parse env options (Option.bind base as_date) p in (t, p, c))
            | TagFile \<Rightarrow> (let (t, p) = file_parse env options (Option.bind base as_file) p in (t, p, c)))
      in (parsed, parser_finish options p, c))"

definition handle_global_required :: "field_address \<Rightarrow> bool \<Rightarrow> bool \<times> schema_warning list" where
  "handle_global_required own required =
     (if address_schema own = global_schema_name \<and> required then (False, [StrayGlobalRequired (address_field own)])
      else (required, []))"

definition field_build ::
  "('x, 'z) field_env_scheme \<Rightarrow> string list \<Rightarrow> schemas \<Rightarrow> field_address \<Rightarrow> raw_field_def \<Rightarrow> values_cache
    \<Rightarrow> ('x schema_error, field_def \<times> schema_warning list) result \<times> values_cache"
where
  "field_build env ancestors resolved own raw c =
     (case resolve_from_raw ancestors resolved own raw of
        Inl e \<Rightarrow> (Err e, c)
      | Inr rb \<Rightarrow>
          (let base = base_field rb;
               (kind, errors, c) = parse_options env own (base_tag rb) (raw_options raw) (map_option def_kind base) c
           in if errors \<noteq> [] \<and> \<not> degrade_on_error rb then (Err (FieldBuildError (OptionErrors errors)), c)
              else
                (let required = (case raw_required raw of Some r \<Rightarrow> r
                       | None \<Rightarrow> (case base of Some b \<Rightarrow> def_required b | None \<Rightarrow> False));
                     multi = (case raw_multi raw of Some m \<Rightarrow> m
                       | None \<Rightarrow> (case base of Some b \<Rightarrow> def_multi b | None \<Rightarrow> False));
                     (required, stray) = handle_global_required own required
                 in (Ok (\<lparr> def_kind = kind, def_required = required, def_multi = multi \<rparr>,
                       map (\<lambda>e. DegradedOverride (option_error_text env e)) errors @ stray), c))))"

section \<open>Well-formed fields\<close>

text \<open>Rendering an entry as \<open>{value, label, ...extra}\<close> writes a key once.\<close>

definition entry_ok :: "select_entry \<Rightarrow> bool" where
  "entry_ok e \<longleftrightarrow> is_text (entry_value e) \<and> is_text (entry_label e)
     \<and> distinct (map fst (entry_extra e)) \<and> ''value'' \<notin> fst ` set (entry_extra e) \<and> ''label'' \<notin> fst ` set (entry_extra e)"

fun kind_ok :: "schema_field_type \<Rightarrow> bool" where
  "kind_ok (NumberField n) = number_ok n"
| "kind_ok (SelectField s) = list_all entry_ok (select_entries s)"
| "kind_ok _ = True"

lemma kind_ok_parts:
  "kind_ok k \<Longrightarrow> as_number k = Some n \<Longrightarrow> number_ok n"
  "kind_ok k \<Longrightarrow> as_select k = Some s \<Longrightarrow> list_all entry_ok (select_entries s)"
  by (cases k; simp)+

lemma collect_extra_ok:
  "collect_extra sel path m extra p = (extra', p') \<Longrightarrow> distinct (map fst extra)
    \<Longrightarrow> ''value'' \<notin> fst ` set extra \<Longrightarrow> ''label'' \<notin> fst ` set extra
    \<Longrightarrow> distinct (map fst extra') \<and> ''value'' \<notin> fst ` set extra' \<and> ''label'' \<notin> fst ` set extra'"
proof (induction sel path m extra p arbitrary: extra' p' rule: collect_extra.induct)
  case (2 sel path k v m extra p)
  consider "k = value_selector sel \<or> label_selector sel = Some k"
    | "\<not> (k = value_selector sel \<or> label_selector sel = Some k)" "k = ''value'' \<or> k = ''label''"
    | "\<not> (k = value_selector sel \<or> label_selector sel = Some k)" "\<not> (k = ''value'' \<or> k = ''label'')" by blast
  then show ?case
  proof cases
    case 1
    then show ?thesis using "2.IH"(1) [OF 1] "2.prems" by simp
  next
    case 2
    then show ?thesis using "2.IH"(2) [OF 2] "2.prems" by (auto split: if_splits)
  next
    case 3
    then show ?thesis using "2.IH"(3) [OF 3] "2.prems" by auto
  qed
qed simp

lemma parse_object_entry_ok:
  assumes "parse_object_entry env m sel path p = ((e, order), p')"
  shows "entry_ok e"
proof -
  obtain v p1 where 1: "entry_string_field env m (value_selector sel) ''value'' path p = (v, p1)" by fastforce
  let ?val = "DocString (case v of Some s \<Rightarrow> s | None \<Rightarrow> [])"
  obtain label p2 where 2: "(case label_selector sel of None \<Rightarrow> (?val, p1)
      | Some key \<Rightarrow> (let (l, p) = entry_string_field env m key ''label'' path p1
          in (case l of Some s \<Rightarrow> DocString s | None \<Rightarrow> ?val, p))) = (label, p2)" by fastforce
  obtain ord_key p3 where 3: "entry_order env m (order_selector sel) path p2 = (ord_key, p3)" by fastforce
  obtain extra p4 where 4: "collect_extra sel path m [] p3 = (extra, p4)" by fastforce
  have "e = \<lparr> entry_value = ?val, entry_label = label, entry_extra = extra \<rparr>"
    using assms unfolding parse_object_entry_def by (simp add: 1 2 3 4)
  moreover have "is_text label" using 2 by (auto simp: case_prod_beta split: option.splits)
  ultimately show ?thesis using collect_extra_ok [OF 4] by (simp add: entry_ok_def)
qed

lemma parse_object_list_ok:
  "parse_object_list env items sel path p = (es, p') \<Longrightarrow> list_all (\<lambda>e. entry_ok (fst e)) es"
proof (induction env items sel path p arbitrary: es p' rule: parse_object_list.induct)
  case (2 env m items sel path p)
  obtain e order p1 where 1: "parse_object_entry env m sel path p = ((e, order), p1)" by (metis surj_pair)
  obtain es1 p2 where "parse_object_list env items sel path p1 = (es1, p2)" by fastforce
  with 1 "2.IH" [OF 1 [symmetric] refl] "2.prems" parse_object_entry_ok [OF 1] show ?case by auto
qed auto

lemma parse_object_entries_ok:
  assumes "parse_object_entries env items sel path p = (es, p')"
  shows "list_all entry_ok es"
proof -
  obtain xs p1 where xs: "parse_object_list env items sel path p = (xs, p1)" by fastforce
  then show ?thesis
    using assms parse_object_list_ok [OF xs] by (auto simp: parse_object_entries_def list_all_iff split: if_splits)
qed

lemma literal_entries_ok: "list_all entry_ok (literal_entries items)"
  by (auto simp: literal_entries_def literal_entry_def entry_ok_def list_all_iff List.map_filter_def)

lemma parse_file_subtable_ok:
  assumes "parse_file_subtable env subtable p c = (es, p', c')"
  shows "list_all entry_ok es"
proof -
  have "parse_file_entries env subtable path loaded q = (es', q') \<Longrightarrow> list_all entry_ok es'" for path loaded q es' q'
    by (auto simp: parse_file_entries_def parse_file_bare_entries_def parse_file_object_entries_def literal_entries_ok
        case_prod_beta Let_def dest!: parse_object_entries_ok split: if_splits)
  then have loaded: "list_all entry_ok (fst (parse_file_entries env subtable path loaded q))" for path loaded q
    by (metis prod.collapse)
  show ?thesis
    using assms by (auto simp: parse_file_subtable_def Let_def case_prod_beta loaded split: option.splits doc_value.splits prod.splits
        sum.splits)
qed

lemma select_parse_ok:
  assumes "\<And>b. base = Some b \<Longrightarrow> list_all entry_ok (select_entries b)" "select_parse env options base p c = (kind, p', c')"
  shows "kind_ok kind"
proof -
  let ?base = "case base of Some b \<Rightarrow> select_entries b | None \<Rightarrow> []"
  have base: "list_all entry_ok ?base" using assms(1) by (cases base) auto
  have "select_parse_values env v ?base q c = (es, q', c') \<Longrightarrow> list_all entry_ok es" for v q es q' c'
    using base by (auto simp: select_parse_values_def parse_inline_value_objects_def literal_entries_ok
        split: doc_value.splits if_splits prod.splits dest: parse_object_entries_ok parse_file_subtable_ok)
  then have vals: "list_all entry_ok (fst (select_parse_values env v ?base q c))" for v q
    by (metis prod.collapse)
  have "kind = SelectField \<lparr> select_entries = es \<rparr> \<Longrightarrow> list_all entry_ok es \<Longrightarrow> kind_ok kind" for es by simp
  then show ?thesis
    using assms(2) base vals
    unfolding select_parse_def Let_def case_prod_beta raw_value_def by (auto split: option.splits if_splits)
qed

lemma parse_options_ok:
  assumes "\<And>b. base = Some b \<Longrightarrow> kind_ok b" "parse_options env own kind options base c = (parsed, errors, c')"
  shows "kind_ok parsed"
proof -
  have select: "kind_ok t" if "select_parse env options (Option.bind base as_select) p c = (t, p', c')" for t p p' c'
    by (rule select_parse_ok [OF _ that]) (use assms(1) kind_ok_parts(2) in \<open>auto simp: bind_eq_Some_conv\<close>)
  have number: "kind_ok t" if "number_parse env options (Option.bind base as_number) p = (t, p')" for t p p'
  proof -
    have "\<exists>n. t = NumberField n \<and> number_ok n"
      by (rule number_parse_ok [OF _ that]) (use assms(1) kind_ok_parts(1) in \<open>auto simp: bind_eq_Some_conv\<close>)
    then show ?thesis by auto
  qed
  show ?thesis
    using assms(2) by (cases kind) (auto simp: parse_options_def Let_def date_parse_def file_parse_def
        split: prod.splits dest: select number)
qed

definition fields_ok :: "schemas \<Rightarrow> bool" where
  "fields_ok resolved \<longleftrightarrow> (\<forall>(n, s)\<in>set resolved. \<forall>(f, d)\<in>set (schema_fields s). kind_ok (def_kind d))"

lemma resolve_base_ref_Ok:
  "resolve_base_ref ancestors resolved own base = Ok d \<longleftrightarrow>
    (address_schema base = global_schema_name \<or> address_schema base \<in> set ancestors)
    \<and> (\<exists>s. map_of resolved (address_schema base) = Some s \<and> schema_field s (address_field base) = Some d)"
proof -
  have "ok_or e x = Ok d \<longleftrightarrow> x = Some d" for e :: "'a schema_error" and x by (cases x) auto
  then show ?thesis by (auto simp: resolve_base_ref_def bind_eq_Some_conv)
qed

lemma resolve_base_ref_ok: "resolve_base_ref ancestors resolved own base = Ok d \<Longrightarrow> fields_ok resolved \<Longrightarrow> kind_ok (def_kind d)"
  by (fastforce simp: resolve_base_ref_Ok schema_field_def fields_ok_def dest: map_of_SomeD)

lemma field_build_ok:
  assumes "field_build env ancestors resolved own raw c = (Ok (d, ws), c')" "fields_ok resolved"
  shows "kind_ok (def_kind d)" "address_schema own = global_schema_name \<Longrightarrow> \<not> def_required d"
proof -
  obtain rb where rb: "resolve_from_raw ancestors resolved own raw = (Ok rb :: ('a schema_error, resolved_base) result)"
    using assms(1) by (auto simp: field_build_def split: sum.splits)
  obtain kind errors c1 where opts: "parse_options env own (base_tag rb) (raw_options raw)
      (map_option def_kind (base_field rb)) c = (kind, errors, c1)" by (metis surj_pair)
  have base: "kind_ok (def_kind b)" if "base_field rb = Some b" for b
    using rb that resolve_base_ref_ok [OF _ assms(2)]
    by (fastforce simp: resolve_from_raw_def and_then_eq_Ok split: raw_field_source.splits option.splits)
  have d: "def_kind d = kind" "address_schema own = global_schema_name \<Longrightarrow> \<not> def_required d"
    using assms(1) rb opts
    by (auto simp: field_build_def Let_def handle_global_required_def split: if_splits)
  have "kind_ok kind" by (rule parse_options_ok [OF _ opts]) (use base in auto)
  with d show "kind_ok (def_kind d)" "address_schema own = global_schema_name \<Longrightarrow> \<not> def_required d" by simp_all
qed

end
