(* ===== verification/Schema_Graph.thy ===== *)
theory Schema_Graph
  imports Raw_Schemas "HOL-Library.While_Combinator"
begin

text \<open>
  The graph of the \<open>extends\<close> lists of schemas (\<open>src/schema/graph/adjacency.rs\<close>,
  \<open>src/schema/graph/builder.rs\<close>, \<open>src/schema/graph/cycle.rs\<close>, \<open>src/schema/graph.rs\<close>): its compressed
  adjacency over dense indices, the topological sort that fills it, the search for cycles in what the
  sort leaves, and the sets of descendants.  A \<open>u32\<close> is a number with the saturation written out.  The
  work stack and the component stack of the search are lists with their top first.  The loops that the
  code ends by running out of work are \<open>while_option\<close>, so a loop that does not end is \<open>None\<close>.
\<close>

section \<open>Adjacency\<close>

definition u32_max :: nat where "u32_max = 2 ^ 32 - 1"

definition sat_u32 :: "nat \<Rightarrow> nat" where "sat_u32 n = min n u32_max"

text \<open>Evaluation of a small number does not look at the bound.\<close>

lemma sat_u32_code [code]: "sat_u32 n = (if n < 256 then n else min n u32_max)"
  by (simp add: sat_u32_def u32_max_def)

lemma sat_u32_exact: "n \<le> u32_max \<Longrightarrow> sat_u32 n = n"
  by (simp add: sat_u32_def)

type_synonym edge = "nat \<times> nat"

record schema_adjacency =
  adj_excluded :: string
  adj_names :: "string list"
  adj_index_of :: "(string \<times> nat) list"
  declared_parents :: "(string \<times> string list) list"
  child_offsets :: "nat list"
  child_targets :: "nat list"

fun keep_first :: "'a list \<Rightarrow> 'a list \<Rightarrow> 'a list" where
  "keep_first seen [] = []"
| "keep_first seen (x # xs) = (if x \<in> set seen then keep_first seen xs else x # keep_first (x # seen) xs)"

definition dedupe_declared_parents :: "raw_schemas \<Rightarrow> (string \<times> string list) list" where
  "dedupe_declared_parents raw = map (\<lambda>(name, rs). (name, keep_first [] (raw_extends rs))) raw"

definition assign_indices :: "raw_schemas \<Rightarrow> string \<Rightarrow> string list \<times> (string \<times> nat) list" where
  "assign_indices raw excluded = (let names = filter (\<lambda>name. name \<noteq> excluded) (map fst raw)
     in (names, map (\<lambda>(i, name). (name, sat_u32 i)) (enumerate 0 names)))"

fun validate_targets ::
  "string \<Rightarrow> (string \<times> nat) list \<Rightarrow> nat \<Rightarrow> string \<Rightarrow> string list \<Rightarrow> string list \<Rightarrow> edge list \<times> schema_warning list"
where
  "validate_targets excluded index_of i name seen [] = ([], [])"
| "validate_targets excluded index_of i name seen (target # targets) =
     (if target = excluded then validate_targets excluded index_of i name seen targets
      else if target \<in> set seen then
        (let (edges, warnings) = validate_targets excluded index_of i name seen targets
         in (edges, DuplicateExtendsTarget name target # warnings))
      else (let (edges, warnings) = validate_targets excluded index_of i name (target # seen) targets
         in case map_of index_of target of
              None \<Rightarrow> (edges, MissingExtendsTarget name target # warnings)
            | Some target_index \<Rightarrow> ((sat_u32 i, target_index) # edges, warnings)))"

definition validate_edges ::
  "raw_schemas \<Rightarrow> string \<Rightarrow> string list \<Rightarrow> (string \<times> nat) list \<Rightarrow> edge list \<times> schema_warning list"
where
  "validate_edges raw excluded names index_of =
     (let results = map (\<lambda>(i, name). case map_of raw name of
            Some rs \<Rightarrow> validate_targets excluded index_of i name [] (raw_extends rs) | None \<Rightarrow> ([], []))
          (enumerate 0 names)
      in (concat (map fst results), concat (map snd results)))"

definition out_degrees :: "edge list \<Rightarrow> nat \<Rightarrow> nat list" where
  "out_degrees edges nodes = fold (\<lambda>(source, target). slice_modify target (\<lambda>d. sat_u32 (d + 1))) edges (replicate nodes 0)"

fun running_sums :: "nat \<Rightarrow> nat list \<Rightarrow> nat list" where
  "running_sums running [] = []"
| "running_sums running (out # outs) = (let next = sat_u32 (running + out) in next # running_sums next outs)"

definition fill_target :: "edge \<Rightarrow> nat list \<times> nat list \<Rightarrow> nat list \<times> nat list" where
  "fill_target = (\<lambda>(source, target) (cursor, targets). case slice_get cursor target of
       None \<Rightarrow> (cursor, targets)
     | Some slot \<Rightarrow> (slice_modify target (\<lambda>s. sat_u32 (s + 1)) cursor, slice_modify slot (\<lambda>_. source) targets))"

definition build_csr :: "edge list \<Rightarrow> nat \<Rightarrow> nat list \<times> nat list" where
  "build_csr edges nodes = (let offsets = 0 # running_sums 0 (out_degrees edges nodes)
     in (offsets, snd (fold fill_target edges (take nodes offsets, replicate (last offsets) 0))))"

definition adjacency_build :: "raw_schemas \<Rightarrow> string \<Rightarrow> schema_adjacency \<times> schema_warning list" where
  "adjacency_build raw excluded =
     (let (names, index_of) = assign_indices raw excluded;
          (edges, warnings) = validate_edges raw excluded names index_of;
          (offsets, targets) = build_csr edges (length names)
      in (\<lparr> adj_excluded = excluded, adj_names = names, adj_index_of = index_of,
            declared_parents = dedupe_declared_parents raw,
            child_offsets = offsets, child_targets = targets \<rparr>, warnings))"

definition slice_range :: "nat \<Rightarrow> nat \<Rightarrow> 'a list \<Rightarrow> 'a list option" where
  "slice_range start end_pos xs =
     (if start \<le> end_pos \<and> end_pos \<le> length xs then Some (take (end_pos - start) (drop start xs)) else None)"

definition children_slice :: "schema_adjacency \<Rightarrow> nat \<Rightarrow> nat list" where
  "children_slice adj node =
     (case (slice_get (child_offsets adj) node, slice_get (child_offsets adj) (sat_add node 1)) of
        (Some start, Some end_pos) \<Rightarrow>
          (case slice_range start end_pos (child_targets adj) of Some children \<Rightarrow> children | None \<Rightarrow> [])
      | _ \<Rightarrow> [])"

text \<open>Sorting the children of a node in place.\<close>

definition sort_children :: "(nat list \<Rightarrow> nat list) \<Rightarrow> nat \<Rightarrow> schema_adjacency \<Rightarrow> schema_adjacency" where
  "sort_children sorter node adj =
     (case (slice_get (child_offsets adj) node, slice_get (child_offsets adj) (sat_add node 1)) of
        (Some start, Some end_pos) \<Rightarrow>
          (case slice_range start end_pos (child_targets adj) of
             Some children \<Rightarrow> adj \<lparr> child_targets := take start (child_targets adj) @ sorter children
               @ drop end_pos (child_targets adj) \<rparr>
           | None \<Rightarrow> adj)
      | _ \<Rightarrow> adj)"

definition adj_parents_of :: "schema_adjacency \<Rightarrow> string \<Rightarrow> string list" where
  "adj_parents_of adj name = (if name = adj_excluded adj then []
     else case map_of (declared_parents adj) name of Some parents \<Rightarrow> parents | None \<Rightarrow> [])"

definition index_of :: "schema_adjacency \<Rightarrow> string \<Rightarrow> nat option" where
  "index_of adj name = map_of (adj_index_of adj) name"

definition name_of :: "schema_adjacency \<Rightarrow> nat \<Rightarrow> string option" where
  "name_of adj node = slice_get (adj_names adj) node"

definition node_count :: "schema_adjacency \<Rightarrow> nat" where
  "node_count adj = length (adj_names adj)"

definition compute_topo_rank :: "schema_adjacency \<Rightarrow> string list \<Rightarrow> nat list" where
  "compute_topo_rank adj topo_order =
     fold (\<lambda>(r, name) rank. case index_of adj name of
          Some index \<Rightarrow> slice_modify index (\<lambda>_. sat_u32 r) rank | None \<Rightarrow> rank)
       (enumerate 0 topo_order) (replicate (node_count adj) u32_max)"

section \<open>Topological sort\<close>

record graph_builder =
  gb_adjacency :: schema_adjacency
  unresolved_parent_count :: "nat list"
  ready_queue :: "nat list"
  gb_visited :: "string list"

definition unresolved_counts :: "schema_adjacency \<Rightarrow> nat list" where
  "unresolved_counts adj =
     fold (\<lambda>child. slice_modify child (\<lambda>n. sat_u32 (n + 1))) (child_targets adj) (replicate (node_count adj) 0)"

definition graph_builder_new :: "raw_schemas \<Rightarrow> string \<Rightarrow> graph_builder \<times> schema_warning list" where
  "graph_builder_new raw excluded = (let (adj, warnings) = adjacency_build raw excluded;
       counts = unresolved_counts adj
     in (\<lparr> gb_adjacency = adj, unresolved_parent_count = counts,
           ready_queue = filter (\<lambda>i. slice_get counts i = Some 0) [0..<sat_u32 (node_count adj)],
           gb_visited = [] \<rparr>, warnings))"

text \<open>\<open>IndexSet::insert\<close>.\<close>

definition set_insert :: "'a \<Rightarrow> 'a list \<Rightarrow> 'a list" where
  "set_insert x xs = (if x \<in> set xs then xs else xs @ [x])"

definition next_ready :: "graph_builder \<Rightarrow> string option \<times> graph_builder" where
  "next_ready b = (case ready_queue b of
       [] \<Rightarrow> (None, b)
     | i # queue \<Rightarrow> (case name_of (gb_adjacency b) i of
           None \<Rightarrow> (None, b \<lparr> ready_queue := queue \<rparr>)
         | Some name \<Rightarrow> (Some name, b \<lparr> ready_queue := queue, gb_visited := set_insert name (gb_visited b) \<rparr>)))"

definition release_child :: "nat \<Rightarrow> nat list \<times> nat list \<Rightarrow> nat list \<times> nat list" where
  "release_child child = (\<lambda>(counts, queue). case slice_get counts child of
       None \<Rightarrow> (counts, queue)
     | Some n \<Rightarrow> (counts[child := n - 1], if n - 1 = 0 then queue @ [child] else queue))"

definition mark_resolved :: "string \<Rightarrow> graph_builder \<Rightarrow> graph_builder" where
  "mark_resolved name b = (case index_of (gb_adjacency b) name of
       None \<Rightarrow> b
     | Some i \<Rightarrow> let (counts, queue) = fold release_child (children_slice (gb_adjacency b) i)
           (unresolved_parent_count b, ready_queue b)
         in b \<lparr> unresolved_parent_count := counts, ready_queue := queue \<rparr>)"

definition resolve_next :: "graph_builder \<Rightarrow> graph_builder" where
  "resolve_next b = (case next_ready b of (Some name, b') \<Rightarrow> mark_resolved name b' | (None, b') \<Rightarrow> b')"

definition drain_ready :: "graph_builder \<Rightarrow> graph_builder option" where
  "drain_ready b = map_option (\<lambda>b. snd (next_ready b)) (while_option (\<lambda>b. fst (next_ready b) \<noteq> None) resolve_next b)"

section \<open>Search for cycles\<close>

record cycle_search =
  discovery_order :: "nat option list"
  lowest_reachable :: "nat list"
  on_stack :: "bool list"
  component_stack :: "nat list"
  next_discovery_order :: nat

definition cycle_search_new :: "nat \<Rightarrow> cycle_search" where
  "cycle_search_new nodes = \<lparr> discovery_order = replicate nodes None, lowest_reachable = replicate nodes 0,
     on_stack = replicate nodes False, component_stack = [], next_discovery_order = 0 \<rparr>"

definition discovery_order_of :: "cycle_search \<Rightarrow> nat \<Rightarrow> nat option" where
  "discovery_order_of s node = (case slice_get (discovery_order s) node of Some d \<Rightarrow> d | None \<Rightarrow> None)"

definition is_discovered :: "cycle_search \<Rightarrow> nat \<Rightarrow> bool" where
  "is_discovered s node \<longleftrightarrow> discovery_order_of s node \<noteq> None"

definition lowest_reachable_of :: "cycle_search \<Rightarrow> nat \<Rightarrow> nat option" where
  "lowest_reachable_of s node = slice_get (lowest_reachable s) node"

definition is_on_stack :: "cycle_search \<Rightarrow> nat \<Rightarrow> bool" where
  "is_on_stack s node \<longleftrightarrow> slice_get (on_stack s) node = Some True"

definition discover :: "nat \<Rightarrow> cycle_search \<Rightarrow> cycle_search" where
  "discover node s = (let rank = next_discovery_order s in
     s \<lparr> next_discovery_order := sat_u32 (rank + 1),
         discovery_order := slice_modify node (\<lambda>_. Some rank) (discovery_order s),
         lowest_reachable := slice_modify node (\<lambda>_. rank) (lowest_reachable s),
         component_stack := node # component_stack s,
         on_stack := slice_modify node (\<lambda>_. True) (on_stack s) \<rparr>)"

definition lower_reachable :: "nat \<Rightarrow> nat \<Rightarrow> cycle_search \<Rightarrow> cycle_search" where
  "lower_reachable node candidate s =
     s \<lparr> lowest_reachable := slice_modify node (\<lambda>low. min low candidate) (lowest_reachable s) \<rparr>"

fun pop_loop :: "nat \<Rightarrow> nat list \<Rightarrow> bool list \<Rightarrow> nat list \<times> nat list \<times> bool list" where
  "pop_loop root [] flags = ([], [], flags)"
| "pop_loop root (popped # stack) flags = (let flags = slice_modify popped (\<lambda>_. False) flags in
     if popped = root then ([popped], stack, flags)
     else (let (component, stack, flags) = pop_loop root stack flags in (popped # component, stack, flags)))"

definition pop_component :: "nat \<Rightarrow> cycle_search \<Rightarrow> nat list \<times> cycle_search" where
  "pop_component root s = (let (component, stack, flags) = pop_loop root (component_stack s) (on_stack s)
     in (component, s \<lparr> component_stack := stack, on_stack := flags \<rparr>))"

record cycle_detector =
  cd_adjacency :: schema_adjacency
  cd_visited :: "string list"
  cd_search :: cycle_search
  cd_cyclic :: "string list"

definition cycle_detector_new :: "schema_adjacency \<Rightarrow> string list \<Rightarrow> cycle_detector" where
  "cycle_detector_new adj visited = \<lparr> cd_adjacency = adj, cd_visited = visited,
     cd_search = cycle_search_new (node_count adj), cd_cyclic = [] \<rparr>"

definition is_kahn_visited :: "cycle_detector \<Rightarrow> nat \<Rightarrow> bool" where
  "is_kahn_visited d node \<longleftrightarrow> (case name_of (cd_adjacency d) node of
     Some name \<Rightarrow> name \<in> set (cd_visited d) | None \<Rightarrow> False)"

fun scan_parents :: "cycle_detector \<Rightarrow> string list \<Rightarrow> nat \<Rightarrow> (nat \<times> nat) option" where
  "scan_parents d [] pos = None"
| "scan_parents d (parent # parents) pos =
     (if parent \<in> set (cd_visited d) then scan_parents d parents (sat_add pos 1)
      else case index_of (cd_adjacency d) parent of
          Some target \<Rightarrow> Some (target, sat_add pos 1)
        | None \<Rightarrow> scan_parents d parents (sat_add pos 1))"

definition next_unvisited_parent :: "cycle_detector \<Rightarrow> nat \<Rightarrow> nat \<Rightarrow> (nat \<times> nat) option" where
  "next_unvisited_parent d node pos = (case name_of (cd_adjacency d) node of
       None \<Rightarrow> None
     | Some name \<Rightarrow> scan_parents d (drop pos (adj_parents_of (cd_adjacency d) name)) pos)"

definition has_self_extend :: "cycle_detector \<Rightarrow> nat \<Rightarrow> bool" where
  "has_self_extend d node \<longleftrightarrow> (case name_of (cd_adjacency d) node of
       None \<Rightarrow> False
     | Some name \<Rightarrow> list_ex (\<lambda>parent. parent \<notin> set (cd_visited d) \<and> index_of (cd_adjacency d) parent = Some node)
         (adj_parents_of (cd_adjacency d) name))"

type_synonym work_stack = "(nat \<times> nat) list"

fun advance :: "nat \<Rightarrow> nat \<Rightarrow> nat \<Rightarrow> cycle_detector \<times> work_stack \<Rightarrow> cycle_detector \<times> work_stack" where
  "advance node parent resume_at (d, stack) =
     (let stack = (case stack of (current, _) # frames \<Rightarrow> (current, resume_at) # frames | [] \<Rightarrow> []) in
      if \<not> is_discovered (cd_search d) parent then (d, (parent, 0) # stack)
      else if \<not> is_on_stack (cd_search d) parent then (d, stack)
      else case discovery_order_of (cd_search d) parent of
          Some parent_order \<Rightarrow> (d \<lparr> cd_search := lower_reachable node parent_order (cd_search d) \<rparr>, stack)
        | None \<Rightarrow> (d, stack))"

definition record_cyclic_component :: "nat \<Rightarrow> cycle_detector \<Rightarrow> cycle_detector" where
  "record_cyclic_component node d =
     (if discovery_order_of (cd_search d) node = None
        \<or> discovery_order_of (cd_search d) node \<noteq> lowest_reachable_of (cd_search d) node then d
      else let (component, search) = pop_component node (cd_search d); d = d \<lparr> cd_search := search \<rparr> in
        if length component > 1 \<or> has_self_extend d node
        then d \<lparr> cd_cyclic := cd_cyclic d @ List.map_filter (name_of (cd_adjacency d)) (sort component) \<rparr>
        else d)"

fun finish_node :: "nat \<Rightarrow> cycle_detector \<times> work_stack \<Rightarrow> cycle_detector \<times> work_stack" where
  "finish_node node (d, stack) = (let d = record_cyclic_component node d in
     case tl stack of
       [] \<Rightarrow> (d, [])
     | (parent, pos) # frames \<Rightarrow> (case lowest_reachable_of (cd_search d) node of
           Some node_lowest \<Rightarrow> (d \<lparr> cd_search := lower_reachable parent node_lowest (cd_search d) \<rparr>, (parent, pos) # frames)
         | None \<Rightarrow> (d, (parent, pos) # frames)))"

fun explore_step :: "cycle_detector \<times> work_stack \<Rightarrow> cycle_detector \<times> work_stack" where
  "explore_step (d, []) = (d, [])"
| "explore_step (d, (node, scan_pos) # frames) =
     (let d = (if scan_pos = 0 then d \<lparr> cd_search := discover node (cd_search d) \<rparr> else d) in
      case next_unvisited_parent d node scan_pos of
        Some (parent, next_pos) \<Rightarrow> advance node parent next_pos (d, (node, scan_pos) # frames)
      | None \<Rightarrow> finish_node node (d, (node, scan_pos) # frames))"

definition explore_from :: "nat \<Rightarrow> cycle_detector \<Rightarrow> cycle_detector option" where
  "explore_from start d = map_option fst (while_option (\<lambda>(d, stack). stack \<noteq> []) explore_step (d, [(start, 0)]))"

fun explore_all :: "nat list \<Rightarrow> cycle_detector \<Rightarrow> cycle_detector option" where
  "explore_all [] d = Some d"
| "explore_all (start # starts) d =
     (if is_kahn_visited d start \<or> is_discovered (cd_search d) start then explore_all starts d
      else Option.bind (explore_from start d) (explore_all starts))"

definition find_cyclic :: "cycle_detector \<Rightarrow> string list option" where
  "find_cyclic d = (if length (cd_visited d) = node_count (cd_adjacency d) then Some []
     else map_option cd_cyclic (explore_all [0..<sat_u32 (node_count (cd_adjacency d))] d))"

section \<open>The finished graph\<close>

record schema_graph =
  sg_adjacency :: schema_adjacency
  topo_order :: "string list"
  topo_rank :: "nat list"

definition rank_of :: "nat list \<Rightarrow> nat \<Rightarrow> nat" where
  "rank_of rank node = (case slice_get rank node of Some r \<Rightarrow> r | None \<Rightarrow> u32_max)"

definition graph_build :: "graph_builder \<Rightarrow> (string list, schema_graph) result option" where
  "graph_build b =
     Option.bind (drain_ready b) (\<lambda>b.
     Option.bind (find_cyclic (cycle_detector_new (gb_adjacency b) (gb_visited b))) (\<lambda>cyclic.
       if cyclic \<noteq> [] then Some (Err cyclic)
       else (let rank = compute_topo_rank (gb_adjacency b) (gb_visited b) in
         Some (Ok \<lparr> sg_adjacency = fold (sort_children (sort_key (rank_of rank)))
                [0..<sat_u32 (node_count (gb_adjacency b))] (gb_adjacency b),
              topo_order = gb_visited b, topo_rank = rank \<rparr>))))"

section \<open>Descendants\<close>

record descendant_accumulator =
  acc_seen :: "bool list"
  acc_descendants :: "nat list list"
  acc_rank :: "nat list"

definition accumulator_new :: "nat \<Rightarrow> nat list \<Rightarrow> descendant_accumulator" where
  "accumulator_new nodes rank = \<lparr> acc_seen = replicate nodes False, acc_descendants = replicate nodes [], acc_rank = rank \<rparr>"

fun note_descendant :: "nat \<Rightarrow> bool list \<times> nat list \<Rightarrow> bool list \<times> nat list" where
  "note_descendant d (seen, found) =
     (if slice_get seen d = Some True then (seen, found) else (seen[d := True], found @ [d]))"

definition merge_child_into ::
  "nat list list \<Rightarrow> nat \<Rightarrow> bool list \<times> nat list \<Rightarrow> bool list \<times> nat list"
where
  "merge_child_into descendants child = (\<lambda>(seen, found).
     if slice_get seen child = Some True then (seen, found)
     else (let state = (seen[child := True], found @ [child]) in
       case slice_get descendants child of
         Some child_descendants \<Rightarrow> fold note_descendant child_descendants state
       | None \<Rightarrow> state))"

definition accumulate :: "nat \<Rightarrow> nat list \<Rightarrow> descendant_accumulator \<Rightarrow> descendant_accumulator" where
  "accumulate node children a = (case slice_get (acc_descendants a) node of
       None \<Rightarrow> a
     | Some old \<Rightarrow>
         let taken = (acc_descendants a)[node := []];
             (seen, found) = fold (merge_child_into taken) children (acc_seen a, old);
             found = sort_key (rank_of (acc_rank a)) found
         in a \<lparr> acc_seen := fold (\<lambda>d seen. seen[d := False]) found seen,
                acc_descendants := taken[node := found] \<rparr>)"

definition descendant_indices :: "schema_graph \<Rightarrow> nat list list" where
  "descendant_indices g = acc_descendants (fold (\<lambda>name a. case index_of (sg_adjacency g) name of
         None \<Rightarrow> a
       | Some node \<Rightarrow> accumulate node (children_slice (sg_adjacency g) node) a)
     (rev (topo_order g)) (accumulator_new (node_count (sg_adjacency g)) (topo_rank g)))"

definition resolve_names :: "schema_adjacency \<Rightarrow> nat list \<Rightarrow> string \<Rightarrow> (string \<Rightarrow> string \<Rightarrow> bool) \<Rightarrow> string list" where
  "resolve_names adj indices ancestor keep =
     keep_first [] (filter (\<lambda>name. keep name ancestor) (List.map_filter (name_of adj) indices))"

definition hierarchy :: "schema_graph \<Rightarrow> (string \<Rightarrow> string \<Rightarrow> bool) \<Rightarrow> (string \<times> string list \<times> string list) list" where
  "hierarchy g keep = (let adj = sg_adjacency g; descendants = descendant_indices g in
     map (\<lambda>(i, name). (name, resolve_names adj (children_slice adj (sat_u32 i)) name keep,
         resolve_names adj (case slice_get descendants i of Some ds \<Rightarrow> ds | None \<Rightarrow> []) name keep))
       (enumerate 0 (adj_names adj)))"

definition topological_order :: "schema_graph \<Rightarrow> string list" where
  "topological_order g = topo_order g"

definition sg_parents_of :: "schema_graph \<Rightarrow> string \<Rightarrow> string list" where
  "sg_parents_of g name = adj_parents_of (sg_adjacency g) name"

end
