(* ===== verification/Schema_Adjacency.thy ===== *)
theory Schema_Adjacency
  imports Schema_Graph
begin

text \<open>
  What the adjacency of the schema graph holds.  The counting sort of \<open>build_csr\<close> lays the children of
  every node out one after the other (\<open>csr_holds\<close>), and \<open>adj_spec\<close> states what the sort, the cycle search
  and the closure need of an adjacency: its children and its parents are the two sides of one relation.
\<close>

section \<open>Slices of a concatenation\<close>

definition csr_holds :: "nat list \<Rightarrow> nat list \<Rightarrow> nat list list \<Rightarrow> bool" where
  "csr_holds offsets targets ks \<longleftrightarrow>
     offsets = map (\<lambda>i. length (concat (take i ks))) [0..<Suc (length ks)] \<and> targets = concat ks"

lemma length_concat_take_Suc:
  "i < length ks \<Longrightarrow> length (concat (take (Suc i) ks)) = length (concat (take i ks)) + length (ks ! i)"
  by (simp add: take_Suc_conv_app_nth)

lemma length_concat_take_mono: "i \<le> j \<Longrightarrow> length (concat (take i ks)) \<le> length (concat (take j ks))"
proof (induction j)
  case (Suc j)
  then show ?case
    by (cases "i = Suc j"; cases "j < length ks") (auto simp: take_Suc_conv_app_nth)
qed simp

lemma concat_split: "i < length ks \<Longrightarrow> concat ks = concat (take i ks) @ ks ! i @ concat (drop (Suc i) ks)"
  by (subst id_take_nth_drop [of i ks]) simp_all

lemma nth_concat_slice:
  assumes "j < length ks" "k < length (ks ! j)"
  shows "concat ks ! (length (concat (take j ks)) + k) = ks ! j ! k"
  using assms(2) by (subst concat_split [OF assms(1)]) (simp add: nth_append)

lemma concat_position:
  "p < length (concat ks) \<Longrightarrow> \<exists>j k. j < length ks \<and> k < length (ks ! j) \<and> p = length (concat (take j ks)) + k"
proof (induction ks arbitrary: p)
  case (Cons x ks)
  show ?case
  proof (cases "p < length x")
    case True
    then show ?thesis by (intro exI [of _ 0] exI [of _ p]) simp
  next
    case False
    then have "p - length x < length (concat ks)" using Cons.prems by simp
    from Cons.IH [OF this] obtain j k
      where "j < length ks" "k < length (ks ! j)" "p - length x = length (concat (take j ks)) + k" by blast
    with False show ?thesis by (intro exI [of _ "Suc j"] exI [of _ k]) simp
  qed
qed simp

lemma csr_nth:
  "csr_holds offsets targets ks \<Longrightarrow> i \<le> length ks \<Longrightarrow> slice_get offsets i = Some (length (concat (take i ks)))"
  by (simp add: csr_holds_def del: upt_Suc)

lemma csr_slice:
  assumes "csr_holds (child_offsets adj) (child_targets adj) ks" "i < length ks" "length ks \<le> u32_max"
  shows "children_slice adj i = ks ! i"
    and "slice_range (length (concat (take i ks))) (length (concat (take (Suc i) ks))) (child_targets adj) = Some (ks ! i)"
proof -
  have "sat_add i 1 = Suc i" using assms by (simp add: sat_add_def u32_max_def usize_max_def)
  note offsets = csr_nth [OF assms(1), of i] csr_nth [OF assms(1), of "Suc i"]
  have targets: "child_targets adj = concat (take i ks) @ ks ! i @ concat (drop (Suc i) ks)"
    using assms(1,2) concat_split by (simp add: csr_holds_def)
  show range: "slice_range (length (concat (take i ks))) (length (concat (take (Suc i) ks))) (child_targets adj) = Some (ks ! i)"
    using assms(2) by (simp add: slice_range_def targets length_concat_take_Suc)
  with offsets assms(2) \<open>sat_add i 1 = Suc i\<close> show "children_slice adj i = ks ! i"
    by (simp add: children_slice_def)
qed

lemma length_concat_take: "length (concat (take i ks)) = sum_list (take i (map length ks))"
  by (simp only: length_concat take_map)

lemma concat_take_update:
  assumes "length x = length (ks ! i)" "i < length ks"
  shows "length (concat (take j (ks[i := x]))) = length (concat (take j ks))"
proof -
  have "map length (ks[i := x]) = map length ks" using assms by (simp add: map_update list_update_same_conv)
  then show ?thesis by (simp only: length_concat_take)
qed

lemma csr_sort_children:
  assumes "csr_holds (child_offsets adj) (child_targets adj) ks" "i < length ks" "length ks \<le> u32_max"
    "length (f (ks ! i)) = length (ks ! i)"
  shows "csr_holds (child_offsets (sort_children f i adj)) (child_targets (sort_children f i adj)) (ks[i := f (ks ! i)])"
    and "\<exists>targets. sort_children f i adj = adj \<lparr> child_targets := targets \<rparr>"
proof -
  have "sat_add i 1 = Suc i" using assms by (simp add: sat_add_def u32_max_def usize_max_def)
  note offsets = csr_nth [OF assms(1), of i] csr_nth [OF assms(1), of "Suc i"]
  have targets: "child_targets adj = concat (take i ks) @ ks ! i @ concat (drop (Suc i) ks)"
    using assms(1,2) concat_split by (simp add: csr_holds_def)
  have eq: "sort_children f i adj = adj \<lparr> child_targets := concat (take i ks) @ f (ks ! i) @ concat (drop (Suc i) ks) \<rparr>"
    using offsets assms(2) csr_slice(2) [OF assms(1-3)] \<open>sat_add i 1 = Suc i\<close>
    by (simp add: sort_children_def targets length_concat_take_Suc)
  moreover have "concat (ks[i := f (ks ! i)]) = concat (take i ks) @ f (ks ! i) @ concat (drop (Suc i) ks)"
    using assms(2) by (simp add: upd_conv_take_nth_drop)
  moreover have "child_offsets adj = map (\<lambda>j. length (concat (take j (ks[i := f (ks ! i)])))) [0..<Suc (length ks)]"
    using assms(1) concat_take_update [OF assms(4,2)] by (simp add: csr_holds_def del: upt_Suc)
  ultimately show "csr_holds (child_offsets (sort_children f i adj)) (child_targets (sort_children f i adj)) (ks[i := f (ks ! i)])"
    and "\<exists>targets. sort_children f i adj = adj \<lparr> child_targets := targets \<rparr>"
    by (auto simp: csr_holds_def)
qed

section \<open>The counting sort\<close>

definition kids :: "edge list \<Rightarrow> nat \<Rightarrow> nat list" where
  "kids edges j = map fst (filter (\<lambda>e. snd e = j) edges)"

lemma kids_simps [simp]:
  "kids [] j = []" "kids (edges @ [(s, t)]) j = kids edges j @ (if t = j then [s] else [])"
  by (simp_all add: kids_def)

lemma length_kids_le: "length (kids edges j) \<le> length edges"
  by (simp add: kids_def)

lemma sum_kids: "list_all (\<lambda>e. snd e < n) edges \<Longrightarrow> (\<Sum>j<n. length (kids edges j)) = length edges"
proof (induction edges rule: rev_induct)
  case (snoc e edges)
  have "(\<Sum>j<n. length (kids (edges @ [e]) j)) = (\<Sum>j<n. length (kids edges j) + (if snd e = j then 1 else 0))"
    by (intro sum.cong) (cases e; simp)+
  also have "\<dots> = (\<Sum>j<n. length (kids edges j)) + 1" using snoc.prems by (simp add: sum.distrib)
  finally show ?case using snoc by simp
qed simp

lemma out_degrees_kids:
  "length edges \<le> u32_max \<Longrightarrow> list_all (\<lambda>e. snd e < n) edges
    \<Longrightarrow> out_degrees edges n = map (\<lambda>j. length (kids edges j)) [0..<n]"
proof (induction edges rule: rev_induct)
  case Nil
  show ?case by (simp add: out_degrees_def map_replicate_const)
next
  case (snoc e edges)
  obtain s t where e: "e = (s, t)" by (cases e)
  have "out_degrees (edges @ [e]) n = slice_modify t (\<lambda>d. sat_u32 (d + 1)) (map (\<lambda>j. length (kids edges j)) [0..<n])"
    using snoc by (simp add: out_degrees_def e)
  also have "\<dots> = map (\<lambda>j. length (kids (edges @ [e]) j)) [0..<n]"
  proof (rule nth_equalityI)
    fix j
    assume "j < length (slice_modify t (\<lambda>d. sat_u32 (d + 1)) (map (\<lambda>j. length (kids edges j)) [0..<n]))"
    moreover have "length (kids edges t) + 1 \<le> u32_max"
      using snoc.prems(1) length_kids_le [of edges t] by simp
    ultimately show "slice_modify t (\<lambda>d. sat_u32 (d + 1)) (map (\<lambda>j. length (kids edges j)) [0..<n]) ! j
        = map (\<lambda>j. length (kids (edges @ [e]) j)) [0..<n] ! j"
      by (auto simp: nth_slice_modify e sat_u32_def)
  qed simp
  finally show ?case .
qed

lemma running_sums_exact:
  "r + sum_list outs \<le> u32_max \<Longrightarrow> running_sums r outs = map (\<lambda>i. r + sum_list (take (Suc i) outs)) [0..<length outs]"
proof (induction outs arbitrary: r)
  case (Cons x outs)
  have "map (\<lambda>i. r + sum_list (take (Suc i) (x # outs))) [0..<length (x # outs)]
      = (r + x) # map (\<lambda>i. (r + x) + sum_list (take (Suc i) outs)) [0..<length outs]"
    by (simp add: upt_conv_Cons map_Suc_upt [symmetric] del: upt_Suc)
  with Cons show ?case by (simp add: sat_u32_def Let_def)
qed simp

lemma offsets_kids:
  assumes "length edges \<le> u32_max" "list_all (\<lambda>e. snd e < n) edges"
  shows "0 # running_sums 0 (out_degrees edges n)
    = map (\<lambda>i. length (concat (take i (map (kids edges) [0..<n])))) [0..<Suc n]"
proof -
  let ?ks = "map (kids edges) [0..<n]"
  have degrees: "out_degrees edges n = map length ?ks" using out_degrees_kids [OF assms] by simp
  have "sum_list (map length ?ks) = (\<Sum>j<n. length (kids edges j))"
    by (simp add: comp_def sum_list_distinct_conv_sum_set atLeast0LessThan)
  then have "sum_list (map length ?ks) \<le> u32_max" using sum_kids [OF assms(2)] assms(1) by simp
  then have "running_sums 0 (out_degrees edges n) = map (\<lambda>i. sum_list (take (Suc i) (map length ?ks))) [0..<n]"
    using running_sums_exact [of 0 "map length ?ks"] by (simp add: degrees)
  then show ?thesis by (simp add: map_upt_Suc length_concat_take del: upt_Suc map_map)
qed

lemma fill_kids:
  assumes "list_all (\<lambda>e. snd e < n) (pre @ todo)" "length (pre @ todo) \<le> u32_max"
    "length cursor = n" "\<forall>j<n. cursor ! j = off j + length (kids pre j)"
    "\<forall>i<n. \<forall>j<n. i < j \<longrightarrow> off i + length (kids (pre @ todo) i) \<le> off j"
    "\<forall>j<n. off j + length (kids (pre @ todo) j) \<le> length targets"
    "length targets \<le> u32_max"
    "\<forall>j<n. \<forall>k<length (kids pre j). targets ! (off j + k) = kids pre j ! k"
  shows "length (snd (fold fill_target todo (cursor, targets))) = length targets
    \<and> (\<forall>j<n. \<forall>k<length (kids (pre @ todo) j).
      snd (fold fill_target todo (cursor, targets)) ! (off j + k) = kids (pre @ todo) j ! k)"
  using assms
proof (induction todo arbitrary: "pre" cursor targets)
  case (Cons e todo)
  obtain s t where e: "e = (s, t)" by (cases e)
  have t: "t < n" using Cons.prems(1) e by simp
  let ?slot = "off t + length (kids pre t)"
  let ?targets = "targets[?slot := s]"
  let ?cursor = "cursor[t := ?slot + 1]"
  have room: "\<forall>j<n. length (kids (pre @ [e]) j) \<le> length (kids (pre @ e # todo) j)"
    by (simp add: kids_def)
  then have slot: "?slot < length targets"
    using Cons.prems(6) t e by (fastforce simp: kids_def)
  have step: "fill_target e (cursor, targets) = (?cursor, ?targets)"
    using Cons.prems(3,4,7) t slot by (simp add: fill_target_def e slice_modify_def sat_u32_def)
  have apart: "off j + k \<noteq> ?slot" if "j < n" "j \<noteq> t" "k < length (kids pre j)" for j k
  proof (cases "j < t")
    case True
    then have "off j + length (kids (pre @ e # todo) j) \<le> off t" using Cons.prems(5) that(1) t by blast
    moreover have "length (kids pre j) \<le> length (kids (pre @ e # todo) j)" by (simp add: kids_def)
    ultimately show ?thesis using that(3) by linarith
  next
    case False
    then have "off t + length (kids (pre @ e # todo) t) \<le> off j" using Cons.prems(5) that t by simp
    moreover have "length (kids pre t) < length (kids (pre @ e # todo) t)" by (simp add: kids_def e)
    ultimately show ?thesis by linarith
  qed
  have placed: "\<forall>j<n. \<forall>k<length (kids (pre @ [e]) j). ?targets ! (off j + k) = kids (pre @ [e]) j ! k"
  proof (intro allI impI)
    fix j k
    assume jk: "j < n" "k < length (kids (pre @ [e]) j)"
    show "?targets ! (off j + k) = kids (pre @ [e]) j ! k"
    proof (cases "j = t")
      case True
      then show ?thesis using jk Cons.prems(8) slot t
        by (auto simp: e nth_append nth_list_update less_Suc_eq)
    next
      case False
      then show ?thesis using jk Cons.prems(8) apart [of j k] slot by (simp add: e)
    qed
  qed
  have "length (snd (fold fill_target todo (?cursor, ?targets))) = length ?targets
    \<and> (\<forall>j<n. \<forall>k<length (kids ((pre @ [e]) @ todo) j).
      snd (fold fill_target todo (?cursor, ?targets)) ! (off j + k) = kids ((pre @ [e]) @ todo) j ! k)"
  proof (rule Cons.IH)
    show "\<forall>j<n. ?cursor ! j = off j + length (kids (pre @ [e]) j)"
      using Cons.prems(3,4) t by (auto simp: e nth_list_update)
  qed (use Cons.prems placed in simp_all)
  then show ?case by (simp add: step)
qed simp

lemma build_csr_holds:
  assumes "length edges \<le> u32_max" "list_all (\<lambda>e. snd e < n) edges" "build_csr edges n = (offsets, targets)"
  shows "csr_holds offsets targets (map (kids edges) [0..<n])"
proof -
  let ?ks = "map (kids edges) [0..<n]"
  let ?off = "\<lambda>j. length (concat (take j ?ks))"
  have offsets: "offsets = map ?off [0..<Suc n]"
    using assms(3) offsets_kids [OF assms(1,2)] by (simp add: build_csr_def Let_def del: upt_Suc)
  have total: "length (concat ?ks) = length edges"
    using sum_kids [OF assms(2)] by (simp add: length_concat comp_def sum_list_distinct_conv_sum_set atLeast0LessThan)
  have cursor: "take n offsets = map ?off [0..<n]" by (simp add: offsets)
  have "last offsets = length (concat ?ks)" by (simp add: offsets)
  then have targets: "targets = snd (fold fill_target edges (map ?off [0..<n], replicate (length (concat ?ks)) 0))"
    using assms(3) cursor offsets_kids [OF assms(1,2)] offsets by (auto simp: build_csr_def Let_def simp del: upt_Suc)
  have "length targets = length (replicate (length (concat ?ks)) (0::nat))
    \<and> (\<forall>j<n. \<forall>k<length (kids ([] @ edges) j). targets ! (?off j + k) = kids ([] @ edges) j ! k)"
    unfolding targets
  proof (rule fill_kids [of n "[]" edges "map ?off [0..<n]" ?off "replicate (length (concat ?ks)) 0"])
    show "\<forall>i<n. \<forall>j<n. i < j \<longrightarrow> ?off i + length (kids ([] @ edges) i) \<le> ?off j"
    proof (intro allI impI)
      fix i j
      assume "i < n" "j < n" "i < j"
      then show "?off i + length (kids ([] @ edges) i) \<le> ?off j"
        using length_concat_take_mono [of "Suc i" j ?ks] length_concat_take_Suc [of i ?ks] by simp
    qed
    show "\<forall>j<n. ?off j + length (kids ([] @ edges) j) \<le> length (replicate (length (concat ?ks)) (0::nat))"
    proof (intro allI impI)
      fix j
      assume "j < n"
      then show "?off j + length (kids ([] @ edges) j) \<le> length (replicate (length (concat ?ks)) (0::nat))"
        using length_concat_take_mono [of "Suc j" n ?ks] length_concat_take_Suc [of j ?ks] by simp
    qed
  qed (use assms total in simp_all)
  then have len: "length targets = length (concat ?ks)"
    and at: "\<forall>j<n. \<forall>k<length (kids edges j). targets ! (?off j + k) = kids edges j ! k" by simp_all
  have "targets = concat ?ks"
  proof (rule nth_equalityI [OF len])
    fix p
    assume "p < length targets"
    then obtain j k where jk: "j < length ?ks" "k < length (?ks ! j)" "p = ?off j + k"
      using concat_position [of p ?ks] len by auto
    then show "targets ! p = concat ?ks ! p" using at nth_concat_slice [OF jk(1,2)] by simp
  qed
  with offsets show ?thesis by (simp add: csr_holds_def)
qed

section \<open>Edges\<close>

definition schema_names :: "raw_schemas \<Rightarrow> string \<Rightarrow> string list" where
  "schema_names raw excluded = filter (\<lambda>name. name \<noteq> excluded) (map fst raw)"

text \<open>A schema and one it extends, both known and neither of them the excluded one.\<close>

definition extends_edges :: "raw_schemas \<Rightarrow> string \<Rightarrow> (string \<times> string) set" where
  "extends_edges raw excluded = {(name, target). name \<noteq> excluded \<and> target \<noteq> excluded \<and> target \<in> fst ` set raw
     \<and> (\<exists>rs. map_of raw name = Some rs \<and> target \<in> set (raw_extends rs))}"

definition index_edges :: "raw_schemas \<Rightarrow> string \<Rightarrow> edge set" where
  "index_edges raw excluded = (let names = schema_names raw excluded in
     {(i, j). i < length names \<and> j < length names \<and> (names ! i, names ! j) \<in> extends_edges raw excluded})"

text \<open>What a vault has: the keys of a map, and fewer schemas and \<open>extends\<close> targets than a \<open>u32\<close> counts.\<close>

definition schemas_fit :: "raw_schemas \<Rightarrow> bool" where
  "schemas_fit raw \<longleftrightarrow> distinct (map fst raw) \<and> length raw \<le> u32_max
     \<and> sum_list (map (\<lambda>(name, rs). length (raw_extends rs)) raw) \<le> u32_max"

lemma set_keep_first [simp]: "set (keep_first seen xs) = set xs - set seen"
  by (induction seen xs rule: keep_first.induct) auto

lemma length_keep_first: "length (keep_first seen xs) \<le> length xs"
proof (induction seen xs rule: keep_first.induct)
  case (2 seen x xs)
  then show ?case by (cases "x \<in> set seen") (simp_all add: le_SucI)
qed simp

lemma distinct_keep_first [simp]: "distinct (keep_first seen xs)"
  by (induction seen xs rule: keep_first.induct) auto

lemma keep_first_id: "distinct xs \<Longrightarrow> set seen \<inter> set xs = {} \<Longrightarrow> keep_first seen xs = xs"
  by (induction seen xs rule: keep_first.induct) auto

lemma bex_Cons_minus:
  "t \<notin> set seen \<Longrightarrow> (\<exists>x\<in>set (t # ts) - set seen. P x) \<longleftrightarrow> P t \<or> (\<exists>x\<in>set ts - set (t # seen). P x)"
  by auto

lemma validate_targets_spec:
  assumes inj: "\<forall>t t' j. map_of idx t = Some j \<longrightarrow> map_of idx t' = Some j \<longrightarrow> t = t'"
  shows "(\<forall>e\<in>set (fst (validate_targets ex idx i n seen ts)). fst e = sat_u32 i)
    \<and> distinct (map snd (fst (validate_targets ex idx i n seen ts)))
    \<and> snd ` set (fst (validate_targets ex idx i n seen ts))
      = {j. \<exists>t\<in>set ts - set seen. t \<noteq> ex \<and> map_of idx t = Some j}
    \<and> length (fst (validate_targets ex idx i n seen ts)) \<le> length ts"
proof (induction ts arbitrary: seen)
  case (Cons t ts)
  consider "t = ex" | "t \<noteq> ex" "t \<in> set seen" | "t \<noteq> ex" "t \<notin> set seen" by blast
  then show ?case
  proof cases
    case 1
    then show ?thesis using Cons.IH [of seen] by auto
  next
    case 2
    then have "validate_targets ex idx i n seen (t # ts) = (fst (validate_targets ex idx i n seen ts),
        DuplicateExtendsTarget n t # snd (validate_targets ex idx i n seen ts))"
      by (simp add: case_prod_beta)
    with 2 show ?thesis using Cons.IH [of seen] by auto
  next
    case 3
    obtain es ws where rest: "validate_targets ex idx i n (t # seen) ts = (es, ws)" by fastforce
    note IH = Cons.IH [of "t # seen", unfolded rest fst_conv]
    show ?thesis
    proof (cases "map_of idx t")
      case None
      then have "fst (validate_targets ex idx i n seen (t # ts)) = es" using 3 rest by simp
      moreover have "{j. \<exists>t\<in>set (t # ts) - set seen. t \<noteq> ex \<and> map_of idx t = Some j}
          = {j. \<exists>t\<in>set ts - set (t # seen). t \<noteq> ex \<and> map_of idx t = Some j}"
        using None by auto
      ultimately show ?thesis using IH by simp
    next
      case (Some j)
      then have step: "fst (validate_targets ex idx i n seen (t # ts)) = (sat_u32 i, j) # es" using 3 rest by simp
      have new: "j \<notin> snd ` set es"
      proof
        assume "j \<in> snd ` set es"
        with IH obtain t' where "t' \<in> set ts - set (t # seen)" "map_of idx t' = Some j" by auto
        with inj Some show False by (metis Diff_iff list.set_intros(1))
      qed
      have "{j. \<exists>t\<in>set (t # ts) - set seen. t \<noteq> ex \<and> map_of idx t = Some j}
          = insert j {j. \<exists>t\<in>set ts - set (t # seen). t \<noteq> ex \<and> map_of idx t = Some j}"
        unfolding bex_Cons_minus [OF 3(2)] using 3(1) Some by auto
      then show ?thesis using IH new unfolding step by simp
    qed
  qed
qed simp

lemma kids_concat: "kids (concat ess) j = concat (map (\<lambda>es. kids es j) ess)"
  by (simp add: kids_def filter_concat map_concat comp_def)

lemma kids_one_source:
  "\<forall>e\<in>set es. fst e = i \<Longrightarrow> distinct (map snd es) \<Longrightarrow> kids es j = (if j \<in> snd ` set es then [i] else [])"
proof (induction es)
  case (Cons e es)
  then have "kids es j = []" if "snd e = j" using that by (auto simp: kids_def filter_empty_conv)
  with Cons show ?case by (auto simp: kids_def)
qed (simp add: kids_def)

lemma enumerate_names: "enumerate 0 names = map (\<lambda>i. (i, names ! i)) [0..<length names]"
  by (rule nth_equalityI) (simp_all add: nth_enumerate_eq)

lemma map_at: "map (\<lambda>i. f (xs ! i)) [0..<length xs] = map f xs"
  by (rule nth_equalityI) simp_all

lemma in_map_filter: "y \<in> set (List.map_filter f xs) \<longleftrightarrow> (\<exists>x\<in>set xs. f x = Some y)"
  by (force simp: List.map_filter_def)

lemma index_of_names:
  assumes "distinct names" "length names \<le> u32_max"
  shows "map_of (map (\<lambda>(i, name). (name, sat_u32 i)) (enumerate 0 names)) t = Some j \<longleftrightarrow> j < length names \<and> names ! j = t"
proof -
  let ?idx = "map (\<lambda>(i, name). (name, sat_u32 i)) (enumerate 0 names)"
  have "map fst ?idx = names" by (simp add: enumerate_names comp_def map_nth)
  then have "map_of ?idx t = Some j \<longleftrightarrow> (t, j) \<in> set ?idx" using assms(1) by (intro map_of_eq_Some_iff) simp
  also have "\<dots> \<longleftrightarrow> j < length names \<and> names ! j = t"
    using assms(2) by (auto simp: enumerate_names sat_u32_def image_iff)
  finally show ?thesis .
qed

lemma map_of_rows: "distinct (map fst raw) \<Longrightarrow> (n, rs) \<in> set raw \<Longrightarrow> map_of raw n = Some rs"
  by simp

lemma concat_if: "concat (map (\<lambda>i. if P i then [i] else []) is) = filter P is"
  by (induction "is") simp_all

lemma schema_names_simps:
  assumes "schemas_fit raw"
  shows "distinct (schema_names raw ex)" "length (schema_names raw ex) \<le> u32_max" "ex \<notin> set (schema_names raw ex)"
    "n \<in> set (schema_names raw ex) \<longleftrightarrow> n \<noteq> ex \<and> n \<in> fst ` set raw"
proof -
  have "length (schema_names raw ex) \<le> length raw"
    using length_filter_le [of "\<lambda>n. n \<noteq> ex" "map fst raw"] by (simp add: schema_names_def)
  then show "length (schema_names raw ex) \<le> u32_max" using assms by (simp add: schemas_fit_def)
qed (use assms in \<open>auto simp: schema_names_def schemas_fit_def\<close>)

lemma validated_edges:
  assumes fit: "schemas_fit raw" and names: "names = schema_names raw ex"
    and idx: "idx = map (\<lambda>(i, name). (name, sat_u32 i)) (enumerate 0 names)"
    and edges: "edges = fst (validate_edges raw ex names idx)"
  shows "kids edges j = filter (\<lambda>i. (i, j) \<in> index_edges raw ex) [0..<length names]"
    and "list_all (\<lambda>e. snd e < length names) edges" "length edges \<le> u32_max"
proof -
  note N = schema_names_simps [OF fit, where ex = ex, folded names]
  have at: "map_of idx t = Some k \<longleftrightarrow> k < length names \<and> names ! k = t" for t k
    unfolding idx by (rule index_of_names [OF N(1,2)])
  define es where "es = (\<lambda>i. fst (case map_of raw (names ! i) of
      Some rs \<Rightarrow> validate_targets ex idx i (names ! i) [] (raw_extends rs) | None \<Rightarrow> ([], [])))"
  have split: "edges = concat (map es [0..<length names])"
    by (simp add: edges validate_edges_def enumerate_names Let_def es_def comp_def)
  have raw: "\<exists>rs. map_of raw (names ! i) = Some rs" if "i < length names" for i
    using N(4) nth_mem [OF that] map_of_eq_None_iff [of raw "names ! i"] by auto
  have es: "(\<forall>e\<in>set (es i). fst e = i) \<and> distinct (map snd (es i))
      \<and> snd ` set (es i) = {j. (i, j) \<in> index_edges raw ex}
      \<and> length (es i) \<le> length (raw_extends (the (map_of raw (names ! i))))" if i: "i < length names" for i
  proof -
    obtain rs where rs: "map_of raw (names ! i) = Some rs" using raw [OF i] by blast
    have "{j. \<exists>t\<in>set (raw_extends rs) - set []. t \<noteq> ex \<and> map_of idx t = Some j} = {j. (i, j) \<in> index_edges raw ex}"
    proof (rule set_eqI)
      fix k
      have mem: "names ! k \<noteq> ex" "names ! k \<in> fst ` set raw" if "k < length names" for k
        using N(4) nth_mem [OF that] by simp_all
      have "k \<in> {j. \<exists>t\<in>set (raw_extends rs) - set []. t \<noteq> ex \<and> map_of idx t = Some j}
          \<longleftrightarrow> k < length names \<and> names ! k \<in> set (raw_extends rs)"
        using mem by (auto simp: at)
      also have "\<dots> \<longleftrightarrow> k \<in> {j. (i, j) \<in> index_edges raw ex}"
        using rs i mem by (auto simp: index_edges_def extends_edges_def Let_def simp flip: names)
      finally show "k \<in> {j. \<exists>t\<in>set (raw_extends rs) - set []. t \<noteq> ex \<and> map_of idx t = Some j}
          \<longleftrightarrow> k \<in> {j. (i, j) \<in> index_edges raw ex}" .
    qed
    moreover have "\<forall>t t' j. map_of idx t = Some j \<longrightarrow> map_of idx t' = Some j \<longrightarrow> t = t'" by (simp add: at)
    moreover have "sat_u32 i = i" using i N(2) by (simp add: sat_u32_def)
    ultimately show ?thesis
      using validate_targets_spec [of idx ex i "names ! i" "[]" "raw_extends rs"] rs by (simp add: es_def)
  qed
  have "kids edges j = concat (map (\<lambda>i. kids (es i) j) [0..<length names])"
    by (simp add: split kids_concat comp_def)
  also have "\<dots> = concat (map (\<lambda>i. if (i, j) \<in> index_edges raw ex then [i] else []) [0..<length names])"
  proof (intro arg_cong [where f = concat] map_cong refl)
    fix i
    assume "i \<in> set [0..<length names]"
    then show "kids (es i) j = (if (i, j) \<in> index_edges raw ex then [i] else [])"
      using es [of i] kids_one_source [of "es i" i j] by auto
  qed
  finally show "kids edges j = filter (\<lambda>i. (i, j) \<in> index_edges raw ex) [0..<length names]" by (simp add: concat_if)
  have "snd e < length names" if e: "e \<in> set edges" for e
  proof -
    obtain i where "i < length names" "e \<in> set (es i)" using e by (auto simp: split)
    then have "(i, snd e) \<in> index_edges raw ex" using es [of i] by auto
    then show ?thesis by (simp add: index_edges_def names [symmetric])
  qed
  then show "list_all (\<lambda>e. snd e < length names) edges" by (simp add: list_all_iff)
  let ?len = "\<lambda>n. length (raw_extends (the (map_of raw n)))"
  have "length edges = sum_list (map (\<lambda>i. length (es i)) [0..<length names])"
    by (simp add: split length_concat comp_def)
  also have "\<dots> \<le> sum_list (map (\<lambda>i. ?len (names ! i)) [0..<length names])"
    using es by (intro sum_list_mono) simp
  also have "\<dots> = sum_list (map ?len names)" by (simp only: map_at [where f = ?len])
  also have "\<dots> \<le> sum_list (map ?len (map fst raw))"
    unfolding names schema_names_def by (rule sum_list_filter_le_nat)
  also have "\<dots> = sum_list (map (\<lambda>(name, rs). length (raw_extends rs)) raw)"
    unfolding map_map using fit by (intro arg_cong [where f = sum_list] map_cong) (auto simp: schemas_fit_def)
  also have "\<dots> \<le> u32_max" using fit by (simp add: schemas_fit_def)
  finally show "length edges \<le> u32_max" .
qed

section \<open>Adjacency of a graph\<close>

text \<open>An adjacency holds the relation \<open>E\<close> of a child and its parents; \<open>ks\<close> are the children of every node.\<close>

definition adj_spec :: "schema_adjacency \<Rightarrow> nat list list \<Rightarrow> edge set \<Rightarrow> bool" where
  "adj_spec adj ks E \<longleftrightarrow> node_count adj \<le> u32_max \<and> distinct (adj_names adj) \<and> length ks = node_count adj
     \<and> (\<forall>name j. index_of adj name = Some j \<longleftrightarrow> j < node_count adj \<and> adj_names adj ! j = name)
     \<and> csr_holds (child_offsets adj) (child_targets adj) ks \<and> length (concat ks) \<le> u32_max
     \<and> E \<subseteq> {..<node_count adj} \<times> {..<node_count adj}
     \<and> (\<forall>i<node_count adj. distinct (ks ! i) \<and> set (ks ! i) = {c. (c, i) \<in> E}
          \<and> set (List.map_filter (index_of adj) (adj_parents_of adj (adj_names adj ! i))) = {p. (i, p) \<in> E}
          \<and> length (adj_parents_of adj (adj_names adj ! i)) \<le> u32_max)"

lemma adj_specD:
  assumes "adj_spec adj ks E"
  shows "node_count adj \<le> u32_max" "distinct (adj_names adj)" "length ks = node_count adj"
    "index_of adj name = Some j \<longleftrightarrow> j < node_count adj \<and> adj_names adj ! j = name"
    "csr_holds (child_offsets adj) (child_targets adj) ks" "length (concat ks) \<le> u32_max"
    "(c, p) \<in> E \<Longrightarrow> c < node_count adj \<and> p < node_count adj"
    "i < node_count adj \<Longrightarrow> distinct (ks ! i)" "i < node_count adj \<Longrightarrow> set (ks ! i) = {c. (c, i) \<in> E}"
    "i < node_count adj \<Longrightarrow> set (List.map_filter (index_of adj) (adj_parents_of adj (adj_names adj ! i))) = {p. (i, p) \<in> E}"
    "i < node_count adj \<Longrightarrow> children_slice adj i = ks ! i"
    "i < node_count adj \<Longrightarrow> index_of adj (adj_names adj ! i) = Some i"
    "name_of adj i = (if i < node_count adj then Some (adj_names adj ! i) else None)"
    "i < node_count adj \<Longrightarrow> length (adj_parents_of adj (adj_names adj ! i)) \<le> u32_max"
  using assms csr_slice(1) [of adj ks i]
  by (auto simp: adj_spec_def name_of_def node_count_def slice_get_def)

lemma declared_of:
  "map_of raw n = Some rs \<Longrightarrow> map_of (dedupe_declared_parents raw) n = Some (keep_first [] (raw_extends rs))"
  by (simp add: dedupe_declared_parents_def map_of_map)

lemma adjacency_build_spec:
  assumes fit: "schemas_fit raw"
  shows "\<exists>ks. adj_spec (fst (adjacency_build raw ex)) ks (index_edges raw ex)
      \<and> ks = map (\<lambda>j. filter (\<lambda>i. (i, j) \<in> index_edges raw ex) [0..<length (schema_names raw ex)]) [0..<length (schema_names raw ex)]"
    and "adj_names (fst (adjacency_build raw ex)) = schema_names raw ex"
proof -
  define names where "names = schema_names raw ex"
  define idx where "idx = map (\<lambda>(i, name). (name, sat_u32 i)) (enumerate 0 names)"
  define edges where "edges = fst (validate_edges raw ex names idx)"
  obtain offsets targets where csr: "build_csr edges (length names) = (offsets, targets)" by fastforce
  note edge_facts = validated_edges [OF fit names_def idx_def edges_def]
  note N = schema_names_simps [OF fit, where ex = ex, folded names_def]
  let ?adj = "fst (adjacency_build raw ex)"
  have adj: "?adj = \<lparr> adj_excluded = ex, adj_names = names, adj_index_of = idx,
      declared_parents = dedupe_declared_parents raw, child_offsets = offsets, child_targets = targets \<rparr>"
    using csr by (simp add: adjacency_build_def assign_indices_def Let_def case_prod_beta names_def idx_def edges_def schema_names_def)
  then show "adj_names ?adj = schema_names raw ex" by (simp add: names_def)
  let ?ks = "map (\<lambda>j. filter (\<lambda>i. (i, j) \<in> index_edges raw ex) [0..<length names]) [0..<length names]"
  have holds: "csr_holds offsets targets (map (kids edges) [0..<length names])"
    by (rule build_csr_holds [OF edge_facts(3,2) csr])
  have ks: "map (kids edges) [0..<length names] = ?ks" using edge_facts(1) by simp
  have total: "length (concat ?ks) \<le> u32_max"
    unfolding ks [symmetric] using sum_kids [OF edge_facts(2)] edge_facts(3)
    by (simp add: length_concat comp_def sum_list_distinct_conv_sum_set atLeast0LessThan)
  have at: "index_of ?adj t = Some j \<longleftrightarrow> j < length names \<and> names ! j = t" for t j
    using index_of_names [OF N(1,2), of t j] by (simp add: index_of_def adj idx_def)
  have parents: "set (List.map_filter (index_of ?adj) (adj_parents_of ?adj (names ! i))) = {p. (i, p) \<in> index_edges raw ex}"
    if i: "i < length names" for i
  proof -
    have "names ! i \<noteq> ex" "names ! i \<in> fst ` set raw" using N(4) nth_mem [OF i] by simp_all
    then obtain rs where rs: "map_of raw (names ! i) = Some rs" using map_of_eq_None_iff [of raw "names ! i"] by auto
    have mem: "names ! k \<noteq> ex" "names ! k \<in> fst ` set raw" if "k < length names" for k
      using N(4) nth_mem [OF that] by simp_all
    have "p \<in> set (List.map_filter (index_of ?adj) (keep_first [] (raw_extends rs)))
        \<longleftrightarrow> p < length names \<and> names ! p \<in> set (raw_extends rs)" for p
      by (auto simp: in_map_filter at)
    also have "\<dots> p \<longleftrightarrow> (i, p) \<in> index_edges raw ex" for p
      using rs i mem by (auto simp: index_edges_def extends_edges_def Let_def simp flip: names_def)
    finally show ?thesis
      using \<open>names ! i \<noteq> ex\<close> declared_of [OF rs] by (auto simp: adj_parents_of_def adj)
  qed
  have lengths: "length (adj_parents_of ?adj n) \<le> u32_max" for n
  proof (cases "map_of raw n")
    case (Some rs)
    then have "(n, rs) \<in> set raw" by (rule map_of_SomeD)
    then have "length (raw_extends rs) \<le> u32_max"
      using member_le_sum_list [of "length (raw_extends rs)" "map (\<lambda>(name, rs). length (raw_extends rs)) raw"] fit
      by (force simp: schemas_fit_def)
    then show ?thesis
      using declared_of [OF Some] length_keep_first [of "[]" "raw_extends rs"] by (simp add: adj_parents_of_def adj)
  next
    case None
    then show ?thesis by (simp add: adj_parents_of_def adj dedupe_declared_parents_def map_of_map)
  qed
  have "adj_spec ?adj ?ks (index_edges raw ex)"
    unfolding adj_spec_def
  proof (intro conjI allI impI)
    show "csr_holds (child_offsets ?adj) (child_targets ?adj) ?ks" using holds by (simp add: adj ks)
    show "index_edges raw ex \<subseteq> {..<node_count ?adj} \<times> {..<node_count ?adj}"
      by (auto simp: index_edges_def node_count_def adj names_def Let_def)
    fix i
    assume i: "i < node_count ?adj"
    then show "set (List.map_filter (index_of ?adj) (adj_parents_of ?adj (adj_names ?adj ! i))) = {p. (i, p) \<in> index_edges raw ex}"
      using parents [of i] by (simp add: node_count_def adj)
    show "distinct (?ks ! i)" "set (?ks ! i) = {c. (c, i) \<in> index_edges raw ex}"
      using i by (auto simp: node_count_def adj index_edges_def names_def Let_def)
    show "length (adj_parents_of ?adj (adj_names ?adj ! i)) \<le> u32_max" by (rule lengths)
  qed (use N total at in \<open>simp_all add: node_count_def adj\<close>)
  then show "\<exists>ks. adj_spec ?adj ks (index_edges raw ex)
      \<and> ks = map (\<lambda>j. filter (\<lambda>i. (i, j) \<in> index_edges raw ex) [0..<length (schema_names raw ex)]) [0..<length (schema_names raw ex)]"
    by (auto simp: names_def)
qed

end
