(* ===== verification/Schema_Order.thy ===== *)
theory Schema_Order
  imports Schema_Adjacency
begin

text \<open>
  The topological sort of the schema graph.  \<open>kahn_inv\<close> is the invariant of the loop over the ready
  queue: the counters hold the parents that are not visited yet, a node with none is visited or
  queued, and the parents of a visited node were visited before it.
\<close>

section \<open>Counting\<close>

lemma fold_count:
  "length xs \<le> u32_max \<Longrightarrow> list_all (\<lambda>x. x < n) xs
    \<Longrightarrow> fold (\<lambda>x. slice_modify x (\<lambda>k. sat_u32 (k + 1))) xs (replicate n 0) = map (\<lambda>j. count_list xs j) [0..<n]"
proof (induction xs rule: rev_induct)
  case (snoc x xs)
  have "count_list xs x \<le> length xs" by (rule count_le_length)
  with snoc show ?case
    by (intro nth_equalityI) (auto simp: nth_slice_modify sat_u32_def)
next
  case Nil
  show ?case by (rule nth_equalityI) simp_all
qed

lemma count_list_concat: "count_list (concat xss) x = sum_list (map (\<lambda>xs. count_list xs x) xss)"
  by (induction xss) simp_all

lemma count_list_distinct: "distinct xs \<Longrightarrow> count_list xs x = (if x \<in> set xs then 1 else 0)"
  by (induction xs) auto

lemma sum_list_indicator: "sum_list (map (\<lambda>i. if P i then 1 else 0) [0..<n]) = card {i. i < n \<and> P i}"
proof -
  have "sum_list (map (\<lambda>i. if P i then 1 else 0) [0..<n]) = (\<Sum>i<n. if P i then 1 else 0)"
    by (simp add: sum_list_distinct_conv_sum_set atLeast0LessThan)
  also have "\<dots> = card ({..<n} \<inter> {i. P i})" by (simp add: sum.If_cases)
  also have "{..<n} \<inter> {i. P i} = {i. i < n \<and> P i}" by blast
  finally show ?thesis .
qed

lemma unresolved_counts_spec:
  assumes "adj_spec adj ks E"
  shows "unresolved_counts adj = map (\<lambda>j. card {p. (j, p) \<in> E}) [0..<node_count adj]"
proof -
  note A = adj_specD [OF assms]
  have targets: "child_targets adj = concat ks" using A(5) by (simp add: csr_holds_def)
  have "list_all (\<lambda>x. x < node_count adj) (concat ks)"
    using A(3,9,7) by (fastforce simp: list_all_iff in_set_conv_nth [of _ ks])
  then have "unresolved_counts adj = map (count_list (concat ks)) [0..<node_count adj]"
    using fold_count [OF A(6)] by (simp add: unresolved_counts_def targets)
  also have "\<dots> = map (\<lambda>j. card {p. (j, p) \<in> E}) [0..<node_count adj]"
  proof (rule map_cong [OF refl])
    fix j
    have "count_list (concat ks) j = sum_list (map (\<lambda>i. count_list (ks ! i) j) [0..<node_count adj])"
      by (simp add: count_list_concat map_at [where f = "\<lambda>xs. count_list xs j", symmetric] A(3))
    also have "\<dots> = sum_list (map (\<lambda>i. if (j, i) \<in> E then 1 else 0) [0..<node_count adj])"
      using A(8,9) by (intro arg_cong [where f = sum_list] map_cong) (auto simp: count_list_distinct)
    also have "\<dots> = card {i. i < node_count adj \<and> (j, i) \<in> E}" by (rule sum_list_indicator)
    also have "\<dots> = card {p. (j, p) \<in> E}" using A(7) by (intro arg_cong [where f = card]) auto
    finally show "count_list (concat ks) j = card {p. (j, p) \<in> E}" .
  qed
  finally show ?thesis .
qed

lemma release_children:
  "distinct cs \<Longrightarrow> list_all (\<lambda>c. c < length counts) cs
    \<Longrightarrow> fold release_child cs (counts, queue)
      = (map (\<lambda>j. if j \<in> set cs then counts ! j - 1 else counts ! j) [0..<length counts],
         queue @ filter (\<lambda>c. counts ! c - 1 = 0) cs)"
proof (induction cs arbitrary: counts queue)
  case Nil
  then show ?case by (simp add: map_nth)
next
  case (Cons c cs)
  let ?counts = "counts[c := counts ! c - 1]"
  have "?counts ! x = counts ! x" if "x \<in> set cs" for x using that Cons.prems(1) by (metis distinct.simps(2) nth_list_update_neq)
  then have "filter (\<lambda>c. ?counts ! c - 1 = 0) cs = filter (\<lambda>c. counts ! c - 1 = 0) cs" by (intro filter_cong) simp_all
  moreover have "map (\<lambda>j. if j \<in> set cs then ?counts ! j - 1 else ?counts ! j) [0..<length counts]
      = map (\<lambda>j. if j \<in> set (c # cs) then counts ! j - 1 else counts ! j) [0..<length counts]"
    using Cons.prems by (intro map_cong) (auto simp: nth_list_update)
  ultimately show ?case
    using Cons.prems Cons.IH [of ?counts "if counts ! c - 1 = 0 then queue @ [c] else queue"]
    by (simp add: release_child_def)
qed

section \<open>The loop over the ready queue\<close>

definition parents_first :: "edge set \<Rightarrow> nat list \<Rightarrow> bool" where
  "parents_first E V \<longleftrightarrow> (\<forall>k<length V. \<forall>p. (V ! k, p) \<in> E \<longrightarrow> p \<in> set (take k V))"

lemma parents_first_append:
  assumes "parents_first E V" "{p. (i, p) \<in> E} \<subseteq> set V"
  shows "parents_first E (V @ [i])"
  unfolding parents_first_def
proof (intro allI impI)
  fix k p
  assume k: "k < length (V @ [i])" and edge: "((V @ [i]) ! k, p) \<in> E"
  show "p \<in> set (take k (V @ [i]))"
  proof (cases "k < length V")
    case True
    then show ?thesis using assms(1) edge by (simp add: parents_first_def nth_append)
  next
    case False
    then have "k = length V" using k by simp
    then show ?thesis using assms(2) edge by auto
  qed
qed

definition kahn_inv :: "schema_adjacency \<Rightarrow> edge set \<Rightarrow> nat list \<Rightarrow> graph_builder \<Rightarrow> bool" where
  "kahn_inv adj E V b \<longleftrightarrow> gb_adjacency b = adj \<and> gb_visited b = map ((!) (adj_names adj)) V
     \<and> distinct (V @ ready_queue b) \<and> set (V @ ready_queue b) \<subseteq> {..<node_count adj}
     \<and> unresolved_parent_count b = map (\<lambda>j. card {p. (j, p) \<in> E \<and> p \<notin> set V}) [0..<node_count adj]
     \<and> (\<forall>j<node_count adj. {p. (j, p) \<in> E} \<subseteq> set V \<longleftrightarrow> j \<in> set (V @ ready_queue b))
     \<and> parents_first E V"

lemma finite_parents: "adj_spec adj ks E \<Longrightarrow> finite {p. (j, p) \<in> E \<and> P p}"
  by (rule finite_subset [of _ "{..<node_count adj}"]) (auto dest: adj_specD(7))

lemma kahn_initial:
  assumes adj: "adj_spec adj ks E" and new: "graph_builder_new raw ex = (b, warnings)"
    and built: "fst (adjacency_build raw ex) = adj"
  shows "kahn_inv adj E [] b"
proof -
  note A = adj_specD [OF adj]
  have b: "b = \<lparr> gb_adjacency = adj, unresolved_parent_count = unresolved_counts adj,
      ready_queue = filter (\<lambda>i. slice_get (unresolved_counts adj) i = Some 0) [0..<sat_u32 (node_count adj)],
      gb_visited = [] \<rparr>"
    using new built by (auto simp: graph_builder_new_def Let_def case_prod_beta)
  have "sat_u32 (node_count adj) = node_count adj" using A(1) by (simp add: sat_u32_def)
  with finite_parents [OF adj, of _ "\<lambda>_. True"] show ?thesis
    by (auto simp: kahn_inv_def b parents_first_def unresolved_counts_spec [OF adj] slice_get_def)
qed

lemma kahn_next:
  assumes "adj_spec adj ks E" "kahn_inv adj E V b" "ready_queue b = i # queue"
  shows "next_ready b = (Some (adj_names adj ! i), b \<lparr> ready_queue := queue, gb_visited := map ((!) (adj_names adj)) (V @ [i]) \<rparr>)"
proof -
  have b: "i < node_count adj" "i \<notin> set V" "set V \<subseteq> {..<node_count adj}" "gb_adjacency b = adj"
    "gb_visited b = map ((!) (adj_names adj)) V"
    using assms by (auto simp: kahn_inv_def)
  have "adj_names adj ! i \<notin> set (gb_visited b)"
    using b adj_specD(2) [OF assms(1)] by (auto simp: node_count_def nth_eq_iff_index_eq subset_iff)
  with b assms show ?thesis
    by (simp add: next_ready_def adj_specD(13) [OF assms(1)] set_insert_def)
qed

lemma kahn_step:
  assumes adj: "adj_spec adj ks E" and inv: "kahn_inv adj E V b" and more: "ready_queue b = i # queue"
  shows "kahn_inv adj E (V @ [i]) (resolve_next b)"
proof -
  note A = adj_specD [OF adj]
  let ?N = "node_count adj"
  let ?open = "\<lambda>j. card {p. (j, p) \<in> E \<and> p \<notin> set V}"
  have i: "i < ?N" "i \<notin> set V" "{p. (i, p) \<in> E} \<subseteq> set V" "distinct (V @ i # queue)" "set (V @ i # queue) \<subseteq> {..<?N}"
    and counts: "unresolved_parent_count b = map ?open [0..<?N]" and b: "gb_adjacency b = adj"
    and ready: "\<forall>j<?N. {p. (j, p) \<in> E} \<subseteq> set V \<longleftrightarrow> j \<in> set (V @ i # queue)"
    and order: "parents_first E V"
    using inv more by (auto simp: kahn_inv_def)
  have kids: "distinct (ks ! i)" "set (ks ! i) = {c. (c, i) \<in> E}" "children_slice adj i = ks ! i"
    using A(8,9,11) i(1) by auto
  have bound: "list_all (\<lambda>c. c < length (map ?open [0..<?N])) (ks ! i)"
    using kids(2) A(7) by (auto simp: list_all_iff)
  define released where "released = filter (\<lambda>c. ?open c - 1 = 0) (ks ! i)"
  have "filter (\<lambda>c. map ?open [0..<?N] ! c - 1 = 0) (ks ! i) = released"
    unfolding released_def using kids(2) A(7) by (intro filter_cong) auto
  then have next_b: "resolve_next b = b \<lparr> ready_queue := queue @ released,
      gb_visited := map ((!) (adj_names adj)) (V @ [i]),
      unresolved_parent_count := map (\<lambda>j. if (j, i) \<in> E then ?open j - 1 else ?open j) [0..<?N] \<rparr>"
    using release_children [OF kids(1) bound, of queue] kids(2,3) b counts A(12) [OF i(1)]
    by (simp add: resolve_next_def kahn_next [OF adj inv more] mark_resolved_def cong: map_cong)
  have open_next: "(if (j, i) \<in> E then ?open j - 1 else ?open j) = card {p. (j, p) \<in> E \<and> p \<notin> set (V @ [i])}" for j
  proof -
    have "{p. (j, p) \<in> E \<and> p \<notin> set (V @ [i])} = {p. (j, p) \<in> E \<and> p \<notin> set V} - {i}" by auto
    then show ?thesis using i(2) finite_parents [OF adj, of j "\<lambda>p. p \<notin> set V"] by (auto simp: card_Diff_singleton_if)
  qed
  have mem: "c \<in> set released \<longleftrightarrow> (c, i) \<in> E \<and> {p. (c, p) \<in> E} \<subseteq> set (V @ [i])" for c
  proof -
    have "?open c - 1 = 0 \<longleftrightarrow> {p. (c, p) \<in> E} \<subseteq> set (V @ [i])" if "(c, i) \<in> E"
    proof -
      have "?open c - 1 = card ({p. (c, p) \<in> E \<and> p \<notin> set V} - {i})"
        using that i(2) finite_parents [OF adj, of c "\<lambda>p. p \<notin> set V"] by (simp add: card_Diff_singleton_if)
      then show ?thesis using finite_parents [OF adj, of c "\<lambda>p. p \<notin> set V"] by auto
    qed
    then show ?thesis using kids(2) by (auto simp: released_def)
  qed
  have apart: "c \<notin> set (V @ i # queue)" if "c \<in> set released" for c
  proof -
    have "(c, i) \<in> E" using that mem by simp
    then have "c < ?N" "\<not> {p. (c, p) \<in> E} \<subseteq> set V" using A(7) i(2) by auto
    then show ?thesis using ready by blast
  qed
  have "j \<in> set ((V @ [i]) @ queue @ released)" if "j < ?N" "{p. (j, p) \<in> E} \<subseteq> set (V @ [i])" for j
  proof (cases "(j, i) \<in> E")
    case True
    then show ?thesis using that mem [of j] by simp
  next
    case False
    then have "{p. (j, p) \<in> E} \<subseteq> set V" using that(2) by auto
    then show ?thesis using ready that(1) by auto
  qed
  then have ready_next: "{p. (j, p) \<in> E} \<subseteq> set (V @ [i]) \<longleftrightarrow> j \<in> set ((V @ [i]) @ queue @ released)" if "j < ?N" for j
    using ready mem [of j] that by auto
  have "parents_first E (V @ [i])"
    using order i(3) by (rule parents_first_append)
  moreover have "distinct released" by (simp add: released_def kids(1))
  then have "distinct ((V @ [i]) @ queue @ released)"
    using i(4) apart unfolding distinct_append by (simp add: disjoint_iff) blast
  moreover have "set released \<subseteq> {..<?N}" using A(7) by (auto simp: mem)
  then have "set ((V @ [i]) @ queue @ released) \<subseteq> {..<?N}" using i(5) by simp
  moreover have "gb_adjacency (resolve_next b) = adj" "ready_queue (resolve_next b) = queue @ released"
    "gb_visited (resolve_next b) = map ((!) (adj_names adj)) (V @ [i])"
    "unresolved_parent_count (resolve_next b) = map (\<lambda>j. card {p. (j, p) \<in> E \<and> p \<notin> set (V @ [i])}) [0..<?N]"
    unfolding next_b open_next by (simp_all add: b)
  ultimately show ?thesis
    unfolding kahn_inv_def using ready_next by (intro conjI allI impI) (simp_all only: append_assoc)
qed

definition sorted_part :: "schema_adjacency \<Rightarrow> edge set \<Rightarrow> nat list \<Rightarrow> graph_builder \<Rightarrow> bool" where
  "sorted_part adj E V b \<longleftrightarrow> gb_adjacency b = adj \<and> gb_visited b = map ((!) (adj_names adj)) V
     \<and> distinct V \<and> set V \<subseteq> {..<node_count adj} \<and> parents_first E V
     \<and> (\<forall>j<node_count adj. j \<notin> set V \<longrightarrow> (\<exists>p. (j, p) \<in> E \<and> p \<notin> set V))"

lemma drain_sorts:
  assumes adj: "adj_spec adj ks E" and inv: "kahn_inv adj E [] b"
  shows "\<exists>b' V. drain_ready b = Some b' \<and> sorted_part adj E V b'"
proof -
  let ?P = "\<lambda>b. \<exists>V. kahn_inv adj E V b"
  let ?cond = "\<lambda>b. fst (next_ready b) \<noteq> None"
  let ?left = "\<lambda>b. node_count adj - length (gb_visited b)"
  have shape: "\<exists>i queue. ready_queue b = i # queue" if "?cond b" for b
    using that by (cases "ready_queue b") (auto simp: next_ready_def)
  have step: "?P (resolve_next b) \<and> ?left (resolve_next b) < ?left b" if P: "?P b" and c: "?cond b" for b
  proof -
    obtain V i queue where V: "kahn_inv adj E V b" "ready_queue b = i # queue" using P shape [OF c] by blast
    note V' = kahn_step [OF adj V]
    have "length (gb_visited (resolve_next b)) = Suc (length (gb_visited b))"
      using V V' by (simp add: kahn_inv_def)
    moreover have "length (V @ [i]) \<le> node_count adj"
      using V' card_mono [of "{..<node_count adj}" "set (V @ [i])"] distinct_card [of "V @ [i]"]
      by (simp add: kahn_inv_def)
    moreover have "length (gb_visited b) = length V" using V by (simp add: kahn_inv_def)
    ultimately show ?thesis using V' by auto
  qed
  obtain b' where b': "while_option ?cond resolve_next b = Some b'"
    using measure_while_option_Some [where P = ?P and f = ?left and b = ?cond and c = resolve_next and s = b] step inv by blast
  have "?P b'" using while_option_rule [of ?P, OF _ b'] step inv by blast
  then obtain V where V: "kahn_inv adj E V b'" by blast
  have "\<not> ?cond b'" using while_option_stop [OF b'] .
  then have "ready_queue b' = []"
    using kahn_next [OF adj V] by (cases "ready_queue b'") auto
  moreover have "snd (next_ready b') = b'" using calculation by (simp add: next_ready_def)
  ultimately show ?thesis
    using V b' by (intro exI [of _ b'] exI [of _ V]) (auto simp: drain_ready_def kahn_inv_def sorted_part_def)
qed

end
