(* ===== verification/Component_Search.thy ===== *)
theory Component_Search
  imports Main
begin

text \<open>
  The search for strongly connected components with one stack of nodes, on its own: \<open>search_inv\<close> is
  its invariant over any relation, and one lemma per move of the search shows that it is kept.  The
  theory \<open>Schema_Cycles\<close> shows that the moves of the code are these.  A frame is a node and the position
  its scan has reached; \<open>before v p\<close> are the successors of \<open>v\<close> before position \<open>p\<close>.
\<close>

record search_state =
  found :: "nat set"
  nr :: "nat \<Rightarrow> nat"
  lowest :: "nat \<Rightarrow> nat"
  open_nodes :: "nat list"
  frames :: "(nat \<times> nat) list"
  pending :: "nat set"
  on_cycle :: "nat set"
  next_nr :: nat

definition gray :: "search_state \<Rightarrow> nat set" where "gray x = fst ` set (frames x)"

definition closed_nodes :: "search_state \<Rightarrow> nat set" where "closed_nodes x = found x - set (open_nodes x)"

definition processed :: "(nat \<times> nat) set \<Rightarrow> (nat \<Rightarrow> nat \<Rightarrow> nat set) \<Rightarrow> search_state \<Rightarrow> nat \<Rightarrow> nat set" where
  "processed R before x u = (case map_of (frames x) u of Some p \<Rightarrow> before u p | None \<Rightarrow> R `` {u})"

definition search_inv :: "(nat \<times> nat) set \<Rightarrow> (nat \<Rightarrow> nat \<Rightarrow> nat set) \<Rightarrow> search_state \<Rightarrow> bool" where
  "search_inv R before x \<longleftrightarrow>
     set (open_nodes x) \<subseteq> found x
   \<and> sorted_wrt (\<lambda>a b. nr x b < nr x a) (open_nodes x)
   \<and> gray x \<subseteq> set (open_nodes x)
   \<and> sorted_wrt (\<lambda>a b. nr x b < nr x a) (map fst (frames x))
   \<and> (\<forall>u\<in>found x. nr x u < next_nr x)
   \<and> (\<forall>u\<in>found x. processed R before x u \<subseteq> found x \<union> pending x)
   \<and> (\<forall>u\<in>closed_nodes x. R `` {u} \<subseteq> closed_nodes x)
   \<and> (\<forall>u\<in>set (open_nodes x). \<exists>g\<in>gray x. nr x g \<le> nr x u \<and> (u, g) \<in> R\<^sup>*)
   \<and> (\<forall>g\<in>gray x. \<forall>u\<in>set (open_nodes x). nr x g \<le> nr x u \<longrightarrow> (g, u) \<in> R\<^sup>*)
   \<and> (\<forall>g\<in>gray x. lowest x g \<le> nr x g \<and> (\<exists>w\<in>set (open_nodes x). nr x w = lowest x g \<and> (g, w) \<in> R\<^sup>*))
   \<and> (\<forall>g\<in>gray x. \<forall>u\<in>set (open_nodes x). \<forall>w\<in>processed R before x u \<inter> set (open_nodes x). nr x g \<le> nr x u
        \<longrightarrow> lowest x g \<le> nr x w \<or> (\<exists>h\<in>gray x. nr x g < nr x h \<and> nr x h \<le> nr x u))
   \<and> on_cycle x = {u \<in> closed_nodes x. (u, u) \<in> R\<^sup>+}
   \<and> pending x \<inter> found x = {}
   \<and> (\<forall>v\<in>pending x. frames x = [] \<or> (fst (hd (frames x)), v) \<in> R)"

lemma search_invD:
  assumes "search_inv R before x"
  shows "set (open_nodes x) \<subseteq> found x"
    "sorted_wrt (\<lambda>a b. nr x b < nr x a) (open_nodes x)"
    "gray x \<subseteq> set (open_nodes x)"
    "sorted_wrt (\<lambda>a b. nr x b < nr x a) (map fst (frames x))"
    "u \<in> found x \<Longrightarrow> nr x u < next_nr x"
    "u \<in> found x \<Longrightarrow> processed R before x u \<subseteq> found x \<union> pending x"
    "u \<in> closed_nodes x \<Longrightarrow> R `` {u} \<subseteq> closed_nodes x"
    "u \<in> set (open_nodes x) \<Longrightarrow> \<exists>g\<in>gray x. nr x g \<le> nr x u \<and> (u, g) \<in> R\<^sup>*"
    "g \<in> gray x \<Longrightarrow> u \<in> set (open_nodes x) \<Longrightarrow> nr x g \<le> nr x u \<Longrightarrow> (g, u) \<in> R\<^sup>*"
    "g \<in> gray x \<Longrightarrow> lowest x g \<le> nr x g"
    "g \<in> gray x \<Longrightarrow> \<exists>w\<in>set (open_nodes x). nr x w = lowest x g \<and> (g, w) \<in> R\<^sup>*"
    "g \<in> gray x \<Longrightarrow> u \<in> set (open_nodes x) \<Longrightarrow> w \<in> processed R before x u \<Longrightarrow> w \<in> set (open_nodes x)
      \<Longrightarrow> nr x g \<le> nr x u \<Longrightarrow> lowest x g \<le> nr x w \<or> (\<exists>h\<in>gray x. nr x g < nr x h \<and> nr x h \<le> nr x u)"
    "on_cycle x = {u \<in> closed_nodes x. (u, u) \<in> R\<^sup>+}"
    "pending x \<inter> found x = {}"
    "v \<in> pending x \<Longrightarrow> frames x = [] \<or> (fst (hd (frames x)), v) \<in> R"
proof -
  note c = assms [unfolded search_inv_def]
  note cs = conjunct1 [OF c]
    conjunct1 [OF conjunct2 [OF c]]
    conjunct1 [OF conjunct2 [OF conjunct2 [OF c]]]
    conjunct1 [OF conjunct2 [OF conjunct2 [OF conjunct2 [OF c]]]]
    conjunct1 [OF conjunct2 [OF conjunct2 [OF conjunct2 [OF conjunct2 [OF c]]]]]
    conjunct1 [OF conjunct2 [OF conjunct2 [OF conjunct2 [OF conjunct2 [OF conjunct2 [OF c]]]]]]
    conjunct1 [OF conjunct2 [OF conjunct2 [OF conjunct2 [OF conjunct2 [OF conjunct2 [OF conjunct2 [OF c]]]]]]]
    conjunct1 [OF conjunct2 [OF conjunct2 [OF conjunct2 [OF conjunct2 [OF conjunct2 [OF conjunct2 [OF conjunct2 [OF c]]]]]]]]
    conjunct1 [OF conjunct2 [OF conjunct2 [OF conjunct2 [OF conjunct2 [OF conjunct2 [OF conjunct2 [OF conjunct2 [OF conjunct2 [OF c]]]]]]]]]
    conjunct1 [OF conjunct2 [OF conjunct2 [OF conjunct2 [OF conjunct2 [OF conjunct2 [OF conjunct2 [OF conjunct2 [OF conjunct2 [OF conjunct2 [OF c]]]]]]]]]]
    conjunct1 [OF conjunct2 [OF conjunct2 [OF conjunct2 [OF conjunct2 [OF conjunct2 [OF conjunct2 [OF conjunct2 [OF conjunct2 [OF conjunct2 [OF conjunct2 [OF c]]]]]]]]]]]
    conjunct1 [OF conjunct2 [OF conjunct2 [OF conjunct2 [OF conjunct2 [OF conjunct2 [OF conjunct2 [OF conjunct2 [OF conjunct2 [OF conjunct2 [OF conjunct2 [OF conjunct2 [OF c]]]]]]]]]]]]
    conjunct1 [OF conjunct2 [OF conjunct2 [OF conjunct2 [OF conjunct2 [OF conjunct2 [OF conjunct2 [OF conjunct2 [OF conjunct2 [OF conjunct2 [OF conjunct2 [OF conjunct2 [OF conjunct2 [OF c]]]]]]]]]]]]]
    conjunct2 [OF conjunct2 [OF conjunct2 [OF conjunct2 [OF conjunct2 [OF conjunct2 [OF conjunct2 [OF conjunct2 [OF conjunct2 [OF conjunct2 [OF conjunct2 [OF conjunct2 [OF conjunct2 [OF c]]]]]]]]]]]]]
  show "set (open_nodes x) \<subseteq> found x"
    "sorted_wrt (\<lambda>a b. nr x b < nr x a) (open_nodes x)"
    "gray x \<subseteq> set (open_nodes x)"
    "sorted_wrt (\<lambda>a b. nr x b < nr x a) (map fst (frames x))"
    "on_cycle x = {u \<in> closed_nodes x. (u, u) \<in> R\<^sup>+}" "pending x \<inter> found x = {}"
    by (rule cs)+
  show "u \<in> found x \<Longrightarrow> nr x u < next_nr x"
    "u \<in> found x \<Longrightarrow> processed R before x u \<subseteq> found x \<union> pending x"
    "u \<in> closed_nodes x \<Longrightarrow> R `` {u} \<subseteq> closed_nodes x"
    "u \<in> set (open_nodes x) \<Longrightarrow> \<exists>g\<in>gray x. nr x g \<le> nr x u \<and> (u, g) \<in> R\<^sup>*"
    "g \<in> gray x \<Longrightarrow> u \<in> set (open_nodes x) \<Longrightarrow> nr x g \<le> nr x u \<Longrightarrow> (g, u) \<in> R\<^sup>*"
    "v \<in> pending x \<Longrightarrow> frames x = [] \<or> (fst (hd (frames x)), v) \<in> R"
    by (rule cs [rule_format]; assumption)+
  show "g \<in> gray x \<Longrightarrow> lowest x g \<le> nr x g"
    "g \<in> gray x \<Longrightarrow> \<exists>w\<in>set (open_nodes x). nr x w = lowest x g \<and> (g, w) \<in> R\<^sup>*"
    using cs(10) [rule_format, of g] by simp_all
  show "g \<in> gray x \<Longrightarrow> u \<in> set (open_nodes x) \<Longrightarrow> w \<in> processed R before x u \<Longrightarrow> w \<in> set (open_nodes x)
      \<Longrightarrow> nr x g \<le> nr x u \<Longrightarrow> lowest x g \<le> nr x w \<or> (\<exists>h\<in>gray x. nr x g < nr x h \<and> nr x h \<le> nr x u)"
    using cs(11) [rule_format, of g u w] by simp
qed

lemma sorted_keys_inj:
  "sorted_wrt (\<lambda>a b. (k b :: nat) < k a) xs \<Longrightarrow> a \<in> set xs \<Longrightarrow> b \<in> set xs \<Longrightarrow> k a = k b \<Longrightarrow> a = b"
  by (induction xs) auto

lemma open_inj:
  assumes "search_inv R before x" "u \<in> set (open_nodes x)" "w \<in> set (open_nodes x)" "nr x u = nr x w"
  shows "u = w"
  using search_invD(2) [OF assms(1)] assms(2-4) by (rule sorted_keys_inj)

lemma top_gray:
  assumes "search_inv R before x" "frames x = (v, p) # rest"
  shows "v \<in> gray x" "v \<in> set (open_nodes x)" "g \<in> gray x \<Longrightarrow> nr x g \<le> nr x v"
    "g \<in> gray x \<Longrightarrow> g = v \<or> g \<in> fst ` set rest" "g \<in> fst ` set rest \<Longrightarrow> nr x g < nr x v"
    "processed R before x v = before v p" "v \<notin> fst ` set rest"
  using search_invD(3,4) [OF assms(1)] assms(2) by (auto simp: gray_def processed_def)

section \<open>Moves that keep the frames\<close>

lemma gray_empty: "search_inv R before x \<Longrightarrow> frames x = [] \<Longrightarrow> open_nodes x = []"
  using search_invD(8) by (fastforce simp: gray_def)

lemma discover_move:
  assumes inv: "search_inv R before x" and pend: "pending x = {v}" and fresh: "before v 0 = {}"
    and y: "y = x \<lparr> found := insert v (found x), nr := (nr x)(v := next_nr x), lowest := (lowest x)(v := next_nr x),
      open_nodes := v # open_nodes x, frames := (v, 0) # frames x, pending := {}, next_nr := Suc (next_nr x) \<rparr>"
  shows "search_inv R before y"
proof -
  note I = search_invD [OF inv]
  have v: "v \<notin> found x" using I(14) pend by simp
  have open_found: "u \<in> found x" "u \<noteq> v" "nr y u = nr x u" "nr x u < next_nr x" if "u \<in> set (open_nodes x)" for u
    using that I(1,5) v by (auto simp: y)
  have gray_open: "g \<in> set (open_nodes x)" "lowest y g = lowest x g" if "g \<in> gray x" for g
    using that I(3) open_found(2) by (auto simp: y)
  have nr_v: "nr y v = next_nr x" "lowest y v = next_nr x" by (simp_all add: y)
  have gray_y: "gray y = insert v (gray x)" by (simp add: gray_def y)
  have closed_y: "closed_nodes y = closed_nodes x" using v by (auto simp: closed_nodes_def y)
  have proc: "processed R before y v = {}" "u \<noteq> v \<Longrightarrow> processed R before y u = processed R before x u" for u
    by (simp_all add: processed_def y fresh)
  have open_y: "set (open_nodes y) = insert v (set (open_nodes x))" by (simp add: y)
  show ?thesis
    unfolding search_inv_def
  proof (intro conjI ballI impI)
    show "set (open_nodes y) \<subseteq> found y" using I(1) by (auto simp: y)
    show "sorted_wrt (\<lambda>a b. nr y b < nr y a) (open_nodes y)"
    proof -
      have "sorted_wrt (\<lambda>a b. nr y b < nr y a) (open_nodes x)"
        by (rule sorted_wrt_mono_rel [OF _ I(2)]) (simp add: open_found(3))
      then show ?thesis using open_found(3,4) nr_v by (simp add: y)
    qed
    show "gray y \<subseteq> set (open_nodes y)" using I(3) by (auto simp: gray_y open_y)
    show "sorted_wrt (\<lambda>a b. nr y b < nr y a) (map fst (frames y))"
    proof -
      have eq: "nr y g = nr x g \<and> nr x g < next_nr x" if "g \<in> set (map fst (frames x))" for g
        using that I(3) open_found by (auto simp: gray_def)
      then have "sorted_wrt (\<lambda>a b. nr y b < nr y a) (map fst (frames x))"
        by (intro sorted_wrt_mono_rel [OF _ I(4)]) simp
      then show ?thesis using eq nr_v by (simp add: y)
    qed
    show "nr y u < next_nr y" if "u \<in> found y" for u using that I(5) by (auto simp: y less_SucI)
    show "processed R before y u \<subseteq> found y \<union> pending y" if "u \<in> found y" for u
      using that I(6) [of u] proc pend by (cases "u = v") (auto simp: y)
    show "R `` {u} \<subseteq> closed_nodes y" if "u \<in> closed_nodes y" for u using that I(7) closed_y by simp
    show "\<exists>g\<in>gray y. nr y g \<le> nr y u \<and> (u, g) \<in> R\<^sup>*" if u: "u \<in> set (open_nodes y)" for u
    proof (cases "u = v")
      case False
      then obtain g where "g \<in> gray x" "nr x g \<le> nr x u" "(u, g) \<in> R\<^sup>*" using u I(8) [of u] by (auto simp: open_y)
      then show ?thesis using u False open_found(3) gray_open(1) by (auto simp: gray_y open_y)
    qed (simp add: gray_y)
    show "(g, u) \<in> R\<^sup>*" if g: "g \<in> gray y" and u: "u \<in> set (open_nodes y)" and le: "nr y g \<le> nr y u" for g u
    proof -
      consider "g = v" | "g \<in> gray x" "u = v" "u \<noteq> g" | "g \<in> gray x" "u \<in> set (open_nodes x)"
        using g u by (auto simp: gray_y open_y)
      then show ?thesis
      proof cases
        case 1
        then have "u = v" using u le open_found(3,4) [of u] nr_v by (auto simp: open_y)
        with 1 show ?thesis by simp
      next
        case 2
        then obtain w p rest where fr: "frames x = (w, p) # rest" by (cases "frames x") (auto simp: gray_def)
        then have "(w, v) \<in> R" using I(15) [of v] pend by simp
        moreover have "(g, w) \<in> R\<^sup>*"
          using 2 fr top_gray [OF inv fr] I(9) [of g w] by blast
        ultimately show ?thesis using 2 by (auto intro: rtrancl_into_rtrancl)
      next
        case 3
        then show ?thesis using le I(9) [of g u] gray_open(1) open_found(3) by simp
      qed
    qed
    show "lowest y g \<le> nr y g" if "g \<in> gray y" for g
      using that I(10) gray_open open_found(3) nr_v by (auto simp: gray_y)
    show "\<exists>w\<in>set (open_nodes y). nr y w = lowest y g \<and> (g, w) \<in> R\<^sup>*" if g: "g \<in> gray y" for g
    proof (cases "g = v")
      case False
      then obtain w where "w \<in> set (open_nodes x)" "nr x w = lowest x g" "(g, w) \<in> R\<^sup>*"
        using g I(11) [of g] by (auto simp: gray_y)
      then show ?thesis using g False gray_open open_found(3) by (auto simp: gray_y open_y)
    qed (use nr_v in \<open>auto simp: open_y\<close>)
    show "lowest y g \<le> nr y w \<or> (\<exists>h\<in>gray y. nr y g < nr y h \<and> nr y h \<le> nr y u)"
      if g: "g \<in> gray y" and u: "u \<in> set (open_nodes y)" and w: "w \<in> processed R before y u \<inter> set (open_nodes y)"
        and le: "nr y g \<le> nr y u" for g u w
    proof -
      have "u \<noteq> v" using w proc by auto
      then have u: "u \<in> set (open_nodes x)" using u by (simp add: open_y)
      then have "g \<noteq> v" using le open_found(3,4) [of u] nr_v by auto
      then have g: "g \<in> gray x" using g by (simp add: gray_y)
      show ?thesis
      proof (cases "w = v")
        case True
        then show ?thesis using I(10) [OF g] open_found(4) [OF gray_open(1) [OF g]] gray_open [OF g] nr_v by simp
      next
        case False
        then have w': "w \<in> processed R before x u" "w \<in> set (open_nodes x)"
          using w proc(2) [OF \<open>u \<noteq> v\<close>] by (auto simp: open_y)
        have "nr x g \<le> nr x u" using le open_found(3) u gray_open(1) [OF g] by simp
        from I(12) [OF g u w' this] show ?thesis
          using g u w' gray_open open_found(3) by (auto simp: gray_y)
      qed
    qed
    show "on_cycle y = {u \<in> closed_nodes y. (u, u) \<in> R\<^sup>+}" using I(13) closed_y by (simp add: y)
  qed (simp_all add: y)
qed

text \<open>One successor of the top frame is looked at.\<close>

lemma scan_facts:
  assumes inv: "search_inv R before x" and fr: "frames x = (v, p) # rest"
    and more: "before v q = insert t (before v p)"
    and y: "frames y = (v, q) # rest"
  shows "gray y = gray x" "processed R before y v = insert t (processed R before x v)"
    "u \<noteq> v \<Longrightarrow> processed R before y u = processed R before x u"
  using more top_gray [OF inv fr] by (auto simp: gray_def processed_def y fr)

lemma scan_move:
  assumes inv: "search_inv R before x" and fr: "frames x = (v, p) # rest" and edge: "(v, t) \<in> R"
    and more: "before v q = insert t (before v p)" and none: "pending x = {}"
    and y: "y = x \<lparr> frames := (v, q) # rest, pending := (if t \<in> found x then {} else {t}),
      lowest := (if t \<in> set (open_nodes x) then (lowest x)(v := min (lowest x v) (nr x t)) else lowest x) \<rparr>"
  shows "search_inv R before y"
proof -
  note I = search_invD [OF inv]
  note T = top_gray [OF inv fr]
  have y': "frames y = (v, q) # rest" "open_nodes y = open_nodes x" "nr y = nr x" "found y = found x"
    "next_nr y = next_nr x" "on_cycle y = on_cycle x" "closed_nodes y = closed_nodes x"
    "pending y = (if t \<in> found x then {} else {t})"
    by (simp_all add: y closed_nodes_def)
  note S = scan_facts [OF inv fr more y'(1)]
  have low: "lowest y g \<le> lowest x g" "g \<noteq> v \<Longrightarrow> lowest y g = lowest x g"
    "t \<in> set (open_nodes x) \<Longrightarrow> lowest y v \<le> nr x t" "lowest y v = lowest x v \<or> (t \<in> set (open_nodes x) \<and> lowest y v = nr x t)" for g
    by (auto simp: y min_def)
  show ?thesis
    unfolding search_inv_def y' S(1)
  proof (intro conjI ballI impI)
    show "processed R before y u \<subseteq> found x \<union> (if t \<in> found x then {} else {t})" if "u \<in> found x" for u
      using I(6) [OF that] S(2,3) none by (cases "u = v") auto
    show "lowest y g \<le> nr x g" if "g \<in> gray x" for g using I(10) [OF that] low(1) le_trans by blast
    show "\<exists>w\<in>set (open_nodes x). nr x w = lowest y g \<and> (g, w) \<in> R\<^sup>*" if "g \<in> gray x" for g
      using I(11) [OF that] low(2,4) edge by (cases "g = v") (metis r_into_rtrancl)+
    show "lowest y g \<le> nr x w \<or> (\<exists>h\<in>gray x. nr x g < nr x h \<and> nr x h \<le> nr x u)"
      if g: "g \<in> gray x" and u: "u \<in> set (open_nodes x)" and w: "w \<in> processed R before y u \<inter> set (open_nodes x)"
        and le: "nr x g \<le> nr x u" for g u w
    proof (cases "u = v \<and> w = t")
      case True
      show ?thesis
      proof (cases "g = v")
        case False
        then have "g \<in> fst ` set rest" using T(4) g by blast
        then have "nr x g < nr x v" by (rule T(5))
        then show ?thesis using True T(1) by blast
      qed (use True w low(3) in auto)
    next
      case False
      then have "w \<in> processed R before x u" using w S(2,3) by (cases "u = v") auto
      from I(12) [OF g u this _ le] w show ?thesis using low(1) le_trans by blast
    qed
    show "(v, q) # rest = [] \<or> (fst (hd ((v, q) # rest)), u) \<in> R" if "u \<in> (if t \<in> found x then {} else {t})" for u
      using that edge by (auto split: if_splits)
    show "(if t \<in> found x then {} else {t}) \<inter> found x = {}" by simp
  qed (use I in \<open>auto simp: fr\<close>)
qed

section \<open>Moves that leave a node\<close>

lemma finish_facts:
  assumes inv: "search_inv R before x" and fr: "frames x = (v, p) # rest" and all: "before v p = R `` {v}"
    and y: "frames y = rest"
  shows "gray x = insert v (gray y)" "v \<notin> gray y" "g \<in> gray y \<Longrightarrow> nr x g < nr x v"
    "processed R before y u = processed R before x u"
  using top_gray [OF inv fr] all y
  by (auto simp: gray_def fr processed_def map_of_eq_None_iff [THEN iffD2] split: option.splits)

lemma finish_open_move:
  assumes inv: "search_inv R before x" and fr: "frames x = (v, p) # rest" and all: "before v p = R `` {v}"
    and none: "pending x = {}" and low: "lowest x v \<noteq> nr x v"
    and y: "y = x \<lparr> frames := rest, lowest := (lowest x)(fst (hd rest) := min (lowest x (fst (hd rest))) (lowest x v)) \<rparr>"
  shows "rest \<noteq> [] \<and> search_inv R before y"
proof -
  note I = search_invD [OF inv]
  note T = top_gray [OF inv fr]
  have y': "frames y = rest" "open_nodes y = open_nodes x" "nr y = nr x" "found y = found x" "pending y = {}"
    "next_nr y = next_nr x" "on_cycle y = on_cycle x" "closed_nodes y = closed_nodes x"
    by (simp_all add: y closed_nodes_def none)
  note F = finish_facts [OF inv fr all y'(1)]
  obtain w where w: "w \<in> set (open_nodes x)" "nr x w = lowest x v" "(v, w) \<in> R\<^sup>*" using I(11) [OF T(1)] by blast
  have lt: "nr x w < nr x v" using w(2) low I(10) [OF T(1)] by simp
  obtain g where g: "g \<in> gray x" "nr x g \<le> nr x w" "(w, g) \<in> R\<^sup>*" using I(8) [OF w(1)] by blast
  then have g_y: "g \<in> gray y" using F(1) lt by auto
  then have rest: "rest \<noteq> []" by (auto simp: gray_def y')
  define par where "par = fst (hd rest)"
  have par: "par \<in> gray y" using rest by (cases rest) (auto simp: par_def gray_def y')
  have par_top: "nr x h \<le> nr x par" if "h \<in> gray y" for h
    using that I(4) fr by (cases rest) (auto simp: par_def gray_def y')
  have low_y: "lowest y h \<le> lowest x h" "h \<noteq> par \<Longrightarrow> lowest y h = lowest x h" "lowest y par \<le> lowest x v"
    "lowest y par = lowest x par \<or> lowest y par = lowest x v" for h
    by (auto simp: y par_def min_def)
  have v_reach: "(v, g) \<in> R\<^sup>*" using w(3) g(3) by simp
  have "search_inv R before y"
    unfolding search_inv_def y'
  proof (intro conjI ballI impI)
    show "gray y \<subseteq> set (open_nodes x)" using I(3) F(1) by auto
    show "sorted_wrt (\<lambda>a b. nr x b < nr x a) (map fst rest)" using I(4) fr by simp
    show "processed R before y u \<subseteq> found x \<union> {}" if "u \<in> found x" for u
      using I(6) [OF that] F(4) none by simp
    show "\<exists>g\<in>gray y. nr x g \<le> nr x u \<and> (u, g) \<in> R\<^sup>*" if u: "u \<in> set (open_nodes x)" for u
    proof -
      obtain h where h: "h \<in> gray x" "nr x h \<le> nr x u" "(u, h) \<in> R\<^sup>*" using I(8) [OF u] by blast
      show ?thesis
      proof (cases "h = v")
        case True
        then show ?thesis using h g g_y lt v_reach by (intro bexI [of _ g]) auto
      qed (use h F(1) in auto)
    qed
    show "(h, u) \<in> R\<^sup>*" if "h \<in> gray y" "u \<in> set (open_nodes x)" "nr x h \<le> nr x u" for h u
      using I(9) that F(1) by blast
    show "lowest y h \<le> nr x h" if "h \<in> gray y" for h
      using I(10) [of h] F(1) that low_y(1) le_trans by blast
    show "\<exists>w\<in>set (open_nodes x). nr x w = lowest y h \<and> (h, w) \<in> R\<^sup>*" if h: "h \<in> gray y" for h
    proof (cases "h = par \<and> lowest y par = lowest x v")
      case True
      then have "(h, v) \<in> R\<^sup>*" using I(9) [of h v] F(1,3) h T(2) by (metis insertCI less_imp_le)
      then have "(h, w) \<in> R\<^sup>*" using w(3) by simp
      then show ?thesis using w True by auto
    next
      case False
      then have "lowest y h = lowest x h" using low_y(2) [of h] low_y(4) by auto
      then show ?thesis using I(11) [of h] h F(1) by auto
    qed
    show "lowest y h \<le> nr x z \<or> (\<exists>k\<in>gray y. nr x h < nr x k \<and> nr x k \<le> nr x u)"
      if h: "h \<in> gray y" and u: "u \<in> set (open_nodes x)" and z: "z \<in> processed R before y u \<inter> set (open_nodes x)"
        and le: "nr x h \<le> nr x u" for h u z
    proof -
      have z': "z \<in> processed R before x u" "z \<in> set (open_nodes x)" using z F(4) by auto
      have "h \<in> gray x" using h F(1) by blast
      from I(12) [OF this u z' le] consider "lowest x h \<le> nr x z"
        | k where "k \<in> gray y" "nr x h < nr x k" "nr x k \<le> nr x u" | "nr x v \<le> nr x u" unfolding F(1) by auto
      then show ?thesis
      proof cases
        case 3
        show ?thesis
        proof (cases "h = par")
          case True
          have "lowest x v \<le> nr x z \<or> (\<exists>k\<in>gray x. nr x v < nr x k \<and> nr x k \<le> nr x u)"
            using I(12) [OF T(1) u z' 3] .
          then have "lowest x v \<le> nr x z" using T(3) by (meson not_le)
          then show ?thesis using True low_y(3) by simp
        next
          case False
          have "h \<noteq> par \<Longrightarrow> nr x h \<noteq> nr x par" using open_inj [OF inv, of h par] h par I(3) F(1) by blast
          then have "nr x h < nr x par" using par_top [OF h] False by simp
          moreover have "nr x par < nr x v" using F(3) [OF par] .
          ultimately show ?thesis using par 3 by (meson less_imp_le le_trans)
        qed
      qed (use low_y(1) [of h] in \<open>auto intro: le_trans\<close>)
    qed
    show "on_cycle x = {u \<in> closed_nodes x. (u, u) \<in> R\<^sup>+}" by (rule I(13))
  qed (use I none in auto)
  with rest show ?thesis by blast
qed

text \<open>The nodes that were opened with the node that ends a component.\<close>

definition open_part :: "search_state \<Rightarrow> nat \<Rightarrow> nat set" where
  "open_part x v = {u \<in> set (open_nodes x). nr x v \<le> nr x u}"

lemma component_closed:
  assumes inv: "search_inv R before x" and fr: "frames x = (v, p) # rest" and all: "before v p = R `` {v}"
    and none: "pending x = {}" and low: "lowest x v = nr x v" and u: "u \<in> open_part x v"
  shows "R `` {u} \<subseteq> open_part x v \<union> closed_nodes x"
proof
  note I = search_invD [OF inv]
  note T = top_gray [OF inv fr]
  have u: "u \<in> set (open_nodes x)" "nr x v \<le> nr x u" using u by (simp_all add: open_part_def)
  fix w
  assume w: "w \<in> R `` {u}"
  have "processed R before x u = R `` {u}"
  proof (cases "u \<in> gray x")
    case True
    then have "nr x u = nr x v" using T(3) u(2) by (meson le_antisym)
    then have "u = v" using open_inj [OF inv u(1) T(2)] by simp
    then show ?thesis using T(6) all by simp
  qed (auto simp: processed_def gray_def image_iff split: option.split dest!: map_of_SomeD)
  then have proc: "w \<in> processed R before x u" using w by simp
  then have "w \<in> found x" using I(1,6) u(1) none by blast
  moreover have "nr x v \<le> nr x w" if "w \<in> set (open_nodes x)"
  proof -
    have "lowest x v \<le> nr x w \<or> (\<exists>h\<in>gray x. nr x v < nr x h \<and> nr x h \<le> nr x u)"
      using I(12) [OF T(1) u(1) proc that u(2)] .
    then show ?thesis using T(3) low by (metis not_le)
  qed
  ultimately show "w \<in> open_part x v \<union> closed_nodes x" by (auto simp: open_part_def closed_nodes_def)
qed

lemma closed_under_rtrancl: "(a, b) \<in> R\<^sup>* \<Longrightarrow> a \<in> A \<Longrightarrow> (\<And>u. u \<in> A \<Longrightarrow> R `` {u} \<subseteq> A) \<Longrightarrow> b \<in> A"
  by (induction rule: rtrancl_induct) auto

lemma component_strongly_connected:
  assumes inv: "search_inv R before x" and fr: "frames x = (v, p) # rest" and all: "before v p = R `` {v}"
    and none: "pending x = {}" and low: "lowest x v = nr x v" and u: "u \<in> open_part x v"
  shows "(v, u) \<in> R\<^sup>*" "(u, v) \<in> R\<^sup>*" "(u, u) \<in> R\<^sup>+ \<longleftrightarrow> open_part x v \<noteq> {v} \<or> (v, v) \<in> R"
proof -
  note I = search_invD [OF inv]
  note T = top_gray [OF inv fr]
  let ?C = "open_part x v"
  let ?A = "?C \<union> closed_nodes x"
  have v: "v \<in> ?C" using T(2) by (simp add: open_part_def)
  have closed: "R `` {a} \<subseteq> ?A" if "a \<in> ?A" for a
    using that component_closed [OF inv fr all none low] I(7) by blast
  have reach: "(v, a) \<in> R\<^sup>* \<and> (a, v) \<in> R\<^sup>*" if a: "a \<in> ?C" for a
  proof
    have a': "a \<in> set (open_nodes x)" "nr x v \<le> nr x a" using a by (simp_all add: open_part_def)
    then show "(v, a) \<in> R\<^sup>*" using I(9) T(1) by blast
    obtain g where g: "g \<in> gray x" "(a, g) \<in> R\<^sup>*" using I(8) [OF a'(1)] by blast
    then have "g \<in> ?A" using closed_under_rtrancl [OF g(2), of ?A] a closed by blast
    then have "g \<in> ?C" using g(1) I(3) by (auto simp: closed_nodes_def)
    then have "nr x g = nr x v" using T(3) [OF g(1)] by (simp add: open_part_def)
    then have "g = v" using open_inj [OF inv _ T(2)] g(1) I(3) by blast
    then show "(a, v) \<in> R\<^sup>*" using g(2) by simp
  qed
  then show "(v, u) \<in> R\<^sup>*" "(u, v) \<in> R\<^sup>*" using u by blast+
  show "(u, u) \<in> R\<^sup>+ \<longleftrightarrow> ?C \<noteq> {v} \<or> (v, v) \<in> R"
  proof
    assume cyc: "(u, u) \<in> R\<^sup>+"
    show "?C \<noteq> {v} \<or> (v, v) \<in> R"
    proof (cases "?C = {v}")
      case True
      then have "(v, v) \<in> R\<^sup>+" using cyc u by simp
      then obtain w where w: "(v, w) \<in> R" "(w, v) \<in> R\<^sup>*" by (meson tranclD)
      then have "w \<in> ?A" using closed v by blast
      moreover have "w \<notin> closed_nodes x"
        using closed_under_rtrancl [OF w(2), of "closed_nodes x"] I(7) T(2) by (auto simp: closed_nodes_def)
      ultimately show ?thesis using True w(1) by auto
    qed simp
  next
    assume "?C \<noteq> {v} \<or> (v, v) \<in> R"
    then have "(v, v) \<in> R\<^sup>+"
    proof
      assume "?C \<noteq> {v}"
      then obtain a where "a \<in> ?C" "a \<noteq> v" using v by blast
      then show ?thesis using reach by (metis rtranclD rtrancl_trancl_trancl)
    qed simp
    then show "(u, u) \<in> R\<^sup>+" using reach [OF u] by (metis rtrancl_trancl_trancl trancl_rtrancl_trancl)
  qed
qed

lemma closed_reach:
  assumes "search_inv R before x" "a \<in> closed_nodes x" "(a, b) \<in> R\<^sup>*"
  shows "b \<in> closed_nodes x"
  using assms(3,2) search_invD(7) [OF assms(1)] by (rule closed_under_rtrancl)

lemma component_exact:
  assumes inv: "search_inv R before x" and fr: "frames x = (v, p) # rest" and all: "before v p = R `` {v}"
    and none: "pending x = {}" and low: "lowest x v = nr x v" and u: "u \<in> open_part x v"
  shows "open_part x v = {w. (u, w) \<in> R\<^sup>* \<and> (w, u) \<in> R\<^sup>*}"
proof (intro set_eqI iffI)
  note connected = component_strongly_connected [OF inv fr all none low]
  fix w
  show "w \<in> open_part x v \<Longrightarrow> w \<in> {w. (u, w) \<in> R\<^sup>* \<and> (w, u) \<in> R\<^sup>*}"
    using connected(1,2) [OF u] connected(1,2) [of w] by (blast intro: rtrancl_trans)
  assume w: "w \<in> {w. (u, w) \<in> R\<^sup>* \<and> (w, u) \<in> R\<^sup>*}"
  have "R `` {a} \<subseteq> open_part x v \<union> closed_nodes x" if "a \<in> open_part x v \<union> closed_nodes x" for a
    using that component_closed [OF inv fr all none low] search_invD(7) [OF inv] by blast
  then have "w \<in> open_part x v \<union> closed_nodes x"
    using closed_under_rtrancl [of u w R "open_part x v \<union> closed_nodes x"] w u by blast
  moreover have "w \<notin> closed_nodes x"
    using closed_reach [OF inv, of w u] w u by (auto simp: closed_nodes_def open_part_def)
  ultimately show "w \<in> open_part x v" by blast
qed

lemma finish_root_move:
  assumes inv: "search_inv R before x" and fr: "frames x = (v, p) # rest" and all: "before v p = R `` {v}"
    and none: "pending x = {}" and low: "lowest x v = nr x v"
    and popped: "open_nodes x = popped @ left" "set popped = open_part x v"
    and y: "y = x \<lparr> frames := rest, open_nodes := left,
      on_cycle := on_cycle x \<union> (if open_part x v \<noteq> {v} \<or> (v, v) \<in> R then open_part x v else {}) \<rparr>"
  shows "search_inv R before y"
proof -
  note I = search_invD [OF inv]
  note T = top_gray [OF inv fr]
  let ?C = "open_part x v"
  have y': "frames y = rest" "nr y = nr x" "found y = found x" "pending y = {}" "lowest y = lowest x"
    "next_nr y = next_nr x" "open_nodes y = left"
    by (simp_all add: y none)
  note F = finish_facts [OF inv fr all y'(1)]
  have left: "u \<in> set left \<longleftrightarrow> u \<in> set (open_nodes x) \<and> nr x u < nr x v" for u
  proof -
    have "nr x u < nr x v" if "u \<in> set left"
    proof -
      have "v \<in> set popped" using T(2) popped(2) by (simp add: open_part_def)
      then show ?thesis using I(2) popped(1) that by (auto simp: sorted_wrt_append)
    qed
    moreover have "\<not> nr x u < nr x v" if "u \<in> set popped" using that popped(2) by (auto simp: open_part_def)
    ultimately show ?thesis using popped(1) by auto
  qed
  have closed_y: "closed_nodes y = closed_nodes x \<union> ?C"
    using left I(1) by (auto simp: closed_nodes_def open_part_def y')
  have gray_y: "g \<in> gray y \<longleftrightarrow> g \<in> gray x \<and> nr x g < nr x v" for g
    by (auto simp: F(1) dest: F(3))
  show ?thesis
    unfolding search_inv_def y'
  proof (intro conjI ballI impI)
    show "set left \<subseteq> found x" using left I(1) by blast
    show "sorted_wrt (\<lambda>a b. nr x b < nr x a) left" using I(2) popped(1) by (simp add: sorted_wrt_append)
    show "gray y \<subseteq> set left" using gray_y left I(3) by blast
    show "sorted_wrt (\<lambda>a b. nr x b < nr x a) (map fst rest)" using I(4) fr by simp
    show "processed R before y u \<subseteq> found x \<union> {}" if "u \<in> found x" for u
      using I(6) [OF that] F(4) none by simp
    show "R `` {u} \<subseteq> closed_nodes y" if "u \<in> closed_nodes y" for u
      using that I(7) component_closed [OF inv fr all none low] unfolding closed_y by blast
    show "\<exists>g\<in>gray y. nr x g \<le> nr x u \<and> (u, g) \<in> R\<^sup>*" if u: "u \<in> set left" for u
      using I(8) [of u] u left gray_y by (meson le_less_trans)
    show "(g, u) \<in> R\<^sup>*" if "g \<in> gray y" "u \<in> set left" "nr x g \<le> nr x u" for g u
      using I(9) that gray_y left by blast
    show "lowest x g \<le> nr x g" if "g \<in> gray y" for g using I(10) that gray_y by blast
    show "\<exists>w\<in>set left. nr x w = lowest x g \<and> (g, w) \<in> R\<^sup>*" if g: "g \<in> gray y" for g
    proof -
      obtain w where "w \<in> set (open_nodes x)" "nr x w = lowest x g" "(g, w) \<in> R\<^sup>*" using I(11) g gray_y by blast
      moreover have "lowest x g < nr x v" using I(10) [of g] g gray_y by (meson le_less_trans)
      ultimately show ?thesis using left by auto
    qed
    show "lowest x g \<le> nr x w \<or> (\<exists>h\<in>gray y. nr x g < nr x h \<and> nr x h \<le> nr x u)"
      if g: "g \<in> gray y" and u: "u \<in> set left" and w: "w \<in> processed R before y u \<inter> set left"
        and le: "nr x g \<le> nr x u" for g u w
    proof -
      have "g \<in> gray x" "u \<in> set (open_nodes x)" "w \<in> processed R before x u" "w \<in> set (open_nodes x)"
        using g u w gray_y left F(4) by auto
      from I(12) [OF this le] show ?thesis using u left gray_y by (meson le_less_trans)
    qed
    show "on_cycle y = {u \<in> closed_nodes y. (u, u) \<in> R\<^sup>+}"
      using I(13) component_strongly_connected(3) [OF inv fr all none low] unfolding closed_y by (auto simp: y)
  qed (use I in auto)
qed

lemma root_below_parent:
  assumes inv: "search_inv R before x" and fr: "frames x = (v, p) # f # rest"
  shows "lowest x (fst f) < nr x v"
proof -
  have "fst f \<in> gray x" "nr x (fst f) < nr x v"
    using fr top_gray(5) [OF inv fr] by (auto simp: gray_def)
  then show ?thesis using search_invD(10) [OF inv] le_less_trans by blast
qed

lemma search_complete:
  assumes "search_inv R before x" "frames x = []"
  shows "on_cycle x = {u \<in> found x. (u, u) \<in> R\<^sup>+}"
  using search_invD(13) [OF assms(1)] gray_empty [OF assms] by (simp add: closed_nodes_def)

end
