(* ===== verification/Schema_Cycles.thy ===== *)
theory Schema_Cycles
  imports Schema_Order Component_Search
begin

text \<open>
  The cycle search of the schema graph makes the moves of \<open>Component_Search\<close> on the schemas the
  topological sort has left: it ends, and what it reports are the schemas on a cycle of \<open>extends\<close>.
\<close>

section \<open>Scanning the parents of a schema\<close>

definition left_edges :: "edge set \<Rightarrow> nat list \<Rightarrow> edge set" where
  "left_edges E V = {(i, p). (i, p) \<in> E \<and> i \<notin> set V \<and> p \<notin> set V}"

definition parent_list :: "schema_adjacency \<Rightarrow> nat \<Rightarrow> string list" where
  "parent_list adj v = adj_parents_of adj (adj_names adj ! v)"

definition live_at :: "schema_adjacency \<Rightarrow> string list \<Rightarrow> nat \<Rightarrow> nat \<Rightarrow> nat \<Rightarrow> bool" where
  "live_at adj visited v q t \<longleftrightarrow> q < length (parent_list adj v) \<and> parent_list adj v ! q \<notin> set visited
     \<and> index_of adj (parent_list adj v ! q) = Some t"

definition parents_before :: "schema_adjacency \<Rightarrow> string list \<Rightarrow> nat \<Rightarrow> nat \<Rightarrow> nat set" where
  "parents_before adj visited v p = {t. \<exists>q<p. live_at adj visited v q t}"

definition searches :: "schema_adjacency \<Rightarrow> nat list list \<Rightarrow> edge set \<Rightarrow> nat list \<Rightarrow> string list \<Rightarrow> bool" where
  "searches adj ks E V visited \<longleftrightarrow> adj_spec adj ks E \<and> set V \<subseteq> {..<node_count adj} \<and> visited = map ((!) (adj_names adj)) V"

lemma visited_names:
  assumes "searches adj ks E V visited" "i < node_count adj"
  shows "adj_names adj ! i \<in> set visited \<longleftrightarrow> i \<in> set V"
proof -
  have "distinct (adj_names adj)" "\<forall>j\<in>set V. j < length (adj_names adj)" "visited = map ((!) (adj_names adj)) V"
    using assms(1) adj_specD(2) by (auto simp: searches_def node_count_def)
  then show ?thesis using assms(2) by (auto simp: node_count_def nth_eq_iff_index_eq image_iff)
qed

lemma live_edge:
  assumes "searches adj ks E V visited" "v < node_count adj" "v \<notin> set V"
  shows "(\<exists>q. live_at adj visited v q t) \<longleftrightarrow> (v, t) \<in> left_edges E V"
proof -
  have adj: "adj_spec adj ks E" using assms(1) by (simp add: searches_def)
  note A = adj_specD [OF adj]
  have "(\<exists>q. live_at adj visited v q t) \<longleftrightarrow> (\<exists>n\<in>set (parent_list adj v). n \<notin> set visited \<and> index_of adj n = Some t)"
    unfolding live_at_def by (metis in_set_conv_nth)
  also have "\<dots> \<longleftrightarrow> t \<in> set (List.map_filter (index_of adj) (parent_list adj v)) \<and> t \<notin> set V"
    using visited_names [OF assms(1)] A(4) by (auto simp: in_map_filter)
  also have "\<dots> \<longleftrightarrow> (v, t) \<in> left_edges E V"
    using A(10) [OF assms(2)] assms(3) by (simp add: parent_list_def left_edges_def)
  finally show ?thesis .
qed

lemma scan_parents_spec:
  assumes "cd_adjacency d = adj" "cd_visited d = visited" "length (parent_list adj v) \<le> u32_max"
    "rest = drop pos (parent_list adj v)" "pos \<le> length (parent_list adj v)"
  shows "case scan_parents d rest pos of
      None \<Rightarrow> \<forall>q t. pos \<le> q \<longrightarrow> \<not> live_at adj visited v q t
    | Some (t, q') \<Rightarrow> \<exists>r. q' = Suc r \<and> pos \<le> r \<and> live_at adj visited v r t \<and> (\<forall>q t. pos \<le> q \<longrightarrow> q < r \<longrightarrow> \<not> live_at adj visited v q t)"
  using assms(4,5)
proof (induction rest arbitrary: pos)
  case Nil
  then show ?case by (simp add: live_at_def)
next
  case (Cons n rest)
  have pos: "pos < length (parent_list adj v)" and at: "parent_list adj v ! pos = n"
    and rest: "rest = drop (Suc pos) (parent_list adj v)"
    using Cons.prems by (metis drop_all leI list.distinct(1)) (metis Cons.prems(1) hd_drop_conv_nth list.sel(1) drop_all leI list.distinct(1), metis Cons.prems(1) drop_Suc list.sel(3) tl_drop)
  have next_pos: "sat_add pos 1 = Suc pos" using pos assms(3) by (simp add: sat_add_def u32_max_def usize_max_def)
  note IH = Cons.IH [OF rest] 
  show ?case
  proof (cases "n \<notin> set visited \<and> (\<exists>t. index_of adj n = Some t)")
    case True
    then obtain t where "index_of adj n = Some t" by blast
    then show ?thesis using True pos at next_pos assms(1,2) by (auto simp: live_at_def)
  next
    case False
    then have dead: "\<not> live_at adj visited v pos t" for t using at by (auto simp: live_at_def)
    have step: "scan_parents d (n # rest) pos = scan_parents d rest (Suc pos)"
      using False next_pos assms(1,2) by (auto split: option.split)
    have le: "pos \<le> q \<longleftrightarrow> q = pos \<or> Suc pos \<le> q" for q by auto
    show ?thesis
      using IH pos dead unfolding step by (auto simp: le split: option.splits)
  qed
qed

lemma parents_before_simps:
  "parents_before adj visited v 0 = {}"
  "live_at adj visited v r t \<Longrightarrow> parents_before adj visited v (Suc r) = insert t (parents_before adj visited v r)"
  "p \<le> r \<Longrightarrow> \<forall>q t. p \<le> q \<longrightarrow> q < r \<longrightarrow> \<not> live_at adj visited v q t
    \<Longrightarrow> parents_before adj visited v r = parents_before adj visited v p"
proof -
  show "parents_before adj visited v 0 = {}" by (simp add: parents_before_def)
  show "live_at adj visited v r t \<Longrightarrow> parents_before adj visited v (Suc r) = insert t (parents_before adj visited v r)"
    by (auto simp: parents_before_def live_at_def less_Suc_eq)
  show "p \<le> r \<Longrightarrow> \<forall>q t. p \<le> q \<longrightarrow> q < r \<longrightarrow> \<not> live_at adj visited v q t
      \<Longrightarrow> parents_before adj visited v r = parents_before adj visited v p"
    by (auto simp: parents_before_def) (metis leI less_le_trans)+
qed

lemma next_parent:
  assumes run: "searches adj ks E V visited" and d: "cd_adjacency d = adj" "cd_visited d = visited"
    and v: "v < node_count adj" "v \<notin> set V" and p: "p \<le> length (parent_list adj v)"
  shows "case next_unvisited_parent d v p of
      None \<Rightarrow> parents_before adj visited v p = left_edges E V `` {v}
    | Some (t, q) \<Rightarrow> p < q \<and> q \<le> length (parent_list adj v) \<and> (v, t) \<in> left_edges E V
        \<and> parents_before adj visited v q = insert t (parents_before adj visited v p)"
proof -
  have adj: "adj_spec adj ks E" using run by (simp add: searches_def)
  have scan: "next_unvisited_parent d v p = scan_parents d (drop p (parent_list adj v)) p"
    using v d adj_specD(13) [OF adj] by (simp add: next_unvisited_parent_def parent_list_def)
  have len: "length (parent_list adj v) \<le> u32_max"
    using adj_specD(14) [OF adj v(1)] by (simp add: parent_list_def)
  note spec = scan_parents_spec [OF d len refl p]
  show ?thesis
  proof (cases "scan_parents d (drop p (parent_list adj v)) p")
    case None
    then have dead: "\<not> live_at adj visited v q t" if "p \<le> q" for q t using spec that by simp
    have "t \<in> parents_before adj visited v p \<longleftrightarrow> (\<exists>q. live_at adj visited v q t)" for t
      unfolding parents_before_def mem_Collect_eq using dead not_le by blast
    then show ?thesis using None live_edge [OF run v] by (auto simp: scan)
  next
    case (Some found_at)
    obtain t q where found_at: "found_at = (t, q)" by fastforce
    then obtain r where r: "q = Suc r" "p \<le> r" "live_at adj visited v r t"
      "\<forall>q t. p \<le> q \<longrightarrow> q < r \<longrightarrow> \<not> live_at adj visited v q t"
      using spec Some by auto
    have "(v, t) \<in> left_edges E V" using live_edge [OF run v, of t] r(3) by blast
    moreover have "parents_before adj visited v q = insert t (parents_before adj visited v p)"
      using parents_before_simps(2) [OF r(3)] parents_before_simps(3) [OF r(2,4)] r(1) by simp
    moreover have "q \<le> length (parent_list adj v)" using r(1,3) by (simp add: live_at_def)
    ultimately show ?thesis using Some r(1,2) by (simp add: scan found_at)
  qed
qed

section \<open>The state of the code as a search\<close>

definition view :: "cycle_detector \<Rightarrow> work_stack \<Rightarrow> nat set \<Rightarrow> search_state" where
  "view d W P = (let s = cd_search d; adj = cd_adjacency d in
     \<lparr> found = {v. is_discovered s v}, nr = (\<lambda>v. the (discovery_order_of s v)),
       lowest = (\<lambda>v. lowest_reachable s ! v), open_nodes = component_stack s, frames = W, pending = P,
       on_cycle = {i. i < node_count adj \<and> adj_names adj ! i \<in> set (cd_cyclic d)},
       next_nr = next_discovery_order s \<rparr>)"

lemma view_simps [simp]:
  "found (view d W P) = {v. is_discovered (cd_search d) v}"
  "nr (view d W P) = (\<lambda>v. the (discovery_order_of (cd_search d) v))"
  "lowest (view d W P) = (\<lambda>v. lowest_reachable (cd_search d) ! v)"
  "open_nodes (view d W P) = component_stack (cd_search d)"
  "frames (view d W P) = W" "pending (view d W P) = P" "next_nr (view d W P) = next_discovery_order (cd_search d)"
  by (simp_all add: view_def Let_def)

text \<open>What has been reported: one list of nodes for each component, in the order of the nodes, no component
  leading to a later one.\<close>

definition component_lists :: "edge set \<Rightarrow> nat set \<Rightarrow> nat list list \<Rightarrow> bool" where
  "component_lists R N comps \<longleftrightarrow>
     (\<forall>C\<in>set comps. C \<noteq> [] \<and> sorted_wrt (<) C \<and> set C \<subseteq> N \<and> (\<forall>a\<in>set C. set C = {b. (a, b) \<in> R\<^sup>* \<and> (b, a) \<in> R\<^sup>*}))
   \<and> sorted_wrt (\<lambda>C D. \<forall>a\<in>set C. \<forall>b\<in>set D. (a, b) \<notin> R\<^sup>*) comps"

definition reported :: "schema_adjacency \<Rightarrow> edge set \<Rightarrow> nat list \<Rightarrow> string list \<Rightarrow> bool" where
  "reported adj E V cs \<longleftrightarrow> (\<exists>comps. cs = concat (map (map ((!) (adj_names adj))) comps)
     \<and> component_lists (left_edges E V) ({..<node_count adj} - set V) comps)"

lemma reported_none: "reported adj E V []"
  by (auto simp: reported_def component_lists_def intro: exI [of _ "[]"])

lemma reported_more:
  assumes rep: "reported adj E V cs" and C: "distinct C" "set C \<subseteq> {..<node_count adj} - set V" "C \<noteq> []"
    and component: "\<And>a. a \<in> set C \<Longrightarrow> set C = {b. (a, b) \<in> (left_edges E V)\<^sup>* \<and> (b, a) \<in> (left_edges E V)\<^sup>*}"
    and later: "\<And>a b. a < node_count adj \<Longrightarrow> adj_names adj ! a \<in> set cs \<Longrightarrow> b \<in> set C \<Longrightarrow> (a, b) \<notin> (left_edges E V)\<^sup>*"
  shows "reported adj E V (cs @ map ((!) (adj_names adj)) (sort C))"
proof -
  let ?R = "left_edges E V"
  obtain comps where comps: "cs = concat (map (map ((!) (adj_names adj))) comps)"
    "component_lists ?R ({..<node_count adj} - set V) comps"
    using rep by (auto simp: reported_def)
  have "(a, b) \<notin> ?R\<^sup>*" if "D \<in> set comps" "a \<in> set D" "b \<in> set C" for D a b
    using that comps by (intro later) (auto simp: component_lists_def)
  moreover have "sorted_wrt (<) (sort C)" using C(1) by (simp add: strict_sorted_iff)
  moreover have "sort C \<noteq> []" using C(3) by (metis length_0_conv length_sort)
  moreover have "\<forall>a\<in>set (sort C). set (sort C) = {b. (a, b) \<in> ?R\<^sup>* \<and> (b, a) \<in> ?R\<^sup>*}" using component by simp
  ultimately have "component_lists ?R ({..<node_count adj} - set V) (comps @ [sort C])"
    using comps(2) C(2) unfolding component_lists_def by (auto simp: sorted_wrt_append)
  then show ?thesis using comps(1) unfolding reported_def by (intro exI [of _ "comps @ [sort C]"]) simp
qed

definition tables_ok :: "schema_adjacency \<Rightarrow> edge set \<Rightarrow> nat list \<Rightarrow> string list \<Rightarrow> cycle_detector \<Rightarrow> bool" where
  "tables_ok adj E V visited d \<longleftrightarrow> cd_adjacency d = adj \<and> cd_visited d = visited
     \<and> length (discovery_order (cd_search d)) = node_count adj
     \<and> length (lowest_reachable (cd_search d)) = node_count adj
     \<and> length (on_stack (cd_search d)) = node_count adj
     \<and> (\<forall>v<node_count adj. on_stack (cd_search d) ! v \<longleftrightarrow> v \<in> set (component_stack (cd_search d)))
     \<and> {v. is_discovered (cd_search d) v} \<subseteq> {..<node_count adj} - set V
     \<and> next_discovery_order (cd_search d) = card {v. is_discovered (cd_search d) v}
     \<and> distinct (cd_cyclic d) \<and> set (cd_cyclic d) \<subseteq> set (adj_names adj) \<and> reported adj E V (cd_cyclic d)"

definition frame_ok :: "schema_adjacency \<Rightarrow> nat list \<Rightarrow> nat \<times> nat \<Rightarrow> bool" where
  "frame_ok adj V = (\<lambda>(v, p). v < node_count adj \<and> v \<notin> set V \<and> p \<le> length (parent_list adj v))"

text \<open>The state when the top frame is discovered, and between the steps of the loop.\<close>

definition scanning ::
  "schema_adjacency \<Rightarrow> edge set \<Rightarrow> nat list \<Rightarrow> string list \<Rightarrow> cycle_detector \<Rightarrow> work_stack \<Rightarrow> nat set \<Rightarrow> bool"
where
  "scanning adj E V visited d W P \<longleftrightarrow> tables_ok adj E V visited d \<and> list_all (frame_ok adj V) W
     \<and> search_inv (left_edges E V) (parents_before adj visited) (view d W P)"

definition cycle_inv :: "schema_adjacency \<Rightarrow> edge set \<Rightarrow> nat list \<Rightarrow> string list \<Rightarrow> cycle_detector \<times> work_stack \<Rightarrow> bool" where
  "cycle_inv adj E V visited = (\<lambda>(d, W). list_all (\<lambda>(v, p). p > 0) (tl W) \<and> (case W of
       (v, 0) # W' \<Rightarrow> \<not> is_discovered (cd_search d) v \<and> frame_ok adj V (v, 0) \<and> scanning adj E V visited d W' {v}
     | _ \<Rightarrow> scanning adj E V visited d W {}))"

lemma discovered_of:
  "length (discovery_order s) = n \<Longrightarrow> v < n \<Longrightarrow> discovery_order_of s v = discovery_order s ! v"
  by (simp add: discovery_order_of_def)

lemma discover_simps:
  assumes "tables_ok adj E V visited d" "v < node_count adj"
  shows "discovery_order_of (discover v (cd_search d)) u
      = (if u = v then Some (next_discovery_order (cd_search d)) else discovery_order_of (cd_search d) u)"
    "lowest_reachable (discover v (cd_search d)) = (lowest_reachable (cd_search d))[v := next_discovery_order (cd_search d)]"
    "component_stack (discover v (cd_search d)) = v # component_stack (cd_search d)"
    "on_stack (discover v (cd_search d)) = (on_stack (cd_search d))[v := True]"
    "next_discovery_order (discover v (cd_search d)) = sat_u32 (next_discovery_order (cd_search d) + 1)"
    "length (discovery_order (discover v (cd_search d))) = node_count adj"
  using assms by (auto simp: tables_ok_def discover_def Let_def slice_modify_def discovery_order_of_def slice_get_def)

lemma tables_discovered: "tables_ok adj E V visited d \<Longrightarrow> is_discovered (cd_search d) v \<Longrightarrow> v < node_count adj \<and> v \<notin> set V"
  by (auto simp: tables_ok_def)

lemma discover_scanning:
  assumes run: "searches adj ks E V visited" and sc: "scanning adj E V visited d W {v}"
    and v: "frame_ok adj V (v, 0)" "\<not> is_discovered (cd_search d) v"
  shows "scanning adj E V visited (d \<lparr> cd_search := discover v (cd_search d) \<rparr>) ((v, 0) # W) {}"
proof -
  let ?s = "cd_search d" and ?s' = "discover v (cd_search d)"
  let ?d' = "d \<lparr> cd_search := ?s' \<rparr>"
  have ok: "tables_ok adj E V visited d" using sc by (simp add: scanning_def)
  have v': "v < node_count adj" "v \<notin> set V" using v(1) by (simp_all add: frame_ok_def)
  note D = discover_simps [OF ok v'(1)]
  let ?F = "{u. is_discovered ?s u}"
  have F: "?F \<subseteq> {..<node_count adj}" "finite ?F" "next_discovery_order ?s = card ?F"
    using ok finite_subset [of ?F "{..<node_count adj}"] by (auto simp: tables_ok_def)
  have F': "{u. is_discovered ?s' u} = insert v ?F" by (auto simp: is_discovered_def D)
  have "card (insert v ?F) \<le> node_count adj" using F v' card_mono [of "{..<node_count adj}" "insert v ?F"] by simp
  then have "card ?F + 1 \<le> u32_max"
    using run v(2) F(2) adj_specD(1) [of adj ks E] by (simp add: searches_def)
  then have rank: "next_discovery_order ?s' = Suc (next_discovery_order ?s)"
    using F(3) by (simp add: D sat_u32_def)
  have "search_inv (left_edges E V) (parents_before adj visited) (view ?d' ((v, 0) # W) {})"
  proof (rule discover_move [of _ _ "view d W {v}"])
    show "view ?d' ((v, 0) # W) {} = view d W {v} \<lparr> found := insert v (found (view d W {v})),
        nr := (nr (view d W {v}))(v := next_nr (view d W {v})),
        lowest := (lowest (view d W {v}))(v := next_nr (view d W {v})),
        open_nodes := v # open_nodes (view d W {v}), frames := (v, 0) # frames (view d W {v}), pending := {},
        next_nr := Suc (next_nr (view d W {v})) \<rparr>"
      using ok v' F' rank by (auto simp: view_def Let_def D fun_eq_iff nth_list_update tables_ok_def)
  qed (use sc parents_before_simps(1) in \<open>auto simp: scanning_def\<close>)
  moreover have "tables_ok adj E V visited ?d'"
    using ok v' F v(2) F' rank by (auto simp: tables_ok_def D nth_list_update)
  ultimately show ?thesis using sc v(1) by (simp add: scanning_def)
qed

section \<open>Steps of the loop\<close>

lemma scanning_top:
  assumes "scanning adj E V visited d ((v, p) # W) {}"
  shows "v < node_count adj" "v \<notin> set V" "is_discovered (cd_search d) v" "v \<in> set (component_stack (cd_search d))"
    "discovery_order_of (cd_search d) v = Some (nr (view d ((v, p) # W) {}) v)"
    "lowest_reachable_of (cd_search d) v = Some (lowest (view d ((v, p) # W) {}) v)"
proof -
  let ?x = "view d ((v, p) # W) {}"
  have inv: "search_inv (left_edges E V) (parents_before adj visited) ?x"
    and ok: "tables_ok adj E V visited d" and fr: "frame_ok adj V (v, p)"
    using assms by (simp_all add: scanning_def)
  show v: "v < node_count adj" "v \<notin> set V" using fr by (simp_all add: frame_ok_def)
  show stack: "v \<in> set (component_stack (cd_search d))" using top_gray(2) [OF inv] by simp
  then show "is_discovered (cd_search d) v" using search_invD(1) [OF inv] by auto
  then show "discovery_order_of (cd_search d) v = Some (nr ?x v)" by (auto simp: is_discovered_def)
  show "lowest_reachable_of (cd_search d) v = Some (lowest ?x v)"
    using ok v by (simp add: lowest_reachable_of_def tables_ok_def)
qed

lemma lower_simps:
  "lowest_reachable (lower_reachable v c s) = slice_modify v (\<lambda>low. min low c) (lowest_reachable s)"
  "discovery_order (lower_reachable v c s) = discovery_order s"
  "discovery_order_of (lower_reachable v c s) = discovery_order_of s"
  "is_discovered (lower_reachable v c s) = is_discovered s"
  "component_stack (lower_reachable v c s) = component_stack s" "on_stack (lower_reachable v c s) = on_stack s"
  "next_discovery_order (lower_reachable v c s) = next_discovery_order s"
  by (auto simp: lower_reachable_def discovery_order_of_def is_discovered_def fun_eq_iff)

lemma tables_lower:
  "tables_ok adj E V visited d \<Longrightarrow> tables_ok adj E V visited (d \<lparr> cd_search := lower_reachable v c (cd_search d) \<rparr>)"
  by (simp add: tables_ok_def lower_simps)

lemma view_lower:
  assumes "tables_ok adj E V visited d" "v < node_count adj"
  shows "view (d \<lparr> cd_search := lower_reachable v c (cd_search d) \<rparr>) W P
    = view d W P \<lparr> lowest := (lowest (view d W P))(v := min (lowest (view d W P) v) c) \<rparr>"
  using assms by (auto simp: view_def Let_def lower_simps fun_eq_iff tables_ok_def slice_modify_def nth_list_update)

lemma advance_step:
  assumes run: "searches adj ks E V visited" and sc: "scanning adj E V visited d ((v, p) # W) {}"
    and W: "list_all (\<lambda>(v, p). p > 0) W" and t: "next_unvisited_parent d v p = Some (t, q)"
  shows "cycle_inv adj E V visited (advance v t q (d, (v, p) # W))"
proof -
  let ?x = "view d ((v, p) # W) {}"
  let ?R = "left_edges E V"
  have inv: "search_inv ?R (parents_before adj visited) ?x" and ok: "tables_ok adj E V visited d"
    and frames: "frame_ok adj V (v, p)" "list_all (frame_ok adj V) W"
    using sc by (simp_all add: scanning_def)
  have d: "cd_adjacency d = adj" "cd_visited d = visited" using ok by (simp_all add: tables_ok_def)
  note top = scanning_top [OF sc]
  have edge: "p < q" "q \<le> length (parent_list adj v)" "(v, t) \<in> ?R"
    "parents_before adj visited v q = insert t (parents_before adj visited v p)"
    using next_parent [OF run d top(1,2), of p] frames(1) t by (simp_all add: frame_ok_def)
  have t': "t < node_count adj" "t \<notin> set V"
    using edge(3) adj_specD(7) [of adj ks E] run by (auto simp: left_edges_def searches_def)
  have frames': "list_all (frame_ok adj V) ((v, q) # W)" using frames edge(2) top by (simp add: frame_ok_def)
  have open_found: "is_discovered (cd_search d) t" if "t \<in> set (component_stack (cd_search d))"
    using search_invD(1) [OF inv] that by auto
  have stack: "is_on_stack (cd_search d) t \<longleftrightarrow> t \<in> set (component_stack (cd_search d))"
    using ok t'(1) by (simp add: is_on_stack_def tables_ok_def)
  note move = scan_move [OF inv _ edge(3,4), where rest = W]
  show ?thesis
  proof (cases "is_discovered (cd_search d) t")
    case False
    then have "search_inv ?R (parents_before adj visited) (view d ((v, q) # W) {t})"
      using open_found by (intro move) (auto simp: view_def Let_def)
    then have "scanning adj E V visited d ((v, q) # W) {t}" using ok frames' by (simp add: scanning_def)
    then show ?thesis using False W edge(1) t' by (simp add: cycle_inv_def frame_ok_def)
  next
    case True
    note found = True
    show ?thesis
    proof (cases "is_on_stack (cd_search d) t")
      case False
      then have "search_inv ?R (parents_before adj visited) (view d ((v, q) # W) {})"
        using found stack by (intro move) (auto simp: view_def Let_def)
      then have "scanning adj E V visited d ((v, q) # W) {}" using ok frames' by (simp add: scanning_def)
      then show ?thesis using False found W edge(1) by (cases q) (simp_all add: cycle_inv_def)
    next
      case True
      obtain r where r: "discovery_order_of (cd_search d) t = Some r" using found by (auto simp: is_discovered_def)
      let ?d' = "d \<lparr> cd_search := lower_reachable v r (cd_search d) \<rparr>"
      have "search_inv ?R (parents_before adj visited) (view ?d' ((v, q) # W) {})"
        unfolding view_lower [OF ok top(1)]
        using found stack True r by (intro move) (auto simp: view_def Let_def)
      then have "scanning adj E V visited ?d' ((v, q) # W) {}"
        using tables_lower [OF ok] frames' by (simp add: scanning_def)
      then show ?thesis using True found r W edge(1) by (cases q) (simp_all add: cycle_inv_def)
    qed
  qed
qed

lemma pop_loop_split:
  "v \<notin> set pre \<Longrightarrow> pop_loop v (pre @ v # post) flags
    = (pre @ [v], post, fold (\<lambda>u. slice_modify u (\<lambda>_. False)) (pre @ [v]) flags)"
  by (induction pre arbitrary: flags) (auto simp: Let_def)

lemma strict_sorted_distinct: "sorted_wrt (\<lambda>a b. (k b :: nat) < k a) xs \<Longrightarrow> distinct xs"
  by (induction xs) auto

lemma fold_clear:
  "length (fold (\<lambda>u. slice_modify u (\<lambda>_. False)) us flags) = length flags"
  "j < length flags \<Longrightarrow> fold (\<lambda>u. slice_modify u (\<lambda>_. False)) us flags ! j \<longleftrightarrow> flags ! j \<and> j \<notin> set us"
  by (induction us arbitrary: flags) (auto simp: nth_slice_modify)

lemma names_of_component:
  assumes "adj_spec adj ks E" "set cs \<subseteq> {..<node_count adj}" "distinct cs"
  shows "List.map_filter (name_of adj) (sort cs) = map ((!) (adj_names adj)) (sort cs)"
    "distinct (map ((!) (adj_names adj)) (sort cs))"
    "i < node_count adj \<Longrightarrow> adj_names adj ! i \<in> set (map ((!) (adj_names adj)) (sort cs)) \<longleftrightarrow> i \<in> set cs"
    "set (map ((!) (adj_names adj)) (sort cs)) \<subseteq> set (adj_names adj)"
proof -
  note A = adj_specD [OF assms(1)]
  have "List.map_filter (name_of adj) xs = map ((!) (adj_names adj)) xs" if "set xs \<subseteq> {..<node_count adj}" for xs
    using that A(13) by (induction xs) (simp_all add: List.map_filter_simps)
  then show "List.map_filter (name_of adj) (sort cs) = map ((!) (adj_names adj)) (sort cs)" using assms(2) by simp
  have inj: "inj_on ((!) (adj_names adj)) {..<node_count adj}"
    using A(2) by (auto simp: inj_on_def node_count_def nth_eq_iff_index_eq)
  then show "distinct (map ((!) (adj_names adj)) (sort cs))"
    using assms(2,3) by (simp add: distinct_map inj_on_subset)
  show "i < node_count adj \<Longrightarrow> adj_names adj ! i \<in> set (map ((!) (adj_names adj)) (sort cs)) \<longleftrightarrow> i \<in> set cs"
    using inj assms(2) by (auto dest: inj_onD)
  show "set (map ((!) (adj_names adj)) (sort cs)) \<subseteq> set (adj_names adj)"
    using assms(2) by (auto simp: node_count_def)
qed

lemma self_extend:
  assumes "searches adj ks E V visited" "cd_adjacency d = adj" "cd_visited d = visited" "v < node_count adj" "v \<notin> set V"
  shows "has_self_extend d v \<longleftrightarrow> (v, v) \<in> left_edges E V"
proof -
  have "has_self_extend d v \<longleftrightarrow> (\<exists>n\<in>set (parent_list adj v). n \<notin> set visited \<and> index_of adj n = Some v)"
    using assms(1-4) adj_specD(13) [of adj ks E] by (simp add: has_self_extend_def searches_def list_ex_iff parent_list_def)
  also have "\<dots> \<longleftrightarrow> (\<exists>q. live_at adj visited v q v)" unfolding live_at_def by (metis in_set_conv_nth)
  finally show ?thesis using live_edge [OF assms(1,4,5)] by blast
qed

text \<open>The top frame is finished: its component is recorded when it is the root of one.\<close>

lemma record_step:
  assumes run: "searches adj ks E V visited" and sc: "scanning adj E V visited d ((v, p) # W) {}"
    and all: "parents_before adj visited v p = left_edges E V `` {v}"
    and root: "lowest (view d ((v, p) # W) {}) v = nr (view d ((v, p) # W) {}) v"
  shows "scanning adj E V visited (record_cyclic_component v d) W {}"
    "lowest_reachable (cd_search (record_cyclic_component v d)) = lowest_reachable (cd_search d)"
proof -
  let ?x = "view d ((v, p) # W) {}"
  let ?s = "cd_search d"
  let ?R = "left_edges E V"
  have inv: "search_inv ?R (parents_before adj visited) ?x" and ok: "tables_ok adj E V visited d"
    and frames: "list_all (frame_ok adj V) W"
    using sc by (simp_all add: scanning_def)
  have d: "cd_adjacency d = adj" "cd_visited d = visited" and adj: "adj_spec adj ks E"
    using ok run by (simp_all add: tables_ok_def searches_def)
  note I = search_invD [OF inv]
  note top = scanning_top [OF sc]
  obtain pre post where split: "component_stack ?s = pre @ v # post" "v \<notin> set pre"
    using top(4) split_list_first by fastforce
  have sorted: "\<forall>u\<in>set pre. nr ?x v < nr ?x u" "\<forall>u\<in>set post. nr ?x u < nr ?x v" "distinct pre"
    using I(2) split sorted_wrt_append [of _ pre "v # post"]
      strict_sorted_distinct [of "nr ?x" pre] by (auto simp: sorted_wrt_append)
  let ?C = "pre @ [v]"
  have component: "set ?C = open_part ?x v" using sorted split(1) by (auto simp: open_part_def)
  have C: "distinct ?C" "set ?C \<subseteq> {..<node_count adj} - set V"
    using sorted(3) split I(1) ok by (auto simp: tables_ok_def)
  define d' where "d' = d \<lparr> cd_search := ?s \<lparr> component_stack := post,
      on_stack := fold (\<lambda>u. slice_modify u (\<lambda>_. False)) ?C (on_stack ?s) \<rparr> \<rparr>"
  have recorded: "record_cyclic_component v d = (if length ?C > 1 \<or> (v, v) \<in> ?R
      then d' \<lparr> cd_cyclic := cd_cyclic d @ map ((!) (adj_names adj)) (sort ?C) \<rparr> else d')"
  proof -
    have pop: "pop_component v ?s = (?C, cd_search d')"
      by (simp add: pop_component_def split(1) pop_loop_split [OF split(2)] d'_def)
    have guard: "(discovery_order_of ?s v = None \<or> discovery_order_of ?s v \<noteq> lowest_reachable_of ?s v) = False"
      unfolding top(5,6) root by simp
    have d': "d \<lparr> cd_search := cd_search d' \<rparr> = d'" "cd_adjacency d' = adj" "cd_visited d' = visited" "cd_cyclic d' = cd_cyclic d"
      using d by (simp_all add: d'_def)
    have self: "has_self_extend d' v = ((v, v) \<in> ?R)" by (rule self_extend [OF run d'(2,3) top(1,2)])
    have names: "List.map_filter (name_of adj) (sort ?C) = map ((!) (adj_names adj)) (sort ?C)"
      using names_of_component(1) [OF adj _ C(1)] C(2) by blast
    show ?thesis
      unfolding record_cyclic_component_def guard pop Let_def case_prod_conv d' self names if_False ..
  qed
  have single: "length ?C > 1 \<longleftrightarrow> open_part ?x v \<noteq> {v}"
    using split(2) by (cases pre) (auto simp flip: component)
  show "lowest_reachable (cd_search (record_cyclic_component v d)) = lowest_reachable ?s"
    by (simp add: recorded d'_def)
  have fresh: "adj_names adj ! i \<notin> set (cd_cyclic d)" if "i \<in> set ?C" for i
  proof -
    have "i \<notin> on_cycle ?x" using that I(13) component by (auto simp: closed_nodes_def open_part_def)
    then show ?thesis using that C(2) d by (auto simp: view_def Let_def)
  qed
  have discovered: "is_discovered (cd_search d') = is_discovered ?s"
    by (simp add: fun_eq_iff is_discovered_def discovery_order_of_def d'_def)
  have apart: "u \<in> set post \<longleftrightarrow> u \<in> set (component_stack ?s) \<and> u \<notin> set ?C" for u
    using sorted(1,2) unfolding split(1) by (auto dest: less_asym)
  have "on_stack (cd_search d') ! u \<longleftrightarrow> u \<in> set post" if "u < node_count adj" for u
    using ok that fold_clear(2) [of u "on_stack ?s" ?C] unfolding apart by (simp add: tables_ok_def d'_def)
  then have ok': "tables_ok adj E V visited d'"
    using ok fold_clear(1) [of ?C "on_stack ?s"] unfolding tables_ok_def discovered by (simp add: d'_def)
  have in_range: "set ?C \<subseteq> {..<node_count adj}" using C(2) by blast
  have "set (map ((!) (adj_names adj)) (sort ?C)) \<inter> set (cd_cyclic d) = {}"
    using fresh by (simp add: disjoint_iff image_iff) blast
  moreover have "reported adj E V (cd_cyclic d @ map ((!) (adj_names adj)) (sort ?C))"
  proof (rule reported_more [OF _ C])
    show "reported adj E V (cd_cyclic d)" using ok by (simp add: tables_ok_def)
    show "set ?C = {b. (a, b) \<in> ?R\<^sup>* \<and> (b, a) \<in> ?R\<^sup>*}" if "a \<in> set ?C" for a
      using that unfolding component by (intro component_exact [OF inv _ all _ root]) simp_all
    show "(a, b) \<notin> ?R\<^sup>*" if "a < node_count adj" "adj_names adj ! a \<in> set (cd_cyclic d)" "b \<in> set ?C" for a b
    proof
      assume "(a, b) \<in> ?R\<^sup>*"
      have "a \<in> on_cycle ?x" using that d by (simp add: view_def Let_def)
      then have "a \<in> closed_nodes ?x" using I(13) by blast
      from closed_reach [OF inv this \<open>(a, b) \<in> ?R\<^sup>*\<close>] show False
        using that(3) unfolding component by (simp add: closed_nodes_def open_part_def)
    qed
  qed simp
  ultimately have "tables_ok adj E V visited (record_cyclic_component v d)"
    using ok' names_of_component(2,4) [OF adj in_range C(1)]
    unfolding recorded tables_ok_def by (auto simp: d'_def)
  moreover have "search_inv ?R (parents_before adj visited) (view (record_cyclic_component v d) W {})"
  proof (rule finish_root_move [OF inv _ all _ root, where rest = W and popped = ?C and left = post])
    show "set ?C = open_part ?x v" by (rule component)
    show "view (record_cyclic_component v d) W {} = ?x \<lparr> frames := W, open_nodes := post,
      on_cycle := on_cycle ?x \<union> (if open_part ?x v \<noteq> {v} \<or> (v, v) \<in> ?R then open_part ?x v else {}) \<rparr>"
      using names_of_component(3) [OF adj _ C(1)] C(2) d
      unfolding recorded single component [symmetric]
      by (auto simp: view_def Let_def d'_def discovery_order_of_def is_discovered_def)
  qed (use split in simp_all)
  ultimately show "scanning adj E V visited (record_cyclic_component v d) W {}"
    using frames by (simp add: scanning_def)
qed

lemma record_skips:
  "discovery_order_of (cd_search d) v \<noteq> lowest_reachable_of (cd_search d) v \<Longrightarrow> record_cyclic_component v d = d"
  by (simp add: record_cyclic_component_def)

lemma finish_step:
  assumes run: "searches adj ks E V visited" and sc: "scanning adj E V visited d ((v, p) # W) {}"
    and W: "list_all (\<lambda>(v, p). p > 0) W" and stop: "next_unvisited_parent d v p = None"
  shows "cycle_inv adj E V visited (finish_node v (d, (v, p) # W))"
proof -
  let ?x = "view d ((v, p) # W) {}"
  let ?R = "left_edges E V"
  have inv: "search_inv ?R (parents_before adj visited) ?x" and ok: "tables_ok adj E V visited d"
    and frames: "frame_ok adj V (v, p)" "list_all (frame_ok adj V) W"
    using sc by (simp_all add: scanning_def)
  have d: "cd_adjacency d = adj" "cd_visited d = visited" using ok by (simp_all add: tables_ok_def)
  note top = scanning_top [OF sc]
  have all: "parents_before adj visited v p = ?R `` {v}"
    using next_parent [OF run d top(1,2), of p] frames(1) stop by (simp add: frame_ok_def)
  have between: "cycle_inv adj E V visited (d', W)" if "scanning adj E V visited d' W {}" for d'
    using that W by (auto simp: cycle_inv_def split: list.split nat.split)
  show ?thesis
  proof (cases "lowest ?x v = nr ?x v")
    case True
    note rec = record_step [OF run sc all True]
    show ?thesis
    proof (cases W)
      case Nil
      then show ?thesis using between rec(1) by simp
    next
      case (Cons f frs)
      obtain u q where f: "f = (u, q)" by fastforce
      let ?d' = "record_cyclic_component v d"
      have u: "u < node_count adj" using frames(2) Cons by (simp add: f frame_ok_def)
      have low: "lowest_reachable_of (cd_search ?d') v = Some (lowest ?x v)"
        using top(6) rec(2) by (simp add: lowest_reachable_of_def)
      have "lowest ?x u < nr ?x v" using root_below_parent [OF inv, of v p f frs] Cons f by simp
      then have "(lowest_reachable (cd_search ?d'))[u := min (lowest_reachable (cd_search ?d') ! u) (lowest ?x v)]
          = lowest_reachable (cd_search ?d')"
        using True rec(2) by (simp add: min_def)
      then have "lower_reachable u (lowest ?x v) (cd_search ?d') = cd_search ?d'"
        by (simp add: lower_reachable_def slice_modify_def)
      then have "finish_node v (d, (v, p) # W) = (?d', W)" using low Cons f by (simp add: Let_def)
      then show ?thesis using between rec(1) by simp
    qed
  next
    case False
    have skip: "record_cyclic_component v d = d"
    proof (rule record_skips, rule notI)
      assume eq: "discovery_order_of (cd_search d) v = lowest_reachable_of (cd_search d) v"
      have "Some (nr ?x v) = Some (lowest ?x v)" by (rule trans [OF trans [OF top(5) [symmetric] eq] top(6)])
      then show "False" using False by simp
    qed
    let ?par = "fst (hd W)"
    have move: "W \<noteq> [] \<and> search_inv ?R (parents_before adj visited) (?x \<lparr> frames := W,
        lowest := (lowest ?x)(?par := min (lowest ?x ?par) (lowest ?x v)) \<rparr>)"
      by (rule finish_open_move [OF inv _ all _ False]) simp_all
    then obtain u q frs where W': "W = (u, q) # frs" by (cases W) auto
    have u: "u < node_count adj" using frames(2) by (simp add: W' frame_ok_def)
    let ?d' = "d \<lparr> cd_search := lower_reachable u (lowest ?x v) (cd_search d) \<rparr>"
    have "view ?d' W {} = ?x \<lparr> frames := W, lowest := (lowest ?x)(?par := min (lowest ?x ?par) (lowest ?x v)) \<rparr>"
      unfolding view_lower [OF ok u] by (simp add: W' view_def Let_def)
    then have "scanning adj E V visited ?d' W {}"
      using move tables_lower [OF ok] frames(2) by (simp add: scanning_def)
    moreover have "finish_node v (d, (v, p) # W) = (?d', W)" using skip top(6) by (simp add: W' Let_def)
    ultimately show ?thesis using between by simp
  qed
qed

lemma explore_step_inv:
  assumes run: "searches adj ks E V visited" and inv: "cycle_inv adj E V visited st" and more: "snd st \<noteq> []"
  shows "cycle_inv adj E V visited (explore_step st)"
proof -
  obtain d v p W where st: "st = (d, (v, p) # W)" using more by (cases st; cases "snd st") auto
  have W: "list_all (\<lambda>(v, p). p > 0) W" using inv by (simp add: cycle_inv_def st)
  define d' where "d' = (if p = 0 then d \<lparr> cd_search := discover v (cd_search d) \<rparr> else d)"
  have sc: "scanning adj E V visited d' ((v, p) # W) {}"
  proof (cases p)
    case 0
    then show ?thesis using inv discover_scanning [OF run] by (simp add: cycle_inv_def st d'_def)
  next
    case (Suc n)
    then show ?thesis using inv by (simp add: cycle_inv_def st d'_def)
  qed
  have step: "explore_step st = (case next_unvisited_parent d' v p of
      Some (parent, next_pos) \<Rightarrow> advance v parent next_pos (d', (v, p) # W)
    | None \<Rightarrow> finish_node v (d', (v, p) # W))"
    unfolding st d'_def explore_step.simps Let_def ..
  show ?thesis
    unfolding step using advance_step [OF run sc W] finish_step [OF run sc W] by (auto split: option.split)
qed

section \<open>The search ends\<close>

definition search_measure :: "schema_adjacency \<Rightarrow> cycle_detector \<times> work_stack \<Rightarrow> nat" where
  "search_measure adj = (\<lambda>(d, W).
     (\<Sum>v\<in>{..<node_count adj} - {v. is_discovered (cd_search d) v}. length (parent_list adj v) + 3)
   + sum_list (map (\<lambda>(v, p). if is_discovered (cd_search d) v then length (parent_list adj v) - p + 1 else 0) W))"

lemma discovered_kept:
  "is_discovered (cd_search (record_cyclic_component v d)) = is_discovered (cd_search d)"
  by (auto simp: record_cyclic_component_def pop_component_def is_discovered_def discovery_order_of_def fun_eq_iff Let_def
      split: prod.split)

lemma finish_fields:
  "is_discovered (cd_search (fst (finish_node v (d, (v, p) # W)))) = is_discovered (cd_search d)"
  "snd (finish_node v (d, (v, p) # W)) = W"
  by (auto simp: Let_def lower_simps discovered_kept split: list.split option.split)

lemma advance_fields:
  "is_discovered (cd_search (fst (advance v t q (d, (v, p) # W)))) = is_discovered (cd_search d)"
  "snd (advance v t q (d, (v, p) # W)) = (if is_discovered (cd_search d) t then (v, q) # W else (t, 0) # (v, q) # W)"
  by (auto simp: Let_def lower_simps split: option.split)

lemma measure_discover:
  assumes ok: "tables_ok adj E V visited d" and v: "v < node_count adj" "\<not> is_discovered (cd_search d) v"
    and W: "v \<notin> fst ` set W"
  shows "search_measure adj (d \<lparr> cd_search := discover v (cd_search d) \<rparr>, (v, 0) # W) < search_measure adj (d, (v, 0) # W)"
proof -
  let ?P = "is_discovered (cd_search d)" and ?P' = "is_discovered (discover v (cd_search d))"
  let ?left = "\<lambda>P. {..<node_count adj} - {u. P u}"
  let ?weight = "\<lambda>P. sum_list (map (\<lambda>(u, p). if P u then length (parent_list adj u) - p + 1 else 0) W)"
  have disc: "?P' u \<longleftrightarrow> u = v \<or> ?P u" for u
    using discover_simps(1) [OF ok v(1)] by (auto simp: is_discovered_def)
  have "(\<Sum>u\<in>?left ?P'. length (parent_list adj u) + 3) = (\<Sum>u\<in>?left ?P - {v}. length (parent_list adj u) + 3)"
    by (rule sum.cong) (auto simp: disc)
  moreover have "(\<Sum>u\<in>?left ?P. length (parent_list adj u) + 3)
      = (length (parent_list adj v) + 3) + (\<Sum>u\<in>?left ?P - {v}. length (parent_list adj u) + 3)"
    using v by (intro sum.remove) auto
  moreover have "?weight ?P' = ?weight ?P"
    using W by (intro arg_cong [where f = sum_list] map_cong) (force simp: disc)+
  moreover have "search_measure adj (d \<lparr> cd_search := discover v (cd_search d) \<rparr>, (v, 0) # W)
      = (\<Sum>u\<in>?left ?P'. length (parent_list adj u) + 3) + (length (parent_list adj v) + 1 + ?weight ?P')"
    by (simp add: search_measure_def disc [of v])
  moreover have "search_measure adj (d, (v, 0) # W) = (\<Sum>u\<in>?left ?P. length (parent_list adj u) + 3) + ?weight ?P"
    using v(2) by (simp add: search_measure_def)
  ultimately show ?thesis by linarith
qed

lemma explore_step_measure:
  assumes run: "searches adj ks E V visited" and inv: "cycle_inv adj E V visited st" and more: "snd st \<noteq> []"
  shows "search_measure adj (explore_step st) < search_measure adj st"
proof -
  obtain d v p W where st: "st = (d, (v, p) # W)" using more by (cases st; cases "snd st") auto
  define d' where "d' = (if p = 0 then d \<lparr> cd_search := discover v (cd_search d) \<rparr> else d)"
  have "scanning adj E V visited d' ((v, p) # W) {} \<and> search_measure adj (d', (v, p) # W) \<le> search_measure adj (d, (v, p) # W)"
  proof (cases p)
    case 0
    then have sc: "scanning adj E V visited d W {v}" and v: "frame_ok adj V (v, 0)" "\<not> is_discovered (cd_search d) v"
      using inv by (simp_all add: cycle_inv_def st)
    have "search_inv (left_edges E V) (parents_before adj visited) (view d W {v})" using sc by (simp add: scanning_def)
    then have "v \<notin> fst ` set W" using search_invD(1,3) v(2) by (fastforce simp: gray_def)
    then have "search_measure adj (d', (v, p) # W) < search_measure adj (d, (v, p) # W)"
      using measure_discover [of adj E V visited d v W] sc v 0 by (simp add: scanning_def frame_ok_def d'_def)
    then show ?thesis using discover_scanning [OF run sc v] 0 by (simp add: d'_def)
  next
    case (Suc n)
    then show ?thesis using inv by (simp add: cycle_inv_def st d'_def)
  qed
  then have sc: "scanning adj E V visited d' ((v, p) # W) {}"
    and le: "search_measure adj (d', (v, p) # W) \<le> search_measure adj (d, (v, p) # W)" by blast+
  note top = scanning_top [OF sc]
  have ok: "tables_ok adj E V visited d'" "frame_ok adj V (v, p)" using sc by (simp_all add: scanning_def)
  have d': "cd_adjacency d' = adj" "cd_visited d' = visited" using ok by (simp_all add: tables_ok_def)
  have "search_measure adj (case next_unvisited_parent d' v p of
      Some (parent, next_pos) \<Rightarrow> advance v parent next_pos (d', (v, p) # W)
    | None \<Rightarrow> finish_node v (d', (v, p) # W)) < search_measure adj (d', (v, p) # W)"
  proof (cases "next_unvisited_parent d' v p")
    case None
    obtain d2 W2 where fin: "finish_node v (d', (v, p) # W) = (d2, W2)" by fastforce
    with finish_fields [of v d' p W] None show ?thesis using top(3) by (simp add: search_measure_def)
  next
    case (Some r)
    obtain t q where r: "r = (t, q)" by fastforce
    have "p < q \<and> q \<le> length (parent_list adj v)"
      using next_parent [OF run d' top(1,2), of p] ok(2) Some r by (simp add: frame_ok_def)
    moreover obtain d2 W2 where adv: "advance v t q (d', (v, p) # W) = (d2, W2)" by fastforce
    ultimately show ?thesis
      using advance_fields [of v t q d' p W] Some r top(3) by (auto simp: search_measure_def)
  qed
  with le show ?thesis unfolding st d'_def explore_step.simps Let_def by (rule less_le_trans [rotated])
qed

lemma step_discovers:
  assumes "searches adj ks E V visited" "cycle_inv adj E V visited (d, (v, p) # W)"
  shows "is_discovered (cd_search d) u \<Longrightarrow> is_discovered (cd_search (fst (explore_step (d, (v, p) # W)))) u"
    and "is_discovered (cd_search (fst (explore_step (d, (v, p) # W)))) v"
proof -
  define d' where "d' = (if p = 0 then d \<lparr> cd_search := discover v (cd_search d) \<rparr> else d)"
  have d': "is_discovered (cd_search d') v \<and> (is_discovered (cd_search d) u \<longrightarrow> is_discovered (cd_search d') u)"
  proof (cases p)
    case 0
    then have "tables_ok adj E V visited d" "v < node_count adj"
      using assms(2) by (simp_all add: cycle_inv_def scanning_def frame_ok_def)
    then show ?thesis using 0 discover_simps(1) by (simp add: d'_def is_discovered_def)
  next
    case (Suc n)
    then show ?thesis using scanning_top(3) [of adj E V visited d v p W] assms(2) by (simp add: cycle_inv_def d'_def)
  qed
  have step: "explore_step (d, (v, p) # W) = (case next_unvisited_parent d' v p of
      Some (parent, next_pos) \<Rightarrow> advance v parent next_pos (d', (v, p) # W)
    | None \<Rightarrow> finish_node v (d', (v, p) # W))"
    unfolding d'_def explore_step.simps Let_def ..
  have "is_discovered (cd_search (fst (explore_step (d, (v, p) # W)))) = is_discovered (cd_search d')"
    unfolding step using finish_fields(1) advance_fields(1) by (auto split: option.split prod.split simp del: finish_node.simps advance.simps)
  with d' show "is_discovered (cd_search d) u \<Longrightarrow> is_discovered (cd_search (fst (explore_step (d, (v, p) # W)))) u"
    "is_discovered (cd_search (fst (explore_step (d, (v, p) # W)))) v" by simp_all
qed

lemma explore_from_spec:
  assumes run: "searches adj ks E V visited" and sc: "scanning adj E V visited d [] {}"
    and start: "frame_ok adj V (start, 0)" "\<not> is_discovered (cd_search d) start"
  shows "\<exists>d'. explore_from start d = Some d' \<and> scanning adj E V visited d' [] {} \<and> is_discovered (cd_search d') start
    \<and> (\<forall>u. is_discovered (cd_search d) u \<longrightarrow> is_discovered (cd_search d') u)"
proof -
  let ?init = "(d, [(start, 0)])"
  let ?P = "\<lambda>st. cycle_inv adj E V visited st \<and> (\<forall>u. is_discovered (cd_search d) u \<longrightarrow> is_discovered (cd_search (fst st)) u)
    \<and> (is_discovered (cd_search (fst st)) start \<or> st = ?init)"
  let ?b = "\<lambda>(d, W). (W :: work_stack) \<noteq> []"
  have "search_inv (left_edges E V) (parents_before adj visited) (view d [] {})" using sc by (simp add: scanning_def)
  then have "search_inv (left_edges E V) (parents_before adj visited) (view d [] {start})"
    using start(2) by (auto simp: search_inv_def gray_def closed_nodes_def processed_def view_def Let_def)
  then have init: "?P ?init" using sc start by (simp add: cycle_inv_def scanning_def)
  have step: "?P (explore_step st)" if "?P st" "?b st" for st
  proof -
    obtain d2 v p W where st: "st = (d2, (v, p) # W)" using \<open>?b st\<close> by (cases st; cases "snd st") auto
    have inv: "cycle_inv adj E V visited (d2, (v, p) # W)" using \<open>?P st\<close> by (simp add: st)
    note disc = step_discovers [OF run inv]
    have "is_discovered (cd_search (fst (explore_step st))) start"
      using \<open>?P st\<close> disc unfolding st by auto
    moreover have "cycle_inv adj E V visited (explore_step st)"
      using explore_step_inv [OF run] inv by (simp add: st del: explore_step.simps)
    ultimately show ?thesis using \<open>?P st\<close> disc(1) unfolding st by auto
  qed
  have less: "search_measure adj (explore_step st) < search_measure adj st" if "?P st" "?b st" for st
    using explore_step_measure [OF run, of st] that by auto
  obtain st' where st': "while_option ?b explore_step ?init = Some st'"
    using measure_while_option_Some [where P = ?P and f = "search_measure adj" and b = ?b and c = explore_step and s = ?init]
      step less init by blast
  have P: "?P st'" by (rule while_option_rule [where P = ?P, OF step st' init])
  have "\<not> ?b st'" by (rule while_option_stop [OF st'])
  then obtain d' where d': "st' = (d', [])" by (cases st') auto
  have "explore_from start d = Some d'" using st' by (simp add: explore_from_def d')
  then show ?thesis using P by (intro exI [of _ d']) (simp add: d' cycle_inv_def)
qed

lemma explore_all_spec:
  assumes run: "searches adj ks E V visited"
  shows "scanning adj E V visited d [] {} \<Longrightarrow> list_all (\<lambda>i. i < node_count adj) starts
    \<Longrightarrow> \<exists>d'. explore_all starts d = Some d' \<and> scanning adj E V visited d' [] {}
      \<and> (\<forall>u. is_discovered (cd_search d) u \<longrightarrow> is_discovered (cd_search d') u)
      \<and> (\<forall>i\<in>set starts. i \<notin> set V \<longrightarrow> is_discovered (cd_search d') i)"
proof (induction starts arbitrary: d)
  case (Cons i starts)
  have i: "i < node_count adj" and starts: "list_all (\<lambda>i. i < node_count adj) starts" using Cons.prems(2) by simp_all
  have ok: "tables_ok adj E V visited d" using Cons.prems(1) by (simp add: scanning_def)
  have kahn: "is_kahn_visited d i \<longleftrightarrow> i \<in> set V"
    using visited_names [OF run i] adj_specD(13) [of adj ks E] i ok run
    by (simp add: is_kahn_visited_def tables_ok_def searches_def)
  show ?case
  proof (cases "is_kahn_visited d i \<or> is_discovered (cd_search d) i")
    case True
    then obtain d' where d': "explore_all starts d = Some d'" "scanning adj E V visited d' [] {}"
      "\<forall>u. is_discovered (cd_search d) u \<longrightarrow> is_discovered (cd_search d') u"
      "\<forall>i\<in>set starts. i \<notin> set V \<longrightarrow> is_discovered (cd_search d') i"
      using Cons.IH [OF Cons.prems(1) starts] by blast
    then show ?thesis using True kahn by (intro exI [of _ d']) auto
  next
    case False
    then have "frame_ok adj V (i, 0)" "\<not> is_discovered (cd_search d) i" using i kahn by (simp_all add: frame_ok_def)
    from explore_from_spec [OF run Cons.prems(1) this] obtain d1 where d1: "explore_from i d = Some d1"
      "scanning adj E V visited d1 [] {}" "is_discovered (cd_search d1) i"
      "\<forall>u. is_discovered (cd_search d) u \<longrightarrow> is_discovered (cd_search d1) u" by blast
    from Cons.IH [OF d1(2) starts] obtain d' where d': "explore_all starts d1 = Some d'" "scanning adj E V visited d' [] {}"
      "\<forall>u. is_discovered (cd_search d1) u \<longrightarrow> is_discovered (cd_search d') u"
      "\<forall>i\<in>set starts. i \<notin> set V \<longrightarrow> is_discovered (cd_search d') i" by blast
    then show ?thesis using False d1 by (intro exI [of _ d']) auto
  qed
qed simp

lemma new_scanning:
  assumes "searches adj ks E V visited"
  shows "scanning adj E V visited (cycle_detector_new adj visited) [] {}"
proof -
  have none: "is_discovered (cycle_search_new n) = (\<lambda>u. False)" for n
    by (auto simp: fun_eq_iff is_discovered_def discovery_order_of_def cycle_search_new_def slice_get_def)
  have "tables_ok adj E V visited (cycle_detector_new adj visited)"
    unfolding tables_ok_def cycle_detector_new_def cycle_detector.simps none by (simp add: cycle_search_new_def reported_none)
  moreover have "search_inv (left_edges E V) (parents_before adj visited) (view (cycle_detector_new adj visited) [] {})"
    unfolding search_inv_def
    by (simp add: view_def Let_def cycle_detector_new_def none gray_def closed_nodes_def) (simp add: cycle_search_new_def)
  ultimately show ?thesis by (simp add: scanning_def)
qed

lemma trancl_left_edges: "(i, i) \<in> (left_edges E V)\<^sup>+ \<Longrightarrow> i \<notin> set V"
  by (auto simp: left_edges_def dest!: tranclD)

lemma find_cyclic_exact:
  assumes run: "searches adj ks E V visited" and V: "distinct V"
  shows "\<exists>cs. find_cyclic (cycle_detector_new adj visited) = Some cs \<and> distinct cs
    \<and> set cs = {adj_names adj ! i | i. i < node_count adj \<and> (i, i) \<in> (left_edges E V)\<^sup>+} \<and> reported adj E V cs"
proof (cases "length visited = node_count adj")
  case True
  then have "card (set V) = node_count adj" using run distinct_card [OF V] by (auto simp: searches_def)
  then have "set V = {..<node_count adj}" using run by (intro card_subset_eq) (auto simp: searches_def)
  then have none: "\<not> (i < node_count adj \<and> (i, i) \<in> (left_edges E V)\<^sup>+)" for i
    using trancl_left_edges [of i E V] by auto
  then show ?thesis using True by (simp add: find_cyclic_def cycle_detector_new_def reported_none)
next
  case False
  have adj: "adj_spec adj ks E" using run by (simp add: searches_def)
  have "sat_u32 (node_count adj) = node_count adj" using adj_specD(1) [OF adj] by (simp add: sat_u32_def)
  moreover obtain d' where d': "explore_all [0..<node_count adj] (cycle_detector_new adj visited) = Some d'"
    "scanning adj E V visited d' [] {}" "\<forall>i\<in>set [0..<node_count adj]. i \<notin> set V \<longrightarrow> is_discovered (cd_search d') i"
    using explore_all_spec [OF run new_scanning [OF run], of "[0..<node_count adj]"] by (auto simp: list_all_iff)
  ultimately have find: "find_cyclic (cycle_detector_new adj visited) = Some (cd_cyclic d')"
    using False by (simp add: find_cyclic_def cycle_detector_new_def)
  have ok: "tables_ok adj E V visited d'" using d'(2) by (simp add: scanning_def)
  have "on_cycle (view d' [] {}) = {u \<in> found (view d' [] {}). (u, u) \<in> (left_edges E V)\<^sup>+}"
    using d'(2) by (intro search_complete) (auto simp: scanning_def)
  then have cyc: "i < node_count adj \<Longrightarrow> adj_names adj ! i \<in> set (cd_cyclic d') \<longleftrightarrow> (i, i) \<in> (left_edges E V)\<^sup>+" for i
  proof -
    assume i: "i < node_count adj"
    have "adj_names adj ! i \<in> set (cd_cyclic d') \<longleftrightarrow> i \<in> on_cycle (view d' [] {})"
      using i ok by (simp add: view_def Let_def tables_ok_def)
    also have "\<dots> \<longleftrightarrow> is_discovered (cd_search d') i \<and> (i, i) \<in> (left_edges E V)\<^sup>+"
      unfolding \<open>on_cycle (view d' [] {}) = _\<close> by simp
    also have "\<dots> \<longleftrightarrow> (i, i) \<in> (left_edges E V)\<^sup>+" using d'(3) trancl_left_edges [of i E V] i by auto
    finally show "adj_names adj ! i \<in> set (cd_cyclic d') \<longleftrightarrow> (i, i) \<in> (left_edges E V)\<^sup>+" .
  qed
  have "set (cd_cyclic d') = {adj_names adj ! i | i. i < node_count adj \<and> (i, i) \<in> (left_edges E V)\<^sup>+}"
  proof (intro set_eqI iffI)
    fix n
    assume n: "n \<in> set (cd_cyclic d')"
    then have "n \<in> set (adj_names adj)" using ok by (auto simp: tables_ok_def)
    then obtain i where "i < node_count adj" "n = adj_names adj ! i"
      unfolding node_count_def by (metis in_set_conv_nth)
    then show "n \<in> {adj_names adj ! i | i. i < node_count adj \<and> (i, i) \<in> (left_edges E V)\<^sup>+}" using cyc n by blast
  qed (use cyc in blast)
  then show ?thesis using find ok by (intro exI [of _ "cd_cyclic d'"]) (simp add: tables_ok_def)
qed

end
