(* ===== verification/Schema_Hierarchy.thy ===== *)
theory Schema_Hierarchy
  imports Schema_Cycles
begin

text \<open>
  The finished schema graph: it is built exactly when no schema extends itself through others, its
  order puts every schema after the ones it extends, and the hierarchy it computes lists children and
  descendants, each once and in that order.
\<close>

section \<open>Relations on indices and on names\<close>

lemma extends_field:
  assumes "schemas_fit raw" "(a, b) \<in> extends_edges raw ex"
  shows "a \<in> set (schema_names raw ex)" "b \<in> set (schema_names raw ex)"
proof -
  obtain rs where rs: "a \<noteq> ex" "b \<noteq> ex" "b \<in> fst ` set raw" "map_of raw a = Some rs"
    using assms(2) by (auto simp: extends_edges_def)
  then have "a \<in> fst ` set raw" using map_of_SomeD [OF rs(4)] by (metis fst_conv image_eqI)
  then show "a \<in> set (schema_names raw ex)" "b \<in> set (schema_names raw ex)"
    using rs(1-3) schema_names_simps(4) [OF assms(1)] by simp_all
qed

lemma index_edges_names:
  assumes "schemas_fit raw" "i < length (schema_names raw ex)" "j < length (schema_names raw ex)"
  shows "(schema_names raw ex ! i, schema_names raw ex ! j) \<in> extends_edges raw ex \<longleftrightarrow> (i, j) \<in> index_edges raw ex"
    and "(schema_names raw ex ! i, schema_names raw ex ! j) \<in> (extends_edges raw ex)\<^sup>+ \<longleftrightarrow> (i, j) \<in> (index_edges raw ex)\<^sup>+"
proof -
  let ?names = "schema_names raw ex" and ?E = "index_edges raw ex" and ?X = "extends_edges raw ex"
  note N = schema_names_simps [OF assms(1), where ex = ex]
  have edge: "(?names ! i, ?names ! j) \<in> ?X \<longleftrightarrow> (i, j) \<in> ?E" if "i < length ?names" "j < length ?names" for i j
    using that by (simp add: index_edges_def Let_def)
  then show "(?names ! i, ?names ! j) \<in> ?X \<longleftrightarrow> (i, j) \<in> ?E" using assms by blast
  have field: "\<exists>i j. i < length ?names \<and> j < length ?names \<and> ?names ! i = a \<and> ?names ! j = b" if "(a, b) \<in> ?X" for a b
    using extends_field [OF assms(1) that] by (metis in_set_conv_nth)
  have "(a, b) \<in> ?X\<^sup>+ \<Longrightarrow> ?names ! i = a \<Longrightarrow> i < length ?names
      \<Longrightarrow> \<exists>j. j < length ?names \<and> ?names ! j = b \<and> (i, j) \<in> ?E\<^sup>+" for a b i
  proof (induction rule: trancl_induct)
    case (base y)
    obtain j where j: "j < length ?names" "?names ! j = y" using field [OF base.hyps] by blast
    then have "(i, j) \<in> ?E" using base edge [of i j] by simp
    then show ?case using j by blast
  next
    case (step y z)
    then obtain j where j: "j < length ?names" "?names ! j = y" "(i, j) \<in> ?E\<^sup>+" by blast
    obtain k where k: "k < length ?names" "?names ! k = z" using field [OF step.hyps(2)] by blast
    then have "(j, k) \<in> ?E" using step.hyps(2) edge [of j k] j by simp
    then have "(i, k) \<in> ?E\<^sup>+" by (rule trancl_into_trancl [OF j(3)])
    then show ?case using k by blast
  qed
  then have "(?names ! i, ?names ! j) \<in> ?X\<^sup>+ \<Longrightarrow> (i, j) \<in> ?E\<^sup>+"
    using N(1) assms(2,3) by (metis nth_eq_iff_index_eq)
  moreover have "(i, j) \<in> ?E\<^sup>+ \<Longrightarrow> (?names ! i, ?names ! j) \<in> ?X\<^sup>+"
  proof (induction rule: trancl_induct)
    case (base y)
    then show ?case by (auto simp: index_edges_def Let_def)
  next
    case (step y z)
    then have "(?names ! y, ?names ! z) \<in> ?X" by (auto simp: index_edges_def Let_def)
    with step.IH show ?case by (rule trancl_into_trancl)
  qed
  ultimately show "(?names ! i, ?names ! j) \<in> ?X\<^sup>+ \<longleftrightarrow> (i, j) \<in> ?E\<^sup>+" by blast
qed

lemma extends_cycle:
  assumes "schemas_fit raw"
  shows "(n, n) \<in> (extends_edges raw ex)\<^sup>+ \<longleftrightarrow> (\<exists>i<length (schema_names raw ex). schema_names raw ex ! i = n
      \<and> (i, i) \<in> (index_edges raw ex)\<^sup>+)"
proof -
  have "n \<in> set (schema_names raw ex)" if "(n, n) \<in> (extends_edges raw ex)\<^sup>+"
    using that extends_field(1) [OF assms] by (meson tranclD)
  then show ?thesis using index_edges_names(2) [OF assms] by (metis in_set_conv_nth)
qed

section \<open>What the sort leaves\<close>

lemma parents_first_closed:
  assumes "parents_first E V" "(i, p) \<in> E" "i \<in> set V"
  shows "p \<in> set V"
proof -
  obtain k where "k < length V" "V ! k = i" using assms(3) by (metis in_set_conv_nth)
  then show ?thesis using assms(1,2) in_set_takeD unfolding parents_first_def by metis
qed

text \<open>A visited schema is on no cycle: on a path of edges the positions go down.\<close>

lemma parents_first_trancl:
  assumes "parents_first E V" "distinct V"
  shows "(i, p) \<in> E\<^sup>+ \<Longrightarrow> i \<in> set V \<Longrightarrow> \<exists>k m. k < length V \<and> V ! k = i \<and> m < k \<and> V ! m = p"
proof (induction rule: trancl_induct)
  case (base p)
  then obtain k where k: "k < length V" "V ! k = i" by (metis in_set_conv_nth)
  then have "p \<in> set (take k V)" using assms(1) base by (auto simp: parents_first_def)
  then obtain m where "m < k" "V ! m = p" by (auto simp: in_set_conv_nth)
  then show ?case using k by blast
next
  case (step p q)
  then obtain k m where k: "k < length V" "V ! k = i" "m < k" "V ! m = p" by blast
  then have "q \<in> set (take m V)" using assms(1) step.hyps(2) by (auto simp: parents_first_def)
  then obtain l where "l < m" "V ! l = q" using k by (auto simp: in_set_conv_nth)
  moreover have "l < k" using \<open>l < m\<close> k(3) by (rule less_trans)
  ultimately show ?case using k by blast
qed

lemma visited_acyclic:
  assumes "parents_first E V" "distinct V" "i \<in> set V"
  shows "(i, i) \<notin> E\<^sup>+"
  using parents_first_trancl [OF assms(1,2) _ assms(3), of i] assms(2)
  by (metis less_trans nat_neq_iff nth_eq_iff_index_eq)

lemma left_cycles:
  assumes "parents_first E V" "distinct V"
  shows "(i, i) \<in> (left_edges E V)\<^sup>+ \<longleftrightarrow> (i, i) \<in> E\<^sup>+"
proof
  assume cyc: "(i, i) \<in> E\<^sup>+"
  have "(i, j) \<in> E\<^sup>+ \<Longrightarrow> (j, i) \<in> E\<^sup>* \<Longrightarrow> (i, j) \<in> (left_edges E V)\<^sup>+" for j
  proof (induction rule: trancl_induct)
    case (base j)
    then have "(i, i) \<in> E\<^sup>+" "(j, j) \<in> E\<^sup>+" by (auto intro: rtrancl_into_trancl2 rtrancl_into_trancl1)
    then have "i \<notin> set V" "j \<notin> set V" using visited_acyclic [OF assms] by blast+
    then show ?case using base by (auto simp: left_edges_def)
  next
    case (step j k)
    have "(j, i) \<in> E\<^sup>*" using step.hyps(2) step.prems by (rule converse_rtrancl_into_rtrancl)
    then have IH: "(i, j) \<in> (left_edges E V)\<^sup>+" by (rule step.IH)
    have "(j, j) \<in> E\<^sup>+" "(k, k) \<in> E\<^sup>+"
      using rtrancl_trancl_trancl [OF \<open>(j, i) \<in> E\<^sup>*\<close> step.hyps(1)]
        rtrancl_trancl_trancl [OF step.prems trancl_into_trancl [OF step.hyps]] by blast+
    then have "(j, k) \<in> left_edges E V" using visited_acyclic [OF assms] step.hyps(2) by (auto simp: left_edges_def)
    with IH show ?case by (rule trancl_into_trancl)
  qed
  then show "(i, i) \<in> (left_edges E V)\<^sup>+" using cyc by blast
next
  assume "(i, i) \<in> (left_edges E V)\<^sup>+"
  then show "(i, i) \<in> E\<^sup>+" by (rule trancl_mono) (auto simp: left_edges_def)
qed

lemma left_over_cycle:
  fixes E :: "edge set"
  assumes "E \<subseteq> {..<n} \<times> {..<n}" "\<forall>j<n. j \<notin> set V \<longrightarrow> (\<exists>p. (j, p) \<in> E \<and> p \<notin> set V)" "j < n" "j \<notin> set V"
  shows "\<exists>i. (i, i) \<in> E\<^sup>+"
proof (rule ccontr)
  assume none: "\<nexists>i. (i, i) \<in> E\<^sup>+"
  have "finite E"
    by (rule finite_subset [OF assms(1)]) simp
  moreover have "acyclic E" using none by (simp add: acyclic_def)
  ultimately have "wf (E\<inverse>)" by (rule finite_acyclic_wf_converse)
  moreover have "j \<in> {j. j < n \<and> j \<notin> set V}" using assms(3,4) by simp
  ultimately obtain m where m: "m \<in> {j. j < n \<and> j \<notin> set V}"
    "\<And>p. (p, m) \<in> E\<inverse> \<Longrightarrow> p \<notin> {j. j < n \<and> j \<notin> set V}"
    by (rule wfE_min) blast
  then have "m < n" "m \<notin> set V" by simp_all
  then obtain p where p: "(m, p) \<in> E" "p \<notin> set V" using assms(2) by meson
  then have "p < n" using assms(1) by auto
  with p m(2) [of p] show False by simp
qed

section \<open>Ranks and sorted children\<close>

lemma fold_sort_children:
  assumes "csr_holds (child_offsets adj) (child_targets adj) ks" "length ks \<le> u32_max" "m \<le> length ks"
    "\<forall>xs. length (f xs) = length xs"
  shows "csr_holds (child_offsets (fold (sort_children f) [0..<m] adj)) (child_targets (fold (sort_children f) [0..<m] adj))
      (map f (take m ks) @ drop m ks)
    \<and> (\<exists>targets. fold (sort_children f) [0..<m] adj = adj \<lparr> child_targets := targets \<rparr>)"
  using assms(3)
proof (induction m)
  case 0
  then show ?case using assms(1) by (auto intro: exI [of _ "child_targets adj"])
next
  case (Suc m)
  let ?adj = "fold (sort_children f) [0..<m] adj" and ?ks = "map f (take m ks) @ drop m ks"
  have IH: "csr_holds (child_offsets ?adj) (child_targets ?adj) ?ks" "\<exists>targets. ?adj = adj \<lparr> child_targets := targets \<rparr>"
    using Suc by simp_all
  have at: "?ks ! m = ks ! m" "m < length ?ks" "length ?ks \<le> u32_max" using Suc.prems assms(2) by (simp_all add: nth_append)
  have "?ks[m := f (?ks ! m)] = map f (take (Suc m) ks) @ drop (Suc m) ks"
    unfolding at(1) using Suc.prems
    by (simp add: list_update_append take_Suc_conv_app_nth Cons_nth_drop_Suc [symmetric])
  with csr_sort_children [OF IH(1) at(2,3), of f] assms(4) IH(2) show ?case by auto
qed

lemma sorted_adjacency:
  assumes adj: "adj_spec adj ks E" and f: "\<forall>xs. mset (f xs) = mset xs"
  shows "adj_spec (fold (sort_children f) [0..<sat_u32 (node_count adj)] adj) (map f ks) E"
    and "adj_names (fold (sort_children f) [0..<sat_u32 (node_count adj)] adj) = adj_names adj"
proof -
  note A = adj_specD [OF adj]
  have n: "sat_u32 (node_count adj) = length ks" using A(1,3) by (simp add: sat_u32_def)
  have len: "\<forall>xs. length (f xs) = length xs" using f by (metis size_mset)
  obtain targets where csr: "csr_holds (child_offsets adj) targets (map f ks)"
    and eq: "fold (sort_children f) [0..<sat_u32 (node_count adj)] adj = adj \<lparr> child_targets := targets \<rparr>"
    using fold_sort_children [OF A(5), of "length ks" f] A(1,3) len by (auto simp: n)
  have "length (concat (map f ks)) = length (concat ks)" using len by (simp add: length_concat comp_def)
  moreover have "distinct (f (ks ! i))" "set (f (ks ! i)) = set (ks ! i)" if "i < node_count adj" for i
    using A(8) [OF that] f by (metis mset_eq_imp_distinct_iff, metis mset_eq_setD)
  moreover have "index_of (adj \<lparr> child_targets := targets \<rparr>) = index_of adj"
    "adj_parents_of (adj \<lparr> child_targets := targets \<rparr>) = adj_parents_of adj"
    by (simp_all add: fun_eq_iff index_of_def adj_parents_of_def)
  ultimately show "adj_spec (fold (sort_children f) [0..<sat_u32 (node_count adj)] adj) (map f ks) E"
    using adj csr unfolding eq by (simp add: adj_spec_def node_count_def)
  show "adj_names (fold (sort_children f) [0..<sat_u32 (node_count adj)] adj) = adj_names adj" by (simp add: eq)
qed

lemma topo_rank_positions:
  assumes adj: "adj_spec adj ks E" and V: "distinct V" "set V \<subseteq> {..<node_count adj}" and k: "k < length V"
  shows "rank_of (compute_topo_rank adj (map ((!) (adj_names adj)) V)) (V ! k) = k"
proof -
  note A = adj_specD [OF adj]
  have "length V \<le> node_count adj" using V card_mono [of "{..<node_count adj}" "set V"] by (simp add: distinct_card)
  then have exact: "sat_u32 r = r" if "r < length V" for r using that A(1) by (simp add: sat_u32_def)
  have enum: "enumerate 0 (map ((!) (adj_names adj)) V) = map (\<lambda>r. (r, adj_names adj ! (V ! r))) [0..<length V]"
    by (simp add: enumerate_names)
  define set_rank where "set_rank = (\<lambda>r rank. slice_modify (V ! r) (\<lambda>_. r) rank :: nat list)"
  have in_range: "V ! r < node_count adj" if "r < length V" for r using that V(2) nth_mem by blast
  have fold_eq: "compute_topo_rank adj (map ((!) (adj_names adj)) V)
      = fold set_rank [0..<length V] (replicate (node_count adj) u32_max)"
    unfolding compute_topo_rank_def enum fold_map comp_def
    by (rule fold_cong) (auto simp: set_rank_def exact in_range A(12) split: option.split)
  have ranks: "length (fold set_rank [0..<m] rank) = length rank
      \<and> (\<forall>r<m. fold set_rank [0..<m] rank ! (V ! r) = r)" if "m \<le> length V" "length rank = node_count adj" for m rank
    using that(1)
  proof (induction m)
    case (Suc m)
    then have "V ! r \<noteq> V ! m" "V ! m \<noteq> V ! r" if "r < m" for r using that V(1) by (simp_all add: nth_eq_iff_index_eq)
    then show ?case using Suc in_range that(2) by (auto simp: set_rank_def nth_slice_modify less_Suc_eq)
  qed simp
  show ?thesis
    unfolding fold_eq rank_of_def using ranks [of "length V"] k in_range [OF k] by simp
qed

lemma sort_by_rank:
  assumes rank: "\<forall>k<length V. r (V ! k) = (k :: nat)" and V: "distinct V" and xs: "distinct xs" "set xs \<subseteq> set V"
  shows "sort_key r xs = filter (\<lambda>x. x \<in> set xs) V"
proof (rule sort_key_inj_key_eq)
  show "mset xs = mset (filter (\<lambda>x. x \<in> set xs) V)"
    using V xs by (subst set_eq_iff_mset_eq_distinct [symmetric]) auto
  have "r x = r y \<longrightarrow> x = y" if "x \<in> set V" "y \<in> set V" for x y
    using that rank by (metis in_set_conv_nth)
  then show "inj_on r (set xs)" using xs(2) by (auto simp: inj_on_def)
  have "map r V = [0..<length V]" using rank by (intro nth_equalityI) simp_all
  then have "sorted (map r V)" by simp
  then show "sorted (map r (filter (\<lambda>x. x \<in> set xs) V))" by (rule sorted_filter)
qed

section \<open>What is built\<close>

definition graph_holds :: "raw_schemas \<Rightarrow> string \<Rightarrow> nat list \<Rightarrow> schema_graph \<Rightarrow> bool" where
  "graph_holds raw ex V g \<longleftrightarrow>
     (\<exists>ks. adj_spec (sg_adjacency g) ks (index_edges raw ex)
       \<and> (\<forall>i<length (schema_names raw ex). ks ! i = filter (\<lambda>c. (c, i) \<in> index_edges raw ex) V))
     \<and> adj_names (sg_adjacency g) = schema_names raw ex
     \<and> distinct V \<and> set V = {..<length (schema_names raw ex)} \<and> parents_first (index_edges raw ex) V
     \<and> topo_order g = map ((!) (schema_names raw ex)) V
     \<and> (\<forall>k<length V. rank_of (topo_rank g) (V ! k) = k)"

lemma sorted_part_searches:
  assumes "adj_spec adj ks E" "sorted_part adj E V b"
  shows "searches adj ks E V (gb_visited b)" "distinct V" "parents_first E V"
  using assms by (auto simp: searches_def sorted_part_def)

lemma sorted_part_all:
  assumes adj: "adj_spec adj ks E" and part: "sorted_part adj E V b" and none: "\<nexists>i. (i, i) \<in> E\<^sup>+"
  shows "set V = {..<node_count adj}"
proof -
  have "E \<subseteq> {..<node_count adj} \<times> {..<node_count adj}" using adj by (simp add: adj_spec_def)
  then have "j \<in> set V" if "j < node_count adj" for j
    using left_over_cycle [of E "node_count adj" V j] part none that unfolding sorted_part_def by blast
  then show ?thesis using part by (auto simp: sorted_part_def)
qed

lemma built_graph_holds:
  assumes adj: "adj_spec adj ks (index_edges raw ex)" and names: "adj_names adj = schema_names raw ex"
    and part: "sorted_part adj (index_edges raw ex) V b" and all: "set V = {..<node_count adj}"
    and rank: "rank = compute_topo_rank adj (gb_visited b)"
  shows "graph_holds raw ex V \<lparr> sg_adjacency = fold (sort_children (sort_key (rank_of rank))) [0..<sat_u32 (node_count adj)] adj,
      topo_order = gb_visited b, topo_rank = rank \<rparr>"
proof -
  let ?E = "index_edges raw ex" and ?sort = "sort_key (rank_of rank)"
  note A = adj_specD [OF adj]
  have V: "distinct V" "parents_first ?E V" "gb_visited b = map ((!) (adj_names adj)) V"
    using part by (simp_all add: sorted_part_def)
  have ranks: "\<forall>k<length V. rank_of rank (V ! k) = k"
    using topo_rank_positions [OF adj V(1)] all by (simp add: rank V(3))
  have "map ?sort ks ! i = filter (\<lambda>c. (c, i) \<in> ?E) V" if i: "i < node_count adj" for i
  proof -
    have "set (ks ! i) \<subseteq> set V" using A(9) [OF i] A(7) by (auto simp: all)
    then have "?sort (ks ! i) = filter (\<lambda>x. x \<in> set (ks ! i)) V"
      using sort_by_rank [OF ranks V(1) A(8) [OF i]] by blast
    then show ?thesis using A(3,9) i by simp
  qed
  moreover have "node_count adj = length (schema_names raw ex)" by (simp add: node_count_def names)
  moreover have "\<forall>xs. mset (?sort xs) = mset xs" by simp
  note sorted_adjacency [OF adj this]
  ultimately show ?thesis using V all ranks names unfolding graph_holds_def by auto
qed

text \<open>The order of a report of cycles: by component, and inside one by declaration.\<close>

definition cycle_report :: "(string \<times> raw_schema) list \<Rightarrow> string \<Rightarrow> string list \<Rightarrow> bool" where
  "cycle_report raw ex cs \<longleftrightarrow> (let X = (extends_edges raw ex)\<^sup>* in \<exists>comps. cs = concat comps
     \<and> (\<forall>C\<in>set comps. C \<noteq> [] \<and> C = filter (\<lambda>n. n \<in> set C) (schema_names raw ex)
         \<and> (\<forall>a\<in>set C. set C = {b. (a, b) \<in> X \<and> (b, a) \<in> X}))
     \<and> sorted_wrt (\<lambda>C D. \<forall>a\<in>set C. \<forall>b\<in>set D. (a, b) \<notin> X) comps)"

lemma left_reach:
  assumes "parents_first E V" "j \<notin> set V"
  shows "(i, j) \<in> (left_edges E V)\<^sup>* \<longleftrightarrow> (i, j) \<in> E\<^sup>*" "(i, j) \<in> E\<^sup>* \<Longrightarrow> i \<notin> set V"
proof -
  have "(i, j) \<in> (left_edges E V)\<^sup>* \<and> i \<notin> set V" if "(i, j) \<in> E\<^sup>*"
    using that
  proof (induction rule: converse_rtrancl_induct)
    case (step a b)
    then have "(a, b) \<in> left_edges E V" using parents_first_closed [OF assms(1)] by (auto simp: left_edges_def)
    then show ?case using step by (auto simp: left_edges_def intro: converse_rtrancl_into_rtrancl)
  qed (use assms(2) in simp)
  moreover have "(left_edges E V)\<^sup>* \<subseteq> E\<^sup>*" by (intro rtrancl_mono) (auto simp: left_edges_def)
  ultimately show "(i, j) \<in> (left_edges E V)\<^sup>* \<longleftrightarrow> (i, j) \<in> E\<^sup>*" "(i, j) \<in> E\<^sup>* \<Longrightarrow> i \<notin> set V" by blast+
qed

lemma picked_in_order:
  assumes "distinct names" "sorted_wrt (<) C" "set C \<subseteq> {..<length names}"
  shows "map ((!) names) C = filter (\<lambda>n. n \<in> set (map ((!) names) C)) names"
proof -
  have "i < length names \<Longrightarrow> names ! i \<in> (!) names ` set C \<longleftrightarrow> i \<in> set C" for i
    using assms(1,3) by (auto simp: nth_eq_iff_index_eq)
  then have "filter (\<lambda>i. names ! i \<in> (!) names ` set C) [0..<length names] = filter (\<lambda>i. i \<in> set C) [0..<length names]"
    by (intro filter_cong refl) simp
  also have "\<dots> = C" using assms(2,3) by (intro strict_sorted_equal) (auto simp: sorted_wrt_filter)
  finally have "map ((!) names) C
      = filter (\<lambda>n. n \<in> (!) names ` set C) (map ((!) names) [0..<length names])" by (simp add: filter_map o_def)
  then show ?thesis unfolding map_nth set_map .
qed

lemma named_reach:
  assumes fit: "schemas_fit raw" and i: "i < length (schema_names raw ex)"
  shows "j < length (schema_names raw ex) \<Longrightarrow>
      (schema_names raw ex ! i, schema_names raw ex ! j) \<in> (extends_edges raw ex)\<^sup>* \<longleftrightarrow> (i, j) \<in> (index_edges raw ex)\<^sup>*"
    and "(schema_names raw ex ! i, n) \<in> (extends_edges raw ex)\<^sup>*
      \<Longrightarrow> \<exists>j<length (schema_names raw ex). n = schema_names raw ex ! j"
proof -
  show "j < length (schema_names raw ex) \<Longrightarrow>
      (schema_names raw ex ! i, schema_names raw ex ! j) \<in> (extends_edges raw ex)\<^sup>* \<longleftrightarrow> (i, j) \<in> (index_edges raw ex)\<^sup>*"
    using i index_edges_names(2) [OF fit i] schema_names_simps(1) [OF fit, of ex]
    by (simp add: rtrancl_eq_or_trancl nth_eq_iff_index_eq)
  show "(schema_names raw ex ! i, n) \<in> (extends_edges raw ex)\<^sup>*
      \<Longrightarrow> \<exists>j<length (schema_names raw ex). n = schema_names raw ex ! j"
  proof (induction rule: rtrancl_induct)
    case (step m n)
    then show ?case using extends_field(2) [OF fit step(2)] by (metis in_set_conv_nth)
  qed (use i in blast)
qed

lemma reported_by_component:
  assumes fit: "schemas_fit raw" and names: "adj_names adj = schema_names raw ex"
    and first: "parents_first (index_edges raw ex) V" and rep: "reported adj (index_edges raw ex) V cs"
  shows "cycle_report raw ex cs"
proof -
  let ?names = "schema_names raw ex" and ?E = "index_edges raw ex" and ?X = "(extends_edges raw ex)\<^sup>*"
  let ?pick = "map ((!) ?names)" and ?N = "{..<length ?names} - set V"
  obtain comps where comps: "cs = concat (map ?pick comps)" "component_lists (left_edges ?E V) ?N comps"
    using rep by (auto simp: reported_def names node_count_def)
  have in_range: "a < length ?names" "a \<notin> set V" if "C \<in> set comps" "a \<in> set C" for C a
    using that comps(2) by (auto simp: component_lists_def)
  have component: "set C = {b. (a, b) \<in> ?E\<^sup>* \<and> (b, a) \<in> ?E\<^sup>*}" if "C \<in> set comps" "a \<in> set C" for C a
  proof -
    have "set C = {b. (a, b) \<in> (left_edges ?E V)\<^sup>* \<and> (b, a) \<in> (left_edges ?E V)\<^sup>*}"
      using that comps(2) by (simp add: component_lists_def)
    also have "\<dots> = {b. (a, b) \<in> ?E\<^sup>* \<and> (b, a) \<in> ?E\<^sup>*}"
    proof (intro Collect_cong)
      fix b
      note to_a = left_reach [OF first in_range(2) [OF that], of b]
      show "(a, b) \<in> (left_edges ?E V)\<^sup>* \<and> (b, a) \<in> (left_edges ?E V)\<^sup>* \<longleftrightarrow> (a, b) \<in> ?E\<^sup>* \<and> (b, a) \<in> ?E\<^sup>*"
      proof (cases "b \<in> set V")
        case False
        then show ?thesis using left_reach(1) [OF first False, of a] to_a(1) by simp
      qed (use to_a in blast)
    qed
    finally show ?thesis .
  qed
  show ?thesis
    unfolding cycle_report_def Let_def
  proof (intro exI [of _ "map ?pick comps"] conjI ballI)
    show "cs = concat (map ?pick comps)" by (rule comps(1))
    fix D
    assume "D \<in> set (map ?pick comps)"
    then obtain C where C: "C \<in> set comps" "D = ?pick C" by auto
    then show "D \<noteq> []" using comps(2) by (auto simp: component_lists_def)
    show "D = filter (\<lambda>n. n \<in> set D) ?names"
      unfolding C(2) using C(1) comps(2) in_range(1)
      by (intro picked_in_order schema_names_simps(1) [OF fit]) (auto simp: component_lists_def)
    fix n
    assume "n \<in> set D"
    then obtain a where a: "a \<in> set C" "n = ?names ! a" using C(2) by auto
    note reach = named_reach [OF fit in_range(1) [OF C(1) a(1)]]
    have both: "(n, ?names ! b) \<in> ?X \<and> (?names ! b, n) \<in> ?X \<longleftrightarrow> b \<in> set C" if "b < length ?names" for b
      using reach(1) [OF that] named_reach(1) [OF fit that in_range(1) [OF C(1) a(1)]] a(2)
        component [OF C(1) a(1)] by simp
    have "m \<in> set D \<longleftrightarrow> (n, m) \<in> ?X \<and> (m, n) \<in> ?X" for m
    proof
      assume "m \<in> set D"
      then obtain b where "b \<in> set C" "m = ?names ! b" using C(2) by auto
      then show "(n, m) \<in> ?X \<and> (m, n) \<in> ?X" using both in_range(1) [OF C(1)] by blast
    next
      assume m: "(n, m) \<in> ?X \<and> (m, n) \<in> ?X"
      then obtain j where "j < length ?names" "m = ?names ! j" using reach(2) a(2) by blast
      then show "m \<in> set D" using both m C(2) by auto
    qed
    then show "set D = {b. (n, b) \<in> ?X \<and> (b, n) \<in> ?X}" by blast
  next
    have "sorted_wrt (\<lambda>C D. \<forall>a\<in>set C. \<forall>b\<in>set D. (?names ! a, ?names ! b) \<notin> ?X) comps"
    proof (rule sorted_wrt_mono_rel [of _ "\<lambda>C D. \<forall>a\<in>set C. \<forall>b\<in>set D. (a, b) \<notin> (left_edges ?E V)\<^sup>*"])
      show "sorted_wrt (\<lambda>C D. \<forall>a\<in>set C. \<forall>b\<in>set D. (a, b) \<notin> (left_edges ?E V)\<^sup>*) comps"
        using comps(2) by (simp add: component_lists_def)
    qed (use in_range left_reach(1) [OF first] named_reach(1) [OF fit] in blast)
    then show "sorted_wrt (\<lambda>C D. \<forall>a\<in>set C. \<forall>b\<in>set D. (a, b) \<notin> ?X) (map ?pick comps)" by (simp add: sorted_wrt_map)
  qed
qed

lemma graph_build_cases:
  assumes fit: "schemas_fit raw"
  shows "\<exists>cs V g. distinct cs \<and> set cs = {n. (n, n) \<in> (extends_edges raw ex)\<^sup>+}
    \<and> graph_build (fst (graph_builder_new raw ex)) = Some (if cs = [] then Ok g else Err cs)
    \<and> (cs = [] \<longrightarrow> graph_holds raw ex V g) \<and> cycle_report raw ex cs"
proof -
  let ?E = "index_edges raw ex" and ?adj = "fst (adjacency_build raw ex)"
  obtain ks where adj: "adj_spec ?adj ks ?E" and names: "adj_names ?adj = schema_names raw ex"
    using adjacency_build_spec [OF fit] by blast
  have n: "node_count ?adj = length (schema_names raw ex)" by (simp add: node_count_def names)
  obtain b warnings where new: "graph_builder_new raw ex = (b, warnings)" by fastforce
  obtain b' V where drain: "drain_ready b = Some b'" and part: "sorted_part ?adj ?E V b'"
    using drain_sorts [OF adj kahn_initial [OF adj new refl]] by blast
  note S = sorted_part_searches [OF adj part]
  have b': "gb_adjacency b' = ?adj" using part by (simp add: sorted_part_def)
  obtain cs where cs: "find_cyclic (cycle_detector_new ?adj (gb_visited b')) = Some cs" "distinct cs"
    "set cs = {adj_names ?adj ! i | i. i < node_count ?adj \<and> (i, i) \<in> (left_edges ?E V)\<^sup>+}" "reported ?adj ?E V cs"
    using find_cyclic_exact [OF S(1,2)] by blast
  then have cycles: "set cs = {n. (n, n) \<in> (extends_edges raw ex)\<^sup>+}"
    unfolding left_cycles [OF S(3,2)] extends_cycle [OF fit] n names by auto
  define rank where "rank = compute_topo_rank ?adj (gb_visited b')"
  define g where "g = \<lparr> sg_adjacency = fold (sort_children (sort_key (rank_of rank))) [0..<sat_u32 (node_count ?adj)] ?adj,
      topo_order = gb_visited b', topo_rank = rank \<rparr>"
  have "graph_build (fst (graph_builder_new raw ex)) = Some (if cs = [] then Ok g else Err cs)"
    using cs(1) by (simp add: graph_build_def new drain b' rank_def g_def Let_def)
  moreover have "graph_holds raw ex V g" if "cs = []"
  proof -
    have "(i, i) \<notin> ?E\<^sup>+" for i
    proof
      assume i: "(i, i) \<in> ?E\<^sup>+"
      then have "i < node_count ?adj" using adj_specD(7) [OF adj] by (meson tranclD)
      with i have "adj_names ?adj ! i \<in> set cs" unfolding cs(3) left_cycles [OF S(3,2)] by blast
      with that show False by simp
    qed
    then have "set V = {..<node_count ?adj}" by (intro sorted_part_all [OF adj part]) simp
    then show ?thesis unfolding g_def by (rule built_graph_holds [OF adj names part _ rank_def])
  qed
  moreover have "cycle_report raw ex cs" by (rule reported_by_component [OF fit names S(3) cs(4)])
  ultimately show ?thesis using cs(2) cycles by blast
qed

lemma graph_holds_order:
  assumes fit: "schemas_fit raw" and g: "graph_holds raw ex V g"
  shows "distinct (topo_order g)" "set (topo_order g) = set (schema_names raw ex)"
    "k < length (topo_order g) \<Longrightarrow> (topo_order g ! k, p) \<in> extends_edges raw ex \<Longrightarrow> p \<in> set (take k (topo_order g))"
proof -
  let ?names = "schema_names raw ex"
  have V: "distinct V" "set V = {..<length ?names}" "parents_first (index_edges raw ex) V" "topo_order g = map ((!) ?names) V"
    using g by (simp_all add: graph_holds_def)
  have inj: "distinct ?names" by (rule schema_names_simps(1) [OF fit])
  show "distinct (topo_order g)"
    using V(1,2) inj by (auto simp: V(4) distinct_map inj_on_def nth_eq_iff_index_eq)
  have "set ?names = (!) ?names ` {..<length ?names}" by (auto simp: set_conv_nth)
  then show "set (topo_order g) = set ?names" by (simp only: V(4) set_map V(2))
  assume k: "k < length (topo_order g)" and p: "(topo_order g ! k, p) \<in> extends_edges raw ex"
  have "p \<in> set ?names" using extends_field(2) [OF fit p] .
  then obtain j where j: "j < length ?names" "?names ! j = p" by (metis in_set_conv_nth)
  have Vk: "V ! k < length ?names" using k V(2,4) nth_mem [of k V] by auto
  then have "(V ! k, j) \<in> index_edges raw ex"
    using index_edges_names(1) [OF fit Vk j(1)] p k j(2) by (simp add: V(4))
  then have "j \<in> set (take k V)" using V(3) k by (auto simp: parents_first_def V(4))
  then show "p \<in> set (take k (topo_order g))" using j(2) by (auto simp: V(4) take_map)
qed

text \<open>C8. Building the graph of \<open>extends\<close> always ends.  It fails exactly when some schema extends itself,
  directly or through others, and the failure lists those schemas, each once; otherwise it gives an
  order of all schemas but the excluded one, each once, in which a schema comes after every schema it
  extends.\<close>

theorem schema_graph_build_exact:
  assumes "schemas_fit raw"
  shows "\<exists>r. graph_build (fst (graph_builder_new raw ex)) = Some r \<and> (case r of
      Err cyclic \<Rightarrow> cyclic \<noteq> [] \<and> distinct cyclic \<and> set cyclic = {n. (n, n) \<in> (extends_edges raw ex)\<^sup>+}
    | Ok g \<Rightarrow> acyclic (extends_edges raw ex) \<and> distinct (topo_order g) \<and> set (topo_order g) = set (schema_names raw ex)
        \<and> (\<forall>k p. k < length (topo_order g) \<and> (topo_order g ! k, p) \<in> extends_edges raw ex
            \<longrightarrow> p \<in> set (take k (topo_order g))))"
proof -
  obtain cs V g where r: "distinct cs" "set cs = {n. (n, n) \<in> (extends_edges raw ex)\<^sup>+}"
    "graph_build (fst (graph_builder_new raw ex)) = Some (if cs = [] then Ok g else Err cs)"
    "cs = [] \<longrightarrow> graph_holds raw ex V g"
    using graph_build_cases [OF assms] by blast
  show ?thesis
  proof (cases "cs = []")
    case True
    then have "acyclic (extends_edges raw ex)" using r(2) by (auto simp: acyclic_def)
    moreover have g: "graph_holds raw ex V g" using True r(4) by blast
    moreover have "\<forall>k p. k < length (topo_order g) \<and> (topo_order g ! k, p) \<in> extends_edges raw ex
        \<longrightarrow> p \<in> set (take k (topo_order g))"
      using graph_holds_order(3) [OF assms g] by blast
    ultimately show ?thesis
      using r(3) graph_holds_order(1,2) [OF assms g] unfolding if_P [OF True] by (intro exI [of _ "Ok g"]) simp
  next
    case False
    then show ?thesis using r(1-3) by simp
  qed
qed

definition extending :: "string \<Rightarrow> string list \<Rightarrow> string \<times> raw_schema" where
  "extending name parents = (name, \<lparr> raw_extends = parents, raw_excludes = [], raw_fields = [] \<rparr>)"

theorem schema_graph_build_exact_witness:
  "let raw = [extending ''book'' [''work'', ''global''], extending ''work'' [], extending ''paper'' [''work'', ''paper'']]
   in \<exists>r. graph_build (fst (graph_builder_new raw ''global'')) = Some r \<and> (case r of
      Err cyclic \<Rightarrow> cyclic \<noteq> [] \<and> distinct cyclic \<and> set cyclic = {n. (n, n) \<in> (extends_edges raw ''global'')\<^sup>+}
    | Ok g \<Rightarrow> acyclic (extends_edges raw ''global'') \<and> distinct (topo_order g)
        \<and> set (topo_order g) = set (schema_names raw ''global'')
        \<and> (\<forall>k p. k < length (topo_order g) \<and> (topo_order g ! k, p) \<in> extends_edges raw ''global''
            \<longrightarrow> p \<in> set (take k (topo_order g))))"
  unfolding Let_def
  by (rule schema_graph_build_exact) (simp add: extending_def schemas_fit_def u32_max_def)

section \<open>Descendants\<close>

definition flags_hold :: "nat \<Rightarrow> bool list \<Rightarrow> nat list \<Rightarrow> bool" where
  "flags_hold n seen hits \<longleftrightarrow> length seen = n \<and> (\<forall>i<n. seen ! i \<longleftrightarrow> i \<in> set hits)
     \<and> distinct hits \<and> set hits \<subseteq> {..<n}"

lemma flags_add:
  "flags_hold n seen hits \<Longrightarrow> d < n \<Longrightarrow> d \<notin> set hits \<Longrightarrow> flags_hold n (seen[d := True]) (hits @ [d])"
  by (auto simp: flags_hold_def nth_list_update)

lemma flags_get: "flags_hold n seen hits \<Longrightarrow> d < n \<Longrightarrow> slice_get seen d = Some True \<longleftrightarrow> d \<in> set hits"
  by (simp add: flags_hold_def slice_get_def)

lemma note_descendants:
  assumes "flags_hold n seen hits" "set ds \<subseteq> {..<n}" "fold note_descendant ds (seen, hits) = (seen', hits')"
  shows "flags_hold n seen' hits' \<and> set hits' = set hits \<union> set ds"
  using assms
proof (induction ds arbitrary: seen hits)
  case (Cons d ds)
  show ?case
  proof (cases "d \<in> set hits")
    case True
    then have "fold note_descendant ds (seen, hits) = (seen', hits')"
      using Cons.prems flags_get [OF Cons.prems(1), of d] by simp
    then show ?thesis using Cons.IH [OF Cons.prems(1)] Cons.prems(2) True by auto
  next
    case False
    then have "fold note_descendant ds (seen[d := True], hits @ [d]) = (seen', hits')"
      using Cons.prems flags_get [OF Cons.prems(1), of d] by simp
    moreover have "flags_hold n (seen[d := True]) (hits @ [d])"
      using flags_add [OF Cons.prems(1) _ False] Cons.prems(2) by simp
    ultimately show ?thesis using Cons.IH [of "seen[d := True]" "hits @ [d]"] Cons.prems(2) by auto
  qed
qed simp

definition closed_under :: "nat list list \<Rightarrow> nat set \<Rightarrow> bool" where
  "closed_under descendants S \<longleftrightarrow> (\<forall>x\<in>S. set (descendants ! x) \<subseteq> S)"

lemma merge_child_simps:
  "slice_get seen c = Some True \<Longrightarrow> merge_child_into descendants c (seen, hits) = (seen, hits)"
  "slice_get seen c \<noteq> Some True \<Longrightarrow> c < length descendants
    \<Longrightarrow> merge_child_into descendants c (seen, hits) = fold note_descendant (descendants ! c) (seen[c := True], hits @ [c])"
  by (simp_all add: merge_child_into_def slice_get_def)

lemma merge_children:
  assumes "flags_hold n seen hits" "set cs \<subseteq> {..<n}" "closed_under descendants (set hits)"
    "length descendants = n" "\<forall>x<n. set (descendants ! x) \<subseteq> {..<n} \<and> closed_under descendants (set (descendants ! x))"
    "fold (merge_child_into descendants) cs (seen, hits) = (seen', hits')"
  shows "flags_hold n seen' hits' \<and> set hits' = set hits \<union> (\<Union>c\<in>set cs. insert c (set (descendants ! c)))"
  using assms
proof (induction cs arbitrary: seen hits)
  case (Cons c cs)
  have c: "c < n" using Cons.prems(2) by simp
  show ?case
  proof (cases "c \<in> set hits")
    case True
    then have "fold (merge_child_into descendants) cs (seen, hits) = (seen', hits')"
      using Cons.prems(6) flags_get [OF Cons.prems(1) c] by (simp add: merge_child_simps(1))
    then have "flags_hold n seen' hits' \<and> set hits' = set hits \<union> (\<Union>c\<in>set cs. insert c (set (descendants ! c)))"
      using Cons.prems(2) by (intro Cons.IH [OF Cons.prems(1) _ Cons.prems(3-5)]) simp_all
    moreover have "set (descendants ! c) \<subseteq> set hits" using Cons.prems(3) True by (simp add: closed_under_def)
    ultimately show ?thesis using True by auto
  next
    case False
    obtain seen1 hits1 where one: "fold note_descendant (descendants ! c) (seen[c := True], hits @ [c]) = (seen1, hits1)"
      by fastforce
    have D: "set (descendants ! c) \<subseteq> {..<n}" "closed_under descendants (set (descendants ! c))" using Cons.prems(5) c by blast+
    note added = note_descendants [OF flags_add [OF Cons.prems(1) c False] D(1) one]
    have rest: "fold (merge_child_into descendants) cs (seen1, hits1) = (seen', hits')"
      using Cons.prems(4,6) flags_get [OF Cons.prems(1) c] c False one
      by (simp add: merge_child_simps(2))
    have "closed_under descendants (set hits1)"
      using Cons.prems(3) D(2) added unfolding closed_under_def by auto
    then have "flags_hold n seen' hits' \<and> set hits' = set hits1 \<union> (\<Union>c\<in>set cs. insert c (set (descendants ! c)))"
      using Cons.prems(2) added by (intro Cons.IH [OF _ _ _ Cons.prems(4,5) rest]) simp_all
    then show ?thesis using added by auto
  qed
qed (simp add: flags_hold_def)

lemma nth_clear: "i < length seen \<Longrightarrow> seen[a := False] ! i \<longleftrightarrow> seen ! i \<and> i \<noteq> a"
  by (cases "a = i") auto

lemma clear_found:
  "length (fold (\<lambda>d seen. seen[d := False]) hits seen) = length seen"
  "i < length seen \<Longrightarrow> fold (\<lambda>d seen. seen[d := False]) hits seen ! i \<longleftrightarrow> seen ! i \<and> i \<notin> set hits"
  by (induction hits arbitrary: seen) (auto simp: nth_clear)

definition closure_state :: "nat \<Rightarrow> edge set \<Rightarrow> nat list \<Rightarrow> nat list \<Rightarrow> nat \<Rightarrow> descendant_accumulator \<Rightarrow> bool" where
  "closure_state n E V rank k a \<longleftrightarrow> length (acc_seen a) = n \<and> (\<forall>i<n. \<not> acc_seen a ! i)
     \<and> length (acc_descendants a) = n \<and> acc_rank a = rank
     \<and> (\<forall>j<n. acc_descendants a ! j = (if j \<in> set (drop k V) then filter (\<lambda>d. (d, j) \<in> E\<^sup>+) V else []))"

lemma children_later:
  assumes "parents_first E V" "distinct V" "k < length V" "(c, V ! k) \<in> E" "c \<in> set V"
  shows "c \<in> set (drop (Suc k) V)"
proof -
  obtain m where m: "m < length V" "V ! m = c" using assms(5) by (metis in_set_conv_nth)
  then have "V ! k \<in> set (take m V)" using assms(1,4) by (auto simp: parents_first_def)
  then obtain l where "l < m" "V ! l = V ! k" using m by (auto simp: in_set_conv_nth)
  then have "k < m" using assms(2,3) m(1) by (simp add: nth_eq_iff_index_eq)
  then show ?thesis using m by (auto simp: in_set_conv_nth intro!: exI [of _ "m - Suc k"])
qed

lemma descendants_step:
  "{d \<in> S. (d, v) \<in> E\<^sup>+} = (\<Union>c\<in>{c. (c, v) \<in> E}. insert c {d \<in> S. (d, c) \<in> E\<^sup>+})" if "{c. (c, v) \<in> E} \<subseteq> S"
proof -
  have "(d, v) \<in> E\<^sup>+ \<longleftrightarrow> (\<exists>c. (c, v) \<in> E \<and> (d = c \<or> (d, c) \<in> E\<^sup>+))" for d
    by (metis r_into_trancl trancl.simps)
  then show ?thesis using that by auto
qed

lemma accumulate_closure:
  assumes V: "distinct V" "set V = {..<n}" "parents_first E V" "\<forall>k<length V. rank_of rank (V ! k) = k"
    and k: "k < length V" and children: "set children = {c. (c, V ! k) \<in> E}" "set children \<subseteq> {..<n}"
    and state: "closure_state n E V rank (Suc k) a"
  shows "closure_state n E V rank k (accumulate (V ! k) children a)"
proof -
  let ?v = "V ! k" and ?D = "acc_descendants a"
  let ?below = "\<lambda>j. filter (\<lambda>d. (d, j) \<in> E\<^sup>+) V"
  have v: "?v < n" "?v \<notin> set (drop (Suc k) V)"
    using k V(1,2) nth_mem [OF k] by (auto simp: in_set_conv_nth nth_eq_iff_index_eq)
  have S: "length (acc_seen a) = n" "\<forall>i<n. \<not> acc_seen a ! i" "length ?D = n" "acc_rank a = rank"
    "\<And>j. j < n \<Longrightarrow> ?D ! j = (if j \<in> set (drop (Suc k) V) then ?below j else [])"
    using state by (simp_all add: closure_state_def)
  have taken: "?D[?v := []] = ?D" using S(5) [OF v(1)] v(2) by (simp add: list_update_same_conv S(3) v(1))
  have sub: "set (?D ! x) \<subseteq> {d \<in> {..<n}. (d, x) \<in> E\<^sup>+}" if "x < n" for x using S(5) [OF that] V(2) by auto
  have closed: "set (?D ! x) \<subseteq> {..<n} \<and> closed_under ?D (set (?D ! x))" if x: "x < n" for x
  proof (cases "x \<in> set (drop (Suc k) V)")
    case True
    then have eq: "set (?D ! x) = {d \<in> {..<n}. (d, x) \<in> E\<^sup>+}" using S(5) [OF x] V(2) by auto
    have "set (?D ! y) \<subseteq> {d \<in> {..<n}. (d, x) \<in> E\<^sup>+}" if y: "y < n" "(y, x) \<in> E\<^sup>+" for y
    proof
      fix d
      assume "d \<in> set (?D ! y)"
      then have "d < n" "(d, y) \<in> E\<^sup>+" using sub [OF y(1)] by auto
      then show "d \<in> {d \<in> {..<n}. (d, x) \<in> E\<^sup>+}" using trancl_trans [OF _ y(2)] by simp
    qed
    then show ?thesis unfolding closed_under_def eq by auto
  qed (use S(5) [OF x] in \<open>simp add: closed_under_def\<close>)
  obtain seen hits where fold: "fold (merge_child_into ?D) children (acc_seen a, []) = (seen, hits)" by fastforce
  have merged: "flags_hold n seen hits \<and> set hits = set [] \<union> (\<Union>c\<in>set children. insert c (set (?D ! c)))"
    by (rule merge_children [OF _ children(2) _ S(3) _ fold])
      (use S(1,2) closed in \<open>auto simp: flags_hold_def closed_under_def\<close>)
  have below_child: "set (?D ! c) = {d \<in> {..<n}. (d, c) \<in> E\<^sup>+}" if c: "c \<in> set children" for c
  proof -
    have "c \<in> set (drop (Suc k) V)" using children_later [OF V(3,1) k, of c] children c V(2) by auto
    then show ?thesis using S(5) [of c] children(2) c V(2) by auto
  qed
  have "set hits = (\<Union>c\<in>set children. insert c {d \<in> {..<n}. (d, c) \<in> E\<^sup>+})"
    using merged below_child by simp
  also have "\<dots> = {d \<in> {..<n}. (d, ?v) \<in> E\<^sup>+}"
    unfolding children(1) by (rule descendants_step [symmetric]) (use children in simp)
  finally have hits: "set hits = {d \<in> {..<n}. (d, ?v) \<in> E\<^sup>+}" .
  have "sort_key (rank_of rank) hits = filter (\<lambda>x. x \<in> set hits) V"
    using merged hits V(2) by (intro sort_by_rank [OF V(4,1)]) (auto simp: flags_hold_def)
  also have "\<dots> = ?below ?v" using hits V(2) by (intro filter_cong) auto
  finally have sorted: "sort_key (rank_of rank) hits = ?below ?v" .
  have acc: "accumulate ?v children a = a \<lparr> acc_seen := fold (\<lambda>d seen. seen[d := False]) (?below ?v) seen,
      acc_descendants := ?D[?v := ?below ?v] \<rparr>"
    using v(1) S(3) S(5) [OF v(1)] v(2) fold sorted
    by (simp add: accumulate_def slice_get_def taken S(4) Let_def)
  have "set (?below ?v) = set hits" using hits V(2) by auto
  moreover have "i < length seen" "seen ! i \<longleftrightarrow> i \<in> set hits" if "i < n" for i
    using that merged by (simp_all add: flags_hold_def)
  ultimately have clear: "\<not> fold (\<lambda>d seen. seen[d := False]) (?below ?v) seen ! i" if "i < n" for i
    using that clear_found(2) [of i seen "?below ?v"] by blast
  have "set (drop k V) = insert ?v (set (drop (Suc k) V))" using k by (simp add: Cons_nth_drop_Suc [symmetric])
  then have "?D[?v := ?below ?v] ! j = (if j \<in> set (drop k V) then ?below j else [])" if "j < n" for j
    using that S(3) S(5) [OF that] by (cases "V ! k = j") auto
  then show ?thesis
    using clear S(3,4) merged unfolding closure_state_def acc by (simp add: clear_found flags_hold_def)
qed

lemma closure_fold:
  assumes V: "distinct V" "set V = {..<n}" "parents_first E V" "\<forall>k<length V. rank_of rank (V ! k) = k"
    and E: "E \<subseteq> {..<n} \<times> {..<n}" and children: "\<forall>i<n. set (children i) = {c. (c, i) \<in> E}"
    and init: "closure_state n E V rank (length V) a" and k: "k \<le> length V"
  shows "closure_state n E V rank k (fold (\<lambda>i. accumulate i (children i)) (rev (drop k V)) a)"
  using k
proof (induction k rule: inc_induct)
  case base
  show ?case using init by simp
next
  case (step k)
  have "V ! k < n" using V(2) nth_mem [OF step.hyps(2)] by auto
  then have "set (children (V ! k)) = {c. (c, V ! k) \<in> E}" "set (children (V ! k)) \<subseteq> {..<n}" using children E by auto
  from accumulate_closure [OF V step.hyps(2) this step.IH]
  show ?case using step.hyps(2) by (simp add: Cons_nth_drop_Suc [symmetric])
qed

lemma descendants_exact:
  assumes g: "graph_holds raw ex V g" and i: "i < length (schema_names raw ex)"
  shows "slice_get (descendant_indices g) i = Some (filter (\<lambda>d. (d, i) \<in> (index_edges raw ex)\<^sup>+) V)"
    and "children_slice (sg_adjacency g) i = filter (\<lambda>c. (c, i) \<in> index_edges raw ex) V"
proof -
  let ?n = "length (schema_names raw ex)" and ?E = "index_edges raw ex" and ?adj = "sg_adjacency g"
  obtain ks where adj: "adj_spec ?adj ks ?E" and ks: "\<forall>i<?n. ks ! i = filter (\<lambda>c. (c, i) \<in> ?E) V"
    and names: "adj_names ?adj = schema_names raw ex"
    and V: "distinct V" "set V = {..<?n}" "parents_first ?E V" "\<forall>k<length V. rank_of (topo_rank g) (V ! k) = k"
      "topo_order g = map ((!) (schema_names raw ex)) V"
    using g by (auto simp: graph_holds_def)
  have n: "node_count ?adj = ?n" by (simp add: node_count_def names)
  have children: "children_slice ?adj i = filter (\<lambda>c. (c, i) \<in> ?E) V" if "i < ?n" for i
    using adj_specD(11) [OF adj] ks that n by simp
  then show "children_slice ?adj i = filter (\<lambda>c. (c, i) \<in> ?E) V" using i by blast
  have E: "?E \<subseteq> {..<?n} \<times> {..<?n}" using adj n by (simp add: adj_spec_def)
  have sets: "\<forall>i<?n. set (children_slice ?adj i) = {c. (c, i) \<in> ?E}" using children E V(2) by auto
  have init: "closure_state ?n ?E V (topo_rank g) (length V) (accumulator_new ?n (topo_rank g))"
    by (simp add: closure_state_def accumulator_new_def)
  have index: "index_of ?adj (schema_names raw ex ! j) = Some j" if "j \<in> set (rev V)" for j
    using that adj_specD(12) [OF adj] V(2) n names by auto
  have "fold (\<lambda>name a. case index_of ?adj name of None \<Rightarrow> a | Some node \<Rightarrow> accumulate node (children_slice ?adj node) a)
      (rev (topo_order g)) a = fold (\<lambda>i. accumulate i (children_slice ?adj i)) (rev V) a" for a
    unfolding V(5) rev_map fold_map by (rule fold_cong [OF refl refl]) (simp add: index fun_eq_iff)
  then have "closure_state ?n ?E V (topo_rank g) 0 (fold (\<lambda>name a. case index_of ?adj name of None \<Rightarrow> a
      | Some node \<Rightarrow> accumulate node (children_slice ?adj node) a) (rev (topo_order g)) (accumulator_new ?n (topo_rank g)))"
    using closure_fold [OF V(1-4) E sets init, of 0] by simp
  then show "slice_get (descendant_indices g) i = Some (filter (\<lambda>d. (d, i) \<in> ?E\<^sup>+) V)"
    using i V(2) by (simp add: descendant_indices_def n closure_state_def slice_get_def)
qed

lemma resolve_names_at:
  assumes "adj_names adj = names" "distinct names" "distinct V" "set V \<subseteq> {..<length names}"
  shows "resolve_names adj (filter P V) name keep
    = filter (\<lambda>n. (\<exists>i<length names. names ! i = n \<and> P i) \<and> keep n name) (map ((!) names) V)"
proof -
  have named: "List.map_filter (name_of adj) xs = map ((!) names) xs" if "set xs \<subseteq> {..<length names}" for xs
    using that by (induction xs) (simp_all add: List.map_filter_simps name_of_def slice_get_def assms(1))
  have mem: "(\<exists>i<length names. names ! i = names ! j \<and> P i) \<longleftrightarrow> P j" if "j \<in> set V" for j
    using that assms(2,4) by (auto simp: nth_eq_iff_index_eq)
  have "inj_on ((!) names) (set V)"
    using assms(2,4) by (intro inj_on_nth) auto
  then have "distinct (map ((!) names) (filter P V))" using assms(3) by (simp add: distinct_map inj_on_def)
  then have "keep_first [] (filter Q (map ((!) names) (filter P V))) = filter Q (map ((!) names) (filter P V))" for Q
    by (intro keep_first_id distinct_filter) simp_all
  moreover have "List.map_filter (name_of adj) (filter P V) = map ((!) names) (filter P V)"
    using assms(4) by (intro named) auto
  ultimately have "resolve_names adj (filter P V) name keep = filter (\<lambda>n. keep n name) (map ((!) names) (filter P V))"
    by (simp only: resolve_names_def)
  also have "\<dots> = map ((!) names) (filter (\<lambda>j. (\<exists>i<length names. names ! i = names ! j \<and> P i) \<and> keep (names ! j) name) V)"
    unfolding filter_map filter_filter comp_def by (intro arg_cong [where f = "map ((!) names)"] filter_cong refl) (use mem in blast)
  finally show ?thesis by (simp add: filter_map comp_def)
qed

lemma hierarchy_rows:
  assumes fit: "schemas_fit raw" and built: "graph_build (fst (graph_builder_new raw ex)) = Some (Ok g)"
  shows "hierarchy g keep = map (\<lambda>name. (name,
      filter (\<lambda>c. (c, name) \<in> extends_edges raw ex \<and> keep c name) (topo_order g),
      filter (\<lambda>d. (d, name) \<in> (extends_edges raw ex)\<^sup>+ \<and> keep d name) (topo_order g))) (schema_names raw ex)"
proof -
  let ?names = "schema_names raw ex" and ?E = "index_edges raw ex" and ?X = "extends_edges raw ex"
  let ?row = "\<lambda>name. (name, filter (\<lambda>c. (c, name) \<in> ?X \<and> keep c name) (topo_order g),
      filter (\<lambda>d. (d, name) \<in> ?X\<^sup>+ \<and> keep d name) (topo_order g))"
  obtain V where g: "graph_holds raw ex V g"
    using graph_build_cases [OF fit, of ex] built by (auto split: if_splits)
  note V = g [unfolded graph_holds_def]
  note resolve = resolve_names_at [OF _ schema_names_simps(1) [OF fit], of "sg_adjacency g" ex V]
  have adj: "adj_names (sg_adjacency g) = ?names" "distinct V" "set V \<subseteq> {..<length ?names}"
    "topo_order g = map ((!) ?names) V"
    using V by auto
  have field: "n \<in> set (topo_order g) \<Longrightarrow> n \<in> set ?names" for n
    using graph_holds_order(2) [OF fit g] by simp
  have edge: "(\<exists>j<length ?names. ?names ! j = n \<and> (j, i) \<in> ?E) \<longleftrightarrow> (n, ?names ! i) \<in> ?X"
    "(\<exists>j<length ?names. ?names ! j = n \<and> (j, i) \<in> ?E\<^sup>+) \<longleftrightarrow> (n, ?names ! i) \<in> ?X\<^sup>+"
    if "i < length ?names" "n \<in> set (topo_order g)" for i n
    using index_edges_names [OF fit _ that(1)] field [OF that(2)] by (metis in_set_conv_nth)+
  have row: "resolve_names (sg_adjacency g) (children_slice (sg_adjacency g) i) (?names ! i) keep
        = filter (\<lambda>c. (c, ?names ! i) \<in> ?X \<and> keep c (?names ! i)) (topo_order g)"
      "resolve_names (sg_adjacency g) (case slice_get (descendant_indices g) i of Some ds \<Rightarrow> ds | None \<Rightarrow> []) (?names ! i) keep
        = filter (\<lambda>d. (d, ?names ! i) \<in> ?X\<^sup>+ \<and> keep d (?names ! i)) (topo_order g)"
    if i: "i < length ?names" for i
    unfolding descendants_exact [OF g i] option.case resolve [OF adj(1-3)] adj(4) [symmetric]
    by (intro filter_cong refl; use edge [OF i] in blast)+
  have "i < length ?names \<Longrightarrow> sat_u32 i = i" for i
    using schema_names_simps(2) [OF fit, of ex] by (simp add: sat_u32_def)
  then have "hierarchy g keep = map (\<lambda>i. ?row (?names ! i)) [0..<length ?names]"
    unfolding hierarchy_def Let_def adj(1) enumerate_names map_map using row by (intro map_cong refl) simp
  then show ?thesis by (simp only: map_at [where f = ?row])
qed

text \<open>C9. The hierarchy of a built graph lists, for every schema but the excluded one in the order of the
  map, the schemas that extend it directly and the ones that extend it directly or through others.  Both
  lists follow the topological order, hold a schema once, and leave out what the caller does not keep.\<close>

theorem schema_hierarchy_exact:
  assumes fit: "schemas_fit raw" and built: "graph_build (fst (graph_builder_new raw ex)) = Some (Ok g)"
  shows "hierarchy g keep = map (\<lambda>name. (name,
      filter (\<lambda>c. (c, name) \<in> extends_edges raw ex \<and> keep c name) (topo_order g),
      filter (\<lambda>d. (d, name) \<in> (extends_edges raw ex)\<^sup>+ \<and> keep d name) (topo_order g))) (schema_names raw ex)"
  using assms by (rule hierarchy_rows)

lemma work_and_book_built:
  "\<exists>g. graph_build (fst (graph_builder_new [extending ''book'' [''work'', ''global''], extending ''work'' []] ''global''))
    = Some (Ok g)"
proof -
  let ?raw = "[extending ''book'' [''work'', ''global''], extending ''work'' []]"
  have fit: "schemas_fit ?raw" by (simp add: extending_def schemas_fit_def u32_max_def)
  have "extends_edges ?raw ''global'' = {(''book'', ''work'')}"
    by (auto simp: extending_def extends_edges_def split: if_splits)
  then have "acyclic (extends_edges ?raw ''global'')" by (simp add: acyclic_insert) (simp add: acyclic_def)
  then have "{n. (n, n) \<in> (extends_edges ?raw ''global'')\<^sup>+} = {}" by (simp add: acyclic_def)
  then show ?thesis using graph_build_cases [OF fit, of "''global''"] by fastforce
qed

theorem schema_hierarchy_exact_witness:
  "let raw = [extending ''book'' [''work'', ''global''], extending ''work'' []]
   in \<exists>g. graph_build (fst (graph_builder_new raw ''global'')) = Some (Ok g)
     \<and> hierarchy g (\<lambda>_ _. True) = map (\<lambda>name. (name,
         filter (\<lambda>c. (c, name) \<in> extends_edges raw ''global'' \<and> True) (topo_order g),
         filter (\<lambda>d. (d, name) \<in> (extends_edges raw ''global'')\<^sup>+ \<and> True) (topo_order g))) (schema_names raw ''global'')"
proof -
  let ?raw = "[extending ''book'' [''work'', ''global''], extending ''work'' []]"
  obtain g where g: "graph_build (fst (graph_builder_new ?raw ''global'')) = Some (Ok g)"
    using work_and_book_built by blast
  have fit: "schemas_fit ?raw" by (simp add: extending_def schemas_fit_def u32_max_def)
  from schema_hierarchy_exact [OF fit g, of "\<lambda>_ _. True"] g show ?thesis unfolding Let_def by blast
qed

lemma two_cycles_report:
  "graph_build (fst (graph_builder_new
      [extending ''z'' [''z'', ''a''], extending ''a'' [''b''], extending ''b'' [''a'']] ''global''))
    = Some (Err [''a'', ''b'', ''z''])"
  by code_simp

text \<open>C37. The report of cycles lists the schemas component by component: a component is a largest set of
  schemas that all extend one another, directly or through others; inside it the schemas are in the order
  of their declaration; and a component comes after the ones its schemas extend, whatever the order of
  declaration.\<close>

theorem cycles_reported_by_component:
  assumes "schemas_fit raw" "graph_build (fst (graph_builder_new raw ex)) = Some (Err cyclic)"
  shows "\<exists>components. cyclic = concat components
    \<and> (\<forall>C\<in>set components. C \<noteq> [] \<and> C = filter (\<lambda>n. n \<in> set C) (schema_names raw ex)
        \<and> (\<forall>a\<in>set C. set C = {b. (a, b) \<in> (extends_edges raw ex)\<^sup>* \<and> (b, a) \<in> (extends_edges raw ex)\<^sup>*}))
    \<and> sorted_wrt (\<lambda>C D. \<forall>a\<in>set C. \<forall>b\<in>set D. (a, b) \<notin> (extends_edges raw ex)\<^sup>*) components"
proof -
  obtain cs g where "graph_build (fst (graph_builder_new raw ex)) = Some (if cs = [] then Ok g else Err cs)"
    "cycle_report raw ex cs"
    using graph_build_cases [OF assms(1), of ex] by blast
  then have "cycle_report raw ex cyclic" using assms(2) by (simp split: if_splits)
  then show ?thesis by (simp only: cycle_report_def Let_def)
qed

text \<open>The schema that is declared first is reported last, since the others do not extend it.\<close>

theorem cycles_reported_by_component_witness:
  "let raw = [extending ''z'' [''z'', ''a''], extending ''a'' [''b''], extending ''b'' [''a'']]
   in graph_build (fst (graph_builder_new raw ''global'')) = Some (Err [''a'', ''b'', ''z''])
    \<and> (\<exists>components. [''a'', ''b'', ''z''] = concat components
      \<and> (\<forall>C\<in>set components. C \<noteq> [] \<and> C = filter (\<lambda>n. n \<in> set C) (schema_names raw ''global'')
          \<and> (\<forall>a\<in>set C. set C = {b. (a, b) \<in> (extends_edges raw ''global'')\<^sup>* \<and> (b, a) \<in> (extends_edges raw ''global'')\<^sup>*}))
      \<and> sorted_wrt (\<lambda>C D. \<forall>a\<in>set C. \<forall>b\<in>set D. (a, b) \<notin> (extends_edges raw ''global'')\<^sup>*) components)"
  unfolding Let_def
proof (rule conjI [OF two_cycles_report cycles_reported_by_component [OF _ two_cycles_report]])
  show "schemas_fit [extending ''z'' [''z'', ''a''], extending ''a'' [''b''], extending ''b'' [''a'']]"
    by (simp add: extending_def schemas_fit_def u32_max_def)
qed

end
