(* ===== verification/Schema_Builder.thy ===== *)
theory Schema_Builder
  imports Field_Builder Schema_Hierarchy
begin

text \<open>
  Resolution of all schemas (\<open>src/schema/builder.rs\<close>): the Global Schema first, then every schema of
  the graph after the ones it extends, each merged from its parents' fields, its \<open>excludes\<close> and its own
  fields; then the hierarchy of what resolved.  The builder's state is a record; a panic, and a graph
  construction that does not end, are \<open>None\<close>.
\<close>

section \<open>Merging one schema\<close>

text \<open>\<open>entry().or_insert_with()\<close> and \<open>shift_remove\<close> of an insertion-ordered map.\<close>

definition index_or_insert :: "'k \<Rightarrow> 'v \<Rightarrow> ('k \<times> 'v) list \<Rightarrow> ('k \<times> 'v) list" where
  "index_or_insert k v m = (if map_of m k = None then m @ [(k, v)] else m)"

definition index_remove :: "'k \<Rightarrow> ('k \<times> 'v) list \<Rightarrow> ('k \<times> 'v) list" where
  "index_remove k m = filter (\<lambda>(k', v). k' \<noteq> k) m"

definition index_modify :: "'k \<Rightarrow> ('v \<Rightarrow> 'v) \<Rightarrow> ('k \<times> 'v) list \<Rightarrow> ('k \<times> 'v) list" where
  "index_modify k f m = map (\<lambda>(k', v). if k' = k then (k', f v) else (k', v)) m"

type_synonym field_map = "(string \<times> field_def) list"

fun inherit_fields ::
  "schemas \<Rightarrow> string \<Rightarrow> string list \<Rightarrow> field_map \<times> string list \<times> schema_warning list
    \<Rightarrow> field_map \<times> string list \<times> schema_warning list"
where
  "inherit_fields resolved name [] acc = acc"
| "inherit_fields resolved name (parent # parents) (fs, ancestors, ws) =
     (case map_of resolved parent of
        None \<Rightarrow> inherit_fields resolved name parents (fs, ancestors, ws @ [ParentFailedToResolve name parent])
      | Some s \<Rightarrow> inherit_fields resolved name parents
          (fold (\<lambda>(f, d). index_or_insert f d) (schema_fields s) fs,
           fold set_insert (schema_ancestors s) (set_insert parent ancestors), ws))"

definition exclude_fields :: "string list \<Rightarrow> field_map \<Rightarrow> field_map" where
  "exclude_fields excludes fs = fold index_remove excludes fs"

fun resolve_own_fields ::
  "('x, 'z) field_env_scheme \<Rightarrow> schemas \<Rightarrow> string \<Rightarrow> string list \<Rightarrow> (string \<times> raw_field_def) list \<Rightarrow> field_map
    \<Rightarrow> schema_warning list \<Rightarrow> values_cache
    \<Rightarrow> ('x schema_error, field_map \<times> schema_warning list) result \<times> values_cache"
where
  "resolve_own_fields env resolved name ancestors [] fs ws c = (Ok (fs, ws), c)"
| "resolve_own_fields env resolved name ancestors ((f, raw) # raws) fs ws c =
     (case field_build env ancestors resolved \<lparr> address_schema = name, address_field = f \<rparr> raw c of
        (Inl e, c) \<Rightarrow> (Err e, c)
      | (Inr (d, w), c) \<Rightarrow> resolve_own_fields env resolved name ancestors raws (index_insert f d fs) (ws @ w) c)"

fun reject_ambiguous_field_names ::
  "unicode \<Rightarrow> string \<Rightarrow> string list \<Rightarrow> (string \<times> string) list \<Rightarrow> ('x schema_error, unit) result"
where
  "reject_ambiguous_field_names u name [] seen = Ok ()"
| "reject_ambiguous_field_names u name (f # fs) seen =
     (case map_of seen (canonicalize u f) of
        Some first \<Rightarrow> Err (AmbiguousFieldName name first f)
      | None \<Rightarrow> reject_ambiguous_field_names u name fs ((canonicalize u f, f) # seen))"

definition merge_schema ::
  "('x, 'z) field_env_scheme \<Rightarrow> unicode \<Rightarrow> schemas \<Rightarrow> string \<Rightarrow> raw_schema \<Rightarrow> string list \<Rightarrow> values_cache
    \<Rightarrow> ('x schema_error, schema \<times> schema_warning list) result \<times> values_cache"
where
  "merge_schema env u resolved name raw parents c =
     (let (fs, ancestors, ws) = inherit_fields resolved name parents ([], [], []);
          fs = exclude_fields (raw_excludes raw) fs
      in case resolve_own_fields env resolved name ancestors (raw_fields raw) fs [] c of
           (Inl e, c) \<Rightarrow> (Err e, c)
         | (Inr (fs, own_ws), c) \<Rightarrow>
             (and_then (reject_ambiguous_field_names u name (map fst fs) []) (\<lambda>_.
                Ok (schema_new name fs ancestors, ws @ own_ws)), c))"

section \<open>Resolving all schemas\<close>

record 'x schema_builder =
  sb_resolved :: schemas
  sb_warnings :: "schema_warning list"
  sb_failures :: "(string \<times> 'x schema_error) list"
  sb_values :: values_cache

definition schema_builder_new :: "values_cache \<Rightarrow> 'x schema_builder" where
  "schema_builder_new c = \<lparr> sb_resolved = [], sb_warnings = [], sb_failures = [], sb_values = c \<rparr>"

definition resolve_global ::
  "('x, 'z) field_env_scheme \<Rightarrow> unicode \<Rightarrow> raw_schemas \<Rightarrow> 'x schema_builder \<Rightarrow> ('x schema_error, 'x schema_builder) result"
where
  "resolve_global env u raw b = (case map_of raw global_schema_name of
       None \<Rightarrow> Ok b
     | Some global_raw \<Rightarrow>
         (case merge_schema env u (sb_resolved b) global_schema_name global_raw [] (sb_values b) of
            (Inl e, c) \<Rightarrow> Err e
          | (Inr (s, ws), c) \<Rightarrow> Ok (b \<lparr> sb_warnings := sb_warnings b @ ws,
              sb_resolved := index_insert global_schema_name s (sb_resolved b), sb_values := c \<rparr>)))"

definition merge_next ::
  "('x, 'z) field_env_scheme \<Rightarrow> unicode \<Rightarrow> raw_schemas \<Rightarrow> schema_graph \<Rightarrow> string \<Rightarrow> 'x schema_builder
    \<Rightarrow> 'x schema_builder option"
where
  "merge_next env u raw g name b = (case map_of raw name of
       None \<Rightarrow> None
     | Some raw_schema \<Rightarrow>
         (case merge_schema env u (sb_resolved b) name raw_schema (sg_parents_of g name) (sb_values b) of
            (Inr (s, ws), c) \<Rightarrow> Some (b \<lparr> sb_warnings := sb_warnings b @ ws,
              sb_resolved := index_insert name s (sb_resolved b), sb_values := c \<rparr>)
          | (Inl e, c) \<Rightarrow> Some (b \<lparr> sb_failures := sb_failures b @ [(name, e)], sb_values := c \<rparr>)))"

fun merge_in_order ::
  "('x, 'z) field_env_scheme \<Rightarrow> unicode \<Rightarrow> raw_schemas \<Rightarrow> schema_graph \<Rightarrow> string list \<Rightarrow> 'x schema_builder
    \<Rightarrow> 'x schema_builder option"
where
  "merge_in_order env u raw g [] b = Some b"
| "merge_in_order env u raw g (name # names) b =
     Option.bind (merge_next env u raw g name b) (merge_in_order env u raw g names)"

definition merge_in_topological_order ::
  "('x, 'z) field_env_scheme \<Rightarrow> unicode \<Rightarrow> raw_schemas \<Rightarrow> schema_graph \<Rightarrow> 'x schema_builder \<Rightarrow> 'x schema_builder option"
where
  "merge_in_topological_order env u raw g b = merge_in_order env u raw g (topological_order g) b"

definition still_descends_from :: "schemas \<Rightarrow> string \<Rightarrow> string \<Rightarrow> bool" where
  "still_descends_from resolved candidate name \<longleftrightarrow> (case map_of resolved candidate of
     Some s \<Rightarrow> name \<in> set (schema_ancestors s) | None \<Rightarrow> False)"

definition compute_hierarchy :: "schema_graph \<Rightarrow> 'x schema_builder \<Rightarrow> 'x schema_builder" where
  "compute_hierarchy g b =
     (let updates = filter (\<lambda>(name, children, descendants). map_of (sb_resolved b) name \<noteq> None)
            (hierarchy g (still_descends_from (sb_resolved b)))
      in b \<lparr> sb_resolved := fold (\<lambda>(name, children, descendants). index_modify name (set_hierarchy children descendants))
           updates (sb_resolved b) \<rparr>)"

record 'x resolved_schemas =
  rs_schemas :: schemas
  rs_warnings :: "schema_warning list"
  rs_failures :: "(string \<times> 'x schema_error) list"

definition builder_finish :: "'x schema_builder \<Rightarrow> 'x resolved_schemas" where
  "builder_finish b = \<lparr> rs_schemas = sb_resolved b, rs_warnings = sb_warnings b, rs_failures = sb_failures b \<rparr>"

definition schema_builder_build ::
  "('x, 'z) field_env_scheme \<Rightarrow> unicode \<Rightarrow> raw_schemas \<Rightarrow> values_cache
    \<Rightarrow> ('x schema_error, 'x resolved_schemas) result option"
where
  "schema_builder_build env u raw c =
     (case resolve_global env u raw (schema_builder_new c) of
        Inl e \<Rightarrow> Some (Err e)
      | Inr b \<Rightarrow>
          (let (gb, graph_warnings) = graph_builder_new raw global_schema_name;
               b = b \<lparr> sb_warnings := sb_warnings b @ graph_warnings \<rparr>
           in Option.bind (graph_build gb) (\<lambda>r. case r of
                Inl cyclic \<Rightarrow> Some (Err (SchemaCycle cyclic))
              | Inr g \<Rightarrow> map_option (\<lambda>b. Ok (builder_finish (compute_hierarchy g b)))
                  (merge_in_topological_order env u raw g b))))"

section \<open>Maps\<close>

lemma map_of_or_insert: "map_of (index_or_insert k v m) = (\<lambda>x. if x = k \<and> map_of m k = None then Some v else map_of m x)"
  by (auto simp: index_or_insert_def map_add_def fun_eq_iff split: option.splits)

lemma map_of_remove: "map_of (index_remove k m) = (map_of m)(k := None)"
  by (induction m) (auto simp: index_remove_def fun_eq_iff)

lemma map_of_modify: "map_of (index_modify k f m) x = (if x = k then map_option f (map_of m k) else map_of m x)"
  by (induction m) (auto simp: index_modify_def)

lemma keys_modify [simp]: "map fst (index_modify k f m) = map fst m"
  by (induction m) (auto simp: index_modify_def)

lemma set_set_insert [simp]: "set (set_insert x xs) = insert x (set xs)"
  by (auto simp: set_insert_def)

lemma set_fold_set_insert [simp]: "set (fold set_insert ys xs) = set ys \<union> set xs"
  by (induction ys arbitrary: xs) auto

lemma map_of_fold_or_insert:
  "map_of (fold (\<lambda>(f, d). index_or_insert f d) new fs) x = (case map_of fs x of Some d \<Rightarrow> Some d | None \<Rightarrow> map_of new x)"
proof (induction new arbitrary: fs)
  case (Cons p new)
  then show ?case by (cases p) (auto simp: map_of_or_insert split: option.splits)
qed (auto split: option.splits)

lemma map_of_exclude: "map_of (exclude_fields ex fs) x = (if x \<in> set ex then None else map_of fs x)"
  unfolding exclude_fields_def by (induction ex arbitrary: fs) (auto simp: map_of_remove)

section \<open>The fields of a merged schema\<close>

text \<open>The definition of a field in the first listed parent that resolved and has it.\<close>

fun first_inherited :: "schemas \<Rightarrow> string list \<Rightarrow> string \<Rightarrow> field_def option" where
  "first_inherited resolved [] f = None"
| "first_inherited resolved (parent # parents) f =
     (case Option.bind (map_of resolved parent) (\<lambda>s. schema_field s f) of
        Some d \<Rightarrow> Some d
      | None \<Rightarrow> first_inherited resolved parents f)"

lemma inherit_fields_spec:
  assumes "inherit_fields resolved name parents (fs, ancestors, ws) = (fs', ancestors', ws')"
  shows "map_of fs' f = (case map_of fs f of Some d \<Rightarrow> Some d | None \<Rightarrow> first_inherited resolved parents f)"
    "set ancestors' = set ancestors \<union> (\<Union>p\<in>set parents. case map_of resolved p of
        Some s \<Rightarrow> insert p (set (schema_ancestors s)) | None \<Rightarrow> {})"
  using assms
proof (induction parents arbitrary: fs ancestors ws)
  case (Cons p parents)
  {
    case 1
    then show ?case
      using Cons.IH(1) by (cases "map_of resolved p") (auto simp: map_of_fold_or_insert schema_field_def split: option.splits)
  next
    case 2
    then show ?case using Cons.IH(2) by (cases "map_of resolved p") auto
  }
qed (auto split: option.splits)

lemma resolve_own_fields_spec:
  assumes "resolve_own_fields env resolved name ancestors raws fs ws c = (Ok (fs', ws'), c')" "distinct (map fst raws)"
  shows "case map_of raws f of
      None \<Rightarrow> map_of fs' f = map_of fs f
    | Some raw \<Rightarrow> \<exists>d w c1 c2. map_of fs' f = Some d
        \<and> field_build env ancestors resolved \<lparr> address_schema = name, address_field = f \<rparr> raw c1 = (Ok (d, w), c2)"
  using assms
proof (induction raws arbitrary: fs ws c)
  case (Cons r raws)
  obtain g raw where r: "r = (g, raw)" by (cases r)
  obtain d w c1 where one: "field_build env ancestors resolved \<lparr> address_schema = name, address_field = g \<rparr> raw c = (Ok (d, w), c1)"
    and rest: "resolve_own_fields env resolved name ancestors raws (index_insert g d fs) (ws @ w) c1 = (Ok (fs', ws'), c')"
    using Cons.prems(1) r by (auto split: prod.splits sum.splits)
  have "distinct (map fst raws)" and g: "map_of raws g = None" using Cons.prems(2) r by (auto simp: map_of_eq_None_iff)
  note IH = Cons.IH [OF rest this(1)]
  show ?case
  proof (cases "f = g")
    case True
    then show ?thesis using IH g one r by auto
  next
    case False
    then show ?thesis using IH r by (auto split: option.splits)
  qed
qed simp

lemma own_fields_ok:
  assumes "resolve_own_fields env resolved name ancestors raws fs ws c = (Ok (fs', ws'), c')" "fields_ok resolved"
    "\<forall>(f, d)\<in>set fs. kind_ok (def_kind d) \<and> (name = global_schema_name \<longrightarrow> \<not> def_required d)" "distinct (map fst fs)"
  shows "(\<forall>(f, d)\<in>set fs'. kind_ok (def_kind d) \<and> (name = global_schema_name \<longrightarrow> \<not> def_required d)) \<and> distinct (map fst fs')"
  using assms(1,3,4)
proof (induction raws arbitrary: fs ws c)
  case (Cons r raws)
  obtain g raw where r: "r = (g, raw)" by (cases r)
  obtain d w c1 where one: "field_build env ancestors resolved \<lparr> address_schema = name, address_field = g \<rparr> raw c = (Ok (d, w), c1)"
    and rest: "resolve_own_fields env resolved name ancestors raws (index_insert g d fs) (ws @ w) c1 = (Ok (fs', ws'), c')"
    using Cons.prems(1) r by (auto split: prod.splits sum.splits)
  have "kind_ok (def_kind d) \<and> (name = global_schema_name \<longrightarrow> \<not> def_required d)"
    using field_build_ok [OF one assms(2)] by simp
  then have "\<forall>(f, d)\<in>set (index_insert g d fs). kind_ok (def_kind d) \<and> (name = global_schema_name \<longrightarrow> \<not> def_required d)"
    using Cons.prems(2) set_index_insert [of g d fs] by blast
  then show ?case using Cons.IH [OF rest] Cons.prems(3) by simp
qed auto

lemma reject_ambiguous_Ok:
  "reject_ambiguous_field_names u name fs seen = Ok () \<longleftrightarrow>
    distinct (map (canonicalize u) fs) \<and> (\<forall>f\<in>set fs. map_of seen (canonicalize u f) = None)"
  by (induction fs arbitrary: seen) (auto split: option.splits simp: image_iff)

lemma merge_schema_Ok:
  assumes "merge_schema env u resolved name raw parents c = (Ok (s, ws), c')"
  obtains inherited inherited_ws own_ws where
    "inherit_fields resolved name parents ([], [], []) = (inherited, schema_ancestors s, inherited_ws)"
    "resolve_own_fields env resolved name (schema_ancestors s) (raw_fields raw)
      (exclude_fields (raw_excludes raw) inherited) [] c = (Ok (schema_fields s, own_ws), c')"
    "distinct (map (canonicalize u) (map fst (schema_fields s)))" "schema_name s = name"
    "ws = inherited_ws @ own_ws" "schema_children s = []" "schema_descendants s = []"
proof -
  obtain inherited ancestors inherited_ws
    where 1: "inherit_fields resolved name parents ([], [], []) = (inherited, ancestors, inherited_ws)" by (metis surj_pair)
  obtain r c1 where 2: "resolve_own_fields env resolved name ancestors (raw_fields raw)
      (exclude_fields (raw_excludes raw) inherited) [] c = (r, c1)" by fastforce
  obtain fs own_ws where r: "r = Ok (fs, own_ws)" using assms 1 2 by (cases r) (auto simp: merge_schema_def)
  have s: "reject_ambiguous_field_names u name (map fst fs) [] = (Ok () :: ('a schema_error, unit) result)"
    "s = schema_new name fs ancestors" "ws = inherited_ws @ own_ws" "c' = c1"
    using assms 1 2 r by (auto simp: merge_schema_def and_then_eq_Ok)
  then show ?thesis
    using that [of inherited inherited_ws own_ws] 1 2 r
    by (simp add: schema_new_def reject_ambiguous_Ok)
qed

text \<open>C14. The fields of a merged schema: a field it declares is the one its declaration builds (its
  \<open>$ref\<close> bounded by the ancestors), any other field is absent when excluded and otherwise that of the first
  listed parent that resolved and has it; no two of its fields share a canonical name, and its ancestors
  are its resolved parents and theirs.\<close>

theorem merged_fields_exact:
  assumes "merge_schema env u resolved name raw parents c = (Ok (s, ws), c')" "distinct (map fst (raw_fields raw))"
  shows "(case map_of (raw_fields raw) f of
        None \<Rightarrow> schema_field s f = (if f \<in> set (raw_excludes raw) then None else first_inherited resolved parents f)
      | Some rf \<Rightarrow> \<exists>d w c1 c2. schema_field s f = Some d
          \<and> field_build env (schema_ancestors s) resolved \<lparr> address_schema = name, address_field = f \<rparr> rf c1 = (Ok (d, w), c2))
    \<and> distinct (map (canonicalize u) (map fst (schema_fields s)))
    \<and> set (schema_ancestors s) = (\<Union>p\<in>set parents. case map_of resolved p of
        Some q \<Rightarrow> insert p (set (schema_ancestors q)) | None \<Rightarrow> {})"
proof -
  obtain inherited inherited_ws own_ws where m:
    "inherit_fields resolved name parents ([], [], []) = (inherited, schema_ancestors s, inherited_ws)"
    "resolve_own_fields env resolved name (schema_ancestors s) (raw_fields raw)
      (exclude_fields (raw_excludes raw) inherited) [] c = (Ok (schema_fields s, own_ws), c')"
    "distinct (map (canonicalize u) (map fst (schema_fields s)))"
    by (rule merge_schema_Ok [OF assms(1)])
  have "map_of inherited f = first_inherited resolved parents f" using inherit_fields_spec(1) [OF m(1)] by simp
  then have "map_of (exclude_fields (raw_excludes raw) inherited) f
      = (if f \<in> set (raw_excludes raw) then None else first_inherited resolved parents f)"
    by (simp add: map_of_exclude)
  with resolve_own_fields_spec [OF m(2) assms(2), of f] inherit_fields_spec(2) [OF m(1)] m(3)
  show ?thesis by (cases "map_of (raw_fields raw) f") (simp_all add: schema_field_def)
qed

section \<open>Merged schemas are well formed\<close>

lemma in_or_insert: "set (index_or_insert k v m) \<subseteq> insert (k, v) (set m)"
  by (auto simp: index_or_insert_def)

lemma distinct_or_insert: "distinct (map fst m) \<Longrightarrow> distinct (map fst (index_or_insert k v m))"
  by (auto simp: index_or_insert_def map_of_eq_None_iff)

lemma fold_or_insert_kept:
  "distinct (map fst fs) \<Longrightarrow> distinct (map fst (fold (\<lambda>(f, d). index_or_insert f d) new fs))
    \<and> set (fold (\<lambda>(f, d). index_or_insert f d) new fs) \<subseteq> set fs \<union> set new"
proof (induction new arbitrary: fs)
  case (Cons p new)
  obtain f d where p: "p = (f, d)" by (cases p)
  show ?case
    using Cons.IH [OF distinct_or_insert [OF Cons.prems], of f d] in_or_insert [of f d fs] by (auto simp: p)
qed simp

lemma inherit_fields_kept:
  assumes "inherit_fields resolved name parents (fs, ancestors, ws) = (fs', ancestors', ws')" "distinct (map fst fs)"
  shows "distinct (map fst fs')
    \<and> (\<forall>p\<in>set fs'. p \<in> set fs \<or> (\<exists>q s. (q, s) \<in> set resolved \<and> p \<in> set (schema_fields s)))"
  using assms
proof (induction parents arbitrary: fs ancestors ws)
  case (Cons p parents)
  show ?case
  proof (cases "map_of resolved p")
    case None
    then show ?thesis using Cons by auto
  next
    case (Some s)
    note kept = fold_or_insert_kept [OF Cons.prems(2), of "schema_fields s"]
    have "(p, s) \<in> set resolved" using Some by (rule map_of_SomeD)
    moreover have "inherit_fields resolved name parents (fold (\<lambda>(f, d). index_or_insert f d) (schema_fields s) fs,
        fold set_insert (schema_ancestors s) (set_insert p ancestors), ws) = (fs', ancestors', ws')"
      using Cons.prems(1) Some by simp
    ultimately show ?thesis using Cons.IH [OF _ conjunct1 [OF kept]] kept by blast
  qed
qed simp

lemma exclude_fields_kept:
  "distinct (map fst fs) \<Longrightarrow> distinct (map fst (exclude_fields ex fs)) \<and> set (exclude_fields ex fs) \<subseteq> set fs"
  unfolding exclude_fields_def
proof (induction ex arbitrary: fs)
  case (Cons e ex)
  have "distinct (map fst (index_remove e fs))" using Cons.prems by (simp add: index_remove_def distinct_map_filter)
  then show ?case using Cons.IH [of "index_remove e fs"] by (auto simp: index_remove_def)
qed simp

lemma merged_schema_ok:
  assumes "merge_schema env u resolved name raw parents c = (Ok (s, ws), c')" "fields_ok resolved"
    "name = global_schema_name \<Longrightarrow> parents = []"
  shows "\<forall>(f, d)\<in>set (schema_fields s). kind_ok (def_kind d) \<and> (name = global_schema_name \<longrightarrow> \<not> def_required d)"
    and "distinct (map fst (schema_fields s))"
proof -
  obtain inherited inherited_ws own_ws where m:
    "inherit_fields resolved name parents ([], [], []) = (inherited, schema_ancestors s, inherited_ws)"
    "resolve_own_fields env resolved name (schema_ancestors s) (raw_fields raw)
      (exclude_fields (raw_excludes raw) inherited) [] c = (Ok (schema_fields s, own_ws), c')"
    by (rule merge_schema_Ok [OF assms(1)])
  note kept = inherit_fields_kept [OF m(1)]
  note excluded = exclude_fields_kept [of inherited "raw_excludes raw"]
  have "inherited = []" if "name = global_schema_name" using m(1) assms(3) [OF that] by simp
  then have "\<forall>(f, d)\<in>set inherited. kind_ok (def_kind d) \<and> (name = global_schema_name \<longrightarrow> \<not> def_required d)"
    using kept assms(2) by (fastforce simp: fields_ok_def)
  then have "\<forall>(f, d)\<in>set (exclude_fields (raw_excludes raw) inherited).
      kind_ok (def_kind d) \<and> (name = global_schema_name \<longrightarrow> \<not> def_required d)"
    using excluded kept by auto
  then show "\<forall>(f, d)\<in>set (schema_fields s). kind_ok (def_kind d) \<and> (name = global_schema_name \<longrightarrow> \<not> def_required d)"
    and "distinct (map fst (schema_fields s))"
    using own_fields_ok [OF m(2) assms(2)] excluded kept by simp_all
qed

end
