(* ===== verification/Schema_Registry.thy ===== *)
theory Schema_Registry
  imports Schema_Builder
begin

text \<open>
  What resolution promises of a whole set of schemas: every schema either resolved or failed, the fields of
  what resolved are well formed, and the ancestors, children and descendants of a schema are the paths of
  \<open>extends\<close> links between schemas that resolved.
\<close>

section \<open>Links between resolved schemas\<close>

definition resolved_edges :: "raw_schemas \<Rightarrow> string set \<Rightarrow> (string \<times> string) set" where
  "resolved_edges raw D = {(n, p). n \<noteq> global_schema_name \<and> n \<in> D \<and> p \<in> D
     \<and> (\<exists>rs. map_of raw n = Some rs \<and> p \<in> set (raw_extends rs))}"

lemma trancl_first: "(x, a) \<in> R\<^sup>+ \<longleftrightarrow> (\<exists>p. (x, p) \<in> R \<and> (a = p \<or> (p, a) \<in> R\<^sup>+))"
proof
  assume "(x, a) \<in> R\<^sup>+"
  then obtain p where "(x, p) \<in> R" "(p, a) \<in> R\<^sup>*" by (blast dest: tranclD)
  then show "\<exists>p. (x, p) \<in> R \<and> (a = p \<or> (p, a) \<in> R\<^sup>+)" unfolding rtrancl_eq_or_trancl by blast
qed (auto intro: trancl_into_trancl2)

lemma trancl_extend:
  assumes "E \<subseteq> D \<times> D" "n \<notin> D" "P \<subseteq> D"
  shows "(x, a) \<in> (E \<union> {n} \<times> P)\<^sup>+ \<longleftrightarrow> (if x = n then \<exists>p\<in>P. a = p \<or> (p, a) \<in> E\<^sup>+ else (x, a) \<in> E\<^sup>+)"
proof -
  let ?R = "E \<union> {n} \<times> P"
  have old: "(y, a) \<in> E\<^sup>+" if "(y, a) \<in> ?R\<^sup>+" "y \<noteq> n" for y a
    using that
  proof (induction rule: trancl_induct)
    case (base z)
    then show ?case by auto
  next
    case (step z w)
    then have "(y, z) \<in> E\<^sup>+" by blast
    then have "z \<in> D" using trancl_subset_Sigma [OF assms(1)] by blast
    then have "(z, w) \<in> E" using step.hyps(2) assms(2) by auto
    with \<open>(y, z) \<in> E\<^sup>+\<close> show ?case by (rule trancl_into_trancl)
  qed
  have mono: "(y, a) \<in> ?R\<^sup>+" if "(y, a) \<in> E\<^sup>+" for y a using that by (rule trancl_mono) blast
  show ?thesis
  proof (cases "x = n")
    case True
    have "(n, a) \<in> ?R\<^sup>+ \<longleftrightarrow> (\<exists>p. (n, p) \<in> ?R \<and> (a = p \<or> (p, a) \<in> ?R\<^sup>+))"
      by (rule trancl_first)
    also have "\<dots> \<longleftrightarrow> (\<exists>p\<in>P. a = p \<or> (p, a) \<in> ?R\<^sup>+)" using assms(1,2) by auto
    also have "\<dots> \<longleftrightarrow> (\<exists>p\<in>P. a = p \<or> (p, a) \<in> E\<^sup>+)" using assms(2,3) old mono by blast
    finally show ?thesis using True by simp
  next
    case False
    then show ?thesis using old mono by auto
  qed
qed

section \<open>The parents a graph reports\<close>

lemma parents_of_sorted: "adj_parents_of (fold (sort_children f) is adj) = adj_parents_of adj"
proof (induction "is" arbitrary: adj)
  case (Cons i "is")
  have "adj_parents_of (sort_children f i adj) = adj_parents_of adj"
    by (auto simp: fun_eq_iff sort_children_def adj_parents_of_def split: option.splits)
  then show ?case using Cons by simp
qed simp

lemma drain_keeps_adjacency: "drain_ready b = Some b' \<Longrightarrow> gb_adjacency b' = gb_adjacency b"
proof -
  have taken: "gb_adjacency (snd (next_ready x)) = gb_adjacency x" for x
    by (simp add: next_ready_def split: list.splits option.splits)
  have marked: "gb_adjacency (mark_resolved n x) = gb_adjacency x" for n x
    by (simp add: mark_resolved_def Let_def case_prod_beta split: option.splits)
  have step: "gb_adjacency (resolve_next x) = gb_adjacency x" for x
  proof -
    obtain name y where y: "next_ready x = (name, y)" by fastforce
    then have "gb_adjacency y = gb_adjacency x" using taken [of x] by simp
    then show ?thesis by (cases name) (simp_all add: resolve_next_def y marked)
  qed
  assume "drain_ready b = Some b'"
  then obtain x where x: "while_option (\<lambda>b. fst (next_ready b) \<noteq> None) resolve_next b = Some x" "b' = snd (next_ready x)"
    by (auto simp: drain_ready_def)
  have "gb_adjacency x = gb_adjacency b"
    by (rule while_option_rule [OF _ x(1), where P = "\<lambda>y. gb_adjacency y = gb_adjacency b"]) (simp_all add: step)
  then show ?thesis using x(2) taken by simp
qed

lemma graph_parents:
  assumes "graph_build (fst (graph_builder_new raw ex)) = Some (Ok g)" "n \<noteq> ex" "map_of raw n = Some rs"
  shows "set (sg_parents_of g n) = set (raw_extends rs)"
proof -
  let ?b = "fst (graph_builder_new raw ex)" and ?adj = "fst (adjacency_build raw ex)"
  have "gb_adjacency ?b = ?adj" by (simp add: graph_builder_new_def Let_def case_prod_beta)
  moreover obtain b' where b': "drain_ready ?b = Some b'" using assms(1) by (auto simp: graph_build_def bind_eq_Some_conv)
  ultimately have "gb_adjacency b' = ?adj" using drain_keeps_adjacency by metis
  then have "sg_parents_of g n = adj_parents_of ?adj n"
    using assms(1) b'
    by (auto simp: graph_build_def bind_eq_Some_conv sg_parents_of_def parents_of_sorted Let_def split: if_splits)
  also have "\<dots> = keep_first [] (raw_extends rs)"
    using assms(2,3) declared_of
    by (simp add: adj_parents_of_def adjacency_build_def assign_indices_def Let_def case_prod_beta)
  finally show ?thesis by simp
qed

section \<open>The invariant of resolution\<close>

definition schema_ok :: "raw_schemas \<Rightarrow> string set \<Rightarrow> string \<Rightarrow> schema \<Rightarrow> bool" where
  "schema_ok raw D n s \<longleftrightarrow> schema_name s = n \<and> set (schema_ancestors s) = {a. (n, a) \<in> (resolved_edges raw D)\<^sup>+}
     \<and> schema_children s = [] \<and> schema_descendants s = []"

definition required_ok :: "string \<Rightarrow> schema \<Rightarrow> bool" where
  "required_ok n s \<longleftrightarrow> n = global_schema_name \<longrightarrow> (\<forall>(f, d)\<in>set (schema_fields s). \<not> def_required d)"

definition resolving :: "raw_schemas \<Rightarrow> string set \<Rightarrow> 'x schema_builder \<Rightarrow> bool" where
  "resolving raw seen b \<longleftrightarrow> distinct (map fst (sb_resolved b)) \<and> distinct (map fst (sb_failures b))
     \<and> fst ` set (sb_resolved b) \<union> fst ` set (sb_failures b) = seen
     \<and> fst ` set (sb_resolved b) \<inter> fst ` set (sb_failures b) = {} \<and> fields_ok (sb_resolved b)
     \<and> (\<forall>(n, s)\<in>set (sb_resolved b). schema_ok raw (fst ` set (sb_resolved b)) n s \<and> required_ok n s)"

lemma resolving_schema:
  "resolving raw seen b \<Longrightarrow> map_of (sb_resolved b) n = Some s \<Longrightarrow> schema_ok raw (fst ` set (sb_resolved b)) n s"
  by (fastforce simp: resolving_def dest: map_of_SomeD)

lemma fields_ok_insert:
  "fields_ok m \<Longrightarrow> \<forall>(f, d)\<in>set (schema_fields s). kind_ok (def_kind d) \<Longrightarrow> fields_ok (index_insert n s m)"
  using set_index_insert [of n s m] by (fastforce simp: fields_ok_def)

lemma resolved_edges_empty: "resolved_edges raw {global_schema_name} = {}"
  by (auto simp: resolved_edges_def)

lemma resolve_global_inv:
  assumes "resolve_global env u raw (schema_builder_new c) = Ok b"
  shows "resolving raw ({global_schema_name} \<inter> fst ` set raw) b \<and> sb_failures b = []"
proof (cases "map_of raw global_schema_name")
  case None
  then have "global_schema_name \<notin> fst ` set raw" by (simp add: map_of_eq_None_iff)
  then show ?thesis
    using assms None by (auto simp: resolve_global_def schema_builder_new_def resolving_def fields_ok_def)
next
  case (Some global_raw)
  obtain s ws c' where merge: "merge_schema env u [] global_schema_name global_raw [] c = (Ok (s, ws), c')"
    and b: "sb_resolved b = [(global_schema_name, s)]" "sb_failures b = []"
    using assms Some by (auto simp: resolve_global_def schema_builder_new_def split: prod.splits sum.splits)
  have "global_schema_name \<in> fst ` set raw" using map_of_SomeD [OF Some] by force
  moreover have "\<forall>(f, d)\<in>set (schema_fields s). kind_ok (def_kind d)
      \<and> (global_schema_name = global_schema_name \<longrightarrow> \<not> def_required d)"
    by (rule merged_schema_ok(1) [OF merge]) (simp_all add: fields_ok_def)
  moreover have "schema_ok raw {global_schema_name} global_schema_name s"
    using merge by (elim merge_schema_Ok) (simp add: schema_ok_def resolved_edges_empty)
  ultimately show ?thesis using b by (auto simp: resolving_def fields_ok_def required_ok_def)
qed

lemma resolved_edges_insert:
  assumes "map_of raw n = Some rs" "n \<noteq> global_schema_name" "n \<notin> D" "n \<notin> set (raw_extends rs)"
    "\<forall>m\<in>D. \<forall>rs. m \<noteq> global_schema_name \<longrightarrow> map_of raw m = Some rs \<longrightarrow> n \<notin> set (raw_extends rs)"
  shows "resolved_edges raw (insert n D) = resolved_edges raw D \<union> {n} \<times> (set (raw_extends rs) \<inter> D)"
  using assms by (auto simp: resolved_edges_def)

lemma merge_next_inv:
  assumes inv: "resolving raw seen b" and fresh: "name \<notin> seen" "name \<noteq> global_schema_name" and raw: "map_of raw name = Some rs"
    and parents: "set (sg_parents_of g name) = set (raw_extends rs)" "name \<notin> set (raw_extends rs)"
    and later: "\<forall>m\<in>seen. \<forall>rs. m \<noteq> global_schema_name \<longrightarrow> map_of raw m = Some rs \<longrightarrow> name \<notin> set (raw_extends rs)"
  shows "\<exists>b'. merge_next env u raw g name b = Some b' \<and> resolving raw (insert name seen) b'"
proof -
  let ?D = "fst ` set (sb_resolved b)"
  have I: "distinct (map fst (sb_resolved b))" "distinct (map fst (sb_failures b))"
    "?D \<union> fst ` set (sb_failures b) = seen" "?D \<inter> fst ` set (sb_failures b) = {}" "fields_ok (sb_resolved b)"
    "\<forall>(n, s)\<in>set (sb_resolved b). schema_ok raw ?D n s \<and> required_ok n s"
    using inv by (simp_all add: resolving_def)
  have new: "name \<notin> ?D" "name \<notin> fst ` set (sb_failures b)" using I(3) fresh(1) by auto
  obtain r c where merge: "merge_schema env u (sb_resolved b) name rs (sg_parents_of g name) (sb_values b) = (r, c)" by fastforce
  show ?thesis
  proof (cases r)
    case (Inl e)
    then have "merge_next env u raw g name b = Some (b \<lparr> sb_failures := sb_failures b @ [(name, e)], sb_values := c \<rparr>)"
      using raw merge by (simp add: merge_next_def)
    moreover have "resolving raw (insert name seen) (b \<lparr> sb_failures := sb_failures b @ [(name, e)], sb_values := c \<rparr>)"
      unfolding resolving_def using I new by auto
    ultimately show ?thesis by blast
  next
    case (Inr x)
    obtain s ws where x: "x = (s, ws)" by (cases x)
    note merged = merge [unfolded Inr x]
    let ?b = "b \<lparr> sb_warnings := sb_warnings b @ ws, sb_resolved := index_insert name s (sb_resolved b), sb_values := c \<rparr>"
    let ?E = "resolved_edges raw ?D" and ?P = "set (raw_extends rs) \<inter> ?D"
    have edges: "resolved_edges raw (insert name ?D) = ?E \<union> {name} \<times> ?P"
      using resolved_edges_insert [OF raw fresh(2) new(1) parents(2)] later I(3) by blast
    have "?E \<subseteq> ?D \<times> ?D" by (auto simp: resolved_edges_def)
    note paths = trancl_extend [OF this new(1), of ?P, folded edges]
    obtain inherited inherited_ws own_ws where m:
      "inherit_fields (sb_resolved b) name (sg_parents_of g name) ([], [], []) = (inherited, schema_ancestors s, inherited_ws)"
      and s: "schema_name s = name" "schema_children s = []" "schema_descendants s = []"
      by (rule merge_schema_Ok [OF merged])
    have "a \<in> set (schema_ancestors s) \<longleftrightarrow> (\<exists>p\<in>?P. a = p \<or> (p, a) \<in> ?E\<^sup>+)" for a
    proof -
      have "a \<in> set (schema_ancestors s) \<longleftrightarrow> (\<exists>p\<in>set (raw_extends rs). \<exists>q. map_of (sb_resolved b) p = Some q
          \<and> (a = p \<or> a \<in> set (schema_ancestors q)))"
        using inherit_fields_spec(2) [OF m] parents(1) by (fastforce split: option.splits)
      also have "\<dots> \<longleftrightarrow> (\<exists>p\<in>set (raw_extends rs). p \<in> ?D \<and> (a = p \<or> (p, a) \<in> ?E\<^sup>+))"
      proof -
        have "(\<exists>q. map_of (sb_resolved b) p = Some q \<and> (a = p \<or> a \<in> set (schema_ancestors q)))
            \<longleftrightarrow> p \<in> ?D \<and> (a = p \<or> (p, a) \<in> ?E\<^sup>+)" for p
        proof (cases "map_of (sb_resolved b) p")
          case None
          moreover from None have "p \<notin> ?D" by (simp add: map_of_eq_None_iff)
          ultimately show ?thesis by simp
        next
          case (Some q)
          then have "p \<in> ?D" using map_of_SomeD by force
          then show ?thesis using Some resolving_schema [OF inv Some] by (simp add: schema_ok_def)
        qed
        then show ?thesis by simp
      qed
      finally show ?thesis by auto
    qed
    then have own: "schema_ok raw (insert name ?D) name s" using s paths by (auto simp: schema_ok_def)
    have old: "schema_ok raw (insert name ?D) n t" if "(n, t) \<in> set (sb_resolved b)" for n t
    proof -
      have "n \<noteq> name" "schema_ok raw ?D n t" using that new(1) I(6) by force+
      then show ?thesis using paths by (simp add: schema_ok_def)
    qed
    note fields = merged_schema_ok [OF merged I(5)]
    have "resolving raw (insert name seen) ?b"
      unfolding resolving_def
    proof (intro conjI ballI)
      show "fields_ok (sb_resolved ?b)" using fields_ok_insert [OF I(5)] fields(1) fresh(2) by fastforce
      fix t
      assume "t \<in> set (sb_resolved ?b)"
      then have "t = (name, s) \<or> t \<in> set (sb_resolved b)" using set_index_insert [of name s "sb_resolved b"] by auto
      then show "case t of (n, t) \<Rightarrow> schema_ok raw (fst ` set (sb_resolved ?b)) n t \<and> required_ok n t"
        using own old I(6) fresh(2) by (fastforce simp: required_ok_def)
    qed (use I new in auto)
    moreover have "merge_next env u raw g name b = Some ?b" using raw merged by (simp add: merge_next_def)
    ultimately show ?thesis by blast
  qed
qed

lemma merge_in_order_inv:
  assumes fit: "schemas_fit raw" and built: "graph_build (fst (graph_builder_new raw global_schema_name)) = Some (Ok g)"
    and order: "topo_order g = pre @ names" and inv: "resolving raw (seen \<union> set pre) b" "seen \<subseteq> {global_schema_name}"
  shows "\<exists>b'. merge_in_order env u raw g names b = Some b' \<and> resolving raw (seen \<union> set (topo_order g)) b'"
  using order inv(1)
proof (induction names arbitrary: "pre" b)
  case Nil
  then show ?case by simp
next
  case (Cons name names)
  obtain V where g: "graph_holds raw global_schema_name V g"
    using graph_build_cases [OF fit, of global_schema_name] built by (auto split: if_splits)
  note O = graph_holds_order [OF fit g]
  have in_order: "set (topo_order g) = set (schema_names raw global_schema_name)" by (rule O(2))
  then have name: "name \<noteq> global_schema_name" "name \<in> fst ` set raw"
    using Cons.prems(1) schema_names_simps(4) [OF fit, of name global_schema_name] by auto
  then obtain rs where rs: "map_of raw name = Some rs" using map_of_eq_None_iff [of raw name] by fastforce
  have fresh: "name \<notin> seen \<union> set pre" using O(1) Cons.prems(1) name(1) inv(2) by auto
  have edge: "p \<in> set (take k (topo_order g))"
    if "k < length (topo_order g)" "map_of raw (topo_order g ! k) = Some rs" "p \<in> set (raw_extends rs)" "p = name" for k p rs
  proof (rule O(3) [OF that(1)])
    have "topo_order g ! k \<noteq> global_schema_name"
      using that(1) in_order schema_names_simps(3) [OF fit, of global_schema_name] nth_mem by metis
    then show "(topo_order g ! k, p) \<in> extends_edges raw global_schema_name"
      using that name by (auto simp: extends_edges_def)
  qed
  have at: "topo_order g ! length pre = name" "length pre < length (topo_order g)" "take (length pre) (topo_order g) = pre"
    using Cons.prems(1) by simp_all
  have "name \<notin> set (raw_extends rs)" using edge [OF at(2), of rs name] at rs fresh by auto
  moreover have "\<forall>m\<in>seen \<union> set pre. \<forall>rs. m \<noteq> global_schema_name \<longrightarrow> map_of raw m = Some rs \<longrightarrow> name \<notin> set (raw_extends rs)"
  proof (intro ballI allI impI notI)
    fix m rs
    assume m: "m \<in> seen \<union> set pre" "m \<noteq> global_schema_name" "map_of raw m = Some rs" "name \<in> set (raw_extends rs)"
    then have "m \<in> set pre" using inv(2) by auto
    then obtain k where k: "k < length pre" "pre ! k = m" by (metis in_set_conv_nth)
    then have "k < length (topo_order g)" "topo_order g ! k = m" "take k (topo_order g) = take k pre"
      using Cons.prems(1) by (simp_all add: nth_append)
    then have "name \<in> set (take k pre)" using edge [of k rs name] m by simp
    then show False using fresh in_set_takeD by fastforce
  qed
  ultimately obtain b1 where b1: "merge_next env u raw g name b = Some b1" "resolving raw (insert name (seen \<union> set pre)) b1"
    using merge_next_inv [OF Cons.prems(2) fresh name(1) rs graph_parents [OF built name(1) rs]] by blast
  have "seen \<union> set (pre @ [name]) = insert name (seen \<union> set pre)" by auto
  then have "\<exists>b'. merge_in_order env u raw g names b1 = Some b' \<and> resolving raw (seen \<union> set (topo_order g)) b'"
    using Cons.IH [of "pre @ [name]" b1] Cons.prems(1) b1(2) by simp
  then show ?case using b1(1) by simp
qed

section \<open>The hierarchy of what resolved\<close>

lemma modify_all:
  "distinct (map fst ups) \<Longrightarrow> fold (\<lambda>(n, cs, ds). index_modify n (set_hierarchy cs ds)) ups m
    = map (\<lambda>(n, s). (n, case map_of ups n of Some (cs, ds) \<Rightarrow> set_hierarchy cs ds s | None \<Rightarrow> s)) m"
proof (induction ups arbitrary: m)
  case (Cons up ups)
  obtain n cs ds where up: "up = (n, cs, ds)" by (metis surj_pair)
  then have "map_of ups n = None" using Cons.prems by (simp add: map_of_eq_None_iff)
  then show ?case using Cons by (auto simp: up index_modify_def)
qed (auto simp: map_idI)

lemma resolved_edges_field:
  "(n, p) \<in> resolved_edges raw D \<Longrightarrow> n \<noteq> global_schema_name \<and> n \<in> D \<and> p \<in> D"
  by (auto simp: resolved_edges_def)

lemma resolved_extends:
  assumes "D \<subseteq> fst ` set raw" "p \<noteq> global_schema_name"
  shows "(n, p) \<in> resolved_edges raw D \<longleftrightarrow> (n, p) \<in> extends_edges raw global_schema_name \<and> n \<in> D \<and> p \<in> D"
    and "(n, p) \<in> (resolved_edges raw D)\<^sup>+ \<Longrightarrow> (n, p) \<in> (extends_edges raw global_schema_name)\<^sup>+"
proof -
  show edge: "(n, p) \<in> resolved_edges raw D \<longleftrightarrow> (n, p) \<in> extends_edges raw global_schema_name \<and> n \<in> D \<and> p \<in> D"
    using assms by (auto simp: resolved_edges_def extends_edges_def)
  have ext: "(n, q) \<in> resolved_edges raw D \<Longrightarrow> q \<noteq> global_schema_name \<Longrightarrow> (n, q) \<in> extends_edges raw global_schema_name" for n q
    using assms(1) by (auto simp: resolved_edges_def extends_edges_def)
  show "(n, p) \<in> (extends_edges raw global_schema_name)\<^sup>+" if "(n, p) \<in> (resolved_edges raw D)\<^sup>+"
    using that
  proof (induction rule: converse_trancl_induct)
    case (base n)
    then show ?case using assms(2) ext by blast
  next
    case (step n m)
    then have "m \<noteq> global_schema_name" using resolved_edges_field by (blast dest: tranclD)
    then have "(n, m) \<in> extends_edges raw global_schema_name" using ext step.hyps(1) by blast
    then show ?case using step.IH by (rule trancl_into_trancl2)
  qed
qed

definition registry_holds :: "raw_schemas \<Rightarrow> string set \<Rightarrow> string \<Rightarrow> schema \<Rightarrow> bool" where
  "registry_holds raw D n s \<longleftrightarrow> schema_name s = n \<and> set (schema_ancestors s) = {a. (n, a) \<in> (resolved_edges raw D)\<^sup>+}
     \<and> (n \<noteq> global_schema_name \<longrightarrow> set (schema_children s) = {c. (c, n) \<in> resolved_edges raw D}
        \<and> set (schema_descendants s) = {d. (d, n) \<in> (resolved_edges raw D)\<^sup>+})"

lemma compute_hierarchy_exact:
  assumes fit: "schemas_fit raw" and built: "graph_build (fst (graph_builder_new raw global_schema_name)) = Some (Ok g)"
    and inv: "resolving raw seen b" "seen \<subseteq> fst ` set raw"
  shows "fst ` set (sb_resolved (compute_hierarchy g b)) = fst ` set (sb_resolved b)"
    "sb_failures (compute_hierarchy g b) = sb_failures b"
    "\<forall>(n, s)\<in>set (sb_resolved (compute_hierarchy g b)). registry_holds raw (fst ` set (sb_resolved b)) n s
      \<and> (\<forall>(f, d)\<in>set (schema_fields s). kind_ok (def_kind d)) \<and> required_ok n s"
proof -
  let ?m = "sb_resolved b" and ?names = "schema_names raw global_schema_name"
  let ?D = "fst ` set ?m" and ?X = "extends_edges raw global_schema_name"
  let ?R = "resolved_edges raw ?D"
  define cs where "cs = (\<lambda>n. filter (\<lambda>c. (c, n) \<in> ?X \<and> still_descends_from ?m c n) (topo_order g))"
  define ds where "ds = (\<lambda>n. filter (\<lambda>d. (d, n) \<in> ?X\<^sup>+ \<and> still_descends_from ?m d n) (topo_order g))"
  define ups where "ups = map (\<lambda>n. (n, cs n, ds n)) (filter (\<lambda>n. map_of ?m n \<noteq> None) ?names)"
  have rows: "hierarchy g (still_descends_from ?m) = map (\<lambda>n. (n, cs n, ds n)) ?names"
    unfolding hierarchy_rows [OF fit built] cs_def ds_def ..
  have "filter (\<lambda>(name, children, descendants). map_of ?m name \<noteq> None) (hierarchy g (still_descends_from ?m)) = ups"
    unfolding rows ups_def by (simp add: filter_map comp_def)
  moreover have "distinct (map fst ups)" using schema_names_simps(1) [OF fit] by (simp add: ups_def comp_def)
  ultimately have result: "sb_resolved (compute_hierarchy g b)
      = map (\<lambda>(n, s). (n, case map_of ups n of Some (cs, ds) \<Rightarrow> set_hierarchy cs ds s | None \<Rightarrow> s)) ?m"
    using modify_all [of ups ?m] by (simp add: compute_hierarchy_def Let_def)
  then show "fst ` set (sb_resolved (compute_hierarchy g b)) = ?D" by force
  show "sb_failures (compute_hierarchy g b) = sb_failures b" by (simp add: compute_hierarchy_def Let_def)
  have D: "?D \<subseteq> fst ` set raw" using inv by (auto simp: resolving_def)
  have ups: "map_of ups n = (if n \<in> ?D \<and> n \<noteq> global_schema_name then Some (cs n, ds n) else None)" for n
  proof -
    have "map_of ups n = (if n \<in> set (filter (\<lambda>n. map_of ?m n \<noteq> None) ?names) then Some (cs n, ds n) else None)"
      unfolding ups_def by (simp add: map_of_map_restrict restrict_map_def)
    moreover have "n \<in> set (filter (\<lambda>n. map_of ?m n \<noteq> None) ?names) \<longleftrightarrow> n \<in> ?D \<and> n \<noteq> global_schema_name"
      using schema_names_simps(4) [OF fit, of n global_schema_name] D map_of_eq_None_iff [of ?m n] by auto
    ultimately show ?thesis by simp
  qed
  obtain V where g: "graph_holds raw global_schema_name V g"
    using graph_build_cases [OF fit, of global_schema_name] built by (auto split: if_splits)
  have order: "c \<in> set (topo_order g) \<longleftrightarrow> c \<noteq> global_schema_name \<and> c \<in> fst ` set raw" for c
    using graph_holds_order(2) [OF fit g] schema_names_simps(4) [OF fit] by simp
  have still: "still_descends_from ?m c n \<longleftrightarrow> (c, n) \<in> ?R\<^sup>+" for c n
  proof (cases "map_of ?m c")
    case None
    then have "c \<notin> ?D" by (simp add: map_of_eq_None_iff)
    then have "(c, n) \<notin> ?R\<^sup>+" using resolved_edges_field by (blast dest: tranclD)
    then show ?thesis using None by (simp add: still_descends_from_def)
  next
    case (Some s)
    then show ?thesis using resolving_schema [OF inv(1) Some] by (simp add: still_descends_from_def schema_ok_def)
  qed
  have sets: "set (cs n) = {c. (c, n) \<in> ?R}" "set (ds n) = {d. (d, n) \<in> ?R\<^sup>+}" if n: "n \<in> ?D" "n \<noteq> global_schema_name" for n
  proof -
    have src: "c \<in> set (topo_order g) \<and> c \<in> ?D" if path: "(c, n) \<in> ?R\<^sup>+" for c
    proof -
      obtain q where "(c, q) \<in> ?R" using tranclD [OF path] by blast
      then have "c \<noteq> global_schema_name" "c \<in> ?D" using resolved_edges_field by blast+
      then show ?thesis using order D by blast
    qed
    show "set (cs n) = {c. (c, n) \<in> ?R}"
      using src resolved_extends(1) [OF D n(2)] n(1) by (auto simp: cs_def still)
    show "set (ds n) = {d. (d, n) \<in> ?R\<^sup>+}"
      using src resolved_extends(2) [OF D n(2)] by (auto simp: ds_def still)
  qed
  show "\<forall>(n, s)\<in>set (sb_resolved (compute_hierarchy g b)). registry_holds raw ?D n s
      \<and> (\<forall>(f, d)\<in>set (schema_fields s). kind_ok (def_kind d)) \<and> required_ok n s"
  proof (intro ballI)
    fix x
    assume "x \<in> set (sb_resolved (compute_hierarchy g b))"
    then obtain n s where x: "x = (n, case map_of ups n of Some (cs, ds) \<Rightarrow> set_hierarchy cs ds s | None \<Rightarrow> s)"
      and mem: "(n, s) \<in> set ?m" unfolding result by auto
    then have n: "n \<in> ?D" by force
    have s: "schema_ok raw ?D n s" "required_ok n s" "\<forall>(f, d)\<in>set (schema_fields s). kind_ok (def_kind d)"
      using mem inv(1) by (auto simp: resolving_def fields_ok_def)
    show "case x of (n, s) \<Rightarrow> registry_holds raw ?D n s
        \<and> (\<forall>(f, d)\<in>set (schema_fields s). kind_ok (def_kind d)) \<and> required_ok n s"
    proof (cases "n = global_schema_name")
      case True
      then show ?thesis using x s ups by (simp add: registry_holds_def schema_ok_def)
    next
      case False
      then show ?thesis
        using x s ups [of n] n sets [OF n False] by (simp add: registry_holds_def schema_ok_def set_hierarchy_def required_ok_def)
    qed
  qed
qed

lemma schema_build_cases:
  assumes fit: "schemas_fit raw"
  shows "\<exists>r. schema_builder_build env u raw c = Some r \<and> (case r of
      Err e \<Rightarrow> (\<exists>rs c'. map_of raw global_schema_name = Some rs
            \<and> merge_schema env u [] global_schema_name rs [] c = (Err e, c'))
          \<or> (\<exists>cyclic. e = SchemaCycle cyclic \<and> cyclic \<noteq> [] \<and> set cyclic = {n. (n, n) \<in> (extends_edges raw global_schema_name)\<^sup>+})
    | Ok r \<Rightarrow> acyclic (extends_edges raw global_schema_name)
        \<and> fst ` set (rs_schemas r) \<union> fst ` set (rs_failures r) = fst ` set raw
        \<and> fst ` set (rs_schemas r) \<inter> fst ` set (rs_failures r) = {}
        \<and> (\<forall>(n, s)\<in>set (rs_schemas r). registry_holds raw (fst ` set (rs_schemas r)) n s
          \<and> (\<forall>(f, d)\<in>set (schema_fields s). kind_ok (def_kind d)) \<and> required_ok n s))"
proof (cases "resolve_global env u raw (schema_builder_new c)")
  case (Inl e)
  then have "\<exists>rs c'. map_of raw global_schema_name = Some rs \<and> merge_schema env u [] global_schema_name rs [] c = (Err e, c')"
    by (auto simp: resolve_global_def schema_builder_new_def split: option.splits prod.splits sum.splits)
  then show ?thesis using Inl by (simp add: schema_builder_build_def)
next
  case (Inr b)
  let ?gb = "fst (graph_builder_new raw global_schema_name)"
  let ?b = "b \<lparr> sb_warnings := sb_warnings b @ snd (graph_builder_new raw global_schema_name) \<rparr>"
  let ?seen = "{global_schema_name} \<inter> fst ` set raw"
  obtain cyc V g where graph: "set cyc = {n. (n, n) \<in> (extends_edges raw global_schema_name)\<^sup>+}"
    "graph_build ?gb = Some (if cyc = [] then Ok g else Err cyc)" "cyc = [] \<longrightarrow> graph_holds raw global_schema_name V g"
    using graph_build_cases [OF fit, of global_schema_name] by blast
  have build: "schema_builder_build env u raw c = Option.bind (graph_build ?gb) (\<lambda>r. case r of
      Inl cyclic \<Rightarrow> Some (Err (SchemaCycle cyclic))
    | Inr g \<Rightarrow> map_option (\<lambda>b. Ok (builder_finish (compute_hierarchy g b))) (merge_in_topological_order env u raw g ?b))"
    using Inr by (simp add: schema_builder_build_def case_prod_beta Let_def)
  show ?thesis
  proof (cases "cyc = []")
    case False
    then show ?thesis using graph build by (intro exI [of _ "Err (SchemaCycle cyc)"]) simp
  next
    case True
    then have g: "graph_build ?gb = Some (Ok g)" "graph_holds raw global_schema_name V g" using graph by simp_all
    have "resolving raw ?seen b" using resolve_global_inv [OF Inr] by blast
    then have "resolving raw (?seen \<union> set []) ?b" by (simp add: resolving_def)
    then obtain b' where b': "merge_in_order env u raw g (topo_order g) ?b = Some b'" "resolving raw (?seen \<union> set (topo_order g)) b'"
      using merge_in_order_inv [OF fit g(1), of "[]" "topo_order g" ?seen ?b] by auto
    have all: "?seen \<union> set (topo_order g) = fst ` set raw"
      using graph_holds_order(2) [OF fit g(2)] schema_names_simps(4) [OF fit] by auto
    note H = compute_hierarchy_exact [OF fit g(1) b'(2)]
    have "acyclic (extends_edges raw global_schema_name)" using graph(1) True by (auto simp: acyclic_def)
    moreover have "schema_builder_build env u raw c = Some (Ok (builder_finish (compute_hierarchy g b')))"
      using build g(1) b'(1) by (simp add: merge_in_topological_order_def topological_order_def)
    ultimately show ?thesis
      using H all b'(2) by (simp add: builder_finish_def resolving_def)
  qed
qed

section \<open>Properties of resolution\<close>

text \<open>C7. Resolution always returns and never panics.  It fails only on a cycle of \<open>extends\<close>, naming every
  schema on one, or when the Global Schema itself does not merge.  Otherwise every schema either resolved
  or failed, and a resolved schema's ancestors are exactly the schemas its links between resolved schemas
  lead to; its children and descendants (the Global Schema has none) are exactly those linked to it.\<close>

theorem schema_resolution_exact:
  assumes "schemas_fit raw"
  shows "\<exists>r. schema_builder_build env u raw c = Some r \<and> (case r of
      Err e \<Rightarrow> (\<exists>rs c'. map_of raw global_schema_name = Some rs
            \<and> merge_schema env u [] global_schema_name rs [] c = (Err e, c'))
          \<or> (\<exists>cyclic. e = SchemaCycle cyclic \<and> cyclic \<noteq> [] \<and> set cyclic = {n. (n, n) \<in> (extends_edges raw global_schema_name)\<^sup>+})
    | Ok r \<Rightarrow> acyclic (extends_edges raw global_schema_name)
        \<and> fst ` set (rs_schemas r) \<union> fst ` set (rs_failures r) = fst ` set raw
        \<and> fst ` set (rs_schemas r) \<inter> fst ` set (rs_failures r) = {}
        \<and> (let links = resolved_edges raw (fst ` set (rs_schemas r)) in
            \<forall>(n, s)\<in>set (rs_schemas r). schema_name s = n \<and> set (schema_ancestors s) = {a. (n, a) \<in> links\<^sup>+}
              \<and> (n \<noteq> global_schema_name \<longrightarrow> set (schema_children s) = {x. (x, n) \<in> links}
                  \<and> set (schema_descendants s) = {d. (d, n) \<in> links\<^sup>+})))"
proof -
  obtain r where r: "schema_builder_build env u raw c = Some r" "case r of
      Err e \<Rightarrow> (\<exists>rs c'. map_of raw global_schema_name = Some rs
            \<and> merge_schema env u [] global_schema_name rs [] c = (Err e, c'))
          \<or> (\<exists>cyclic. e = SchemaCycle cyclic \<and> cyclic \<noteq> [] \<and> set cyclic = {n. (n, n) \<in> (extends_edges raw global_schema_name)\<^sup>+})
    | Ok r \<Rightarrow> acyclic (extends_edges raw global_schema_name)
        \<and> fst ` set (rs_schemas r) \<union> fst ` set (rs_failures r) = fst ` set raw
        \<and> fst ` set (rs_schemas r) \<inter> fst ` set (rs_failures r) = {}
        \<and> (\<forall>(n, s)\<in>set (rs_schemas r). registry_holds raw (fst ` set (rs_schemas r)) n s
          \<and> (\<forall>(f, d)\<in>set (schema_fields s). kind_ok (def_kind d)) \<and> required_ok n s)"
    using schema_build_cases [OF assms] by blast
  then show ?thesis by (cases r) (auto simp: registry_holds_def Let_def)
qed

text \<open>C10. Every field of every resolved schema is well formed: the bounds of a number field are finite and
  ordered and its step is finite and positive; the entries of a select field have a text for value and
  label, and passthrough keys that are distinct and neither of those two; and no field of the Global Schema
  is required.\<close>

theorem resolved_fields_well_formed:
  assumes "schemas_fit raw" "schema_builder_build env u raw c = Some (Ok r)" "(n, s) \<in> set (rs_schemas r)"
    "(f, d) \<in> set (schema_fields s)"
  shows "(case def_kind d of
      NumberField num \<Rightarrow> (\<forall>x. number_min num = Some x \<or> number_max num = Some x \<longrightarrow> f64_is_finite x)
        \<and> (\<forall>x. number_step num = Some x \<longrightarrow> f64_is_finite x \<and> f64_less 0 x)
        \<and> (\<forall>l h. number_min num = Some l \<and> number_max num = Some h \<longrightarrow> \<not> f64_less h l)
    | SelectField sel \<Rightarrow> (\<forall>e\<in>set (select_entries sel). is_text (entry_value e) \<and> is_text (entry_label e)
        \<and> distinct (map fst (entry_extra e)) \<and> {''value'', ''label''} \<inter> fst ` set (entry_extra e) = {})
    | _ \<Rightarrow> True) \<and> (n = global_schema_name \<longrightarrow> \<not> def_required d)"
proof -
  have "kind_ok (def_kind d)" "n = global_schema_name \<longrightarrow> \<not> def_required d"
    using schema_build_cases [OF assms(1), of env u c] assms(2-4) by (auto simp: required_ok_def)
  then show ?thesis
    by (cases "def_kind d") (auto simp: number_ok_def entry_ok_def list_all_iff)
qed

section \<open>A vault of schemas\<close>

definition plain_env :: "unit field_env" where
  "plain_env = \<lparr> debug_value = (\<lambda>_. ''?''), debug_values = (\<lambda>_. ''?''), debug_text = (\<lambda>s. s), number_text = (\<lambda>_. ''?''),
     foreign_text = (\<lambda>_. ''?''), strict_text = (\<lambda>_. ''?''), open_boundary = Ok, join_strictly = (\<lambda>root p. Ok (root @ p)),
     read_text = (\<lambda>_. Err ()), read_toml = (\<lambda>_. Err ()), read_json = (\<lambda>_. Err ()) \<rparr>"

definition ascii_unicode :: unicode where
  "ascii_unicode = \<lparr> wide_alphabetic = (\<lambda>_. False), wide_alphanumeric = (\<lambda>_. False), wide_lowercase = id \<rparr>"

definition declared :: "string list \<Rightarrow> (string \<times> raw_field_def) list \<Rightarrow> raw_schema" where
  "declared parents fs = \<lparr> raw_extends = parents, raw_excludes = [], raw_fields = fs \<rparr>"

definition status_field :: "string list \<Rightarrow> raw_field_def" where
  "status_field choices = \<lparr> raw_source = DirectSource RawSelect, raw_required = Some True, raw_multi = None,
     raw_options = [(''values'', DocList (map DocString choices))] \<rparr>"

definition book_schemas :: raw_schemas where
  "book_schemas = [(''sci_fi'', declared [''book'', ''ghost''] []),
     (''book'', declared [] [(''status'', status_field [''draft'', ''done''])]),
     (''broken'', declared [''book''] [(''rating'', \<lparr> raw_source = DirectSource RawNumber, raw_required = None,
        raw_multi = None, raw_options = [(''min'', DocString ''low'')] \<rparr>)])]"

lemma book_schemas_fit: "schemas_fit book_schemas"
  by (simp add: book_schemas_def declared_def schemas_fit_def u32_max_def)

definition status_def :: field_def where
  "status_def = \<lparr> def_kind = SelectField \<lparr> select_entries = [literal_entry ''draft'', literal_entry ''done''] \<rparr>,
     def_required = True, def_multi = False \<rparr>"

definition book_registry :: "unit resolved_schemas" where
  "book_registry = \<lparr> rs_schemas = [
       (''book'', \<lparr> schema_name = ''book'', schema_fields = [(''status'', status_def)], schema_ancestors = [],
          schema_children = [''sci_fi''], schema_descendants = [''sci_fi''] \<rparr>),
       (''sci_fi'', \<lparr> schema_name = ''sci_fi'', schema_fields = [(''status'', status_def)], schema_ancestors = [''book''],
          schema_children = [], schema_descendants = [] \<rparr>)],
     rs_warnings = [MissingExtendsTarget ''sci_fi'' ''ghost'', ParentFailedToResolve ''sci_fi'' ''ghost''],
     rs_failures = [(''broken'', FieldBuildError (OptionErrors [TypeMismatch
       \<lparr> address_schema = ''broken'', address_field = ''rating'' \<rparr> TagNumber ''min'' ''?'' ''a number'']))] \<rparr>"

lemma book_schemas_resolve:
  "schema_builder_build plain_env ascii_unicode book_schemas (values_cache_new []) = Some (Ok book_registry)"
  by code_simp

theorem schema_resolution_exact_witness:
  "schemas_fit book_schemas \<and> (\<exists>r. schema_builder_build plain_env ascii_unicode book_schemas (values_cache_new []) = Some (Ok r)
    \<and> fst ` set (rs_schemas r) \<union> fst ` set (rs_failures r) = {''book'', ''sci_fi'', ''broken''}
    \<and> (let links = resolved_edges book_schemas (fst ` set (rs_schemas r)) in
        \<forall>(n, s)\<in>set (rs_schemas r). set (schema_ancestors s) = {a. (n, a) \<in> links\<^sup>+}))"
proof -
  have "fst ` set book_schemas = {''book'', ''sci_fi'', ''broken''}" by (auto simp: book_schemas_def)
  then show ?thesis
    using schema_resolution_exact [OF book_schemas_fit, of plain_env ascii_unicode "values_cache_new []"]
      book_schemas_fit book_schemas_resolve
    by (fastforce simp: Let_def)
qed

theorem resolved_fields_well_formed_witness:
  "schema_builder_build plain_env ascii_unicode book_schemas (values_cache_new []) = Some (Ok book_registry)
    \<and> list_all (\<lambda>e. is_text (entry_value e) \<and> is_text (entry_label e) \<and> distinct (map fst (entry_extra e))
        \<and> {''value'', ''label''} \<inter> fst ` set (entry_extra e) = {}) [literal_entry ''draft'', literal_entry ''done'']"
  using resolved_fields_well_formed [OF book_schemas_fit book_schemas_resolve, of "''book''"
      "\<lparr> schema_name = ''book'', schema_fields = [(''status'', status_def)], schema_ancestors = [],
         schema_children = [''sci_fi''], schema_descendants = [''sci_fi''] \<rparr>" "''status''" status_def]
    book_schemas_resolve
  by (simp add: book_registry_def status_def_def)

theorem merged_fields_exact_witness:
  "\<exists>s ws c'. merge_schema plain_env ascii_unicode [(''book'', schema_new ''book'' [(''status'', status_def)] [])] ''sci_fi''
      (declared [''book''] []) [''book''] (values_cache_new []) = (Ok (s, ws), c')
    \<and> schema_field s ''status'' = Some status_def \<and> set (schema_ancestors s) = {''book''}"
proof -
  let ?resolved = "[(''book'', schema_new ''book'' [(''status'', status_def)] [])]"
  have "merge_schema plain_env ascii_unicode ?resolved ''sci_fi'' (declared [''book''] []) [''book''] (values_cache_new [])
      = (Ok (schema_new ''sci_fi'' [(''status'', status_def)] [''book''], []), values_cache_new [])"
    by code_simp
  moreover have "distinct (map fst (raw_fields (declared [''book''] [])))" by (simp add: declared_def)
  ultimately show ?thesis
    using merged_fields_exact [of plain_env ascii_unicode ?resolved "''sci_fi''" "declared [''book''] []" "[''book'']"
        "values_cache_new []" _ _ _ "''status''"]
    by (fastforce simp: declared_def schema_new_def schema_field_def)
qed

section \<open>Degraded overrides\<close>










end
