(* ===== verification/Schema_Service.thy ===== *)
theory Schema_Service
  imports Schema_Registry Sources
begin

text \<open>
  The registry the program holds (\<open>src/schema/service.rs\<close>): reading the schema directory, loading, the
  queries on the hierarchy, and the expansion of File Classes in query sources
  (\<open>src/file_class_expander.rs\<close>).  Log output is dropped.
\<close>

section \<open>Loading\<close>

text \<open>An entry of the directory listing: an error of the walk, or the path of a node.\<close>

datatype 'x dir_tree_error = MissingRoot path 'x | RootInaccessible path 'x | NodeInaccessible path 'x

fun dir_error_parts :: "'x dir_tree_error \<Rightarrow> path \<times> 'x" where
  "dir_error_parts (MissingRoot p x) = (p, x)"
| "dir_error_parts (RootInaccessible p x) = (p, x)"
| "dir_error_parts (NodeInaccessible p x) = (p, x)"

fun read_raw_schemas ::
  "('x, 'z) field_env_scheme \<Rightarrow> (string \<Rightarrow> ('x, raw_schema) result) \<Rightarrow> ('x dir_tree_error, path) result list \<Rightarrow> raw_schemas
    \<Rightarrow> ('x schema_error, raw_schemas) result"
where
  "read_raw_schemas env parse [] raws = Ok raws"
| "read_raw_schemas env parse (node # nodes) raws = (case node of
       Inl (MissingRoot p x) \<Rightarrow> Ok []
     | Inl e \<Rightarrow> (let (directory, source) = dir_error_parts e in Err (ReadDirectory directory source))
     | Inr p \<Rightarrow>
         if extension p \<noteq> Some ''toml'' then read_raw_schemas env parse nodes raws
         else (case file_stem p of
             None \<Rightarrow> read_raw_schemas env parse nodes raws
           | Some stem \<Rightarrow>
               and_then (map_err (SchemaFileError p \<circ> SchemaFileIo) (read_text env p)) (\<lambda>contents.
               and_then (map_err (SchemaFileError p \<circ> SchemaFileParse) (parse contents)) (\<lambda>raw.
               read_raw_schemas env parse nodes (index_insert stem raw raws)))))"

record schema_service =
  service_schemas :: schemas

record 'x schema_construction =
  built_service :: schema_service
  built_warnings :: "schema_warning list"
  built_failures :: "(string \<times> 'x schema_error) list"

definition construction_of :: "'x resolved_schemas \<Rightarrow> 'x schema_construction" where
  "construction_of r = \<lparr> built_service = \<lparr> service_schemas = rs_schemas r \<rparr>, built_warnings = rs_warnings r,
     built_failures = rs_failures r \<rparr>"

definition load_verbose ::
  "('x, 'z) field_env_scheme \<Rightarrow> unicode \<Rightarrow> (string \<Rightarrow> ('x, raw_schema) result) \<Rightarrow> ('x dir_tree_error, path) result list
    \<Rightarrow> path \<Rightarrow> ('x schema_error, 'x schema_construction) result option"
where
  "load_verbose env u parse nodes directory =
     (case read_raw_schemas env parse nodes [] of
        Inl e \<Rightarrow> Some (Err e)
      | Inr raw \<Rightarrow> map_option (\<lambda>r. and_then r (Ok \<circ> construction_of))
          (schema_builder_build env u raw (values_cache_new directory)))"

section \<open>Queries\<close>

definition service_get :: "schema_service \<Rightarrow> string \<Rightarrow> schema option" where
  "service_get svc name = map_of (service_schemas svc) name"

definition schema_by_name :: "schema \<Rightarrow> schema \<Rightarrow> ordering" where
  "schema_by_name a b = compare (schema_name a) (schema_name b)"

definition children_of :: "schema_service \<Rightarrow> string \<Rightarrow> schema list" where
  "children_of svc name = (case service_get svc name of
       None \<Rightarrow> []
     | Some s \<Rightarrow> sort_by schema_by_name (List.map_filter (service_get svc) (schema_children s)))"

definition children_names_of :: "schema_service \<Rightarrow> string \<Rightarrow> string list" where
  "children_names_of svc name = (case service_get svc name of None \<Rightarrow> [] | Some s \<Rightarrow> schema_children s)"

definition schema_descendants_of :: "schema_service \<Rightarrow> string \<Rightarrow> schema list" where
  "schema_descendants_of svc name = (case service_get svc name of
       None \<Rightarrow> []
     | Some s \<Rightarrow> sort_by schema_by_name (List.map_filter (service_get svc) (schema_descendants s)))"

definition service_matches :: "schema_service \<Rightarrow> string list \<Rightarrow> string list" where
  "service_matches svc cls_names = fold (\<lambda>cls found. case service_get svc cls of
       None \<Rightarrow> found
     | Some s \<Rightarrow> fold set_insert (schema_descendants s) found) cls_names (fold set_insert cls_names [])"

text \<open>A \<open>BTreeSet\<close> is collected: ascending, each element once.\<close>

definition expand_classes :: "schema_service \<Rightarrow> class_expander" where
  "expand_classes svc cls_names mode =
     (let expanded = (case mode of
          ExactClasses _ \<Rightarrow> fold set_insert cls_names []
        | ChildClasses _ \<Rightarrow> fold (\<lambda>cls found. fold set_insert (children_names_of svc cls) found) cls_names
            (fold set_insert cls_names [])
        | DescendantClasses _ \<Rightarrow> service_matches svc cls_names)
      in set_classes (sort (remdups expanded)) mode)"

section \<open>What is read\<close>

lemma read_raw_schemas_distinct:
  "read_raw_schemas env parse nodes raws = Ok raw \<Longrightarrow> distinct (map fst raws) \<Longrightarrow> distinct (map fst raw)"
proof (induction nodes arbitrary: raws)
  case (Cons node nodes)
  show ?case
  proof (cases node)
    case (Inl e)
    then show ?thesis using Cons.prems by (cases e) auto
  next
    case (Inr p)
    then show ?thesis
      using Cons by (auto simp: and_then_eq_Ok split: if_splits option.splits)
  qed
qed simp

section \<open>Expansion of classes\<close>

lemma mode_classes_set [simp]: "mode_classes (set_classes resolved mode) = resolved"
  by (cases mode) auto

lemma set_service_matches:
  "set (service_matches svc cls_names) = set cls_names
    \<union> (\<Union>cls\<in>set cls_names. case service_get svc cls of Some s \<Rightarrow> set (schema_descendants s) | None \<Rightarrow> {})"
proof -
  have "set (fold (\<lambda>cls found. case service_get svc cls of None \<Rightarrow> found
      | Some s \<Rightarrow> fold set_insert (schema_descendants s) found) cls_names acc)
    = set acc \<union> (\<Union>cls\<in>set cls_names. case service_get svc cls of Some s \<Rightarrow> set (schema_descendants s) | None \<Rightarrow> {})" for acc
    by (induction cls_names arbitrary: acc) (auto split: option.splits)
  then show ?thesis by (simp add: service_matches_def)
qed

lemma set_children_fold:
  "set (fold (\<lambda>cls found. fold set_insert (children_names_of svc cls) found) cls_names acc)
    = set acc \<union> (\<Union>cls\<in>set cls_names. set (children_names_of svc cls))"
  by (induction cls_names arbitrary: acc) auto

text \<open>Every class but the Global Schema is expanded along the links between resolved schemas.\<close>

lemma registry_links:
  assumes "\<forall>(n, s)\<in>set schemas. registry_holds raw (fst ` set schemas) n s"
    and "cls \<noteq> global_schema_name" "svc = \<lparr> service_schemas = schemas \<rparr>"
  shows "set (children_names_of svc cls) = {x. (x, cls) \<in> resolved_edges raw (fst ` set schemas)}"
    and "(case service_get svc cls of Some s \<Rightarrow> set (schema_descendants s) | None \<Rightarrow> {})
      = {x. (x, cls) \<in> (resolved_edges raw (fst ` set schemas))\<^sup>+}"
proof -
  let ?R = "resolved_edges raw (fst ` set schemas)"
  have "set (children_names_of svc cls) = {x. (x, cls) \<in> ?R}
      \<and> (case service_get svc cls of Some s \<Rightarrow> set (schema_descendants s) | None \<Rightarrow> {}) = {x. (x, cls) \<in> ?R\<^sup>+}"
  proof (cases "map_of schemas cls")
    case None
    then have "cls \<notin> fst ` set schemas" by (simp add: map_of_eq_None_iff)
    then have "(x, cls) \<notin> ?R" "(x, cls) \<notin> ?R\<^sup>+" for x
      using resolved_edges_field by (blast, blast dest: tranclD2)
    then show ?thesis using None by (simp add: children_names_of_def service_get_def assms(3))
  next
    case (Some s)
    then have "registry_holds raw (fst ` set schemas) cls s" using assms(1) map_of_SomeD by fast
    then show ?thesis using Some assms(2) by (simp add: children_names_of_def service_get_def assms(3) registry_holds_def)
  qed
  then show "set (children_names_of svc cls) = {x. (x, cls) \<in> ?R}"
    and "(case service_get svc cls of Some s \<Rightarrow> set (schema_descendants s) | None \<Rightarrow> {}) = {x. (x, cls) \<in> ?R\<^sup>+}"
    by blast+
qed

text \<open>C17. Expanding the classes of a query source on a resolved registry: exactly the classes named; with
  their children, also the schemas linked directly to one of them; with descendants, also the schemas
  linked to one of them through others.  The result is ascending and holds a class once.\<close>

theorem class_expansion_exact:
  assumes "schemas_fit raw" "schema_builder_build env u raw c = Some (Ok r)" "global_schema_name \<notin> set cls_names"
  shows "let links = resolved_edges raw (fst ` set (rs_schemas r));
      expanded = mode_classes (expand_classes (built_service (construction_of r)) cls_names mode)
    in sorted expanded \<and> distinct expanded \<and> set expanded = set cls_names \<union> (case mode of
        ExactClasses _ \<Rightarrow> {}
      | ChildClasses _ \<Rightarrow> {x. \<exists>cls\<in>set cls_names. (x, cls) \<in> links}
      | DescendantClasses _ \<Rightarrow> {x. \<exists>cls\<in>set cls_names. (x, cls) \<in> links\<^sup>+})"
proof -
  let ?svc = "built_service (construction_of r)"
  have "\<forall>(n, s)\<in>set (rs_schemas r). registry_holds raw (fst ` set (rs_schemas r)) n s"
    using schema_build_cases [OF assms(1), of env u c] assms(2) by auto
  note links = registry_links [OF this, of _ ?svc]
  have svc: "?svc = \<lparr> service_schemas = rs_schemas r \<rparr>" by (simp add: construction_of_def)
  have ne: "cls \<noteq> global_schema_name" if "cls \<in> set cls_names" for cls using that assms(3) by blast
  have "(\<Union>cls\<in>set cls_names. set (children_names_of ?svc cls))
      = (\<Union>cls\<in>set cls_names. {x. (x, cls) \<in> resolved_edges raw (fst ` set (rs_schemas r))})"
    by (rule SUP_cong [OF refl]) (rule links(1) [OF ne svc])
  moreover have "(\<Union>cls\<in>set cls_names. case service_get ?svc cls of Some s \<Rightarrow> set (schema_descendants s) | None \<Rightarrow> {})
      = (\<Union>cls\<in>set cls_names. {x. (x, cls) \<in> (resolved_edges raw (fst ` set (rs_schemas r)))\<^sup>+})"
    by (rule SUP_cong [OF refl]) (rule links(2) [OF ne svc])
  ultimately show ?thesis
    by (cases mode) (auto simp: expand_classes_def Let_def set_children_fold set_service_matches)
qed

theorem class_expansion_exact_witness:
  "expand_classes (built_service (construction_of book_registry)) [''book''] (DescendantClasses [])
      = DescendantClasses [''book'', ''sci_fi'']
    \<and> (let links = resolved_edges book_schemas (fst ` set (rs_schemas book_registry)) in
      {''book'', ''sci_fi''} = {''book''} \<union> {x. (x, ''book'') \<in> links\<^sup>+})"
proof -
  have run: "expand_classes (built_service (construction_of book_registry)) [''book''] (DescendantClasses [])
      = DescendantClasses [''book'', ''sci_fi'']"
    by code_simp
  have "global_schema_name \<notin> set [''book'']" by (simp add: global_schema_name_def)
  from class_expansion_exact [OF book_schemas_fit book_schemas_resolve this, of "DescendantClasses []"]
  show ?thesis unfolding run by (simp add: Let_def)
qed

end
